(* ===== verification/Prelude.thy ===== *)
theory Prelude
  imports Main "HOL-Library.Word"
begin

text \<open>
  Shared vocabulary of the development: the errors a C++ call can end in, the two result
  monads (pure results for the parser, results with a state for everything that mutates
  shared objects), and the named collections the component theories extend.

  A thrown exception does not undo what was already written: the worker catches it and goes
  on with the objects as they are.  So a stateful call is a function from a state to a result
  \<^emph>\<open>and\<close> a state, also when the result is an error.
\<close>

section \<open>Errors\<close>

text \<open>
  \<open>Runtime\<close> and \<open>Overflow_error\<close> carry the message of the source's \<open>throw\<close>;
  \<open>Invalid_argument\<close>, \<open>Out_of_range\<close> and \<open>Bad_optional_access\<close> are thrown by the
  standard library; \<open>Undefined\<close> is undefined behaviour (an access outside an object, an
  index outside a vector, an indeterminate value used); \<open>Blocked\<close> is a thread that waits on
  a condition variable.
\<close>

datatype error =
    Runtime string
  | Overflow_error string
  | Invalid_argument string
  | Out_of_range string
  | Bad_optional_access
  | Undefined string
  | Blocked

type_synonym 'a result = "error + 'a"

type_synonym ('s, 'a) action = "'s \<Rightarrow> 'a result \<times> 's"

named_theorems mem_simps \<open>reads over writes in byte memory\<close>
named_theorems action_simps \<open>evaluation of stateful calls\<close>
named_theorems inv_intros \<open>operations that keep an invariant\<close>

section \<open>Pure results\<close>

definition bindE :: "'a result \<Rightarrow> ('a \<Rightarrow> 'b result) \<Rightarrow> 'b result" where
  "bindE m f = (case m of Inl e \<Rightarrow> Inl e | Inr x \<Rightarrow> f x)"

lemma bindE_simps [simp]:
  "bindE (Inl e) f = Inl e"
  "bindE (Inr x) f = f x"
  by (simp_all add: bindE_def)

lemma bindE_Inr_iff: "bindE m f = Inr y \<longleftrightarrow> (\<exists>x. m = Inr x \<and> f x = Inr y)"
  by (cases m) auto

lemma bindE_InrE:
  assumes "bindE m f = Inr y"
  obtains x where "m = Inr x" and "f x = Inr y"
  using assms by (auto simp: bindE_Inr_iff)

lemma bindE_assoc: "bindE (bindE m f) g = bindE m (\<lambda>x. bindE (f x) g)"
  by (cases m) auto

lemma bindE_cong [fundef_cong]:
  "m = m' \<Longrightarrow> (\<And>x. m' = Inr x \<Longrightarrow> f x = f' x) \<Longrightarrow> bindE m f = bindE m' f'"
  by (cases m') auto

section \<open>Results with a state\<close>

definition returnS :: "'a \<Rightarrow> ('s, 'a) action" where
  "returnS x s = (Inr x, s)"

definition throwS :: "error \<Rightarrow> ('s, 'a) action" where
  "throwS e s = (Inl e, s)"

definition bindS :: "('s, 'a) action \<Rightarrow> ('a \<Rightarrow> ('s, 'b) action) \<Rightarrow> ('s, 'b) action" where
  "bindS m f s = (case m s of (Inl e, s') \<Rightarrow> (Inl e, s') | (Inr x, s') \<Rightarrow> f x s')"

text \<open>\<open>try m catch (...) { h; throw; }\<close>: the handler runs in the state of the throw.\<close>

definition rethrowS :: "('s, 'a) action \<Rightarrow> ('s, 'b) action \<Rightarrow> ('s, 'a) action" where
  "rethrowS m h s =
     (case m s of
        (Inl e, s') \<Rightarrow> (case h s' of (Inl e', s'') \<Rightarrow> (Inl e', s'') | (Inr _, s'') \<Rightarrow> (Inl e, s''))
      | (Inr x, s') \<Rightarrow> (Inr x, s'))"

definition getS :: "('s \<Rightarrow> 'a) \<Rightarrow> ('s, 'a) action" where
  "getS f s = (Inr (f s), s)"

definition putS :: "('s \<Rightarrow> 's) \<Rightarrow> ('s, unit) action" where
  "putS f s = (Inr (), f s)"

definition liftE :: "'a result \<Rightarrow> ('s, 'a) action" where
  "liftE r s = (r, s)"

lemma action_basics [simp, action_simps]:
  "returnS x s = (Inr x, s)"
  "throwS e s = (Inl e, s)"
  "getS f s = (Inr (f s), s)"
  "putS g s = (Inr (), g s)"
  "liftE r s = (r, s)"
  by (simp_all add: returnS_def throwS_def getS_def putS_def liftE_def)

lemma bindS_step [action_simps]:
  "m s = (Inr x, s') \<Longrightarrow> bindS m f s = f x s'"
  "m s = (Inl e, s') \<Longrightarrow> bindS m f s = (Inl e, s')"
  by (simp_all add: bindS_def)

lemma bindS_cong [fundef_cong]:
  "m s = m' s' \<Longrightarrow> (\<And>x t. m' s' = (Inr x, t) \<Longrightarrow> f x t = f' x t) \<Longrightarrow>
   bindS m f s = bindS m' f' s'"
  by (auto simp: bindS_def split: prod.split sum.split)

lemma bindS_basic [simp]:
  "bindS (returnS x) f s = f x s"
  "bindS (throwS e) f s = (Inl e, s)"
  "bindS (getS h) f s = f (h s) s"
  "bindS (putS g) f' s = f' () (g s)"
  "bindS (liftE (Inr x)) f s = f x s"
  "bindS (liftE (Inl e)) f s = (Inl e, s)"
  by (simp_all add: bindS_def)

lemma bindS_assoc: "bindS (bindS m f) g = bindS m (\<lambda>x. bindS (f x) g)"
  by (rule ext) (simp add: bindS_def split: prod.split sum.split)

lemma bindS_returnS: "bindS (returnS x) f = f x" "bindS m returnS = m"
  by (rule ext, simp add: bindS_def split: prod.split sum.split)+

lemma bindS_Inr_iff:
  "bindS m f s = (Inr y, t) \<longleftrightarrow> (\<exists>x s'. m s = (Inr x, s') \<and> f x s' = (Inr y, t))"
  by (auto simp: bindS_def split: prod.splits sum.splits)

lemma bindS_InrE:
  assumes "bindS m f s = (Inr y, t)"
  obtains x s' where "m s = (Inr x, s')" and "f x s' = (Inr y, t)"
  using assms by (auto simp: bindS_Inr_iff)

text \<open>
  An invariant of a sequence of calls: the first call keeps it whatever its result is, and so
  does the continuation.  The rule every \<open>_keeps\<close> lemma of the components is built with.
\<close>

definition keeps :: "('s \<Rightarrow> bool) \<Rightarrow> ('s, 'a) action \<Rightarrow> bool" where
  "keeps P m \<longleftrightarrow> (\<forall>s. P s \<longrightarrow> P (snd (m s)))"

lemma keepsI: "(\<And>s. P s \<Longrightarrow> P (snd (m s))) \<Longrightarrow> keeps P m"
  by (simp add: keeps_def)

lemma keepsD: "keeps P m \<Longrightarrow> P s \<Longrightarrow> m s = (r, t) \<Longrightarrow> P t"
  by (metis keeps_def snd_conv)

lemma keeps_bindS [inv_intros]:
  assumes "keeps P m" and "\<And>x. keeps P (f x)"
  shows "keeps P (bindS m f)"
proof (rule keepsI)
  fix s
  assume P: "P s"
  obtain r s' where m: "m s = (r, s')" by (cases "m s")
  with assms(1) P have "P s'" by (rule keepsD)
  then show "P (snd (bindS m f s))"
    using assms(2) by (cases r) (auto simp: bindS_def m keeps_def)
qed

lemma keeps_rethrowS [inv_intros]:
  assumes "keeps P m" and "keeps P h"
  shows "keeps P (rethrowS m h)"
proof (rule keepsI)
  fix s
  assume P: "P s"
  obtain r s' where m: "m s = (r, s')" by (cases "m s")
  obtain r' s'' where h: "h s' = (r', s'')" by (cases "h s'")
  have "P s'" using assms(1) P m by (rule keepsD)
  moreover have "P s''" using assms(2) \<open>P s'\<close> h by (rule keepsD)
  ultimately show "P (snd (rethrowS m h s))"
    by (cases r; cases r') (simp_all add: rethrowS_def m h)
qed

lemma keeps_basic [inv_intros]:
  "keeps P (returnS x)" "keeps P (throwS e)" "keeps P (getS h)" "keeps P (liftE r)"
  by (simp_all add: keeps_def)

lemma keeps_putS: "(\<And>s. P s \<Longrightarrow> P (g s)) \<Longrightarrow> keeps P (putS g)"
  by (simp add: keeps_def)

lemma keeps_if [inv_intros]: "keeps P m \<Longrightarrow> keeps P m' \<Longrightarrow> keeps P (if b then m else m')"
  by simp

section \<open>Lists and maps\<close>

text \<open>\<open>find_index P xs\<close>: the first position of a linear search, as the source's \<open>for\<close> loops.\<close>

fun find_index :: "('a \<Rightarrow> bool) \<Rightarrow> 'a list \<Rightarrow> nat option" where
  "find_index P [] = None"
| "find_index P (x # xs) = (if P x then Some 0 else map_option Suc (find_index P xs))"

lemma find_index_Some:
  "find_index P xs = Some i \<Longrightarrow> i < length xs \<and> P (xs ! i) \<and> (\<forall>j<i. \<not> P (xs ! j))"
proof (induction xs arbitrary: i)
  case Nil
  then show ?case by simp
next
  case (Cons x xs)
  then show ?case
    by (cases i) (auto simp: less_Suc_eq_0_disj split: if_splits)
qed

lemma find_index_None: "find_index P xs = None \<longleftrightarrow> (\<forall>x \<in> set xs. \<not> P x)"
  by (induction xs) auto

lemma find_index_Some_ex: "x \<in> set xs \<Longrightarrow> P x \<Longrightarrow> \<exists>i. find_index P xs = Some i"
  using find_index_None [of P xs] by (cases "find_index P xs") auto

end
