(* ===== verification/Js_Text.thy ===== *)
theory Js_Text
  imports Prelude
begin

text \<open>
  Text in the plugin: a string is the list of its UTF-16 units.  The theory models what
  \<open>unpackBase64Deflate\<close> (lines 13 and 17 of \<open>main.js\<close>) uses of the language's environment,
  \<open>atob\<close> and \<open>new TextDecoder().decode\<close>, and proves that they invert Base64 and UTF-8.
\<close>

type_synonym js_text = "nat list"

section \<open>Base64\<close>

definition b64_value :: "nat \<Rightarrow> nat option" where
  "b64_value u =
     (if 65 \<le> u \<and> u \<le> 90 then Some (u - 65) else if 97 \<le> u \<and> u \<le> 122 then Some (u - 71)
      else if 48 \<le> u \<and> u \<le> 57 then Some (u + 4) else if u = 43 then Some 62 else if u = 47 then Some 63 else None)"

definition ascii_space :: "nat \<Rightarrow> bool" where
  "ascii_space u \<longleftrightarrow> u = 9 \<or> u = 10 \<or> u = 12 \<or> u = 13 \<or> u = 32"

text \<open>One or two \<open>=\<close> at the end of a text of whole groups of four are taken off.\<close>

definition strip_padding :: "js_text \<Rightarrow> js_text" where
  "strip_padding us =
     (if us \<noteq> [] \<and> length us mod 4 = 0 \<and> last us = 61 then
        (if last (butlast us) = 61 then butlast (butlast us) else butlast us)
      else us)"

text \<open>Four digits of 6 bits make three bytes; the spare bits of a shorter last group are dropped.\<close>

fun b64_bytes :: "nat list \<Rightarrow> nat list" where
  "b64_bytes (a # b # c # d # vs) =
     (a * 4 + b div 16) # (b mod 16 * 16 + c div 4) # (c mod 4 * 64 + d) # b64_bytes vs"
| "b64_bytes [a, b, c] = [a * 4 + b div 16, b mod 16 * 16 + c div 4]"
| "b64_bytes [a, b] = [a * 4 + b div 16]"
| "b64_bytes [a] = []"
| "b64_bytes [] = []"

definition atob :: "js_text \<Rightarrow> js_text result" where
  "atob us =
     (let ds = strip_padding (filter (\<lambda>u. \<not> ascii_space u) us) in
      if length ds mod 4 = 1 then Inl (Runtime ''InvalidCharacterError'')
      else case those (map b64_value ds) of
        None \<Rightarrow> Inl (Runtime ''InvalidCharacterError'')
      | Some vs \<Rightarrow> Inr (b64_bytes vs))"

text \<open>The encoder.\<close>

definition b64_char :: "nat \<Rightarrow> nat" where
  "b64_char v = (if v < 26 then v + 65 else if v < 52 then v + 71 else if v < 62 then v - 4 else if v = 62 then 43 else 47)"

fun base64 :: "nat list \<Rightarrow> js_text" where
  "base64 (x # y # z # bs) =
     b64_char (x div 4) # b64_char (x mod 4 * 16 + y div 16) # b64_char (y mod 16 * 4 + z div 64) # b64_char (z mod 64) #
     base64 bs"
| "base64 [x, y] = [b64_char (x div 4), b64_char (x mod 4 * 16 + y div 16), b64_char (y mod 16 * 4), 61]"
| "base64 [x] = [b64_char (x div 4), b64_char (x mod 4 * 16), 61, 61]"
| "base64 [] = []"

lemma b64_value_char [simp]: "v < 64 \<Longrightarrow> b64_value (b64_char v) = Some v"
  by (auto simp: b64_value_def b64_char_def)

lemma b64_char_graphic [simp]: "v < 64 \<Longrightarrow> \<not> ascii_space (b64_char v)" "v < 64 \<Longrightarrow> b64_char v \<noteq> 61"
  by (auto simp: ascii_space_def b64_char_def)

text \<open>The digits of an encoding, without the padding.\<close>

fun b64_digits :: "nat list \<Rightarrow> nat list" where
  "b64_digits (x # y # z # bs) =
     (x div 4) # (x mod 4 * 16 + y div 16) # (y mod 16 * 4 + z div 64) # (z mod 64) # b64_digits bs"
| "b64_digits [x, y] = [x div 4, x mod 4 * 16 + y div 16, y mod 16 * 4]"
| "b64_digits [x] = [x div 4, x mod 4 * 16]"
| "b64_digits [] = []"

definition all_bytes :: "nat list \<Rightarrow> bool" where
  "all_bytes = list_all (\<lambda>b. b < 256)"

lemma all_bytes_simps [simp]:
  "all_bytes []" "all_bytes (b # bs) \<longleftrightarrow> b < 256 \<and> all_bytes bs"
  "all_bytes (xs @ ys) \<longleftrightarrow> all_bytes xs \<and> all_bytes ys"
  by (auto simp: all_bytes_def)

lemma b64_digits_range: "all_bytes bs \<Longrightarrow> list_all (\<lambda>v. v < 64) (b64_digits bs)"
  by (induction bs rule: b64_digits.induct) auto

lemma b64_bytes_digits: "all_bytes bs \<Longrightarrow> b64_bytes (b64_digits bs) = bs"
  by (induction bs rule: b64_digits.induct) auto

lemma base64_graphic: "all_bytes bs \<Longrightarrow> filter (\<lambda>u. \<not> ascii_space u) (base64 bs) = base64 bs"
  by (induction bs rule: base64.induct) (auto simp: ascii_space_def [of 61])

lemma base64_length: "length (base64 bs) mod 4 = 0"
  by (induction bs rule: base64.induct) auto

lemma strip_padding_append:
  assumes "length ps mod 4 = 0" "us \<noteq> []" "length us mod 4 = 0"
  shows "strip_padding (ps @ us) = ps @ strip_padding us"
proof -
  have "butlast us \<noteq> []" using assms(2,3) by (cases us; cases "tl us") auto
  moreover have "(length ps + length us) mod 4 = 0" using assms(1,3) by (simp add: mod_add_eq [symmetric])
  ultimately show ?thesis using assms by (simp add: strip_padding_def butlast_append)
qed

lemma base64_strip: "all_bytes bs \<Longrightarrow> strip_padding (base64 bs) = map b64_char (b64_digits bs)"
proof (induction bs rule: base64.induct)
  case (1 x y z bs)
  let ?ds = "map b64_char [x div 4, x mod 4 * 16 + y div 16, y mod 16 * 4 + z div 64, z mod 64]"
  have "strip_padding (?ds @ base64 bs) = ?ds @ strip_padding (base64 bs)"
  proof (cases "base64 bs = []")
    case True
    have "z mod 64 < 64" by simp
    then show ?thesis using True by (simp add: strip_padding_def del: mod_less_divisor)
  qed (use base64_length [of bs] in \<open>simp add: strip_padding_append del: append.simps list.map\<close>)
  then show ?case using 1 by simp
qed (auto simp: strip_padding_def)

lemma b64_digits_length: "length (b64_digits bs) mod 4 \<noteq> 1"
  by (induction bs rule: b64_digits.induct) auto

lemma those_map_values: "list_all (\<lambda>v. v < 64) vs \<Longrightarrow> those (map b64_value (map b64_char vs)) = Some vs"
  by (induction vs) auto

lemma atob_base64: "all_bytes bs \<Longrightarrow> atob (base64 bs) = Inr bs"
  using those_map_values [OF b64_digits_range] b64_digits_length [of bs]
  by (simp add: atob_def base64_graphic base64_strip b64_bytes_digits)

section \<open>UTF-8\<close>

text \<open>
  The decoder of the encoding standard: the code point so far, how many bytes it still needs, and the range
  the next byte must be in.  A byte out of its range gives U+FFFD and is looked at once more as a first byte.
\<close>

type_synonym utf8_state = "nat \<times> nat \<times> nat \<times> nat"

definition utf8_idle :: utf8_state where
  "utf8_idle = (0, 0, 128, 191)"

definition utf8_first :: "nat \<Rightarrow> nat list \<times> utf8_state" where
  "utf8_first b =
     (if b < 128 then ([b], utf8_idle)
      else if 194 \<le> b \<and> b \<le> 223 then ([], (b mod 32, 1, 128, 191))
      else if 224 \<le> b \<and> b \<le> 239 then
        ([], (b mod 16, 2, if b = 224 then 160 else 128, if b = 237 then 159 else 191))
      else if 240 \<le> b \<and> b \<le> 244 then
        ([], (b mod 8, 3, if b = 240 then 144 else 128, if b = 244 then 143 else 191))
      else ([65533], utf8_idle))"

fun utf8_byte :: "utf8_state \<Rightarrow> nat \<Rightarrow> nat list \<times> utf8_state" where
  "utf8_byte (cp, left, lo, hi) b =
     (if left = 0 then utf8_first b
      else if b < lo \<or> hi < b then (case utf8_first b of (cs, s) \<Rightarrow> (65533 # cs, s))
      else if left = 1 then ([cp * 64 + b mod 64], utf8_idle)
      else ([], (cp * 64 + b mod 64, left - 1, 128, 191)))"

fun utf8_run :: "utf8_state \<Rightarrow> nat list \<Rightarrow> nat list" where
  "utf8_run (cp, left, lo, hi) [] = (if left = 0 then [] else [65533])"
| "utf8_run s (b # bs) = (case utf8_byte s b of (cs, s') \<Rightarrow> cs @ utf8_run s' bs)"

definition drop_bom :: "nat list \<Rightarrow> nat list" where
  "drop_bom cs = (case cs of c # cs' \<Rightarrow> if c = 65279 then cs' else cs | [] \<Rightarrow> [])"

definition utf16 :: "nat list \<Rightarrow> js_text" where
  "utf16 cs = concat (map (\<lambda>c. if c < 65536 then [c] else [55296 + (c - 65536) div 1024, 56320 + (c - 65536) mod 1024]) cs)"

text \<open>\<open>new TextDecoder().decode(bytes)\<close>; without an argument the result is empty.\<close>

definition text_decode :: "nat list option \<Rightarrow> js_text" where
  "text_decode x = (case x of None \<Rightarrow> [] | Some bs \<Rightarrow> utf16 (drop_bom (utf8_run utf8_idle bs)))"

text \<open>The encoder, and the code points it is for.\<close>

definition scalar :: "nat \<Rightarrow> bool" where
  "scalar c \<longleftrightarrow> c < 55296 \<or> (57344 \<le> c \<and> c < 1114112)"

definition utf8_char :: "nat \<Rightarrow> nat list" where
  "utf8_char c =
     (if c < 128 then [c]
      else if c < 2048 then [192 + c div 64, 128 + c mod 64]
      else if c < 65536 then [224 + c div 4096, 128 + c div 64 mod 64, 128 + c mod 64]
      else [240 + c div 262144, 128 + c div 4096 mod 64, 128 + c div 64 mod 64, 128 + c mod 64])"

definition utf8 :: "nat list \<Rightarrow> nat list" where
  "utf8 cs = concat (map utf8_char cs)"

lemma utf8_simps [simp]:
  "utf8 [] = []" "utf8 (c # cs) = utf8_char c @ utf8 cs"
  "utf16 [] = []"
  by (simp_all add: utf8_def utf16_def)

lemma utf8_bytes: "list_all scalar cs \<Longrightarrow> all_bytes (utf8 cs)"
  by (induction cs) (auto simp: utf8_char_def scalar_def)

lemma utf8_first_simps:
  "b < 128 \<Longrightarrow> utf8_first b = ([b], utf8_idle)"
  "2 \<le> a \<Longrightarrow> a < 32 \<Longrightarrow> utf8_first (192 + a) = ([], (a, 1, 128, 191))"
  "a < 16 \<Longrightarrow> utf8_first (224 + a) = ([], (a, 2, if a = 0 then 160 else 128, if a = 13 then 159 else 191))"
  "a \<le> 4 \<Longrightarrow> utf8_first (240 + a) = ([], (a, 3, if a = 0 then 144 else 128, if a = 4 then 143 else 191))"
  "utf8_first 237 = ([], (13, 2, 128, 159))" "utf8_first 244 = ([], (4, 3, 128, 143))"
  by (auto simp: utf8_first_def mod_add_eq [symmetric])

lemma utf8_run_first: "utf8_run utf8_idle (b # bs) = fst (utf8_first b) @ utf8_run (snd (utf8_first b)) bs"
  by (simp add: utf8_idle_def split: prod.split)

lemma utf8_run_next:
  assumes "d < 64" "lo \<le> 128 + d" "128 + d \<le> hi" "left \<noteq> 0"
  shows "utf8_run (cp, left, lo, hi) ((128 + d) # bs) =
    (if left = 1 then (cp * 64 + d) # utf8_run utf8_idle bs else utf8_run (cp * 64 + d, left - 1, 128, 191) bs)"
proof -
  have "(128 + d) mod 64 = d" using assms(1) by (simp add: mod_add_eq [symmetric])
  then show ?thesis using assms by simp
qed

lemma utf8_char_run:
  assumes "scalar c"
  shows "utf8_run utf8_idle (utf8_char c @ bs) = c # utf8_run utf8_idle bs"
proof -
  define d0 d1 d2 where "d0 = c mod 64" and "d1 = c div 64 mod 64" and "d2 = c div 4096 mod 64"
  have d: "d0 < 64" "d1 < 64" "d2 < 64" by (simp_all add: d0_def d1_def d2_def)
  have e1: "c div 64 * 64 + d0 = c" by (simp add: d0_def)
  have e2: "(c div 4096 * 64 + d1) * 64 + d0 = c"
    using div_mult2_eq [of c 64 64] by (simp add: d1_def d0_def)
  have e3: "((c div 262144 * 64 + d2) * 64 + d1) * 64 + d0 = c"
    using div_mult2_eq [of c 4096 64] e2 by (simp add: d2_def)
  consider "c < 128" | "128 \<le> c" "c < 2048" | "2048 \<le> c" "c < 65536" | "65536 \<le> c" by linarith
  then show ?thesis
  proof cases
    case 1
    then show ?thesis by (simp add: utf8_char_def utf8_run_first utf8_first_simps del: utf8_run.simps)
  next
    case 2
    then have "2 \<le> c div 64" "c div 64 < 32" using d(1) e1 by linarith+
    then show ?thesis using 2 d(1) e1
      by (simp add: utf8_char_def utf8_run_first utf8_first_simps utf8_run_next d0_def [symmetric] del: utf8_run.simps)
  next
    case 3
    have bound3: "(q * 64 + d1) * 64 + d0 = c \<Longrightarrow> q < 16 \<and> (q = 0 \<longrightarrow> 32 \<le> d1) \<and> (q = 13 \<longrightarrow> d1 < 32)" for q
      proof -
      assume "(q * 64 + d1) * 64 + d0 = c"
      then have e': "c = q * 4096 + d1 * 64 + d0" by (simp add: algebra_simps)
      show ?thesis using assms unfolding scalar_def
      proof (elim disjE)
        assume "c < 55296"
        then show ?thesis using 3 d e' by (intro conjI impI; linarith)
      next
        assume "57344 \<le> c \<and> c < 1114112"
        then show ?thesis using 3 d e' by (intro conjI impI; linarith)
      qed
    qed
    have "c div 4096 < 16" "c div 4096 = 0 \<longrightarrow> 32 \<le> d1" "c div 4096 = 13 \<longrightarrow> d1 < 32"
      using bound3 [OF e2] by simp_all
    then show ?thesis using 3 d e2
      by (cases "c div 4096 = 13") (simp_all add: utf8_char_def utf8_run_first utf8_first_simps utf8_run_next d0_def [symmetric] d1_def [symmetric]
          del: utf8_run.simps)
  next
    case 4
    have bound4: "((q * 64 + d2) * 64 + d1) * 64 + d0 = c \<Longrightarrow>
        q \<le> 4 \<and> (q = 0 \<longrightarrow> 16 \<le> d2) \<and> (q = 4 \<longrightarrow> d2 < 16)" for q
      proof -
      assume "((q * 64 + d2) * 64 + d1) * 64 + d0 = c"
      then have e': "c = q * 262144 + d2 * 4096 + d1 * 64 + d0" by (simp add: algebra_simps)
      show ?thesis using assms unfolding scalar_def
      proof (elim disjE)
        assume "c < 55296"
        then show ?thesis using 4 d e' by (intro conjI impI; linarith)
      next
        assume "57344 \<le> c \<and> c < 1114112"
        then show ?thesis using 4 d e' by (intro conjI impI; linarith)
      qed
    qed
    have "c div 262144 \<le> 4" "c div 262144 = 0 \<longrightarrow> 16 \<le> d2" "c div 262144 = 4 \<longrightarrow> d2 < 16"
      using bound4 [OF e3] by simp_all
    then show ?thesis using 4 d e3
      by (cases "c div 262144 = 4") (simp_all add: utf8_char_def utf8_run_first utf8_first_simps utf8_run_next d0_def [symmetric] d1_def [symmetric]
          d2_def [symmetric] del: utf8_run.simps)
  qed
qed

lemma utf8_run_idle_Nil [simp]: "utf8_run utf8_idle [] = []"
  by (simp add: utf8_idle_def)

lemma utf8_run_utf8: "list_all scalar cs \<Longrightarrow> utf8_run utf8_idle (utf8 cs) = cs"
  by (induction cs) (simp_all add: utf8_char_run)

lemma text_decode_utf8:
  assumes "list_all scalar cs" "cs \<noteq> [] \<longrightarrow> hd cs \<noteq> 65279"
  shows "text_decode (Some (utf8 cs)) = utf16 cs"
  using assms by (cases cs) (simp_all add: text_decode_def drop_bom_def utf8_run_utf8 del: utf8_simps(2))

text \<open>Whatever the bytes, the decoder gives scalar values, so the text is well formed.\<close>

definition utf8_state_ok :: "utf8_state \<Rightarrow> bool" where
  "utf8_state_ok s \<longleftrightarrow> (case s of (cp, left, lo, hi) \<Rightarrow> left = 0 \<or> 128 \<le> lo \<and> hi \<le> 191 \<and>
     (left = 1 \<and> (cp < 864 \<or> 896 \<le> cp \<and> cp < 17408) \<or>
      left = 2 \<and> (cp < 13 \<or> cp = 13 \<and> hi = 159 \<or> 14 \<le> cp \<and> cp < 272) \<or>
      left = 3 \<and> (cp < 4 \<and> (cp = 0 \<longrightarrow> lo = 144) \<or> cp = 4 \<and> hi = 143)))"

fun units_ok :: "js_text \<Rightarrow> bool" where
  "units_ok [] \<longleftrightarrow> True"
| "units_ok (u # us) \<longleftrightarrow>
     (if u < 55296 \<or> (57344 \<le> u \<and> u < 65536) then units_ok us
      else if u < 56320 then (case us of [] \<Rightarrow> False | v # vs \<Rightarrow> 56320 \<le> v \<and> v < 57344 \<and> units_ok vs)
      else False)"

lemma utf8_state_ok_idle [simp]: "utf8_state_ok utf8_idle"
  by (simp add: utf8_state_ok_def utf8_idle_def)

lemma utf8_first_ok: "utf8_first b = (cs, s) \<Longrightarrow> list_all scalar cs \<and> utf8_state_ok s"
proof -
  assume e: "utf8_first b = (cs, s)"
  consider "b < 128" | a where "b = 192 + a" "2 \<le> a" "a < 32" | a where "b = 224 + a" "a < 16"
    | a where "b = 240 + a" "a \<le> 4" | "128 \<le> b \<and> b < 194 \<or> 244 < b"
  proof -
    have "b < 128 \<or> (128 \<le> b \<and> b < 194 \<or> 244 < b) \<or> 194 \<le> b \<and> b < 224 \<or> 224 \<le> b \<and> b < 240 \<or> 240 \<le> b \<and> b \<le> 244"
      by linarith
    then show thesis
      using that(1,5) that(2) [of "b - 192"] that(3) [of "b - 224"] that(4) [of "b - 240"] by fastforce
  qed
  then show ?thesis
  proof cases
    case 5
    then show ?thesis using e by (auto simp: utf8_first_def scalar_def)
  next
    case (4 a)
    then have "cs = []" "s = (a, 3, if a = 0 then 144 else 128, if a = 4 then 143 else 191)"
      using e utf8_first_simps(4) [of a] by simp_all
    then show ?thesis using 4(2) by (cases "a = 4") (simp_all add: utf8_state_ok_def)
  qed (use e in \<open>auto simp: utf8_first_simps scalar_def utf8_state_ok_def utf8_idle_def\<close>)
qed

lemma utf8_byte_ok:
  assumes "utf8_state_ok s" "utf8_byte s b = (cs, s')"
  shows "list_all scalar cs \<and> utf8_state_ok s'"
proof -
  obtain cp left lo hi where s: "s = (cp, left, lo, hi)" by (cases s)
  consider "left = 0" | "left \<noteq> 0" "b < lo \<or> hi < b" | "left \<noteq> 0" "lo \<le> b" "b \<le> hi" by linarith
  then show ?thesis
  proof cases
    case 1
    then show ?thesis using assms(2) utf8_first_ok [of b] by (simp add: s)
  next
    case 2
    then show ?thesis using assms(2) utf8_first_ok [of b]
      by (auto simp: s scalar_def split: prod.splits)
  next
    case 3
    then have "128 \<le> b" "b \<le> 191" using assms(1) by (auto simp: s utf8_state_ok_def)
    then obtain d where b: "b = 128 + d" and d: "d < 64" using le_Suc_ex [of 128 b] by auto
    have m: "b mod 64 = d" using d by (simp add: b mod_add_eq [symmetric])
    have "left = 1 \<or> left = 2 \<or> left = 3" using assms(1) 3 by (auto simp: s utf8_state_ok_def)
    then show ?thesis
    proof (elim disjE)
      assume l: "left = 1"
      then have "cp < 864 \<or> 896 \<le> cp \<and> cp < 17408" using assms(1) by (simp add: s utf8_state_ok_def)
      then have "scalar (cp * 64 + d)" using d unfolding scalar_def by linarith
      then show ?thesis using 3 l assms(2) m by (auto simp: s)
    next
      assume l: "left = 2"
      then have "cp < 13 \<or> cp = 13 \<and> d \<le> 31 \<or> 14 \<le> cp \<and> cp < 272" using assms(1) 3 by (auto simp: s utf8_state_ok_def b)
      then have "cp * 64 + d < 864 \<or> 896 \<le> cp * 64 + d \<and> cp * 64 + d < 17408" using d by linarith
      then show ?thesis using 3 l assms(2) m by (auto simp: s utf8_state_ok_def)
    next
      assume l: "left = 3"
      then have "cp < 4 \<and> (cp = 0 \<longrightarrow> 16 \<le> d) \<or> cp = 4 \<and> d < 16" using assms(1) 3 by (auto simp: s utf8_state_ok_def b)
      then have "14 \<le> cp * 64 + d \<and> cp * 64 + d < 272" using d by linarith
      then show ?thesis using 3 l assms(2) m by (auto simp: s utf8_state_ok_def)
    qed
  qed
qed

lemma utf8_run_scalar: "utf8_state_ok s \<Longrightarrow> list_all scalar (utf8_run s bs)"
proof (induction bs arbitrary: s)
  case Nil
  then show ?case by (cases s) (simp add: scalar_def)
next
  case (Cons b bs)
  then show ?case using utf8_byte_ok [OF Cons.prems, of b] by (auto split: prod.split)
qed

lemma units_ok_utf16: "list_all scalar cs \<Longrightarrow> units_ok (utf16 cs)"
proof (induction cs)
  case (Cons c cs)
  have "c - 65536 < 1024 * 1024" using Cons.prems by (auto simp: scalar_def)
  then have "(c - 65536) div 1024 < 1024" by (simp add: less_mult_imp_div_less)
  moreover have "(c - 65536) mod 1024 < 1024" by simp
  ultimately show ?case using Cons
    by (auto simp: utf16_def scalar_def simp del: mod_less_divisor)
qed simp

lemma text_decode_ok: "units_ok (text_decode x)"
proof (cases x)
  case (Some bs)
  have "list_all scalar (drop_bom (utf8_run utf8_idle bs))"
    using utf8_run_scalar [of utf8_idle bs] by (auto simp: drop_bom_def split: list.split)
  then show ?thesis using Some by (simp add: text_decode_def units_ok_utf16)
qed (simp add: text_decode_def)

end
