(* ===== verification/Lz_String.thy ===== *)
theory Lz_String
  imports Js_Text
begin

text \<open>
  \<open>LZString\<close> (line 30 of \<open>main.js\<close>), in which drawings are stored: \<open>_compress\<close> and \<open>_decompress\<close> with the
  four codings of their output the plugin has, and the plugin's \<open>compress\<close> and \<open>decompress\<close>.  Both are
  parameterised as in the code: \<open>t\<close> bits for a character, a function from values to characters, and one from
  positions to values.
\<close>

section \<open>Bits\<close>

text \<open>
  The writer: the characters \<open>m\<close>, the value \<open>g\<close> under construction and the number \<open>f\<close> of its bits.  Values
  are written from their lowest bit.
\<close>

type_synonym writer = "js_text \<times> nat \<times> nat"

definition put_bit :: "nat \<Rightarrow> (nat \<Rightarrow> nat) \<Rightarrow> nat \<Rightarrow> writer \<Rightarrow> writer" where
  "put_bit t i b w =
     (case w of (m, g, f) \<Rightarrow> let g = 2 * g + b in if f = t - 1 then (m @ [i g], 0, 0) else (m, g, f + 1))"

fun put_bits :: "nat \<Rightarrow> (nat \<Rightarrow> nat) \<Rightarrow> nat \<Rightarrow> nat \<Rightarrow> writer \<Rightarrow> writer" where
  "put_bits t i 0 v w = w"
| "put_bits t i (Suc n) v w = put_bits t i n (v div 2) (put_bit t i (v mod 2) w)"

text \<open>\<open>for (;;) { g <<= 1; if (f == t - 1) { m.push(i(g)); break } f++ }\<close>\<close>

definition flush :: "nat \<Rightarrow> (nat \<Rightarrow> nat) \<Rightarrow> writer \<Rightarrow> js_text" where
  "flush t i w = (case w of (m, g, f) \<Rightarrow> m @ [i (g * 2 ^ (t - f))])"

text \<open>
  The reader \<open>E\<close>: value, mask and index of the next character; a value past the end is \<open>undefined\<close>, which
  has no bits.
\<close>

type_synonym reader = "nat option \<times> nat \<times> nat"

definition read_bit :: "(nat \<Rightarrow> nat option) \<Rightarrow> nat \<Rightarrow> reader \<Rightarrow> nat \<times> reader" where
  "read_bit n reset rd =
     (case rd of (v, pos, idx) \<Rightarrow>
        ((case v of None \<Rightarrow> 0 | Some x \<Rightarrow> x div pos mod 2),
         if pos div 2 = 0 then (n idx, reset, idx + 1) else (v, pos div 2, idx)))"

fun read_bits :: "(nat \<Rightarrow> nat option) \<Rightarrow> nat \<Rightarrow> nat \<Rightarrow> reader \<Rightarrow> nat \<times> reader" where
  "read_bits n reset 0 rd = (0, rd)"
| "read_bits n reset (Suc k) rd =
     (case read_bit n reset rd of (b, rd) \<Rightarrow> (case read_bits n reset k rd of (r, rd) \<Rightarrow> (b + 2 * r, rd)))"

section \<open>_compress\<close>

text \<open>
  \<open>lz_dict\<close> is \<open>r\<close>, \<open>lz_new\<close> is \<open>o\<close> (the characters not yet sent), \<open>lz_phrase\<close> is \<open>d\<close>, \<open>lz_enlarge\<close> is
  \<open>h\<close>, \<open>lz_size\<close> is \<open>u\<close>, \<open>lz_width\<close> is \<open>p\<close>, \<open>lz_out\<close> the writer.
\<close>

record lz =
  lz_dict :: "js_text \<rightharpoonup> nat"
  lz_new :: "js_text set"
  lz_phrase :: js_text
  lz_enlarge :: nat
  lz_size :: nat
  lz_width :: nat
  lz_out :: writer

text \<open>An assignment to the property \<open>__proto__\<close> of an object is dropped when the value is a number.\<close>

definition own_set :: "js_text \<Rightarrow> nat \<Rightarrow> (js_text \<rightharpoonup> nat) \<Rightarrow> (js_text \<rightharpoonup> nat)" where
  "own_set k v r = (if k = [95, 95, 112, 114, 111, 116, 111, 95, 95] then r else r(k \<mapsto> v))"

text \<open>\<open>0 == --h && (h = Math.pow(2, p), p++)\<close>\<close>

definition lz_tick :: "lz \<Rightarrow> lz" where
  "lz_tick s =
     (if lz_enlarge s = 1 then s\<lparr>lz_enlarge := 2 ^ lz_width s, lz_width := lz_width s + 1\<rparr>
      else s\<lparr>lz_enlarge := lz_enlarge s - 1\<rparr>)"

text \<open>Sending the phrase: a new character as itself, any other phrase as its number.\<close>

definition lz_emit :: "nat \<Rightarrow> (nat \<Rightarrow> nat) \<Rightarrow> lz \<Rightarrow> lz" where
  "lz_emit t i s =
     (let d = lz_phrase s; p = lz_width s;
          s = (if d \<in> lz_new s then
                 let s = s\<lparr>lz_out := (if hd d < 256 then put_bits t i 8 (hd d) (put_bits t i p 0 (lz_out s))
                                      else put_bits t i 16 (hd d) (put_bits t i p 1 (lz_out s)))\<rparr>;
                     s = lz_tick s
                 in s\<lparr>lz_new := lz_new s - {d}\<rparr>
               else s\<lparr>lz_out := put_bits t i p (case lz_dict s d of Some k \<Rightarrow> k | None \<Rightarrow> 0) (lz_out s)\<rparr>)
      in lz_tick s)"

definition lz_step :: "nat \<Rightarrow> (nat \<Rightarrow> nat) \<Rightarrow> lz \<Rightarrow> nat \<Rightarrow> lz" where
  "lz_step t i s l =
     (let s = (if lz_dict s [l] = None
               then s\<lparr>lz_dict := own_set [l] (lz_size s) (lz_dict s), lz_size := lz_size s + 1, lz_new := insert [l] (lz_new s)\<rparr>
               else s);
          c = lz_phrase s @ [l]
      in if lz_dict s c \<noteq> None then s\<lparr>lz_phrase := c\<rparr>
         else
           let s = lz_emit t i s
           in s\<lparr>lz_dict := own_set c (lz_size s) (lz_dict s), lz_size := lz_size s + 1, lz_phrase := [l]\<rparr>)"

definition lz_start :: lz where
  "lz_start = \<lparr>lz_dict = Map.empty, lz_new = {}, lz_phrase = [], lz_enlarge = 2, lz_size = 3, lz_width = 2,
     lz_out = ([], 0, 0)\<rparr>"

definition lz_compress :: "nat \<Rightarrow> (nat \<Rightarrow> nat) \<Rightarrow> js_text \<Rightarrow> js_text" where
  "lz_compress t i e =
     (let s = foldl (lz_step t i) lz_start e;
          s = (if lz_phrase s \<noteq> [] then lz_emit t i s else s)
      in flush t i (put_bits t i (lz_width s) 2 (lz_out s)))"

section \<open>_decompress\<close>

text \<open>
  One record for the loop: \<open>un_dict\<close> is \<open>h\<close> (\<open>None\<close> is \<open>undefined\<close>), \<open>un_last\<close> is \<open>s\<close>, \<open>un_parts\<close> is
  \<open>f\<close>, \<open>un_enlarge\<close> is \<open>u\<close>, \<open>un_size\<close> is \<open>p\<close>, \<open>un_width\<close> is \<open>m\<close>.
\<close>

record unlz =
  un_dict :: "nat \<rightharpoonup> js_text"
  un_last :: "js_text option"
  un_parts :: "js_text option list"
  un_enlarge :: nat
  un_size :: nat
  un_width :: nat
  un_reader :: reader

definition un_tick :: "unlz \<Rightarrow> unlz" where
  "un_tick s =
     (if un_enlarge s = 1 then s\<lparr>un_enlarge := 2 ^ un_width s, un_width := un_width s + 1\<rparr>
      else s\<lparr>un_enlarge := un_enlarge s - 1\<rparr>)"

text \<open>Joining parts leaves out \<open>undefined\<close>; adding to it does not.\<close>

definition join_parts :: "js_text option list \<Rightarrow> js_text" where
  "join_parts fs = concat (map (\<lambda>x. case x of None \<Rightarrow> [] | Some g \<Rightarrow> g) fs)"

definition text_of :: "js_text option \<Rightarrow> js_text" where
  "text_of s = (case s of None \<Rightarrow> [117, 110, 100, 101, 102, 105, 110, 101, 100] | Some g \<Rightarrow> g)"

text \<open>A code of 0 or 1: a new character of 8 or 16 bits gets the next number.\<close>

definition un_literal :: "(nat \<Rightarrow> nat option) \<Rightarrow> nat \<Rightarrow> nat \<Rightarrow> unlz \<Rightarrow> nat \<times> unlz" where
  "un_literal n reset c s =
     (if c < 2 then
        (case read_bits n reset (if c = 0 then 8 else 16) (un_reader s) of (x, rd) \<Rightarrow>
           (un_size s, un_tick (s\<lparr>un_reader := rd, un_dict := (un_dict s)(un_size s \<mapsto> [x]), un_size := un_size s + 1\<rparr>)))
      else (c, s))"

text \<open>The phrase of a number: \<open>Inr None\<close> is the return of \<open>null\<close>.\<close>

definition un_phrase :: "nat \<Rightarrow> unlz \<Rightarrow> js_text option result" where
  "un_phrase d s =
     (case un_dict s d of
        Some (c # g) \<Rightarrow> Inr (Some (c # g))
      | _ \<Rightarrow> if d \<noteq> un_size s then Inr None
             else (case un_last s of None \<Rightarrow> Inl (Runtime ''TypeError'') | Some s \<Rightarrow> Inr (Some (s @ take 1 s))))"

definition un_push :: "js_text \<Rightarrow> unlz \<Rightarrow> unlz" where
  "un_push g s =
     un_tick (s\<lparr>un_parts := un_parts s @ [Some g], un_dict := (un_dict s)(un_size s \<mapsto> text_of (un_last s) @ take 1 g),
       un_size := un_size s + 1, un_last := Some g\<rparr>)"

text \<open>The loop reads at least three bits in each round; it runs on fuel, \<open>None\<close> when that is used up.\<close>

fun un_loop :: "(nat \<Rightarrow> nat option) \<Rightarrow> nat \<Rightarrow> nat \<Rightarrow> nat \<Rightarrow> unlz \<Rightarrow> js_text option result option" where
  "un_loop n reset len 0 s = None"
| "un_loop n reset len (Suc fuel) s =
     (if len < snd (snd (un_reader s)) then Some (Inr (Some []))
      else case read_bits n reset (un_width s) (un_reader s) of (c, rd) \<Rightarrow>
        let s = s\<lparr>un_reader := rd\<rparr> in
        if c = 2 then Some (Inr (Some (join_parts (un_parts s))))
        else case un_literal n reset c s of (d, s) \<Rightarrow>
          (case un_phrase d s of
             Inl e \<Rightarrow> Some (Inl e)
           | Inr None \<Rightarrow> Some (Inr None)
           | Inr (Some g) \<Rightarrow> un_loop n reset len fuel (un_push g s)))"

definition lz_decompress :: "nat \<Rightarrow> nat \<Rightarrow> (nat \<Rightarrow> nat option) \<Rightarrow> js_text option result option" where
  "lz_decompress len reset n =
     (case read_bits n reset 2 (n 0, reset, 1) of (r, rd) \<Rightarrow>
        if r = 2 then Some (Inr (Some []))
        else
          case (if r = 0 then (case read_bits n reset 8 rd of (x, rd) \<Rightarrow> (Some [x], rd))
                else if r = 1 then (case read_bits n reset 16 rd of (x, rd) \<Rightarrow> (Some [x], rd))
                else (None, rd)) of (d, rd) \<Rightarrow>
            un_loop n reset len (16 * len + 16)
              \<lparr>un_dict = Map.empty(3 := d), un_last = d, un_parts = [d], un_enlarge = 4, un_size = 4, un_width = 3,
                un_reader = rd\<rparr>)"

end
