(* ===== verification/Huffman_Code.thy ===== *)
theory Huffman_Code
  imports Prelude
begin

text \<open>
  Canonical codes as RFC 1951 (3.2.2) defines them from the lengths of the codes, and codes with their bits
  reversed, which is how they are found in the bit buffer: the first bit of a code is the lowest one there.
\<close>

section \<open>Reversed bits\<close>

definition brev :: "nat \<Rightarrow> nat \<Rightarrow> nat" where
  "brev n v = horner_sum of_bool 2 (rev (map (bit v) [0..<n]))"

lemma bit_brev: "bit (brev n v) i \<longleftrightarrow> i < n \<and> bit v (n - 1 - i)"
  by (auto simp: brev_def bit_horner_sum_bit_iff rev_nth)

lemma brev_less: "brev n v < 2 ^ n"
proof -
  have "take_bit n (brev n v) = brev n v"
    by (rule bit_eqI) (auto simp: bit_take_bit_iff bit_brev)
  then show ?thesis by (metis take_bit_nat_less_exp)
qed

lemma brev_brev: "brev n (brev n v) = v mod 2 ^ n"
proof -
  have "brev n (brev n v) = take_bit n v"
    by (rule bit_eqI) (auto simp: bit_take_bit_iff bit_brev)
  then show ?thesis by (simp add: take_bit_eq_mod)
qed

lemma brev_mod: "brev n (v mod 2 ^ n) = brev n v"
proof -
  have "brev n (take_bit n v) = brev n v"
    by (rule bit_eqI) (auto simp: bit_take_bit_iff bit_brev)
  then show ?thesis by (simp add: take_bit_eq_mod)
qed

text \<open>The low bits of a number are the high bits of its reversal.\<close>

lemma same_prefix:
  assumes "p \<le> n"
  shows "h mod 2 ^ p = h' mod 2 ^ p \<longleftrightarrow> brev n h div 2 ^ (n - p) = brev n h' div 2 ^ (n - p)"
proof -
  have "take_bit p h = take_bit p h' \<longleftrightarrow> (\<forall>i < p. bit h i = bit h' i)"
    by (auto simp: bit_eq_iff bit_take_bit_iff)
  moreover have "drop_bit (n - p) (brev n h) = drop_bit (n - p) (brev n h') \<longleftrightarrow> (\<forall>i < p. bit h i = bit h' i)"
  proof
    assume e: "drop_bit (n - p) (brev n h) = drop_bit (n - p) (brev n h')"
    show "\<forall>i < p. bit h i = bit h' i"
    proof (intro allI impI)
      fix i assume i: "i < p"
      have "bit (drop_bit (n - p) (brev n h)) (p - 1 - i) = bit (drop_bit (n - p) (brev n h')) (p - 1 - i)" by (simp add: e)
      then show "bit h i = bit h' i" using i assms by (simp add: bit_drop_bit_eq bit_brev)
    qed
  next
    assume e: "\<forall>i < p. bit h i = bit h' i"
    show "drop_bit (n - p) (brev n h) = drop_bit (n - p) (brev n h')"
      by (rule bit_eqI) (use e assms in \<open>auto simp: bit_drop_bit_eq bit_brev\<close>)
  qed
  ultimately show ?thesis by (simp add: take_bit_eq_mod drop_bit_eq_div)
qed

lemma brev_inj: "a < 2 ^ n \<Longrightarrow> b < 2 ^ n \<Longrightarrow> brev n a = brev n b \<Longrightarrow> a = b"
  by (metis brev_brev mod_less)

text \<open>A number with low zero bits has a short reversal.\<close>

lemma brev_short:
  assumes "2 ^ (n - l) dvd v" "l \<le> n"
  shows "brev n v < 2 ^ l"
proof -
  have low: "\<not> bit v i" if "i < n - l" for i
  proof -
    obtain q where q: "v = 2 ^ (n - l) * q" using assms(1) by (elim dvdE)
    have "bit (push_bit (n - l) q) i = False" using that by (simp add: bit_push_bit_iff)
    then show ?thesis by (simp add: q push_bit_eq_mult mult.commute)
  qed
  have "\<not> bit (brev n v) i" if "l \<le> i" for i
  proof (cases "i < n")
    case True
    then have "n - 1 - i < n - l" using that by simp
    then show ?thesis using low by (simp add: bit_brev)
  qed (simp add: bit_brev)
  then have "take_bit l (brev n v) = brev n v"
    by (intro bit_eqI) (auto simp: bit_take_bit_iff, meson linorder_not_le)
  then show ?thesis by (metis take_bit_nat_less_exp)
qed

lemma brev_Suc: "brev (Suc j) v = brev j (v div 2) + v mod 2 * 2 ^ j"
proof -
  have "map (bit v) [0..<Suc j] = odd v # map (bit (v div 2)) [0..<j]"
    by (simp add: upt_conv_Cons map_Suc_upt [symmetric] bit_Suc comp_def bit_0 del: upt_Suc)
  then show ?thesis by (simp add: brev_def horner_sum_append mod_2_eq_odd del: upt_Suc)
qed

lemma brev_0 [simp]: "brev 0 v = 0"
  by (simp add: brev_def)

lemma brev_zero [simp]: "brev n 0 = 0"
  by (induction n) (simp_all add: brev_Suc)

lemma brev_shift: "brev (k + w) (v * 2 ^ k) = brev w v"
  by (induction k) (simp_all add: brev_Suc)

section \<open>Canonical codes\<close>

text \<open>
  The lengths \<open>ls\<close> of the codes of the symbols, 0 for a symbol without a code.  The first code of a length
  follows the codes that are shorter; the codes of a length go up with the symbols.
\<close>

fun first_code :: "nat list \<Rightarrow> nat \<Rightarrow> nat" where
  "first_code ls 0 = 0"
| "first_code ls (Suc l) = 2 * (first_code ls l + (if l = 0 then 0 else count_list ls l))"

definition huffman_code :: "nat list \<Rightarrow> nat \<Rightarrow> nat" where
  "huffman_code ls s = first_code ls (ls ! s) + count_list (take s ls) (ls ! s)"

text \<open>The symbols in the order of their codes.\<close>

definition symbols_of :: "nat list \<Rightarrow> nat \<Rightarrow> nat list" where
  "symbols_of ls l = filter (\<lambda>s. ls ! s = l) [0..<length ls]"

definition symbols :: "nat list \<Rightarrow> nat list" where
  "symbols ls = concat (map (symbols_of ls) [1..<16])"

text \<open>Where the codes begin when all are filled up to 15 bits.\<close>

definition kraft :: "nat list \<Rightarrow> nat list \<Rightarrow> nat" where
  "kraft ls ss = sum_list (map (\<lambda>s. 2 ^ (15 - ls ! s)) ss)"

definition code_start :: "nat list \<Rightarrow> nat \<Rightarrow> nat" where
  "code_start ls m = kraft ls (take m (symbols ls))"

lemma symbols_of_length: "length (symbols_of ls l) = count_list ls l"
proof (induction ls rule: rev_induct)
  case (snoc x ls)
  have "symbols_of (ls @ [x]) l = symbols_of ls l @ (if x = l then [length ls] else [])"
    by (auto simp: symbols_of_def nth_append intro!: filter_cong)
  then show ?case using snoc by simp
qed (simp add: symbols_of_def)

lemma symbols_of_take: "s \<le> length (ls :: nat list) \<Longrightarrow> length (filter (\<lambda>s. ls ! s = l) [0..<s]) = count_list (take s ls) l"
proof -
  assume s: "s \<le> length ls"
  have "filter (\<lambda>s. ls ! s = l) [0..<s] = symbols_of (take s ls) l"
    using s by (auto simp: symbols_of_def min_def intro!: filter_cong)
  then show ?thesis by (simp add: symbols_of_length)
qed

lemma symbols_of_nth:
  assumes "s < length ls"
  shows "symbols_of ls (ls ! s) ! count_list (take s ls) (ls ! s) = s" "count_list (take s ls) (ls ! s) < count_list ls (ls ! s)"
proof -
  have "[0..<length ls] = [0..<s] @ s # [Suc s..<length ls]"
    using assms by (metis le_add1 less_imp_le upt_add_eq_append upt_conv_Cons add.left_neutral le_add_diff_inverse)
  then have e: "symbols_of ls (ls ! s) = filter (\<lambda>t. ls ! t = ls ! s) [0..<s] @ s # filter (\<lambda>t. ls ! t = ls ! s) [Suc s..<length ls]"
    by (simp add: symbols_of_def)
  have l: "length (filter (\<lambda>t. ls ! t = ls ! s) [0..<s]) = count_list (take s ls) (ls ! s)"
    using assms by (intro symbols_of_take) simp
  show "symbols_of ls (ls ! s) ! count_list (take s ls) (ls ! s) = s" unfolding e l [symmetric] by simp
  have "count_list (take s ls) (ls ! s) < length (symbols_of ls (ls ! s))" unfolding e l [symmetric] by simp
  then show "count_list (take s ls) (ls ! s) < count_list ls (ls ! s)" by (simp add: symbols_of_length)
qed

definition offset_of :: "nat list \<Rightarrow> nat \<Rightarrow> nat" where
  "offset_of ls l = length (concat (map (symbols_of ls) [1..<l]))"

lemma offset_of_simps [simp]: "offset_of ls (Suc 0) = 0" "1 \<le> l \<Longrightarrow> offset_of ls (Suc l) = offset_of ls l + count_list ls l"
  by (simp_all add: offset_of_def symbols_of_length)

lemma symbols_split:
  assumes "1 \<le> l" "l \<le> 15"
  shows "symbols ls = concat (map (symbols_of ls) [1..<l]) @ symbols_of ls l @ concat (map (symbols_of ls) [Suc l..<16])"
proof -
  have "[1..<16] = [1..<l] @ l # [Suc l..<16]"
    using assms upt_add_eq_append [of 1 l "16 - l"] by (simp add: upt_conv_Cons)
  then show ?thesis by (simp add: symbols_def)
qed

definition position :: "nat list \<Rightarrow> nat \<Rightarrow> nat" where
  "position ls s = offset_of ls (ls ! s) + count_list (take s ls) (ls ! s)"

lemma symbols_position:
  assumes "s < length ls" "1 \<le> ls ! s" "ls ! s \<le> 15"
  shows "symbols ls ! position ls s = s" "position ls s < length (symbols ls)"
proof -
  note n = symbols_of_nth [OF assms(1)]
  have l: "count_list (take s ls) (ls ! s) < length (symbols_of ls (ls ! s))" using n(2) by (simp add: symbols_of_length)
  show "symbols ls ! position ls s = s"
    unfolding symbols_split [OF assms(2,3)] position_def offset_of_def using l n(1) by (simp add: nth_append)
  show "position ls s < length (symbols ls)"
    unfolding symbols_split [OF assms(2,3)] position_def offset_of_def using l by simp
qed

lemma kraft_append [simp]: "kraft ls (xs @ ys) = kraft ls xs + kraft ls ys" "kraft ls [] = 0"
  "kraft ls (x # ys) = 2 ^ (15 - ls ! x) + kraft ls ys"
  by (simp_all add: kraft_def)

lemma kraft_same: "(\<And>x. x \<in> set xs \<Longrightarrow> ls ! x = l) \<Longrightarrow> kraft ls xs = length xs * 2 ^ (15 - l)"
  by (induction xs) (simp_all add: kraft_def)

lemma first_code_kraft:
  "1 \<le> l \<Longrightarrow> l \<le> 15 \<Longrightarrow> kraft ls (concat (map (symbols_of ls) [1..<l])) = first_code ls l * 2 ^ (15 - l)"
proof (induction l)
  case (Suc l)
  show ?case
  proof (cases "l = 0")
    case False
    have k: "kraft ls (symbols_of ls l) = count_list ls l * 2 ^ (15 - l)"
      using kraft_same [of "symbols_of ls l" ls l] by (simp add: symbols_of_length) (simp add: symbols_of_def)
    have p: "(2::nat) ^ (15 - l) = 2 * 2 ^ (15 - Suc l)"
      using Suc.prems(2) by (metis Suc_diff_Suc Suc_le_lessD power_Suc)
    have "kraft ls (concat (map (symbols_of ls) [1..<Suc l])) = (first_code ls l + count_list ls l) * 2 ^ (15 - l)"
      using Suc False k by (simp add: add_mult_distrib)
    then show ?thesis using False by (simp add: p)
  qed simp
qed simp

text \<open>The code of a symbol is where its place begins.\<close>

lemma huffman_code_start:
  assumes "s < length ls" "1 \<le> ls ! s" "ls ! s \<le> 15"
  shows "code_start ls (position ls s) = huffman_code ls s * 2 ^ (15 - ls ! s)"
proof -
  let ?l = "ls ! s" and ?c = "count_list (take s ls) (ls ! s)"
  have c: "?c \<le> length (symbols_of ls ?l)" using symbols_of_nth(2) [OF assms(1)] by (simp add: symbols_of_length)
  have "take (position ls s) (symbols ls) = concat (map (symbols_of ls) [1..<?l]) @ take ?c (symbols_of ls ?l)"
    unfolding symbols_split [OF assms(2,3)] position_def offset_of_def using c by simp
  moreover have "kraft ls (take ?c (symbols_of ls ?l)) = ?c * 2 ^ (15 - ?l)"
  proof -
    have "ls ! x = ?l" if "x \<in> set (take ?c (symbols_of ls ?l))" for x
      using in_set_takeD [OF that] by (simp add: symbols_of_def)
    from kraft_same [OF this] c show ?thesis by simp
  qed
  ultimately show ?thesis
    by (simp add: code_start_def first_code_kraft [OF assms(2,3)] huffman_code_def add_mult_distrib del: One_nat_def)
qed

lemma symbols_mem: "s \<in> set (symbols ls) \<longleftrightarrow> s < length ls \<and> 1 \<le> ls ! s \<and> ls ! s \<le> 15"
  by (auto simp: symbols_def symbols_of_def)

lemma sorted_same: "(\<And>x. x \<in> set xs \<Longrightarrow> f x = l) \<Longrightarrow> sorted (map f xs)"
  by (induction xs) simp_all

lemma symbols_sorted: "sorted (map (\<lambda>s. ls ! s) (symbols ls))"
proof -
  have "sorted (map (\<lambda>s. ls ! s) (concat (map (symbols_of ls) [a..<b])))" for a b
  proof (induction b)
    case (Suc b)
    have "sorted (map (\<lambda>s. ls ! s) (symbols_of ls b))" by (rule sorted_same [of _ _ b]) (simp add: symbols_of_def)
    then show ?case using Suc by (auto simp: sorted_append symbols_of_def)
  qed simp
  then show ?thesis by (simp add: symbols_def)
qed

lemma symbols_distinct: "distinct (symbols ls)"
proof -
  have "distinct (concat (map (symbols_of ls) [a..<b]))" for a b
    by (induction b) (auto simp: symbols_of_def)
  then show ?thesis by (simp add: symbols_def)
qed

section \<open>The codes in their order\<close>

abbreviation len_at :: "nat list \<Rightarrow> nat \<Rightarrow> nat" where
  "len_at ls m \<equiv> ls ! (symbols ls ! m)"

lemma len_at_bounds: "m < length (symbols ls) \<Longrightarrow> 1 \<le> len_at ls m" "m < length (symbols ls) \<Longrightarrow> len_at ls m \<le> 15"
  using symbols_mem [of "symbols ls ! m" ls] by simp_all

lemma len_at_mono: "i \<le> j \<Longrightarrow> j < length (symbols ls) \<Longrightarrow> len_at ls i \<le> len_at ls j"
  using sorted_nth_mono [OF symbols_sorted [of ls], of i j] by simp

lemma code_start_0 [simp]: "code_start ls 0 = 0"
  by (simp add: code_start_def)

lemma code_start_Suc: "m < length (symbols ls) \<Longrightarrow> code_start ls (Suc m) = code_start ls m + 2 ^ (15 - len_at ls m)"
  by (simp add: code_start_def take_Suc_conv_app_nth)

lemma code_start_mono: "i \<le> j \<Longrightarrow> code_start ls i \<le> code_start ls j"
proof -
  assume "i \<le> j"
  then have "take j (symbols ls) = take i (symbols ls) @ drop i (take j (symbols ls))"
    by (metis append_take_drop_id min.absorb2 take_take min.commute)
  then show ?thesis by (metis code_start_def kraft_append(1) le_add1)
qed

lemma code_start_dvd: "m < length (symbols ls) \<Longrightarrow> j \<le> m \<Longrightarrow> 2 ^ (15 - len_at ls m) dvd code_start ls j"
proof (induction j)
  case (Suc j)
  have "len_at ls j \<le> len_at ls m" using Suc.prems by (intro len_at_mono) simp_all
  then have "(2::nat) ^ (15 - len_at ls m) dvd 2 ^ (15 - len_at ls j)" by (intro le_imp_power_dvd) simp
  then show ?case using Suc by (simp add: code_start_Suc)
qed simp

text \<open>The lengths leave no more codes than there are.\<close>

definition fits :: "nat list \<Rightarrow> bool" where
  "fits ls \<longleftrightarrow> list_all (\<lambda>l. l < 16) ls \<and> code_start ls (length (symbols ls)) \<le> 2 ^ 15"

lemma code_start_less: "fits ls \<Longrightarrow> m < length (symbols ls) \<Longrightarrow> code_start ls m + 2 ^ (15 - len_at ls m) \<le> 2 ^ 15"
  using code_start_Suc [of m ls] code_start_mono [of "Suc m" "length (symbols ls)" ls] by (simp add: fits_def)

text \<open>\<open>h\<close> begins with the code of the symbol at place \<open>m\<close>.\<close>

definition starts :: "nat list \<Rightarrow> nat \<Rightarrow> nat \<Rightarrow> bool" where
  "starts ls m h \<longleftrightarrow> h mod 2 ^ len_at ls m = brev 15 (code_start ls m)"

lemma brev_start_less: "m < length (symbols ls) \<Longrightarrow> brev 15 (code_start ls m) < 2 ^ len_at ls m"
  by (rule brev_short) (simp_all add: code_start_dvd len_at_bounds)

lemma code_start_15: "fits ls \<Longrightarrow> m < length (symbols ls) \<Longrightarrow> code_start ls m < 2 ^ 15"
  using code_start_less [of ls m] zero_less_power [of "2::nat" "15 - len_at ls m"] by linarith

lemma brev_start: "fits ls \<Longrightarrow> m < length (symbols ls) \<Longrightarrow> brev 15 (brev 15 (code_start ls m)) = code_start ls m"
  using code_start_15 [of ls m] by (simp add: brev_brev)

lemma starts_interval:
  assumes f: "fits ls" and m: "m < length (symbols ls)"
  shows "starts ls m h \<longleftrightarrow> code_start ls m \<le> brev 15 h \<and> brev 15 h < code_start ls (Suc m)"
proof -
  let ?l = "len_at ls m" and ?k = "code_start ls m"
  have "starts ls m h \<longleftrightarrow> h mod 2 ^ ?l = brev 15 ?k mod 2 ^ ?l" using brev_start_less [OF m] by (simp add: starts_def)
  also have "\<dots> \<longleftrightarrow> brev 15 h div 2 ^ (15 - ?l) = ?k div 2 ^ (15 - ?l)"
    using same_prefix [of ?l 15 h "brev 15 ?k"] len_at_bounds(2) [OF m] brev_start [OF f m] by simp
  also have "\<dots> \<longleftrightarrow> ?k \<le> brev 15 h \<and> brev 15 h < ?k + 2 ^ (15 - ?l)"
  proof -
    obtain q where q: "?k = 2 ^ (15 - ?l) * q" using code_start_dvd [OF m order_refl] by (elim dvdE)
    have "x div d = q \<longleftrightarrow> d * q \<le> x \<and> x < d * q + d" if "0 < d" for x d :: nat
      using that by (metis div_nat_eqI mult.commute mult_Suc add.commute dividend_less_times_div times_div_less_eq_dividend)
    then show ?thesis by (simp add: q)
  qed
  finally show ?thesis by (simp add: code_start_Suc [OF m])
qed

text \<open>No code is the beginning of another.\<close>

lemma starts_unique:
  assumes "fits ls" "i < length (symbols ls)" "j < length (symbols ls)" "starts ls i h" "starts ls j h"
  shows "i = j"
proof (rule ccontr)
  assume "i \<noteq> j"
  then consider "Suc i \<le> j" | "Suc j \<le> i" by linarith
  then show False
    using assms starts_interval [OF assms(1,2), of h] starts_interval [OF assms(1,3), of h]
      code_start_mono [of "Suc i" j ls] code_start_mono [of "Suc j" i ls] by cases linarith+
qed

end
