(* ===== verification/Bit_Lists.thy ===== *)
theory Bit_Lists
  imports Huffman_Code
begin

text \<open>
  Numbers and bytes as lists of bits, lowest bit first (\<open>lsb\<close>) or highest first (\<open>msb\<close>), and back: what the
  bit streams of the two decompressors are stated with.
\<close>

section \<open>Bits as lists\<close>

fun lsb :: "nat \<Rightarrow> nat \<Rightarrow> nat list" where
  "lsb 0 v = []"
| "lsb (Suc n) v = v mod 2 # lsb n (v div 2)"

definition msb :: "nat \<Rightarrow> nat \<Rightarrow> nat list" where
  "msb n v = rev (lsb n v)"

lemma lsb_length [simp]: "length (lsb n v) = n"
  by (induction n arbitrary: v) simp_all

lemma lsb_Nil [simp]: "lsb n v = [] \<longleftrightarrow> n = 0"
  by (cases n) simp_all

lemma msb_length [simp]: "length (msb n v) = n"
  by (simp add: msb_def)

lemma msb_0 [simp]: "msb 0 v = []"
  by (simp add: msb_def)

lemma msb_snoc: "b < 2 \<Longrightarrow> msb (Suc f) (2 * g + b) = msb f g @ [b]"
  by (simp add: msb_def)

lemma lsb_nth: "k < n \<Longrightarrow> lsb n v ! k = v div 2 ^ k mod 2"
proof (induction n arbitrary: v k)
  case (Suc n)
  then show ?case by (cases k) (simp_all add: div_mult2_eq)
qed simp

text \<open>The highest of \<open>j + 1\<close> bits first.\<close>

lemma msb_Suc: "msb (Suc j) v = (v div 2 ^ j mod 2) # msb j v"
proof (rule nth_equalityI)
  fix k assume "k < length (msb (Suc j) v)"
  then have k: "k < Suc j" by simp
  show "msb (Suc j) v ! k = ((v div 2 ^ j mod 2) # msb j v) ! k"
  proof (cases k)
    case 0
    then show ?thesis by (simp add: msb_def rev_nth lsb_nth del: lsb.simps)
  next
    case (Suc l)
    then show ?thesis using k by (simp add: msb_def rev_nth lsb_nth del: lsb.simps)
  qed
qed simp

section \<open>The value of a list of bits\<close>

definition bits_value :: "nat list \<Rightarrow> nat" where
  "bits_value bs = foldr (\<lambda>b v. b + 2 * v) bs 0"

lemma bits_value_simps [simp]: "bits_value [] = 0" "bits_value (b # bs) = b + 2 * bits_value bs"
  by (simp_all add: bits_value_def)

lemma bits_value_append: "bits_value (as @ bs) = bits_value as + 2 ^ length as * bits_value bs"
  by (induction as) simp_all

lemma bits_value_less: "list_all (\<lambda>b. b < 2) bs \<Longrightarrow> bits_value bs < 2 ^ length bs"
  by (induction bs) auto

lemma bits_value_lsb [simp]: "bits_value (lsb n v) = v mod 2 ^ n"
proof (induction n arbitrary: v)
  case (Suc n)
  then show ?case using mod_mult2_eq [of v 2 "2 ^ n"] by simp
qed simp

lemma bits_value_msb [simp]: "bits_value (msb n v) = brev n v"
proof (induction n arbitrary: v)
  case (Suc n)
  have "msb (Suc n) v = msb n (v div 2) @ [v mod 2]" by (simp add: msb_def)
  then show ?case using Suc by (simp add: bits_value_append brev_Suc)
qed simp

lemma lsb_bits: "list_all (\<lambda>b. b < 2) (lsb n v)"
  by (induction n arbitrary: v) simp_all

lemma msb_bits: "list_all (\<lambda>b. b < 2) (msb n v)"
  using lsb_bits [of n v] by (simp add: msb_def)

lemma lsb_value: "list_all (\<lambda>b. b < 2) bs \<Longrightarrow> lsb (length bs) (bits_value bs) = bs"
  by (induction bs) simp_all

lemma lsb_zero [simp]: "lsb n 0 = replicate n 0"
  by (induction n) simp_all

lemma lsb_append: "lsb (m + n) v = lsb m v @ lsb n (v div 2 ^ m)"
  by (induction m arbitrary: v) (simp_all add: div_mult2_eq)

section \<open>Bytes\<close>

definition bit_list :: "nat list \<Rightarrow> nat list" where
  "bit_list t = concat (map (lsb 8) t)"

lemma bit_list_simps [simp]:
  "bit_list [] = []" "bit_list (b # t) = lsb 8 b @ bit_list t" "bit_list (t @ u) = bit_list t @ bit_list u"
  by (simp_all add: bit_list_def)

lemma bit_list_length [simp]: "length (bit_list t) = 8 * length t"
  by (induction t) simp_all

text \<open>Bits packed into bytes, with zeros at the end of the last.\<close>

fun pack_bits :: "nat list \<Rightarrow> nat list" where
  "pack_bits bs = (if bs = [] then [] else bits_value (take 8 bs) # pack_bits (drop 8 bs))"

declare pack_bits.simps [simp del]

definition pad_length :: "nat \<Rightarrow> nat" where
  "pad_length n = (8 - n mod 8) mod 8"

lemma bit_list_pack: "list_all (\<lambda>b. b < 2) bs \<Longrightarrow> bit_list (pack_bits bs) = bs @ replicate (pad_length (length bs)) 0"
proof (induction bs rule: pack_bits.induct)
  case (1 bs)
  show ?case
  proof (cases "bs = []")
    case False
    have all: "list_all (\<lambda>b. b < 2) (take 8 bs)" "list_all (\<lambda>b. b < 2) (drop 8 bs)"
      using "1.prems" by (metis append_take_drop_id list_all_append)+
    show ?thesis
    proof (cases "8 \<le> length bs")
      case True
      have "lsb 8 (bits_value (take 8 bs)) = take 8 bs" using lsb_value [OF all(1)] True by simp
      moreover have "pad_length (length (drop 8 bs)) = pad_length (length bs)" using True by (simp add: pad_length_def le_mod_geq)
      ultimately show ?thesis using "1.IH" [OF False all(2)] False by (simp add: pack_bits.simps [of bs])
    next
      case short: False
      have "lsb 8 (bits_value bs) = lsb (length bs) (bits_value bs) @ lsb (8 - length bs) (bits_value bs div 2 ^ length bs)"
        using lsb_append [of "length bs" "8 - length bs"] short by simp
      moreover have "bits_value bs div 2 ^ length bs = 0" using bits_value_less "1.prems" by simp
      moreover have "pad_length (length bs) = 8 - length bs" using False short by (cases bs) (simp_all add: pad_length_def)
      ultimately show ?thesis using short lsb_value [OF "1.prems"] False by (simp add: pack_bits.simps [of bs] pack_bits.simps [of "[]"])
    qed
  qed (simp add: pack_bits.simps pad_length_def)
qed

lemma pack_bits_bytes: "list_all (\<lambda>b. b < 2) bs \<Longrightarrow> list_all (\<lambda>b. b < 256) (pack_bits bs)"
proof (induction bs rule: pack_bits.induct)
  case (1 bs)
  show ?case
  proof (cases "bs = []")
    case False
    have all: "list_all (\<lambda>b. b < 2) (take 8 bs)" "list_all (\<lambda>b. b < 2) (drop 8 bs)"
      using "1.prems" by (metis append_take_drop_id list_all_append)+
    have "bits_value (take 8 bs) < 2 ^ length (take 8 bs)" by (rule bits_value_less [OF all(1)])
    also have "\<dots> \<le> 2 ^ 8" by (rule power_increasing) simp_all
    finally show ?thesis using "1.IH" [OF False all(2)] False by (simp add: pack_bits.simps [of bs])
  qed (simp add: pack_bits.simps)
qed

lemma pack_bits_append_bytes:
  assumes "8 dvd length bs" "list_all (\<lambda>b. b < 256) t"
  shows "pack_bits (bs @ bit_list t) = pack_bits bs @ t"
  using assms(1)
proof (induction bs rule: pack_bits.induct)
  case (1 bs)
  show ?case
  proof (cases "bs = []")
    case True
    have "pack_bits (bit_list t) = t" using assms(2)
      by (induction t) (simp_all add: pack_bits.simps [of "[]"] pack_bits.simps [of "lsb 8 b @ r" for b r])
    then show ?thesis by (simp add: True pack_bits.simps [of "[]"])
  next
    case False
    then have "8 \<le> length bs" using "1.prems" by (auto dest: dvd_imp_le)
    moreover have "8 dvd length (drop 8 bs)" using "1.prems" calculation by (simp add: dvd_diff_nat)
    ultimately show ?thesis using "1.IH" [OF False] False
      by (simp add: pack_bits.simps [of bs] pack_bits.simps [of "bs @ bit_list t"])
  qed
qed

section \<open>Where a list of bytes holds which bits\<close>

definition has_bits :: "nat list \<Rightarrow> nat \<Rightarrow> nat list \<Rightarrow> bool" where
  "has_bits t q bs \<longleftrightarrow> take (length bs) (drop q (bit_list t)) = bs"

lemma has_bits_append: "has_bits t q (as @ bs) \<longleftrightarrow> has_bits t q as \<and> has_bits t (q + length as) bs"
proof -
  have "take (length as + length bs) (drop q (bit_list t)) =
      take (length as) (drop q (bit_list t)) @ take (length bs) (drop (q + length as) (bit_list t))"
    by (simp add: take_add add.commute)
  moreover have "length (take (length as) (drop q (bit_list t))) \<le> length as" by simp
  moreover have "x @ y = as @ bs \<longleftrightarrow> x = as \<and> y = bs"
    if "x = take (length as) (drop q (bit_list t))" "y = take (length bs) (drop (q + length as) (bit_list t))" for x y
  proof
    assume e: "x @ y = as @ bs"
    have "length x = length as"
    proof (rule ccontr)
      assume n: "length x \<noteq> length as"
      then have "8 * length t < q + length as" using that(1) by (auto simp: min_def split: if_splits)
      then have "y = []" using that(2) by simp
      then have "length x = length as + length bs" using e by (metis append_Nil2 length_append)
      then show False using n that(1) by (simp add: min_def split: if_splits)
    qed
    then show "x = as \<and> y = bs" using e by simp
  qed simp
  ultimately show ?thesis by (simp add: has_bits_def)
qed

lemma has_bits_fits: "has_bits t q bs \<Longrightarrow> q \<le> 8 * length t \<Longrightarrow> q + length bs \<le> 8 * length t"
proof -
  assume "has_bits t q bs" "q \<le> 8 * length t"
  then have "length (take (length bs) (drop q (bit_list t))) = length bs" by (simp add: has_bits_def)
  then show ?thesis using \<open>q \<le> 8 * length t\<close> by (simp add: min_def split: if_splits)
qed

end
