(* ===== verification/Lz_Bits.thy ===== *)
theory Lz_Bits
  imports Lz_String Bit_Lists
begin

text \<open>
  What the writer and the reader of \<open>LZString\<close> do with bits: the characters hold the bits written, from the
  highest bit of each, and the reader gives them back in the same order.
\<close>

section \<open>The writer\<close>

text \<open>The writer holds the bits \<open>bs\<close>.\<close>

definition holds_bits :: "nat \<Rightarrow> (nat \<Rightarrow> nat) \<Rightarrow> writer \<Rightarrow> nat list \<Rightarrow> bool" where
  "holds_bits t i w bs \<longleftrightarrow> (case w of (m, g, f) \<Rightarrow>
     f < t \<and> g < 2 ^ f \<and> (\<exists>vs. m = map i vs \<and> list_all (\<lambda>v. v < 2 ^ t) vs \<and> bs = concat (map (msb t) vs) @ msb f g))"

lemma holds_empty: "0 < t \<Longrightarrow> holds_bits t i ([], 0, 0) []"
  by (simp add: holds_bits_def)

lemma holds_put_bit:
  assumes "holds_bits t i w bs" "b < 2"
  shows "holds_bits t i (put_bit t i b w) (bs @ [b])"
proof -
  obtain m g f where w: "w = (m, g, f)" by (cases w)
  obtain vs where h: "f < t" "g < 2 ^ f" "m = map i vs" "list_all (\<lambda>v. v < 2 ^ t) vs" "bs = concat (map (msb t) vs) @ msb f g"
    using assms(1) by (auto simp: holds_bits_def w)
  have g: "2 * g + b < 2 ^ Suc f" using h(2) assms(2) by simp
  show ?thesis
  proof (cases "f = t - 1")
    case True
    then have t: "t = Suc f" using h(1) by simp
    show ?thesis using h g assms(2)
      by (auto simp: holds_bits_def put_bit_def w t msb_snoc intro!: exI [of _ "vs @ [2 * g + b]"])
  next
    case False
    then have "Suc f < t" using h(1) by simp
    then show ?thesis using h g assms(2) False
      by (auto simp: holds_bits_def put_bit_def w msb_snoc)
  qed
qed

lemma holds_put_bits: "holds_bits t i w bs \<Longrightarrow> holds_bits t i (put_bits t i n v w) (bs @ lsb n v)"
proof (induction n arbitrary: v w bs)
  case (Suc n)
  have "holds_bits t i (put_bit t i (v mod 2) w) (bs @ [v mod 2])" by (rule holds_put_bit [OF Suc.prems]) simp
  from Suc.IH [OF this, of "v div 2"] show ?case by simp
qed simp

lemma msb_pad: "msb (f + k) (g * 2 ^ k) = msb f g @ replicate k 0"
proof (induction k)
  case (Suc k)
  have "msb (Suc (f + k)) (2 * (g * 2 ^ k) + 0) = msb (f + k) (g * 2 ^ k) @ [0]" by (rule msb_snoc) simp
  then show ?case using Suc by (simp add: replicate_append_same mult.left_commute)
qed simp

lemma holds_flush:
  assumes "holds_bits t i w bs"
  obtains vs k where "flush t i w = map i vs" "list_all (\<lambda>v. v < 2 ^ t) vs" "0 < k"
    "concat (map (msb t) vs) = bs @ replicate k 0"
proof -
  obtain m g f where w: "w = (m, g, f)" by (cases w)
  obtain vs where h: "f < t" "g < 2 ^ f" "m = map i vs" "list_all (\<lambda>v. v < 2 ^ t) vs" "bs = concat (map (msb t) vs) @ msb f g"
    using assms by (auto simp: holds_bits_def w)
  define k where "k = t - f"
  have k: "t = f + k" "0 < k" using h(1) by (simp_all add: k_def)
  have "g * 2 ^ k < 2 ^ f * 2 ^ k" using h(2) by simp
  then have "g * 2 ^ k < 2 ^ t" by (simp add: k(1) power_add)
  then show thesis
    using that [of "vs @ [g * 2 ^ k]" k] h k by (simp add: flush_def w msb_pad)
qed

section \<open>The reader\<close>

text \<open>
  \<open>ds\<close> are the values of the input (0 where there is none: it has no bits either); \<open>bs\<close> are the bits still
  to be read.
\<close>

definition input :: "nat list \<Rightarrow> (nat \<Rightarrow> nat option) \<Rightarrow> bool" where
  "input ds n \<longleftrightarrow> (\<forall>k. (case n k of None \<Rightarrow> 0 | Some x \<Rightarrow> x) = (if k < length ds then ds ! k else 0))"

definition reads :: "nat \<Rightarrow> nat list \<Rightarrow> (nat \<Rightarrow> nat option) \<Rightarrow> reader \<Rightarrow> nat list \<Rightarrow> bool" where
  "reads t ds n rd bs \<longleftrightarrow> (case rd of (v, pos, idx) \<Rightarrow>
     \<exists>j. j < t \<and> pos = 2 ^ j \<and> 0 < idx \<and> v = n (idx - 1) \<and>
       bs = (if idx \<le> length ds then msb (Suc j) (ds ! (idx - 1)) @ concat (map (msb t) (drop idx ds)) else []))"

lemma reads_start:
  assumes "0 < t" "ds \<noteq> []"
  shows "reads t ds n (n 0, 2 ^ (t - 1), 1) (concat (map (msb t) ds))"
  using assms by (cases ds) (auto simp: reads_def intro!: exI [of _ "t - 1"])

lemma reads_some: "reads t ds n rd (b # bs) \<Longrightarrow> snd (snd rd) \<le> length ds"
  by (auto simp: reads_def split: prod.splits if_splits)

lemma bit_of_input:
  assumes "input ds n" "k < length ds"
  shows "(case n k of None \<Rightarrow> 0 | Some x \<Rightarrow> x div p mod 2) = ds ! k div p mod 2"
proof -
  have "(case n k of None \<Rightarrow> 0 | Some x \<Rightarrow> x) = ds ! k" using assms by (simp add: input_def)
  then show ?thesis by (cases "n k") auto
qed

lemma reads_bit:
  assumes "input ds n" "reads t ds n rd (b # bs)"
  shows "\<exists>rd'. read_bit n (2 ^ (t - 1)) rd = (b, rd') \<and> reads t ds n rd' bs"
proof -
  obtain v pos idx where rd: "rd = (v, pos, idx)" by (cases rd)
  obtain j where j: "j < t" "pos = 2 ^ j" "0 < idx" "v = n (idx - 1)" and i: "idx \<le> length ds"
    and bs: "b # bs = msb (Suc j) (ds ! (idx - 1)) @ concat (map (msb t) (drop idx ds))"
    using assms(2) by (auto simp: reads_def rd split: if_splits)
  have b: "b = ds ! (idx - 1) div 2 ^ j mod 2" and rest: "bs = msb j (ds ! (idx - 1)) @ concat (map (msb t) (drop idx ds))"
    using bs by (simp_all add: msb_Suc)
  have r: "(case v of None \<Rightarrow> 0 | Some x \<Rightarrow> x div pos mod 2) = b"
    using bit_of_input [OF assms(1), of "idx - 1" pos] i j(2,3,4) b by simp
  show ?thesis
  proof (cases j)
    case 0
    have "bs = (if idx + 1 \<le> length ds then msb (Suc (t - 1)) (ds ! idx) @ concat (map (msb t) (drop (idx + 1) ds)) else [])"
      using rest i j(1) 0 by (auto simp: Cons_nth_drop_Suc [symmetric])
    then have "reads t ds n (n idx, 2 ^ (t - 1), idx + 1) bs"
      using j(1) by (auto simp: reads_def intro!: exI [of _ "t - 1"])
    moreover have "pos div 2 = 0" by (simp add: j(2) 0)
    ultimately show ?thesis using r by (simp add: rd read_bit_def)
  next
    case (Suc l)
    then have "reads t ds n (v, 2 ^ l, idx) bs"
      using j i rest by (auto simp: reads_def intro!: exI [of _ l])
    moreover have "pos div 2 = 2 ^ l" by (simp add: j(2) Suc)
    ultimately show ?thesis using r by (simp add: rd read_bit_def)
  qed
qed

lemma reads_bits:
  "input ds n \<Longrightarrow> reads t ds n rd (lsb k v @ bs) \<Longrightarrow> v < 2 ^ k \<Longrightarrow>
   \<exists>rd'. read_bits n (2 ^ (t - 1)) k rd = (v, rd') \<and> reads t ds n rd' bs"
proof (induction k arbitrary: v rd)
  case (Suc k)
  obtain rd1 where 1: "read_bit n (2 ^ (t - 1)) rd = (v mod 2, rd1)" "reads t ds n rd1 (lsb k (v div 2) @ bs)"
    using reads_bit [OF Suc.prems(1), of t rd "v mod 2" "lsb k (v div 2) @ bs"] Suc.prems(2) unfolding lsb.simps append.simps
    by blast
  obtain rd2 where 2: "read_bits n (2 ^ (t - 1)) k rd1 = (v div 2, rd2)" "reads t ds n rd2 bs"
  proof -
    have "v div 2 < 2 ^ k" using Suc.prems(3) by simp
    then show thesis using Suc.IH [OF Suc.prems(1) 1(2)] that by blast
  qed
  show ?case using 1(1) 2 by simp
qed simp

end
