(* ===== verification/Lz_Correct.thy ===== *)
theory Lz_Correct
  imports Lz_Bits
begin

text \<open>
  \<open>LZString\<close> is lossless: the decompressor follows the compressor, one phrase behind in its dictionary.
\<close>

section \<open>What the compressor sends\<close>

definition emit_bits :: "lz \<Rightarrow> nat list" where
  "emit_bits s =
     (let d = lz_phrase s; p = lz_width s in
      if d \<in> lz_new s then (if hd d < 256 then lsb p 0 @ lsb 8 (hd d) else lsb p 1 @ lsb 16 (hd d))
      else lsb p (case lz_dict s d of Some k \<Rightarrow> k | None \<Rightarrow> 0))"

text \<open>The first half of a step: a character never seen gets a number.\<close>

definition register :: "nat \<Rightarrow> lz \<Rightarrow> lz" where
  "register l s =
     (if lz_dict s [l] = None
      then s\<lparr>lz_dict := (lz_dict s)([l] \<mapsto> lz_size s), lz_size := lz_size s + 1, lz_new := insert [l] (lz_new s)\<rparr>
      else s)"

definition next_phrase :: "nat \<Rightarrow> js_text \<Rightarrow> lz \<Rightarrow> lz" where
  "next_phrase l c s = s\<lparr>lz_dict := own_set c (lz_size s) (lz_dict s), lz_size := lz_size s + 1, lz_phrase := [l]\<rparr>"

lemma register_fields [simp]:
  "lz_phrase (register l s) = lz_phrase s" "lz_width (register l s) = lz_width s"
  "lz_enlarge (register l s) = lz_enlarge s" "lz_out (register l s) = lz_out s"
  by (simp_all add: register_def)

lemma own_set_single [simp]: "own_set [l] v r = r([l] \<mapsto> v)"
  by (simp add: own_set_def)

lemma lz_step_eq:
  "lz_step t i s l =
     (let s1 = register l s; c = lz_phrase s @ [l] in
      if lz_dict s1 c \<noteq> None then s1\<lparr>lz_phrase := c\<rparr> else next_phrase l c (lz_emit t i s1))"
proof -
  have r: "(if lz_dict s [l] = None
      then s\<lparr>lz_dict := own_set [l] (lz_size s) (lz_dict s), lz_size := lz_size s + 1, lz_new := insert [l] (lz_new s)\<rparr>
      else s) = register l s"
    by (simp add: register_def)
  show ?thesis unfolding lz_step_def r by (simp only: Let_def register_fields next_phrase_def)
qed

lemma tick_fields [simp]:
  "lz_dict (lz_tick s) = lz_dict s" "lz_new (lz_tick s) = lz_new s" "lz_phrase (lz_tick s) = lz_phrase s"
  "lz_size (lz_tick s) = lz_size s" "lz_out (lz_tick s) = lz_out s"
  by (simp_all add: lz_tick_def)

lemma emit_fields [simp]:
  "lz_dict (lz_emit t i s) = lz_dict s" "lz_phrase (lz_emit t i s) = lz_phrase s" "lz_size (lz_emit t i s) = lz_size s"
  "lz_new (lz_emit t i s) = lz_new s - {lz_phrase s}"
  by (simp_all add: lz_emit_def Let_def)

lemma next_phrase_fields [simp]:
  "lz_phrase (next_phrase l c s) = [l]" "lz_width (next_phrase l c s) = lz_width s" "lz_new (next_phrase l c s) = lz_new s"
  "lz_enlarge (next_phrase l c s) = lz_enlarge s" "lz_out (next_phrase l c s) = lz_out s"
  "lz_size (next_phrase l c s) = lz_size s + 1" "lz_dict (next_phrase l c s) = own_set c (lz_size s) (lz_dict s)"
  by (simp_all add: next_phrase_def)

lemma emit_out:
  assumes "holds_bits t i (lz_out s) bs"
  shows "holds_bits t i (lz_out (lz_emit t i s)) (bs @ emit_bits s)"
  using holds_put_bits [OF holds_put_bits [OF assms, of "lz_width s" 0], of 8 "hd (lz_phrase s)"]
    holds_put_bits [OF holds_put_bits [OF assms, of "lz_width s" 1], of 16 "hd (lz_phrase s)"]
    holds_put_bits [OF assms, of "lz_width s" "case lz_dict s (lz_phrase s) of Some k \<Rightarrow> k | None \<Rightarrow> 0"]
  by (auto simp: lz_emit_def emit_bits_def Let_def simp del: put_bits.simps lsb.simps)

text \<open>All bits from a state on, for the characters that are left.\<close>

definition step_bits :: "lz \<Rightarrow> nat \<Rightarrow> nat list" where
  "step_bits s l = (if lz_dict (register l s) (lz_phrase s @ [l]) \<noteq> None then [] else emit_bits (register l s))"

fun future :: "nat \<Rightarrow> (nat \<Rightarrow> nat) \<Rightarrow> lz \<Rightarrow> js_text \<Rightarrow> nat list" where
  "future t i s [] =
     (if lz_phrase s \<noteq> [] then emit_bits s @ lsb (lz_width (lz_emit t i s)) 2 else lsb (lz_width s) 2)"
| "future t i s (x # xs) = step_bits s x @ future t i (lz_step t i s x) xs"

lemma step_out:
  "holds_bits t i (lz_out s) bs \<Longrightarrow> holds_bits t i (lz_out (lz_step t i s l)) (bs @ step_bits s l)"
  using emit_out [of t i "register l s" bs] by (simp add: lz_step_eq step_bits_def Let_def)

lemma future_out:
  "holds_bits t i (lz_out s) bs \<Longrightarrow>
   (let s' = foldl (lz_step t i) s xs; s' = (if lz_phrase s' \<noteq> [] then lz_emit t i s' else s') in
    holds_bits t i (put_bits t i (lz_width s') 2 (lz_out s')) (bs @ future t i s xs))"
proof (induction xs arbitrary: s bs)
  case Nil
  show ?case
    using holds_put_bits [OF emit_out [OF Nil], of "lz_width (lz_emit t i s)" 2] holds_put_bits [OF Nil, of "lz_width s" 2]
    by (simp add: Let_def del: put_bits.simps lsb.simps)
next
  case (Cons x xs)
  from Cons.IH [OF step_out [OF Cons.prems, of x]] show ?case by simp
qed

lemma compress_bits:
  assumes "0 < t"
  obtains vs k where "lz_compress t i e = map i vs" "list_all (\<lambda>v. v < 2 ^ t) vs" "0 < k"
    "concat (map (msb t) vs) = future t i lz_start e @ replicate k 0"
proof -
  have "holds_bits t i (lz_out lz_start) []" using holds_empty [OF assms] by (simp add: lz_start_def)
  from future_out [OF this, of e] have "holds_bits t i
      (let s = foldl (lz_step t i) lz_start e; s = (if lz_phrase s \<noteq> [] then lz_emit t i s else s) in
       put_bits t i (lz_width s) 2 (lz_out s)) (future t i lz_start e)"
    by (simp add: Let_def del: put_bits.simps)
  from holds_flush [OF this] that show thesis by (auto simp: lz_compress_def Let_def simp del: put_bits.simps)
qed

section \<open>Compressor and decompressor side by side\<close>

text \<open>The dictionaries agree on the numbers below the decompressor's size.\<close>

definition dict_ok :: "unlz \<Rightarrow> bool" where
  "dict_ok u \<longleftrightarrow> (\<forall>k. un_dict u k \<noteq> None \<longleftrightarrow> 3 \<le> k \<and> k < un_size u) \<and> (\<forall>k g. un_dict u k = Some g \<longrightarrow> g \<noteq> [])"

definition widths_ok :: "lz \<Rightarrow> unlz \<Rightarrow> bool" where
  "widths_ok s u \<longleftrightarrow> lz_enlarge s = un_enlarge u \<and> lz_width s = un_width u \<and> 0 < un_enlarge u \<and> 3 \<le> un_width u \<and>
     un_size u + un_enlarge u = 2 ^ un_width u \<and> 3 \<le> un_size u"

text \<open>The letters of the phrases in the decompressor's dictionary.\<close>

definition letters :: "unlz \<Rightarrow> nat set" where
  "letters u = {x. \<exists>k g. un_dict u k = Some g \<and> x \<in> set g}"

text \<open>
  After a phrase \<open>w\<close> was sent and received, \<open>l\<close> being the character that follows it: the compressor may have
  one character more, \<open>l\<close>.
\<close>

definition in_sync :: "lz \<Rightarrow> unlz \<Rightarrow> js_text \<Rightarrow> nat \<Rightarrow> bool" where
  "in_sync s u w l \<longleftrightarrow> widths_ok s u \<and> dict_ok u \<and> un_last u = Some w \<and> w \<noteq> [] \<and> set w \<subseteq> letters u \<and>
     (\<forall>x k. lz_dict s x = Some k \<longrightarrow>
        un_dict u k = Some x \<or> (lz_new s = {[l]} \<and> x = [l] \<and> k = un_size u)) \<and>
     (lz_new s = {} \<and> lz_size s = un_size u \<or>
      lz_new s = {[l]} \<and> lz_size s = un_size u + 1 \<and> l \<notin> letters u) \<and>
     lz_dict s [l] \<noteq> None \<and> (\<forall>x y. lz_dict s x \<noteq> None \<longrightarrow> y \<in> set x \<longrightarrow> lz_dict s [y] \<noteq> None) \<and>
     (\<forall>y \<in> set w. lz_dict s [y] \<noteq> None) \<and> (\<forall>y \<in> letters u. lz_dict s [y] \<noteq> None)"

text \<open>While a phrase \<open>d\<close> grows: the compressor also has the phrase \<open>w\<close> with the first character of \<open>d\<close>.\<close>

definition ready :: "lz \<Rightarrow> unlz \<Rightarrow> js_text \<Rightarrow> bool" where
  "ready s u w \<longleftrightarrow> widths_ok s u \<and> dict_ok u \<and> un_last u = Some w \<and> w \<noteq> [] \<and> set w \<subseteq> letters u \<and>
     lz_phrase s \<noteq> [] \<and> lz_dict s (lz_phrase s) \<noteq> None \<and>
     (\<forall>x k. lz_dict s x = Some k \<longrightarrow>
        un_dict u k = Some x \<or>
        (lz_new s = {} \<and> k = un_size u \<and> x = w @ [hd (lz_phrase s)]) \<or>
        (lz_new s = {lz_phrase s} \<and> (k = un_size u \<and> x = lz_phrase s \<or> k = un_size u + 1 \<and> x = w @ [hd (lz_phrase s)]))) \<and>
     (lz_new s = {} \<and> lz_size s = un_size u + 1 \<or>
      lz_new s = {lz_phrase s} \<and> lz_phrase s = [hd (lz_phrase s)] \<and> lz_size s = un_size u + 2 \<and>
        hd (lz_phrase s) \<notin> letters u) \<and>
     (\<forall>x y. lz_dict s x \<noteq> None \<longrightarrow> y \<in> set x \<longrightarrow> lz_dict s [y] \<noteq> None) \<and>
     (\<forall>y \<in> letters u. lz_dict s [y] \<noteq> None)"

lemma ready_dict:
  assumes "ready s u w" "lz_dict s x = Some k"
  shows "un_dict u k = Some x \<or> (lz_new s = {} \<and> k = un_size u \<and> x = w @ [hd (lz_phrase s)]) \<or>
    (lz_new s = {lz_phrase s} \<and> (k = un_size u \<and> x = lz_phrase s \<or> k = un_size u + 1 \<and> x = w @ [hd (lz_phrase s)]))"
proof -
  have "\<forall>x k. lz_dict s x = Some k \<longrightarrow>
        un_dict u k = Some x \<or>
        (lz_new s = {} \<and> k = un_size u \<and> x = w @ [hd (lz_phrase s)]) \<or>
        (lz_new s = {lz_phrase s} \<and> (k = un_size u \<and> x = lz_phrase s \<or> k = un_size u + 1 \<and> x = w @ [hd (lz_phrase s)]))"
    using assms(1) unfolding ready_def by (elim conjE) assumption
  then show ?thesis using assms(2) by simp
qed

lemma own_set_other [simp]: "own_set k v r [y] = (if k = [y] then Some v else r [y])"
  by (simp add: own_set_def)

lemma sync_ready:
  assumes "in_sync s u w l"
  shows "ready (next_phrase l (w @ [l]) s) u w"
proof -
  have w: "w \<noteq> []" and dom: "\<And>y. y \<in> set w \<Longrightarrow> lz_dict s [y] \<noteq> None" "lz_dict s [l] \<noteq> None"
    "\<And>x y. lz_dict s x \<noteq> None \<Longrightarrow> y \<in> set x \<Longrightarrow> lz_dict s [y] \<noteq> None"
    using assms by (auto simp: in_sync_def)
  have cl: "\<forall>x y. own_set (w @ [l]) (lz_size s) (lz_dict s) x \<noteq> None \<longrightarrow> y \<in> set x \<longrightarrow>
      own_set (w @ [l]) (lz_size s) (lz_dict s) [y] \<noteq> None"
    using dom by (auto simp: own_set_def split: if_splits)
  have m: "own_set (w @ [l]) (lz_size s) (lz_dict s) x = Some k \<Longrightarrow> lz_dict s x = Some k \<or> x = w @ [l] \<and> k = lz_size s" for x k
    by (auto simp: own_set_def split: if_splits)
  show ?thesis
    using assms w cl m unfolding ready_def in_sync_def widths_ok_def by (auto dest!: m)
qed

text \<open>The widths of both sides.\<close>

fun tick2 :: "nat \<times> nat \<Rightarrow> nat \<times> nat" where
  "tick2 (e, w) = (if e = 1 then (2 ^ w, w + 1) else (e - 1, w))"

fun count_ok :: "nat \<Rightarrow> nat \<times> nat \<Rightarrow> bool" where
  "count_ok n (e, w) \<longleftrightarrow> 0 < e \<and> 3 \<le> w \<and> n + e = 2 ^ w"

lemma count_ok_tick: "count_ok n ew \<Longrightarrow> count_ok (Suc n) (tick2 ew)"
  by (cases ew) auto

definition lz_widths :: "lz \<Rightarrow> nat \<times> nat" where "lz_widths s = (lz_enlarge s, lz_width s)"
definition un_widths :: "unlz \<Rightarrow> nat \<times> nat" where "un_widths u = (un_enlarge u, un_width u)"

lemma widths_ok_iff: "widths_ok s u \<longleftrightarrow> lz_widths s = un_widths u \<and> count_ok (un_size u) (un_widths u) \<and> 3 \<le> un_size u"
  by (auto simp: widths_ok_def lz_widths_def un_widths_def)

lemma lz_widths_simps [simp]:
  "lz_widths (lz_tick s) = tick2 (lz_widths s)" "lz_widths (register l s) = lz_widths s" "lz_widths (next_phrase l c s) = lz_widths s"
  by (simp_all add: lz_widths_def lz_tick_def)

lemma lz_widths_emit:
  "lz_widths (lz_emit t i s) =
     (if lz_phrase s \<in> lz_new s then tick2 (tick2 (lz_widths s)) else tick2 (lz_widths s))"
proof -
  have u: "lz_widths (s\<lparr>lz_out := w\<rparr>) = lz_widths s" "lz_widths (s\<lparr>lz_new := ns\<rparr>) = lz_widths s" for w ns s
    by (simp_all add: lz_widths_def)
  show ?thesis by (simp add: lz_emit_def Let_def u)
qed

lemma un_tick_fields [simp]:
  "un_widths (un_tick u) = tick2 (un_widths u)" "un_dict (un_tick u) = un_dict u" "un_last (un_tick u) = un_last u"
  "un_parts (un_tick u) = un_parts u" "un_size (un_tick u) = un_size u" "un_reader (un_tick u) = un_reader u"
  by (simp_all add: un_widths_def un_tick_def)

lemma un_push_fields [simp]:
  "un_widths (un_push g u) = tick2 (un_widths u)" "un_last (un_push g u) = Some g" "un_parts (un_push g u) = un_parts u @ [Some g]"
  "un_size (un_push g u) = un_size u + 1" "un_reader (un_push g u) = un_reader u"
  "un_dict (un_push g u) = (un_dict u)(un_size u \<mapsto> text_of (un_last u) @ take 1 g)"
  by (simp_all add: un_push_def) (simp add: un_widths_def)

text \<open>The decompressor's state when it has received the phrase of \<open>s\<close>.\<close>

definition received :: "lz \<Rightarrow> reader \<Rightarrow> unlz \<Rightarrow> unlz" where
  "received s rd u =
     un_push (lz_phrase s)
       (if lz_phrase s \<in> lz_new s
        then un_tick (u\<lparr>un_reader := rd, un_dict := (un_dict u)(un_size u \<mapsto> lz_phrase s), un_size := un_size u + 1\<rparr>)
        else u\<lparr>un_reader := rd\<rparr>)"

lemma emit_bits_register:
  assumes "lz_dict s (lz_phrase s) \<noteq> None"
  shows "emit_bits (register x s) = emit_bits s" "lz_phrase s \<in> lz_new (register x s) \<longleftrightarrow> lz_phrase s \<in> lz_new s"
proof -
  have "lz_dict s [x] = None \<Longrightarrow> lz_phrase s \<noteq> [x]" using assms by auto
  then show "emit_bits (register x s) = emit_bits s" "lz_phrase s \<in> lz_new (register x s) \<longleftrightarrow> lz_phrase s \<in> lz_new s"
    by (auto simp: emit_bits_def register_def Let_def)
qed

lemma receive_phrase:
  assumes r: "ready s u w" and ds: "input ds n" "len = length ds"
    and bits: "reads t ds n (un_reader u) (emit_bits s @ rest)" and x: "hd (lz_phrase s) < 65536"
  shows "\<exists>rd. reads t ds n rd rest \<and>
    un_loop n (2 ^ (t - 1)) len (Suc fuel) u = un_loop n (2 ^ (t - 1)) len fuel (received s rd u)"
proof -
  let ?d = "lz_phrase s" and ?m = "un_width u" and ?reset = "2 ^ (t - 1) :: nat"
  have w: "lz_width s = ?m" "3 \<le> ?m" "un_size u < 2 ^ ?m" "3 \<le> un_size u"
    using r by (auto simp: ready_def widths_ok_def)
  have last: "un_last u = Some w" "w \<noteq> []" and d: "?d \<noteq> []" using r by (auto simp: ready_def)
  have p2: "2 < (2::nat) ^ ?m"
  proof -
    have "(2::nat) ^ 3 \<le> 2 ^ ?m" by (rule power_increasing [OF w(2)]) simp
    then show ?thesis by simp
  qed
  have go: "snd (snd (un_reader u)) \<le> len"
  proof -
    have "0 < length (emit_bits s)" using w(1,2) by (auto simp: emit_bits_def Let_def simp del: lsb.simps)
    then obtain b bs where "emit_bits s = b # bs" by (cases "emit_bits s") auto
    then show ?thesis using bits ds(2) reads_some by simp
  qed
  show ?thesis
  proof (cases "?d \<in> lz_new s")
    case True
    then have new: "lz_new s = {?d}" "?d = [hd ?d]" using r by (auto simp: ready_def)
    define c where "c = (if hd ?d < 256 then 0 else 1 :: nat)"
    have "emit_bits s = lsb ?m c @ lsb (if c = 0 then 8 else 16) (hd ?d)"
      using True w(1) by (simp add: emit_bits_def c_def Let_def del: lsb.simps)
    then have b: "reads t ds n (un_reader u) (lsb ?m c @ lsb (if c = 0 then 8 else 16) (hd ?d) @ rest)"
      using bits by (simp del: lsb.simps)
    obtain rd1 where 1: "read_bits n ?reset ?m (un_reader u) = (c, rd1)"
      "reads t ds n rd1 (lsb (if c = 0 then 8 else 16) (hd ?d) @ rest)"
    proof -
      have "c < 2 ^ ?m" using p2 by (simp add: c_def)
      then show thesis using reads_bits [OF ds(1) b] that by blast
    qed
    have "hd ?d < 2 ^ (if c = 0 then 8 else 16)" using x by (simp add: c_def)
    from reads_bits [OF ds(1) 1(2) this]
    obtain rd2 where 2: "read_bits n ?reset (if c = 0 then 8 else 16) rd1 = (hd ?d, rd2)" "reads t ds n rd2 rest"
      by blast
    have c: "c < 2" "c \<noteq> 2" by (simp_all add: c_def)
    define u1 where "u1 = un_tick (u\<lparr>un_reader := rd2, un_dict := (un_dict u)(un_size u \<mapsto> [hd ?d]), un_size := un_size u + 1\<rparr>)"
    have l: "un_literal n ?reset c (u\<lparr>un_reader := rd1\<rparr>) = (un_size u, u1)"
      using 2(1) c(1) by (simp add: un_literal_def u1_def)
    have ph: "un_phrase (un_size u) u1 = Inr (Some [hd ?d])" by (simp add: un_phrase_def u1_def)
    have rc: "received s rd2 u = un_push [hd ?d] u1"
      unfolding received_def u1_def using True new(2) by simp
    have "un_loop n ?reset len (Suc fuel) u = un_loop n ?reset len fuel (received s rd2 u)"
      using go 1(1) c(2) l ph rc by (simp add: Let_def)
    then show ?thesis using 2(2) by blast
  next
    case False
    then have new: "lz_new s = {}" using r by (auto simp: ready_def)
    obtain k where k: "lz_dict s ?d = Some k" using r by (auto simp: ready_def)
    have cases: "un_dict u k = Some ?d \<or> k = un_size u \<and> ?d = w @ [hd ?d]"
      using r k new by (auto simp: ready_def)
    have dict: "dict_ok u" using r by (simp add: ready_def)
    have "un_dict u k = Some ?d \<Longrightarrow> 3 \<le> k \<and> k < un_size u" using dict by (force simp: dict_ok_def)
    then have "3 \<le> k \<and> k < Suc (un_size u)" using cases w(4) by linarith
    then have k3: "3 \<le> k" "k < 2 ^ ?m" using w(3) by simp_all
    have "emit_bits s = lsb ?m k" using False w(1) k by (simp add: emit_bits_def Let_def del: lsb.simps)
    then have b: "reads t ds n (un_reader u) (lsb ?m k @ rest)" using bits by simp
    obtain rd1 where 1: "read_bits n ?reset ?m (un_reader u) = (k, rd1)" "reads t ds n rd1 rest"
      using reads_bits [OF ds(1) b k3(2)] by blast
    have l: "un_literal n ?reset k (u\<lparr>un_reader := rd1\<rparr>) = (k, u\<lparr>un_reader := rd1\<rparr>)"
      using k3(1) by (simp add: un_literal_def)
    have ph: "un_phrase k (u\<lparr>un_reader := rd1\<rparr>) = Inr (Some ?d)"
    proof (cases "un_dict u k")
      case (Some g)
      then have "g = ?d" using cases dict by (auto simp: dict_ok_def)
      then show ?thesis using Some d by (cases ?d) (simp_all add: un_phrase_def)
    next
      case None
      then have e: "k = un_size u" "?d = w @ [hd ?d]" using cases by auto
      have "hd ?d = hd w" using e(2) last(2) by (metis hd_append2)
      then have "w @ take 1 w = ?d" using e(2) last(2) by (cases w) simp_all
      then show ?thesis using None e(1) last(1) by (simp add: un_phrase_def)
    qed
    have "un_loop n ?reset len (Suc fuel) u = un_loop n ?reset len fuel (received s rd1 u)"
      using go 1(1) k3(1) l ph False by (simp add: Let_def received_def)
    then show ?thesis using 1(2) by blast
  qed
qed

text \<open>After the phrase was received both sides are in sync.\<close>

lemma ready_fresh:
  assumes "ready s u w" "lz_new s = {lz_phrase s}"
  shows "lz_dict s (lz_phrase s) = Some (un_size u)"
proof -
  let ?d = "lz_phrase s"
  obtain k where k: "lz_dict s ?d = Some k" using assms(1) by (auto simp: ready_def)
  have d: "?d = [hd ?d]" "hd ?d \<notin> letters u" "w \<noteq> []" using assms by (auto simp: ready_def)
  have "hd ?d \<in> set ?d" by (subst d(1)) simp
  then have "un_dict u k \<noteq> Some ?d" using d(2) by (auto simp: letters_def)
  moreover have "?d \<noteq> w @ [hd ?d]"
  proof
    assume "?d = w @ [hd ?d]"
    then have "length ?d = length w + 1" by (metis length_append_singleton Suc_eq_plus1)
    moreover have "length ?d = 1" by (subst d(1)) simp
    ultimately show False using d(3) by simp
  qed
  moreover have "un_dict u k = Some ?d \<or> k = un_size u \<and> ?d = ?d \<or> k = un_size u + 1 \<and> ?d = w @ [hd ?d]"
    using assms k unfolding ready_def by blast
  ultimately show ?thesis using k by blast
qed

lemma received_fields:
  "un_last (received s rd u) = Some (lz_phrase s)" "un_parts (received s rd u) = un_parts u @ [Some (lz_phrase s)]"
  "un_reader (received s rd u) = rd"
  "un_widths (received s rd u) = (if lz_phrase s \<in> lz_new s then tick2 (tick2 (un_widths u)) else tick2 (un_widths u))"
  "un_size (received s rd u) = (if lz_phrase s \<in> lz_new s then un_size u + 2 else un_size u + 1)"
proof -
  have u: "un_widths (u\<lparr>un_reader := r, un_dict := f, un_size := n\<rparr>) = un_widths u" "un_widths (u\<lparr>un_reader := r\<rparr>) = un_widths u" for r f n
    by (simp_all add: un_widths_def)
  show "un_last (received s rd u) = Some (lz_phrase s)" "un_parts (received s rd u) = un_parts u @ [Some (lz_phrase s)]"
    "un_reader (received s rd u) = rd"
    "un_widths (received s rd u) = (if lz_phrase s \<in> lz_new s then tick2 (tick2 (un_widths u)) else tick2 (un_widths u))"
    "un_size (received s rd u) = (if lz_phrase s \<in> lz_new s then un_size u + 2 else un_size u + 1)"
    by (simp_all add: received_def u)
qed

lemma received_dict:
  assumes "un_last u = Some w" "lz_phrase s \<noteq> []"
  shows "un_dict (received s rd u) =
    (if lz_phrase s \<in> lz_new s
     then (un_dict u)(un_size u \<mapsto> lz_phrase s, un_size u + 1 \<mapsto> w @ [hd (lz_phrase s)])
     else (un_dict u)(un_size u \<mapsto> w @ [hd (lz_phrase s)]))"
  using assms by (cases "lz_phrase s") (simp_all add: received_def text_of_def)

lemma dict_ok_update:
  "dict_ok u \<Longrightarrow> 3 \<le> un_size u \<Longrightarrow> g \<noteq> [] \<Longrightarrow> un_dict u' = (un_dict u)(un_size u \<mapsto> g) \<Longrightarrow> un_size u' = un_size u + 1 \<Longrightarrow> dict_ok u'"
  by (auto simp: dict_ok_def)

lemma dict_ok_update2:
  "dict_ok u \<Longrightarrow> 3 \<le> un_size u \<Longrightarrow> g \<noteq> [] \<Longrightarrow> g' \<noteq> [] \<Longrightarrow>
   un_dict u' = (un_dict u)(un_size u \<mapsto> g, un_size u + 1 \<mapsto> g') \<Longrightarrow> un_size u' = un_size u + 2 \<Longrightarrow> dict_ok u'"
  by (auto simp: dict_ok_def)

lemma letters_update: "letters u' \<subseteq> letters u \<union> set g" if "un_dict u' = (un_dict u)(k \<mapsto> g)"
  using that by (auto simp: letters_def split: if_splits)

lemma letters_received:
  assumes "un_last u = Some w" "lz_phrase s \<noteq> []"
  shows "letters (received s rd u) \<subseteq> letters u \<union> set w \<union> set (lz_phrase s)"
proof -
  have "hd (lz_phrase s) \<in> set (lz_phrase s)" using assms(2) by simp
  then show ?thesis unfolding letters_def received_dict [OF assms] by (auto split: if_splits)
qed

lemma received_ok:
  assumes r: "ready s u w"
  shows "dict_ok (received s rd u)" "widths_ok (lz_emit t i s) (received s rd u)"
    "set (lz_phrase s) \<subseteq> letters (received s rd u)"
    "lz_dict s x = Some k \<Longrightarrow> un_dict (received s rd u) k = Some x"
    "lz_new s - {lz_phrase s} = {}" "lz_size s = un_size (received s rd u)"
    "y \<in> letters (received s rd u) \<Longrightarrow> lz_dict s [y] \<noteq> None"
proof -
  let ?d = "lz_phrase s" and ?u = "received s rd u"
  have last: "un_last u = Some w" and d: "?d \<noteq> []" and dict: "dict_ok u" and size: "3 \<le> un_size u"
    using r by (auto simp: ready_def widths_ok_def)
  have new: "lz_new s = {} \<or> lz_new s = {?d}" using r by (auto simp: ready_def)
  have low: "un_dict u k = Some x \<Longrightarrow> k < un_size u" for k x using dict by (auto simp: dict_ok_def)
  show "dict_ok ?u"
  proof (cases "?d \<in> lz_new s")
    case True
    then show ?thesis
      using dict_ok_update2 [OF dict size d, of "w @ [hd ?d]" ?u] received_dict [OF last d] by (simp add: received_fields)
  next
    case False
    then show ?thesis
      using dict_ok_update [OF dict size, of "w @ [hd ?d]" ?u] received_dict [OF last d] by (simp add: received_fields)
  qed
  show "widths_ok (lz_emit t i s) ?u"
  proof -
    have w: "lz_widths s = un_widths u" "count_ok (un_size u) (un_widths u)"
      using r by (auto simp: ready_def widths_ok_iff)
    have "count_ok (un_size u + 2) (tick2 (tick2 (un_widths u)))" "count_ok (un_size u + 1) (tick2 (un_widths u))"
      using count_ok_tick [OF w(2)] count_ok_tick [OF count_ok_tick [OF w(2)]] by simp_all
    then show ?thesis using w(1) size
      by (simp add: widths_ok_iff lz_widths_emit received_fields del: tick2.simps count_ok.simps)
  qed
  show k: "un_dict ?u k = Some x" if x: "lz_dict s x = Some k" for x k
  proof (cases "?d \<in> lz_new s")
    case True
    then have "un_dict u k = Some x \<or> k = un_size u \<and> x = ?d \<or> k = un_size u + 1 \<and> x = w @ [hd ?d]"
      using r x by (auto simp: ready_def)
    then show ?thesis using True low [of k x] by (auto simp: received_dict [OF last d])
  next
    case False
    then have "un_dict u k = Some x \<or> k = un_size u \<and> x = w @ [hd ?d]"
      using r x by (auto simp: ready_def)
    then show ?thesis using False low [of k x] by (auto simp: received_dict [OF last d])
  qed
  show "set ?d \<subseteq> letters ?u"
  proof -
    obtain k where "lz_dict s ?d = Some k" using r by (auto simp: ready_def)
    from k [OF this] show ?thesis by (auto simp: letters_def)
  qed
  show "lz_new s - {?d} = {}" using new by auto
  show "lz_size s = un_size ?u" using r by (auto simp: ready_def received_fields)
  show "lz_dict s [y] \<noteq> None" if "y \<in> letters ?u" for y
  proof -
    have "y \<in> letters u \<or> y \<in> set w \<or> y \<in> set ?d" using that letters_received [OF last d, of rd] by blast
    moreover have "set w \<subseteq> letters u" "\<forall>y \<in> letters u. lz_dict s [y] \<noteq> None" using r by (simp_all add: ready_def)
    moreover have "y \<in> set ?d \<Longrightarrow> lz_dict s [y] \<noteq> None" using r by (auto simp: ready_def)
    ultimately show ?thesis by blast
  qed
qed

text \<open>With the next character both go on.\<close>

lemma step_emits:
  assumes r: "ready s u w" and c: "lz_dict (register x s) (lz_phrase s @ [x]) = None"
  shows "ready (lz_step t i s x) (received s rd u) (lz_phrase s)"
proof -
  let ?d = "lz_phrase s" and ?u = "received s rd u" and ?s = "lz_emit t i (register x s)"
  have d: "?d \<noteq> []" "lz_dict s ?d \<noteq> None" using r by (auto simp: ready_def)
  have ex: "lz_dict s [x] = None \<Longrightarrow> ?d \<noteq> [x]" using d(2) by auto
  note ok = received_ok(1) [OF r, where rd = rd] received_ok(2) [OF r, where rd = rd] received_ok(3) [OF r, where rd = rd]
    received_ok(4) [OF r, where rd = rd] received_ok(5) [OF r] received_ok(6) [OF r, where rd = rd]
    received_ok(7) [OF r, where rd = rd]
  have dict: "lz_dict ?s = (if lz_dict s [x] = None then (lz_dict s)([x] \<mapsto> lz_size s) else lz_dict s)"
    by (simp add: register_def)
  have dom: "lz_dict ?s z \<noteq> None \<longleftrightarrow> lz_dict s z \<noteq> None \<or> z = [x]" for z
    by (auto simp: register_def)
  have cl: "lz_dict s z \<noteq> None \<Longrightarrow> y \<in> set z \<Longrightarrow> lz_dict s [y] \<noteq> None" for z y
    using r unfolding ready_def by blast
  have new: "lz_new ?s = (if lz_dict s [x] = None then {[x]} else {})"
    using ok(5) ex by (auto simp: register_def)
  have "in_sync ?s ?u ?d x"
    unfolding in_sync_def
  proof (intro conjI)
    show "widths_ok ?s ?u" using ok(2) [of t i] emit_bits_register(2) [OF d(2), of x]
      by (simp add: widths_ok_iff lz_widths_emit split: if_splits)
    show "dict_ok ?u" by (rule ok(1))
    show "un_last ?u = Some ?d" by (rule received_fields)
    show "?d \<noteq> []" by (rule d)
    show "set ?d \<subseteq> letters ?u" by (rule ok(3))
    show "\<forall>y k. lz_dict ?s y = Some k \<longrightarrow>
        un_dict ?u k = Some y \<or> (lz_new ?s = {[x]} \<and> y = [x] \<and> k = un_size ?u)"
    proof (intro allI impI)
      fix y k assume y: "lz_dict ?s y = Some k"
      show "un_dict ?u k = Some y \<or> (lz_new ?s = {[x]} \<and> y = [x] \<and> k = un_size ?u)"
      proof (cases "lz_dict s [x] = None \<and> y = [x]")
        case True
        then have "lz_new ?s = {[x]}" "k = un_size ?u" using y ok(6) new dict by simp_all
        then show ?thesis using True by blast
      next
        case False
        then have "lz_dict s y = Some k" using y dict by (simp split: if_splits)
        then show ?thesis using ok(4) by blast
      qed
    qed
    show "lz_new ?s = {} \<and> lz_size ?s = un_size ?u \<or> lz_new ?s = {[x]} \<and> lz_size ?s = un_size ?u + 1 \<and> x \<notin> letters ?u"
    proof (cases "lz_dict s [x] = None")
      case True
      then have "lz_size ?s = un_size ?u + 1" "x \<notin> letters ?u" using ok(6) ok(7) [of x] by (auto simp: register_def)
      then show ?thesis using True new by simp
    next
      case False
      then have "lz_size ?s = un_size ?u" using ok(6) by (simp add: register_def)
      then show ?thesis using False new by simp
    qed
    show "lz_dict ?s [x] \<noteq> None" by (simp add: register_def)
    show "\<forall>z y. lz_dict ?s z \<noteq> None \<longrightarrow> y \<in> set z \<longrightarrow> lz_dict ?s [y] \<noteq> None"
      unfolding dom using cl by (metis empty_iff empty_set set_ConsD)
    show "\<forall>y \<in> set ?d. lz_dict ?s [y] \<noteq> None" unfolding dom using cl [OF d(2)] by blast
    show "\<forall>y \<in> letters ?u. lz_dict ?s [y] \<noteq> None" unfolding dom using ok(7) by blast
  qed
  from sync_ready [OF this] show ?thesis using c by (simp add: lz_step_eq Let_def)
qed

text \<open>A character that makes the phrase longer sends nothing; it was known already.\<close>

lemma step_grows:
  assumes r: "ready s u w" and c: "lz_dict (register x s) (lz_phrase s @ [x]) \<noteq> None"
  shows "lz_step t i s x = s\<lparr>lz_phrase := lz_phrase s @ [x]\<rparr>" "ready (s\<lparr>lz_phrase := lz_phrase s @ [x]\<rparr>) u w"
proof -
  let ?d = "lz_phrase s"
  have d: "?d \<noteq> []" and w: "set w \<subseteq> letters u" using r by (auto simp: ready_def)
  have cl: "lz_dict s z \<noteq> None \<Longrightarrow> y \<in> set z \<Longrightarrow> lz_dict s [y] \<noteq> None" for z y
    using r unfolding ready_def by blast
  have dom: "lz_dict s (?d @ [x]) \<noteq> None" using c d by (auto simp: register_def split: if_splits)
  then have "lz_dict s [x] \<noteq> None" by (rule cl) simp
  then have "register x s = s" unfolding register_def by (rule if_not_P)
  then show "lz_step t i s x = s\<lparr>lz_phrase := ?d @ [x]\<rparr>" using c by (simp add: lz_step_eq Let_def)
  obtain k where k: "lz_dict s (?d @ [x]) = Some k" using dom by blast
  have new: "lz_new s = {}"
  proof (rule ccontr)
    assume "lz_new s \<noteq> {}"
    then have n: "lz_new s = {?d}" "?d = [hd ?d]" "hd ?d \<notin> letters u" using r unfolding ready_def by blast+
    have "hd ?d \<in> set (?d @ [x])" using d by simp
    then have "un_dict u k \<noteq> Some (?d @ [x])" using n(3) unfolding letters_def by blast
    moreover have "?d @ [x] \<noteq> ?d" by simp
    moreover have "?d @ [x] \<noteq> w @ [hd ?d]"
    proof
      assume "?d @ [x] = w @ [hd ?d]"
      then have "?d = w" by simp
      then have "hd ?d \<in> letters u" using w d hd_in_set by blast
      then show False using n(3) by blast
    qed
    moreover have "un_dict u k = Some (?d @ [x]) \<or> k = un_size u \<and> ?d @ [x] = ?d \<or> k = un_size u + 1 \<and> ?d @ [x] = w @ [hd ?d]"
      using ready_dict [OF r k] n(1) by simp
    ultimately show False by blast
  qed
  have hd: "hd (?d @ [x]) = hd ?d" using d by simp
  have old: "lz_dict s z = Some k \<Longrightarrow> un_dict u k = Some z \<or> k = un_size u \<and> z = w @ [hd ?d]" for z k
    using ready_dict [OF r, of z k] new by auto
  have size: "lz_size s = un_size u + 1" using r new unfolding ready_def by blast
  let ?s = "s\<lparr>lz_phrase := ?d @ [x]\<rparr>"
  have f: "lz_dict ?s = lz_dict s" "lz_new ?s = {}" "lz_phrase ?s = ?d @ [x]" "lz_size ?s = lz_size s" "widths_ok ?s u = widths_ok s u"
    using new by (simp_all add: widths_ok_def)
  show "ready ?s u w"
    unfolding ready_def f hd
  proof (intro conjI)
    show "widths_ok s u" "dict_ok u" "un_last u = Some w" "w \<noteq> []" using r unfolding ready_def by blast+
    show "set w \<subseteq> letters u" by (rule w)
    show "?d @ [x] \<noteq> []" by simp
    show "lz_dict s (?d @ [x]) \<noteq> None" by (rule dom)
    show "\<forall>z k. lz_dict s z = Some k \<longrightarrow> un_dict u k = Some z \<or> {} = {} \<and> k = un_size u \<and> z = w @ [hd ?d] \<or>
        {} = {?d @ [x]} \<and> (k = un_size u \<and> z = ?d @ [x] \<or> k = un_size u + 1 \<and> z = w @ [hd ?d])"
      using old by blast
    show "{} = {} \<and> lz_size s = un_size u + 1 \<or> {} = {?d @ [x]} \<and> ?d @ [x] = [hd ?d] \<and> lz_size s = un_size u + 2 \<and>
        hd ?d \<notin> letters u"
      using size by blast
    show "\<forall>z y. lz_dict s z \<noteq> None \<longrightarrow> y \<in> set z \<longrightarrow> lz_dict s [y] \<noteq> None" using cl by blast
    show "\<forall>y \<in> letters u. lz_dict s [y] \<noteq> None" using r unfolding ready_def by blast
  qed
qed

section \<open>The first phrase\<close>

definition first :: "nat \<Rightarrow> lz" where
  "first x = \<lparr>lz_dict = [[x] \<mapsto> 3], lz_new = {[x]}, lz_phrase = [x], lz_enlarge = 2, lz_size = 4, lz_width = 2,
     lz_out = ([], 0, 0)\<rparr>"

definition opened :: "nat \<Rightarrow> reader \<Rightarrow> unlz" where
  "opened x rd = \<lparr>un_dict = Map.empty(3 := Some [x]), un_last = Some [x], un_parts = [Some [x]], un_enlarge = 4, un_size = 4,
     un_width = 3, un_reader = rd\<rparr>"

lemma step_start: "lz_step t i lz_start x = first x" "step_bits lz_start x = []"
  by (simp_all add: lz_step_def lz_start_def first_def step_bits_def register_def Let_def)

lemma opened_fields [simp]:
  "un_dict (opened x rd) k = (if k = 3 then Some [x] else None)" "un_last (opened x rd) = Some [x]" "un_parts (opened x rd) = [Some [x]]"
  "un_size (opened x rd) = 4" "un_reader (opened x rd) = rd" "un_widths (opened x rd) = (4, 3)" "un_width (opened x rd) = 3"
  by (simp_all add: opened_def un_widths_def)

lemma first_fields [simp]:
  "lz_dict (first x) = [[x] \<mapsto> 3]" "lz_new (first x) = {[x]}" "lz_phrase (first x) = [x]" "lz_size (first x) = 4"
  "lz_widths (first x) = (2, 2)" "lz_width (first x) = 2"
  by (simp_all add: first_def lz_widths_def)

lemma first_width: "lz_widths (lz_emit t i (register y (first x))) = (4, 3)" "lz_width (lz_emit t i (first x)) = 3"
proof -
  have "[x] \<in> lz_new (register y (first x))" by (simp add: register_def)
  then show "lz_widths (lz_emit t i (register y (first x))) = (4, 3)" by (simp add: lz_widths_emit)
  have "lz_widths (lz_emit t i (first x)) = (4, 3)" by (simp add: lz_widths_emit)
  then show "lz_width (lz_emit t i (first x)) = 3" by (simp add: lz_widths_def)
qed

lemma first_emits:
  "ready (lz_step t i (first x) y) (opened x rd) [x]" "step_bits (first x) y = emit_bits (first x)"
proof -
  let ?r = "register y (first x)"
  have d: "lz_dict ?r = (if y = x then [[x] \<mapsto> 3] else [[x] \<mapsto> 3, [y] \<mapsto> 4])" by (simp add: register_def)
  have n: "lz_new ?r = (if y = x then {[x]} else {[x], [y]})" "lz_size ?r = (if y = x then 4 else 5)"
    by (auto simp: register_def)
  have c: "lz_dict ?r (lz_phrase (first x) @ [y]) = None" by (simp add: d)
  let ?s = "lz_emit t i ?r"
  have letters: "letters (opened x rd) = {x}" by (auto simp: letters_def split: if_splits)
  have "in_sync ?s (opened x rd) [x] y"
    unfolding in_sync_def widths_ok_iff first_width letters
    by (auto simp: dict_ok_def d n)
  from sync_ready [OF this] show "ready (lz_step t i (first x) y) (opened x rd) [x]" using c by (simp add: lz_step_eq Let_def)
  show "step_bits (first x) y = emit_bits (first x)" using c emit_bits_register(1) [of "first x" y] by (simp add: step_bits_def)
qed

section \<open>All phrases\<close>

lemma emit_bits_some: "3 \<le> lz_width s \<Longrightarrow> 0 < length (emit_bits s)"
  by (auto simp: emit_bits_def Let_def simp del: lsb.simps)

lemma read_end:
  assumes ds: "input ds n" "len = length ds" and b: "reads t ds n (un_reader u) (lsb (un_width u) 2 @ pad)" and w: "3 \<le> un_width u"
  shows "un_loop n (2 ^ (t - 1)) len (Suc fuel) u = Some (Inr (Some (join_parts (un_parts u))))"
proof -
  have "(2::nat) ^ 3 \<le> 2 ^ un_width u" by (rule power_increasing [OF w]) simp
  then have p: "(2::nat) < 2 ^ un_width u" by simp
  obtain k where k: "un_width u = Suc k" using w by (cases "un_width u") simp_all
  have "snd (snd (un_reader u)) \<le> len" using reads_some b ds(2) k by simp
  moreover obtain rd where "read_bits n (2 ^ (t - 1)) (un_width u) (un_reader u) = (2, rd)"
    using reads_bits [OF ds(1) b p] by blast
  ultimately show ?thesis by (simp add: Let_def)
qed

lemma ready_width: "ready s u w \<Longrightarrow> lz_width s = un_width u \<and> 3 \<le> un_width u"
  by (simp add: ready_def widths_ok_def)

lemma widths_width: "widths_ok s u \<Longrightarrow> lz_width s = un_width u \<and> 3 \<le> un_width u"
  by (simp add: widths_ok_def)

lemma join_parts_snoc [simp]: "join_parts (fs @ [Some g]) = join_parts fs @ g"
  by (simp add: join_parts_def)

lemma un_rest:
  assumes "ready s u w" "input ds n" "len = length ds" "reads t ds n (un_reader u) (future t i s xs @ pad)"
    "list_all (\<lambda>x. x < 65536) (lz_phrase s @ xs)" "length (future t i s xs) < fuel"
  shows "un_loop n (2 ^ (t - 1)) len fuel u = Some (Inr (Some (join_parts (un_parts u) @ lz_phrase s @ xs)))"
  using assms
proof (induction xs arbitrary: s u w fuel)
  case Nil
  note r = Nil.prems(1)
  have d: "lz_phrase s \<noteq> []" using r by (simp add: ready_def)
  then have x: "hd (lz_phrase s) < 65536" using Nil.prems(5) by (cases "lz_phrase s") simp_all
  have f: "future t i s [] = emit_bits s @ lsb (lz_width (lz_emit t i s)) 2" using d by (simp del: lsb.simps)
  have "0 < length (emit_bits s)" using ready_width [OF r] by (intro emit_bits_some) simp
  then obtain fuel' where fuel: "fuel = Suc (Suc fuel')"
    using Nil.prems(6) f by (cases fuel; cases "fuel - 1") (auto simp del: lsb.simps)
  have b: "reads t ds n (un_reader u) (emit_bits s @ lsb (lz_width (lz_emit t i s)) 2 @ pad)"
    using Nil.prems(4) unfolding f by simp
  obtain rd where rd: "reads t ds n rd (lsb (lz_width (lz_emit t i s)) 2 @ pad)"
    "un_loop n (2 ^ (t - 1)) len (Suc (Suc fuel')) u = un_loop n (2 ^ (t - 1)) len (Suc fuel') (received s rd u)"
    using receive_phrase [OF r Nil.prems(2,3) b x] by blast
  have w: "lz_width (lz_emit t i s) = un_width (received s rd u) \<and> 3 \<le> un_width (received s rd u)"
    using widths_width [OF received_ok(2) [OF r]] .
  have e: "reads t ds n (un_reader (received s rd u)) (lsb (un_width (received s rd u)) 2 @ pad)"
    using rd(1) w by (simp add: received_fields)
  show ?case using rd(2) read_end [OF Nil.prems(2,3) e conjunct2 [OF w]]
    by (simp add: fuel received_fields)
next
  case (Cons x xs)
  note r = Cons.prems(1)
  have d: "lz_phrase s \<noteq> []" using r by (simp add: ready_def)
  have h: "hd (lz_phrase s) < 65536" using Cons.prems(5) d by (cases "lz_phrase s") simp_all
  show ?case
  proof (cases "lz_dict (register x s) (lz_phrase s @ [x]) = None")
    case False
    then have c: "lz_dict (register x s) (lz_phrase s @ [x]) \<noteq> None" .
    note g = step_grows [OF r c]
    have f: "future t i s (x # xs) = future t i (s\<lparr>lz_phrase := lz_phrase s @ [x]\<rparr>) xs"
      using False g(1) by (simp add: step_bits_def)
    show ?thesis
      using Cons.IH [OF g(2) Cons.prems(2,3), of fuel] Cons.prems(4,5,6) unfolding f by simp
  next
    case True
    have em: "step_bits s x = emit_bits s"
      using True emit_bits_register(1) r by (simp add: step_bits_def ready_def)
    have f: "future t i s (x # xs) = emit_bits s @ future t i (lz_step t i s x) xs" by (simp add: em)
    have "0 < length (emit_bits s)" using ready_width [OF r] by (intro emit_bits_some) simp
    obtain fuel' where fuel: "fuel = Suc fuel'" "length (future t i (lz_step t i s x) xs) < fuel'"
    proof
      show "fuel = Suc (fuel - 1)" using Cons.prems(6) by simp
      show "length (future t i (lz_step t i s x) xs) < fuel - 1"
        using Cons.prems(6) \<open>0 < length (emit_bits s)\<close> unfolding f length_append by linarith
    qed
    have b: "reads t ds n (un_reader u) (emit_bits s @ future t i (lz_step t i s x) xs @ pad)"
      using Cons.prems(4) unfolding f by simp
    obtain rd where rd: "reads t ds n rd (future t i (lz_step t i s x) xs @ pad)"
      "un_loop n (2 ^ (t - 1)) len (Suc fuel') u = un_loop n (2 ^ (t - 1)) len fuel' (received s rd u)"
      using receive_phrase [OF r Cons.prems(2,3) b h] by blast
    have ph: "lz_phrase (lz_step t i s x) = [x]" using True by (simp add: lz_step_eq Let_def)
    have "un_loop n (2 ^ (t - 1)) len fuel' (received s rd u) =
        Some (Inr (Some (join_parts (un_parts (received s rd u)) @ lz_phrase (lz_step t i s x) @ xs)))"
    proof (rule Cons.IH [OF step_emits [OF r True] Cons.prems(2,3) _ _ fuel(2)])
      show "reads t ds n (un_reader (received s rd u)) (future t i (lz_step t i s x) xs @ pad)" using rd(1) by (simp add: received_fields)
      show "list_all (\<lambda>x. x < 65536) (lz_phrase (lz_step t i s x) @ xs)" using Cons.prems(5) ph by simp
    qed
    then show ?thesis using rd(2) ph by (simp add: fuel(1) received_fields)
  qed
qed

section \<open>Codings\<close>

text \<open>The character at a position of a text, as a value; \<open>undefined\<close> past the end.\<close>

definition at_char :: "(nat \<Rightarrow> nat option) \<Rightarrow> js_text \<Rightarrow> nat \<Rightarrow> nat option" where
  "at_char dig e k = (if k < length e then dig (e ! k) else None)"

text \<open>What is left to read after the first character.\<close>

lemma future_first:
  "future t i lz_start (x # xs) =
     (if x < 256 then lsb 2 0 @ lsb 8 x else lsb 2 1 @ lsb 16 x) @
     (case xs of [] \<Rightarrow> lsb 3 2 | y # ys \<Rightarrow> future t i (lz_step t i (first x) y) ys)"
proof -
  have e: "emit_bits (first x) = (if x < 256 then lsb 2 0 @ lsb 8 x else lsb 2 1 @ lsb 16 x)"
    by (simp add: emit_bits_def del: lsb.simps)
  have "future t i lz_start (x # xs) = future t i (first x) xs"
    unfolding future.simps step_start append.simps by (rule refl)
  also have "\<dots> = emit_bits (first x) @ (case xs of [] \<Rightarrow> lsb 3 2 | y # ys \<Rightarrow> future t i (lz_step t i (first x) y) ys)"
    by (cases xs) (simp_all add: first_emits(2) first_width(2) del: lsb.simps)
  finally show ?thesis unfolding e .
qed

lemma first_phrase: "lz_phrase (lz_step t i (first x) y) = [y]"
proof -
  have "lz_dict (register y (first x)) [x, y] = None" by (simp add: register_def)
  then show ?thesis by (simp add: lz_step_eq Let_def)
qed

lemma decompress_bits:
  assumes t: "0 < t" and ds: "input ds n" "ds \<noteq> []" "concat (map (msb t) ds) = future t i lz_start e @ pad"
    and e: "list_all (\<lambda>x. x < 65536) e" and fuel: "length (future t i lz_start e) \<le> 16 * length ds"
  shows "lz_decompress (length ds) (2 ^ (t - 1)) n = Some (Inr (Some e))"
proof (cases e)
  case Nil
  then have "reads t ds n (n 0, 2 ^ (t - 1), 1) (lsb 2 2 @ pad)"
    using reads_start [OF t ds(2), of n] unfolding ds(3) by (simp add: lz_start_def del: lsb.simps)
  from reads_bits [OF ds(1) this] obtain rd where "read_bits n (2 ^ (t - 1)) 2 (n 0, 2 ^ (t - 1), 1) = (2, rd)" by auto
  then show ?thesis using Nil by (simp add: lz_decompress_def)
next
  case (Cons x xs)
  define c where "c = (if x < 256 then 0 else 1 :: nat)"
  define rest where "rest = (case xs of [] \<Rightarrow> lsb 3 2 | y # ys \<Rightarrow> future t i (lz_step t i (first x) y) ys)"
  have x: "x < 2 ^ (if c = 0 then 8 else 16)" using e Cons by (simp add: c_def)
  have f: "future t i lz_start e = lsb 2 c @ lsb (if c = 0 then 8 else 16) x @ rest"
    unfolding Cons future_first rest_def c_def by (simp del: lsb.simps)
  have b: "reads t ds n (n 0, 2 ^ (t - 1), 1) (lsb 2 c @ lsb (if c = 0 then 8 else 16) x @ rest @ pad)"
    using reads_start [OF t ds(2), of n] unfolding ds(3) f by simp
  have "c < 2 ^ 2" by (simp add: c_def)
  from reads_bits [OF ds(1) b this] obtain rd1 where
    1: "read_bits n (2 ^ (t - 1)) 2 (n 0, 2 ^ (t - 1), 1) = (c, rd1)" "reads t ds n rd1 (lsb (if c = 0 then 8 else 16) x @ rest @ pad)"
    by blast
  from reads_bits [OF ds(1) 1(2) x] obtain rd2 where
    2: "read_bits n (2 ^ (t - 1)) (if c = 0 then 8 else 16) rd1 = (x, rd2)" "reads t ds n rd2 (rest @ pad)"
    by blast
  have d: "lz_decompress (length ds) (2 ^ (t - 1)) n =
      un_loop n (2 ^ (t - 1)) (length ds) (16 * length ds + 16) (opened x rd2)"
    using 1(1) 2(1) by (auto simp: lz_decompress_def opened_def c_def simp del: un_loop.simps split: if_splits)
  show ?thesis
  proof (cases xs)
    case Nil
    have "reads t ds n (un_reader (opened x rd2)) (lsb (un_width (opened x rd2)) 2 @ pad)"
      using 2(2) by (simp add: rest_def Nil del: lsb.simps)
    from read_end [OF ds(1) refl this, of "16 * length ds + 15"] have "un_loop n (2 ^ (t - 1)) (length ds) (16 * length ds + 16) (opened x rd2) =
        Some (Inr (Some (join_parts (un_parts (opened x rd2)))))" by (simp del: un_loop.simps add: numeral_eq_Suc)
    then show ?thesis unfolding d by (simp add: Cons Nil join_parts_def)
  next
    case (Cons y ys)
    note xs = Cons
    have "un_loop n (2 ^ (t - 1)) (length ds) (16 * length ds + 16) (opened x rd2) =
        Some (Inr (Some (join_parts (un_parts (opened x rd2)) @ lz_phrase (lz_step t i (first x) y) @ ys)))"
    proof (rule un_rest [OF first_emits(1) ds(1) refl])
      show "reads t ds n (un_reader (opened x rd2)) (future t i (lz_step t i (first x) y) ys @ pad)"
        using 2(2) by (simp add: rest_def xs)
      show "list_all (\<lambda>x. x < 65536) (lz_phrase (lz_step t i (first x) y) @ ys)"
        using e by (simp add: \<open>e = x # xs\<close> xs first_phrase)
      have "length rest \<le> length (future t i lz_start e)" unfolding f by simp
      then show "length (future t i (lz_step t i (first x) y) ys) < 16 * length ds + 16"
        using fuel by (simp add: rest_def xs)
    qed
    then show ?thesis unfolding d by (simp add: \<open>e = x # xs\<close> xs first_phrase join_parts_def)
  qed
qed

text \<open>A coding writes values of \<open>t\<close> bits as characters and reads them back.\<close>

locale lz_codec =
  fixes t :: nat and chr :: "nat \<Rightarrow> nat" and dig :: "nat \<Rightarrow> nat option"
  assumes bits: "0 < t" "t \<le> 16" and dig_chr: "v < 2 ^ t \<Longrightarrow> dig (chr v) = Some v"
begin

lemma lossless:
  assumes "list_all (\<lambda>x. x < 65536) e"
  shows "lz_decompress (length (lz_compress t chr e @ tail)) (2 ^ (t - 1)) (at_char dig (lz_compress t chr e @ tail)) =
    Some (Inr (Some e))"
proof -
  obtain vs k where c: "lz_compress t chr e = map chr vs" "list_all (\<lambda>v. v < 2 ^ t) vs" "0 < k"
    "concat (map (msb t) vs) = future t chr lz_start e @ replicate k 0"
    using compress_bits [OF bits(1)] by blast
  define val where "val = (\<lambda>c. case dig c of None \<Rightarrow> 0 | Some v \<Rightarrow> v)"
  define ds where "ds = vs @ map val tail"
  have val: "map val (map chr vs) = vs" using c(2) dig_chr by (induction vs) (simp_all add: val_def)
  have len: "length (map chr vs @ tail) = length ds" by (simp add: ds_def)
  have nth: "k < length ds \<Longrightarrow> val ((map chr vs @ tail) ! k) = ds ! k" for k
  proof -
    assume k: "k < length ds"
    have "ds = map val (map chr vs @ tail)" unfolding ds_def map_append val ..
    then show ?thesis using nth_map [of k "map chr vs @ tail" val] k len by simp
  qed
  have "input ds (at_char dig (map chr vs @ tail))"
    unfolding input_def
  proof
    fix k
    show "(case at_char dig (map chr vs @ tail) k of None \<Rightarrow> 0 | Some x \<Rightarrow> x) = (if k < length ds then ds ! k else 0)"
      using nth [of k] unfolding at_char_def len by (simp add: val_def)
  qed
  moreover have "vs \<noteq> []"
  proof
    assume "vs = []"
    then show False using c(3,4) by (cases k) simp_all
  qed
  then have "ds \<noteq> []" by (simp add: ds_def)
  moreover have "concat (map (msb t) ds) = future t chr lz_start e @ (replicate k 0 @ concat (map (msb t) (map val tail)))"
    by (simp add: ds_def c(4))
  moreover have "length (future t chr lz_start e) \<le> 16 * length ds"
  proof -
    have "length (future t chr lz_start e) \<le> length (concat (map (msb t) vs))" unfolding c(4) by simp
    also have "length (concat (map (msb t) vs)) = t * length vs" by (induction vs) simp_all
    also have "\<dots> \<le> 16 * length ds" using bits(2) by (intro mult_le_mono) (simp_all add: ds_def)
    finally show ?thesis .
  qed
  ultimately show ?thesis
    unfolding c(1) len using decompress_bits [OF bits(1) _ _ _ assms] by blast
qed

end

end
