(* ===== verification/Lz_Total.thy ===== *)
theory Lz_Total
  imports Lz_Bits
begin

text \<open>
  \<open>_decompress\<close> returns on every input: each round reads at least one bit, and the loop ends once the
  reader is past the input.
\<close>

text \<open>A bound on the bits left, 16 for a character; none past the end.\<close>

definition bits_left :: "nat \<Rightarrow> nat \<Rightarrow> reader \<Rightarrow> nat \<Rightarrow> bool" where
  "bits_left t len rd m \<longleftrightarrow> (case rd of (v, pos, idx) \<Rightarrow>
     \<exists>j. j < t \<and> pos = 2 ^ j \<and> m = (if len < idx then 0 else 16 * (len - idx) + j + 1))"

lemma bits_left_bit:
  assumes t: "0 < t" "t \<le> 16" and m: "bits_left t len rd m"
  obtains b rd' m' where "read_bit n (2 ^ (t - 1)) rd = (b, rd')" "bits_left t len rd' m'" "m' \<le> m - 1"
proof -
  obtain v pos idx where rd: "rd = (v, pos, idx)" by (cases rd)
  obtain j where j: "j < t" "pos = 2 ^ j" "m = (if len < idx then 0 else 16 * (len - idx) + j + 1)"
    using m by (auto simp: bits_left_def rd)
  let ?b = "case v of None \<Rightarrow> 0 | Some x \<Rightarrow> x div pos mod 2"
  show thesis
  proof (cases j)
    case 0
    have "pos div 2 = 0" by (simp add: j(2) 0)
    then have r: "read_bit n (2 ^ (t - 1)) rd = (?b, n idx, 2 ^ (t - 1), idx + 1)" by (simp add: read_bit_def rd)
    have l: "bits_left t len (n idx, 2 ^ (t - 1), idx + 1) (if len < idx + 1 then 0 else 16 * (len - (idx + 1)) + (t - 1) + 1)"
      using t(1) unfolding bits_left_def prod.case by (intro exI [of _ "t - 1"]) simp
    have "(if len < idx + 1 then 0 else 16 * (len - (idx + 1)) + (t - 1) + 1) \<le> m - 1"
    proof (cases "len < idx + 1")
      case False
      then obtain d where "len = idx + 1 + d" using le_Suc_ex [of "idx + 1" len] by auto
      then show ?thesis using t by (simp add: j(3) 0)
    qed simp
    then show thesis by (rule that [OF r l])
  next
    case (Suc l)
    have "pos div 2 = 2 ^ l" by (simp add: j(2) Suc)
    then have r: "read_bit n (2 ^ (t - 1)) rd = (?b, v, 2 ^ l, idx)" by (simp add: read_bit_def rd)
    have "bits_left t len (v, 2 ^ l, idx) (if len < idx then 0 else 16 * (len - idx) + l + 1)"
      using j(1) Suc unfolding bits_left_def prod.case by (intro exI [of _ l]) simp
    then show thesis by (rule that [OF r]) (simp add: j(3) Suc)
  qed
qed

lemma bits_left_bits:
  assumes t: "0 < t" "t \<le> 16" and m: "bits_left t len rd m"
  shows "\<exists>x rd' m'. read_bits n (2 ^ (t - 1)) k rd = (x, rd') \<and> bits_left t len rd' m' \<and> m' \<le> m - k"
  using m
proof (induction k arbitrary: rd m)
  case (Suc k)
  obtain b rd1 m1 where 1: "read_bit n (2 ^ (t - 1)) rd = (b, rd1)" "bits_left t len rd1 m1" "m1 \<le> m - 1"
    by (rule bits_left_bit [OF t Suc.prems])
  obtain x rd2 m2 where 2: "read_bits n (2 ^ (t - 1)) k rd1 = (x, rd2)" "bits_left t len rd2 m2" "m2 \<le> m1 - k"
    using Suc.IH [OF 1(2)] by blast
  have "m2 \<le> m - Suc k" using 1(3) 2(3) by simp
  then show ?case using 1(1) 2(1,2) by auto
qed auto

lemma un_tick_width: "un_width u \<le> un_width (un_tick u)" "un_reader (un_tick u) = un_reader u"
  by (simp_all add: un_tick_def)

lemma un_push_width: "un_width u \<le> un_width (un_push g u)" "un_reader (un_push g u) = un_reader u"
  by (simp_all add: un_push_def un_tick_def)

lemma un_literal_left:
  assumes t: "0 < t" "t \<le> 16" and m: "bits_left t len (un_reader u) m"
  shows "\<exists>d u' m'. un_literal n (2 ^ (t - 1)) c u = (d, u') \<and> bits_left t len (un_reader u') m' \<and> m' \<le> m \<and> un_width u \<le> un_width u'"
proof (cases "c < 2")
  case True
  obtain x rd m' where r: "read_bits n (2 ^ (t - 1)) (if c = 0 then 8 else 16) (un_reader u) = (x, rd)" "bits_left t len rd m'" "m' \<le> m"
    using bits_left_bits [OF t m, of n "if c = 0 then 8 else 16"] by (meson diff_le_self le_trans)
  show ?thesis using True r by (auto simp: un_literal_def un_tick_def)
next
  case False
  then show ?thesis using m by (auto simp: un_literal_def)
qed

lemma un_loop_returns:
  assumes t: "0 < t" "t \<le> 16"
  shows "bits_left t len (un_reader u) m \<Longrightarrow> m < fuel \<Longrightarrow> 0 < un_width u \<Longrightarrow> un_loop n (2 ^ (t - 1)) len fuel u \<noteq> None"
proof (induction fuel arbitrary: u m)
  case (Suc fuel)
  show ?case
  proof (cases "len < snd (snd (un_reader u))")
    case False
    then have m: "0 < m" using Suc.prems(1) by (auto simp: bits_left_def split: prod.splits)
    obtain c rd m1 where 1: "read_bits n (2 ^ (t - 1)) (un_width u) (un_reader u) = (c, rd)" "bits_left t len rd m1" "m1 \<le> m - un_width u"
      using bits_left_bits [OF t Suc.prems(1), of n "un_width u"] by blast
    define u1 where "u1 = u\<lparr>un_reader := rd\<rparr>"
    have u1: "un_reader u1 = rd" "un_width u1 = un_width u" by (simp_all add: u1_def)
    obtain d u2 m2 where 2: "un_literal n (2 ^ (t - 1)) c u1 = (d, u2)" "bits_left t len (un_reader u2) m2" "m2 \<le> m1" "un_width u \<le> un_width u2"
      using un_literal_left [OF t, of len u1 m1 n c] 1(2) u1 by auto
    have "un_loop n (2 ^ (t - 1)) len fuel (un_push g u2) \<noteq> None" for g
    proof (rule Suc.IH)
      show "bits_left t len (un_reader (un_push g u2)) m2" using 2(2) by (simp add: un_push_width)
      show "m2 < fuel" using 2(3) 1(3) m Suc.prems(2,3) by linarith
      show "0 < un_width (un_push g u2)" using 2(4) un_push_width(1) [of u2 g] Suc.prems(3) by linarith
    qed
    then show ?thesis using False 1(1) 2(1) by (auto simp: Let_def u1_def [symmetric] split: sum.splits option.splits)
  qed simp
qed simp

lemma lz_decompress_returns:
  assumes t: "0 < t" "t \<le> 16"
  shows "lz_decompress len (2 ^ (t - 1)) n \<noteq> None"
proof -
  obtain m where m: "bits_left t len (n 0, 2 ^ (t - 1), 1) m" "m \<le> 16 * len"
  proof
    show "bits_left t len (n 0, 2 ^ (t - 1), 1) (if len < 1 then 0 else 16 * (len - 1) + (t - 1) + 1)"
      using t(1) unfolding bits_left_def prod.case by (intro exI [of _ "t - 1"]) simp
    show "(if len < 1 then 0 else 16 * (len - 1) + (t - 1) + 1) \<le> 16 * len" using t by (cases len) simp_all
  qed
  have run: "un_loop n (2 ^ (t - 1)) len (16 * len + 16)
      \<lparr>un_dict = f, un_last = d, un_parts = g, un_enlarge = 4, un_size = 4, un_width = 3, un_reader = rd\<rparr> \<noteq> None"
    if "bits_left t len rd m'" "m' \<le> m" for f d g rd m'
  proof (rule un_loop_returns [OF t])
    show "m' < 16 * len + 16" using that(2) m(2) by linarith
  qed (use that(1) in simp_all)
  obtain r rd1 m1 where 1: "read_bits n (2 ^ (t - 1)) 2 (n 0, 2 ^ (t - 1), 1) = (r, rd1)" "bits_left t len rd1 m1" "m1 \<le> m"
    using bits_left_bits [OF t m(1), of n 2] by (meson diff_le_self le_trans)
  obtain x8 rd8 m8 where 8: "read_bits n (2 ^ (t - 1)) 8 rd1 = (x8, rd8)" "bits_left t len rd8 m8" "m8 \<le> m"
    using bits_left_bits [OF t 1(2), of n 8] 1(3) by (meson diff_le_self le_trans)
  obtain x16 rd16 m16 where 16: "read_bits n (2 ^ (t - 1)) 16 rd1 = (x16, rd16)" "bits_left t len rd16 m16" "m16 \<le> m"
    using bits_left_bits [OF t 1(2), of n 16] 1(3) by (meson diff_le_self le_trans)
  show ?thesis
    using run [OF 1(2,3)] run [OF 8(2,3)] run [OF 16(2,3)] unfolding lz_decompress_def 1(1) prod.case 8(1) 16(1)
    by (simp del: un_loop.simps)
qed

end
