(* ===== verification/Drawing_Text.thy ===== *)
theory Drawing_Text
  imports Lz_Correct Lz_Total
begin

text \<open>
  The drawing in a note (line 30 of \<open>main.js\<close>): the codings of \<open>LZString\<close>, \<open>compress\<close> and \<open>decompress\<close> of
  the plugin, and the two methods of the script interface.  An argument that may be \<open>null\<close> is an option; the
  outer option of a decompression is its fuel, which \<open>decompress_returns\<close> shows to be enough.
\<close>

section \<open>Codings\<close>

definition codes :: "string \<Rightarrow> js_text" where
  "codes s = map of_char s"

definition keyStrBase64 :: js_text where
  "keyStrBase64 = codes ''ABCDEFGHIJKLMNOPQRSTUVWXYZabcdefghijklmnopqrstuvwxyz0123456789+/=''"

definition keyStrUriSafe :: js_text where
  "keyStrUriSafe = codes ''ABCDEFGHIJKLMNOPQRSTUVWXYZabcdefghijklmnopqrstuvwxyz0123456789+-$''"

text \<open>The table of positions; a later position of a character replaces an earlier one.\<close>

definition getBaseValue :: "js_text \<Rightarrow> nat \<Rightarrow> nat option" where
  "getBaseValue key = map_of (rev (zip key [0..<length key]))"

type_synonym unpacked = "js_text option result option"

definition compressToBase64 :: "js_text option \<Rightarrow> js_text" where
  "compressToBase64 e =
     (case e of
        None \<Rightarrow> []
      | Some e \<Rightarrow>
          let i = lz_compress 6 (\<lambda>v. keyStrBase64 ! v) e in
          if length i mod 4 = 1 then i @ codes ''===''
          else if length i mod 4 = 2 then i @ codes ''==''
          else if length i mod 4 = 3 then i @ codes ''='' else i)"

definition decompressFromBase64 :: "js_text option \<Rightarrow> unpacked" where
  "decompressFromBase64 e =
     (case e of
        None \<Rightarrow> Some (Inr (Some []))
      | Some e \<Rightarrow> if e = [] then Some (Inr None)
                  else lz_decompress (length e) 32 (at_char (getBaseValue keyStrBase64) e))"

definition compressToEncodedURIComponent :: "js_text option \<Rightarrow> js_text" where
  "compressToEncodedURIComponent e = (case e of None \<Rightarrow> [] | Some e \<Rightarrow> lz_compress 6 (\<lambda>v. keyStrUriSafe ! v) e)"

definition decompressFromEncodedURIComponent :: "js_text option \<Rightarrow> unpacked" where
  "decompressFromEncodedURIComponent e =
     (case e of
        None \<Rightarrow> Some (Inr (Some []))
      | Some e \<Rightarrow> if e = [] then Some (Inr None)
                  else let e = map (\<lambda>c. if c = 32 then 43 else c) e
                       in lz_decompress (length e) 32 (at_char (getBaseValue keyStrUriSafe) e))"

text \<open>A unit below 32 makes \<open>charCodeAt(t) - 32\<close> negative; \<open>&\<close> takes it as 32 bits.\<close>

definition utf16_value :: "nat \<Rightarrow> nat option" where
  "utf16_value c = Some (if 32 \<le> c then c - 32 else 2 ^ 32 + c - 32)"

definition compressToUTF16 :: "js_text option \<Rightarrow> js_text" where
  "compressToUTF16 e = (case e of None \<Rightarrow> [] | Some e \<Rightarrow> lz_compress 15 (\<lambda>v. v + 32) e @ codes '' '')"

definition decompressFromUTF16 :: "js_text option \<Rightarrow> unpacked" where
  "decompressFromUTF16 e =
     (case e of
        None \<Rightarrow> Some (Inr (Some []))
      | Some e \<Rightarrow> if e = [] then Some (Inr None) else lz_decompress (length e) 16384 (at_char utf16_value e))"

definition compress_raw :: "js_text option \<Rightarrow> js_text" where
  "compress_raw e = (case e of None \<Rightarrow> [] | Some e \<Rightarrow> lz_compress 16 (\<lambda>v. v) e)"

definition decompress_raw :: "js_text option \<Rightarrow> unpacked" where
  "decompress_raw e =
     (case e of
        None \<Rightarrow> Some (Inr (Some []))
      | Some e \<Rightarrow> if e = [] then Some (Inr None) else lz_decompress (length e) 32768 (at_char Some e))"

text \<open>Two bytes for a unit; the bytes of a typed array are taken in pairs.\<close>

definition compressToUint8Array :: "js_text option \<Rightarrow> nat list" where
  "compressToUint8Array e = concat (map (\<lambda>c. [c div 256, c mod 256]) (compress_raw e))"

fun byte_pairs :: "nat list \<Rightarrow> js_text" where
  "byte_pairs (a # b # bs) = (256 * a + b) # byte_pairs bs"
| "byte_pairs _ = []"

text \<open>\<open>new Array(t.length / 2)\<close> throws for an odd number of bytes.\<close>

definition decompressFromUint8Array :: "nat list option \<Rightarrow> unpacked" where
  "decompressFromUint8Array t =
     (case t of
        None \<Rightarrow> decompress_raw None
      | Some t \<Rightarrow> if odd (length t) then Some (Inl (Runtime ''Invalid array length''))
                  else decompress_raw (Some (byte_pairs t)))"

section \<open>The text in a note\<close>

text \<open>White space and line ends of the language, which \<open>trim\<close> takes off.\<close>

definition js_space :: "nat \<Rightarrow> bool" where
  "js_space c \<longleftrightarrow> c \<in> {9, 10, 11, 12, 13, 32, 160, 5760, 8232, 8233, 8239, 8287, 12288, 65279} \<or> 8192 \<le> c \<and> c \<le> 8202"

definition trim :: "js_text \<Rightarrow> js_text" where
  "trim t = rev (dropWhile js_space (rev (dropWhile js_space t)))"

text \<open>Lines of 256 characters with an empty line after each.\<close>

function lines_256 :: "js_text \<Rightarrow> js_text" where
  "lines_256 t = (if t = [] then [] else take 256 t @ codes [CHR 0x0A, CHR 0x0A] @ lines_256 (drop 256 t))"
  by pat_completeness auto
termination by (relation "measure length") auto

declare lines_256.simps [simp del]

definition compress :: "js_text \<Rightarrow> js_text" where
  "compress e = trim (lines_256 (compressToBase64 (Some e)))"

definition decompress :: "js_text \<Rightarrow> unpacked" where
  "decompress e = decompressFromBase64 (Some (filter (\<lambda>c. c \<noteq> 10 \<and> c \<noteq> 13) e))"

text \<open>
  The methods of the script interface.  The loop of the second compares each character with the two-character
  texts \<open>\n\<close> and \<open>\r\<close> (a backslash and a letter).
\<close>

definition ea_compressToBase64 :: "js_text option \<Rightarrow> js_text" where
  "ea_compressToBase64 e = compressToBase64 e"

definition ea_decompressFromBase64 :: "js_text option \<Rightarrow> unpacked" where
  "ea_decompressFromBase64 e =
     (case e of
        None \<Rightarrow> Some (Inl (Runtime ''No input string provided for decompression.''))
      | Some e \<Rightarrow>
          if e = [] then Some (Inl (Runtime ''No input string provided for decompression.''))
          else decompressFromBase64 (Some (filter (\<lambda>c. [c] \<noteq> [92, 110] \<and> [c] \<noteq> [92, 114]) e)))"

section \<open>Round trips\<close>

text \<open>The positions of the characters of a key without repetitions.\<close>

lemma getBaseValue_nth: "distinct key \<Longrightarrow> v < length key \<Longrightarrow> getBaseValue key (key ! v) = Some v"
proof -
  assume d: "distinct key" and v: "v < length key"
  have "distinct (map fst (rev (zip key [0..<length key])))" using d by (simp add: rev_map [symmetric])
  moreover have "(key ! v, v) \<in> set (rev (zip key [0..<length key]))"
    using v by (simp add: set_zip) (rule exI [of _ v], simp)
  ultimately show "getBaseValue key (key ! v) = Some v" unfolding getBaseValue_def by (rule map_of_is_SomeI)
qed

lemma key_base64: "distinct keyStrBase64" "length keyStrBase64 = 65" "list_all (\<lambda>c. 32 < c \<and> c < 128) keyStrBase64"
  by code_simp+

lemma key_uri: "distinct keyStrUriSafe" "length keyStrUriSafe = 65" "32 \<notin> set keyStrUriSafe"
  by code_simp+

interpretation base64: lz_codec 6 "\<lambda>v. keyStrBase64 ! v" "getBaseValue keyStrBase64"
  by unfold_locales (simp_all add: getBaseValue_nth key_base64)

interpretation uri: lz_codec 6 "\<lambda>v. keyStrUriSafe ! v" "getBaseValue keyStrUriSafe"
  by unfold_locales (simp_all add: getBaseValue_nth key_uri)

interpretation units15: lz_codec 15 "\<lambda>v. v + 32" utf16_value
  by unfold_locales (simp_all add: utf16_value_def)

interpretation units16: lz_codec 16 "\<lambda>v. v" Some
  by unfold_locales simp_all

lemma lz_compress_values:
  assumes "0 < t"
  obtains vs where "lz_compress t i e = map i vs" "list_all (\<lambda>v. v < 2 ^ t) vs" "vs \<noteq> []"
proof -
  obtain vs k where c: "lz_compress t i e = map i vs" "list_all (\<lambda>v. v < 2 ^ t) vs" by (rule compress_bits [OF assms])
  have "lz_compress t i e \<noteq> []" by (simp add: lz_compress_def flush_def Let_def split: prod.splits)
  then show thesis using that c by simp
qed

lemma lz_compress_some [simp]: "0 < t \<Longrightarrow> lz_compress t i e \<noteq> []"
  by (rule lz_compress_values [of t i e]) simp_all

lemma key_chars:
  assumes "length key = 65" "list_all P key"
  shows "list_all P (lz_compress 6 (\<lambda>v. key ! v) e)"
proof -
  obtain vs where "lz_compress 6 (\<lambda>v. key ! v) e = map (\<lambda>v. key ! v) vs" "list_all (\<lambda>v. v < 64) vs"
    by (rule lz_compress_values [of 6 "\<lambda>v. key ! v" e]) simp_all
  moreover have "P (key ! v)" if "v < 64" for v using assms that by (simp add: list_all_length)
  ultimately show ?thesis by (simp add: list_all_iff)
qed

text \<open>The padding of a Base64 text.\<close>

lemma compressToBase64_padded:
  obtains pad where "compressToBase64 (Some e) = lz_compress 6 (\<lambda>v. keyStrBase64 ! v) e @ pad" "list_all (\<lambda>c. c = 61) pad"
proof
  show "compressToBase64 (Some e) = lz_compress 6 (\<lambda>v. keyStrBase64 ! v) e @
      (let n = length (lz_compress 6 (\<lambda>v. keyStrBase64 ! v) e) mod 4 in
       if n = 1 then codes ''==='' else if n = 2 then codes ''=='' else if n = 3 then codes ''='' else [])"
    by (simp add: compressToBase64_def Let_def)
  show "list_all (\<lambda>c. c = 61)
      (let n = length (lz_compress 6 (\<lambda>v. keyStrBase64 ! v) e) mod 4 in
       if n = 1 then codes ''==='' else if n = 2 then codes ''=='' else if n = 3 then codes ''='' else [])"
    by (simp add: codes_def Let_def)
qed

lemma compressToBase64_padded_some [simp]: "compressToBase64 (Some e) \<noteq> []"
  by (rule compressToBase64_padded [of e]) simp

lemma compressToBase64_chars: "list_all (\<lambda>c. 32 < c \<and> c < 128) (compressToBase64 (Some e))"
proof -
  obtain pad where p: "compressToBase64 (Some e) = lz_compress 6 (\<lambda>v. keyStrBase64 ! v) e @ pad" "list_all (\<lambda>c. c = 61) pad"
    by (rule compressToBase64_padded)
  have "list_all (\<lambda>c. 32 < c \<and> c < 128) pad" by (rule list.pred_mono_strong [OF p(2)]) simp
  then show ?thesis using key_chars [OF key_base64(2,3)] by (simp add: p(1))
qed

lemma byte_pairs_split: "byte_pairs (concat (map (\<lambda>c. [c div 256, c mod 256]) cs)) = cs"
  by (induction cs) simp_all

lemma even_split: "even (length (concat (map (\<lambda>c. [c div 256, c mod 256]) cs)))"
  by (induction cs) simp_all

lemma base64_lossless:
  assumes "list_all (\<lambda>x. x < 65536) e"
  shows "decompressFromBase64 (Some (compressToBase64 (Some e))) = Some (Inr (Some e))"
proof -
  obtain pad where p: "compressToBase64 (Some e) = lz_compress 6 (\<lambda>v. keyStrBase64 ! v) e @ pad"
    by (rule compressToBase64_padded)
  show ?thesis using base64.lossless [OF assms, of pad] unfolding p by (simp add: decompressFromBase64_def)
qed

text \<open>C6: Every coding of \<open>LZString\<close> is lossless.\<close>

theorem codings_lossless:
  assumes "list_all (\<lambda>x. x < 65536) e"
  shows "decompressFromBase64 (Some (compressToBase64 (Some e))) = Some (Inr (Some e)) \<and>
    decompressFromEncodedURIComponent (Some (compressToEncodedURIComponent (Some e))) = Some (Inr (Some e)) \<and>
    decompressFromUTF16 (Some (compressToUTF16 (Some e))) = Some (Inr (Some e)) \<and>
    decompress_raw (Some (compress_raw (Some e))) = Some (Inr (Some e)) \<and>
    decompressFromUint8Array (Some (compressToUint8Array (Some e))) = Some (Inr (Some e))"
proof (intro conjI)
  show "decompressFromBase64 (Some (compressToBase64 (Some e))) = Some (Inr (Some e))" by (rule base64_lossless [OF assms])
  have "list_all (\<lambda>c. c \<noteq> 32) (lz_compress 6 (\<lambda>v. keyStrUriSafe ! v) e)"
    using key_chars [OF key_uri(2), of "\<lambda>c. c \<noteq> 32"] key_uri(3) by (metis (mono_tags, lifting) list_all_iff)
  then have "map (\<lambda>c. if c = 32 then 43 else c) (lz_compress 6 (\<lambda>v. keyStrUriSafe ! v) e) = lz_compress 6 (\<lambda>v. keyStrUriSafe ! v) e"
    by (intro map_idI) (simp add: list_all_iff)
  then show "decompressFromEncodedURIComponent (Some (compressToEncodedURIComponent (Some e))) = Some (Inr (Some e))"
    using uri.lossless [OF assms, of "[]"]
    by (simp add: decompressFromEncodedURIComponent_def compressToEncodedURIComponent_def Let_def)
  show "decompressFromUTF16 (Some (compressToUTF16 (Some e))) = Some (Inr (Some e))"
    using units15.lossless [OF assms, of "codes '' ''"] by (simp add: decompressFromUTF16_def compressToUTF16_def)
  show raw: "decompress_raw (Some (compress_raw (Some e))) = Some (Inr (Some e))"
    using units16.lossless [OF assms, of "[]"] by (simp add: decompress_raw_def compress_raw_def)
  show "decompressFromUint8Array (Some (compressToUint8Array (Some e))) = Some (Inr (Some e))"
    using raw by (simp add: decompressFromUint8Array_def compressToUint8Array_def byte_pairs_split even_split)
qed

theorem codings_lossless_witness:
  "decompressFromBase64 (Some (compressToBase64 (Some (codes ''aab'')))) = Some (Inr (Some (codes ''aab'')))"
  using codings_lossless [of "codes ''aab''"] by (simp add: codes_def)

section \<open>The drawing of a note\<close>

lemma filter_dropWhile: "list_all (\<lambda>c. js_space c \<longrightarrow> \<not> p c) t \<Longrightarrow> filter p (dropWhile js_space t) = filter p t"
  by (induction t) simp_all

lemma filter_trim:
  assumes "list_all (\<lambda>c. js_space c \<longrightarrow> \<not> p c) t"
  shows "filter p (trim t) = filter p t"
proof -
  have d: "list_all (\<lambda>c. js_space c \<longrightarrow> \<not> p c) (rev (dropWhile js_space t))"
    using assms by (auto simp: list_all_iff dest: set_dropWhileD)
  have "filter p (trim t) = rev (filter p (dropWhile js_space (rev (dropWhile js_space t))))" by (simp add: trim_def rev_filter)
  also have "\<dots> = filter p (dropWhile js_space t)" unfolding filter_dropWhile [OF d] by (simp add: rev_filter)
  finally show ?thesis using filter_dropWhile [OF assms] by simp
qed

lemma lines_256_chars: "list_all p t \<Longrightarrow> list_all (\<lambda>c. p c \<or> c = 10) (lines_256 t)"
proof (induction t rule: lines_256.induct)
  case (1 t)
  show ?case
  proof (cases "t = []")
    case False
    have "list_all p (take 256 t)" "list_all p (drop 256 t)"
      using 1(2) by (auto simp: list_all_iff dest: in_set_takeD in_set_dropD)
    then show ?thesis using 1(1) False
      by (subst lines_256.simps) (auto simp: codes_def list_all_iff)
  qed (simp add: lines_256.simps)
qed

lemma lines_256_filter:
  "\<not> p 10 \<Longrightarrow> list_all p t \<Longrightarrow> filter p (lines_256 t) = t"
proof (induction t rule: lines_256.induct)
  case (1 t)
  show ?case
  proof (cases "t = []")
    case False
    have "list_all p (take 256 t)" "list_all p (drop 256 t)"
      using 1(3) by (auto simp: list_all_iff dest: in_set_takeD in_set_dropD)
    then show ?thesis using 1(1,2) False
      by (subst lines_256.simps) (simp add: codes_def filter_id_conv list_all_iff)
  qed (simp add: lines_256.simps)
qed

lemma compress_chars: "filter (\<lambda>c. c \<noteq> 10 \<and> c \<noteq> 13) (compress e) = compressToBase64 (Some e)"
proof -
  let ?t = "compressToBase64 (Some e)" and ?p = "\<lambda>c :: nat. c \<noteq> 10 \<and> c \<noteq> 13"
  have graphic: "\<not> js_space c" "?p c" if "32 < c \<and> c < 128" for c using that by (auto simp: js_space_def)
  have "list_all (\<lambda>c. (32 < c \<and> c < 128) \<or> c = 10) (lines_256 ?t)" by (rule lines_256_chars [OF compressToBase64_chars])
  then have "list_all (\<lambda>c. js_space c \<longrightarrow> \<not> ?p c) (lines_256 ?t)" using graphic(1) by (auto simp: list_all_iff)
  moreover have "list_all ?p ?t" by (rule list.pred_mono_strong [OF compressToBase64_chars]) (rule graphic(2))
  ultimately show "filter ?p (compress e) = ?t" by (simp add: compress_def filter_trim lines_256_filter)
qed

text \<open>C5: A drawing is read back from a note as it was written.\<close>

theorem drawing_kept:
  assumes "list_all (\<lambda>x. x < 65536) e"
  shows "decompress (compress e) = Some (Inr (Some e))"
  using base64_lossless [OF assms] by (simp add: decompress_def compress_chars)

theorem drawing_kept_witness: "decompress (compress (codes ''{}'')) = Some (Inr (Some (codes ''{}'')))"
  using drawing_kept [of "codes ''{}''"] by (simp add: codes_def)

text \<open>C7: Every decompression returns, whatever the input.\<close>

theorem decompress_returns:
  "decompress e \<noteq> None \<and> decompressFromBase64 a \<noteq> None \<and> decompressFromEncodedURIComponent a \<noteq> None \<and>
   decompressFromUTF16 a \<noteq> None \<and> decompress_raw a \<noteq> None \<and> decompressFromUint8Array b \<noteq> None \<and>
   ea_decompressFromBase64 a \<noteq> None"
proof -
  have r: "lz_decompress len 32 n \<noteq> None" "lz_decompress len 16384 n \<noteq> None" "lz_decompress len 32768 n \<noteq> None" for len n
    using lz_decompress_returns [of 6 len n] lz_decompress_returns [of 15 len n] lz_decompress_returns [of 16 len n] by simp_all
  have base: "decompressFromBase64 a \<noteq> None" for a using r(1) by (simp add: decompressFromBase64_def split: option.split)
  have raw: "decompress_raw a \<noteq> None" for a using r(3) by (simp add: decompress_raw_def split: option.split)
  show ?thesis
  proof (intro conjI)
    show "decompress e \<noteq> None" unfolding decompress_def by (rule base)
    show "decompressFromBase64 a \<noteq> None" by (rule base)
    show "decompressFromEncodedURIComponent a \<noteq> None"
      using r(1) by (simp add: decompressFromEncodedURIComponent_def Let_def split: option.split)
    show "decompressFromUTF16 a \<noteq> None" using r(2) by (simp add: decompressFromUTF16_def split: option.split)
    show "decompress_raw a \<noteq> None" by (rule raw)
    show "decompressFromUint8Array b \<noteq> None"
      using raw by (simp add: decompressFromUint8Array_def del: not_None_eq split: option.split)
    show "ea_decompressFromBase64 a \<noteq> None"
      using base by (simp add: ea_decompressFromBase64_def del: not_None_eq split: option.split)
  qed
qed

text \<open>The script interface reads back what it wrote, but it keeps line breaks: an example that \<open>decompress\<close> reads and the
  script interface does not.\<close>

lemma ea_lossless:
  "list_all (\<lambda>x. x < 65536) e \<Longrightarrow> ea_decompressFromBase64 (Some (ea_compressToBase64 (Some e))) = Some (Inr (Some e))"
  using base64_lossless [of e] by (simp add: ea_compressToBase64_def ea_decompressFromBase64_def compressToBase64_padded_some)

lemma ea_keeps_line_breaks:
  "decompress (codes (''N4'' @ CHR 0x0A # ''XyA==='')) = Some (Inr (Some (codes ''{}'')))"
  "ea_decompressFromBase64 (Some (codes (''N4'' @ CHR 0x0A # ''XyA==='')) ) = Some (Inr None)"
  by code_simp+

end
