(* ===== verification/Drawing_Worker.thy ===== *)
theory Drawing_Worker
  imports Drawing_Text
begin

text \<open>
  The worker that compresses drawings (line 30 of \<open>main.js\<close>): the handler of its program \<open>workerCode\<close>, and
  \<open>runCompressionWorker\<close> with the table of the calls that wait for an answer.  A run is a list of events: the
  calls of the plugin and what the environment delivers, messages in the order they were posted.
\<close>

section \<open>The worker\<close>

datatype reply =
    Compressed nat js_text
  | Decompressed nat "js_text option"
  | Failed nat string

text \<open>
  \<open>self.onmessage\<close> of \<open>workerCode\<close>.  It has its own copy of \<open>LZString\<close> and of the loops of \<open>compress\<close> and
  \<open>decompress\<close>.
\<close>

definition error_text :: "error \<Rightarrow> string" where
  "error_text e =
     (case e of Runtime m \<Rightarrow> m | Overflow_error m \<Rightarrow> m | Invalid_argument m \<Rightarrow> m | Out_of_range m \<Rightarrow> m
      | Undefined m \<Rightarrow> m | _ \<Rightarrow> [])"

definition worker_onmessage :: "nat \<Rightarrow> js_text \<Rightarrow> string \<Rightarrow> reply option" where
  "worker_onmessage k d act =
     (if act = ''compress'' then
        Some (if d = [] then Failed k ''No input string provided for compression.'' else Compressed k (compress d))
      else if act = ''decompress'' then
        (if d = [] then Some (Failed k ''No input string provided for decompression.'')
         else case decompress d of
           None \<Rightarrow> None
         | Some (Inl e) \<Rightarrow> Some (Failed k (error_text e))
         | Some (Inr r) \<Rightarrow> Some (Decompressed k r))
      else Some (Failed k ''Unknown action.''))"

section \<open>runCompressionWorker\<close>

datatype outcome = Resolved js_text | Rejected string

text \<open>
  \<open>live\<close> is whether there is a worker, \<open>listening\<close> whether its \<open>onmessage\<close> was set; \<open>posted\<close> and \<open>replies\<close>
  are the messages on their way; \<open>settled\<close> are the promises, each settled once.
\<close>

record service =
  live :: bool
  listening :: bool
  messageCounter :: nat
  pendingOperations :: "nat set"
  posted :: "(nat \<times> js_text \<times> string) list"
  replies :: "reply list"
  settled :: "nat \<rightharpoonup> outcome"

definition settle :: "nat \<Rightarrow> outcome \<Rightarrow> service \<Rightarrow> service" where
  "settle k r s = s\<lparr>settled := (if settled s k = None then (settled s)(k \<mapsto> r) else settled s)\<rparr>"

text \<open>Without a worker \<open>worker.onmessage\<close> throws: the promise is rejected, its entry stays.\<close>

definition runCompressionWorker :: "js_text \<Rightarrow> string \<Rightarrow> service \<Rightarrow> service" where
  "runCompressionWorker e act s =
     (let k = messageCounter s;
          s = s\<lparr>messageCounter := k + 1, pendingOperations := insert k (pendingOperations s)\<rparr>
      in if \<not> live s then settle k (Rejected ''TypeError'') s
         else s\<lparr>listening := True, posted := posted s @ [(k, e, act)]\<rparr>)"

text \<open>The handler of the replies; an empty text or \<open>null\<close> counts as no result.\<close>

definition main_onmessage :: "reply \<Rightarrow> service \<Rightarrow> service" where
  "main_onmessage r s =
     (let k = (case r of Compressed k t \<Rightarrow> k | Decompressed k t \<Rightarrow> k | Failed k m \<Rightarrow> k);
          answer = (case r of
              Failed k m \<Rightarrow> if m \<noteq> [] then Rejected m else Rejected ''Unexpected response from worker''
            | Compressed k t \<Rightarrow> if t \<noteq> [] then Resolved t else Rejected ''Unexpected response from worker''
            | Decompressed k (Some t) \<Rightarrow> if t \<noteq> [] then Resolved t else Rejected ''Unexpected response from worker''
            | Decompressed k None \<Rightarrow> Rejected ''Unexpected response from worker'')
      in if k \<in> pendingOperations s
         then (settle k answer s)\<lparr>pendingOperations := pendingOperations s - {k}\<rparr>
         else s)"

definition main_onerror :: "string \<Rightarrow> service \<Rightarrow> service" where
  "main_onerror m s =
     (if listening s
      then s\<lparr>settled := (\<lambda>k. if settled s k = None \<and> k \<in> pendingOperations s then Some (Rejected m) else settled s k),
             pendingOperations := {}\<rparr>
      else s)"

text \<open>A terminated worker answers nothing; messages under way are lost.\<close>

definition initCompressionWorker :: "service \<Rightarrow> service" where
  "initCompressionWorker s = (if live s then s else s\<lparr>live := True, listening := False, posted := [], replies := []\<rparr>)"

definition terminateCompressionWorker :: "service \<Rightarrow> service" where
  "terminateCompressionWorker s = (if live s then s\<lparr>live := False, listening := False, posted := [], replies := []\<rparr> else s)"

datatype event =
    Init
  | Call js_text string
  | Work
  | Deliver
  | Worker_error string
  | Terminate

fun handle :: "event \<Rightarrow> service \<Rightarrow> service" where
  "handle Init s = initCompressionWorker s"
| "handle (Call e act) s = runCompressionWorker e act s"
| "handle Work s =
     (case posted s of
        [] \<Rightarrow> s
      | (k, e, act) # ms \<Rightarrow>
          s\<lparr>posted := ms, replies := replies s @ (case worker_onmessage k e act of None \<Rightarrow> [] | Some r \<Rightarrow> [r])\<rparr>)"
| "handle Deliver s =
     (case replies s of [] \<Rightarrow> s | r # rs \<Rightarrow> main_onmessage r (s\<lparr>replies := rs\<rparr>))"
| "handle (Worker_error m) s = main_onerror m s"
| "handle Terminate s = terminateCompressionWorker s"

definition new_service :: service where
  "new_service = \<lparr>live = False, listening = False, messageCounter = 0, pendingOperations = {}, posted = [], replies = [],
     settled = Map.empty\<rparr>"

definition run :: "event list \<Rightarrow> service" where
  "run es = foldl (\<lambda>s e. handle e s) new_service es"

section \<open>What the calls get\<close>

text \<open>The calls of a run, and the answer each would get from the plugin's own functions.\<close>

definition requests :: "event list \<Rightarrow> (js_text \<times> string) list" where
  "requests es = concat (map (\<lambda>ev. case ev of Call e act \<Rightarrow> [(e, act)] | _ \<Rightarrow> []) es)"

definition answer :: "js_text \<times> string \<Rightarrow> outcome" where
  "answer q =
     (case q of (e, act) \<Rightarrow>
        if act = ''compress'' then
          (if e = [] then Rejected ''No input string provided for compression.'' else Resolved (compress e))
        else if act = ''decompress'' then
          (if e = [] then Rejected ''No input string provided for decompression.''
           else case decompress e of
             Some (Inr (Some (c # t))) \<Rightarrow> Resolved (c # t)
           | Some (Inl err) \<Rightarrow> Rejected (if error_text err = [] then ''Unexpected response from worker'' else error_text err)
           | _ \<Rightarrow> Rejected ''Unexpected response from worker'')
        else Rejected ''Unknown action.'')"

lemma compress_some [simp]: "compress e \<noteq> []"
proof
  assume "compress e = []"
  then show False using compress_chars [of e] compressToBase64_padded_some [of e] by simp
qed

text \<open>The number a reply carries and what the caller makes of it.\<close>

fun reply_id :: "reply \<Rightarrow> nat" where
  "reply_id (Compressed k t) = k"
| "reply_id (Decompressed k t) = k"
| "reply_id (Failed k m) = k"

fun reply_outcome :: "reply \<Rightarrow> outcome" where
  "reply_outcome (Failed k m) = (if m \<noteq> [] then Rejected m else Rejected ''Unexpected response from worker'')"
| "reply_outcome (Compressed k t) = (if t \<noteq> [] then Resolved t else Rejected ''Unexpected response from worker'')"
| "reply_outcome (Decompressed k (Some t)) = (if t \<noteq> [] then Resolved t else Rejected ''Unexpected response from worker'')"
| "reply_outcome (Decompressed k None) = Rejected ''Unexpected response from worker''"

lemma main_onmessage_eq:
  "main_onmessage r s =
     (if reply_id r \<in> pendingOperations s
      then (settle (reply_id r) (reply_outcome r) s)\<lparr>pendingOperations := pendingOperations s - {reply_id r}\<rparr> else s)"
  by (cases "(r, case r of Decompressed k t \<Rightarrow> t | _ \<Rightarrow> None)" rule: prod.exhaust, cases r)
    (auto simp: main_onmessage_def Let_def split: option.splits)

lemma worker_answers:
  obtains r where "worker_onmessage k e act = Some r" "reply_id r = k" "reply_outcome r = answer (e, act)"
proof -
  have d: "decompress e \<noteq> None" using decompress_returns by blast
  have "\<exists>r. worker_onmessage k e act = Some r \<and> reply_id r = k \<and> reply_outcome r = answer (e, act)"
    using d by (auto simp: worker_onmessage_def answer_def split: sum.splits option.splits list.splits)
  then show thesis using that by blast
qed

lemma settle_fields [simp]:
  "messageCounter (settle k r s) = messageCounter s" "posted (settle k r s) = posted s" "replies (settle k r s) = replies s"
  "pendingOperations (settle k r s) = pendingOperations s" "live (settle k r s) = live s" "listening (settle k r s) = listening s"
  "settled (settle k r s) = (if settled s k = None then (settled s)(k \<mapsto> r) else settled s)"
  by (simp_all add: settle_def)

text \<open>
  \<open>qs\<close> are the calls made and \<open>ms\<close> the errors the environment may report.  \<open>served\<close> says that what is on its
  way and what was settled belongs to a call.
\<close>

definition reply_for :: "(js_text \<times> string) list \<Rightarrow> reply \<Rightarrow> bool" where
  "reply_for qs r \<longleftrightarrow> reply_id r < length qs \<and> reply_outcome r = answer (qs ! reply_id r)"

definition outcome_for :: "(js_text \<times> string) list \<Rightarrow> string set \<Rightarrow> nat \<Rightarrow> outcome \<Rightarrow> bool" where
  "outcome_for qs ms k r \<longleftrightarrow> k < length qs \<and> (r = answer (qs ! k) \<or> r = Rejected ''TypeError'' \<or> (\<exists>m \<in> ms. r = Rejected m))"

definition served :: "(js_text \<times> string) list \<Rightarrow> string set \<Rightarrow> service \<Rightarrow> bool" where
  "served qs ms s \<longleftrightarrow> messageCounter s = length qs \<and>
     (\<forall>(k, q) \<in> set (posted s). k < length qs \<and> qs ! k = q) \<and>
     (\<forall>r \<in> set (replies s). reply_for qs r) \<and>
     pendingOperations s \<subseteq> {..<length qs} \<and>
     (\<forall>k < length qs. k \<in> pendingOperations s \<or> settled s k \<noteq> None) \<and>
     (\<forall>k r. settled s k = Some r \<longrightarrow> outcome_for qs ms k r)"

lemma servedD:
  assumes "served qs ms s"
  shows "messageCounter s = length qs" "(k, q) \<in> set (posted s) \<Longrightarrow> k < length qs \<and> qs ! k = q"
    "r \<in> set (replies s) \<Longrightarrow> reply_for qs r" "k \<in> pendingOperations s \<Longrightarrow> k < length qs"
    "k < length qs \<Longrightarrow> k \<in> pendingOperations s \<or> settled s k \<noteq> None" "settled s k = Some a \<Longrightarrow> outcome_for qs ms k a"
  using assms by (auto simp: served_def)

lemma reply_for_more: "reply_for qs r \<Longrightarrow> reply_for (qs @ q) r"
  by (simp add: reply_for_def nth_append)

lemma outcome_for_more: "outcome_for qs ms k r \<Longrightarrow> ms \<subseteq> ms' \<Longrightarrow> outcome_for (qs @ q) ms' k r"
  by (auto simp: outcome_for_def nth_append)

lemma served_call:
  assumes "served qs ms s"
  shows "served (qs @ [(e, act)]) ms (runCompressionWorker e act s)"
proof -
  note d = servedD [OF assms]
  let ?s = "runCompressionWorker e act s" and ?qs = "qs @ [(e, act)]"
  have new: "settled s (length qs) = None" using d(6) [of "length qs"] by (cases "settled s (length qs)") (auto simp: outcome_for_def)
  have f: "messageCounter ?s = length ?qs" "replies ?s = replies s" "pendingOperations ?s = insert (length qs) (pendingOperations s)"
    "set (posted ?s) \<subseteq> insert (length qs, e, act) (set (posted s))"
    "settled ?s = (if live s then settled s else (settled s)(length qs \<mapsto> Rejected ''TypeError''))"
    using new by (auto simp: runCompressionWorker_def Let_def d(1))
  show ?thesis
    unfolding served_def
  proof (intro conjI)
    show "messageCounter ?s = length ?qs" by (rule f)
    show "\<forall>(k, q) \<in> set (posted ?s). k < length ?qs \<and> ?qs ! k = q"
      using d(2) f(4) by (fastforce simp: nth_append)
    show "\<forall>r \<in> set (replies ?s). reply_for ?qs r" using d(3) f(2) reply_for_more by auto
    show "pendingOperations ?s \<subseteq> {..<length ?qs}" using d(4) by (auto simp: f(3) less_Suc_eq)
    show "\<forall>k < length ?qs. k \<in> pendingOperations ?s \<or> settled ?s k \<noteq> None"
      using d(5) unfolding f(3,5) by (auto simp: less_Suc_eq)
    show "\<forall>k r. settled ?s k = Some r \<longrightarrow> outcome_for ?qs ms k r"
    proof (intro allI impI)
      fix k r assume "settled ?s k = Some r"
      then have "settled s k = Some r \<or> k = length qs \<and> r = Rejected ''TypeError''" unfolding f(5) by (auto split: if_splits)
      moreover have "settled s k = Some r \<Longrightarrow> outcome_for ?qs ms k r" by (rule outcome_for_more [OF d(6) order_refl])
      moreover have "outcome_for ?qs ms (length qs) (Rejected ''TypeError'')" by (simp add: outcome_for_def)
      ultimately show "outcome_for ?qs ms k r" by blast
    qed
  qed
qed

lemma served_work:
  assumes "served qs ms s"
  shows "served qs ms (handle Work s)"
proof (cases "posted s")
  case (Cons p ps)
  obtain k e act where p: "p = (k, e, act)" by (cases p)
  note d = servedD [OF assms]
  have k: "k < length qs" "qs ! k = (e, act)" using d(2) [of k "(e, act)"] by (simp_all add: Cons p)
  obtain r where r: "worker_onmessage k e act = Some r" "reply_id r = k" "reply_outcome r = answer (e, act)"
    by (rule worker_answers)
  have "handle Work s = s\<lparr>posted := ps, replies := replies s @ [r]\<rparr>" by (simp add: Cons p r(1))
  moreover have "reply_for qs r" by (simp add: reply_for_def r(2,3) k)
  ultimately show ?thesis using assms by (auto simp: served_def Cons)
qed (use assms in simp)

lemma served_deliver:
  assumes "served qs ms s"
  shows "served qs ms (handle Deliver s)"
proof (cases "replies s")
  case (Cons r rs)
  note d = servedD [OF assms]
  have r: "reply_for qs r" using d(3) by (simp add: Cons)
  let ?k = "reply_id r"
  have o: "outcome_for qs ms ?k (reply_outcome r)" using r by (simp add: reply_for_def outcome_for_def)
  have "settled (handle Deliver s) k = Some a \<Longrightarrow> outcome_for qs ms k a" for k a
    using d(6) o by (auto simp: Cons main_onmessage_eq split: if_splits)
  moreover have "k < length qs \<Longrightarrow> k \<in> pendingOperations (handle Deliver s) \<or> settled (handle Deliver s) k \<noteq> None" for k
    using d(5) [of k] by (auto simp: Cons main_onmessage_eq)
  moreover have "pendingOperations (handle Deliver s) \<subseteq> {..<length qs}" using d(4) by (auto simp: Cons main_onmessage_eq)
  moreover have "messageCounter (handle Deliver s) = length qs" "posted (handle Deliver s) = posted s" "replies (handle Deliver s) = rs"
    using d(1) by (simp_all add: Cons main_onmessage_eq)
  ultimately show ?thesis using d(2,3) unfolding served_def by (auto simp: Cons)
qed (use assms in simp)

lemma served_error:
  assumes "served qs ms s"
  shows "served qs (insert m ms) (main_onerror m s)"
proof -
  note d = servedD [OF assms]
  have "k < length qs \<Longrightarrow> k \<notin> pendingOperations s \<Longrightarrow> \<exists>a. settled s k = Some a" for k using d(5) [of k] by auto
  moreover have "outcome_for qs ms k a \<Longrightarrow> outcome_for qs (insert m ms) k a" for k a
    by (auto simp: outcome_for_def)
  ultimately show ?thesis
    using assms d(4,6) by (auto simp: served_def main_onerror_def outcome_for_def split: if_splits)
qed

lemma run_snoc: "run (es @ [e]) = handle e (run es)"
  by (simp add: run_def)

lemma requests_snoc: "requests (es @ [e]) = requests es @ (case e of Call d act \<Rightarrow> [(d, act)] | _ \<Rightarrow> [])"
  by (simp add: requests_def)

definition worker_errors :: "event list \<Rightarrow> string set" where
  "worker_errors es = {m. Worker_error m \<in> set es}"

lemma run_served: "served (requests es) (worker_errors es) (run es)"
proof (induction es rule: rev_induct)
  case Nil
  show ?case by (simp add: served_def run_def new_service_def requests_def)
next
  case (snoc e es)
  show ?case
  proof (cases e)
    case (Call d act)
    then show ?thesis using served_call [OF snoc, of d act] by (simp add: run_snoc requests_snoc worker_errors_def)
  next
    case (Worker_error m)
    have "worker_errors (es @ [e]) = insert m (worker_errors es)" by (auto simp: worker_errors_def Worker_error)
    then show ?thesis using served_error [OF snoc, of m] by (simp add: run_snoc requests_snoc Worker_error)
  next
    case Init
    then show ?thesis using snoc by (simp add: run_snoc requests_snoc worker_errors_def initCompressionWorker_def served_def)
  next
    case Terminate
    then show ?thesis using snoc by (simp add: run_snoc requests_snoc worker_errors_def terminateCompressionWorker_def served_def)
  next
    case Work
    then show ?thesis using served_work [OF snoc] by (simp add: run_snoc requests_snoc worker_errors_def)
  next
    case Deliver
    then show ?thesis using served_deliver [OF snoc] by (simp add: run_snoc requests_snoc worker_errors_def)
  qed
qed

text \<open>C8: A call of the worker gets what \<open>compress\<close> or \<open>decompress\<close> gives, or a rejection: one for a result that is
  empty, one for a missing worker, or the error the worker reported.
\<close>

theorem worker_answers_right:
  "case settled (run es) k of
     None \<Rightarrow> True
   | Some r \<Rightarrow> k < length (requests es) \<and>
       (r = answer (requests es ! k) \<or> r = Rejected ''TypeError'' \<or> (\<exists>m \<in> worker_errors es. r = Rejected m))"
  using servedD(6) [OF run_served, of es k] by (simp add: outcome_for_def split: option.split)

section \<open>Every call gets an answer\<close>

text \<open>As long as the worker is not terminated a call that was not settled has a message on its way.\<close>

definition awaited :: "service \<Rightarrow> bool" where
  "awaited s \<longleftrightarrow> (\<forall>k < messageCounter s. settled s k \<noteq> None \<or> k \<in> fst ` set (posted s) \<or> k \<in> reply_id ` set (replies s)) \<and>
     (\<not> live s \<longrightarrow> posted s = [] \<and> replies s = []) \<and> length (posted s) + length (replies s) \<le> messageCounter s"

lemma awaited_call: "awaited s \<Longrightarrow> messageCounter s = n \<Longrightarrow> awaited (runCompressionWorker e act s)"
  by (auto simp: awaited_def runCompressionWorker_def Let_def less_Suc_eq)

lemma awaited_work:
  assumes a: "awaited s"
  shows "awaited (handle Work s)" "length (posted (handle Work s)) = length (posted s) - 1"
proof -
  have "awaited (handle Work s) \<and> length (posted (handle Work s)) = length (posted s) - 1"
  proof (cases "posted s")
    case (Cons p ps)
    obtain k e act where p: "p = (k, e, act)" by (cases p)
    obtain r where r: "worker_onmessage k e act = Some r" "reply_id r = k" by (rule worker_answers)
    have "handle Work s = s\<lparr>posted := ps, replies := replies s @ [r]\<rparr>" by (simp add: Cons p r(1))
    then show ?thesis using a r(2) by (auto simp: awaited_def Cons p)
  qed (use a in simp)
  then show "awaited (handle Work s)" "length (posted (handle Work s)) = length (posted s) - 1" by blast+
qed

lemma awaited_deliver:
  assumes a: "awaited s" and v: "served qs ms s"
  shows "awaited (handle Deliver s)" "length (replies (handle Deliver s)) = length (replies s) - 1"
    "posted (handle Deliver s) = posted s"
proof -
  have "awaited (handle Deliver s) \<and> length (replies (handle Deliver s)) = length (replies s) - 1 \<and>
    posted (handle Deliver s) = posted s"
  proof (cases "replies s")
    case (Cons r rs)
    note d = servedD [OF v]
    have "reply_id r < length qs" using d(3) by (simp add: Cons reply_for_def)
    then have k: "settled (handle Deliver s) (reply_id r) \<noteq> None"
      using d(5) [of "reply_id r"] by (auto simp: Cons main_onmessage_eq)
    have old: "settled s j \<noteq> None \<Longrightarrow> settled (handle Deliver s) j \<noteq> None" for j by (auto simp: Cons main_onmessage_eq)
    have f: "messageCounter (handle Deliver s) = messageCounter s" "posted (handle Deliver s) = posted s"
      "replies (handle Deliver s) = rs" "live (handle Deliver s) = live s"
      by (simp_all add: Cons main_onmessage_eq)
    have "j < messageCounter s \<Longrightarrow>
        settled (handle Deliver s) j \<noteq> None \<or> j \<in> fst ` set (posted s) \<or> j \<in> reply_id ` set rs" for j
      using a old [of j] k by (auto simp: awaited_def Cons)
    then show ?thesis using a unfolding awaited_def f by (simp add: Cons)
  qed (use a in simp)
  then show "awaited (handle Deliver s)" "length (replies (handle Deliver s)) = length (replies s) - 1"
    "posted (handle Deliver s) = posted s" by blast+
qed

lemma awaited_error: "awaited s \<Longrightarrow> awaited (main_onerror m s)"
  by (auto simp: awaited_def main_onerror_def)

lemma run_awaited: "Terminate \<notin> set es \<Longrightarrow> awaited (run es)"
proof (induction es rule: rev_induct)
  case Nil
  show ?case by (simp add: awaited_def run_def new_service_def)
next
  case (snoc e es)
  then have a: "awaited (run es)" by simp
  show ?case
  proof (cases e)
    case (Call d act)
    then show ?thesis using awaited_call [OF a refl] by (simp add: run_snoc)
  next
    case (Worker_error m)
    then show ?thesis using awaited_error [OF a] by (simp add: run_snoc)
  next
    case Init
    then show ?thesis using a by (cases "live (run es)") (auto simp: run_snoc initCompressionWorker_def awaited_def)
  next
    case Work
    then show ?thesis using awaited_work(1) [OF a] by (simp only: run_snoc)
  next
    case Deliver
    then show ?thesis using awaited_deliver(1) [OF a run_served] by (simp only: run_snoc)
  next
    case Terminate
    then show ?thesis using snoc.prems by simp
  qed
qed

text \<open>Work until there is nothing to do.\<close>

lemma run_work:
  "Terminate \<notin> set es \<Longrightarrow> length (posted (run (es @ replicate n Work))) = length (posted (run es)) - n"
proof (induction n)
  case (Suc n)
  have "awaited (run (es @ replicate n Work))" by (rule run_awaited) (use Suc.prems in auto)
  from awaited_work(2) [OF this] show ?case
    using Suc.IH [OF Suc.prems] by (simp add: replicate_append_same [symmetric] run_snoc [of "es @ replicate n Work"] del: replicate_append_same append_assoc add: append_assoc [symmetric])
qed simp

lemma run_deliver:
  "Terminate \<notin> set es \<Longrightarrow> length (replies (run (es @ replicate n Deliver))) = length (replies (run es)) - n \<and>
     posted (run (es @ replicate n Deliver)) = posted (run es)"
proof (induction n)
  case (Suc n)
  have "awaited (run (es @ replicate n Deliver))" by (rule run_awaited) (use Suc.prems in auto)
  from awaited_deliver(2,3) [OF this run_served] show ?case
    using Suc.IH [OF Suc.prems] by (simp add: replicate_append_same [symmetric] run_snoc [of "es @ replicate n Deliver"] del: replicate_append_same append_assoc add: append_assoc [symmetric])
qed simp

lemma requests_more: "requests (es @ replicate n Work) = requests es" "requests (es @ replicate n Deliver) = requests es"
  by (induction n) (simp_all add: requests_def)

lemma requests_length: "length (requests es) \<le> length es"
  by (induction es) (auto simp: requests_def split: event.split)

text \<open>C9: Once the worker has done its work every call was settled, unless the worker was terminated.\<close>

theorem worker_settles:
  assumes "Terminate \<notin> set es" "k < length (requests es)"
  shows "settled (run (es @ replicate (length es) Work @ replicate (length es) Deliver)) k \<noteq> None"
proof -
  let ?n = "length es" and ?w = "es @ replicate (length es) Work"
  let ?r = "?w @ replicate ?n Deliver"
  have t: "Terminate \<notin> set ?w" "Terminate \<notin> set ?r" using assms(1) by auto
  have q: "requests ?w = requests es" "requests ?r = requests es" by (simp_all only: requests_more)
  have n: "messageCounter (run es) = length (requests es)" "messageCounter (run ?w) = length (requests es)"
    "messageCounter (run ?r) = length (requests es)"
    using servedD(1) [OF run_served [of es]] servedD(1) [OF run_served [of ?w]] servedD(1) [OF run_served [of ?r]] q by simp_all
  have "length (posted (run es)) \<le> ?n" using run_awaited [OF assms(1)] requests_length [of es] n(1) by (simp add: awaited_def)
  then have p: "posted (run ?w) = []" using run_work [OF assms(1), of ?n] by simp
  have "length (replies (run ?w)) \<le> ?n" using run_awaited [OF t(1)] requests_length [of es] n(2) by (simp add: awaited_def)
  then have "posted (run ?r) = []" "replies (run ?r) = []" using run_deliver [OF t(1), of ?n] p by simp_all
  then show ?thesis using run_awaited [OF t(2)] assms(2) n(3) by (simp add: awaited_def)
qed

theorem worker_settles_witness:
  "settled (run ([Init, Call (codes ''x'') ''compress''] @ replicate 2 Work @ replicate 2 Deliver)) 0 \<noteq> None"
  using worker_settles [of "[Init, Call (codes ''x'') ''compress'']" 0] by (simp add: requests_def numeral_2_eq_2)

text \<open>The empty drawing is rejected although \<open>decompress\<close> reads it.\<close>

lemma worker_rejects_empty:
  "decompress (compress []) = Some (Inr (Some []))"
  "settled (run [Init, Call (compress []) ''decompress'', Work, Deliver]) 0 = Some (Rejected ''Unexpected response from worker'')"
proof -
  show d: "decompress (compress []) = Some (Inr (Some []))" by (rule drawing_kept) simp
  then show "settled (run [Init, Call (compress []) ''decompress'', Work, Deliver]) 0 =
      Some (Rejected ''Unexpected response from worker'')"
    by (simp add: run_def new_service_def initCompressionWorker_def runCompressionWorker_def worker_onmessage_def main_onmessage_def Let_def)
qed

end
