(* ===== verification/Error_Handler.thy ===== *)
theory Error_Handler
  imports Prelude "HOL-Library.Sublist"
begin

text \<open>
  The class \<open>ErrorHandler\<close> of the plugin (line 30 of \<open>main.js\<close>): a log of at most 100 errors and the two
  wrappers the other components run foreign code in.  An exception is an error value; the clock and the console
  are left out.
\<close>

section \<open>State\<close>

record error_handler =
  errorLog :: "(error \<times> string) list"
  notices :: "string list"

definition maxLogEntries :: nat where
  "maxLogEntries = 100"

definition error_message :: "error \<Rightarrow> string" where
  "error_message e =
     (case e of Runtime m \<Rightarrow> m | Overflow_error m \<Rightarrow> m | Invalid_argument m \<Rightarrow> m | Out_of_range m \<Rightarrow> m | Undefined m \<Rightarrow> m
      | Bad_optional_access \<Rightarrow> [] | Blocked \<Rightarrow> [])"

section \<open>Operations\<close>

definition formatErrorForUser :: "error \<Rightarrow> string \<Rightarrow> string" where
  "formatErrorForUser e ctx =
     (let i = error_message e;
          i = (if sublist ''Cannot read properties of undefined'' i then
                 ''A required object was not available. This might be due to a plugin loading issue.''
               else if sublist ''is not a function'' i then
                 ''A required function was not available. This might be due to a plugin version mismatch.''
               else if 100 < length i then take 100 i @ ''...'' else i)
      in ''Excalidraw Error: '' @ i @ '' (in '' @ ctx @ '')'')"

definition handleError :: "error \<Rightarrow> string \<Rightarrow> bool \<Rightarrow> ('m) error_handler_scheme \<Rightarrow> ('m) error_handler_scheme" where
  "handleError e ctx notify h =
     (let entries = errorLog h @ [(e, ctx)];
          h = h\<lparr>errorLog := (if maxLogEntries < length entries then drop (length entries - maxLogEntries) entries else entries)\<rparr>
      in if notify then h\<lparr>notices := notices h @ [formatErrorForUser e ctx]\<rparr> else h)"

text \<open>\<open>fallback\<close> is \<open>None\<close> when the argument is \<open>undefined\<close>; \<open>null\<close> is a value.\<close>

definition wrapWithTryCatch ::
  "('m error_handler_scheme, 'a) action \<Rightarrow> string \<Rightarrow> 'a option \<Rightarrow> ('m error_handler_scheme, 'a) action" where
  "wrapWithTryCatch f ctx fallback h =
     (case f h of
        (Inr v, h) \<Rightarrow> (Inr v, h)
      | (Inl e, h) \<Rightarrow>
          ((case fallback of Some v \<Rightarrow> Inr v | None \<Rightarrow> Inl e), handleError e ctx True h))"

text \<open>\<open>i.eval.call(i, e)\<close> is the action \<open>f\<close>.\<close>

definition safeEval ::
  "('m error_handler_scheme, 'a) action \<Rightarrow> string \<Rightarrow> 'a option \<Rightarrow> ('m error_handler_scheme, 'a) action" where
  "safeEval f ctx fallback = wrapWithTryCatch f (''SafeEval in '' @ ctx) fallback"

definition getErrorLog :: "'m error_handler_scheme \<Rightarrow> (error \<times> string) list" where
  "getErrorLog h = errorLog h"

definition clearErrorLog :: "'m error_handler_scheme \<Rightarrow> 'm error_handler_scheme" where
  "clearErrorLog h = h\<lparr>errorLog := []\<rparr>"

section \<open>The log keeps the latest entries\<close>

definition latest :: "nat \<Rightarrow> 'a list \<Rightarrow> 'a list" where
  "latest n xs = drop (length xs - n) xs"

lemma latest_length: "length (latest n xs) \<le> n"
  by (simp add: latest_def)

lemma latest_latest: "latest n (latest n xs @ ys) = latest n (xs @ ys)"
proof (cases "length xs \<le> n")
  case True
  then show ?thesis by (simp add: latest_def)
next
  case False
  then have "length xs + length ys - n = length xs - n + length ys" by simp
  then show ?thesis using False
    by (cases "length ys \<le> n") (simp_all add: latest_def add.commute)
qed

lemma handleError_log: "errorLog (handleError e ctx notify h) = latest maxLogEntries (errorLog h @ [(e, ctx)])"
  by (simp add: handleError_def latest_def Let_def)

definition handle_all :: "(error \<times> string \<times> bool) list \<Rightarrow> 'm error_handler_scheme \<Rightarrow> 'm error_handler_scheme" where
  "handle_all es h = foldl (\<lambda>h (e, ctx, notify). handleError e ctx notify h) h es"

text \<open>C20: After any errors the log holds the latest hundred of them in order, and a user is shown one notice
  for each error that asked for it.\<close>

theorem error_log_latest:
  "errorLog (handle_all es h) = (if es = [] then errorLog h else latest 100 (errorLog h @ map (\<lambda>(e, ctx, _). (e, ctx)) es)) \<and>
   notices (handle_all es h) = notices h @ map (\<lambda>(e, ctx, _). formatErrorForUser e ctx) (filter (\<lambda>(_, _, n). n) es)"
proof (induction es arbitrary: h)
  case Nil
  then show ?case by (simp add: handle_all_def)
next
  case (Cons x es)
  obtain e ctx n where x: "x = (e, ctx, n)" by (cases x)
  have "handle_all (x # es) h = handle_all es (handleError e ctx n h)" by (simp add: handle_all_def x)
  moreover have "notices (handleError e ctx n h) = notices h @ (if n then [formatErrorForUser e ctx] else [])"
    by (simp add: handleError_def Let_def)
  moreover have "latest 100 (latest 100 (errorLog h @ [(e, ctx)]) @ ys) = latest 100 (errorLog h @ (e, ctx) # ys)" for ys
    using latest_latest [of 100 "errorLog h @ [(e, ctx)]" ys] by simp
  ultimately show ?case
    using Cons.IH [of "handleError e ctx n h"] by (auto simp: x handleError_log maxLogEntries_def)
qed

end
