(* ===== verification/Pako_Table.thy ===== *)
theory Pako_Table
  imports Prelude
begin

text \<open>
  The decoding tables of \<open>pako\<close>, the zlib port bundled on line 6 of the diagram plugin's \<open>main.js\<close>:
  the function \<open>me\<close> (\<open>inflate_table\<close>), which turns code lengths into a lookup table, the checksums
  \<open>C\<close> (\<open>adler32\<close>) and \<open>H\<close> (\<open>crc32\<close>), and the numeric conventions of the model.

  Every number these functions handle is an integer below \<open>2 ^ 32\<close>, on which the bitwise operators of
  the language act as on natural numbers; a typed array is a list, a read outside it gives
  \<open>undefined\<close>, which every reader here turns into 0 by a bitwise operator, and a write outside it is
  dropped.
\<close>

section \<open>Numbers and arrays\<close>

definition at :: "nat list \<Rightarrow> nat \<Rightarrow> nat" where
  "at xs i = (if i < length xs then xs ! i else 0)"

definition has_bit :: "nat \<Rightarrow> nat \<Rightarrow> bool" where
  "has_bit n k \<longleftrightarrow> odd (n div 2 ^ k)"

section \<open>Checksums\<close>

text \<open>
  \<open>C\<close>: the inner loop runs over at most 2000 bytes before the sums are reduced; \<open>| 0\<close> cuts each sum to a
  signed 32-bit integer.
\<close>

definition to_int32 :: "int \<Rightarrow> int" where
  "to_int32 v = (v + 2147483648) mod 4294967296 - 2147483648"

definition adler_sums :: "int \<times> int \<Rightarrow> nat list \<Rightarrow> int \<times> int" where
  "adler_sums ns bs =
     foldl (\<lambda>(n, s) b. let n' = to_int32 (n + int b) in (n', to_int32 (s + n'))) ns bs"

text \<open>The remainder \<open>%\<close> has the sign of the dividend.\<close>

definition js_rem :: "int \<Rightarrow> int \<Rightarrow> int" where
  "js_rem a b = (if a < 0 then - ((- a) mod b) else a mod b)"

fun adler_chunks :: "int \<times> int \<Rightarrow> nat list \<Rightarrow> int \<times> int" where
  "adler_chunks ns bs =
     (if bs = [] then ns
      else case adler_sums ns (take 2000 bs) of (n, s) \<Rightarrow>
        adler_chunks (js_rem n 65521, js_rem s 65521) (drop 2000 bs))"

declare adler_chunks.simps [simp del]

text \<open>The result \<open>n | s << 16 | 0\<close>, read as an unsigned number.\<close>

definition adler32 :: "nat \<Rightarrow> nat list \<Rightarrow> nat" where
  "adler32 adler bs =
     (case adler_chunks (int (adler mod 65536), int (adler div 65536 mod 65536)) bs of (n, s) \<Rightarrow>
        nat (n mod 65536 + s mod 65536 * 65536))"

text \<open>\<open>M\<close> and \<open>H\<close>: the table and the loop of \<open>crc32\<close>.\<close>

definition crc_entry :: "nat \<Rightarrow> nat" where
  "crc_entry a = ((\<lambda>t. if odd t then Bit_Operations.xor 3988292384 (t div 2) else t div 2) ^^ 8) a"

definition crc_step :: "nat \<Rightarrow> nat \<Rightarrow> nat" where
  "crc_step t b = Bit_Operations.xor (t div 256) (crc_entry (Bit_Operations.xor (t mod 256) b mod 256))"

definition crc32 :: "nat \<Rightarrow> nat list \<Rightarrow> nat" where
  "crc32 crc bs = 4294967295 - foldl crc_step (4294967295 - crc) bs"

section \<open>Tables of codes\<close>

text \<open>
  An entry packs \<open>bits << 24 | op << 16 | val\<close>.  \<open>fe\<close>, \<open>ce\<close>, \<open>ue\<close> and \<open>we\<close> are the base values and
  operations of length and distance codes.
\<close>

definition entry :: "nat \<Rightarrow> nat \<Rightarrow> nat \<Rightarrow> nat" where
  "entry bits oper val = bits * 16777216 + oper * 65536 + val"

definition entry_bits :: "nat \<Rightarrow> nat" where "entry_bits e = e div 16777216"
definition entry_op :: "nat \<Rightarrow> nat" where "entry_op e = e div 65536 mod 256"
definition entry_val :: "nat \<Rightarrow> nat" where "entry_val e = e mod 65536"

definition lbase :: "nat list" where
  "lbase = [3,4,5,6,7,8,9,10,11,13,15,17,19,23,27,31,35,43,51,59,67,83,99,115,131,163,195,227,258,0,0]"

definition lext :: "nat list" where
  "lext = [16,16,16,16,16,16,16,16,17,17,17,17,18,18,18,18,19,19,19,19,20,20,20,20,21,21,21,21,16,72,78]"

definition dbase :: "nat list" where
  "dbase = [1,2,3,4,5,7,9,13,17,25,33,49,65,97,129,193,257,385,513,769,1025,1537,2049,3073,4097,6145,8193,12289,16385,24577,0,0]"

definition dext :: "nat list" where
  "dext = [16,16,16,16,17,17,18,18,19,19,20,20,21,21,22,22,23,23,24,24,25,25,26,26,27,27,28,28,29,29,64,64]"

text \<open>\<open>E\<close>: how many codes have each length.\<close>

definition count_lengths :: "nat list \<Rightarrow> nat list" where
  "count_lengths ls = foldl (\<lambda>cs l. cs[l := cs ! l + 1]) (replicate 16 0) ls"

text \<open>The longest length used (0 when there is none) and the shortest.\<close>

fun longest :: "nat \<Rightarrow> nat list \<Rightarrow> nat" where
  "longest 0 cs = 0"
| "longest (Suc w) cs = (if cs ! Suc w = 0 then longest w cs else Suc w)"

definition shortest :: "nat \<Rightarrow> nat list \<Rightarrow> nat" where
  "shortest g cs = (case find (\<lambda>b. cs ! b \<noteq> 0) [1..<g] of Some b \<Rightarrow> b | None \<Rightarrow> max 1 g)"

text \<open>The room left by the lengths up to 15: \<open>None\<close> when they are oversubscribed.\<close>

fun code_room :: "int \<Rightarrow> nat list \<Rightarrow> int option" where
  "code_room y [] = Some y"
| "code_room y (c # cs) = (let y' = 2 * y - int c in if y' < 0 then None else code_room y' cs)"

text \<open>\<open>R\<close> and the symbols sorted by the length of their codes.\<close>

fun offsets :: "nat \<Rightarrow> nat list \<Rightarrow> nat list" where
  "offsets r [] = []"
| "offsets r (c # cs) = r # offsets (r + c) cs"

definition sort_symbols :: "nat list \<Rightarrow> nat list \<Rightarrow> nat list \<Rightarrow> nat list" where
  "sort_symbols offs ls work =
     snd (foldl (\<lambda>(os, r) (m, l). if l = 0 then (os, r) else (os[l := os ! l + 1], r[os ! l := m]))
       (offs, work) (enumerate 0 ls))"

text \<open>The next code of length \<open>w\<close>, codes being kept with their bits reversed.\<close>

fun next_code :: "nat \<Rightarrow> nat \<Rightarrow> nat" where
  "next_code 0 z = 0"
| "next_code (Suc j) z = (if has_bit z j then next_code j z else z mod 2 ^ j + 2 ^ j)"

definition fill :: "nat \<Rightarrow> nat \<Rightarrow> nat \<Rightarrow> nat \<Rightarrow> nat list \<Rightarrow> nat list" where
  "fill base incr sz e table =
     foldl (\<lambda>t j. t[base + sz - Suc j * incr := e]) table [0..<sz div incr]"

text \<open>Growing the second table until the codes that share its prefix fit.\<close>

function subtable_bits :: "nat \<Rightarrow> nat \<Rightarrow> nat \<Rightarrow> int \<Rightarrow> nat list \<Rightarrow> nat" where
  "subtable_bits g v k y cs =
     (if g \<le> k + v then k
      else let y' = y - int (cs ! (k + v)) in if y' \<le> 0 then k else subtable_bits g v (Suc k) (2 * y') cs)"
  by pat_completeness auto
termination
  by (relation "measure (\<lambda>(g, v, k, y, cs). g - (k + v))") auto

declare subtable_bits.simps [simp del]

record table_state =
  t_cs :: "nat list"
  t_z :: nat
  t_m :: nat
  t_w :: nat
  t_c :: nat
  t_k :: nat
  t_v :: nat
  t_low :: "nat option"
  t_x :: nat
  t_n :: "nat list"

definition table_full :: "nat \<Rightarrow> nat \<Rightarrow> bool" where
  "table_full ty x \<longleftrightarrow> ty = 1 \<and> 852 < x \<or> ty = 2 \<and> 592 < x"

text \<open>
  One symbol: fill its entries, step the code, and start a second table when the code is longer than
  the root and its root bits are new.  \<open>Inl\<close> is the return with code 1.
\<close>

definition place_symbol :: "nat \<Rightarrow> nat list \<Rightarrow> nat list \<Rightarrow> nat \<Rightarrow> nat \<Rightarrow> table_state \<Rightarrow> (table_state, bool \<times> table_state) sum" where
  "place_symbol ty ls r g p t =
     (let sym = at r (t_m t);
          u = (if ty = 0 then 20 else if ty = 1 then 257 else 0);
          base = (if ty = 0 then r else if ty = 1 then lbase else dbase);
          ext = (if ty = 0 then r else if ty = 1 then lext else dext);
          (oper, val) = (if sym + 1 < u then (0, sym)
                         else if u \<le> sym then (at ext (sym - u), at base (sym - u)) else (96, 0));
          n = fill (t_c t + t_z t div 2 ^ t_v t) (2 ^ (t_w t - t_v t)) (2 ^ t_k t) (entry (t_w t - t_v t) oper val) (t_n t);
          z = next_code (t_w t) (t_z t);
          m = t_m t + 1;
          cs = (t_cs t)[t_w t := t_cs t ! t_w t - 1]
      in if cs ! t_w t = 0 \<and> t_w t = g
         then Inr (True, t\<lparr>t_n := n, t_z := z, t_m := m, t_cs := cs\<rparr>)
         else
           let w = (if cs ! t_w t = 0 then at ls (at r m) else t_w t) in
           if p < w \<and> Some (z mod 2 ^ p) \<noteq> t_low t then
             let v = (if t_v t = 0 then p else t_v t);
                 c = t_c t + 2 ^ t_k t;
                 k = subtable_bits g v (w - v) (2 ^ (w - v)) cs;
                 x = t_x t + 2 ^ k
             in if table_full ty x then Inl (t\<lparr>t_n := n\<rparr>)
                else Inr (False, t\<lparr>t_n := n[z mod 2 ^ p := entry p k c], t_z := z, t_m := m, t_cs := cs, t_w := w,
                       t_v := v, t_c := c, t_k := k, t_x := x, t_low := Some (z mod 2 ^ p)\<rparr>)
           else Inr (False, t\<lparr>t_n := n, t_z := z, t_m := m, t_cs := cs, t_w := w\<rparr>))"

text \<open>Each round places one symbol, so as many rounds as there are codes are enough.\<close>

fun place_symbols :: "nat \<Rightarrow> nat \<Rightarrow> nat list \<Rightarrow> nat list \<Rightarrow> nat \<Rightarrow> nat \<Rightarrow> table_state \<Rightarrow> (table_state, table_state) sum" where
  "place_symbols 0 ty ls r g p t = Inr t"
| "place_symbols (Suc i) ty ls r g p t =
     (case place_symbol ty ls r g p t of
        Inl e \<Rightarrow> Inl e
      | Inr (True, t') \<Rightarrow> Inr t'
      | Inr (False, t') \<Rightarrow> place_symbols i ty ls r g p t')"

record table_result =
  tr_ret :: int
  tr_table :: "nat list"
  tr_work :: "nat list"
  tr_bits :: nat

text \<open>
  \<open>me(t, e, a, i, n, s, r, o)\<close> with \<open>ls\<close> the \<open>i\<close> lengths of \<open>e\<close> from \<open>a\<close> and \<open>s = 0\<close>, as every call has
  it.
\<close>

definition inflate_table :: "nat \<Rightarrow> nat list \<Rightarrow> nat list \<Rightarrow> nat list \<Rightarrow> nat \<Rightarrow> table_result" where
  "inflate_table ty ls table work bits =
     (let cs = count_lengths ls; g = longest 15 cs in
      if g = 0 then \<lparr>tr_ret = 0, tr_table = table[0 := 20971520, 1 := 20971520], tr_work = work, tr_bits = 1\<rparr>
      else
        let b = shortest g cs; p = max (min bits g) b in
        case code_room 1 (tl cs) of
          None \<Rightarrow> \<lparr>tr_ret = -1, tr_table = table, tr_work = work, tr_bits = bits\<rparr>
        | Some y \<Rightarrow>
            if 0 < y \<and> (ty = 0 \<or> g \<noteq> 1) then \<lparr>tr_ret = -1, tr_table = table, tr_work = work, tr_bits = bits\<rparr>
            else
              let r = sort_symbols (0 # offsets 0 (tl cs)) ls work in
              if table_full ty (2 ^ p) then \<lparr>tr_ret = 1, tr_table = table, tr_work = r, tr_bits = bits\<rparr>
              else
                case place_symbols (length ls) ty ls r g p
                    \<lparr>t_cs = cs, t_z = 0, t_m = 0, t_w = b, t_c = 0, t_k = p, t_v = 0, t_low = None, t_x = 2 ^ p, t_n = table\<rparr> of
                  Inl t \<Rightarrow> \<lparr>tr_ret = 1, tr_table = t_n t, tr_work = r, tr_bits = bits\<rparr>
                | Inr t \<Rightarrow>
                    \<lparr>tr_ret = 0,
                     tr_table = (if t_z t \<noteq> 0 then (t_n t)[t_c t + t_z t := entry (t_w t - t_v t) 64 0] else t_n t),
                     tr_work = r, tr_bits = p\<rparr>)"

end
