(* ===== verification/Pako_Inflate.thy ===== *)
theory Pako_Inflate
  imports Pako_Table
begin

text \<open>
  \<open>qe.inflate\<close> of the bundled \<open>pako\<close> (line 6 of \<open>main.js\<close>): the state machine that reads a zlib or gzip
  stream.  One record holds the stream (\<open>qt\<close>), the state (\<open>Be\<close>) and the locals of the call; the output
  array is the list of the bytes written so far, \<open>avail_out\<close> the room behind them, \<open>room\<close> the local \<open>f\<close>
  (the room at the last check).
\<close>

section \<open>State\<close>

text \<open>The modes, in the order of their numbers from 16180.\<close>

datatype mode = M_HEAD | M_FLAGS | M_TIME | M_OS | M_EXLEN | M_EXTRA | M_NAME | M_COMMENT | M_HCRC | M_DICTID | M_DICT | M_TYPE
  | M_TYPEDO | M_STORED | M_COPY_START | M_COPY | M_TABLE | M_LENLENS | M_CODELENS | M_LEN_START | M_LEN | M_LENEXT | M_DIST | M_DISTEXT
  | M_MATCH | M_LIT | M_CHECK | M_LENGTH | M_DONE | M_BAD | M_MEM

definition mode_number :: "mode \<Rightarrow> nat" where
  "mode_number m =
     16180 + (case m of M_HEAD \<Rightarrow> 0 | M_FLAGS \<Rightarrow> 1 | M_TIME \<Rightarrow> 2 | M_OS \<Rightarrow> 3 | M_EXLEN \<Rightarrow> 4 | M_EXTRA \<Rightarrow> 5 | M_NAME \<Rightarrow> 6
       | M_COMMENT \<Rightarrow> 7 | M_HCRC \<Rightarrow> 8 | M_DICTID \<Rightarrow> 9 | M_DICT \<Rightarrow> 10 | M_TYPE \<Rightarrow> 11 | M_TYPEDO \<Rightarrow> 12 | M_STORED \<Rightarrow> 13
       | M_COPY_START \<Rightarrow> 14 | M_COPY \<Rightarrow> 15 | M_TABLE \<Rightarrow> 16 | M_LENLENS \<Rightarrow> 17 | M_CODELENS \<Rightarrow> 18 | M_LEN_START \<Rightarrow> 19 | M_LEN \<Rightarrow> 20
       | M_LENEXT \<Rightarrow> 21 | M_DIST \<Rightarrow> 22 | M_DISTEXT \<Rightarrow> 23 | M_MATCH \<Rightarrow> 24 | M_LIT \<Rightarrow> 25 | M_CHECK \<Rightarrow> 26 | M_LENGTH \<Rightarrow> 27
       | M_DONE \<Rightarrow> 28 | M_BAD \<Rightarrow> 29 | M_MEM \<Rightarrow> 30)"

text \<open>\<open>Je\<close>: what a gzip header says.\<close>

record gz_header =
  hd_text :: nat
  hd_time :: nat
  hd_xflags :: nat
  hd_os :: nat
  hd_extra :: "nat list option"
  hd_extra_len :: nat
  hd_name :: "nat list option"
  hd_comment :: "nat list option"
  hd_hcrc :: nat
  hd_done :: bool

definition new_header :: gz_header where
  "new_header = \<lparr>hd_text = 0, hd_time = 0, hd_xflags = 0, hd_os = 0, hd_extra = None, hd_extra_len = 0,
     hd_name = Some [], hd_comment = Some [], hd_hcrc = 0, hd_done = False\<rparr>"

record zstream =
  inp :: "nat list"
  next_in :: nat
  total_in :: nat
  outp :: "nat list"
  avail_out :: nat
  total_out :: nat
  msg :: string
  stream_adler :: nat
  zmode :: mode
  zlast :: nat
  wrap :: nat
  havedict :: bool
  zflags :: int
  dmax :: nat
  zcheck :: nat
  total :: nat
  head :: "gz_header option"
  wbits :: nat
  wsize :: nat
  whave :: nat
  wnext :: nat
  window :: "nat list option"
  hold :: nat
  bits :: nat
  zlength :: nat
  offset :: nat
  extra :: nat
  lencode :: "nat list"
  distcode :: "nat list"
  lenbits :: nat
  distbits :: nat
  ncode :: nat
  nlen :: nat
  ndist :: nat
  got :: nat
  lens :: "nat list"
  work :: "nat list"
  lendyn :: "nat list"
  distdyn :: "nat list"
  sane :: bool
  zback :: int
  was :: nat
  room :: nat

definition avail_in :: "zstream \<Rightarrow> nat" where
  "avail_in z = length (inp z) - next_in z"

definition next_out :: "zstream \<Rightarrow> nat" where
  "next_out z = length (outp z)"

definition bad :: "string \<Rightarrow> zstream \<Rightarrow> zstream" where
  "bad m z = z\<lparr>msg := m, zmode := M_BAD\<rparr>"

text \<open>
  What one pass of the \<open>switch\<close> ends in: the loop goes on, \<open>break t\<close> with a return code, \<open>return\<close>, or a
  copy loop that never ends.
\<close>

datatype pass = Again zstream | Leave int zstream | Return int zstream | Endless zstream

section \<open>Bits\<close>

text \<open>\<open>for (; d < n;) { if (0 === o) break t; o--, h += i[s++] << d, d += 8 }\<close>\<close>

definition pull_byte :: "zstream \<Rightarrow> zstream" where
  "pull_byte z = z\<lparr>hold := hold z + at (inp z) (next_in z) * 2 ^ bits z, bits := bits z + 8, next_in := next_in z + 1\<rparr>"

function pull :: "nat \<Rightarrow> zstream \<Rightarrow> bool \<times> zstream" where
  "pull n z = (if n \<le> bits z then (True, z) else if avail_in z = 0 then (False, z) else pull n (pull_byte z))"
  by pat_completeness auto
termination
  by (relation "measure (\<lambda>(n, z). avail_in z)") (auto simp: avail_in_def pull_byte_def)

declare pull.simps [simp del]

definition need :: "nat \<Rightarrow> zstream \<Rightarrow> (zstream \<Rightarrow> pass) \<Rightarrow> pass" where
  "need n z k = (case pull n z of (True, z') \<Rightarrow> k z' | (False, z') \<Rightarrow> Leave 0 z')"

text \<open>\<open>h >>>= n, d -= n\<close>\<close>

definition drop_bits :: "nat \<Rightarrow> zstream \<Rightarrow> zstream" where
  "drop_bits n z = z\<lparr>hold := hold z div 2 ^ n, bits := bits z - n\<rparr>"

definition init_bits :: "zstream \<Rightarrow> zstream" where
  "init_bits z = z\<lparr>hold := 0, bits := 0\<rparr>"

definition low_bits :: "nat \<Rightarrow> zstream \<Rightarrow> nat" where
  "low_bits n z = hold z mod 2 ^ n"

text \<open>
  \<open>for (; z = table[h & mask], m = z >>> 24, !(m <= d);)\<close> and the same with the second table: the entry, and
  the bytes it took to have all its bits.
\<close>

function pull_entry :: "(zstream \<Rightarrow> nat) \<Rightarrow> nat \<Rightarrow> zstream \<Rightarrow> nat option \<times> zstream" where
  "pull_entry look k z =
     (if k + entry_bits (look z) \<le> bits z then (Some (look z), z)
      else if avail_in z = 0 then (None, z) else pull_entry look k (pull_byte z))"
  by pat_completeness auto
termination
  by (relation "measure (\<lambda>(look, k, z). avail_in z)") (auto simp: avail_in_def pull_byte_def)

declare pull_entry.simps [simp del]

definition root_entry :: "nat list \<Rightarrow> nat \<Rightarrow> zstream \<Rightarrow> nat" where
  "root_entry table b z = at table (low_bits b z)"

definition second_entry :: "nat list \<Rightarrow> nat \<Rightarrow> zstream \<Rightarrow> nat" where
  "second_entry table e z =
     at table (entry_val e + low_bits (entry_bits e + entry_op e) z div 2 ^ entry_bits e)"

section \<open>Tables, window, checks\<close>

definition fixed_lens :: "nat list" where
  "fixed_lens = replicate 144 8 @ replicate 112 9 @ replicate 24 7 @ replicate 8 8"

definition fixed_lencode :: "nat list" where
  "fixed_lencode = tr_table (inflate_table 1 fixed_lens (replicate 512 0) (replicate 288 0) 9)"

definition fixed_distcode :: "nat list" where
  "fixed_distcode = tr_table (inflate_table 2 (replicate 32 5) (replicate 32 0) (replicate 288 0) 5)"

text \<open>
  \<open>Xe\<close> (\<open>fixedtables\<close>): the tables are global and built by the first call, which uses the state's scratch
  arrays \<open>lens\<close> and \<open>work\<close> for it; every reader of these fills them before.
\<close>

definition fixedtables :: "zstream \<Rightarrow> zstream" where
  "fixedtables z = z\<lparr>lencode := fixed_lencode, lenbits := 9, distcode := fixed_distcode, distbits := 5\<rparr>"

text \<open>\<open>window.set(src, pos)\<close>\<close>

definition set_at :: "nat \<Rightarrow> 'a list \<Rightarrow> 'a list \<Rightarrow> 'a list" where
  "set_at pos src xs = take pos xs @ src @ drop (pos + length src) xs"

text \<open>\<open>We\<close> (\<open>updatewindow\<close>): the last \<open>i\<close> bytes of \<open>e\<close> go into the window.\<close>

definition updatewindow :: "nat list \<Rightarrow> nat \<Rightarrow> zstream \<Rightarrow> zstream" where
  "updatewindow e i z0 =
     (let z = (case window z0 of
            None \<Rightarrow> z0\<lparr>wsize := 2 ^ wbits z0, wnext := 0, whave := 0, window := Some (replicate (2 ^ wbits z0) 0)\<rparr>
          | Some _ \<Rightarrow> z0);
          w = the (window z); a = length e
      in if wsize z \<le> i then
           z\<lparr>window := Some (set_at 0 (drop (a - wsize z) e) w), wnext := 0, whave := wsize z\<rparr>
         else
           let n = min (wsize z - wnext z) i;
               w' = set_at (wnext z) (take n (drop (a - i) e)) w
           in if i - n \<noteq> 0 then
                z\<lparr>window := Some (set_at 0 (drop (a - (i - n)) e) w'), wnext := i - n, whave := wsize z\<rparr>
              else
                z\<lparr>window := Some w', wnext := (if wnext z + n = wsize z then 0 else wnext z + n),
                  whave := (if whave z < wsize z then whave z + n else whave z)\<rparr>)"

definition last_bytes :: "nat \<Rightarrow> 'a list \<Rightarrow> 'a list" where
  "last_bytes n xs = drop (length xs - n) xs"

text \<open>The check over the bytes written since the last one: CRC-32 in a gzip stream, else Adler-32.\<close>

definition update_check :: "nat \<Rightarrow> zstream \<Rightarrow> zstream" where
  "update_check f z =
     (if has_bit (wrap z) 2 \<and> f \<noteq> 0 then
        let c = (if zflags z \<noteq> 0 then crc32 (zcheck z) (last_bytes f (outp z))
                 else adler32 (zcheck z) (last_bytes f (outp z)))
        in z\<lparr>zcheck := c, stream_adler := c\<rparr>
      else z)"

text \<open>\<open>Ne\<close> (\<open>zswap32\<close>)\<close>

definition zswap32 :: "nat \<Rightarrow> nat" where
  "zswap32 t = t div 16777216 mod 256 + t div 65536 mod 256 * 256 + t div 256 mod 256 * 65536 + t mod 256 * 16777216"

text \<open>The bytes \<open>A\<close> of the header that the header check runs over.\<close>

definition header_crc :: "nat \<Rightarrow> zstream \<Rightarrow> zstream" where
  "header_crc n z =
     (if has_bit (nat (zflags z)) 9 \<and> has_bit (wrap z) 2
      then z\<lparr>zcheck := crc32 (zcheck z) (map (\<lambda>k. hold z div 256 ^ k mod 256) [0..<n])\<rparr> else z)"

section \<open>The fast loop\<close>

text \<open>
  \<open>de\<close> (\<open>inflate_fast\<close>), run while at least six input bytes and 258 output bytes are left.  Its loops
  follow the tables, so it runs on fuel: \<open>None\<close> is a loop that has not ended.  \<open>Inr\<close> is the
  \<open>break t\<close>, \<open>Inl\<close> the next round.
\<close>

definition refill :: "nat \<Rightarrow> zstream \<Rightarrow> zstream" where
  "refill n z = (if bits z < n then pull_byte z else z)"

definition refill2 :: "zstream \<Rightarrow> zstream" where
  "refill2 z = (if bits z < 15 then pull_byte (pull_byte z) else z)"

text \<open>The loops \<open>e\<close> and \<open>a\<close>: through a second table until an entry that is none.\<close>

fun follow :: "nat \<Rightarrow> nat list \<Rightarrow> nat \<Rightarrow> zstream \<Rightarrow> (nat \<times> zstream) option" where
  "follow 0 table e z = None"
| "follow (Suc n) table e z =
     (let z = drop_bits (entry_bits e) z; oper = entry_op e in
      if oper \<noteq> 0 \<and> \<not> has_bit oper 4 \<and> \<not> has_bit oper 6
      then follow n table (at table (entry_val e + low_bits oper z)) z else Some (e, z))"

text \<open>A distance entry has no literals: an operation of 0 leads into the table once more.\<close>

fun follow_dist :: "nat \<Rightarrow> nat list \<Rightarrow> nat \<Rightarrow> zstream \<Rightarrow> (nat \<times> zstream) option" where
  "follow_dist 0 table e z = None"
| "follow_dist (Suc n) table e z =
     (let z = drop_bits (entry_bits e) z; oper = entry_op e in
      if \<not> has_bit oper 4 \<and> \<not> has_bit oper 6
      then follow_dist n table (at table (entry_val e + low_bits oper z)) z else Some (e, z))"

text \<open>\<open>do { n[r++] = w[u++] } while (--c)\<close> from the output itself, which may overlap, and from the window.\<close>

fun copy_out :: "nat \<Rightarrow> nat \<Rightarrow> nat list \<Rightarrow> nat list" where
  "copy_out 0 u xs = xs"
| "copy_out (Suc c) u xs = copy_out c (Suc u) (xs @ [at xs u])"

definition copy_window :: "nat \<Rightarrow> nat \<Rightarrow> nat list \<Rightarrow> nat list \<Rightarrow> nat list" where
  "copy_window c u w xs = xs @ map (\<lambda>k. at w (u + k)) [0..<c]"

definition window_bytes :: "zstream \<Rightarrow> nat list" where
  "window_bytes z = (case window z of None \<Rightarrow> [] | Some w \<Rightarrow> w)"

text \<open>
  The copy of a match of length \<open>k\<close> at distance \<open>v\<close>, with \<open>beg\<close> the output position at the start of the
  call; \<open>None\<close> when the distance reaches too far.  The last loop copies three bytes before it looks at the
  length.
\<close>

definition fast_copy :: "nat \<Rightarrow> nat \<Rightarrow> nat \<Rightarrow> zstream \<Rightarrow> nat list option" where
  "fast_copy beg k v z =
     (let n = next_out z; xs = outp z; p = n - beg; w = window_bytes z in
      if p < v then
        let p = v - p in
        if whave z < p \<and> sane z then None
        else if wnext z = 0 then
          let y = wsize z - p in
          if p < k then let xs = copy_window p y w xs in Some (copy_out (k - p) (length xs - v) xs)
          else Some (copy_window k y w xs)
        else if wnext z < p then
          let y = wsize z + wnext z - p; p = p - wnext z in
          if p < k then
            let xs = copy_window p y w xs; k = k - p in
            if wnext z < k then
              let xs = copy_window (wnext z) 0 w xs; k = k - wnext z in Some (copy_out k (length xs - v) xs)
            else Some (copy_window k 0 w xs)
          else Some (copy_window k y w xs)
        else
          let y = wnext z - p in
          if p < k then let xs = copy_window p y w xs in Some (copy_out (k - p) (length xs - v) xs)
          else Some (copy_window k y w xs)
      else Some (copy_out (if k < 3 then 4 else k) (n - v) xs))"

text \<open>\<open>avail_out\<close> is set when the loop is left.\<close>

definition fast_round :: "nat \<Rightarrow> nat \<Rightarrow> zstream \<Rightarrow> (zstream, zstream) sum option" where
  "fast_round fuel beg z0 =
     (let z = refill2 z0 in
      case follow fuel (lencode z) (at (lencode z) (low_bits (lenbits z) z)) z of
        None \<Rightarrow> None
      | Some (e, z) \<Rightarrow>
        (let oper = entry_op e in
         if oper = 0 then Some (Inl (z\<lparr>outp := outp z @ [entry_val e mod 256]\<rparr>))
         else if \<not> has_bit oper 4 then
           if has_bit oper 5 then Some (Inr (z\<lparr>zmode := M_TYPE\<rparr>))
           else Some (Inr (bad ''invalid literal/length code'' z))
         else
           let x = oper mod 16; z = (if x \<noteq> 0 then refill x z else z);
               k = entry_val e + low_bits x z; z = refill2 (drop_bits x z) in
           case follow_dist fuel (distcode z) (at (distcode z) (low_bits (distbits z) z)) z of
             None \<Rightarrow> None
           | Some (e, z) \<Rightarrow>
             (let oper = entry_op e in
              if \<not> has_bit oper 4 then Some (Inr (bad ''invalid distance code'' z))
              else
                let x = oper mod 16; z = refill x (refill x z); v = entry_val e + low_bits x z in
                if dmax z < v then Some (Inr (bad ''invalid distance too far back'' z))
                else
                  let z = drop_bits x z in
                  case fast_copy beg k v z of
                    None \<Rightarrow> Some (Inr (bad ''invalid distance too far back'' z))
                  | Some xs \<Rightarrow> Some (Inl (z\<lparr>outp := xs\<rparr>)))))"

text \<open>\<open>lim\<close> and \<open>stop\<close> are the input and output positions at which the loop is left.\<close>

fun fast_loop :: "nat \<Rightarrow> nat \<Rightarrow> nat \<Rightarrow> nat \<Rightarrow> zstream \<Rightarrow> zstream option" where
  "fast_loop 0 beg lim stop z = None"
| "fast_loop (Suc n) beg lim stop z =
     (case fast_round n beg z of
        None \<Rightarrow> None
      | Some (Inr z') \<Rightarrow> Some z'
      | Some (Inl z') \<Rightarrow> if next_in z' < lim \<and> next_out z' < stop then fast_loop n beg lim stop z' else Some z')"

definition inflate_fast :: "nat \<Rightarrow> nat \<Rightarrow> zstream \<Rightarrow> zstream option" where
  "inflate_fast fuel f z =
     (let n = next_out z in
      map_option (\<lambda>z'.
        z'\<lparr>next_in := next_in z' - bits z' div 8, hold := hold z' mod 2 ^ (bits z' mod 8), bits := bits z' mod 8,
          avail_out := avail_out z + n - next_out z'\<rparr>)
       (fast_loop fuel (n - (f - avail_out z)) (length (inp z) - 5) (n + (avail_out z - 257)) z))"

section \<open>The switch\<close>

text \<open>Modes of the zlib header and of the gzip header.\<close>

definition do_head :: "zstream \<Rightarrow> pass" where
  "do_head z =
     (if wrap z = 0 then Again (z\<lparr>zmode := M_TYPEDO\<rparr>)
      else need 16 z (\<lambda>z.
        if has_bit (wrap z) 1 \<and> hold z = 35615 then
          Again (init_bits (z\<lparr>wbits := (if wbits z = 0 then 15 else wbits z),
            zcheck := crc32 0 [hold z mod 256, hold z div 256 mod 256], zmode := M_FLAGS\<rparr>))
        else
          let z = z\<lparr>head := map_option (\<lambda>g. g\<lparr>hd_done := False\<rparr>) (head z)\<rparr> in
          if \<not> has_bit (wrap z) 0 \<or> (hold z mod 256 * 256 + hold z div 256) mod 31 \<noteq> 0 then
            Again (bad ''incorrect header check'' z)
          else if hold z mod 16 \<noteq> 8 then Again (bad ''unknown compression method'' z)
          else
            let z = drop_bits 4 z; y = 8 + hold z mod 16;
                z = z\<lparr>wbits := (if wbits z = 0 then y else wbits z)\<rparr> in
            if 15 < y \<or> wbits z < y then Again (bad ''invalid window size'' z)
            else
              Again (init_bits (z\<lparr>dmax := 2 ^ wbits z, zflags := 0, zcheck := 1, stream_adler := 1,
                zmode := (if has_bit (hold z) 9 then M_DICTID else M_TYPE)\<rparr>))))"

definition set_head :: "(gz_header \<Rightarrow> gz_header) \<Rightarrow> zstream \<Rightarrow> zstream" where
  "set_head g z = z\<lparr>head := map_option g (head z)\<rparr>"

definition do_flags :: "zstream \<Rightarrow> pass" where
  "do_flags z = need 16 z (\<lambda>z.
     let z = z\<lparr>zflags := int (hold z)\<rparr> in
     if hold z mod 256 \<noteq> 8 then Again (bad ''unknown compression method'' z)
     else if hold z div 8192 mod 8 \<noteq> 0 then Again (bad ''unknown header flags set'' z)
     else Again (init_bits ((header_crc 2 (set_head (\<lambda>g. g\<lparr>hd_text := hold z div 256 mod 2\<rparr>) z))\<lparr>zmode := M_TIME\<rparr>)))"

definition do_time :: "zstream \<Rightarrow> pass" where
  "do_time z = need 32 z (\<lambda>z.
     Again (init_bits ((header_crc 4 (set_head (\<lambda>g. g\<lparr>hd_time := hold z\<rparr>) z))\<lparr>zmode := M_OS\<rparr>)))"

definition do_os :: "zstream \<Rightarrow> pass" where
  "do_os z = need 16 z (\<lambda>z.
     Again (init_bits ((header_crc 2 (set_head (\<lambda>g. g\<lparr>hd_xflags := hold z mod 256, hd_os := hold z div 256\<rparr>) z))
       \<lparr>zmode := M_EXLEN\<rparr>)))"

definition do_exlen :: "zstream \<Rightarrow> pass" where
  "do_exlen z =
     (if has_bit (nat (zflags z)) 10 then need 16 z (\<lambda>z.
        Again (init_bits ((header_crc 2 (set_head (\<lambda>g. g\<lparr>hd_extra_len := hold z\<rparr>) (z\<lparr>zlength := hold z\<rparr>)))
          \<lparr>zmode := M_EXTRA\<rparr>)))
      else Again ((set_head (\<lambda>g. g\<lparr>hd_extra := None\<rparr>) z)\<lparr>zmode := M_EXTRA\<rparr>))"

text \<open>Bytes of the header taken off the input as they are, with the header check over them.\<close>

definition take_header :: "nat \<Rightarrow> zstream \<Rightarrow> zstream" where
  "take_header c z =
     (let bs = take c (drop (next_in z) (inp z)) in
      z\<lparr>zcheck := (if has_bit (nat (zflags z)) 9 \<and> has_bit (wrap z) 2 then crc32 (zcheck z) bs else zcheck z),
        next_in := next_in z + c\<rparr>)"

definition do_extra :: "zstream \<Rightarrow> pass" where
  "do_extra z =
     (let z = (if has_bit (nat (zflags z)) 10 then
            let c = min (zlength z) (avail_in z) in
            if c \<noteq> 0 then
              let z = set_head (\<lambda>g.
                  let ex = (case hd_extra g of None \<Rightarrow> replicate (hd_extra_len g) 0 | Some ex \<Rightarrow> ex) in
                  g\<lparr>hd_extra := Some (set_at (hd_extra_len g - zlength z) (take c (drop (next_in z) (inp z))) ex)\<rparr>) z
              in (take_header c z)\<lparr>zlength := zlength z - c\<rparr>
            else z
          else z)
      in if has_bit (nat (zflags z)) 10 \<and> zlength z \<noteq> 0 then Leave 0 z
         else Again (z\<lparr>zlength := 0, zmode := M_NAME\<rparr>))"

text \<open>A text that ends in 0: what stands before the end of the text or of the input, and whether it ended.\<close>

definition zero_text :: "zstream \<Rightarrow> nat list \<times> bool" where
  "zero_text z =
     (let rest = drop (next_in z) (inp z); t = takeWhile (\<lambda>y. y \<noteq> 0) rest in (t, length t < length rest))"

definition do_text :: "nat \<Rightarrow> (nat list \<Rightarrow> gz_header \<Rightarrow> gz_header) \<Rightarrow> (gz_header \<Rightarrow> gz_header) \<Rightarrow> mode \<Rightarrow> zstream \<Rightarrow> pass" where
  "do_text flag add none m z =
     (if has_bit (nat (zflags z)) flag then
        if avail_in z = 0 then Leave 0 z
        else case zero_text z of (t, ended) \<Rightarrow>
          let z = take_header (length t + (if ended then 1 else 0)) (set_head (add t) z) in
          if \<not> ended then Leave 0 z else Again (z\<lparr>zlength := 0, zmode := m\<rparr>)
      else Again ((set_head none z)\<lparr>zlength := 0, zmode := m\<rparr>))"

text \<open>A name or comment that is absent (\<open>null\<close>) is never extended.\<close>

definition do_name :: "zstream \<Rightarrow> pass" where
  "do_name = do_text 11 (\<lambda>t g. g\<lparr>hd_name := map_option (\<lambda>n. n @ t) (hd_name g)\<rparr>) (\<lambda>g. g\<lparr>hd_name := None\<rparr>) M_COMMENT"

text \<open>The comment does not reset \<open>length\<close>, which is 0 here.\<close>

definition do_comment :: "zstream \<Rightarrow> pass" where
  "do_comment = do_text 12 (\<lambda>t g. g\<lparr>hd_comment := map_option (\<lambda>n. n @ t) (hd_comment g)\<rparr>) (\<lambda>g. g\<lparr>hd_comment := None\<rparr>) M_HCRC"

definition end_header :: "zstream \<Rightarrow> zstream" where
  "end_header z = (set_head (\<lambda>g. g\<lparr>hd_hcrc := nat (zflags z) div 512 mod 2, hd_done := True\<rparr>) z)
     \<lparr>zcheck := 0, stream_adler := 0, zmode := M_TYPE\<rparr>"

definition do_hcrc :: "zstream \<Rightarrow> pass" where
  "do_hcrc z =
     (if has_bit (nat (zflags z)) 9 then need 16 z (\<lambda>z.
        if has_bit (wrap z) 2 \<and> hold z \<noteq> zcheck z mod 65536 then Again (bad ''header crc mismatch'' z)
        else Again (end_header (init_bits z)))
      else Again (end_header z))"

definition do_dictid :: "zstream \<Rightarrow> pass" where
  "do_dictid z = need 32 z (\<lambda>z.
     Again (init_bits (z\<lparr>zcheck := zswap32 (hold z), stream_adler := zswap32 (hold z), zmode := M_DICT\<rparr>)))"

definition do_dict :: "zstream \<Rightarrow> pass" where
  "do_dict z =
     (if \<not> havedict z then Return 2 z else Again (z\<lparr>zcheck := 1, stream_adler := 1, zmode := M_TYPE\<rparr>))"

text \<open>Modes of a block.  \<open>fl\<close> is the flush argument: 5 is \<open>Z_BLOCK\<close>, 6 is \<open>Z_TREES\<close>.\<close>

definition do_type :: "nat \<Rightarrow> zstream \<Rightarrow> pass" where
  "do_type fl z = (if fl = 5 \<or> fl = 6 then Leave 0 z else Again (z\<lparr>zmode := M_TYPEDO\<rparr>))"

definition do_typedo :: "nat \<Rightarrow> zstream \<Rightarrow> pass" where
  "do_typedo fl z =
     (if zlast z \<noteq> 0 then Again ((drop_bits (bits z mod 8) z)\<lparr>zmode := M_CHECK\<rparr>)
      else need 3 z (\<lambda>z.
        let z = drop_bits 1 (z\<lparr>zlast := hold z mod 2\<rparr>); k = hold z mod 4 in
        if k = 0 then Again (drop_bits 2 (z\<lparr>zmode := M_STORED\<rparr>))
        else if k = 1 then
          let z = drop_bits 2 ((fixedtables z)\<lparr>zmode := M_LEN_START\<rparr>) in (if fl = 6 then Leave 0 z else Again z)
        else if k = 2 then Again (drop_bits 2 (z\<lparr>zmode := M_TABLE\<rparr>))
        else Again (drop_bits 2 (bad ''invalid block type'' z))))"

definition do_stored :: "nat \<Rightarrow> zstream \<Rightarrow> pass" where
  "do_stored fl z = need 32 (drop_bits (bits z mod 8) z) (\<lambda>z.
     if hold z mod 65536 \<noteq> 65535 - hold z div 65536 mod 65536 then Again (bad ''invalid stored block lengths'' z)
     else
       let z = init_bits (z\<lparr>zlength := hold z mod 65536, zmode := M_COPY_START\<rparr>) in
       if fl = 6 then Leave 0 z else Again z)"

definition do_copy :: "zstream \<Rightarrow> pass" where
  "do_copy z =
     (if zlength z \<noteq> 0 then
        let c = min (min (zlength z) (avail_in z)) (avail_out z) in
        if c = 0 then Leave 0 z
        else Again (z\<lparr>outp := outp z @ take c (drop (next_in z) (inp z)), next_in := next_in z + c,
               avail_out := avail_out z - c, zlength := zlength z - c\<rparr>)
      else Again (z\<lparr>zmode := M_TYPE\<rparr>))"

definition do_table :: "zstream \<Rightarrow> pass" where
  "do_table z = need 14 z (\<lambda>z.
     let z = drop_bits 5 (z\<lparr>nlen := 257 + hold z mod 32\<rparr>);
         z = drop_bits 5 (z\<lparr>ndist := 1 + hold z mod 32\<rparr>);
         z = drop_bits 4 (z\<lparr>ncode := 4 + hold z mod 16\<rparr>) in
     if 286 < nlen z \<or> 30 < ndist z then Again (bad ''too many length or distance symbols'' z)
     else Again (z\<lparr>got := 0, zmode := M_LENLENS\<rparr>))"

definition code_order :: "nat list" where
  "code_order = [16,17,18,0,8,7,9,6,10,5,11,4,12,3,13,2,14,1,15]"

text \<open>The lengths of the code length codes; the flag is \<open>False\<close> when the input ran out.\<close>

function read_code_lens :: "zstream \<Rightarrow> bool \<times> zstream" where
  "read_code_lens z =
     (if got z < ncode z then
        (case pull 3 z of
           (False, z') \<Rightarrow> (False, z')
         | (True, z') \<Rightarrow>
             read_code_lens (drop_bits 3 (z\<lparr>hold := hold z', bits := bits z', next_in := next_in z',
               lens := (lens z)[at code_order (got z) := hold z' mod 8], got := got z + 1\<rparr>)))
      else (True, z))"
  by pat_completeness auto
termination
  by (relation "measure (\<lambda>z. ncode z - got z)") (auto simp: drop_bits_def)

declare read_code_lens.simps [simp del]

definition do_lenlens :: "zstream \<Rightarrow> pass" where
  "do_lenlens z =
     (case read_code_lens z of
        (False, z) \<Rightarrow> Leave 0 z
      | (True, z) \<Rightarrow>
          let ls = foldl (\<lambda>ls k. ls[at code_order k := 0]) (lens z) [got z..<19];
              r = inflate_table 0 (take 19 ls) (lendyn z) (work z) 7;
              z = z\<lparr>lens := ls, lencode := tr_table r, lendyn := tr_table r, work := tr_work r, lenbits := tr_bits r,
                    got := max 19 (got z)\<rparr>
          in if tr_ret r \<noteq> 0 then Again (bad ''invalid code lengths set'' z)
             else Again (z\<lparr>got := 0, zmode := M_CODELENS\<rparr>))"

text \<open>The repetitions of lengths: symbol, extra bits, and how long a run is.\<close>

definition set_lens :: "nat \<Rightarrow> nat \<Rightarrow> zstream \<Rightarrow> zstream" where
  "set_lens c y z = z\<lparr>lens := foldl (\<lambda>ls k. ls[k := y]) (lens z) [got z..<got z + c], got := got z + c\<rparr>"

text \<open>The next round, \<open>break t\<close> for want of input, or an error that ends the loop.\<close>

datatype lens_pass = Lens_go zstream | Lens_starved zstream | Lens_bad zstream

definition repeat_lens :: "nat \<Rightarrow> nat \<Rightarrow> nat \<Rightarrow> nat \<Rightarrow> nat \<Rightarrow> zstream \<Rightarrow> lens_pass" where
  "repeat_lens m y c0 k total_lens z =
     (let c = c0 + low_bits k z; z = drop_bits k z in
      if total_lens < got z + c then Lens_bad (bad ''invalid bit length repeat'' z) else Lens_go (set_lens c y z))"

definition lens_round :: "zstream \<Rightarrow> lens_pass" where
  "lens_round z =
     (case pull_entry (\<lambda>z. root_entry (lencode z) (lenbits z) z) 0 z of
        (None, z) \<Rightarrow> Lens_starved z
      | (Some e, z) \<Rightarrow>
          let m = entry_bits e; g = entry_val e in
          if g < 16 then Lens_go (set_lens 1 g (drop_bits m z))
          else
            let k = (if g = 16 then 2 else if g = 17 then 3 else 7) in
            (case pull (m + k) z of
               (False, z) \<Rightarrow> Lens_starved z
             | (True, z) \<Rightarrow>
                 let z = drop_bits m z in
                 if g = 16 \<and> got z = 0 then Lens_bad (bad ''invalid bit length repeat'' z)
                 else repeat_lens m (if g = 16 then at (lens z) (got z - 1) else 0) (if g = 16 \<or> g = 17 then 3 else 11) k
                        (nlen z + ndist z) z))"

text \<open>Taking bytes off the input changes the bit buffer and the input position only.\<close>

definition same_but_bits :: "zstream \<Rightarrow> zstream \<Rightarrow> bool" where
  "same_but_bits z z' \<longleftrightarrow> (\<exists>h b i. z' = z\<lparr>hold := h, bits := b, next_in := i\<rparr>)"

lemma same_but_bits_refl [simp]: "same_but_bits z z"
  unfolding same_but_bits_def by (rule exI [of _ "hold z"], rule exI [of _ "bits z"], rule exI [of _ "next_in z"]) simp

lemma same_but_bits_trans: "same_but_bits z z' \<Longrightarrow> same_but_bits z' z'' \<Longrightarrow> same_but_bits z z''"
  unfolding same_but_bits_def by (elim exE, intro exI) simp

lemma same_but_bits_basic: "same_but_bits z (pull_byte z)" "same_but_bits z (drop_bits n z)"
proof -
  show "same_but_bits z (pull_byte z)" unfolding same_but_bits_def pull_byte_def by blast
  have "drop_bits n z = z\<lparr>hold := hold z div 2 ^ n, bits := bits z - n, next_in := next_in z\<rparr>"
    by (simp add: drop_bits_def)
  then show "same_but_bits z (drop_bits n z)" unfolding same_but_bits_def by blast
qed

lemma pull_same: "pull n z = (b, z') \<Longrightarrow> same_but_bits z z'"
proof (induction n z rule: pull.induct)
  case (1 n z)
  show ?case
  proof (cases "n \<le> bits z \<or> avail_in z = 0")
    case True
    then show ?thesis using 1(2) by (auto simp: pull.simps [of n z] split: if_splits)
  next
    case False
    then have "same_but_bits (pull_byte z) z'" using 1 by (simp add: pull.simps [of n z])
    then show ?thesis by (rule same_but_bits_trans [OF same_but_bits_basic(1)])
  qed
qed

lemma pull_entry_same: "pull_entry look k z = (e, z') \<Longrightarrow> same_but_bits z z'"
proof (induction look k z rule: pull_entry.induct)
  case (1 look k z)
  show ?case
  proof (cases "k + entry_bits (look z) \<le> bits z \<or> avail_in z = 0")
    case True
    then show ?thesis using 1(2) by (auto simp: pull_entry.simps [of look k z] split: if_splits)
  next
    case False
    then have "same_but_bits (pull_byte z) z'" using 1 by (simp add: pull_entry.simps [of look k z])
    then show ?thesis by (rule same_but_bits_trans [OF same_but_bits_basic(1)])
  qed
qed

lemma same_but_bits_fields:
  assumes "same_but_bits z z'"
  shows "got z' = got z" "nlen z' = nlen z" "ndist z' = ndist z" "ncode z' = ncode z" "lens z' = lens z"
    "zmode z' = zmode z" "outp z' = outp z" "avail_out z' = avail_out z" "inp z' = inp z"
  using assms unfolding same_but_bits_def by auto

lemma lens_round_progress:
  assumes "lens_round z = Lens_go z'"
  shows "got z < got z' \<and> nlen z' = nlen z \<and> ndist z' = ndist z"
proof -
  obtain eo u where p: "pull_entry (\<lambda>z. root_entry (lencode z) (lenbits z) z) 0 z = (eo, u)"
    by (cases "pull_entry (\<lambda>z. root_entry (lencode z) (lenbits z) z) 0 z")
  note u = same_but_bits_fields(1-3) [OF pull_entry_same [OF p]]
  obtain e where e: "eo = Some e" using assms p by (cases eo) (simp_all add: lens_round_def)
  show ?thesis
  proof (cases "entry_val e < 16")
    case True
    then show ?thesis
      using assms p e u by (auto simp: lens_round_def Let_def set_lens_def drop_bits_def)
  next
    case False
    define k where "k = (if entry_val e = 16 then 2 else if entry_val e = 17 then 3 else 7 :: nat)"
    obtain b v where v: "pull (entry_bits e + k) u = (b, v)" by (cases "pull (entry_bits e + k) u")
    note vf = same_but_bits_fields(1-3) [OF pull_same [OF v]]
    show ?thesis
      using assms p e u vf v False
      by (auto simp: lens_round_def Let_def repeat_lens_def set_lens_def drop_bits_def k_def split: if_splits bool.splits)
  qed
qed

function read_lens :: "zstream \<Rightarrow> lens_pass" where
  "read_lens z =
     (if got z < nlen z + ndist z then
        (case lens_round z of Lens_go z' \<Rightarrow> read_lens z' | r \<Rightarrow> r)
      else Lens_go z)"
  by pat_completeness auto
termination
  by (relation "measure (\<lambda>z. nlen z + ndist z - got z)") (auto dest!: lens_round_progress)

declare read_lens.simps [simp del]

definition do_codelens :: "nat \<Rightarrow> zstream \<Rightarrow> pass" where
  "do_codelens fl z =
     (case read_lens z of
        Lens_starved z \<Rightarrow> Leave 0 z
      | Lens_bad z \<Rightarrow> Again z
      | Lens_go z \<Rightarrow>
          if at (lens z) 256 = 0 then Again (bad ''invalid code -- missing end-of-block'' z)
          else
            let r = inflate_table 1 (take (nlen z) (lens z)) (lencode z) (work z) 9;
                z = z\<lparr>lencode := tr_table r, lendyn := tr_table r, work := tr_work r, lenbits := tr_bits r\<rparr>
            in if tr_ret r \<noteq> 0 then Again (bad ''invalid literal/lengths set'' z)
               else
                 let r = inflate_table 2 (take (ndist z) (drop (nlen z) (lens z))) (distdyn z) (work z) 6;
                     z = z\<lparr>distcode := tr_table r, distdyn := tr_table r, work := tr_work r, distbits := tr_bits r\<rparr>
                 in if tr_ret r \<noteq> 0 then Again (bad ''invalid distances set'' z)
                    else
                      let z = z\<lparr>zmode := M_LEN_START\<rparr> in if fl = 6 then Leave 0 z else Again z)"

text \<open>
  A symbol of the literal and length code, or the fast loop when there is room; \<open>f\<close> is the room in the
  output at the last check.
\<close>

definition do_len :: "nat \<Rightarrow> nat \<Rightarrow> zstream \<Rightarrow> pass" where
  "do_len fuel f z =
     (if 6 \<le> avail_in z \<and> 258 \<le> avail_out z then
        (case inflate_fast fuel f z of
           None \<Rightarrow> Endless z
         | Some z \<Rightarrow> Again (if zmode z = M_TYPE then z\<lparr>zback := -1\<rparr> else z))
      else
        (case pull_entry (\<lambda>z. root_entry (lencode z) (lenbits z) z) 0 (z\<lparr>zback := 0\<rparr>) of
           (None, z) \<Rightarrow> Leave 0 z
         | (Some e0, z) \<Rightarrow>
             (case (if entry_op e0 \<noteq> 0 \<and> entry_op e0 div 16 = 0
                    then (case pull_entry (second_entry (lencode z) e0) (entry_bits e0) z of
                            (None, z) \<Rightarrow> (None, z)
                          | (Some e, z) \<Rightarrow>
                              (Some e, (drop_bits (entry_bits e0) z)\<lparr>zback := zback z + int (entry_bits e0)\<rparr>))
                    else (Some e0, z)) of
                (None, z) \<Rightarrow> Leave 0 z
              | (Some e, z) \<Rightarrow>
                  let z = (drop_bits (entry_bits e) z)\<lparr>zback := zback z + int (entry_bits e), zlength := entry_val e\<rparr>;
                      oper = entry_op e in
                  if oper = 0 then Again (z\<lparr>zmode := M_LIT\<rparr>)
                  else if has_bit oper 5 then Again (z\<lparr>zback := -1, zmode := M_TYPE\<rparr>)
                  else if has_bit oper 6 then Again (bad ''invalid literal/length code'' z)
                  else Again (z\<lparr>extra := oper mod 16, zmode := M_LENEXT\<rparr>))))"

definition do_lenext :: "zstream \<Rightarrow> pass" where
  "do_lenext z =
     (let fin = (\<lambda>z. Again (z\<lparr>was := zlength z, zmode := M_DIST\<rparr>)) in
      if extra z \<noteq> 0 then need (extra z) z (\<lambda>z.
        fin ((drop_bits (extra z) z)\<lparr>zlength := zlength z + low_bits (extra z) z, zback := zback z + int (extra z)\<rparr>))
      else fin z)"

definition do_dist :: "zstream \<Rightarrow> pass" where
  "do_dist z =
     (case pull_entry (\<lambda>z. root_entry (distcode z) (distbits z) z) 0 z of
        (None, z) \<Rightarrow> Leave 0 z
      | (Some e0, z) \<Rightarrow>
          (case (if entry_op e0 div 16 = 0
                 then (case pull_entry (second_entry (distcode z) e0) (entry_bits e0) z of
                         (None, z) \<Rightarrow> (None, z)
                       | (Some e, z) \<Rightarrow>
                           (Some e, (drop_bits (entry_bits e0) z)\<lparr>zback := zback z + int (entry_bits e0)\<rparr>))
                 else (Some e0, z)) of
             (None, z) \<Rightarrow> Leave 0 z
           | (Some e, z) \<Rightarrow>
               let z = (drop_bits (entry_bits e) z)\<lparr>zback := zback z + int (entry_bits e)\<rparr>; oper = entry_op e in
               if has_bit oper 6 then Again (bad ''invalid distance code'' z)
               else Again (z\<lparr>offset := entry_val e, extra := oper mod 16, zmode := M_DISTEXT\<rparr>)))"

definition do_distext :: "zstream \<Rightarrow> pass" where
  "do_distext z =
     (let fin = (\<lambda>z. if dmax z < offset z then Again (bad ''invalid distance too far back'' z)
                     else Again (z\<lparr>zmode := M_MATCH\<rparr>)) in
      if extra z \<noteq> 0 then need (extra z) z (\<lambda>z.
        fin ((drop_bits (extra z) z)\<lparr>offset := offset z + low_bits (extra z) z, zback := zback z + int (extra z)\<rparr>))
      else fin z)"

text \<open>\<open>do { .. } while (--c)\<close> with \<open>c = 0\<close> does not end.\<close>

definition do_match :: "nat \<Rightarrow> zstream \<Rightarrow> pass" where
  "do_match f z =
     (if avail_out z = 0 then Leave 0 z
      else
        let c0 = f - avail_out z in
        if c0 < offset z \<and> whave z < offset z - c0 \<and> sane z then Again (bad ''invalid distance too far back'' z)
        else
          let (from_window, u, c) =
                (if c0 < offset z then
                   let c = offset z - c0 in
                   if wnext z < c then (True, wsize z - (c - wnext z), min (c - wnext z) (zlength z))
                   else (True, wnext z - c, min c (zlength z))
                 else (False, next_out z - offset z, zlength z));
              c = min c (avail_out z)
          in if c = 0 then Endless z
             else
               let xs = (if from_window then copy_window c u (window_bytes z) (outp z) else copy_out c u (outp z));
                   k = zlength z - c
               in Again (z\<lparr>outp := xs, avail_out := avail_out z - c, zlength := k,
                      zmode := (if k = 0 then M_LEN else zmode z)\<rparr>))"

definition do_lit :: "zstream \<Rightarrow> pass" where
  "do_lit z =
     (if avail_out z = 0 then Leave 0 z
      else Again (z\<lparr>outp := outp z @ [zlength z mod 256], avail_out := avail_out z - 1, zmode := M_LEN\<rparr>))"

definition do_check :: "zstream \<Rightarrow> pass" where
  "do_check z =
     (if wrap z \<noteq> 0 then need 32 z (\<lambda>z.
        let f = room z - avail_out z;
            z = (update_check f (z\<lparr>total_out := total_out z + f, total := total z + f\<rparr>))\<lparr>room := avail_out z\<rparr> in
        if has_bit (wrap z) 2 \<and> (if zflags z \<noteq> 0 then hold z else zswap32 (hold z)) \<noteq> zcheck z
        then Again (bad ''incorrect data check'' z)
        else Again ((init_bits z)\<lparr>zmode := M_LENGTH\<rparr>))
      else Again (z\<lparr>zmode := M_LENGTH\<rparr>))"

definition do_length :: "zstream \<Rightarrow> pass" where
  "do_length z =
     (if wrap z \<noteq> 0 \<and> zflags z \<noteq> 0 then need 32 z (\<lambda>z.
        if has_bit (wrap z) 2 \<and> hold z \<noteq> total z mod 4294967296 then Again (bad ''incorrect length check'' z)
        else Again ((init_bits z)\<lparr>zmode := M_DONE\<rparr>))
      else Again (z\<lparr>zmode := M_DONE\<rparr>))"

definition step :: "nat \<Rightarrow> nat \<Rightarrow> zstream \<Rightarrow> pass" where
  "step fuel fl z =
     (case zmode z of
        M_HEAD \<Rightarrow> do_head z | M_FLAGS \<Rightarrow> do_flags z | M_TIME \<Rightarrow> do_time z | M_OS \<Rightarrow> do_os z
      | M_EXLEN \<Rightarrow> do_exlen z | M_EXTRA \<Rightarrow> do_extra z | M_NAME \<Rightarrow> do_name z | M_COMMENT \<Rightarrow> do_comment z
      | M_HCRC \<Rightarrow> do_hcrc z | M_DICTID \<Rightarrow> do_dictid z | M_DICT \<Rightarrow> do_dict z
      | M_TYPE \<Rightarrow> do_type fl z | M_TYPEDO \<Rightarrow> do_typedo fl z | M_STORED \<Rightarrow> do_stored fl z
      | M_COPY_START \<Rightarrow> Again (z\<lparr>zmode := M_COPY\<rparr>) | M_COPY \<Rightarrow> do_copy z | M_TABLE \<Rightarrow> do_table z
      | M_LENLENS \<Rightarrow> do_lenlens z | M_CODELENS \<Rightarrow> do_codelens fl z
      | M_LEN_START \<Rightarrow> Again (z\<lparr>zmode := M_LEN\<rparr>) | M_LEN \<Rightarrow> do_len fuel (room z) z
      | M_LENEXT \<Rightarrow> do_lenext z | M_DIST \<Rightarrow> do_dist z | M_DISTEXT \<Rightarrow> do_distext z
      | M_MATCH \<Rightarrow> do_match (room z) z | M_LIT \<Rightarrow> do_lit z
      | M_CHECK \<Rightarrow> do_check z | M_LENGTH \<Rightarrow> do_length z
      | M_DONE \<Rightarrow> Leave 1 z | M_BAD \<Rightarrow> Leave (-3) z | M_MEM \<Rightarrow> Return (-4) z)"

text \<open>\<open>for (;;) switch\<close>: the loop follows the stream and runs on fuel; \<open>Endless\<close> is a loop that has not ended.\<close>

fun passes :: "nat \<Rightarrow> nat \<Rightarrow> zstream \<Rightarrow> pass" where
  "passes 0 fl z = Endless z"
| "passes (Suc n) fl z = (case step n fl z of Again z' \<Rightarrow> passes n fl z' | r \<Rightarrow> r)"

section \<open>The call\<close>

text \<open>What follows \<open>break t\<close>; \<open>i0\<close> is the input that was there when the call began.\<close>

definition finish :: "nat \<Rightarrow> nat \<Rightarrow> int \<Rightarrow> zstream \<Rightarrow> int \<times> zstream" where
  "finish fl i0 x z =
     (let z = (if wsize z \<noteq> 0 \<or> (room z \<noteq> avail_out z \<and> mode_number (zmode z) < 16209 \<and>
                 (mode_number (zmode z) < 16206 \<or> fl \<noteq> 4))
               then updatewindow (outp z) (room z - avail_out z) z else z);
          i = i0 - avail_in z; f = room z - avail_out z;
          z = update_check f (z\<lparr>total_in := total_in z + i, total_out := total_out z + f, total := total z + f\<rparr>)
      in (if ((i = 0 \<and> f = 0) \<or> fl = 4) \<and> x = 0 then -5 else x, z))"

definition inflate :: "nat \<Rightarrow> nat \<Rightarrow> zstream \<Rightarrow> (int \<times> zstream) option" where
  "inflate fuel fl z0 =
     (let z = z0\<lparr>zmode := (if zmode z0 = M_TYPE then M_TYPEDO else zmode z0), room := avail_out z0\<rparr> in
      case passes fuel fl z of
        Leave x z \<Rightarrow> Some (finish fl (avail_in z0) x z)
      | Return x z \<Rightarrow> Some (x, z)
      | _ \<Rightarrow> None)"

section \<open>Reset and initialisation\<close>

definition inflateResetKeep :: "zstream \<Rightarrow> zstream" where
  "inflateResetKeep z =
     z\<lparr>total_in := 0, total_out := 0, total := 0, msg := [],
       stream_adler := (if wrap z \<noteq> 0 then wrap z mod 2 else stream_adler z),
       zmode := M_HEAD, zlast := 0, havedict := False, zflags := -1, dmax := 32768, head := None,
       hold := 0, bits := 0, lencode := replicate 852 0, lendyn := replicate 852 0,
       distcode := replicate 592 0, distdyn := replicate 592 0, sane := True, zback := -1\<rparr>"

definition inflateReset :: "zstream \<Rightarrow> zstream" where
  "inflateReset z = inflateResetKeep (z\<lparr>wsize := 0, whave := 0, wnext := 0\<rparr>)"

text \<open>\<open>je\<close>: \<open>None\<close> is the return of \<open>Z_STREAM_ERROR\<close>.\<close>

definition inflateReset2 :: "int \<Rightarrow> zstream \<Rightarrow> zstream option" where
  "inflateReset2 e z =
     (let a = (if e < 0 then 0 else 5 + e div 16);
          e = (if e < 0 then - e else if e < 48 then e mod 16 else e)
      in if e \<noteq> 0 \<and> (e < 8 \<or> 15 < e) then None
         else Some (inflateReset (z\<lparr>window := (if window z \<noteq> None \<and> int (wbits z) \<noteq> e then None else window z),
                wrap := nat a, wbits := nat e\<rparr>)))"

definition new_stream :: zstream where
  "new_stream =
     \<lparr>inp = [], next_in = 0, total_in = 0, outp = [], avail_out = 0, total_out = 0, msg = [], stream_adler = 0,
      zmode = M_HEAD, zlast = 0, wrap = 0, havedict = False, zflags = 0, dmax = 0, zcheck = 0, total = 0, head = None,
      wbits = 0, wsize = 0, whave = 0, wnext = 0, window = None, hold = 0, bits = 0, zlength = 0, offset = 0,
      extra = 0, lencode = [], distcode = [], lenbits = 0, distbits = 0, ncode = 0, nlen = 0, ndist = 0, got = 0,
      lens = replicate 320 0, work = replicate 288 0, lendyn = [], distdyn = [], sane = False, zback = 0, was = 0,
      room = 0\<rparr>"

definition inflateInit2 :: "int \<Rightarrow> zstream option" where
  "inflateInit2 e = inflateReset2 e new_stream"

definition inflateGetHeader :: "zstream \<Rightarrow> zstream" where
  "inflateGetHeader z = (if has_bit (wrap z) 1 then z\<lparr>head := Some new_header\<rparr> else z)"

section \<open>pako.inflate\<close>

text \<open>
  The options that count for bytes in and bytes out: \<open>ra\<close> with \<open>windowBits\<close> and \<open>raw\<close> as the caller gave
  them (\<open>None\<close>: not given).
\<close>

definition window_bits :: "int option \<Rightarrow> bool \<Rightarrow> int" where
  "window_bits given raw =
     (let w = (case given of None \<Rightarrow> 15 | Some w \<Rightarrow> w);
          w = (if raw \<and> 0 \<le> w \<and> w < 16 then (if w = 0 then -15 else - w) else w);
          w = (if 0 \<le> w \<and> w < 16 \<and> \<not> (case given of None \<Rightarrow> False | Some g \<Rightarrow> g \<noteq> 0) then w + 32 else w)
      in if 15 < w \<and> w < 48 \<and> w mod 16 = 0 then w + 15 else w)"

record inflator =
  strm :: zstream
  chunks :: "nat list list"
  err :: int
  err_msg :: string
  ended :: bool
  inflated :: "nat list option"

definition Z_MESSAGE :: "int \<Rightarrow> string" where
  "Z_MESSAGE e =
     (if e = 2 then ''need dictionary'' else if e = 1 then ''stream end'' else if e = 0 then []
      else if e = -1 then ''file error'' else if e = -2 then ''stream error'' else if e = -3 then ''data error''
      else if e = -4 then ''insufficient memory'' else if e = -5 then ''buffer error'' else ''incompatible version'')"

definition new_inflator :: "int option \<Rightarrow> bool \<Rightarrow> inflator result" where
  "new_inflator given raw =
     (case inflateInit2 (window_bits given raw) of
        None \<Rightarrow> Inl (Runtime (Z_MESSAGE (-2)))
      | Some z \<Rightarrow> Inr \<lparr>strm = inflateGetHeader z, chunks = [], err = 0, err_msg = [], ended = False, inflated = None\<rparr>)"

definition onEnd :: "int \<Rightarrow> inflator \<Rightarrow> inflator" where
  "onEnd t a = a\<lparr>inflated := (if t = 0 then Some (concat (chunks a)) else inflated a), chunks := [], err := t,
     err_msg := msg (strm a), ended := True\<rparr>"

text \<open>\<open>for (; a.avail_in > 0 && s === Z_STREAM_END && a.state.wrap > 0 && 0 !== t[a.next_in];)\<close>\<close>

fun next_members :: "nat \<Rightarrow> nat \<Rightarrow> int \<times> zstream \<Rightarrow> (int \<times> zstream) option" where
  "next_members 0 fl r = None"
| "next_members (Suc n) fl r =
     (case r of (s, z) \<Rightarrow>
        if 0 < avail_in z \<and> s = 1 \<and> 0 < wrap z \<and> at (inp z) (next_in z) \<noteq> 0
        then (case inflate n fl (inflateReset z) of None \<Rightarrow> None | Some r \<Rightarrow> next_members n fl r)
        else Some (s, z))"

fun push_loop :: "nat \<Rightarrow> nat \<Rightarrow> inflator \<Rightarrow> (bool \<times> inflator) option" where
  "push_loop 0 chunkSize a = None"
| "push_loop (Suc n) chunkSize a =
     (let z = (if avail_out (strm a) = 0 then (strm a)\<lparr>outp := [], avail_out := chunkSize\<rparr> else strm a) in
      case Option.bind (inflate n 0 z) (next_members n 0) of
        None \<Rightarrow> None
      | Some (s, z) \<Rightarrow>
          let a = a\<lparr>strm := z\<rparr> in
          if s = -2 \<or> s = -3 \<or> s = 2 \<or> s = -4 then Some (False, onEnd s a)
          else
            let a = (if next_out z \<noteq> 0 \<and> (avail_out z = 0 \<or> s = 1) then a\<lparr>chunks := chunks a @ [outp z]\<rparr> else a) in
            if s = 1 then Some (True, onEnd 0 a)
            else if (s \<noteq> 0 \<or> avail_out z \<noteq> 0) \<and> avail_in z = 0 then Some (True, a)
            else push_loop n chunkSize a)"

definition push :: "nat \<Rightarrow> nat \<Rightarrow> nat list \<Rightarrow> inflator \<Rightarrow> (bool \<times> inflator) option" where
  "push fuel chunkSize t a =
     (if ended a then Some (False, a)
      else push_loop fuel chunkSize (a\<lparr>strm := (strm a)\<lparr>inp := t, next_in := 0\<rparr>\<rparr>))"

text \<open>
  \<open>oa\<close>, with \<open>windowBits\<close> and \<open>raw\<close> of its options: what it throws is a text; the result is \<open>undefined\<close>
  (\<open>None\<close>) when the stream has not ended.
\<close>

definition pako_run :: "nat \<Rightarrow> int option \<Rightarrow> bool \<Rightarrow> nat list \<Rightarrow> nat list option result" where
  "pako_run fuel given raw t =
     bindE (new_inflator given raw) (\<lambda>a.
     case push fuel 65536 t a of
       None \<Rightarrow> Inl (Undefined ''no end'')
     | Some (_, a) \<Rightarrow>
         if err a \<noteq> 0 then Inl (Runtime (if err_msg a \<noteq> [] then err_msg a else Z_MESSAGE (err a)))
         else Inr (inflated a))"

definition pako_inflate :: "nat \<Rightarrow> nat list \<Rightarrow> nat list option result" where
  "pako_inflate fuel t = pako_run fuel None False t"

definition pako_inflateRaw :: "nat \<Rightarrow> nat list \<Rightarrow> nat list option result" where
  "pako_inflateRaw fuel t = pako_run fuel None True t"

end
