(* ===== verification/Pako_Checks.thy ===== *)
theory Pako_Checks
  imports Pako_Table
begin

text \<open>
  The checksums of \<open>pako\<close> against their definitions: the loops with deferred reductions and cut sums, and
  the table-driven loop, give the Adler-32 and CRC-32 values of the zlib and gzip formats.
\<close>

section \<open>Adler-32\<close>

text \<open>The definition: both sums are reduced at every byte.\<close>

definition adler_fold :: "nat \<times> nat \<Rightarrow> nat list \<Rightarrow> nat \<times> nat" where
  "adler_fold = foldl (\<lambda>(n, s) b. ((n + b) mod 65521, (s + n + b) mod 65521))"

definition adler_reference :: "nat list \<Rightarrow> nat" where
  "adler_reference bs = (case adler_fold (1, 0) bs of (n, s) \<Rightarrow> n + s * 65536)"

text \<open>The sums of a chunk without reduction and without cuts.\<close>

definition adler_exact :: "nat \<times> nat \<Rightarrow> nat list \<Rightarrow> nat \<times> nat" where
  "adler_exact = foldl (\<lambda>(n, s) b. (n + b, s + (n + b)))"

lemma adler_simps [simp]:
  "adler_fold ns [] = ns"
  "adler_fold (n, s) (b # bs) = adler_fold ((n + b) mod 65521, (s + n + b) mod 65521) bs"
  "adler_exact ns [] = ns"
  "adler_exact (n, s) (b # bs) = adler_exact (n + b, s + (n + b)) bs"
  "adler_sums ms [] = ms"
  "adler_sums (m, t) (b # bs) = adler_sums (to_int32 (m + int b), to_int32 (t + to_int32 (m + int b))) bs"
  by (simp_all add: adler_fold_def adler_exact_def adler_sums_def Let_def)

lemma adler_fold_append: "adler_fold ns (xs @ ys) = adler_fold (adler_fold ns xs) ys"
  by (simp add: adler_fold_def)

lemma to_int32_small [simp]: "0 \<le> v \<Longrightarrow> v < 2147483648 \<Longrightarrow> to_int32 v = v"
  by (simp add: to_int32_def)

text \<open>The sums only grow, so a bound at the end is a bound everywhere.\<close>

lemma adler_exact_grows:
  "adler_exact (n, s) bs = (n', s') \<Longrightarrow> n \<le> n' \<and> s \<le> s'"
  by (induction bs arbitrary: n s) fastforce+

lemma adler_exact_bound:
  "list_all (\<lambda>b. b < 256) bs \<Longrightarrow> adler_exact (n, s) bs = (n', s') \<Longrightarrow>
   n' \<le> n + 255 * length bs \<and> s' \<le> s + length bs * (n + 255 * length bs)"
proof (induction bs arbitrary: n s)
  case Nil
  then show ?case by simp
next
  case (Cons b bs)
  define l where "l = length bs"
  have "n' \<le> n + b + 255 * l" "s' \<le> s + (n + b) + l * (n + b + 255 * l)"
    using Cons.IH [of "n + b" "s + (n + b)"] Cons.prems by (simp_all add: l_def)
  moreover have b: "b \<le> 255" using Cons.prems(1) by simp
  moreover have "(n + b) + l * (n + b + 255 * l) \<le> (n + 255) + l * (n + 255 + 255 * l)"
    using b by (intro add_mono mult_le_mono) simp_all
  moreover have "(n + 255) + l * (n + 255 + 255 * l) \<le> Suc l * (n + 255 * Suc l)"
    by (simp add: algebra_simps)
  ultimately show ?case by (simp add: l_def)
qed

lemma adler_sums_exact:
  assumes "adler_exact (n, s) bs = (n', s')" "n' < 2147483648" "s' < 2147483648"
  shows "adler_sums (int n, int s) bs = (int n', int s')"
  using assms
proof (induction bs arbitrary: n s)
  case Nil
  then show ?case by simp
next
  case (Cons b bs)
  have "n + b \<le> n'" "s + (n + b) \<le> s'"
    using adler_exact_grows [of "n + b" "s + (n + b)" bs n' s'] Cons.prems(1) by simp_all
  then have "to_int32 (int n + int b) = int (n + b)" "to_int32 (int s + int (n + b)) = int (s + (n + b))"
    using Cons.prems(2,3) to_int32_small [of "int (n + b)"] to_int32_small [of "int (s + (n + b))"] by simp_all
  moreover have "adler_sums (int (n + b), int (s + (n + b))) bs = (int n', int s')"
    using Cons.IH [of "n + b" "s + (n + b)"] Cons.prems by simp
  ultimately show ?case by (simp del: of_nat_add add: of_nat_add [symmetric])
qed

lemma adler_exact_fold:
  "adler_exact (n, s) bs = (n', s') \<Longrightarrow>
   adler_fold (n mod 65521, s mod 65521) bs = (n' mod 65521, s' mod 65521)"
proof (induction bs arbitrary: n s)
  case Nil
  then show ?case by simp
next
  case (Cons b bs)
  have "(n mod 65521 + b) mod 65521 = (n + b) mod 65521"
    "(s mod 65521 + n mod 65521 + b) mod 65521 = (s + (n + b)) mod 65521"
    by (rule mod_add_left_eq) (metis add.assoc mod_add_eq mod_add_left_eq)
  moreover have "adler_fold ((n + b) mod 65521, (s + (n + b)) mod 65521) bs = (n' mod 65521, s' mod 65521)"
    using Cons.IH [of "n + b" "s + (n + b)"] Cons.prems by simp
  ultimately show ?case by (simp only: adler_simps)
qed

text \<open>One chunk: at most 2000 bytes keep both sums below \<open>2 ^ 31\<close>, so nothing is cut.\<close>

lemma adler_chunk:
  assumes "list_all (\<lambda>b. b < 256) bs" "length bs \<le> 2000" "n < 65521" "s < 65521"
  shows "\<exists>n' s'. adler_sums (int n, int s) bs = (int n', int s') \<and>
    (n' mod 65521, s' mod 65521) = adler_fold (n, s) bs"
proof -
  obtain n' s' where e: "adler_exact (n, s) bs = (n', s')" by (cases "adler_exact (n, s) bs")
  have "length bs * (n + 255 * length bs) \<le> 2000 * (65520 + 255 * 2000)"
    using assms(2,3) by (intro mult_le_mono add_mono) simp_all
  then have "n' < 2147483648" "s' < 2147483648"
    using adler_exact_bound [OF assms(1) e] assms(2-4) by simp_all
  then show ?thesis
    using adler_sums_exact [OF e] adler_exact_fold [OF e] assms(3,4) by auto
qed

lemma js_rem_nat [simp]: "js_rem (int a) 65521 = int (a mod 65521)"
  by (simp add: js_rem_def zmod_int)

lemma adler_fold_less: "n < 65521 \<Longrightarrow> s < 65521 \<Longrightarrow> adler_fold (n, s) bs = (n', s') \<Longrightarrow> n' < 65521 \<and> s' < 65521"
proof (induction bs arbitrary: n s)
  case (Cons b bs)
  then show ?case using Cons.IH [of "(n + b) mod 65521" "(s + n + b) mod 65521"] by simp
qed simp

lemma adler_chunks_fold:
  assumes "list_all (\<lambda>b. b < 256) bs" "n < 65521" "s < 65521"
  shows "adler_chunks (int n, int s) bs = map_prod int int (adler_fold (n, s) bs)"
  using assms
proof (induction "length bs" arbitrary: bs n s rule: less_induct)
  case less
  show ?case
  proof (cases "bs = []")
    case True
    then show ?thesis by (simp add: adler_chunks.simps)
  next
    case False
    have a: "list_all (\<lambda>b. b < 256) (take 2000 bs)" "list_all (\<lambda>b. b < 256) (drop 2000 bs)"
      using less.prems(1) by (auto simp: list_all_iff dest: in_set_takeD in_set_dropD)
    obtain n' s' where c: "adler_sums (int n, int s) (take 2000 bs) = (int n', int s')"
      "(n' mod 65521, s' mod 65521) = adler_fold (n, s) (take 2000 bs)"
      using adler_chunk [OF a(1) _ less.prems(2,3)] by auto
    have "adler_fold (n, s) bs = adler_fold (n' mod 65521, s' mod 65521) (drop 2000 bs)"
      using adler_fold_append [of "(n, s)" "take 2000 bs" "drop 2000 bs"] c(2) by simp
    moreover have "adler_chunks (int (n' mod 65521), int (s' mod 65521)) (drop 2000 bs) =
        map_prod int int (adler_fold (n' mod 65521, s' mod 65521) (drop 2000 bs))"
      using less.hyps [OF _ a(2)] False by simp
    ultimately show ?thesis using False c(1) by (simp add: adler_chunks.simps [of "(int n, int s)"])
  qed
qed

lemma adler32_fold:
  assumes "list_all (\<lambda>b. b < 256) bs" "n < 65521" "s < 65521"
  shows "adler32 (n + s * 65536) bs = (case adler_fold (n, s) bs of (n', s') \<Rightarrow> n' + s' * 65536)"
proof -
  obtain n' s' where f: "adler_fold (n, s) bs = (n', s')" by (cases "adler_fold (n, s) bs")
  have "n' < 65521" "s' < 65521" using adler_fold_less [OF assms(2,3) f] by simp_all
  moreover have "(n + s * 65536) mod 65536 = n" "(n + s * 65536) div 65536 mod 65536 = s"
    using assms(2,3) by simp_all
  ultimately show ?thesis
    using adler_chunks_fold [OF assms] by (simp add: adler32_def f nat_add_distrib nat_mult_distrib)
qed

section \<open>CRC-32\<close>

text \<open>The definition: one bit at a time.\<close>

definition crc_bit :: "nat \<Rightarrow> nat" where
  "crc_bit t = (if odd t then Bit_Operations.xor 3988292384 (t div 2) else t div 2)"

definition crc_reference :: "nat list \<Rightarrow> nat" where
  "crc_reference bs = 4294967295 - foldl (\<lambda>t b. (crc_bit ^^ 8) (Bit_Operations.xor t b)) 4294967295 bs"

lemma crc_bit_xor: "crc_bit (Bit_Operations.xor x y) = Bit_Operations.xor (crc_bit x) (crc_bit y)"
  by (rule bit_eqI) (auto simp: crc_bit_def bit_xor_iff bit_simps even_xor_iff simp flip: bit_Suc)

lemma crc_bits_xor: "(crc_bit ^^ k) (Bit_Operations.xor x y) = Bit_Operations.xor ((crc_bit ^^ k) x) ((crc_bit ^^ k) y)"
  by (induction k) (simp_all add: crc_bit_xor)

lemma crc_bits_high: "(crc_bit ^^ k) (2 ^ k * x) = x"
  by (induction k arbitrary: x) (simp_all add: funpow_Suc_right crc_bit_def mult.assoc del: funpow.simps)

lemma xor_split:
  fixes t b :: nat
  assumes "b < 256"
  shows "Bit_Operations.xor t b = Bit_Operations.xor (2 ^ 8 * (t div 256)) (Bit_Operations.xor (t mod 256) b)"
proof -
  have "t = Bit_Operations.xor (push_bit 8 (drop_bit 8 t)) (take_bit 8 t)"
    by (rule bit_eqI) (auto simp: bit_simps)
  then have "t = Bit_Operations.xor (2 ^ 8 * (t div 256)) (t mod 256)"
    by (simp add: push_bit_eq_mult drop_bit_eq_div take_bit_eq_mod mult.commute)
  then show ?thesis by (metis xor.assoc)
qed

lemma crc_step_bits:
  assumes "b < 256"
  shows "crc_step t b = (crc_bit ^^ 8) (Bit_Operations.xor t b)"
proof -
  have "take_bit 8 (Bit_Operations.xor (t mod 256) b) = Bit_Operations.xor (t mod 256) b"
    using assms unfolding take_bit_xor by (simp add: take_bit_eq_mod)
  then have "Bit_Operations.xor (t mod 256) b < 256"
    using take_bit_nat_less_exp [of 8 "Bit_Operations.xor (t mod 256) b"] by simp
  then have e: "crc_step t b = Bit_Operations.xor (t div 256) ((crc_bit ^^ 8) (Bit_Operations.xor (t mod 256) b))"
    by (simp add: crc_step_def crc_entry_def crc_bit_def [abs_def] del: funpow.simps)
  show ?thesis unfolding e by (subst xor_split [OF assms], simp only: crc_bits_xor crc_bits_high)
qed

lemma adler_reference_less: "adler_reference bs < 4294967296"
proof -
  obtain n s where f: "adler_fold (1, 0) bs = (n, s)" by (cases "adler_fold (1, 0) bs")
  then have "n < 65521" "s < 65521" using adler_fold_less [OF _ _ f] by simp_all
  then show ?thesis unfolding adler_reference_def f by simp
qed

lemma crc32_loop:
  "list_all (\<lambda>b. b < 256) bs \<Longrightarrow>
   foldl crc_step t bs = foldl (\<lambda>t b. (crc_bit ^^ 8) (Bit_Operations.xor t b)) t bs"
  by (induction bs arbitrary: t) (simp_all add: crc_step_bits)

lemma adler32_append:
  assumes "list_all (\<lambda>b. b < 256) ys"
  shows "adler32 (adler_reference xs) ys = adler_reference (xs @ ys)"
proof -
  obtain n s where f: "adler_fold (1, 0) xs = (n, s)" by (cases "adler_fold (1, 0) xs")
  then have "n < 65521" "s < 65521" using adler_fold_less [OF _ _ f] by simp_all
  then show ?thesis
    using assms f adler32_fold [of ys n s] by (simp add: adler_reference_def adler_fold_append del: One_nat_def)
qed

section \<open>The properties\<close>

text \<open>C15: The table-driven CRC-32 is the CRC computed bit by bit, for every list of bytes.\<close>

theorem crc32_reference:
  assumes "list_all (\<lambda>b. b < 256) bs"
  shows "crc32 0 bs = crc_reference bs"
  using crc32_loop [OF assms] by (simp add: crc32_def crc_reference_def)

theorem crc32_reference_witness: "crc32 0 [0, 127, 255] = crc_reference [0, 127, 255]"
  using crc32_reference [of "[0, 127, 255]"] by simp

text \<open>C16: Adler-32 with its deferred remainders and its 32-bit cuts is the sum reduced at every byte, however
  long the input, and going on from the checksum of one part gives the checksum of the whole.\<close>

theorem adler32_reference_append:
  assumes "list_all (\<lambda>b. b < 256) (xs @ ys)"
  shows "adler32 1 xs = adler_reference xs \<and> adler32 (adler32 1 xs) ys = adler_reference (xs @ ys)"
proof -
  have "adler32 1 xs = adler_reference xs"
    using adler32_append [of xs "[]"] assms by (simp add: adler_reference_def)
  then show ?thesis using adler32_append [of ys xs] assms by simp
qed

theorem adler32_reference_append_witness:
  "adler32 (adler32 1 [255, 0]) [7] = adler_reference [255, 0, 7]"
proof -
  have "list_all (\<lambda>b. b < 256) ([255, 0] @ [7 :: nat])" by simp
  from adler32_reference_append [OF this, THEN conjunct2] show ?thesis by (simp only: append.simps)
qed

end
