(* ===== verification/Pako_Stored.thy ===== *)
theory Pako_Stored
  imports Pako_Inflate Pako_Checks Js_Text
begin

text \<open>
  \<open>pako.inflate\<close> on zlib streams: what it does with every two-byte header, and its result on a stream of
  stored blocks, whole or cut short.  The lemmas follow the state machine pass by pass; \<open>runs b z z'\<close> says
  that at most \<open>b\<close> passes lead from \<open>z\<close> to \<open>z'\<close>, whatever the fuel that is left.
\<close>

section \<open>Input\<close>

definition unread :: "zstream \<Rightarrow> nat list" where
  "unread z = drop (next_in z) (inp z)"

lemma avail_in_unread: "avail_in z = length (unread z)"
  by (simp add: avail_in_def unread_def)

lemma unread_pull_byte: "unread z = b # r \<Longrightarrow> pull_byte z = z\<lparr>hold := hold z + b * 2 ^ bits z, bits := bits z + 8, next_in := next_in z + 1\<rparr>"
proof -
  assume "unread z = b # r"
  then have "at (inp z) (next_in z) = b"
    by (metis at_def drop_eq_Nil hd_drop_conv_nth leI list.distinct(1) list.sel(1) unread_def)
  then show ?thesis by (simp add: pull_byte_def)
qed

lemma unread_update [simp]:
  "unread (z\<lparr>hold := h\<rparr>) = unread z" "unread (z\<lparr>bits := c\<rparr>) = unread z"
  "unread (z\<lparr>zmode := m\<rparr>) = unread z" "unread (z\<lparr>zlast := l\<rparr>) = unread z" "unread (z\<lparr>outp := os\<rparr>) = unread z"
  "unread (z\<lparr>avail_out := a\<rparr>) = unread z" "unread (z\<lparr>zlength := k\<rparr>) = unread z"
  "unread (z\<lparr>next_in := next_in z + k\<rparr>) = drop k (unread z)"
  by (simp_all add: unread_def add.commute)

lemma unread_moved: "inp z' = inp z \<Longrightarrow> next_in z' = next_in z + k \<Longrightarrow> unread z' = drop k (unread z)"
  by (simp add: unread_def add.commute)

definition le_value :: "nat list \<Rightarrow> nat" where
  "le_value bs = foldr (\<lambda>b v. b + 256 * v) bs 0"

lemma le_value_simps [simp]: "le_value [] = 0" "le_value (b # bs) = b + 256 * le_value bs"
  by (simp_all add: le_value_def)

text \<open>Whole bytes into the bit buffer, and what is left of an attempt for which the input is too short.\<close>

lemma pull_next: "bits z < n \<Longrightarrow> unread z = b # r \<Longrightarrow>
    pull n z = pull n (z\<lparr>hold := hold z + b * 2 ^ bits z, bits := bits z + 8, next_in := next_in z + 1\<rparr>)"
  by (simp add: pull.simps [of n z] avail_in_unread unread_pull_byte)

lemma pull_whole:
  "unread z = bs @ r \<Longrightarrow> n = bits z + 8 * length bs \<Longrightarrow>
   pull n z = (True, z\<lparr>hold := hold z + 2 ^ bits z * le_value bs, bits := n, next_in := next_in z + length bs\<rparr>)"
proof (induction bs arbitrary: z)
  case Nil
  then show ?case by (simp add: pull.simps [of "bits z" z])
next
  case (Cons b bs)
  define z1 where "z1 = z\<lparr>hold := hold z + b * 2 ^ bits z, bits := bits z + 8, next_in := next_in z + 1\<rparr>"
  have u: "unread z1 = bs @ r" using Cons.prems(1) unread_moved [of z1 z 1] by (simp add: z1_def)
  have "pull n z = pull n z1"
    unfolding z1_def by (rule pull_next [of _ _ _ "bs @ r"]) (use Cons.prems in simp_all)
  also have "\<dots> = (True, z1\<lparr>hold := hold z1 + 2 ^ bits z1 * le_value bs, bits := n, next_in := next_in z1 + length bs\<rparr>)"
    using Cons.IH [OF u] Cons.prems(2) by (simp add: z1_def)
  finally show ?case by (simp add: z1_def power_add algebra_simps)
qed

lemma pull_short:
  "bits z + 8 * length (unread z) < n \<Longrightarrow>
   \<exists>h c. pull n z = (False, z\<lparr>hold := h, bits := c, next_in := next_in z + length (unread z)\<rparr>)"
proof (induction "unread z" arbitrary: z)
  case Nil
  then have "pull n z = (False, z\<lparr>hold := hold z, bits := bits z, next_in := next_in z + length (unread z)\<rparr>)"
    by (simp add: pull.simps [of n z] avail_in_unread Nil.hyps [symmetric])
  then show ?case by blast
next
  case (Cons b bs)
  define z1 where "z1 = z\<lparr>hold := hold z + b * 2 ^ bits z, bits := bits z + 8, next_in := next_in z + 1\<rparr>"
  have u: "unread z1 = bs" using Cons.hyps(2) [symmetric] unread_moved [of z1 z 1] by (simp add: z1_def)
  obtain h c where "pull n z1 = (False, z1\<lparr>hold := h, bits := c, next_in := next_in z1 + length (unread z1)\<rparr>)"
  proof -
    have "bits z1 + 8 * length (unread z1) < n"
      using Cons.prems Cons.hyps(2) [symmetric] u by (simp add: z1_def [THEN arg_cong [of _ _ bits]])
    then show thesis using Cons.hyps(1) [OF u [symmetric]] that by blast
  qed
  moreover have "pull n z = pull n z1"
    unfolding z1_def by (rule pull_next [of _ _ _ bs]) (use Cons.prems Cons.hyps(2) in simp_all)
  ultimately have "pull n z = (False, z\<lparr>hold := h, bits := c, next_in := next_in z + length (unread z)\<rparr>)"
    using Cons.hyps(2) [symmetric] u by (simp add: z1_def)
  then show ?case by blast
qed

lemma need_whole:
  assumes "unread z = bs @ r" "bits z = 0" "hold z = 0" "n = 8 * length bs"
  shows "need n z k = k (z\<lparr>hold := le_value bs, bits := n, next_in := next_in z + length bs\<rparr>)"
  using pull_whole [OF assms(1), of n] assms(2-4) by (simp add: need_def)

lemma need_short:
  assumes "bits z = 0" "8 * length (unread z) < n"
  shows "\<exists>h c. need n z k = Leave 0 (z\<lparr>hold := h, bits := c, next_in := next_in z + length (unread z)\<rparr>)"
proof -
  obtain h c where "pull n z = (False, z\<lparr>hold := h, bits := c, next_in := next_in z + length (unread z)\<rparr>)"
    using pull_short [of z n] assms by auto
  then show ?thesis by (intro exI [of _ h] exI [of _ c]) (simp add: need_def)
qed

section \<open>Passes\<close>

definition runs :: "nat \<Rightarrow> zstream \<Rightarrow> zstream \<Rightarrow> bool" where
  "runs b z z' \<longleftrightarrow> (\<exists>k\<le>b. \<forall>n. passes (k + n) 0 z = passes n 0 z')"

text \<open>The same for a run that ends.\<close>

definition ends :: "nat \<Rightarrow> zstream \<Rightarrow> pass \<Rightarrow> bool" where
  "ends b z r \<longleftrightarrow> (\<forall>n\<ge>b. passes n 0 z = r)"

lemma runs_refl: "runs 0 z z"
  unfolding runs_def by (rule exI [of _ 0]) simp

lemma runs_step: "(\<And>n. step n 0 z = Again z') \<Longrightarrow> runs b z' z'' \<Longrightarrow> runs (Suc b) z z''"
  unfolding runs_def by (elim exE conjE, rule_tac x = "Suc k" in exI) simp

lemma runs_trans: "runs b z z' \<Longrightarrow> runs c z' z'' \<Longrightarrow> runs (b + c) z z''"
  unfolding runs_def
proof (elim exE conjE)
  fix k l
  assume "k \<le> b" "l \<le> c" "\<forall>n. passes (k + n) 0 z = passes n 0 z'" "\<forall>n. passes (l + n) 0 z' = passes n 0 z''"
  then show "\<exists>m\<le>b + c. \<forall>n. passes (m + n) 0 z = passes n 0 z''"
    by (intro exI [of _ "k + l"]) (simp add: add.assoc)
qed

lemma runs_mono: "runs b z z' \<Longrightarrow> b \<le> c \<Longrightarrow> runs c z z'"
  unfolding runs_def by (meson le_trans)

lemma runs_ends: "runs b z z' \<Longrightarrow> ends c z' r \<Longrightarrow> ends (b + c) z r"
  unfolding runs_def ends_def
proof (elim exE conjE, intro allI impI)
  fix k n
  assume "k \<le> b" "\<forall>n. passes (k + n) 0 z = passes n 0 z'" "\<forall>n\<ge>c. passes n 0 z' = r" "b + c \<le> n"
  moreover then obtain m where "n = k + m" using le_Suc_ex [of k n] by fastforce
  ultimately show "passes n 0 z = r" by simp
qed

lemma ends_step: "(\<And>n. step n 0 z = Again z') \<Longrightarrow> ends b z' r \<Longrightarrow> ends (Suc b) z r"
  unfolding ends_def by (intro allI impI) (case_tac n; simp)

lemma ends_leave: "(\<And>n. step n 0 z = Leave x z') \<Longrightarrow> ends (Suc b) z (Leave x z')"
  unfolding ends_def by (intro allI impI) (case_tac n; simp)

section \<open>Streams of stored blocks\<close>

definition stored_block :: "nat \<Rightarrow> nat list \<Rightarrow> nat list" where
  "stored_block l bs =
     [l, length bs mod 256, length bs div 256, 255 - length bs mod 256, 255 - length bs div 256] @ bs"

fun stored_blocks :: "nat list list \<Rightarrow> nat list" where
  "stored_blocks [] = []"
| "stored_blocks [bs] = stored_block 1 bs"
| "stored_blocks (bs # bss) = stored_block 0 bs @ stored_blocks bss"

definition be4 :: "nat \<Rightarrow> nat list" where
  "be4 c = [c div 16777216 mod 256, c div 65536 mod 256, c div 256 mod 256, c mod 256]"

definition zlib_stored :: "nat \<Rightarrow> nat list list \<Rightarrow> nat list" where
  "zlib_stored c bss = [120, 1] @ stored_blocks bss @ be4 c"

lemma stored_lengths [simp]: "length (stored_block l bs) = 5 + length bs" "length (be4 c) = 4"
  by (simp_all add: stored_block_def be4_def)

text \<open>The state between two blocks, \<open>l\<close> being the last-block flag, \<open>os\<close> the output and \<open>i\<close> the input position.\<close>

definition between :: "nat \<Rightarrow> nat \<Rightarrow> nat list \<Rightarrow> zstream \<Rightarrow> zstream" where
  "between l i os z =
     z\<lparr>zlast := l, next_in := i, outp := os, avail_out := 65536 - length os, hold := 0, bits := 0, zlength := 0,
       zmode := M_TYPE\<rparr>"

lemma step_modes:
  "zmode z = M_TYPE \<Longrightarrow> step n 0 z = Again (z\<lparr>zmode := M_TYPEDO\<rparr>)"
  "zmode z = M_TYPEDO \<Longrightarrow> step n 0 z = do_typedo 0 z"
  "zmode z = M_STORED \<Longrightarrow> step n 0 z = do_stored 0 z"
  "zmode z = M_COPY_START \<Longrightarrow> step n 0 z = Again (z\<lparr>zmode := M_COPY\<rparr>)"
  "zmode z = M_COPY \<Longrightarrow> step n 0 z = do_copy z"
  "zmode z = M_HEAD \<Longrightarrow> step n 0 z = do_head z"
  "zmode z = M_CHECK \<Longrightarrow> step n 0 z = do_check z"
  "zmode z = M_LENGTH \<Longrightarrow> step n 0 z = do_length z"
  "zmode z = M_DONE \<Longrightarrow> step n 0 z = Leave 1 z"
  "zmode z = M_BAD \<Longrightarrow> step n 0 z = Leave (-3) z"
  by (simp_all add: step_def do_type_def)

lemma do_typedo_stored:
  assumes "unread z = l # r" "l < 2" "bits z = 0" "hold z = 0" "zlast z = 0"
  shows "do_typedo 0 z = Again (z\<lparr>zlast := l, hold := 0, bits := 5, next_in := next_in z + 1, zmode := M_STORED\<rparr>)"
proof -
  define z1 where "z1 = z\<lparr>hold := l, bits := 8, next_in := next_in z + 1\<rparr>"
  have "pull 3 z = pull 3 z1" using pull_next [of z 3 l r] assms by (simp add: z1_def)
  also have "\<dots> = (True, z1)" unfolding pull.simps [of 3 z1] by (simp add: z1_def)
  finally have p: "need 3 z k = k z1" for k by (simp add: need_def)
  have "l = 0 \<or> l = 1" using assms(2) by linarith
  then have "l mod 2 = l" "l div 2 = 0" by auto
  then show ?thesis
    unfolding do_typedo_def p using assms(5) by (simp add: z1_def drop_bits_def Let_def)
qed

lemma complement:
  fixes n :: nat
  assumes "n < 65536"
  shows "65535 - n = 255 - n mod 256 + 256 * (255 - n div 256)"
proof -
  define a b where "a = n div 256" and "b = n mod 256"
  have "n = 256 * a + b" by (simp add: a_def b_def)
  moreover have "b < 256" unfolding b_def by (rule mod_less_divisor) simp
  moreover have "a < 256" unfolding a_def by (rule less_mult_imp_div_less) (use assms in simp)
  moreover have "256 * (255 - a) = 65280 - 256 * a" by (simp add: diff_mult_distrib2)
  ultimately have "65535 - n = 255 - b + 256 * (255 - a)" by linarith
  then show ?thesis by (simp only: a_def b_def)
qed

lemma do_stored_length:
  assumes "unread z = [k mod 256, k div 256, 255 - k mod 256, 255 - k div 256] @ r" "k < 65536" "bits z = 5" "hold z = 0"
  shows "do_stored 0 z = Again (z\<lparr>hold := 0, bits := 0, next_in := next_in z + 4, zlength := k, zmode := M_COPY_START\<rparr>)"
proof -
  let ?v = "le_value [k mod 256, k div 256, 255 - k mod 256, 255 - k div 256]"
  have "?v = k + 65536 * (65535 - k)"
    using complement [OF assms(2)] by (simp add: algebra_simps)
  then have v: "?v mod 65536 = k" "?v div 65536 mod 65536 = 65535 - k"
    using assms(2) by (simp_all del: le_value_simps)
  have "need 32 (drop_bits 5 z) k' = k' ((drop_bits 5 z)\<lparr>hold := ?v, bits := 32, next_in := next_in (drop_bits 5 z) + length [k mod 256, k div 256, 255 - k mod 256, 255 - k div 256]\<rparr>)" for k'
    by (rule need_whole [of _ _ r]) (use assms in \<open>simp_all add: drop_bits_def\<close>)
  then show ?thesis
    using assms(2,3) v by (simp add: do_stored_def init_bits_def drop_bits_def Let_def del: le_value_simps)
qed

lemma do_copy_all:
  assumes "unread z = bs @ r" "zlength z = length bs" "bs \<noteq> []" "length bs \<le> avail_out z"
  shows "do_copy z = Again (z\<lparr>outp := outp z @ bs, next_in := next_in z + length bs,
    avail_out := avail_out z - length bs, zlength := 0\<rparr>)"
  using assms by (simp add: do_copy_def avail_in_unread unread_def [symmetric] Let_def)

lemma stored_block_runs:
  assumes u: "drop i (inp z) = stored_block l bs @ r" and l: "l < 2"
    and bs: "length bs < 65536" "length os + length bs \<le> 65536"
  shows "runs 6 (between 0 i os z) (between l (i + 5 + length bs) (os @ bs) z)"
proof -
  define z0 where "z0 = (between 0 i os z)\<lparr>zmode := M_TYPEDO\<rparr>"
  define z1 where "z1 = z0\<lparr>zlast := l, hold := 0, bits := 5, next_in := next_in z0 + 1, zmode := M_STORED\<rparr>"
  define z2 where "z2 = z1\<lparr>hold := 0, bits := 0, next_in := next_in z1 + 4, zlength := length bs, zmode := M_COPY_START\<rparr>"
  define z3 where "z3 = z2\<lparr>zmode := M_COPY\<rparr>"
  define z4 where "z4 = z3\<lparr>outp := os @ bs, next_in := i + 5 + length bs, avail_out := 65536 - length (os @ bs), zlength := 0\<rparr>"
  have u0: "unread z0 = stored_block l bs @ r" using u by (simp add: unread_def z0_def between_def)
  have u1: "unread z1 = [length bs mod 256, length bs div 256, 255 - length bs mod 256, 255 - length bs div 256] @ bs @ r"
    using u0 unread_moved [of z1 z0 1] by (simp add: z1_def stored_block_def)
  have u3: "unread z3 = bs @ r"
    using u1 unread_moved [of z3 z1 4] by (simp add: z3_def z2_def)
  have s0: "step n 0 (between 0 i os z) = Again z0" for n
    by (simp add: step_modes z0_def between_def)
  have s1: "step n 0 z0 = Again z1" for n
    using do_typedo_stored [of z0 l] u0 l by (simp add: step_modes z0_def between_def z1_def stored_block_def)
  have s2: "step n 0 z1 = Again z2" for n
    using do_stored_length [OF u1 bs(1)] by (simp add: step_modes z1_def z2_def)
  have s3: "step n 0 z2 = Again z3" for n
    by (simp add: step_modes z2_def z3_def)
  have s5: "runs (Suc 0) z4 (between l (i + 5 + length bs) (os @ bs) z)"
  proof (rule runs_step [OF _ runs_refl])
    show "step n 0 z4 = Again (between l (i + 5 + length bs) (os @ bs) z)" for n
      by (simp add: step_modes z4_def z3_def z2_def z1_def z0_def between_def do_copy_def)
  qed
  have s4: "runs (Suc 0) z3 z4"
  proof (cases "bs = []")
    case True
    then have "z3 = z4" by (simp add: z4_def z3_def z2_def z1_def z0_def between_def)
    then show ?thesis using runs_mono [OF runs_refl, of "Suc 0" z4] by simp
  next
    case False
    have "step n 0 z3 = Again z4" for n
      using do_copy_all [OF u3 _ False] bs(2)
      by (simp add: step_modes z4_def z3_def z2_def z1_def z0_def between_def)
    then show ?thesis by (rule runs_step [OF _ runs_refl])
  qed
  have "runs (Suc 0 + Suc 0) z3 (between l (i + 5 + length bs) (os @ bs) z)" by (rule runs_trans [OF s4 s5])
  then show ?thesis
    using runs_step [OF s0 runs_step [OF s1 runs_step [OF s2 runs_step [OF s3]]]] by (simp add: numeral_eq_Suc)
qed

lemma stored_blocks_runs:
  "bss \<noteq> [] \<Longrightarrow> drop i (inp z) = stored_blocks bss @ r \<Longrightarrow> list_all (\<lambda>bs. length bs < 65536) bss \<Longrightarrow>
   length os + length (concat bss) \<le> 65536 \<Longrightarrow>
   runs (6 * length bss) (between 0 i os z) (between 1 (i + length (stored_blocks bss)) (os @ concat bss) z)"
proof (induction bss arbitrary: i os rule: stored_blocks.induct)
  case (2 bs)
  then show ?case using stored_block_runs [of i z 1 bs r os] by (simp add: add.assoc)
next
  case (3 bs bs2 bss)
  let ?rest = "stored_blocks (bs2 # bss)"
  have d: "drop i (inp z) = stored_block 0 bs @ ?rest @ r" using "3.prems"(2) by simp
  have "drop (length (stored_block 0 bs)) (drop i (inp z)) = ?rest @ r" unfolding d by simp
  then have "drop (i + 5 + length bs) (inp z) = ?rest @ r" by (simp add: add.commute add.left_commute)
  then have rest: "runs (6 * length (bs2 # bss)) (between 0 (i + 5 + length bs) (os @ bs) z)
      (between 1 (i + 5 + length bs + length ?rest) ((os @ bs) @ concat (bs2 # bss)) z)"
    using "3.prems" by (intro "3.IH") simp_all
  have first: "runs 6 (between 0 i os z) (between 0 (i + 5 + length bs) (os @ bs) z)"
    by (rule stored_block_runs [OF d]) (use "3.prems" in simp_all)
  show ?case using runs_trans [OF first rest] by (simp add: add.assoc)
qed simp

section \<open>The trailer\<close>

lemma be4_value: "c < 4294967296 \<Longrightarrow> zswap32 (le_value (be4 c)) = c"
proof -
  assume c: "c < 4294967296"
  define b0 b1 b2 b3 where "b0 = c mod 256" and "b1 = c div 256 mod 256" and "b2 = c div 65536 mod 256" and "b3 = c div 16777216 mod 256"
  have "c div 16777216 < 256" using c by (simp add: less_mult_imp_div_less)
  then have e: "c = b0 + 256 * b1 + 65536 * b2 + 16777216 * b3"
  proof -
    have "c = 256 * (c div 256) + b0" "c div 256 = 256 * (c div 65536) + b1" "c div 65536 = 256 * (c div 16777216) + b2"
      using div_mult2_eq [of c 256 256] div_mult2_eq [of c 65536 256] by (simp_all add: b0_def b1_def b2_def)
    moreover have "c div 16777216 = b3" using \<open>c div 16777216 < 256\<close> by (simp add: b3_def)
    ultimately show ?thesis by linarith
  qed
  have b: "b0 < 256" "b1 < 256" "b2 < 256" "b3 < 256" by (simp_all add: b0_def b1_def b2_def b3_def)
  define x2 x1 v where "x2 = b1 + 256 * b0" and "x1 = b2 + 256 * x2" and "v = b3 + 256 * x1"
  have v: "le_value (be4 c) = v"
    by (simp add: be4_def b0_def b1_def b2_def b3_def x2_def x1_def v_def)
  have digit: "(d + 256 * x) div 256 = x" "(d + 256 * x) mod 256 = d" if "d < 256" for d x :: nat
    using that by simp_all
  have "v div 256 = x1" "v div 65536 = x2" "v div 16777216 = b0"
    using b div_mult2_eq [of v 256 256] div_mult2_eq [of v 65536 256] by (simp_all only: v_def x1_def x2_def digit) simp_all
  then show ?thesis unfolding v zswap32_def using b e by (simp only: v_def x1_def x2_def digit) simp
qed

lemma update_check_fields [simp]:
  "inp (update_check f z) = inp z" "next_in (update_check f z) = next_in z" "outp (update_check f z) = outp z"
  "avail_out (update_check f z) = avail_out z" "wrap (update_check f z) = wrap z" "hold (update_check f z) = hold z"
  "msg (update_check f z) = msg z" "zflags (update_check f z) = zflags z" "room (update_check f z) = room z"
  "total (update_check f z) = total z" "zmode (update_check f z) = zmode z"
  by (simp_all add: update_check_def Let_def)

lemma updatewindow_fields [simp]:
  "inp (updatewindow e i z) = inp z" "next_in (updatewindow e i z) = next_in z" "outp (updatewindow e i z) = outp z"
  "avail_out (updatewindow e i z) = avail_out z" "msg (updatewindow e i z) = msg z"
  by (simp_all add: updatewindow_def Let_def split: option.split)

lemma adler32_reference: "all_bytes bs \<Longrightarrow> adler32 1 bs = adler_reference bs"
  using adler32_fold [of bs 1 0] by (simp add: adler_reference_def all_bytes_def)

lemma check_ends:
  assumes m: "zmode z1 = M_CHECK" and b: "bits z1 = 0" "hold z1 = 0" and u: "unread z1 = be4 c" and c: "c < 4294967296"
    and os: "outp z1 = os" "avail_out z1 = 65536 - length os" "length os \<le> 65536" "all_bytes os"
    and z: "wrap z1 = 7" "zflags z1 = 0" "zcheck z1 = adler_reference ps" "room z1 = 65536"
  shows "\<exists>z'. ends 4 z1 (if c = adler_reference (ps @ os) then Leave 1 z' else Leave (-3) z') \<and>
    inp z' = inp z1 \<and> next_in z' = next_in z1 + 4 \<and> outp z' = os \<and> (c \<noteq> adler_reference (ps @ os) \<longrightarrow> msg z' = ''incorrect data check'')"
proof -
  define z2 where "z2 = z1\<lparr>hold := le_value (be4 c), bits := 32, next_in := next_in z1 + 4\<rparr>"
  define z3 where "z3 = (update_check (length os) (z2\<lparr>total_out := total_out z2 + length os, total := total z2 + length os\<rparr>))
    \<lparr>room := 65536 - length os\<rparr>"
  define z4 where "z4 = init_bits z3"
  have n: "need 32 z1 k = k z2" for k
    using need_whole [of z1 "be4 c" "[]" 32 k] u by (simp add: z2_def b)
  have f: "wrap z2 = 7" "hold z2 = le_value (be4 c)" "room z2 = 65536" "avail_out z2 = 65536 - length os" "zflags z2 = 0"
    "outp z2 = os" "zcheck z2 = adler_reference ps" "inp z2 = inp z1" "next_in z2 = next_in z1 + 4"
    by (simp_all add: z2_def z os)
  have check: "zcheck z3 = adler_reference (ps @ os)"
    using adler32_append [of os ps] os(4) f
    by (simp add: z3_def update_check_def has_bit_def last_bytes_def all_bytes_def Let_def)
  have bit: "has_bit 7 2" by (simp add: has_bit_def)
  have s2: "do_check z1 = (if c = adler_reference (ps @ os) then Again (z4\<lparr>zmode := M_LENGTH\<rparr>)
      else Again (bad ''incorrect data check'' z3))"
  proof -
    have "z3 = (update_check (room z2 - avail_out z2) (z2\<lparr>total_out := total_out z2 + (room z2 - avail_out z2),
        total := total z2 + (room z2 - avail_out z2)\<rparr>))\<lparr>room := avail_out z2\<rparr>"
      using os(3) by (simp add: z3_def f)
    moreover have "wrap z3 = 7" "zflags z3 = 0" "hold z3 = le_value (be4 c)" by (simp_all add: z3_def f)
    ultimately show ?thesis
      unfolding do_check_def n using be4_value [OF c] check by (simp add: f z bit z4_def Let_def)
  qed
  have g: "inp z3 = inp z1" "next_in z3 = next_in z1 + 4" "outp z3 = os" by (simp_all add: z3_def f)
  show ?thesis
  proof (cases "c = adler_reference (ps @ os)")
    case True
    have "step n 0 z1 = Again (z4\<lparr>zmode := M_LENGTH\<rparr>)" for n using s2 True by (simp add: step_modes m)
    moreover have "step n 0 (z4\<lparr>zmode := M_LENGTH\<rparr>) = Again (z4\<lparr>zmode := M_DONE\<rparr>)" for n
      by (simp add: step_modes do_length_def z4_def init_bits_def z3_def f)
    moreover have "step n 0 (z4\<lparr>zmode := M_DONE\<rparr>) = Leave 1 (z4\<lparr>zmode := M_DONE\<rparr>)" for n
      by (simp add: step_modes)
    ultimately have "ends (Suc (Suc (Suc 0))) z1 (Leave 1 (z4\<lparr>zmode := M_DONE\<rparr>))"
      by (intro ends_step ends_leave)
    then show ?thesis using True
      by (intro exI [of _ "z4\<lparr>zmode := M_DONE\<rparr>"]) (simp add: z4_def init_bits_def g ends_def)
  next
    case False
    have "step n 0 z1 = Again (bad ''incorrect data check'' z3)" for n using s2 False by (simp add: step_modes m)
    moreover have "step n 0 (bad ''incorrect data check'' z3) = Leave (-3) (bad ''incorrect data check'' z3)" for n
      by (simp add: step_modes bad_def)
    ultimately have "ends (Suc (Suc 0)) z1 (Leave (-3) (bad ''incorrect data check'' z3))"
      by (intro ends_step ends_leave)
    then show ?thesis using False
      by (intro exI [of _ "bad ''incorrect data check'' z3"]) (simp add: bad_def g ends_def)
  qed
qed

lemma trailer_ends:
  assumes d: "drop i (inp z) = be4 c" and c: "c < 4294967296" and os: "length os \<le> 65536" "all_bytes os"
    and z: "wrap z = 7" "zflags z = 0" "zcheck z = 1" "room z = 65536"
  shows "\<exists>z'. ends 6 (between 1 i os z) (if c = adler_reference os then Leave 1 z' else Leave (-3) z') \<and>
    inp z' = inp z \<and> next_in z' = i + 4 \<and> outp z' = os \<and> (c \<noteq> adler_reference os \<longrightarrow> msg z' = ''incorrect data check'')"
proof -
  define z0 where "z0 = (between 1 i os z)\<lparr>zmode := M_TYPEDO\<rparr>"
  define z1 where "z1 = z0\<lparr>zmode := M_CHECK\<rparr>"
  have s0: "step n 0 (between 1 i os z) = Again z0" for n
    by (simp add: step_modes z0_def between_def)
  have s1: "step n 0 z0 = Again z1" for n
    by (simp add: step_modes z0_def z1_def between_def do_typedo_def drop_bits_def)
  have f: "inp z1 = inp z" "next_in z1 = i" by (simp_all add: z1_def z0_def between_def)
  obtain z' where z': "ends 4 z1 (if c = adler_reference os then Leave 1 z' else Leave (-3) z')"
    "inp z' = inp z1" "next_in z' = next_in z1 + 4" "outp z' = os" "c \<noteq> adler_reference os \<longrightarrow> msg z' = ''incorrect data check''"
    using check_ends [of z1 c os "[]"] d c os z by (auto simp: unread_def z1_def z0_def between_def adler_reference_def [of "[]"])
  have "ends (Suc (Suc 4)) (between 1 i os z) (if c = adler_reference os then Leave 1 z' else Leave (-3) z')"
    by (rule ends_step [OF s0 ends_step [OF s1 z'(1)]])
  then show ?thesis using z'(2-5) f by (intro exI [of _ z']) simp
qed

section \<open>The call\<close>

definition init_stream :: zstream where
  "init_stream = inflateGetHeader (inflateReset (new_stream\<lparr>window := None, wrap := 7, wbits := 15\<rparr>))"

text \<open>The stream when the first call of \<open>inflate\<close> begins.\<close>

definition started :: "nat list \<Rightarrow> zstream" where
  "started t = init_stream\<lparr>inp := t, next_in := 0, outp := [], avail_out := 65536, room := 65536\<rparr>"

lemma init_stream_fields [simp]:
  "zmode init_stream = M_HEAD" "wrap init_stream = 7" "wbits init_stream = 15" "wsize init_stream = 0"
  "hold init_stream = 0" "bits init_stream = 0" "zlast init_stream = 0" "msg init_stream = []"
  "avail_out init_stream = 0" "zlength init_stream = 0"
  by (simp_all add: init_stream_def inflateGetHeader_def inflateReset_def inflateResetKeep_def new_stream_def has_bit_def)

lemma started_fields [simp]:
  "zmode (started t) = M_HEAD" "wrap (started t) = 7" "wbits (started t) = 15" "hold (started t) = 0"
  "bits (started t) = 0" "inp (started t) = t" "next_in (started t) = 0" "outp (started t) = []"
  "avail_out (started t) = 65536" "room (started t) = 65536" "zlast (started t) = 0" "zlength (started t) = 0"
  by (simp_all add: started_def)

lemma new_inflator_default:
  "new_inflator None False = Inr \<lparr>strm = init_stream, chunks = [], err = 0, err_msg = [], ended = False, inflated = None\<rparr>"
  by (simp add: new_inflator_def window_bits_def inflateInit2_def inflateReset2_def init_stream_def new_stream_def)

lemma finish_fields:
  assumes "finish fl i0 x z = (s, z')"
  shows "inp z' = inp z" "next_in z' = next_in z" "outp z' = outp z" "avail_out z' = avail_out z" "msg z' = msg z"
    "s = x \<or> x = 0 \<and> s = -5"
  using assms by (auto simp: finish_def Let_def split: if_splits)

lemma inflate_ends:
  assumes "ends b (started t) (Leave x z)" "b \<le> n"
  obtains s z' where
    "inflate n 0 (init_stream\<lparr>inp := t, next_in := 0, outp := [], avail_out := 65536\<rparr>) = Some (s, z')"
    "inp z' = inp z" "next_in z' = next_in z" "outp z' = outp z" "avail_out z' = avail_out z" "msg z' = msg z"
    "s = x \<or> x = 0 \<and> s = -5"
proof -
  let ?z = "init_stream\<lparr>inp := t, next_in := 0, outp := [], avail_out := 65536\<rparr>"
  obtain s z' where f: "finish 0 (avail_in ?z) x z = (s, z')" by (cases "finish 0 (avail_in ?z) x z")
  have "?z\<lparr>zmode := M_HEAD, room := 65536\<rparr> = started t"
    by (simp add: started_def)
  then have "inflate n 0 ?z = Some (s, z')"
    using assms f by (simp add: inflate_def ends_def Let_def)
  then show thesis using that finish_fields [OF f] by blast
qed

lemma pako_inflate_unfold:
  "pako_inflate (Suc n) t =
     (case push_loop (Suc n) 65536 \<lparr>strm = init_stream\<lparr>inp := t, next_in := 0\<rparr>, chunks = [], err = 0, err_msg = [], ended = False, inflated = None\<rparr> of
        None \<Rightarrow> Inl (Undefined ''no end'')
      | Some (_, a) \<Rightarrow>
          if err a \<noteq> 0 then Inl (Runtime (if err_msg a \<noteq> [] then err_msg a else Z_MESSAGE (err a))) else Inr (inflated a))"
  by (simp add: pako_inflate_def pako_run_def new_inflator_default push_def del: push_loop.simps)

lemma two_more:
  assumes "b + 2 \<le> fuel"
  obtains n where "fuel = Suc (Suc n)" "b \<le> Suc n"
proof -
  obtain m where "fuel = b + 2 + m" using le_Suc_ex [OF assms] by blast
  then show thesis using that [of "b + m"] by simp
qed

text \<open>The three ways a first call can end the whole: the end of the stream, an error, the end of the input.\<close>

lemma pako_inflate_done:
  assumes "ends b (started t) (Leave 1 z)" "avail_in z = 0" "b + 2 \<le> fuel"
  shows "pako_inflate fuel t = Inr (Some (outp z))"
proof -
  obtain n where n: "fuel = Suc (Suc n)" "b \<le> Suc n" using two_more [OF assms(3)] .
  obtain z' where i: "inflate (Suc n) 0 (init_stream\<lparr>inp := t, next_in := 0, outp := [], avail_out := 65536\<rparr>) = Some (1, z')"
    and z': "inp z' = inp z" "next_in z' = next_in z" "outp z' = outp z"
    using inflate_ends [OF assms(1) n(2)] by auto
  have "avail_in z' = 0" using assms(2) z' by (simp add: avail_in_def)
  then show ?thesis unfolding n(1) pako_inflate_unfold
    by (simp add: i z' Let_def onEnd_def next_out_def)
qed

lemma pako_inflate_fails:
  assumes "ends b (started t) (Leave (-3) z)" "msg z \<noteq> []" "b + 2 \<le> fuel"
  shows "pako_inflate fuel t = Inl (Runtime (msg z))"
proof -
  obtain n where n: "fuel = Suc (Suc n)" "b \<le> Suc n" using two_more [OF assms(3)] .
  obtain z' where i: "inflate (Suc n) 0 (init_stream\<lparr>inp := t, next_in := 0, outp := [], avail_out := 65536\<rparr>) = Some (-3, z')"
    and z': "msg z' = msg z"
    using inflate_ends [OF assms(1) n(2)] by auto
  then show ?thesis unfolding n(1) pako_inflate_unfold
    using assms(2) by (simp add: i z' Let_def onEnd_def)
qed

lemma pako_inflate_starved:
  assumes "ends b (started t) (Leave 0 z)" "avail_in z = 0" "avail_out z \<noteq> 0" "b + 2 \<le> fuel"
  shows "pako_inflate fuel t = Inr None"
proof -
  obtain n where n: "fuel = Suc (Suc n)" "b \<le> Suc n" using two_more [OF assms(4)] .
  obtain s z' where i: "inflate (Suc n) 0 (init_stream\<lparr>inp := t, next_in := 0, outp := [], avail_out := 65536\<rparr>) = Some (s, z')"
    and z': "inp z' = inp z" "next_in z' = next_in z" "avail_out z' = avail_out z" "s = 0 \<or> s = -5"
    by (rule inflate_ends [OF assms(1) n(2)]) blast
  have "avail_in z' = 0" using assms(2) z' by (simp add: avail_in_def)
  then show ?thesis unfolding n(1) pako_inflate_unfold
    using assms(3) z'(3,4) by (auto simp: i Let_def)
qed

section \<open>The header\<close>

text \<open>What the first pass makes of two bytes that are not the magic number of gzip.\<close>

lemma do_head_bytes:
  assumes "t = a # b # r" "a < 256" "b < 256" "\<not> (a = 31 \<and> b = 139)"
  shows "\<exists>z. do_head (started t) = Again z \<and> inp z = t \<and> next_in z = 2 \<and> outp z = [] \<and> avail_out z = 65536 \<and>
    (if (a * 256 + b) mod 31 \<noteq> 0 then zmode z = M_BAD \<and> msg z = ''incorrect header check''
     else if a mod 16 \<noteq> 8 then zmode z = M_BAD \<and> msg z = ''unknown compression method''
     else if 128 \<le> a then zmode z = M_BAD \<and> msg z = ''invalid window size''
     else hold z = 0 \<and> bits z = 0 \<and> zlast z = 0 \<and> zlength z = 0 \<and> wrap z = 7 \<and> zflags z = 0 \<and> zcheck z = 1 \<and>
       room z = 65536 \<and> zmode z = (if has_bit b 5 then M_DICTID else M_TYPE))"
proof -
  define z1 where "z1 = (started t)\<lparr>hold := a + 256 * b, bits := 16, next_in := 2\<rparr>"
  have n: "need 16 (started t) k = k z1" for k
    using need_whole [of "started t" "[a, b]" r 16 k] assms(1) by (simp add: unread_def z1_def numeral_2_eq_2)
  have h: "hold z1 = a + 256 * b" "wrap z1 = 7" "wbits z1 = 15" "inp z1 = t" "next_in z1 = 2" "outp z1 = []"
    "avail_out z1 = 65536" "room z1 = 65536" "zlast z1 = 0" "zlength z1 = 0"
    by (simp_all add: z1_def)
  define z2 where "z2 = z1\<lparr>head := map_option (\<lambda>g. g\<lparr>hd_done := False\<rparr>) (head z1)\<rparr>"
  define z3 where "z3 = drop_bits 4 z2"
  define z4 where "z4 = init_bits (z3\<lparr>dmax := 32768, zflags := 0, zcheck := 1, stream_adler := 1,
      zmode := (if has_bit b 5 then M_DICTID else M_TYPE)\<rparr>)"
  have magic: "a + 256 * b \<noteq> 35615" using assms(2-4) by presburger
  have v: "(a + 256 * b) mod 256 = a" "(a + 256 * b) div 256 = b" using assms(2) by simp_all
  have m: "(a + 256 * b) mod 16 = a mod 16"
  proof -
    have "(a + 256 * b) mod 16 = (a + 16 * (16 * b)) mod 16" by simp
    also have "\<dots> = a mod 16" by (rule mod_mult_self2)
    finally show ?thesis .
  qed
  have q: "(a + 256 * b) div 16 mod 16 = a div 16" "(a + 256 * b) div 16 div 512 = b div 32"
  proof -
    have "(a + 256 * b) div 16 = a div 16 + 16 * b"
      using div_mult_self2 [of 16 a "16 * b"] by simp
    moreover have "a div 16 < 16" using assms(2) by (simp add: less_mult_imp_div_less)
    ultimately show "(a + 256 * b) div 16 mod 16 = a div 16" by simp
    show "(a + 256 * b) div 16 div 512 = b div 32"
      using v(2) div_mult2_eq [of "a + 256 * b" 256 32] div_mult2_eq [of "a + 256 * b" 16 512] by simp
  qed
  have size: "15 < 8 + a div 16 \<longleftrightarrow> 128 \<le> a" by linarith
  have f2: "hold z2 = a + 256 * b" "wrap z2 = 7" "wbits z2 = 15" "inp z2 = t" "next_in z2 = 2" "outp z2 = []"
    "avail_out z2 = 65536" "room z2 = 65536" "zlast z2 = 0" "zlength z2 = 0"
    by (simp_all add: z2_def h)
  have f3: "hold z3 = (a + 256 * b) div 16" "wrap z3 = 7" "wbits z3 = 15" "inp z3 = t" "next_in z3 = 2" "outp z3 = []"
    "avail_out z3 = 65536" "room z3 = 65536" "zlast z3 = 0" "zlength z3 = 0"
    by (simp_all add: z3_def drop_bits_def f2)
  have w: "z3\<lparr>wbits := 15\<rparr> = z3"
  proof -
    have "z3\<lparr>wbits := wbits z3\<rparr> = z3" by simp
    then show ?thesis by (simp only: f3)
  qed
  have bit0: "has_bit 7 0" by (simp add: has_bit_def)
  have bit9: "has_bit ((a + 256 * b) div 16) 9 = has_bit b 5" by (simp add: has_bit_def q)
  have "do_head (started t) =
     (if (a * 256 + b) mod 31 \<noteq> 0 then Again (bad ''incorrect header check'' z2)
      else if a mod 16 \<noteq> 8 then Again (bad ''unknown compression method'' z2)
      else if 128 \<le> a then Again (bad ''invalid window size'' z3)
      else Again z4)"
    unfolding do_head_def n
    using assms(2) by (simp add: h magic z2_def [symmetric] w f2 v m bit0 z3_def [symmetric] f3 q size [symmetric] bit9 z4_def Let_def
        del: of_nat_add)
  moreover have "inp z4 = t" "next_in z4 = 2" "outp z4 = []" "avail_out z4 = 65536" "hold z4 = 0" "bits z4 = 0"
    "zlast z4 = 0" "zlength z4 = 0" "wrap z4 = 7" "zflags z4 = 0" "zcheck z4 = 1" "room z4 = 65536"
    "zmode z4 = (if has_bit b 5 then M_DICTID else M_TYPE)"
    by (simp_all add: z4_def init_bits_def f3)
  ultimately show ?thesis by (simp add: bad_def f2 f3)
qed

lemma head_runs:
  assumes "drop 2 t = r" "take 2 t = [120, 1]"
  obtains z where "runs 1 (started t) (between 0 2 [] z)" "inp z = t" "wrap z = 7" "zflags z = 0" "zcheck z = 1" "room z = 65536"
proof -
  have t: "t = 120 # 1 # r" using assms append_take_drop_id [of 2 t] by simp
  obtain z where h: "do_head (started t) = Again z"
    and z: "inp z = t" "next_in z = 2" "outp z = []" "avail_out z = 65536" "hold z = 0" "bits z = 0" "zlast z = 0"
      "zlength z = 0" "wrap z = 7" "zflags z = 0" "zcheck z = 1" "room z = 65536" "zmode z = M_TYPE"
    using do_head_bytes [OF t] by (auto simp: has_bit_def)
  have "z = z\<lparr>zlast := zlast z, next_in := next_in z, outp := outp z, avail_out := avail_out z, hold := hold z,
      bits := bits z, zlength := zlength z, zmode := zmode z\<rparr>" by simp
  then have "between 0 2 [] z = z" unfolding between_def by (simp only: z) simp
  then have "runs (Suc 0) (started t) (between 0 2 [] z)"
    using runs_step [OF _ runs_refl, of "started t" z] h by (simp add: step_modes)
  then show thesis using that z by simp
qed

lemma ends_mono: "ends b z r \<Longrightarrow> b \<le> c \<Longrightarrow> ends c z r"
  by (simp add: ends_def)

lemma pako_inflate_stored:
  assumes "bss \<noteq> []" "list_all (\<lambda>bs. length bs < 65536) bss" "length (concat bss) \<le> 65536" "all_bytes (concat bss)"
    and "c < 4294967296" "6 * length bss + 9 \<le> fuel"
  shows "pako_inflate fuel (zlib_stored c bss) =
    (if c = adler_reference (concat bss) then Inr (Some (concat bss)) else Inl (Runtime ''incorrect data check''))"
proof -
  let ?t = "zlib_stored c bss"
  have t: "drop 2 ?t = stored_blocks bss @ be4 c" "take 2 ?t = [120, 1]" by (simp_all add: zlib_stored_def)
  obtain z where r: "runs 1 (started ?t) (between 0 2 [] z)"
    and z: "inp z = ?t" "wrap z = 7" "zflags z = 0" "zcheck z = 1" "room z = 65536"
    by (rule head_runs [OF t])
  let ?i = "2 + length (stored_blocks bss)"
  have "runs (6 * length bss) (between 0 2 [] z) (between 1 ?i ([] @ concat bss) z)"
    by (rule stored_blocks_runs [OF assms(1)]) (use assms(2,3) t(1) z(1) in simp_all)
  then have r: "runs (1 + 6 * length bss) (started ?t) (between 1 ?i (concat bss) z)"
    using runs_trans [OF r] by simp
  have "drop ?i ?t = be4 c" using t(1) by (metis append_eq_conv_conj drop_drop add.commute)
  then obtain z' where e: "ends 6 (between 1 ?i (concat bss) z) (if c = adler_reference (concat bss) then Leave 1 z' else Leave (-3) z')"
    and z': "inp z' = ?t" "next_in z' = ?i + 4" "outp z' = concat bss"
      "c \<noteq> adler_reference (concat bss) \<longrightarrow> msg z' = ''incorrect data check''"
    using trailer_ends [of ?i z c "concat bss"] assms(3-5) z by auto
  have e: "ends (1 + 6 * length bss + 6) (started ?t) (if c = adler_reference (concat bss) then Leave 1 z' else Leave (-3) z')"
    by (rule runs_ends [OF r e])
  have "avail_in z' = 0" by (simp add: avail_in_def z' zlib_stored_def)
  then show ?thesis
    using pako_inflate_done [of "1 + 6 * length bss + 6" ?t z' fuel] pako_inflate_fails [of "1 + 6 * length bss + 6" ?t z' fuel]
      e z' assms(6) by (simp split: if_splits)
qed

section \<open>Streams cut short\<close>

text \<open>A call that has read all its input and still has room asks for more.\<close>

definition starves :: "nat \<Rightarrow> zstream \<Rightarrow> bool" where
  "starves b z \<longleftrightarrow> (\<exists>z'. ends b z (Leave 0 z') \<and> avail_in z' = 0 \<and> avail_out z' \<noteq> 0)"

lemma starves_step: "(\<And>n. step n 0 z = Again z') \<Longrightarrow> starves b z' \<Longrightarrow> starves (Suc b) z"
  unfolding starves_def using ends_step by blast

lemma starves_runs: "runs b z z' \<Longrightarrow> starves c z' \<Longrightarrow> starves (b + c) z"
  unfolding starves_def using runs_ends by blast

lemma starves_mono: "starves b z \<Longrightarrow> b \<le> c \<Longrightarrow> starves c z"
  unfolding starves_def using ends_mono by blast

lemma starves_need:
  assumes "\<And>n. step n 0 z = need m z1 k" "bits z1 = 0" "8 * length (unread z1) < m" "avail_out z1 \<noteq> 0"
  shows "starves (Suc 0) z"
proof -
  obtain h c where "need m z1 k = Leave 0 (z1\<lparr>hold := h, bits := c, next_in := next_in z1 + length (unread z1)\<rparr>)"
    using need_short [OF assms(2,3)] by blast
  then have "ends (Suc 0) z (Leave 0 (z1\<lparr>hold := h, bits := c, next_in := next_in z1 + length (unread z1)\<rparr>))"
    using assms(1) by (intro ends_leave) simp
  then show ?thesis unfolding starves_def using assms(4)
    by (intro exI conjI) (assumption, simp_all add: avail_in_def unread_def)
qed

lemma starves_typedo:
  assumes "zmode z = M_TYPEDO" "zlast z = 0" "bits z = 0" "unread z = []" "avail_out z \<noteq> 0"
  shows "starves (Suc 0) z"
proof (rule starves_need)
  show "step n 0 z = need 3 z (\<lambda>z.
        let z = drop_bits 1 (z\<lparr>zlast := hold z mod 2\<rparr>); k = hold z mod 4 in
        if k = 0 then Again (drop_bits 2 (z\<lparr>zmode := M_STORED\<rparr>))
        else if k = 1 then
          let z = drop_bits 2 ((fixedtables z)\<lparr>zmode := M_LEN_START\<rparr>) in (if (0::nat) = 6 then Leave 0 z else Again z)
        else if k = 2 then Again (drop_bits 2 (z\<lparr>zmode := M_TABLE\<rparr>))
        else Again (drop_bits 2 (bad ''invalid block type'' z)))" for n
    using assms(1,2) by (simp add: step_modes do_typedo_def)
qed (use assms in simp_all)

lemma starves_stored:
  assumes "zmode z = M_STORED" "bits z = 5" "length (unread z) < 4" "avail_out z \<noteq> 0"
  shows "starves (Suc 0) z"
  by (rule starves_need [OF trans [OF step_modes(3) do_stored_def]])
    (use assms in \<open>simp_all add: drop_bits_def\<close>)

lemma starves_check:
  assumes "zmode z = M_CHECK" "wrap z \<noteq> 0" "bits z = 0" "length (unread z) < 4" "avail_out z \<noteq> 0"
  shows "starves (Suc 0) z"
proof -
  obtain k where "do_check z = need 32 z k" using assms(2) by (simp add: do_check_def)
  then show ?thesis using starves_need [of z 32 z k] assms by (simp add: step_modes)
qed

lemma starves_copy:
  assumes "zmode z = M_COPY" "length (unread z) < zlength z" "length (unread z) < avail_out z"
  shows "starves (Suc (Suc 0)) z"
proof -
  define z1 where "z1 = z\<lparr>outp := outp z @ unread z, next_in := next_in z + length (unread z),
    avail_out := avail_out z - length (unread z), zlength := zlength z - length (unread z)\<rparr>"
  have u: "unread z1 = []" using unread_moved [of z1 z "length (unread z)"] by (simp add: z1_def)
  have "step n 0 z1 = Leave 0 z1" for n
    using assms by (simp add: step_modes do_copy_def avail_in_unread u z1_def [THEN arg_cong [of _ _ zmode]])
      (simp add: z1_def)
  then have "starves (Suc 0) z1"
    unfolding starves_def using assms(3) u
    by (intro exI [of _ z1] conjI ends_leave) (simp_all add: avail_in_unread z1_def)
  show ?thesis
  proof (cases "unread z = []")
    case True
    then have "z1 = z" by (simp add: z1_def)
    then show ?thesis using \<open>starves (Suc 0) z1\<close> starves_mono by simp
  next
    case False
    have "step n 0 z = Again z1" for n
      using assms False by (simp add: step_modes do_copy_def avail_in_unread z1_def unread_def [symmetric] min_def Let_def)
    then show ?thesis using starves_step \<open>starves (Suc 0) z1\<close> by blast
  qed
qed

lemma stored_block_cut:
  assumes u: "drop i (inp z) = take m (stored_block l bs)" and m: "m < 5 + length bs" and l: "l < 2"
    and bs: "length bs < 65536" "length os + length bs < 65536"
  shows "starves 6 (between 0 i os z)"
proof -
  define z0 where "z0 = (between 0 i os z)\<lparr>zmode := M_TYPEDO\<rparr>"
  define z1 where "z1 = z0\<lparr>zlast := l, hold := 0, bits := 5, next_in := next_in z0 + 1, zmode := M_STORED\<rparr>"
  define z2 where "z2 = z1\<lparr>hold := 0, bits := 0, next_in := next_in z1 + 4, zlength := length bs, zmode := M_COPY_START\<rparr>"
  define z3 where "z3 = z2\<lparr>zmode := M_COPY\<rparr>"
  have u0: "unread z0 = take m (stored_block l bs)" using u by (simp add: unread_def z0_def between_def)
  have s0: "step n 0 (between 0 i os z) = Again z0" for n
    by (simp add: step_modes z0_def between_def)
  have room: "65536 - length os \<noteq> 0" using bs(2) by simp
  show ?thesis
  proof (cases "m = 0")
    case True
    have "starves (Suc 0) z0"
      by (rule starves_typedo) (use u0 True room in \<open>simp_all add: z0_def between_def\<close>)
    then show ?thesis using starves_mono [OF starves_step [OF s0]] by simp
  next
    case False
    then obtain m' where m': "m = Suc m'" by (cases m) auto
    have s1: "step n 0 z0 = Again z1" for n
      using do_typedo_stored [of z0 l] u0 l m' by (simp add: step_modes z0_def between_def z1_def stored_block_def)
    have u1: "unread z1 = take m' ([length bs mod 256, length bs div 256, 255 - length bs mod 256, 255 - length bs div 256] @ bs)"
      using u0 unread_moved [of z1 z0 1] m' by (simp add: z1_def stored_block_def)
    show ?thesis
    proof (cases "m' < 4")
      case True
      then have "starves (Suc 0) z1"
        using u1 room by (intro starves_stored) (simp_all add: z1_def z0_def between_def)
      then have "starves (Suc (Suc (Suc 0))) (between 0 i os z)"
        by (intro starves_step [OF s0] starves_step [OF s1])
      then show ?thesis by (rule starves_mono) simp
    next
      case False
      then obtain k where k: "m' = 4 + k" using le_Suc_ex [of 4 m'] by auto
      have u1': "unread z1 = [length bs mod 256, length bs div 256, 255 - length bs mod 256, 255 - length bs div 256] @ take k bs"
        unfolding u1 k take_append by simp
      then have s2: "step n 0 z1 = Again z2" for n
        using do_stored_length [OF u1' bs(1)] by (simp add: step_modes z1_def z2_def)
      have s3: "step n 0 z2 = Again z3" for n
        by (simp add: step_modes z2_def z3_def)
      have "unread z3 = take k bs"
        using u1' unread_moved [of z3 z1 4] by (simp add: z3_def z2_def)
      then have "starves (Suc (Suc 0)) z3"
        using m m' k bs(2) by (intro starves_copy) (simp_all add: z3_def z2_def z1_def z0_def between_def)
      then have "starves (Suc (Suc (Suc (Suc (Suc (Suc 0)))))) (between 0 i os z)"
        by (intro starves_step [OF s0] starves_step [OF s1] starves_step [OF s2] starves_step [OF s3])
      then show ?thesis by (rule starves_mono) simp
    qed
  qed
qed

lemma trailer_cut:
  assumes "drop i (inp z) = take m (be4 c)" "m < 4" "length os < 65536" "wrap z \<noteq> 0"
  shows "starves 6 (between 1 i os z)"
proof -
  define z0 where "z0 = (between 1 i os z)\<lparr>zmode := M_TYPEDO\<rparr>"
  define z1 where "z1 = z0\<lparr>zmode := M_CHECK\<rparr>"
  have s0: "step n 0 (between 1 i os z) = Again z0" for n
    by (simp add: step_modes z0_def between_def)
  have s1: "step n 0 z0 = Again z1" for n
    by (simp add: step_modes z0_def z1_def between_def do_typedo_def drop_bits_def)
  have "unread z1 = take m (be4 c)" using assms(1) by (simp add: unread_def z1_def z0_def between_def)
  then have "starves (Suc 0) z1"
    using assms by (intro starves_check) (simp_all add: z1_def z0_def between_def)
  then have "starves (Suc (Suc (Suc 0))) (between 1 i os z)"
    by (intro starves_step [OF s0] starves_step [OF s1])
  then show ?thesis by (rule starves_mono) simp
qed

text \<open>A prefix of a block and what follows it: cut in the block, or the block and a prefix of the rest.\<close>

lemma stored_block_prefix:
  assumes "drop i (inp z) = take m (stored_block l bs @ r)" "l < 2" "length bs < 65536" "length os + length bs < 65536"
    and rest: "\<And>m'. m = 5 + length bs + m' \<Longrightarrow> drop (i + 5 + length bs) (inp z) = take m' r \<Longrightarrow>
      starves b (between l (i + 5 + length bs) (os @ bs) z)"
  shows "starves (6 + b) (between 0 i os z)"
proof (cases "m < 5 + length bs")
  case True
  then have "starves 6 (between 0 i os z)"
    using stored_block_cut [of i z m l bs os] assms(1-4) by simp
  then show ?thesis by (rule starves_mono) simp
next
  case False
  then obtain m' where m': "m = 5 + length bs + m'" using le_Suc_ex [of "5 + length bs" m] by auto
  have d: "drop i (inp z) = stored_block l bs @ take m' r" using assms(1) m' by simp
  then have "drop (length (stored_block l bs)) (drop i (inp z)) = take m' r" by simp
  then have "drop (i + 5 + length bs) (inp z) = take m' r" by (simp add: add.commute add.left_commute)
  then have "starves b (between l (i + 5 + length bs) (os @ bs) z)" by (rule rest [OF m'])
  moreover have "runs 6 (between 0 i os z) (between l (i + 5 + length bs) (os @ bs) z)"
    by (rule stored_block_runs [OF d]) (use assms(2-4) in simp_all)
  ultimately show ?thesis by (rule starves_runs [rotated])
qed

lemma stored_blocks_cut:
  "bss \<noteq> [] \<Longrightarrow> drop i (inp z) = take m (stored_blocks bss @ be4 c) \<Longrightarrow> m < length (stored_blocks bss) + 4 \<Longrightarrow>
   list_all (\<lambda>bs. length bs < 65536) bss \<Longrightarrow> length os + length (concat bss) < 65536 \<Longrightarrow> wrap z \<noteq> 0 \<Longrightarrow>
   starves (6 * length bss + 6) (between 0 i os z)"
proof (induction bss arbitrary: i os m rule: stored_blocks.induct)
  case (2 bs)
  have "starves (6 + 6) (between 0 i os z)"
  proof (rule stored_block_prefix [of _ _ m 1 bs "be4 c"])
    fix m'
    assume "m = 5 + length bs + m'" "drop (i + 5 + length bs) (inp z) = take m' (be4 c)"
    then show "starves 6 (between 1 (i + 5 + length bs) (os @ bs) z)"
      using "2.prems" by (intro trailer_cut) simp_all
  qed (use "2.prems" in simp_all)
  then show ?case by simp
next
  case (3 bs bs2 bss)
  have "starves (6 + (6 * length (bs2 # bss) + 6)) (between 0 i os z)"
  proof (rule stored_block_prefix [of _ _ m 0 bs "stored_blocks (bs2 # bss) @ be4 c"])
    fix m'
    assume "m = 5 + length bs + m'" "drop (i + 5 + length bs) (inp z) = take m' (stored_blocks (bs2 # bss) @ be4 c)"
    then show "starves (6 * length (bs2 # bss) + 6) (between 0 (i + 5 + length bs) (os @ bs) z)"
      using "3.prems" by (intro "3.IH") (simp_all add: add.commute)
  qed (use "3.prems" in simp_all)
  then show ?case by simp
qed simp

lemma pako_inflate_starves: "starves b (started t) \<Longrightarrow> b + 2 \<le> fuel \<Longrightarrow> pako_inflate fuel t = Inr None"
  unfolding starves_def using pako_inflate_starved by blast

lemma pako_inflate_cut:
  assumes "bss \<noteq> []" "list_all (\<lambda>bs. length bs < 65536) bss" "length (concat bss) < 65536"
    and "m < length (zlib_stored c bss)" "6 * length bss + 9 \<le> fuel"
  shows "pako_inflate fuel (take m (zlib_stored c bss)) = Inr None"
proof (rule pako_inflate_starves [of "6 * length bss + 7"])
  let ?t = "take m (zlib_stored c bss)"
  show "starves (6 * length bss + 7) (started ?t)"
  proof (cases "m < 2")
    case True
    have "starves (Suc 0) (started ?t)"
    proof -
      obtain k where "do_head (started ?t) = need 16 (started ?t) k" by (simp add: do_head_def)
      then show ?thesis using starves_need [of "started ?t" 16 "started ?t" k] True
        by (simp add: step_modes unread_def)
    qed
    then show ?thesis by (rule starves_mono) simp
  next
    case False
    then obtain m' where m': "m = 2 + m'" using le_Suc_ex [of 2 m] by auto
    have t: "drop 2 ?t = take m' (stored_blocks bss @ be4 c)" "take 2 ?t = [120, 1]"
      by (simp_all add: m' zlib_stored_def)
    obtain z where r: "runs 1 (started ?t) (between 0 2 [] z)" and z: "inp z = ?t" "wrap z = 7"
      by (rule head_runs [OF t])
    have "starves (6 * length bss + 6) (between 0 2 [] z)"
      by (rule stored_blocks_cut [OF assms(1)]) (use assms t(1) z m' in \<open>simp_all add: zlib_stored_def add.commute\<close>)
    then have "starves (1 + (6 * length bss + 6)) (started ?t)" by (rule starves_runs [OF r])
    then show ?thesis by (rule starves_mono) simp
  qed
qed (use assms(5) in simp)

lemma pako_inflate_header:
  assumes "t = a # b # r" "a < 256" "b < 256" "\<not> (a = 31 \<and> b = 139)" "5 \<le> fuel"
    and "(a * 256 + b) mod 31 \<noteq> 0 \<or> a mod 16 \<noteq> 8 \<or> 128 \<le> a"
  shows "pako_inflate fuel t = Inl (Runtime
    (if (a * 256 + b) mod 31 \<noteq> 0 then ''incorrect header check''
     else if a mod 16 \<noteq> 8 then ''unknown compression method'' else ''invalid window size''))"
proof -
  obtain z where h: "do_head (started t) = Again z" and c:
    "if (a * 256 + b) mod 31 \<noteq> 0 then zmode z = M_BAD \<and> msg z = ''incorrect header check''
     else if a mod 16 \<noteq> 8 then zmode z = M_BAD \<and> msg z = ''unknown compression method''
     else if 128 \<le> a then zmode z = M_BAD \<and> msg z = ''invalid window size'' else True"
    using do_head_bytes [OF assms(1-4)] by meson
  have z: "zmode z = M_BAD" "msg z = (if (a * 256 + b) mod 31 \<noteq> 0 then ''incorrect header check''
     else if a mod 16 \<noteq> 8 then ''unknown compression method'' else ''invalid window size'')"
    using c assms(6) by (simp_all split: if_splits)
  have "ends (Suc (Suc 0)) (started t) (Leave (-3) z)"
    using step_modes(10) [OF z(1)] by (intro ends_step [OF _ ends_leave]) (simp_all add: step_modes h)
  then show ?thesis using pako_inflate_fails [of "Suc (Suc 0)" t z fuel] assms(5) z(2) by simp
qed

text \<open>The magic number of gzip, and a second look at the two bytes behind it.\<close>

lemma pako_inflate_gzip_header:
  assumes "t = 31 # 139 # m # f # r" "m < 256" "f < 256" "m \<noteq> 8 \<or> 32 \<le> f" "5 \<le> fuel"
  shows "pako_inflate fuel t = Inl (Runtime (if m \<noteq> 8 then ''unknown compression method'' else ''unknown header flags set''))"
proof -
  define z1 where "z1 = (started t)\<lparr>hold := 35615, bits := 16, next_in := 2\<rparr>"
  have n: "need 16 (started t) k = k z1" for k
    using need_whole [of "started t" "[31, 139]" "m # f # r" 16 k] assms(1) by (simp add: unread_def z1_def numeral_2_eq_2)
  define z2 where "z2 = init_bits (z1\<lparr>zcheck := crc32 0 [31, 139], zmode := M_FLAGS\<rparr>)"
  have w15: "z1\<lparr>wbits := 15\<rparr> = z1" by (simp add: z1_def started_def init_stream_def inflateGetHeader_def inflateReset_def inflateResetKeep_def)
  have bit1: "has_bit 7 1" by (simp add: has_bit_def)
  have s1: "step n 0 (started t) = Again z2" for n
  proof -
    have "do_head (started t) = Again z2"
      unfolding do_head_def n using bit1 by (simp add: z1_def [symmetric] z2_def w15) (simp add: z1_def)
    then show ?thesis by (simp add: step_modes)
  qed
  have u: "unread z2 = m # f # r" "bits z2 = 0" "hold z2 = 0" "zmode z2 = M_FLAGS"
    by (simp_all add: unread_def z2_def z1_def init_bits_def assms(1) numeral_2_eq_2)
  define z3 where "z3 = z2\<lparr>hold := m + 256 * f, bits := 16, next_in := next_in z2 + 2, zflags := int (m + 256 * f)\<rparr>"
  have n2: "need 16 z2 k = k (z2\<lparr>hold := m + 256 * f, bits := 16, next_in := next_in z2 + 2\<rparr>)" for k
    using need_whole [of z2 "[m, f]" r 16 k] u by (simp add: numeral_2_eq_2)
  have v: "(m + 256 * f) mod 256 = m" using assms(2) by simp
  have fl: "32 \<le> f \<Longrightarrow> (m + 256 * f) div 8192 mod 8 \<noteq> 0"
  proof -
    assume f: "32 \<le> f"
    have "(m + 256 * f) div 8192 = (m + 256 * f) div 256 div 32" using div_mult2_eq [of "m + 256 * f" 256 32] by simp
    also have "\<dots> = f div 32" using assms(2) by simp
    finally show ?thesis using f assms(3) by simp
  qed
  define z4 where "z4 = bad (if m \<noteq> 8 then ''unknown compression method'' else ''unknown header flags set'') z3"
  have s2: "step n 0 z2 = Again z4" for n
  proof -
    have "do_flags z2 = Again z4"
      unfolding do_flags_def n2 using v fl assms(4) by (auto simp: z4_def z3_def Let_def)
    then show ?thesis by (simp add: step_def u(4))
  qed
  have z4: "zmode z4 = M_BAD" "msg z4 = (if m \<noteq> 8 then ''unknown compression method'' else ''unknown header flags set'')"
    by (simp_all add: z4_def bad_def)
  have "ends (Suc (Suc (Suc 0))) (started t) (Leave (-3) z4)"
    by (rule ends_step [OF s1 ends_step [OF s2 ends_leave]]) (simp add: step_modes(10) [OF z4(1)])
  then show ?thesis using pako_inflate_fails [of "Suc (Suc (Suc 0))" t z4 fuel] assms(5) z4(2) by simp
qed

text \<open>Fewer than two bytes are not enough for a header.\<close>

lemma pako_inflate_no_header:
  assumes "length t < 2" "3 \<le> fuel"
  shows "pako_inflate fuel t = Inr None"
proof (rule pako_inflate_starves)
  obtain k where "do_head (started t) = need 16 (started t) k" by (simp add: do_head_def)
  then show "starves (Suc 0) (started t)"
    using starves_need [of "started t" 16 "started t" k] assms(1) by (simp add: step_modes unread_def)
qed (use assms(2) in simp)

text \<open>The first check of the header that fails, gzip (RFC 1952) or zlib (RFC 1950).\<close>

fun header_error :: "nat list \<Rightarrow> string option" where
  "header_error (a # b # r) =
     (if a = 31 \<and> b = 139 then
        (case r of
           m # f # _ \<Rightarrow> if m \<noteq> 8 then Some ''unknown compression method'' else if 32 \<le> f then Some ''unknown header flags set'' else None
         | _ \<Rightarrow> None)
      else if (a * 256 + b) mod 31 \<noteq> 0 then Some ''incorrect header check''
      else if a mod 16 \<noteq> 8 then Some ''unknown compression method''
      else if 128 \<le> a then Some ''invalid window size'' else None)"
| "header_error _ = None"

lemma pako_inflate_header_error:
  assumes "all_bytes t" "header_error t = Some m" "5 \<le> fuel"
  shows "pako_inflate fuel t = Inl (Runtime m)"
proof -
  obtain a b r where t: "t = a # b # r" using assms(2) by (cases t rule: header_error.cases) auto
  show ?thesis
  proof (cases "a = 31 \<and> b = 139")
    case True
    then obtain c f r' where r: "r = c # f # r'" using assms(2) t by (auto split: list.splits)
    show ?thesis
      using pako_inflate_gzip_header [of t c f r' fuel] assms True by (auto simp: t r split: if_splits)
  next
    case False
    then show ?thesis using pako_inflate_header [OF t _ _ False assms(3)] assms(1,2) by (auto simp: t split: if_splits)
  qed
qed

end
