(* ===== verification/Script.thy ===== *)
theory Script
  imports Pako_Stored
begin

text \<open>
  The script level of the diagram plugin's \<open>main.js\<close>: the module wrapper around \<open>pako\<close> (lines 2 to 9),
  \<open>unpackBase64Deflate\<close> (lines 12 to 19), which unpacks the language packs and the drawing library, and the
  global values the rest of the file uses (lines 19, 20, 22, 23, 27).
\<close>

section \<open>The module wrapper\<close>

text \<open>A module's exports, of which the functions that decompress are modelled.\<close>

type_synonym exports = "string \<rightharpoonup> (nat \<Rightarrow> nat list \<Rightarrow> nat list option result)"

definition factory :: "exports \<Rightarrow> exports" where
  "factory t = t(''inflate'' \<mapsto> pako_inflate, ''inflateRaw'' \<mapsto> pako_inflateRaw, ''ungzip'' \<mapsto> pako_inflate)"

text \<open>
  Line 6 looks for a module system: the \<open>exports\<close> of the enclosing function, \<open>define\<close> with \<open>amd\<close>, else a
  property \<open>pako\<close> of the global object.  The result is what \<open>module.exports\<close> holds then.
\<close>

definition umd :: "bool \<Rightarrow> bool \<Rightarrow> exports \<Rightarrow> exports" where
  "umd exports_is_object module_defined e = (if exports_is_object \<and> module_defined then factory e else e)"

text \<open>\<open>const module = { exports: {} }; const exports = module.exports; ...; return module.exports;\<close>\<close>

definition pako :: exports where
  "pako = (let module_exports = Map.empty in umd True True module_exports)"

lemma pako_functions [simp]:
  "pako ''inflate'' = Some pako_inflate" "pako ''ungzip'' = Some pako_inflate" "pako ''inflateRaw'' = Some pako_inflateRaw"
  by (simp_all add: pako_def umd_def factory_def)

section \<open>unpackBase64Deflate\<close>

definition to_bytes :: "js_text \<Rightarrow> nat list" where
  "to_bytes binStr = map (\<lambda>u. u mod 256) binStr"

definition unpackBase64Deflate :: "nat \<Rightarrow> js_text \<Rightarrow> js_text result" where
  "unpackBase64Deflate fuel b64 =
     bindE (atob b64) (\<lambda>binStr.
     let bytes = to_bytes binStr in
     case pako ''inflate'' of
       None \<Rightarrow> Inl (Runtime ''TypeError: pako.inflate is not a function'')
     | Some f \<Rightarrow> bindE (f fuel bytes) (\<lambda>r. Inr (text_decode r)))"

section \<open>Globals\<close>

text \<open>
  The values the plugin code reads: \<open>window.unpackBase64Deflate\<close>, the packed drawing library (the literal of
  line 20 is a parameter), the packed languages (the literals of line 23 are parameters), the version.
\<close>

record globals =
  window_unpack :: "(js_text \<Rightarrow> js_text result) option"
  unpack_library :: "js_text result"
  PLUGIN_LANGUAGES :: "(string \<times> js_text) list"
  PLUGIN_VERSION :: string

definition unpackExcalidraw :: "nat \<Rightarrow> js_text \<Rightarrow> js_text result" where
  "unpackExcalidraw fuel library = unpackBase64Deflate fuel library"

definition plugin_languages :: "js_text \<Rightarrow> js_text \<Rightarrow> js_text \<Rightarrow> js_text \<Rightarrow> (string \<times> js_text) list" where
  "plugin_languages ru zh_cn zh_tw es = [(''ru'', ru), (''zh-cn'', zh_cn), (''zh-tw'', zh_tw), (''es'', es)]"

definition plugin_version :: string where
  "plugin_version = ''2.26.4''"

definition script :: "nat \<Rightarrow> js_text \<Rightarrow> js_text \<Rightarrow> js_text \<Rightarrow> js_text \<Rightarrow> js_text \<Rightarrow> globals" where
  "script fuel library ru zh_cn zh_tw es =
     \<lparr>window_unpack = Some (unpackBase64Deflate fuel), unpack_library = unpackExcalidraw fuel library,
      PLUGIN_LANGUAGES = plugin_languages ru zh_cn zh_tw es, PLUGIN_VERSION = plugin_version\<rparr>"

lemma script_simps [simp]:
  "window_unpack (script fuel library ru zh_cn zh_tw es) = Some (unpackBase64Deflate fuel)"
  "unpack_library (script fuel library ru zh_cn zh_tw es) = unpackBase64Deflate fuel library"
  "PLUGIN_LANGUAGES (script fuel library ru zh_cn zh_tw es) = [(''ru'', ru), (''zh-cn'', zh_cn), (''zh-tw'', zh_tw), (''es'', es)]"
  "PLUGIN_VERSION (script fuel library ru zh_cn zh_tw es) = ''2.26.4''"
  by (simp_all add: script_def unpackExcalidraw_def plugin_languages_def plugin_version_def)

section \<open>What unpacking gives\<close>

lemma to_bytes_bytes [simp]: "all_bytes bs \<Longrightarrow> to_bytes bs = bs"
  by (induction bs) (simp_all add: to_bytes_def)

lemma unpack_base64:
  "all_bytes bs \<Longrightarrow> unpackBase64Deflate fuel (base64 bs) = bindE (pako_inflate fuel bs) (\<lambda>r. Inr (text_decode r))"
  by (simp add: unpackBase64Deflate_def atob_base64)

lemma stored_bytes: "l < 256 \<Longrightarrow> length bs < 65536 \<Longrightarrow> all_bytes bs \<Longrightarrow> all_bytes (stored_block l bs)"
  by (simp add: stored_block_def less_mult_imp_div_less less_imp_diff_less)

lemma zlib_stored_bytes:
  assumes "list_all (\<lambda>bs. length bs < 65536) bss" "all_bytes (concat bss)"
  shows "all_bytes (zlib_stored c bss)"
proof -
  have "all_bytes (stored_blocks bss)"
    using assms by (induction bss rule: stored_blocks.induct) (simp_all add: stored_bytes)
  then show ?thesis by (simp add: zlib_stored_def be4_def)
qed

lemma all_bytes_take: "all_bytes bs \<Longrightarrow> all_bytes (take m bs)"
  by (auto simp: all_bytes_def list_all_iff dest: in_set_takeD)

lemma unpack_stored_text:
  assumes "list_all scalar cs" "cs \<noteq> [] \<longrightarrow> hd cs \<noteq> 65279"
    and "bss \<noteq> []" "concat bss = utf8 cs" "list_all (\<lambda>bs. length bs < 65536) bss" "length (utf8 cs) \<le> 65536"
    and "c < 4294967296" "6 * length bss + 9 \<le> fuel"
  shows "unpackBase64Deflate fuel (base64 (zlib_stored c bss)) =
    (if c = adler_reference (utf8 cs) then Inr (utf16 cs) else Inl (Runtime ''incorrect data check''))"
proof -
  have b: "all_bytes (concat bss)" using utf8_bytes [OF assms(1)] assms(4) by simp
  have "pako_inflate fuel (zlib_stored c bss) =
      (if c = adler_reference (utf8 cs) then Inr (Some (utf8 cs)) else Inl (Runtime ''incorrect data check''))"
    using pako_inflate_stored [OF assms(3,5) _ b assms(7,8)] assms(4,6) by simp
  then show ?thesis
    using unpack_base64 [OF zlib_stored_bytes [OF assms(5) b], of fuel c] text_decode_utf8 [OF assms(1,2)] by simp
qed

text \<open>
  What the users of packed text rely on: a text that was packed properly is unpacked to its content.
\<close>

locale text_pack =
  fixes unpack :: "js_text \<Rightarrow> js_text result"
    and pack :: "'a \<Rightarrow> js_text"
    and packable :: "'a \<Rightarrow> bool"
    and content :: "'a \<Rightarrow> js_text"
  assumes unpack_pack: "packable x \<Longrightarrow> unpack (pack x) = Inr (content x)"

text \<open>Code points in stored blocks.\<close>

definition pack_stored :: "nat list \<times> nat list list \<Rightarrow> js_text" where
  "pack_stored x = (case x of (cs, bss) \<Rightarrow> base64 (zlib_stored (adler_reference (utf8 cs)) bss))"

definition storable :: "nat \<Rightarrow> nat list \<times> nat list list \<Rightarrow> bool" where
  "storable fuel x \<longleftrightarrow> (case x of (cs, bss) \<Rightarrow>
     list_all scalar cs \<and> (cs \<noteq> [] \<longrightarrow> hd cs \<noteq> 65279) \<and> bss \<noteq> [] \<and> concat bss = utf8 cs \<and>
     list_all (\<lambda>bs. length bs < 65536) bss \<and> length (utf8 cs) \<le> 65536 \<and> 6 * length bss + 9 \<le> fuel)"

interpretation stored_text: text_pack "unpackBase64Deflate fuel" pack_stored "storable fuel" "\<lambda>x. utf16 (fst x)" for fuel
proof unfold_locales
  fix fuel and x :: "nat list \<times> nat list list"
  assume ok: "storable fuel x"
  obtain cs bss where x: "x = (cs, bss)" by (cases x)
  show "unpackBase64Deflate fuel (pack_stored x) = Inr (utf16 (fst x))"
    using unpack_stored_text [of cs bss "adler_reference (utf8 cs)" fuel] ok adler_reference_less
    by (simp add: pack_stored_def storable_def x)
qed

text \<open>Text packed as a zlib stream of stored blocks in Base64 is unpacked to itself: the code points come
  back as the UTF-16 text (when they do not begin with a byte order mark), provided the checksum at the end of
  the stream is the Adler-32 of the bytes; with any other checksum the call throws.\<close>

theorem unpack_stored:
  assumes "list_all scalar cs" "cs \<noteq> [] \<longrightarrow> hd cs \<noteq> 65279"
    and "bss \<noteq> []" "concat bss = utf8 cs" "list_all (\<lambda>bs. length bs < 65536) bss" "length (utf8 cs) \<le> 65536"
    and "c < 4294967296" "6 * length bss + 9 \<le> fuel"
  shows "unpackBase64Deflate fuel (base64 (zlib_stored c bss)) =
    (if c = adler_reference (utf8 cs) then Inr (utf16 cs) else Inl (Runtime ''incorrect data check''))"
  using assms by (rule unpack_stored_text)

text \<open>Two blocks with the text of U+0068, U+00E9, U+4E2D and U+1F600.\<close>

theorem unpack_stored_witness:
  "unpackBase64Deflate 30 (base64 (zlib_stored (adler_reference (utf8 [104, 233, 20013, 128512]))
     [[104, 195, 169, 228], [184, 173, 240, 159, 152, 128]])) = Inr [104, 233, 20013, 55357, 56832]"
proof -
  let ?bss = "[[104, 195, 169, 228], [184, 173, 240, 159, 152, 128]]"
  have u: "concat ?bss = utf8 [104, 233, 20013, 128512]" by (simp add: utf8_char_def)
  have l: "length (utf8 [104, 233, 20013, 128512]) \<le> 65536" by (simp add: utf8_char_def)
  have "unpackBase64Deflate 30 (base64 (zlib_stored (adler_reference (utf8 [104, 233, 20013, 128512])) ?bss)) =
      Inr (utf16 [104, 233, 20013, 128512])"
    using unpack_stored [of "[104, 233, 20013, 128512]" ?bss "adler_reference (utf8 [104, 233, 20013, 128512])" 30, OF _ _ _ u _ l]
    by (simp add: scalar_def adler_reference_less del: utf8_simps)
  then show ?thesis by (simp only: utf16_def) simp
qed

text \<open>C10: A stream of stored blocks cut short is not an error: every proper prefix of a zlib stream (header 120, 1) of stored
  blocks with less than 65536 bytes of content, the empty prefix included, is unpacked to the empty text, because
  \<open>pako.inflate\<close> then returns \<open>undefined\<close> and \<open>decode\<close> of \<open>undefined\<close> is empty.\<close>

theorem unpack_cut:
  assumes "bss \<noteq> []" "list_all (\<lambda>bs. length bs < 65536) bss" "length (concat bss) < 65536" "all_bytes (concat bss)"
    and "m < length (zlib_stored c bss)" "6 * length bss + 9 \<le> fuel"
  shows "unpackBase64Deflate fuel (base64 (take m (zlib_stored c bss))) = Inr []"
  using unpack_base64 [OF all_bytes_take [OF zlib_stored_bytes [OF assms(2,4)]], of fuel m c]
    pako_inflate_cut [OF assms(1,2,3,5,6)] by (simp add: text_decode_def)

theorem unpack_cut_witness:
  "unpackBase64Deflate 15 (base64 (take 9 (zlib_stored 0 [[104, 105]]))) = Inr []"
  using unpack_cut [of "[[104, 105]]" 9 0 15] by (simp add: zlib_stored_def)

text \<open>C14: Bytes with an invalid header throw the message of the first check that fails: behind the magic number of gzip
  the method and the reserved flags, else the check sum, the method and the window size of zlib.  Fewer than two bytes,
  which hold no header, give the empty text.\<close>

theorem unpack_bad_header:
  assumes "all_bytes bs" "5 \<le> fuel" "header_error bs \<noteq> None \<or> length bs < 2"
  shows "unpackBase64Deflate fuel (base64 bs) = (case header_error bs of Some m \<Rightarrow> Inl (Runtime m) | None \<Rightarrow> Inr [])"
  using unpack_base64 [OF assms(1), of fuel] pako_inflate_header_error [OF assms(1) _ assms(2)] pako_inflate_no_header [of bs fuel] assms(2,3)
  by (cases "header_error bs") (simp_all add: text_decode_def)

theorem unpack_bad_header_witness:
  "unpackBase64Deflate 5 (base64 [136, 28, 0]) = Inl (Runtime ''invalid window size'') \<and>
   unpackBase64Deflate 5 (base64 [31, 139, 8, 64, 0]) = Inl (Runtime ''unknown header flags set'') \<and>
   unpackBase64Deflate 5 (base64 [120]) = Inr []"
  using unpack_bad_header [of "[136, 28, 0]" 5] unpack_bad_header [of "[31, 139, 8, 64, 0]" 5] unpack_bad_header [of "[120]" 5]
  by (simp del: base64.simps)

end
