(* ===== verification/Package_Manager.thy ===== *)
theory Package_Manager
  imports Error_Handler Script "HOL-Library.AList"
begin

text \<open>
  The class \<open>PackageManager\<close> of the plugin (line 30 of \<open>main.js\<close>) with \<open>updateExcalidrawLib\<close>: it unpacks and
  evaluates the drawing library, once per window, and keeps the packages it got.  What the evaluated text gives
  is a parameter: \<open>ev\<close> evaluates a text in a window, with the globals it leaves there, and
  \<open>destroyObsidianUtils\<close> of a library may throw.
\<close>

section \<open>State\<close>

text \<open>A library: its identity, whether it is an object, and the names under which it has functions.\<close>

record library =
  lib_ref :: nat
  lib_object :: bool
  lib_functions :: "string list"

text \<open>The other values are known by their identity; \<open>None\<close> is a missing value.\<close>

record package =
  react :: "nat option"
  reactDOM :: "nat option"
  excalidrawLib :: "library option"

record window_globals =
  ExcalidrawLib :: "nat option"
  React :: "nat option"
  ReactDOM :: "nat option"

text \<open>
  \<open>packageMap\<close> is a \<open>Map\<close>, in the order of insertion; \<open>globals\<close> are the script's \<open>react\<close>, \<open>reactDOM\<close> and
  \<open>excalidrawLib\<close> with \<open>REACT_PACKAGES\<close>; \<open>wins\<close> are the globals of each window, 0 being the main one;
  \<open>EXCALIDRAW_PACKAGE\<close> is \<open>None\<close> while it is undefined.
\<close>

record manager = error_handler +
  packageMap :: "(nat \<times> package) list"
  EXCALIDRAW_PACKAGE :: "js_text option"
  fallbackPackage :: "package option"
  script_package :: package
  REACT_PACKAGES :: js_text
  wins :: "nat \<Rightarrow> window_globals"

text \<open>Lines 21 and 22: \<open>react\<close> and \<open>reactDOM\<close> are what the text of React gives, \<open>excalidrawLib\<close> is an empty object.\<close>

definition script_values :: "nat option \<Rightarrow> nat option \<Rightarrow> package" where
  "script_values r d = \<lparr>react = r, reactDOM = d, excalidrawLib = Some \<lparr>lib_ref = 0, lib_object = True, lib_functions = []\<rparr>\<rparr>"

datatype code = Library_code "js_text option" | Package_code js_text "js_text option"

type_synonym evaluator = "nat \<Rightarrow> code \<Rightarrow> window_globals \<Rightarrow> package result \<times> window_globals"

section \<open>Operations\<close>

definition validatePackage :: "package option \<Rightarrow> bool" where
  "validatePackage e =
     (case e of None \<Rightarrow> False
      | Some p \<Rightarrow> react p \<noteq> None \<and> reactDOM p \<noteq> None \<and>
          (case excalidrawLib p of None \<Rightarrow> False
           | Some t \<Rightarrow> lib_object t \<and> ''restoreElements'' \<in> set (lib_functions t) \<and> ''exportToSvg'' \<in> set (lib_functions t)))"

definition required_functions :: "string list" where
  "required_functions =
     [''sceneCoordsToViewportCoords'', ''viewportCoordsToSceneCoords'', ''intersectElementWithLine'', ''getCommonBoundingBox'',
      ''measureText'', ''getLineHeight'', ''restoreElements'', ''restoreLibraryItems'']"

definition updateExcalidrawLib :: "manager \<Rightarrow> manager" where
  "updateExcalidrawLib m =
     (case excalidrawLib (script_package m) of
        None \<Rightarrow> handleError (Runtime ''excalidrawLib is undefined'') ''updateExcalidrawLib'' True m
      | Some t \<Rightarrow>
          (case find (\<lambda>f. f \<notin> set (lib_functions t)) required_functions of
             None \<Rightarrow> m
           | Some f \<Rightarrow> handleError (Runtime (''Required function '' @ f @ '' is missing from excalidrawLib''))
                        ''updateExcalidrawLib'' True m))"

text \<open>The evaluation of a text in window \<open>w\<close>.\<close>

definition eval_in :: "evaluator \<Rightarrow> nat \<Rightarrow> code \<Rightarrow> (manager, package) action" where
  "eval_in ev w c m = (case ev w c (wins m w) of (r, g) \<Rightarrow> (r, m\<lparr>wins := (wins m)(w := g)\<rparr>))"

definition setPackage :: "nat \<Rightarrow> package \<Rightarrow> manager \<Rightarrow> manager" where
  "setPackage w t m =
     (if validatePackage (Some t) then
        let m = m\<lparr>packageMap := AList.update w t (packageMap m)\<rparr> in
        if fallbackPackage m = None then m\<lparr>fallbackPackage := Some t\<rparr> else m
      else handleError (Runtime ''Attempted to set invalid package'') ''PackageManager.setPackage'' True m)"

definition getPackageMap :: "manager \<Rightarrow> (nat \<times> package) list" where
  "getPackageMap m = packageMap m"

text \<open>The function that \<open>getPackage\<close> runs for a window that has no package.\<close>

definition create_package :: "evaluator \<Rightarrow> nat \<Rightarrow> (manager, package option) action" where
  "create_package ev w m =
     (case safeEval (eval_in ev w (Package_code (REACT_PACKAGES m) (EXCALIDRAW_PACKAGE m)))
             ''PackageManager.getPackage - package evaluation'' None m of
        (Inl e, m) \<Rightarrow> (Inl e, m)
      | (Inr t, m) \<Rightarrow>
          if \<not> validatePackage (Some t) then (Inl (Runtime ''Failed to create valid package''), m)
          else (Inr (Some t), m\<lparr>packageMap := AList.update w t (packageMap m)\<rparr>))"

text \<open>The result \<open>Inr None\<close> is \<open>null\<close>: the fallback is passed on as it is.\<close>

definition getPackage :: "evaluator \<Rightarrow> nat \<Rightarrow> (manager, package option) action" where
  "getPackage ev w m =
     (let cached = map_of (packageMap m) w in
      if cached \<noteq> None \<and> validatePackage cached then (Inr cached, m)
      else
        let m = (if cached \<noteq> None then m\<lparr>packageMap := AList.delete w (packageMap m)\<rparr> else m) in
        case wrapWithTryCatch (create_package ev w) ''PackageManager.getPackage'' (Some (fallbackPackage m)) m of
          (Inr v, m) \<Rightarrow> (Inr v, m)
        | (Inl e, m) \<Rightarrow>
            let m = handleError e ''PackageManager.getPackage'' True m in
            (case fallbackPackage m of
               Some p \<Rightarrow> (Inr (Some p), m)
             | None \<Rightarrow> (Inl (Runtime ''Failed to get package and no fallback available''), m)))"

text \<open>\<open>destroyed t\<close> is what \<open>destroyObsidianUtils\<close> throws.\<close>

definition update_window :: "nat \<Rightarrow> (window_globals \<Rightarrow> window_globals) \<Rightarrow> manager \<Rightarrow> manager" where
  "update_window w f m = m\<lparr>wins := (wins m)(w := f (wins m w))\<rparr>"

definition cleanup_library :: "(library \<Rightarrow> error option) \<Rightarrow> nat \<Rightarrow> library option \<Rightarrow> (manager, unit) action" where
  "cleanup_library destroyed w lib m =
     (case lib of
        Some a \<Rightarrow>
          (case (if ''destroyObsidianUtils'' \<in> set (lib_functions a) then destroyed a else None) of
             Some e \<Rightarrow> (Inl e, m)
           | None \<Rightarrow> (Inr (), update_window w (\<lambda>g. g\<lparr>ExcalidrawLib := None\<rparr>) m))
      | None \<Rightarrow> (Inr (), update_window w (\<lambda>g. g\<lparr>ExcalidrawLib := None\<rparr>) m))"

definition deletePackage :: "(library \<Rightarrow> error option) \<Rightarrow> nat \<Rightarrow> manager \<Rightarrow> manager" where
  "deletePackage destroyed w m =
     (case map_of (packageMap m) w of
        None \<Rightarrow> m
      | Some t \<Rightarrow>
          (case (if ExcalidrawLib (wins m w) = map_option lib_ref (excalidrawLib t)
                 then wrapWithTryCatch (cleanup_library destroyed w (excalidrawLib t))
                        ''PackageManager.deletePackage - cleanup ExcalidrawLib'' None m
                 else (Inr (), m)) of
             (Inl e, m) \<Rightarrow> handleError e ''PackageManager.deletePackage'' True m
           | (Inr _, m) \<Rightarrow>
               let m = (if React (wins m w) = react t then update_window w (\<lambda>g. g\<lparr>React := None\<rparr>) m else m);
                   m = (if ReactDOM (wins m w) = reactDOM t then update_window w (\<lambda>g. g\<lparr>ReactDOM := None\<rparr>) m else m)
               in m\<lparr>packageMap := AList.delete w (packageMap m)\<rparr>))"

definition setExcalidrawPackage :: "js_text \<Rightarrow> manager \<Rightarrow> manager" where
  "setExcalidrawPackage e m = m\<lparr>EXCALIDRAW_PACKAGE := Some e\<rparr>"

definition destroy :: "(library \<Rightarrow> error option) \<Rightarrow> manager \<Rightarrow> manager" where
  "destroy destroyed m =
     (let m = m\<lparr>REACT_PACKAGES := []\<rparr>;
          m = foldl (\<lambda>m w. deletePackage destroyed w m) m (map fst (packageMap m))
      in m\<lparr>packageMap := [], EXCALIDRAW_PACKAGE := Some [], fallbackPackage := None,
           script_package := \<lparr>react = None, reactDOM = None, excalidrawLib = None\<rparr>\<rparr>)"

text \<open>The body of the constructor's \<open>try\<close>; \<open>packed\<close> is what \<open>unpackExcalidraw()\<close> gives.\<close>

definition first_package :: "evaluator \<Rightarrow> js_text result \<Rightarrow> (manager, unit) action" where
  "first_package ev packed m =
     (case packed of
        Inl e \<Rightarrow> (Inl e, m)
      | Inr text \<Rightarrow>
          let m = m\<lparr>EXCALIDRAW_PACKAGE := Some text\<rparr> in
          (case safeEval (eval_in ev 0 (Library_code (Some text)))
                  ''PackageManager constructor - excalidrawLib initialization'' None m of
             (Inl e, m) \<Rightarrow> (Inl e, m)
           | (Inr r, m) \<Rightarrow>
               let m = m\<lparr>script_package := (script_package m)\<lparr>excalidrawLib := excalidrawLib r\<rparr>\<rparr> in
               if excalidrawLib r = None then (Inl (Runtime ''Failed to initialize excalidrawLib''), m)
               else
                 let m = updateExcalidrawLib m; e = script_package m in
                 if \<not> validatePackage (Some e) then (Inl (Runtime ''Invalid initial package''), m)
                 else (Inr (), (setPackage 0 e m)\<lparr>fallbackPackage := Some e\<rparr>)))"

definition new_manager :: "evaluator \<Rightarrow> js_text result \<Rightarrow> manager \<Rightarrow> manager" where
  "new_manager ev packed m0 =
     (let m = m0\<lparr>packageMap := [], EXCALIDRAW_PACKAGE := None, fallbackPackage := None\<rparr> in
      case first_package ev packed m of
        (Inr _, m) \<Rightarrow> m
      | (Inl e, m) \<Rightarrow>
          (let m = handleError e ''PackageManager constructor'' True m in
           m\<lparr>notices := notices m @ [''Error loading the Excalidraw package. Some features may not work correctly.'']\<rparr>))"

section \<open>Every package that is kept is valid\<close>

definition manager_ok :: "manager \<Rightarrow> bool" where
  "manager_ok m \<longleftrightarrow>
     (\<forall>w p. map_of (packageMap m) w = Some p \<longrightarrow> validatePackage (Some p)) \<and> distinct (map fst (packageMap m)) \<and>
     (\<forall>p. fallbackPackage m = Some p \<longrightarrow> validatePackage (Some p)) \<and>
     length (errorLog m) \<le> 100"

lemma handleError_manager [simp]:
  "packageMap (handleError e ctx n m) = packageMap m" "fallbackPackage (handleError e ctx n m) = fallbackPackage m"
  "EXCALIDRAW_PACKAGE (handleError e ctx n m) = EXCALIDRAW_PACKAGE m" "REACT_PACKAGES (handleError e ctx n m) = REACT_PACKAGES m"
  "script_package (handleError e ctx n m) = script_package m" "wins (handleError e ctx n m) = wins m"
  by (simp_all add: handleError_def Let_def)

lemma ok_handleError [inv_intros]: "manager_ok m \<Longrightarrow> manager_ok (handleError e ctx n m)"
  using latest_length [of 100] by (simp add: manager_ok_def handleError_log maxLogEntries_def)

lemma ok_fields [inv_intros]:
  "manager_ok m \<Longrightarrow> manager_ok (m\<lparr>wins := ws\<rparr>)" "manager_ok m \<Longrightarrow> manager_ok (m\<lparr>EXCALIDRAW_PACKAGE := x\<rparr>)"
  "manager_ok m \<Longrightarrow> manager_ok (m\<lparr>script_package := p\<rparr>)" "manager_ok m \<Longrightarrow> manager_ok (m\<lparr>REACT_PACKAGES := r\<rparr>)"
  "manager_ok m \<Longrightarrow> manager_ok (m\<lparr>notices := ns\<rparr>)" "manager_ok m \<Longrightarrow> manager_ok (m\<lparr>packageMap := []\<rparr>)"
  "manager_ok m \<Longrightarrow> manager_ok (m\<lparr>fallbackPackage := None\<rparr>)"
  by (simp_all add: manager_ok_def)

lemma ok_fallback: "manager_ok m \<Longrightarrow> validatePackage (Some p) \<Longrightarrow> manager_ok (m\<lparr>fallbackPackage := Some p\<rparr>)"
  by (simp add: manager_ok_def)

lemma ok_insert: "manager_ok m \<Longrightarrow> validatePackage (Some p) \<Longrightarrow> manager_ok (m\<lparr>packageMap := AList.update w p (packageMap m)\<rparr>)"
  by (simp add: manager_ok_def distinct_update update_conv')

lemma ok_remove: "manager_ok m \<Longrightarrow> manager_ok (m\<lparr>packageMap := AList.delete w (packageMap m)\<rparr>)"
  by (auto simp: manager_ok_def distinct_delete delete_conv' split: if_splits)

lemma ok_eval_in: "eval_in ev w c m = (r, m') \<Longrightarrow> manager_ok m \<Longrightarrow> manager_ok m'"
  by (auto simp: eval_in_def ok_fields split: prod.splits)

lemma ok_wrap:
  assumes "\<And>r m'. f m = (r, m') \<Longrightarrow> manager_ok m'" "wrapWithTryCatch f ctx fb m = (r, m')"
  shows "manager_ok m'"
  using assms by (auto simp: wrapWithTryCatch_def ok_handleError split: prod.splits sum.splits)

lemma ok_safeEval: "safeEval (eval_in ev w c) ctx fb m = (r, m') \<Longrightarrow> manager_ok m \<Longrightarrow> manager_ok m'"
  unfolding safeEval_def by (erule ok_wrap [rotated]) (rule ok_eval_in)

lemma ok_setPackage: "manager_ok m \<Longrightarrow> manager_ok (setPackage w t m)"
  by (auto simp: setPackage_def Let_def intro!: ok_handleError ok_fallback ok_insert)

lemma ok_create_package: "create_package ev w m = (r, m') \<Longrightarrow> manager_ok m \<Longrightarrow> manager_ok m'"
  by (auto simp: create_package_def dest: ok_safeEval intro: ok_insert split: prod.splits sum.splits if_splits)

lemma ok_getPackage:
  assumes "manager_ok m" "getPackage ev w m = (r, m')"
  shows "manager_ok m'"
proof (cases "map_of (packageMap m) w")
  case (Some p)
  then show ?thesis using assms by (auto simp: getPackage_def manager_ok_def Let_def)
next
  case None
  then show ?thesis using assms ok_wrap [of "create_package ev w" m] ok_create_package [of ev w m]
    by (auto simp: getPackage_def Let_def wrapWithTryCatch_def ok_handleError split: prod.splits sum.splits option.splits)
qed

lemma ok_update_window: "manager_ok m \<Longrightarrow> manager_ok (update_window w f m)"
  by (simp add: update_window_def ok_fields)

lemma ok_cleanup: "cleanup_library destroyed w lib m = (r, m') \<Longrightarrow> manager_ok m \<Longrightarrow> manager_ok m'"
  by (auto simp: cleanup_library_def ok_update_window split: option.splits)

lemma ok_deletePackage: "manager_ok m \<Longrightarrow> manager_ok (deletePackage destroyed w m)"
proof (cases "map_of (packageMap m) w")
  case (Some t)
  assume ok: "manager_ok m"
  obtain r m1 where r: "(if ExcalidrawLib (wins m w) = map_option lib_ref (excalidrawLib t)
      then wrapWithTryCatch (cleanup_library destroyed w (excalidrawLib t))
             ''PackageManager.deletePackage - cleanup ExcalidrawLib'' None m
      else (Inr (), m)) = (r, m1)" by (rule prod.exhaust)
  then have "manager_ok m1"
    using ok ok_wrap [of "cleanup_library destroyed w (excalidrawLib t)" m] ok_cleanup [of destroyed w "excalidrawLib t" m]
    by (auto split: if_splits)
  then show ?thesis
    unfolding deletePackage_def Some option.case r
    by (auto simp: Let_def intro: ok_handleError ok_remove ok_update_window split: sum.split)
qed (simp add: deletePackage_def)

lemma ok_delete_all: "manager_ok m \<Longrightarrow> manager_ok (foldl (\<lambda>m w. deletePackage destroyed w m) m ws)"
  by (induction ws arbitrary: m) (simp_all add: ok_deletePackage)

lemma ok_destroy: "manager_ok m \<Longrightarrow> manager_ok (destroy destroyed m)"
proof -
  assume "manager_ok m"
  then have "manager_ok (foldl (\<lambda>m w. deletePackage destroyed w m) (m\<lparr>REACT_PACKAGES := []\<rparr>) (map fst (packageMap m)))"
    by (intro ok_delete_all ok_fields)
  then show ?thesis by (simp add: destroy_def Let_def manager_ok_def)
qed

lemma ok_updateExcalidrawLib: "manager_ok m \<Longrightarrow> manager_ok (updateExcalidrawLib m)"
  by (simp add: updateExcalidrawLib_def ok_handleError split: option.split)

lemma ok_first_package: "first_package ev packed m = (r, m') \<Longrightarrow> manager_ok m \<Longrightarrow> manager_ok m'"
  by (auto simp: first_package_def Let_def dest!: ok_safeEval
      intro!: ok_fallback ok_setPackage ok_updateExcalidrawLib ok_fields split: sum.splits prod.splits if_splits)

lemma ok_new_manager: "length (errorLog m) \<le> 100 \<Longrightarrow> manager_ok (new_manager ev packed m)"
proof -
  assume l: "length (errorLog m) \<le> 100"
  obtain r m' where r: "first_package ev packed (m\<lparr>packageMap := [], EXCALIDRAW_PACKAGE := None, fallbackPackage := None\<rparr>) = (r, m')"
    by (rule prod.exhaust)
  have "manager_ok m'" by (rule ok_first_package [OF r]) (simp add: manager_ok_def l)
  then show ?thesis by (cases r) (simp_all add: new_manager_def r Let_def ok_handleError ok_fields)
qed

text \<open>What the plugin does with its manager, with the errors other components report.\<close>

inductive manager_step :: "evaluator \<Rightarrow> (library \<Rightarrow> error option) \<Rightarrow> manager \<Rightarrow> manager \<Rightarrow> bool" for ev destroyed where
  "manager_step ev destroyed m (setPackage w p m)"
| "getPackage ev w m = (r, m') \<Longrightarrow> manager_step ev destroyed m m'"
| "manager_step ev destroyed m (deletePackage destroyed w m)"
| "manager_step ev destroyed m (setExcalidrawPackage text m)"
| "manager_step ev destroyed m (destroy destroyed m)"
| "manager_step ev destroyed m (handleError e ctx notify m)"

inductive_cases manager_stepE: "manager_step ev destroyed m m'"

inductive reachable_manager :: "evaluator \<Rightarrow> (library \<Rightarrow> error option) \<Rightarrow> manager \<Rightarrow> bool" for ev destroyed where
  "length (errorLog m) \<le> 100 \<Longrightarrow> reachable_manager ev destroyed (new_manager ev packed m)"
| "reachable_manager ev destroyed m \<Longrightarrow> manager_step ev destroyed m m' \<Longrightarrow> reachable_manager ev destroyed m'"

lemma ok_step: "manager_step ev destroyed m m' \<Longrightarrow> manager_ok m \<Longrightarrow> manager_ok m'"
  by (erule manager_stepE)
    (simp_all add: ok_setPackage ok_getPackage ok_deletePackage ok_destroy ok_handleError setExcalidrawPackage_def ok_fields)

lemma reachable_manager_ok: "reachable_manager ev destroyed m \<Longrightarrow> manager_ok m"
  by (induction rule: reachable_manager.induct) (auto intro: ok_new_manager ok_step)

text \<open>C12: Whatever the library's text evaluates to and whatever its functions throw, the manager only ever keeps
  valid packages, at most one for a window, with a valid fallback if any, and the error log stays bounded.\<close>

theorem manager_keeps_valid:
  assumes "reachable_manager ev destroyed m"
  shows "(\<forall>w p. map_of (packageMap m) w = Some p \<longrightarrow> validatePackage (Some p)) \<and> distinct (map fst (packageMap m)) \<and>
    (\<forall>p. fallbackPackage m = Some p \<longrightarrow> validatePackage (Some p)) \<and> length (errorLog m) \<le> 100"
  using reachable_manager_ok [OF assms] by (simp add: manager_ok_def)

section \<open>What getPackage gives\<close>

lemma getPackage_cached: "manager_ok m \<Longrightarrow> map_of (packageMap m) w = Some p \<Longrightarrow> getPackage ev w m = (Inr (Some p), m)"
  by (auto simp: getPackage_def manager_ok_def)

text \<open>C11: \<open>getPackage\<close> never throws.  A window that has a package gets it and nothing changes; any other window
  gets the package its evaluation gives, if that is valid, and from then on the same one without evaluation;
  if not, it gets the fallback as it is, also when that is \<open>null\<close>, and the cache is as before.\<close>

theorem getPackage_result:
  assumes "reachable_manager ev destroyed m" "getPackage ev w m = (r, m')"
  shows "case map_of (packageMap m) w of
      Some p \<Rightarrow> r = Inr (Some p) \<and> m' = m
    | None \<Rightarrow>
        (case fst (ev w (Package_code (REACT_PACKAGES m) (EXCALIDRAW_PACKAGE m)) (wins m w)) of
           Inr p \<Rightarrow> if validatePackage (Some p) then r = Inr (Some p) \<and> (\<forall>ev'. getPackage ev' w m' = (Inr (Some p), m'))
                    else r = Inr (fallbackPackage m) \<and> packageMap m' = packageMap m
         | Inl e \<Rightarrow> r = Inr (fallbackPackage m) \<and> packageMap m' = packageMap m)"
proof (cases "map_of (packageMap m) w")
  case (Some p)
  then show ?thesis using getPackage_cached [OF reachable_manager_ok [OF assms(1)]] assms(2) by simp
next
  case None
  have ok: "manager_ok m'" by (rule ok_getPackage [OF reachable_manager_ok [OF assms(1)] assms(2)])
  obtain x g where x: "ev w (Package_code (REACT_PACKAGES m) (EXCALIDRAW_PACKAGE m)) (wins m w) = (x, g)" by (rule prod.exhaust)
  have c: "create_package ev w m =
      (case x of Inl e \<Rightarrow> (Inl e, handleError e ''SafeEval in PackageManager.getPackage - package evaluation'' True (m\<lparr>wins := (wins m)(w := g)\<rparr>))
       | Inr t \<Rightarrow> if validatePackage (Some t) then
             (Inr (Some t), m\<lparr>wins := (wins m)(w := g), packageMap := AList.update w t (packageMap m)\<rparr>)
           else (Inl (Runtime ''Failed to create valid package''), m\<lparr>wins := (wins m)(w := g)\<rparr>))"
    by (simp add: create_package_def safeEval_def wrapWithTryCatch_def eval_in_def x split: sum.split)
  have g: "getPackage ev w m = (case create_package ev w m of
        (Inr v, m) \<Rightarrow> (Inr v, m)
      | (Inl e, m1) \<Rightarrow> (Inr (fallbackPackage m), handleError e ''PackageManager.getPackage'' True m1))"
    by (simp add: getPackage_def None wrapWithTryCatch_def split: sum.split prod.split)
  show ?thesis
  proof (cases x)
    case (Inl e)
    then show ?thesis using assms(2) None x by (auto simp: g c)
  next
    case (Inr p)
    show ?thesis
    proof (cases "validatePackage (Some p)")
      case True
      then have "r = Inr (Some p)" "map_of (packageMap m') w = Some p"
        using assms(2) Inr by (auto simp: g c update_conv')
      then show ?thesis using getPackage_cached [OF ok] None x Inr True by simp
    next
      case False
      then show ?thesis using assms(2) None x Inr by (auto simp: g c)
    qed
  qed
qed

section \<open>A concrete run\<close>

definition sample_package :: package where
  "sample_package = \<lparr>react = Some 1, reactDOM = Some 2, excalidrawLib =
     Some \<lparr>lib_ref = 3, lib_object = True, lib_functions = ''exportToSvg'' # required_functions\<rparr>\<rparr>"

definition sample_ev :: evaluator where
  "sample_ev w c g = (Inr sample_package, g)"

definition sample_start :: manager where
  "sample_start = \<lparr>errorLog = [], notices = [], packageMap = [], EXCALIDRAW_PACKAGE = None, fallbackPackage = None,
     script_package = script_values (Some 1) (Some 2), REACT_PACKAGES = [],
     wins = (\<lambda>w. \<lparr>ExcalidrawLib = None, React = None, ReactDOM = None\<rparr>)\<rparr>"

lemma sample_reachable: "reachable_manager sample_ev (\<lambda>_. None) (new_manager sample_ev (Inr []) sample_start)"
  by (rule reachable_manager.intros) (simp add: sample_start_def)

lemma sample_first:
  "fallbackPackage (new_manager sample_ev (Inr []) sample_start) = Some sample_package"
  "packageMap (new_manager sample_ev (Inr []) sample_start) = [(0, sample_package)]"
proof -
  have v: "validatePackage (Some sample_package)"
    by (simp add: validatePackage_def sample_package_def required_functions_def)
  obtain a where a: "excalidrawLib sample_package = Some a" "set required_functions \<subseteq> set (lib_functions a)"
    by (auto simp: sample_package_def)
  have e: "(script_package sample_start)\<lparr>excalidrawLib := Some a\<rparr> = sample_package"
    using a(1) by (simp add: sample_start_def sample_package_def script_values_def)
  from a(2) have "find (\<lambda>f. f \<notin> set (lib_functions a)) required_functions = None" by (auto simp: find_None_iff)
  then have u: "script_package m = sample_package \<Longrightarrow> updateExcalidrawLib m = m" for m
    by (simp add: updateExcalidrawLib_def a(1))
  show "fallbackPackage (new_manager sample_ev (Inr []) sample_start) = Some sample_package"
    "packageMap (new_manager sample_ev (Inr []) sample_start) = [(0, sample_package)]"
    by (simp_all add: new_manager_def first_package_def safeEval_def wrapWithTryCatch_def eval_in_def sample_ev_def e a(1)
        u v setPackage_def Let_def)
qed

theorem manager_keeps_valid_witness:
  "fallbackPackage (new_manager sample_ev (Inr []) sample_start) = Some sample_package \<and> validatePackage (Some sample_package)"
  using manager_keeps_valid [OF sample_reachable] sample_first by simp

theorem getPackage_result_witness:
  "fst (getPackage sample_ev 5 (new_manager sample_ev (Inr []) sample_start)) = Inr (Some sample_package)"
proof -
  let ?m = "new_manager sample_ev (Inr []) sample_start"
  obtain r m' where g: "getPackage sample_ev 5 ?m = (r, m')" by (rule prod.exhaust)
  show ?thesis
    using getPackage_result [OF sample_reachable g] sample_first by (simp add: g sample_ev_def split: if_splits)
qed

end
