(* ===== verification/Pako_Codes.thy ===== *)
theory Pako_Codes
  imports Pako_Table Huffman_Code
begin

text \<open>
  \<open>inflate_table\<close> is right: the table it builds decodes the canonical codes of RFC 1951, codes longer than the
  root through a second table.
\<close>

section \<open>Lengths\<close>

lemma count_lengths_count:
  assumes "list_all (\<lambda>l. l < 16) ls"
  shows "length (count_lengths ls) = 16 \<and> (\<forall>l < 16. count_lengths ls ! l = count_list ls l)"
proof -
  have "length (foldl (\<lambda>cs l. cs[l := cs ! l + 1]) cs ls) = length cs \<and>
      (\<forall>l < 16. foldl (\<lambda>cs l. cs[l := cs ! l + 1]) cs ls ! l = cs ! l + count_list ls l)" if "length cs = 16" for cs
    using that assms by (induction ls arbitrary: cs) auto
  then show ?thesis by (simp add: count_lengths_def)
qed

lemma longest_zero: "longest w cs = 0 \<longleftrightarrow> (\<forall>l. 1 \<le> l \<and> l \<le> w \<longrightarrow> cs ! l = 0)"
  by (induction w) (auto simp: le_Suc_eq)

lemma longest_le: "longest w cs \<le> w"
  by (induction w) auto

lemma longest_pos: "longest w cs \<noteq> 0 \<Longrightarrow> cs ! longest w cs \<noteq> 0"
  by (induction w) (auto split: if_splits)

lemma longest_above: "longest w cs < l \<Longrightarrow> l \<le> w \<Longrightarrow> cs ! l = 0"
  by (induction w) (auto simp: le_Suc_eq split: if_splits)

lemma shortest_props:
  assumes "1 \<le> g" "cs ! g \<noteq> 0"
  shows "1 \<le> shortest g cs" "shortest g cs \<le> g" "cs ! shortest g cs \<noteq> 0" "1 \<le> l \<Longrightarrow> l < shortest g cs \<Longrightarrow> cs ! l = 0"
proof -
  have "1 \<le> shortest g cs \<and> shortest g cs \<le> g \<and> cs ! shortest g cs \<noteq> 0 \<and> (\<forall>l. 1 \<le> l \<longrightarrow> l < shortest g cs \<longrightarrow> cs ! l = 0)"
  proof (cases "find (\<lambda>b. cs ! b \<noteq> 0) [1..<g]")
    case None
    then have "\<forall>b \<in> set [1..<g]. cs ! b = 0" by (simp add: find_None_iff)
    then show ?thesis using assms None by (auto simp: shortest_def)
  next
    case (Some b)
    then obtain i where i: "i < length [1..<g]" "cs ! ([1..<g] ! i) \<noteq> 0" "b = [1..<g] ! i" "\<forall>j < i. cs ! ([1..<g] ! j) = 0"
      by (auto simp: find_Some_iff)
    have b: "b = 1 + i" "1 \<le> b" "b < g" using i(1,3) by auto
    have "cs ! l = 0" if "1 \<le> l" "l < b" for l
      using i(4) [rule_format, of "l - 1"] i(1) that b(1) by simp
    then show ?thesis using Some b i(2,3) by (simp add: shortest_def)
  qed
  then show "1 \<le> shortest g cs" "shortest g cs \<le> g" "cs ! shortest g cs \<noteq> 0" "1 \<le> l \<Longrightarrow> l < shortest g cs \<Longrightarrow> cs ! l = 0"
    by blast+
qed

text \<open>What room the lengths leave, in units of the longest code.\<close>

lemma code_room_kraft:
  "code_room y cs = Some z \<Longrightarrow> 0 \<le> y \<Longrightarrow>
   0 \<le> z \<and> y * 2 ^ length cs = z + int (\<Sum>i < length cs. cs ! i * 2 ^ (length cs - 1 - i))"
proof (induction y cs arbitrary: z rule: code_room.induct)
  case (2 y c cs)
  define y' where "y' = 2 * y - int c"
  have y': "0 \<le> y'" "code_room y' cs = Some z" using 2(2) by (auto simp: y'_def Let_def split: if_splits)
  have ih: "0 \<le> z" "y' * 2 ^ length cs = z + int (\<Sum>i < length cs. cs ! i * 2 ^ (length cs - 1 - i))"
    using 2(1) [OF y'_def _ y'(2,1)] y'(1) by auto
  have s: "(\<Sum>i < length (c # cs). (c # cs) ! i * 2 ^ (length (c # cs) - 1 - i)) =
      c * 2 ^ length cs + (\<Sum>i < length cs. cs ! i * 2 ^ (length cs - 1 - i))"
    by (simp add: sum.lessThan_Suc_shift del: sum.lessThan_Suc)
  have "y * 2 ^ length (c # cs) = (y' + int c) * 2 ^ length cs" by (simp add: y'_def)
  also have "\<dots> = z + int (c * 2 ^ length cs + (\<Sum>i < length cs. cs ! i * 2 ^ (length cs - 1 - i)))"
    using ih(2) by (simp add: algebra_simps)
  finally show ?case unfolding s using ih(1) by simp
qed simp

section \<open>Sorting\<close>

lemma offsets_nth: "i < length cs \<Longrightarrow> offsets r cs ! i = r + sum_list (take i cs)"
proof (induction cs arbitrary: r i)
  case (Cons c cs)
  then show ?case by (cases i) simp_all
qed simp

lemma offsets_length [simp]: "length (offsets r cs) = length cs"
  by (induction cs arbitrary: r) simp_all

lemma offset_of_sum:
  assumes "length cs = 16" "\<forall>l < 16. cs ! l = count_list ls l"
  shows "1 \<le> l \<Longrightarrow> l \<le> 15 \<Longrightarrow> (0 # offsets 0 (tl cs)) ! l = offset_of ls l"
proof (induction l)
  case (Suc l)
  show ?case
  proof (cases "l = 0")
    case True
    have "0 < length (tl cs)" using assms(1) by simp
    then show ?thesis using True by (simp add: offsets_nth)
  next
    case False
    then obtain k where k: "l = Suc k" by (cases l) auto
    have n: "Suc k < length (tl cs)" "k < length (tl cs)" using Suc.prems(2) assms(1) k by simp_all
    have "offsets 0 (tl cs) ! Suc k = offsets 0 (tl cs) ! k + tl cs ! k"
      using n by (simp add: offsets_nth take_Suc_conv_app_nth)
    moreover have "offsets 0 (tl cs) ! k = offset_of ls l" using Suc.IH Suc.prems(2) k by simp
    moreover have "tl cs ! k = count_list ls l" using assms n(2) k Suc.prems(2) by (simp add: nth_tl)
    ultimately show ?thesis using k by simp
  qed
qed simp

lemma position_inj:
  assumes "position ls s = position ls t" "s < length ls" "t < length ls" "1 \<le> ls ! s" "ls ! s \<le> 15" "1 \<le> ls ! t" "ls ! t \<le> 15"
  shows "s = t"
proof -
  have "symbols ls ! position ls s = s" by (rule symbols_position) (rule assms)+
  moreover have "symbols ls ! position ls t = t" by (rule symbols_position) (rule assms)+
  ultimately show ?thesis using assms(1) by metis
qed

lemma sort_symbols_position:
  assumes len: "list_all (\<lambda>l. l < 16) ls" and w: "length (symbols ls) \<le> length work" and s: "s < length ls" "1 \<le> ls ! s"
  shows "sort_symbols (0 # offsets 0 (tl (count_lengths ls))) ls work ! position ls s = s"
    "length (sort_symbols (0 # offsets 0 (tl (count_lengths ls))) ls work) = length work"
proof -
  define f where "f = (\<lambda>(os, r) (m, l :: nat). if l = 0 then (os, r) else (os[l := os ! l + 1 :: nat], r[os ! l := m :: nat]))"
  have main: "case foldl f (os, r) (enumerate (length xs) ys) of (os', r') \<Rightarrow>
      length r' = length work \<and> (\<forall>s < length ls. 1 \<le> ls ! s \<longrightarrow> r' ! position ls s = s)"
    if "xs @ ys = ls" "length os = 16" "length r = length work" "\<forall>l. 1 \<le> l \<longrightarrow> l \<le> 15 \<longrightarrow> os ! l = offset_of ls l + count_list xs l"
      "\<forall>s < length xs. 1 \<le> ls ! s \<longrightarrow> r ! position ls s = s" for xs ys os r
    using that
  proof (induction ys arbitrary: xs os r)
    case Nil
    then show ?case by simp
  next
    case (Cons y ys)
    let ?n = "length xs"
    have n: "?n < length ls" "ls ! ?n = y" "take ?n ls = xs" using Cons.prems(1) by auto
    have y: "y < 16" using len n(1,2) by (metis list_all_length)
    have e: "enumerate ?n (y # ys) = (?n, y) # enumerate (length (xs @ [y])) ys" by simp
    show ?case
    proof (cases "y = 0")
      case True
      have f: "f (os, r) (?n, y) = (os, r)" by (simp add: f_def True)
      show ?thesis
        unfolding e foldl_Cons f
      proof (rule Cons.IH)
        show "\<forall>s < length (xs @ [y]). 1 \<le> ls ! s \<longrightarrow> r ! position ls s = s"
          using Cons.prems(5) n(2) True by (auto simp: less_Suc_eq)
        show "\<forall>l. 1 \<le> l \<longrightarrow> l \<le> 15 \<longrightarrow> os ! l = offset_of ls l + count_list (xs @ [y]) l"
          using Cons.prems(4) True by simp
      qed (use Cons.prems in simp_all)
    next
      case False
      have o: "os ! y = position ls ?n" using Cons.prems(4) False y n by (simp add: position_def)
      have p: "position ls ?n < length r"
        using symbols_position(2) [OF n(1)] n(2) False y w Cons.prems(3) by simp
      have f: "f (os, r) (?n, y) = (os[y := os ! y + 1], r[position ls ?n := ?n])" using False by (simp add: f_def o)
      show ?thesis
        unfolding e foldl_Cons f
      proof (rule Cons.IH)
        show "\<forall>s < length (xs @ [y]). 1 \<le> ls ! s \<longrightarrow> r[position ls ?n := ?n] ! position ls s = s"
        proof (intro allI impI)
          fix s assume s: "s < length (xs @ [y])" "1 \<le> ls ! s"
          show "r[position ls ?n := ?n] ! position ls s = s"
          proof (cases "s = ?n")
            case True
            then show ?thesis using p by simp
          next
            case neq: False
            then have s1: "s < ?n" "s < length ls" using s(1) n(1) by simp_all
            have "ls ! s \<le> 15" using len s1(2) by (simp add: list_all_length less_Suc_eq_le numeral_eq_Suc)
            then have "position ls s \<noteq> position ls ?n"
              using position_inj [of ls s ?n] s1 s(2) n False y neq by auto
            then show ?thesis using Cons.prems(5) s1 s(2) by simp
          qed
        qed
        show "\<forall>l. 1 \<le> l \<longrightarrow> l \<le> 15 \<longrightarrow> os[y := os ! y + 1] ! l = offset_of ls l + count_list (xs @ [y]) l"
          using Cons.prems(2,4) by (auto simp: nth_list_update)
      qed (use Cons.prems in simp_all)
    qed
  qed
  have c: "length (count_lengths ls) = 16" "\<forall>l < 16. count_lengths ls ! l = count_list ls l"
    using count_lengths_count [OF len] by simp_all
  have r: "sort_symbols (0 # offsets 0 (tl (count_lengths ls))) ls work =
      snd (foldl f (0 # offsets 0 (tl (count_lengths ls)), work) (enumerate 0 ls))"
    by (simp add: sort_symbols_def f_def)
  have "case foldl f (0 # offsets 0 (tl (count_lengths ls)), work) (enumerate (length []) ls) of (os', r') \<Rightarrow>
      length r' = length work \<and> (\<forall>s < length ls. 1 \<le> ls ! s \<longrightarrow> r' ! position ls s = s)"
    using main [of "[]" ls "0 # offsets 0 (tl (count_lengths ls))" work] c(1) offset_of_sum [OF c] by simp
  then show "sort_symbols (0 # offsets 0 (tl (count_lengths ls))) ls work ! position ls s = s"
    "length (sort_symbols (0 # offsets 0 (tl (count_lengths ls))) ls work) = length work"
    unfolding r using s by (auto split: prod.splits)
qed

section \<open>Entries\<close>

lemma next_code_mod: "next_code w (z mod 2 ^ w) = next_code w z" "z' mod 2 ^ w = z mod 2 ^ w \<Longrightarrow> next_code w z' = next_code w z"
proof -
  show *: "z' mod 2 ^ w = z mod 2 ^ w \<Longrightarrow> next_code w z' = next_code w z" for z'
  proof (induction w)
    case (Suc w)
    have m: "z' mod 2 ^ w = z mod 2 ^ w"
      using Suc.prems by (metis le_add2 mod_exp_eq plus_1_eq_Suc min.absorb2)
    have b: "has_bit z' w = has_bit z w"
    proof -
      have "has_bit x w = bit (take_bit (Suc w) x) w" for x
        by (simp add: has_bit_def bit_iff_odd [symmetric] bit_take_bit_iff)
      then have "has_bit x w = bit (x mod 2 ^ Suc w) w" for x by (simp only: take_bit_eq_mod)
      then show ?thesis using Suc.prems by metis
    qed
    show ?case using Suc.IH [OF m] m b by simp
  qed simp
  show "next_code w (z mod 2 ^ w) = next_code w z" by (rule *) simp
qed

lemma next_code_brev: "next_code w (brev w c) = brev w (c + 1)"
proof (induction w arbitrary: c)
  case (Suc j)
  have l: "brev j (c div 2) < 2 ^ j" by (rule brev_less)
  have z: "brev (Suc j) c mod 2 ^ j = brev j (c div 2)" using l by (simp add: brev_Suc)
  have b: "has_bit (brev (Suc j) c) j \<longleftrightarrow> odd c" using l by (simp add: brev_Suc has_bit_def mod_2_eq_odd)
  show ?case
  proof (cases "odd c")
    case True
    then have "next_code (Suc j) (brev (Suc j) c) = next_code j (brev (Suc j) c)" using b by simp
    also have "\<dots> = next_code j (brev j (c div 2))" by (rule next_code_mod(2)) (use l in \<open>simp add: z\<close>)
    also have "\<dots> = brev j ((c + 1) div 2)" using Suc.IH True by simp
    finally show ?thesis using True by (simp add: brev_Suc)
  next
    case False
    then have "(c + 1) mod 2 = 1" "(c + 1) div 2 = c div 2" by presburger+
    then have "brev (Suc j) (c + 1) = brev j (c div 2) + 2 ^ j" by (simp only: brev_Suc)
    then show ?thesis using b z False by simp
  qed
qed simp

lemma next_code_start:
  assumes "2 ^ (15 - w) dvd v" "w \<le> 15"
  shows "next_code w (brev 15 v) = brev 15 (v + 2 ^ (15 - w))"
proof -
  obtain c where c: "v = c * 2 ^ (15 - w)" using assms(1) by (metis dvd_def mult.commute)
  have "brev 15 (c * 2 ^ (15 - w)) = brev w c" "brev 15 ((c + 1) * 2 ^ (15 - w)) = brev w (c + 1)"
    using brev_shift [of "15 - w" w c] brev_shift [of "15 - w" w "c + 1"] assms(2) by simp_all
  then show ?thesis using next_code_brev [of w c] by (simp add: c add.commute)
qed

lemma foldl_writes:
  "length (foldl (\<lambda>t j. t[f j := e]) t xs) = length t"
  "i < length t \<Longrightarrow> foldl (\<lambda>t j. t[f j := e]) t xs ! i = (if i \<in> f ` set xs then e else t ! i)"
  by (induction xs arbitrary: t) auto

lemma fill_nth:
  assumes "b < 2 ^ a" "a \<le> k" "c + 2 ^ k \<le> length t"
  shows "length (fill (c + b) (2 ^ a) (2 ^ k) e t) = length t"
    "i < length t \<Longrightarrow> fill (c + b) (2 ^ a) (2 ^ k) e t ! i =
       (if c \<le> i \<and> i < c + 2 ^ k \<and> (i - c) mod 2 ^ a = b then e else t ! i)"
proof -
  define f where "f = (\<lambda>j. c + b + 2 ^ k - Suc j * 2 ^ a :: nat)"
  define n where "n = (2::nat) ^ (k - a)"
  have k: "(2::nat) ^ k = n * 2 ^ a" using assms(2) by (simp add: n_def power_add [symmetric])
  have n: "(2::nat) ^ k div 2 ^ a = n" by (simp add: k)
  show "length (fill (c + b) (2 ^ a) (2 ^ k) e t) = length t" by (simp add: fill_def foldl_writes(1))
  have pos: "f j = c + b + (n - Suc j) * 2 ^ a" if "j < n" for j
  proof -
    have "Suc j * 2 ^ a \<le> n * 2 ^ a" using that by (intro mult_le_mono1) simp
    then show ?thesis unfolding f_def k by (simp only: diff_mult_distrib add_diff_assoc)
  qed
  have "i \<in> f ` {0..<n} \<longleftrightarrow> c \<le> i \<and> i < c + 2 ^ k \<and> (i - c) mod 2 ^ a = b"
  proof
    assume "i \<in> f ` {0..<n}"
    then obtain j where j: "j < n" "i = c + b + (n - Suc j) * 2 ^ a" using pos by auto
    have "b + (n - Suc j) * 2 ^ a < 2 ^ a + (n - Suc j) * 2 ^ a" using assms(1) by simp
    also have "\<dots> = (n - j) * 2 ^ a" using j(1) by (simp add: Suc_diff_Suc [symmetric])
    also have "\<dots> \<le> n * 2 ^ a" by simp
    finally show "c \<le> i \<and> i < c + 2 ^ k \<and> (i - c) mod 2 ^ a = b" using j(2) assms(1) by (simp add: k)
  next
    assume h: "c \<le> i \<and> i < c + 2 ^ k \<and> (i - c) mod 2 ^ a = b"
    define q where "q = (i - c) div 2 ^ a"
    have i: "i = c + b + q * 2 ^ a" using h by (metis add.assoc add.commute le_add_diff_inverse mod_mult_div_eq mult.commute q_def)
    have "i - c < n * 2 ^ a" using h by (simp add: k less_diff_conv2 add.commute)
    then have q: "q < n" unfolding q_def by (rule less_mult_imp_div_less)
    then have "f (n - Suc q) = i" using pos [of "n - Suc q"] i by (simp add: Suc_diff_Suc)
    then show "i \<in> f ` {0..<n}" using q by (intro image_eqI [of _ _ "n - Suc q"]) auto
  qed
  moreover have "fill (c + b) (2 ^ a) (2 ^ k) e t = foldl (\<lambda>t j. t[f j := e]) t [0..<n]"
    by (simp add: fill_def f_def n)
  ultimately show "i < length t \<Longrightarrow> fill (c + b) (2 ^ a) (2 ^ k) e t ! i =
      (if c \<le> i \<and> i < c + 2 ^ k \<and> (i - c) mod 2 ^ a = b then e else t ! i)"
    by (simp add: foldl_writes(2))
qed

section \<open>The invariant of the construction\<close>

text \<open>What an entry says about a symbol.\<close>

definition sym_op :: "nat \<Rightarrow> nat \<Rightarrow> nat" where
  "sym_op ty s = (if ty = 0 then 0 else if ty = 1 then (if s < 256 then 0 else if s = 256 then 96 else at lext (s - 257)) else at dext s)"

definition sym_val :: "nat \<Rightarrow> nat \<Rightarrow> nat" where
  "sym_val ty s = (if ty = 0 then s else if ty = 1 then (if s < 256 then s else if s = 256 then 0 else at lbase (s - 257)) else at dbase s)"

definition sym_entry :: "nat \<Rightarrow> nat \<Rightarrow> nat \<Rightarrow> nat" where
  "sym_entry ty b s = entry b (sym_op ty s) (sym_val ty s)"

text \<open>
  The symbol at place \<open>j\<close> is found in \<open>T\<close>: at the root, or in a second table, which is \<open>(c, k)\<close>, the one under
  construction, when the root bits are those of \<open>b\<close>, and lies before it otherwise.
\<close>

definition found :: "nat \<Rightarrow> nat list \<Rightarrow> nat \<Rightarrow> nat \<Rightarrow> nat \<Rightarrow> nat \<Rightarrow> nat list \<Rightarrow> nat \<Rightarrow> bool" where
  "found ty ls p b c k T j \<longleftrightarrow> (\<forall>h. starts ls j h \<longrightarrow>
     (if len_at ls j \<le> p then T ! (h mod 2 ^ p) = sym_entry ty (len_at ls j) (symbols ls ! j)
      else \<exists>c' k'. T ! (h mod 2 ^ p) = entry p k' c' \<and> 2 ^ p \<le> c' \<and> 1 \<le> k' \<and> k' \<le> 15 \<and> len_at ls j - p \<le> k' \<and>
        (c' + 2 ^ k' \<le> c \<or> c' = c \<and> k' = k \<and> code_start ls j div 2 ^ (15 - p) = b) \<and>
        T ! (c' + h div 2 ^ p mod 2 ^ k') = sym_entry ty (len_at ls j - p) (symbols ls ! j)))"

definition root_block :: "nat list \<Rightarrow> nat \<Rightarrow> nat \<Rightarrow> nat" where
  "root_block ls p m = code_start ls m div 2 ^ (15 - p)"

definition table_ok :: "nat \<Rightarrow> nat list \<Rightarrow> nat \<Rightarrow> nat \<Rightarrow> table_state \<Rightarrow> bool" where
  "table_ok ty ls p m t \<longleftrightarrow>
     t_w t = len_at ls m \<and> t_z t = brev 15 (code_start ls m) \<and>
     t_x t = t_c t + 2 ^ t_k t \<and> t_x t \<le> length (t_n t) \<and> 2 ^ p \<le> t_x t \<and>
     (if len_at ls m \<le> p then t_v t = 0 \<and> t_c t = 0 \<and> t_k t = p \<and> t_low t = None
      else t_v t = p \<and> 2 ^ p \<le> t_c t \<and> t_low t = Some (t_z t mod 2 ^ p) \<and> 1 \<le> t_k t \<and> t_k t \<le> 15 \<and>
        t_n t ! (t_z t mod 2 ^ p) = entry p (t_k t) (t_c t) \<and>
        (\<forall>j. m \<le> j \<longrightarrow> j < length (symbols ls) \<longrightarrow> root_block ls p j = root_block ls p m \<longrightarrow> len_at ls j - p \<le> t_k t)) \<and>
     (\<forall>j < m. found ty ls p (root_block ls p m) (t_c t) (t_k t) (t_n t) j)"

text \<open>Where two numbers meet in the root.\<close>

lemma root_index:
  assumes "p \<le> 15"
  shows "h mod 2 ^ p = h' mod 2 ^ p \<longleftrightarrow> brev 15 h div 2 ^ (15 - p) = brev 15 h' div 2 ^ (15 - p)"
  by (rule same_prefix [OF assms])

lemma starts_block:
  assumes f: "fits ls" "m < length (symbols ls)" "starts ls m h" "p \<le> len_at ls m"
  shows "h mod 2 ^ p = brev 15 (code_start ls m) mod 2 ^ p"
  using assms(3,4) by (metis starts_def mod_mod_cancel le_imp_power_dvd)

text \<open>The bits of a code behind the root.\<close>

lemma starts_rest:
  assumes f: "m < length (symbols ls)" "p \<le> len_at ls m"
  shows "starts ls m h \<longleftrightarrow> h mod 2 ^ p = brev 15 (code_start ls m) mod 2 ^ p \<and>
    h div 2 ^ p mod 2 ^ (len_at ls m - p) = brev 15 (code_start ls m) div 2 ^ p"
proof -
  let ?z = "brev 15 (code_start ls m)" and ?l = "len_at ls m"
  have l: "(2::nat) ^ ?l = 2 ^ p * 2 ^ (?l - p)" using f(2) by (simp add: power_add [symmetric])
  have h: "h mod 2 ^ ?l = 2 ^ p * (h div 2 ^ p mod 2 ^ (?l - p)) + h mod 2 ^ p" unfolding l by (rule mod_mult2_eq)
  have z: "?z = 2 ^ p * (?z div 2 ^ p) + ?z mod 2 ^ p" by simp
  show ?thesis
  proof
    assume "starts ls m h"
    then have e: "h mod 2 ^ ?l = ?z" by (simp add: starts_def)
    have "h mod 2 ^ p = ?z mod 2 ^ p" using e h by (metis mod_mult_self4 mod_mod_trivial)
    moreover have "h div 2 ^ p mod 2 ^ (?l - p) = ?z div 2 ^ p"
    proof -
      have "?z div 2 ^ p = (2 ^ p * (h div 2 ^ p mod 2 ^ (?l - p)) + h mod 2 ^ p) div 2 ^ p" using e h by simp
      then show ?thesis by simp
    qed
    ultimately show "h mod 2 ^ p = ?z mod 2 ^ p \<and> h div 2 ^ p mod 2 ^ (?l - p) = ?z div 2 ^ p" ..
  next
    assume "h mod 2 ^ p = ?z mod 2 ^ p \<and> h div 2 ^ p mod 2 ^ (?l - p) = ?z div 2 ^ p"
    then show "starts ls m h" unfolding starts_def h using z by simp
  qed
qed

lemma same_block:
  assumes "fits ls" "i < length (symbols ls)" "j < length (symbols ls)" "p \<le> 15"
  shows "root_block ls p i = root_block ls p j \<longleftrightarrow> brev 15 (code_start ls i) mod 2 ^ p = brev 15 (code_start ls j) mod 2 ^ p"
  using root_index [OF assms(4), of "brev 15 (code_start ls i)" "brev 15 (code_start ls j)"]
    brev_start [OF assms(1,2)] brev_start [OF assms(1,3)] by (simp add: root_block_def)

definition filled :: "nat \<Rightarrow> nat list \<Rightarrow> nat \<Rightarrow> table_state \<Rightarrow> nat list" where
  "filled ty ls m t = fill (t_c t + t_z t div 2 ^ t_v t) (2 ^ (t_w t - t_v t)) (2 ^ t_k t)
     (sym_entry ty (t_w t - t_v t) (symbols ls ! m)) (t_n t)"

lemma filled_root:
  assumes f: "fits ls" "m < length (symbols ls)" and ok: "table_ok ty ls p m t" and l: "len_at ls m \<le> p"
  shows "length (filled ty ls m t) = length (t_n t)" "j \<le> m \<Longrightarrow> found ty ls p b c k (filled ty ls m t) j"
proof -
  let ?z = "brev 15 (code_start ls m)" and ?e = "sym_entry ty (len_at ls m) (symbols ls ! m)"
  have t: "t_w t = len_at ls m" "t_z t = ?z" "t_v t = 0" "t_c t = 0" "t_k t = p" "2 ^ p \<le> length (t_n t)"
    using ok l by (auto simp: table_ok_def)
  have e: "filled ty ls m t = fill (0 + ?z) (2 ^ len_at ls m) (2 ^ p) ?e (t_n t)" by (simp add: filled_def t)
  have z: "?z < 2 ^ len_at ls m" by (rule brev_start_less [OF f(2)])
  note n = fill_nth [OF z l, where c = 0 and t = "t_n t" and e = ?e]
  show "length (filled ty ls m t) = length (t_n t)" using n(1) t(6) unfolding e by simp
  have v: "filled ty ls m t ! i = (if i mod 2 ^ len_at ls m = ?z then ?e else t_n t ! i)" if "i < 2 ^ p" for i
    using n(2) [of i] t(6) that unfolding e by simp
  have m: "h mod 2 ^ p mod 2 ^ len_at ls m = h mod 2 ^ len_at ls m" for h :: nat
    using l by (simp add: mod_mod_cancel le_imp_power_dvd)
  assume j: "j \<le> m"
  have lj: "len_at ls j \<le> p" using len_at_mono [OF j f(2)] l by simp
  show "found ty ls p b c k (filled ty ls m t) j"
    unfolding found_def
  proof (intro allI impI)
    fix h assume h: "starts ls j h"
    have "filled ty ls m t ! (h mod 2 ^ p) = sym_entry ty (len_at ls j) (symbols ls ! j)"
    proof (cases "j = m")
      case True
      then show ?thesis using h v [of "h mod 2 ^ p"] m by (simp add: starts_def)
    next
      case False
      then have "\<not> starts ls m h" using starts_unique [OF f(1) _ f(2) h] j f(2) by auto
      then have "filled ty ls m t ! (h mod 2 ^ p) = t_n t ! (h mod 2 ^ p)" using v [of "h mod 2 ^ p"] m by (simp add: starts_def)
      moreover have "found ty ls p (root_block ls p m) (t_c t) (t_k t) (t_n t) j" using ok j False by (simp add: table_ok_def)
      ultimately show ?thesis using h lj by (simp add: found_def)
    qed
    then show "if len_at ls j \<le> p then filled ty ls m t ! (h mod 2 ^ p) = sym_entry ty (len_at ls j) (symbols ls ! j)
      else \<exists>c' k'. filled ty ls m t ! (h mod 2 ^ p) = entry p k' c' \<and> 2 ^ p \<le> c' \<and> 1 \<le> k' \<and> k' \<le> 15 \<and> len_at ls j - p \<le> k' \<and>
        (c' + 2 ^ k' \<le> c \<or> c' = c \<and> k' = k \<and> code_start ls j div 2 ^ (15 - p) = b) \<and>
        filled ty ls m t ! (c' + h div 2 ^ p mod 2 ^ k') = sym_entry ty (len_at ls j - p) (symbols ls ! j)"
      using lj by simp
  qed
qed

lemma filled_second:
  assumes f: "fits ls" "m < length (symbols ls)" "p \<le> 15" and ok: "table_ok ty ls p m t" and l: "p < len_at ls m"
  shows "length (filled ty ls m t) = length (t_n t)"
    "j \<le> m \<Longrightarrow> found ty ls p (root_block ls p m) (t_c t) (t_k t) (filled ty ls m t) j"
    "filled ty ls m t ! (brev 15 (code_start ls m) mod 2 ^ p) = entry p (t_k t) (t_c t)"
proof -
  let ?z = "brev 15 (code_start ls m)" and ?a = "len_at ls m - p"
  let ?e = "sym_entry ty ?a (symbols ls ! m)" and ?c = "t_c t" and ?k = "t_k t"
  have t: "t_w t = len_at ls m" "t_z t = ?z" "t_v t = p" "2 ^ p \<le> ?c" "?c + 2 ^ ?k \<le> length (t_n t)" "1 \<le> ?k" "?k \<le> 15"
    "t_n t ! (?z mod 2 ^ p) = entry p ?k ?c" "?a \<le> ?k"
    using ok l f(2) by (auto simp: table_ok_def)
  have e: "filled ty ls m t = fill (?c + ?z div 2 ^ p) (2 ^ ?a) (2 ^ ?k) ?e (t_n t)" by (simp add: filled_def t)
  have "?z < 2 ^ p * 2 ^ ?a" using brev_start_less [OF f(2)] l by (simp add: power_add [symmetric])
  then have z: "?z div 2 ^ p < 2 ^ ?a" by (metis less_mult_imp_div_less mult.commute)
  note n = fill_nth [OF z t(9,5), where e = ?e]
  show len: "length (filled ty ls m t) = length (t_n t)" using n(1) unfolding e by simp
  have low: "filled ty ls m t ! i = t_n t ! i" if "i < ?c" for i
    using n(2) [of i] t(5) that unfolding e by simp
  have high: "filled ty ls m t ! (?c + i) = (if i mod 2 ^ ?a = ?z div 2 ^ p then ?e else t_n t ! (?c + i))" if "i < 2 ^ ?k" for i
    using n(2) [of "?c + i"] t(5) that unfolding e by simp
  have root: "h mod 2 ^ p < ?c" for h :: nat using t(4) by (rule less_le_trans [rotated]) simp
  have m: "h mod 2 ^ ?k mod 2 ^ ?a = h mod 2 ^ ?a" for h :: nat using t(9) by (simp add: mod_mod_cancel le_imp_power_dvd)
  show "filled ty ls m t ! (?z mod 2 ^ p) = entry p ?k ?c" using low [OF root] t(8) by simp
  assume j: "j \<le> m"
  show "found ty ls p (root_block ls p m) ?c ?k (filled ty ls m t) j"
  proof (cases "j = m")
    case True
    have "filled ty ls m t ! (h mod 2 ^ p) = entry p ?k ?c \<and> filled ty ls m t ! (?c + h div 2 ^ p mod 2 ^ ?k) = ?e" if "starts ls m h" for h
    proof -
      have s: "h mod 2 ^ p = ?z mod 2 ^ p" "h div 2 ^ p mod 2 ^ ?a = ?z div 2 ^ p"
        using that starts_rest [OF f(2), of p h] l by simp_all
      then show ?thesis using low [OF root, of h] t(8) high [of "h div 2 ^ p mod 2 ^ ?k"] m by simp
    qed
    then show ?thesis unfolding found_def True using l t(4,6,7,9) by (auto simp: root_block_def)
  next
    case False
    then have jm: "j < m" "j < length (symbols ls)" using j f(2) by simp_all
    have old: "found ty ls p (root_block ls p m) ?c ?k (t_n t) j" using ok jm(1) by (simp add: table_ok_def)
    show ?thesis
      unfolding found_def
    proof (intro allI impI)
      fix h assume h: "starts ls j h"
      have nm: "\<not> starts ls m h" using starts_unique [OF f(1) jm(2) f(2) h] jm by auto
      show "if len_at ls j \<le> p then filled ty ls m t ! (h mod 2 ^ p) = sym_entry ty (len_at ls j) (symbols ls ! j)
        else \<exists>c' k'. filled ty ls m t ! (h mod 2 ^ p) = entry p k' c' \<and> 2 ^ p \<le> c' \<and> 1 \<le> k' \<and> k' \<le> 15 \<and> len_at ls j - p \<le> k' \<and>
          (c' + 2 ^ k' \<le> ?c \<or> c' = ?c \<and> k' = ?k \<and> code_start ls j div 2 ^ (15 - p) = root_block ls p m) \<and>
          filled ty ls m t ! (c' + h div 2 ^ p mod 2 ^ k') = sym_entry ty (len_at ls j - p) (symbols ls ! j)"
      proof (cases "len_at ls j \<le> p")
        case True
        then show ?thesis using old h low [OF root, of h] by (simp add: found_def)
      next
        case lj: False
        then obtain c' k' where o: "t_n t ! (h mod 2 ^ p) = entry p k' c'" "2 ^ p \<le> c'" "1 \<le> k'" "k' \<le> 15" "len_at ls j - p \<le> k'"
          "c' + 2 ^ k' \<le> ?c \<or> c' = ?c \<and> k' = ?k \<and> code_start ls j div 2 ^ (15 - p) = root_block ls p m"
          "t_n t ! (c' + h div 2 ^ p mod 2 ^ k') = sym_entry ty (len_at ls j - p) (symbols ls ! j)"
          using old h unfolding found_def by meson
        have "filled ty ls m t ! (c' + h div 2 ^ p mod 2 ^ k') = t_n t ! (c' + h div 2 ^ p mod 2 ^ k')"
          using o(6)
        proof
          assume "c' + 2 ^ k' \<le> ?c"
          moreover have "h div 2 ^ p mod 2 ^ k' < 2 ^ k'" by simp
          ultimately have "c' + h div 2 ^ p mod 2 ^ k' < ?c" by linarith
          then show ?thesis by (rule low)
        next
          assume c: "c' = ?c \<and> k' = ?k \<and> code_start ls j div 2 ^ (15 - p) = root_block ls p m"
          have "h mod 2 ^ p = ?z mod 2 ^ p"
            using starts_block [OF f(1) jm(2) h, of p] lj same_block [OF f(1) jm(2) f(2,3)] c by (simp add: root_block_def)
          then have "h div 2 ^ p mod 2 ^ ?a \<noteq> ?z div 2 ^ p" using nm starts_rest [OF f(2), of p h] l by simp
          then show ?thesis using c high [of "h div 2 ^ p mod 2 ^ ?k"] m by simp
        qed
        then show ?thesis using lj o low [OF root, of h] by auto
      qed
    qed
  qed
qed

section \<open>The size of a second table\<close>

text \<open>The counts of the symbols from place \<open>m\<close> on.\<close>

definition counts_ok :: "nat list \<Rightarrow> nat \<Rightarrow> nat list \<Rightarrow> bool" where
  "counts_ok ls m cs \<longleftrightarrow> length cs = 16 \<and>
     (\<forall>l. 1 \<le> l \<longrightarrow> l \<le> 15 \<longrightarrow> cs ! l = length (filter (\<lambda>s. ls ! s = l) (drop m (symbols ls))))"

lemma counts_ok_next:
  assumes "counts_ok ls m cs" "m < length (symbols ls)"
  shows "counts_ok ls (Suc m) (cs[len_at ls m := cs ! len_at ls m - 1])"
proof -
  have d: "drop m (symbols ls) = symbols ls ! m # drop (Suc m) (symbols ls)" using assms(2) by (simp add: Cons_nth_drop_Suc)
  show ?thesis using assms(1) len_at_bounds [OF assms(2)] unfolding counts_ok_def d by (auto simp: nth_list_update)
qed

lemma kraft_filter_le: "kraft ls (filter P xs) \<le> kraft ls xs"
  by (induction xs) simp_all

lemma kraft_filter_Suc:
  "kraft ls (filter (\<lambda>s. ls ! s < Suc l) xs) = kraft ls (filter (\<lambda>s. ls ! s < l) xs) + length (filter (\<lambda>s. ls ! s = l) xs) * 2 ^ (15 - l)"
  by (induction xs) (auto simp: less_Suc_eq)

lemma subtable_bits_room:
  "counts_ok ls m cs \<Longrightarrow> g \<le> 15 \<Longrightarrow> int (kraft ls (filter (\<lambda>s. ls ! s < k + v) (drop m (symbols ls)))) + y * 2 ^ (15 - (k + v)) = 2 ^ (15 - v) \<Longrightarrow>
    1 \<le> k \<Longrightarrow> k + v \<le> 15 \<Longrightarrow>
    k \<le> subtable_bits g v k y cs \<and> subtable_bits g v k y cs + v \<le> 15 \<and>
    (subtable_bits g v k y cs + v < g \<longrightarrow>
       2 ^ (15 - v) \<le> int (kraft ls (filter (\<lambda>s. ls ! s < Suc (subtable_bits g v k y cs + v)) (drop m (symbols ls)))))"
proof (induction g v k y cs rule: subtable_bits.induct)
  case (1 g v k y cs)
  show ?case
  proof (cases "g \<le> k + v")
    case True
    then show ?thesis using "1.prems" by (simp add: subtable_bits.simps [of g v k y cs])
  next
    case False
    define y' where "y' = y - int (cs ! (k + v))"
    have c: "cs ! (k + v) = length (filter (\<lambda>s. ls ! s = k + v) (drop m (symbols ls)))"
      using "1.prems"(1,4,5) by (simp add: counts_ok_def)
    have e: "int (kraft ls (filter (\<lambda>s. ls ! s < Suc (k + v)) (drop m (symbols ls)))) + y' * 2 ^ (15 - (k + v)) = 2 ^ (15 - v)"
      using "1.prems"(3) by (simp add: kraft_filter_Suc y'_def c algebra_simps)
    show ?thesis
    proof (cases "y' \<le> 0")
      case True
      then have s: "subtable_bits g v k y cs = k" using False by (simp add: subtable_bits.simps [of g v k y cs] y'_def)
      have "y' * 2 ^ (15 - (k + v)) \<le> 0" using True by (simp add: mult_nonpos_nonneg)
      then have "2 ^ (15 - v) \<le> int (kraft ls (filter (\<lambda>s. ls ! s < Suc (k + v)) (drop m (symbols ls))))" using e by linarith
      then show ?thesis using "1.prems"(5) unfolding s by blast
    next
      case y: False
      have s: "subtable_bits g v k y cs = subtable_bits g v (Suc k) (2 * y') cs"
        using False y by (simp add: subtable_bits.simps [of g v k y cs] y'_def Let_def)
      have k: "Suc k + v \<le> 15" using False "1.prems"(2) by simp
      have p: "(2::int) ^ (15 - (k + v)) = 2 * 2 ^ (15 - (Suc k + v))"
        using k by (simp add: Suc_diff_Suc power_Suc [symmetric] del: power_Suc)
      have "int (kraft ls (filter (\<lambda>s. ls ! s < Suc k + v) (drop m (symbols ls)))) + 2 * y' * 2 ^ (15 - (Suc k + v)) = 2 ^ (15 - v)"
        using e unfolding p by simp
      from "1.IH" [OF False y'_def y "1.prems"(1,2) this _ k] show ?thesis unfolding s by simp
    qed
  qed
qed

lemma set_drop_nth:
  assumes "s \<in> set (drop j xs)"
  obtains i where "j + i < length xs" "s = xs ! (j + i)"
proof -
  obtain i where i: "i < length (drop j xs)" "drop j xs ! i = s" using assms unfolding in_set_conv_nth by blast
  then have "j + i < length xs" "s = xs ! (j + i)" by auto
  then show thesis by (rule that)
qed

lemma kraft_sorted_prefix:
  assumes "sorted (map (\<lambda>s. ls ! s) xs)" "j < length xs" "l < ls ! (xs ! j)"
  shows "kraft ls (filter (\<lambda>s. ls ! s < Suc l) xs) \<le> kraft ls (take j xs)"
proof -
  have "filter (\<lambda>s. ls ! s < Suc l) (drop j xs) = []"
  proof -
    have "l < ls ! s" if "s \<in> set (drop j xs)" for s
    proof -
      obtain i where i: "j + i < length xs" "s = xs ! (j + i)" using \<open>s \<in> set (drop j xs)\<close> by (rule set_drop_nth)
      then show ?thesis using sorted_nth_mono [OF assms(1), of j "j + i"] assms(2,3) by simp
    qed
    then show ?thesis unfolding filter_empty_conv by (meson less_Suc_eq_le not_le)
  qed
  then have "filter (\<lambda>s. ls ! s < Suc l) xs = filter (\<lambda>s. ls ! s < Suc l) (take j xs)"
    by (metis append_Nil2 append_take_drop_id filter_append)
  then show ?thesis using kraft_filter_le by simp
qed

lemma code_start_add: "m \<le> j \<Longrightarrow> code_start ls j = code_start ls m + kraft ls (take (j - m) (drop m (symbols ls)))"
proof -
  assume "m \<le> j"
  then have "take j (symbols ls) = take m (symbols ls) @ take (j - m) (drop m (symbols ls))"
    by (metis le_add_diff_inverse take_add)
  then show ?thesis by (simp add: code_start_def)
qed

text \<open>A second table that begins at \<open>m\<close> holds all codes with the same root bits.\<close>

lemma subtable_bits_fit:
  assumes f: "fits ls" "m < length (symbols ls)" and c: "counts_ok ls m cs" and g: "g \<le> 15" "\<forall>j < length (symbols ls). len_at ls j \<le> g"
    and l: "p < len_at ls m" and al: "2 ^ (15 - p) dvd code_start ls m"
  defines "k \<equiv> subtable_bits g p (len_at ls m - p) (2 ^ (len_at ls m - p)) cs"
  shows "len_at ls m - p \<le> k" "k \<le> 15" "m \<le> j \<Longrightarrow> j < length (symbols ls) \<Longrightarrow> root_block ls p j = root_block ls p m \<Longrightarrow> len_at ls j - p \<le> k"
proof -
  have lm: "len_at ls m - p + p = len_at ls m" "len_at ls m \<le> 15" using l len_at_bounds(2) [OF f(2)] by simp_all
  have "filter (\<lambda>s. ls ! s < len_at ls m) (drop m (symbols ls)) = []"
  proof -
    have "len_at ls m \<le> ls ! s" if "s \<in> set (drop m (symbols ls))" for s
    proof -
      obtain i where "m + i < length (symbols ls)" "s = symbols ls ! (m + i)" using \<open>s \<in> set (drop m (symbols ls))\<close> by (rule set_drop_nth)
      then show ?thesis using len_at_mono [of m "m + i" ls] by simp
    qed
    then show ?thesis unfolding filter_empty_conv by (meson not_le)
  qed
  then have "int (kraft ls (filter (\<lambda>s. ls ! s < len_at ls m - p + p) (drop m (symbols ls)))) +
      2 ^ (len_at ls m - p) * 2 ^ (15 - (len_at ls m - p + p)) = 2 ^ (15 - p)"
    using lm l by (simp add: power_add [symmetric])
  from subtable_bits_room [OF c g(1) this] lm l
  have r: "len_at ls m - p \<le> k" "k + p \<le> 15"
    "k + p < g \<longrightarrow> 2 ^ (15 - p) \<le> int (kraft ls (filter (\<lambda>s. ls ! s < Suc (k + p)) (drop m (symbols ls))))"
    unfolding k_def by (simp_all del: of_nat_le_iff of_nat_power)
  show "len_at ls m - p \<le> k" "k \<le> 15" using r(1,2) by simp_all
  assume j: "m \<le> j" "j < length (symbols ls)" "root_block ls p j = root_block ls p m"
  show "len_at ls j - p \<le> k"
  proof (rule ccontr)
    assume "\<not> len_at ls j - p \<le> k"
    then have lj: "k + p < len_at ls j" by simp
    then have "k + p < g" using g(2) j(2) by (meson less_le_trans)
    then have room: "2 ^ (15 - p) \<le> kraft ls (filter (\<lambda>s. ls ! s < Suc (k + p)) (drop m (symbols ls)))"
      using r(3) by (metis of_nat_le_iff of_nat_numeral of_nat_power)
    have "sorted (map (\<lambda>s. ls ! s) (drop m (symbols ls)))"
      using symbols_sorted [of ls] by (metis drop_map sorted_wrt_drop)
    then have "kraft ls (filter (\<lambda>s. ls ! s < Suc (k + p)) (drop m (symbols ls))) \<le> kraft ls (take (j - m) (drop m (symbols ls)))"
      by (rule kraft_sorted_prefix) (use j lj in simp_all)
    then have "code_start ls m + 2 ^ (15 - p) \<le> code_start ls j" using room code_start_add [OF j(1), of ls] by simp
    then have "(code_start ls m + 2 ^ (15 - p)) div 2 ^ (15 - p) \<le> root_block ls p j" unfolding root_block_def by (rule div_le_mono)
    moreover have "(code_start ls m + 2 ^ (15 - p)) div 2 ^ (15 - p) = Suc (root_block ls p m)"
      using div_add_self2 [of "2 ^ (15 - p)" "code_start ls m"] by (simp add: root_block_def)
    ultimately show False using j(3) by simp
  qed
qed

section \<open>One symbol\<close>

text \<open>What the calls of \<open>inflate_table\<close> have in common; \<open>n\<close> is the size of the table.\<close>

definition build_ok :: "nat \<Rightarrow> nat list \<Rightarrow> nat list \<Rightarrow> nat \<Rightarrow> nat \<Rightarrow> nat \<Rightarrow> bool" where
  "build_ok ty ls r g p n \<longleftrightarrow> fits ls \<and> 1 \<le> p \<and> p \<le> 15 \<and> g \<le> 15 \<and>
     (\<forall>m < length (symbols ls). m < length r \<and> r ! m = symbols ls ! m \<and> len_at ls m \<le> g) \<and>
     symbols ls \<noteq> [] \<and> len_at ls (length (symbols ls) - 1) = g \<and>
     (ty = 0 \<and> length ls \<le> 19 \<and> g \<le> p \<or> ty = 1 \<and> (g \<le> p \<or> 852 \<le> n) \<or> ty = 2 \<and> (g \<le> p \<or> 592 \<le> n))"

lemma build_okD:
  assumes "build_ok ty ls r g p n"
  shows "fits ls" "1 \<le> p" "p \<le> 15" "g \<le> 15" "m < length (symbols ls) \<Longrightarrow> at r m = symbols ls ! m"
    "m < length (symbols ls) \<Longrightarrow> len_at ls m \<le> g" "symbols ls \<noteq> []" "len_at ls (length (symbols ls) - 1) = g"
  using assms by (auto simp: build_ok_def at_def)

lemma symbol_entry:
  assumes "build_ok ty ls r g p n" "m < length (symbols ls)"
  shows "(let sym = at r m; u = (if ty = 0 then 20 else if ty = 1 then 257 else 0);
          base = (if ty = 0 then r else if ty = 1 then lbase else dbase);
          ext = (if ty = 0 then r else if ty = 1 then lext else dext)
     in if sym + 1 < u then (0, sym) else if u \<le> sym then (at ext (sym - u), at base (sym - u)) else (96, 0)) =
    (sym_op ty (symbols ls ! m), sym_val ty (symbols ls ! m))"
proof -
  have s: "symbols ls ! m < length ls" using symbols_mem [of "symbols ls ! m" ls] assms(2) by simp
  have ty: "ty = 0 \<and> symbols ls ! m < 19 \<or> ty = 1 \<or> ty = 2" using assms(1) s by (auto simp: build_ok_def)
  then show ?thesis
    unfolding build_okD(5) [OF assms] by (auto simp: sym_op_def sym_val_def Let_def)
qed

text \<open>The state after the entries of a symbol were filled and its code was stepped.\<close>

definition stepped :: "nat \<Rightarrow> nat list \<Rightarrow> nat \<Rightarrow> table_state \<Rightarrow> table_state" where
  "stepped ty ls m t = t\<lparr>t_n := filled ty ls m t, t_z := brev 15 (code_start ls (Suc m)), t_m := Suc m,
     t_cs := (t_cs t)[len_at ls m := t_cs t ! len_at ls m - 1]\<rparr>"

definition open_table :: "nat \<Rightarrow> nat \<Rightarrow> nat \<Rightarrow> nat \<Rightarrow> table_state \<Rightarrow> table_state" where
  "open_table g p w k t = (let c = t_c t + 2 ^ t_k t; i = t_z t mod 2 ^ p in
     t\<lparr>t_n := (t_n t)[i := entry p k c], t_w := w, t_v := p, t_c := c, t_k := k, t_x := t_x t + 2 ^ k, t_low := Some i\<rparr>)"

lemma place_symbol_eq:
  assumes b: "build_ok ty ls r g p n" and m: "m < length (symbols ls)" and ok: "table_ok ty ls p m t" "counts_ok ls m (t_cs t)" "t_m t = m"
  shows "place_symbol ty ls r g p t =
    (let s = stepped ty ls m t in
     if Suc m = length (symbols ls) then Inr (True, s)
     else let w = len_at ls (Suc m) in
       if p < w \<and> Some (t_z s mod 2 ^ p) \<noteq> t_low t then
         let k = subtable_bits g p (w - p) (2 ^ (w - p)) (t_cs s) in
         if table_full ty (t_x t + 2 ^ k) then Inl (t\<lparr>t_n := t_n s\<rparr>) else Inr (False, open_table g p w k s)
       else Inr (False, s\<lparr>t_w := w\<rparr>))"
proof -
  note d = build_okD [OF b]
  let ?l = "len_at ls m" and ?cs = "(t_cs t)[len_at ls m := t_cs t ! len_at ls m - 1]"
  have t: "t_w t = ?l" "t_z t = brev 15 (code_start ls m)" "t_v t = 0 \<or> t_v t = p"
    using ok(1) by (auto simp: table_ok_def split: if_splits)
  have l: "1 \<le> ?l" "?l \<le> 15" "?l \<le> g" using len_at_bounds [OF m] d(6) [OF m] by simp_all
  have z: "next_code (t_w t) (t_z t) = brev 15 (code_start ls (Suc m))"
    using next_code_start [OF code_start_dvd [OF m order_refl] l(2)] by (simp add: t code_start_Suc [OF m])
  have cs: "counts_ok ls (Suc m) ?cs" by (rule counts_ok_next [OF ok(2) m])
  have zero: "?cs ! ?l = 0 \<longleftrightarrow> (\<forall>s \<in> set (drop (Suc m) (symbols ls)). ls ! s \<noteq> ?l)"
    using cs l by (auto simp: counts_ok_def filter_empty_conv)
  have last: "?cs ! t_w t = 0 \<and> t_w t = g \<longleftrightarrow> Suc m = length (symbols ls)"
  proof
    assume "?cs ! t_w t = 0 \<and> t_w t = g"
    then have "\<forall>s \<in> set (drop (Suc m) (symbols ls)). ls ! s \<noteq> ?l" "?l = g" using zero unfolding t(1) by blast+
    then have n: "\<forall>s \<in> set (drop (Suc m) (symbols ls)). ls ! s \<noteq> g" by metis
    show "Suc m = length (symbols ls)"
    proof (rule ccontr)
      assume "Suc m \<noteq> length (symbols ls)"
      then have "Suc m \<le> length (symbols ls) - 1" "length (symbols ls) - 1 < length (symbols ls)" using m by simp_all
      then have "symbols ls ! (length (symbols ls) - 1) \<in> set (drop (Suc m) (symbols ls))"
      proof -
        assume "Suc m \<le> length (symbols ls) - 1" "length (symbols ls) - 1 < length (symbols ls)"
        then obtain i where "length (symbols ls) - 1 = Suc m + i" "Suc m + i < length (symbols ls)" using le_Suc_ex by metis
        then show ?thesis using nth_mem [of i "drop (Suc m) (symbols ls)"] by simp
      qed
      then show False using n d(8) by blast
    qed
  next
    assume e: "Suc m = length (symbols ls)"
    then have "m = length (symbols ls) - 1" by simp
    then have "?l = g" using d(8) by simp
    then show "?cs ! t_w t = 0 \<and> t_w t = g" using zero e t(1) by simp
  qed
  have w: "(if ?cs ! t_w t = 0 then at ls (at r (m + 1)) else t_w t) = len_at ls (Suc m)" if "Suc m \<noteq> length (symbols ls)"
  proof -
    have sm: "Suc m < length (symbols ls)" using that m by simp
    have at: "at ls (at r (m + 1)) = len_at ls (Suc m)"
      using d(5) [OF sm] symbols_mem [of "symbols ls ! Suc m" ls] sm by (simp add: at_def)
    show ?thesis
    proof (cases "?cs ! ?l = 0")
      case True
      then show ?thesis using at t(1) by simp
    next
      case False
      then obtain s where s: "s \<in> set (drop (Suc m) (symbols ls))" "ls ! s = ?l" using False unfolding zero by blast
      obtain i where i: "Suc m + i < length (symbols ls)" "s = symbols ls ! (Suc m + i)" by (rule set_drop_nth [OF s(1)])
      have "len_at ls (Suc m) \<le> ?l" using len_at_mono [of "Suc m" "Suc m + i" ls] i s(2) by simp
      moreover have "?l \<le> len_at ls (Suc m)" using sm by (intro len_at_mono) simp_all
      ultimately show ?thesis using False t(1) by simp
    qed
  qed
  have e: "fill (t_c t + t_z t div 2 ^ t_v t) (2 ^ (t_w t - t_v t)) (2 ^ t_k t)
      (entry (t_w t - t_v t) (sym_op ty (symbols ls ! m)) (sym_val ty (symbols ls ! m))) (t_n t) = filled ty ls m t"
    by (simp add: filled_def sym_entry_def)
  have v: "(if t_v t = 0 then p else t_v t) = p" using t(3) by auto
  show ?thesis
    unfolding place_symbol_def ok(3) symbol_entry [OF b m, unfolded Let_def] Let_def prod.case e z v
    using last w by (simp add: stepped_def open_table_def Let_def t(1))
qed

text \<open>A new second table begins where a block of root bits begins.\<close>

lemma block_begins:
  assumes m: "Suc m < length (symbols ls)" and p: "p \<le> 15" and l: "len_at ls m \<le> p \<or> root_block ls p m \<noteq> root_block ls p (Suc m)"
  shows "2 ^ (15 - p) dvd code_start ls (Suc m)"
proof -
  let ?l = "len_at ls m"
  have m': "m < length (symbols ls)" using m by simp
  note k = code_start_Suc [OF m'] and dvd = code_start_dvd [OF m' order_refl]
  show ?thesis
  proof (cases "?l \<le> p")
    case True
    then have "(2::nat) ^ (15 - p) dvd 2 ^ (15 - ?l)" by (intro le_imp_power_dvd) simp
    then show ?thesis unfolding k using dvd by (meson dvd_add dvd_trans)
  next
    case False
    define q where "q = (2::nat) ^ (?l - p)"
    define d where "d = (2::nat) ^ (15 - ?l)"
    have D: "2 ^ (15 - p) = d * q" using False len_at_bounds(2) [OF m'] by (simp add: d_def q_def power_add [symmetric])
    obtain a where a: "code_start ls m = d * a" using dvd unfolding d_def by (elim dvdE)
    have s: "code_start ls (Suc m) = d * Suc a" unfolding k a by (simp add: d_def)
    have "d \<noteq> 0" by (simp add: d_def)
    then have "root_block ls p m = a div q" "root_block ls p (Suc m) = Suc a div q"
      unfolding root_block_def D a s by (simp_all del: mult_Suc_right)
    then have "a div q \<noteq> Suc a div q" using l False by simp
    then have "q dvd Suc a" by (metis div_Suc dvd_eq_mod_eq_0)
    then show ?thesis unfolding D s by (rule mult_dvd_mono [OF dvd_refl])
  qed
qed

lemma root_block_mono: "i \<le> j \<Longrightarrow> root_block ls p i \<le> root_block ls p j"
  by (simp add: root_block_def div_le_mono code_start_mono)

lemma starts_own: "m < length (symbols ls) \<Longrightarrow> starts ls m (brev 15 (code_start ls m))"
  using brev_start_less [of m ls] by (simp add: starts_def)

text \<open>The symbols placed before stay where they are when a second table is opened.\<close>

lemma open_found:
  assumes f: "fits ls" "Suc m < length (symbols ls)" "p \<le> 15" and j: "j \<le> m"
    and new: "len_at ls m \<le> p \<or> root_block ls p m \<noteq> root_block ls p (Suc m)"
    and old: "found ty ls p b c k T j" and c: "2 ^ p \<le> c + 2 ^ k"
  shows "found ty ls p b' (c + 2 ^ k) k' (T[brev 15 (code_start ls (Suc m)) mod 2 ^ p := e]) j"
  unfolding found_def
proof (intro allI impI)
  fix h assume h: "starts ls j h"
  let ?z = "brev 15 (code_start ls (Suc m))"
  have jl: "j < length (symbols ls)" "m < length (symbols ls)" using j f(2) by simp_all
  have root: "h mod 2 ^ p \<noteq> ?z mod 2 ^ p"
  proof
    assume e: "h mod 2 ^ p = ?z mod 2 ^ p"
    show False
    proof (cases "len_at ls j \<le> p")
      case True
      then have "?z mod 2 ^ len_at ls j = h mod 2 ^ len_at ls j" using e by (metis mod_mod_cancel le_imp_power_dvd)
      then have "starts ls j ?z" using h by (simp add: starts_def)
      then show False using starts_unique [OF f(1) jl(1) f(2) _ starts_own [OF f(2)]] j by simp
    next
      case False
      then have "root_block ls p j = root_block ls p (Suc m)"
        using e starts_block [OF f(1) jl(1) h, of p] same_block [OF f(1) jl(1) f(2,3)] by simp
      then have "root_block ls p m = root_block ls p (Suc m)"
        using root_block_mono [OF j, of ls p] root_block_mono [of m "Suc m" ls p] by simp
      moreover have "p < len_at ls m" using False len_at_mono [OF j jl(2)] by simp
      ultimately show False using new by simp
    qed
  qed
  have i: "?z mod 2 ^ p < 2 ^ p" by simp
  show "if len_at ls j \<le> p then T[?z mod 2 ^ p := e] ! (h mod 2 ^ p) = sym_entry ty (len_at ls j) (symbols ls ! j)
    else \<exists>c' k''. T[?z mod 2 ^ p := e] ! (h mod 2 ^ p) = entry p k'' c' \<and> 2 ^ p \<le> c' \<and> 1 \<le> k'' \<and> k'' \<le> 15 \<and> len_at ls j - p \<le> k'' \<and>
      (c' + 2 ^ k'' \<le> c + 2 ^ k \<or> c' = c + 2 ^ k \<and> k'' = k' \<and> code_start ls j div 2 ^ (15 - p) = b') \<and>
      T[?z mod 2 ^ p := e] ! (c' + h div 2 ^ p mod 2 ^ k'') = sym_entry ty (len_at ls j - p) (symbols ls ! j)"
  proof (cases "len_at ls j \<le> p")
    case True
    then show ?thesis using old h root by (simp add: found_def)
  next
    case False
    then obtain c' k'' where o: "T ! (h mod 2 ^ p) = entry p k'' c'" "2 ^ p \<le> c'" "1 \<le> k''" "k'' \<le> 15" "len_at ls j - p \<le> k''"
      "c' + 2 ^ k'' \<le> c \<or> c' = c \<and> k'' = k \<and> code_start ls j div 2 ^ (15 - p) = b"
      "T ! (c' + h div 2 ^ p mod 2 ^ k'') = sym_entry ty (len_at ls j - p) (symbols ls ! j)"
      using old h unfolding found_def by meson
    have "c' + 2 ^ k'' \<le> c + 2 ^ k" using o(6) by auto
    moreover have "?z mod 2 ^ p \<noteq> c' + h div 2 ^ p mod 2 ^ k''" using o(2) i by linarith
    ultimately have "T[?z mod 2 ^ p := e] ! (h mod 2 ^ p) = entry p k'' c'" "c' + 2 ^ k'' \<le> c + 2 ^ k"
      "T[?z mod 2 ^ p := e] ! (c' + h div 2 ^ p mod 2 ^ k'') = sym_entry ty (len_at ls j - p) (symbols ls ! j)"
      using o root by simp_all
    then show ?thesis using False o(2-5) by (simp only: if_False) blast
  qed
qed

text \<open>The state that one round leads to.\<close>

lemma place_symbol_ok:
  assumes b: "build_ok ty ls r g p (length (t_n t))" and m: "m < length (symbols ls)"
    and ok: "table_ok ty ls p m t" "counts_ok ls m (t_cs t)" "t_m t = m"
  shows "case place_symbol ty ls r g p t of
      Inl e \<Rightarrow> p < g
    | Inr (fin, t') \<Rightarrow> length (t_n t') = length (t_n t) \<and> t_m t' = Suc m \<and> fin = (Suc m = length (symbols ls)) \<and>
        (if fin then (\<forall>j < length (symbols ls). found ty ls p (root_block ls p m) (t_c t') (t_k t') (t_n t') j) \<and>
           t_z t' = brev 15 (code_start ls (length (symbols ls))) \<and> t_c t' + 2 ^ t_k t' \<le> length (t_n t) \<and> (len_at ls m \<le> p \<longrightarrow> t_c t' = 0 \<and> t_v t' = 0 \<and> t_w t' = len_at ls m)
         else table_ok ty ls p (Suc m) t' \<and> counts_ok ls (Suc m) (t_cs t'))"
proof -
  note d = build_okD [OF b]
  let ?z = "brev 15 (code_start ls m)" and ?z' = "brev 15 (code_start ls (Suc m))" and ?s = "stepped ty ls m t"
  let ?c = "t_c t" and ?k = "t_k t" and ?T = "filled ty ls m t"
  have len: "length ?T = length (t_n t)"
    using filled_root(1) [OF d(1) m ok(1)] filled_second(1) [OF d(1) m d(3) ok(1)] by (cases "len_at ls m \<le> p") simp_all
  have fnd: "found ty ls p b' ?c ?k ?T j" if "j \<le> m" "len_at ls m \<le> p \<or> b' = root_block ls p m" for j b'
    using filled_root(2) [OF d(1) m ok(1) _ that(1)] filled_second(2) [OF d(1) m d(3) ok(1) _ that(1)] that(2)
    by (cases "len_at ls m \<le> p") simp_all
  have cs: "counts_ok ls (Suc m) (t_cs ?s)" using counts_ok_next [OF ok(2) m] by (simp add: stepped_def)
  have s: "t_z ?s = ?z'" "t_n ?s = ?T" "t_m ?s = Suc m" "t_c ?s = ?c" "t_k ?s = ?k" "t_x ?s = t_x t" "t_v ?s = t_v t" "t_low ?s = t_low t"
    "t_w ?s = len_at ls m"
    using ok(1) by (simp_all add: stepped_def table_ok_def)
  have x: "t_x t = ?c + 2 ^ ?k" "t_x t \<le> length (t_n t)" "2 ^ p \<le> t_x t" using ok(1) by (simp_all add: table_ok_def)
  show ?thesis
  proof (cases "Suc m = length (symbols ls)")
    case True
    have p: "place_symbol ty ls r g p t = Inr (True, ?s)" using True by (simp add: place_symbol_eq [OF b m ok])
    have "len_at ls m \<le> p \<longrightarrow> ?c = 0 \<and> t_v t = 0" using ok(1) by (simp add: table_ok_def)
    moreover have "j < length (symbols ls) \<Longrightarrow> found ty ls p (root_block ls p m) ?c ?k ?T j" for j
      using fnd [of j] True by auto
    ultimately show ?thesis unfolding p using len x by (simp add: s True)
  next
    case False
    then have sm: "Suc m < length (symbols ls)" using m by simp
    let ?w = "len_at ls (Suc m)" and ?i = "?z' mod 2 ^ p"
    have w: "len_at ls m \<le> ?w" using sm by (intro len_at_mono) simp_all
    have le: "j \<le> m" if "j < Suc m" for j using that by simp
    show ?thesis
    proof (cases "p < ?w \<and> Some ?i \<noteq> t_low t")
      case nf: False
      have p: "place_symbol ty ls r g p t = Inr (False, ?s\<lparr>t_w := ?w\<rparr>)"
        by (simp only: place_symbol_eq [OF b m ok] Let_def s eq_False [THEN iffD2, OF nf] False if_False)
      have "table_ok ty ls p (Suc m) (?s\<lparr>t_w := ?w\<rparr>)"
      proof (cases "?w \<le> p")
        case True
        then have lm: "len_at ls m \<le> p" using w by simp
        then have "t_v t = 0" "?c = 0" "?k = p" "t_low t = None" using ok(1) by (simp_all add: table_ok_def)
        then show ?thesis using True x len fnd [OF le disjI1 [OF lm]] by (simp add: table_ok_def s)
      next
        case wp: False
        then have low: "t_low t = Some ?i" using nf by simp
        then have lm: "\<not> len_at ls m \<le> p" using ok(1) by (auto simp: table_ok_def)
        then have t: "t_v t = p" "2 ^ p \<le> ?c" "t_low t = Some (?z mod 2 ^ p)" "1 \<le> ?k" "?k \<le> 15"
          "\<forall>j. m \<le> j \<longrightarrow> j < length (symbols ls) \<longrightarrow> root_block ls p j = root_block ls p m \<longrightarrow> len_at ls j - p \<le> ?k"
          using ok(1) by (simp_all add: table_ok_def)
        have i: "?i = ?z mod 2 ^ p" using low t(3) by simp
        then have bl: "root_block ls p (Suc m) = root_block ls p m" using same_block [OF d(1) sm m d(3)] by simp
        have "?T ! ?i = entry p ?k ?c" using filled_second(3) [OF d(1) m d(3) ok(1)] lm i by simp
        then show ?thesis
          using wp t x len low fnd [OF le disjI2 [OF refl]] unfolding table_ok_def bl by (simp add: s)
      qed
      then show ?thesis unfolding p using False len cs by (simp add: s)
    next
      case nt: True
      define k where "k = subtable_bits g p (?w - p) (2 ^ (?w - p)) (t_cs ?s)"
      have p: "place_symbol ty ls r g p t =
          (if table_full ty (t_x t + 2 ^ k) then Inl (t\<lparr>t_n := t_n ?s\<rparr>) else Inr (False, open_table g p ?w k ?s))"
        using False nt by (simp add: place_symbol_eq [OF b m ok] Let_def s k_def)
      show ?thesis
      proof (cases "table_full ty (t_x t + 2 ^ k)")
        case True
        then show ?thesis unfolding p using nt d(6) [OF sm] by simp
      next
        case nfull: False
        have size: "t_x t + 2 ^ k \<le> length (t_n t)"
          using nfull b d(6) [OF sm] nt by (auto simp: build_ok_def table_full_def)
        have new: "len_at ls m \<le> p \<or> root_block ls p m \<noteq> root_block ls p (Suc m)"
        proof (cases "len_at ls m \<le> p")
          case False
          then have "t_low t = Some (?z mod 2 ^ p)" using ok(1) by (simp add: table_ok_def)
          then show ?thesis using nt same_block [OF d(1) m sm d(3)] by auto
        qed simp
        have al: "2 ^ (15 - p) dvd code_start ls (Suc m)" by (rule block_begins [OF sm d(3) new])
        have g: "\<forall>j < length (symbols ls). len_at ls j \<le> g" using d(6) by simp
        have wp: "p < ?w" using nt by simp
        note fit = subtable_bits_fit [OF d(1) sm cs d(4) g wp al, folded k_def]
        have c: "2 ^ p \<le> ?c + 2 ^ ?k" using x by simp
        have "found ty ls p (root_block ls p (Suc m)) (?c + 2 ^ ?k) k (?T[?i := entry p k (?c + 2 ^ ?k)]) j" if "j < Suc m" for j
        proof -
          have "found ty ls p (root_block ls p m) ?c ?k ?T j" using fnd [OF le [OF that]] by simp
          then show ?thesis by (rule open_found [OF d(1) sm d(3) le [OF that] new _ c])
        qed
        moreover have "?i < length (t_n t)"
        proof -
          have "?i < 2 ^ p" by simp
          then show ?thesis using x by linarith
        qed
        moreover have "1 \<le> k" using fit(1) wp by simp
        ultimately have "table_ok ty ls p (Suc m) (open_table g p ?w k ?s)"
          using wp size x len fit c by (simp add: table_ok_def open_table_def Let_def s)
        moreover have "t_m (open_table g p ?w k ?s) = Suc m" "length (t_n (open_table g p ?w k ?s)) = length (t_n t)"
          "t_cs (open_table g p ?w k ?s) = t_cs ?s"
          using len by (simp_all add: open_table_def Let_def s)
        ultimately show ?thesis unfolding p using nfull False cs by simp
      qed
    qed
  qed
qed

section \<open>All symbols\<close>

lemma place_symbols_ok:
  "build_ok ty ls r g p (length (t_n t)) \<Longrightarrow> m < length (symbols ls) \<Longrightarrow> table_ok ty ls p m t \<Longrightarrow> counts_ok ls m (t_cs t) \<Longrightarrow>
   t_m t = m \<Longrightarrow> length (symbols ls) \<le> i + m \<Longrightarrow>
   case place_symbols i ty ls r g p t of
     Inl e \<Rightarrow> p < g
   | Inr t' \<Rightarrow> length (t_n t') = length (t_n t) \<and>
       (\<exists>b. \<forall>j < length (symbols ls). found ty ls p b (t_c t') (t_k t') (t_n t') j) \<and>
       t_z t' = brev 15 (code_start ls (length (symbols ls))) \<and> t_c t' + 2 ^ t_k t' \<le> length (t_n t) \<and> (g \<le> p \<longrightarrow> t_c t' = 0)"
proof (induction i arbitrary: m t)
  case (Suc i)
  note d = build_okD [OF Suc.prems(1)]
  note st = place_symbol_ok [OF Suc.prems(1-5)]
  show ?case
  proof (cases "place_symbol ty ls r g p t")
    case (Inl e)
    then show ?thesis using st by simp
  next
    case (Inr ft)
    obtain fin t' where ft: "ft = (fin, t')" by (cases ft)
    show ?thesis
    proof (cases fin)
      case True
      then have "Suc m = length (symbols ls)" using st by (simp add: Inr ft)
      then have "m = length (symbols ls) - 1" by simp
      then have "len_at ls m = g" using d(8) by simp
      then show ?thesis using st True by (auto simp: Inr ft)
    next
      case False
      then have n: "length (t_n t') = length (t_n t)" "t_m t' = Suc m" "Suc m \<noteq> length (symbols ls)" "table_ok ty ls p (Suc m) t'"
        "counts_ok ls (Suc m) (t_cs t')"
        using st by (simp_all add: Inr ft)
      have "case place_symbols i ty ls r g p t' of
          Inl e \<Rightarrow> p < g
        | Inr u \<Rightarrow> length (t_n u) = length (t_n t') \<and> (\<exists>b. \<forall>j < length (symbols ls). found ty ls p b (t_c u) (t_k u) (t_n u) j) \<and>
            t_z u = brev 15 (code_start ls (length (symbols ls))) \<and> t_c u + 2 ^ t_k u \<le> length (t_n t') \<and> (g \<le> p \<longrightarrow> t_c u = 0)"
        by (rule Suc.IH [of t' "Suc m"]) (use Suc.prems n in simp_all)
      from this [unfolded n(1)] show ?thesis using False by (simp add: Inr ft)
    qed
  qed
qed simp

lemma entry_fields:
  assumes "oper < 256" "val < 65536"
  shows "entry_bits (entry b oper val) = b" "entry_op (entry b oper val) = oper" "entry_val (entry b oper val) = val"
proof -
  have "oper * 65536 + val < 16777216" using assms by linarith
  then show "entry_bits (entry b oper val) = b" by (simp add: entry_def entry_bits_def)
  define q where "q = b * 256 + oper"
  have e: "entry b oper val = q * 65536 + val" by (simp add: entry_def q_def algebra_simps)
  have "q mod 256 = oper" using assms(1) by (simp add: q_def)
  then show "entry_op (entry b oper val) = oper" "entry_val (entry b oper val) = val"
    unfolding entry_op_def entry_val_def e using assms(2) by simp_all
qed

lemma kraft_total: "kraft ls (symbols ls) = (\<Sum>i < 15. count_list ls (Suc i) * 2 ^ (14 - i))"
proof -
  have k: "kraft ls (symbols_of ls l) = count_list ls l * 2 ^ (15 - l)" for l
    using kraft_same [of "symbols_of ls l" ls l] by (simp add: symbols_of_length) (simp add: symbols_of_def)
  have "kraft ls (concat (map (symbols_of ls) [1..<Suc n])) = (\<Sum>i < n. count_list ls (Suc i) * 2 ^ (15 - Suc i))" for n
    by (induction n) (simp_all add: k)
  from this [of 15] show ?thesis by (simp add: symbols_def)
qed

lemma code_room_fits:
  assumes len: "list_all (\<lambda>l. l < 16) ls" and room: "code_room 1 (tl (count_lengths ls)) = Some y"
  shows "0 \<le> y" "int (code_start ls (length (symbols ls))) + y = 2 ^ 15" "fits ls"
proof -
  let ?cs = "count_lengths ls"
  have c: "length ?cs = 16" "\<forall>l < 16. ?cs ! l = count_list ls l" using count_lengths_count [OF len] by simp_all
  have l: "length (tl ?cs) = 15" using c(1) by simp
  have k: "0 \<le> y" "1 * 2 ^ 15 = y + int (\<Sum>i < 15. tl ?cs ! i * 2 ^ (14 - i))"
    using code_room_kraft [OF room] unfolding l by simp_all
  have "(\<Sum>i < 15. tl ?cs ! i * 2 ^ (14 - i)) = (\<Sum>i < 15. count_list ls (Suc i) * 2 ^ (14 - i))"
    by (rule sum.cong) (use c l in \<open>auto simp: nth_tl\<close>)
  then have s: "code_start ls (length (symbols ls)) = (\<Sum>i < 15. tl ?cs ! i * 2 ^ (14 - i))"
    by (simp add: code_start_def kraft_total)
  show "0 \<le> y" by (rule k(1))
  show e: "int (code_start ls (length (symbols ls))) + y = 2 ^ 15" using k(2) unfolding s by simp
  then have "int (code_start ls (length (symbols ls))) \<le> int (2 ^ 15)" using k(1) by simp
  then have "code_start ls (length (symbols ls)) \<le> 2 ^ 15" by (simp only: of_nat_le_iff)
  then show "fits ls" using len by (simp add: fits_def)
qed

text \<open>The longest and the shortest length are those of the last and the first symbol.\<close>

lemma symbols_ends:
  assumes len: "list_all (\<lambda>l. l < 16) ls" and g: "g = longest 15 (count_lengths ls)" "g \<noteq> 0"
  shows "symbols ls \<noteq> []" "len_at ls (length (symbols ls) - 1) = g" "len_at ls 0 = shortest g (count_lengths ls)" "1 \<le> g" "g \<le> 15"
    "m < length (symbols ls) \<Longrightarrow> len_at ls m \<le> g" "1 \<le> shortest g (count_lengths ls)" "shortest g (count_lengths ls) \<le> g"
proof -
  let ?cs = "count_lengths ls" and ?n = "length (symbols ls)"
  have c: "\<forall>l < 16. ?cs ! l = count_list ls l" using count_lengths_count [OF len] by simp
  show g1: "1 \<le> g" "g \<le> 15" using g longest_le [of 15 ?cs] by simp_all
  have gc: "?cs ! g \<noteq> 0" using longest_pos [of 15 ?cs] g by simp
  note sh = shortest_props [OF g1(1) gc]
  have some: "\<exists>s \<in> set (symbols ls). ls ! s = l" if "?cs ! l \<noteq> 0" "1 \<le> l" "l \<le> 15" for l
  proof -
    have "l < 16" using that(3) by simp
    then have "count_list ls l \<noteq> 0" using c that(1) by simp
    then have "l \<in> set ls" by (simp add: count_list_0_iff)
    then obtain s where "s < length ls" "ls ! s = l" by (auto simp: in_set_conv_nth)
    then show ?thesis using that symbols_mem [of s ls] by auto
  qed
  have used: "?cs ! len_at ls m \<noteq> 0" if "m < ?n" for m
  proof -
    have s: "symbols ls ! m < length ls" "len_at ls m < 16" using symbols_mem [of "symbols ls ! m" ls] that by simp_all
    then have "len_at ls m \<in> set ls" by simp
    then have "count_list ls (len_at ls m) \<noteq> 0" by (simp add: count_list_0_iff)
    then show ?thesis using c s(2) by simp
  qed
  obtain s where s: "s \<in> set (symbols ls)" "ls ! s = g" using some [OF gc g1] by blast
  then show ne: "symbols ls \<noteq> []" by auto
  obtain i where i: "i < ?n" "symbols ls ! i = s" using s(1) by (auto simp: in_set_conv_nth)
  show le: "len_at ls m \<le> g" if "m < ?n" for m
  proof (rule ccontr)
    assume "\<not> len_at ls m \<le> g"
    then have "?cs ! len_at ls m = 0" using longest_above [of 15 ?cs "len_at ls m"] len_at_bounds(2) [OF that] g(1) by simp
    then show False using used [OF that] by simp
  qed
  have "g \<le> len_at ls (?n - 1)" using len_at_mono [of i "?n - 1" ls] i s(2) by simp
  moreover have "len_at ls (?n - 1) \<le> g" using le [of "?n - 1"] ne by simp
  ultimately show "len_at ls (?n - 1) = g" by simp
  show sg: "1 \<le> shortest g ?cs" "shortest g ?cs \<le> g" by (rule sh)+
  have n0: "0 < ?n" using ne by simp
  have "shortest g ?cs \<le> 15" using sg g1 by simp
  then obtain s' where s': "s' \<in> set (symbols ls)" "ls ! s' = shortest g ?cs" using some [OF sh(3) sh(1)] by blast
  obtain i' where i': "i' < ?n" "symbols ls ! i' = s'" using s'(1) by (auto simp: in_set_conv_nth)
  have "len_at ls 0 \<le> shortest g ?cs" using len_at_mono [of 0 i' ls] i' s'(2) by simp
  moreover have "\<not> len_at ls 0 < shortest g ?cs"
    using sh(4) [of "len_at ls 0"] used [OF n0] len_at_bounds(1) [OF n0] by auto
  ultimately show "len_at ls 0 = shortest g ?cs" by simp
qed

lemma position_symbols:
  assumes "m < length (symbols ls)"
  shows "position ls (symbols ls ! m) = m"
proof -
  let ?s = "symbols ls ! m"
  have s: "?s < length ls" "1 \<le> ls ! ?s" "ls ! ?s \<le> 15" using symbols_mem [of ?s ls] assms by simp_all
  show ?thesis using symbols_position [OF s] symbols_distinct [of ls] assms by (metis nth_eq_iff_index_eq)
qed

text \<open>A table that decodes: each code leads to the entry of its symbol, at the root or in a second table.\<close>

definition decodes :: "nat \<Rightarrow> nat list \<Rightarrow> nat \<Rightarrow> nat list \<Rightarrow> bool" where
  "decodes ty ls p T \<longleftrightarrow> 1 \<le> p \<and> p \<le> 15 \<and> 2 ^ p \<le> length T \<and> fits ls \<and>
     (\<forall>j < length (symbols ls). \<forall>h. starts ls j h \<longrightarrow>
       (if len_at ls j \<le> p then T ! (h mod 2 ^ p) = sym_entry ty (len_at ls j) (symbols ls ! j)
        else \<exists>c k. T ! (h mod 2 ^ p) = entry p k c \<and> 1 \<le> k \<and> k \<le> 15 \<and> len_at ls j - p \<le> k \<and> c + 2 ^ k \<le> length T \<and>
          T ! (c + h div 2 ^ p mod 2 ^ k) = sym_entry ty (len_at ls j - p) (symbols ls ! j)))"

lemma found_decodes:
  assumes "1 \<le> p" "p \<le> 15" "2 ^ p \<le> length T" "fits ls" "\<forall>j < length (symbols ls). found ty ls p b c k T j" "c + 2 ^ k \<le> length T"
  shows "decodes ty ls p T"
proof -
  have "if len_at ls j \<le> p then T ! (h mod 2 ^ p) = sym_entry ty (len_at ls j) (symbols ls ! j)
      else \<exists>c k. T ! (h mod 2 ^ p) = entry p k c \<and> 1 \<le> k \<and> k \<le> 15 \<and> len_at ls j - p \<le> k \<and> c + 2 ^ k \<le> length T \<and>
        T ! (c + h div 2 ^ p mod 2 ^ k) = sym_entry ty (len_at ls j - p) (symbols ls ! j)"
    if j: "j < length (symbols ls)" and h: "starts ls j h" for j h
  proof (cases "len_at ls j \<le> p")
    case True
    then show ?thesis using assms(5) j h by (simp add: found_def)
  next
    case False
    have "found ty ls p b c k T j" using assms(5) j by simp
    then obtain c' k' where o: "T ! (h mod 2 ^ p) = entry p k' c'" "2 ^ p \<le> c'" "1 \<le> k'" "k' \<le> 15" "len_at ls j - p \<le> k'"
      "c' + 2 ^ k' \<le> c \<or> c' = c \<and> k' = k \<and> code_start ls j div 2 ^ (15 - p) = b"
      "T ! (c' + h div 2 ^ p mod 2 ^ k') = sym_entry ty (len_at ls j - p) (symbols ls ! j)"
      using h False unfolding found_def by meson
    have "c' + 2 ^ k' \<le> length T" using o(6) assms(6) by auto
    then show ?thesis using False o(1,3-5,7) by (simp only: if_False) blast
  qed
  then show ?thesis using assms(1-4) unfolding decodes_def by blast
qed

text \<open>How the construction begins, when the lengths are right and the root fits.\<close>

definition table_sized :: "nat \<Rightarrow> nat list \<Rightarrow> nat \<Rightarrow> nat list \<Rightarrow> bool" where
  "table_sized ty ls bits table \<longleftrightarrow>
     (list_all (\<lambda>l. l \<le> bits) ls \<and> 2 ^ bits \<le> length table \<or> ty = 1 \<and> 852 \<le> length table \<or> ty = 2 \<and> 592 \<le> length table) \<and>
     (ty = 0 \<and> length ls \<le> 19 \<or> ty = 1 \<or> ty = 2)"

definition root_size :: "nat list \<Rightarrow> nat \<Rightarrow> nat" where
  "root_size ls bits = (let cs = count_lengths ls; g = longest 15 cs in max (min bits g) (shortest g cs))"

definition sorted_symbols :: "nat list \<Rightarrow> nat list \<Rightarrow> nat list" where
  "sorted_symbols ls work = sort_symbols (0 # offsets 0 (tl (count_lengths ls))) ls work"

definition table_start :: "nat list \<Rightarrow> nat \<Rightarrow> nat list \<Rightarrow> table_state" where
  "table_start ls bits table = (let cs = count_lengths ls; p = root_size ls bits in
     \<lparr>t_cs = cs, t_z = 0, t_m = 0, t_w = shortest (longest 15 cs) cs, t_c = 0, t_k = p, t_v = 0, t_low = None, t_x = 2 ^ p, t_n = table\<rparr>)"

lemma some_lengths:
  assumes len: "list_all (\<lambda>l. l < 16) ls" and some: "symbols ls \<noteq> []"
  shows "longest 15 (count_lengths ls) \<noteq> 0"
proof
  assume "longest 15 (count_lengths ls) = 0"
  then have z: "\<forall>l. 1 \<le> l \<and> l \<le> 15 \<longrightarrow> count_lengths ls ! l = 0" by (simp add: longest_zero)
  obtain s where "s \<in> set (symbols ls)" using some by (cases "symbols ls") auto
  then have s: "s < length ls" "1 \<le> ls ! s" "ls ! s \<le> 15" using symbols_mem by blast+
  then have "count_list ls (ls ! s) \<noteq> 0" by (simp add: count_list_0_iff)
  then show False using z s count_lengths_count [OF len] by simp
qed

lemma inflate_table_eq:
  assumes "list_all (\<lambda>l. l < 16) ls" "symbols ls \<noteq> []"
  shows "inflate_table ty ls table work bits =
    (let g = longest 15 (count_lengths ls); p = root_size ls bits; r = sorted_symbols ls work in
     case code_room 1 (tl (count_lengths ls)) of
      None \<Rightarrow> \<lparr>tr_ret = -1, tr_table = table, tr_work = work, tr_bits = bits\<rparr>
    | Some y \<Rightarrow>
        if 0 < y \<and> (ty = 0 \<or> g \<noteq> 1) then \<lparr>tr_ret = -1, tr_table = table, tr_work = work, tr_bits = bits\<rparr>
        else if table_full ty (2 ^ p) then \<lparr>tr_ret = 1, tr_table = table, tr_work = r, tr_bits = bits\<rparr>
        else case place_symbols (length ls) ty ls r g p (table_start ls bits table) of
            Inl t \<Rightarrow> \<lparr>tr_ret = 1, tr_table = t_n t, tr_work = r, tr_bits = bits\<rparr>
          | Inr t \<Rightarrow> \<lparr>tr_ret = 0, tr_table = (if t_z t \<noteq> 0 then (t_n t)[t_c t + t_z t := entry (t_w t - t_v t) 64 0] else t_n t),
                       tr_work = r, tr_bits = p\<rparr>)"
  using some_lengths [OF assms] unfolding inflate_table_def Let_def root_size_def sorted_symbols_def table_start_def by simp

lemma sort_symbols_length: "length (sort_symbols os ls r) = length r"
proof -
  have "length (snd (foldl (\<lambda>(os, r) (m, l). if l = 0 then (os, r) else (os[l := os ! l + 1], r[os ! l := m])) (os, r) xs)) = length r"
    for os r and xs :: "(nat \<times> nat) list"
    by (induction xs arbitrary: os r) auto
  then show ?thesis by (simp add: sort_symbols_def)
qed

lemma sorted_symbols_length: "length (sorted_symbols ls r) = length r"
  by (simp add: sorted_symbols_def sort_symbols_length)

lemma symbols_length: "length (symbols ls) \<le> length ls"
proof -
  have "set (symbols ls) \<subseteq> {..<length ls}" using symbols_mem by auto
  then have "card (set (symbols ls)) \<le> length ls" using card_mono [of "{..<length ls}"] by fastforce
  then show ?thesis by (simp add: distinct_card symbols_distinct)
qed

lemma table_start_ok:
  assumes len: "list_all (\<lambda>l. l < 16) ls" and w: "length (symbols ls) \<le> length work" and some: "symbols ls \<noteq> []"
    and ty: "table_sized ty ls bits table"
    and y: "code_room 1 (tl (count_lengths ls)) = Some y" "\<not> table_full ty (2 ^ root_size ls bits)"
  shows "build_ok ty ls (sorted_symbols ls work) (longest 15 (count_lengths ls)) (root_size ls bits) (length table)"
    "table_ok ty ls (root_size ls bits) 0 (table_start ls bits table)" "counts_ok ls 0 (count_lengths ls)"
    "list_all (\<lambda>l. l \<le> bits) ls \<Longrightarrow> longest 15 (count_lengths ls) \<le> root_size ls bits" "2 ^ root_size ls bits \<le> length table"
proof -
  let ?n = "length (symbols ls)"
  define cs where "cs = count_lengths ls"
  define g where "g = longest 15 cs"
  define b where "b = shortest g cs"
  define p where "p = root_size ls bits"
  have g0: "g \<noteq> 0" using some_lengths [OF len some] by (simp add: g_def cs_def)
  note ends = symbols_ends [OF len g_def [unfolded cs_def] g0, folded cs_def, folded b_def]
  have pd: "p = max (min bits g) b" by (simp add: p_def root_size_def b_def g_def cs_def Let_def)
  note fit = code_room_fits [OF len y(1)]
  have p1: "1 \<le> p" "p \<le> 15" using ends(5,7,8) by (auto simp: pd b_def)
  have gb: "g \<le> bits" if "list_all (\<lambda>l. l \<le> bits) ls"
  proof -
    have "symbols ls ! (?n - 1) < length ls" using symbols_mem [of "symbols ls ! (?n - 1)" ls] some by simp
    then show ?thesis using that ends(2) by (auto simp: list_all_length)
  qed
  have gp: "g \<le> p" if "list_all (\<lambda>l. l \<le> bits) ls" using gb [OF that] by (simp add: pd)
  then show "list_all (\<lambda>l. l \<le> bits) ls \<Longrightarrow> longest 15 (count_lengths ls) \<le> root_size ls bits" by (simp add: p_def g_def cs_def)
  have small: "2 ^ p \<le> length table" if t: "list_all (\<lambda>l. l \<le> bits) ls" "2 ^ bits \<le> length table"
  proof -
    have "p \<le> bits" using gb [OF t(1)] ends(8) by (simp add: pd b_def)
    then have "(2::nat) ^ p \<le> 2 ^ bits" by (intro power_increasing) simp_all
    then show ?thesis using t(2) by (rule le_trans)
  qed
  have size: "2 ^ p \<le> length table"
    using ty y(2) small by (auto simp: table_sized_def table_full_def p_def [symmetric])
  then show "2 ^ root_size ls bits \<le> length table" by (simp add: p_def)
  show "build_ok ty ls (sorted_symbols ls work) (longest 15 (count_lengths ls)) (root_size ls bits) (length table)"
    unfolding build_ok_def cs_def [symmetric] g_def [symmetric] p_def [symmetric]
  proof (intro conjI allI impI)
    show "fits ls" by (rule fit)
    show "1 \<le> p" "p \<le> 15" "g \<le> 15" "symbols ls \<noteq> []" "len_at ls (?n - 1) = g" by (rule p1 ends)+
    fix m assume m: "m < ?n"
    let ?s = "symbols ls ! m"
    have s: "?s < length ls" "1 \<le> ls ! ?s" using symbols_mem [of ?s ls] m by simp_all
    show "m < length (sorted_symbols ls work)" using w m by (simp add: sorted_symbols_length)
    show "sorted_symbols ls work ! m = ?s"
      using sort_symbols_position(1) [OF len w s] by (simp add: sorted_symbols_def position_symbols [OF m])
    show "len_at ls m \<le> g" by (rule ends(6) [OF m])
  next
    show "ty = 0 \<and> length ls \<le> 19 \<and> g \<le> p \<or> ty = 1 \<and> (g \<le> p \<or> 852 \<le> length table) \<or> ty = 2 \<and> (g \<le> p \<or> 592 \<le> length table)"
      using ty gp by (auto simp: table_sized_def)
  qed
  show "table_ok ty ls (root_size ls bits) 0 (table_start ls bits table)"
    using ends(3) size by (simp add: table_ok_def table_start_def Let_def p_def [symmetric] cs_def [symmetric] g_def [symmetric] b_def [symmetric]) (simp add: pd)
  have "length (filter (\<lambda>s. ls ! s = l) (symbols ls)) = count_list ls l" if "1 \<le> l" "l \<le> 15" for l
  proof -
    have "filter (\<lambda>s. ls ! s = l) (concat (map (symbols_of ls) xs)) = concat (map (\<lambda>x. if x = l then symbols_of ls l else []) xs)" for xs
      by (induction xs) (auto simp: symbols_of_def filter_empty_conv)
    moreover have "concat (map (\<lambda>x. if x = l then symbols_of ls l else []) xs) = (if l \<in> set xs then symbols_of ls l else [])" if "distinct xs" for xs
      using that by (induction xs) auto
    ultimately show ?thesis using that by (simp add: symbols_def symbols_of_length)
  qed
  then show "counts_ok ls 0 (count_lengths ls)" using count_lengths_count [OF len] by (simp add: counts_ok_def)
qed

text \<open>The codes use up all there is, except for a single code of one bit.\<close>

definition complete :: "nat list \<Rightarrow> bool" where
  "complete ls \<longleftrightarrow> code_start ls (length (symbols ls)) = 2 ^ 15 \<or> length (symbols ls) = 1 \<and> len_at ls 0 = 1"

lemma table_complete:
  assumes len: "list_all (\<lambda>l. l < 16) ls" and some: "symbols ls \<noteq> []" and y: "code_room 1 (tl (count_lengths ls)) = Some y"
    and one: "0 < y \<longrightarrow> longest 15 (count_lengths ls) = 1"
  shows "complete ls" "code_start ls (length (symbols ls)) \<noteq> 2 ^ 15 \<Longrightarrow> length (symbols ls) = 1 \<and> len_at ls 0 = 1"
proof -
  let ?n = "length (symbols ls)"
  note fit = code_room_fits [OF len y]
  have n0: "0 < ?n" using some by simp
  have "?n = 1 \<and> len_at ls 0 = 1" if "code_start ls ?n \<noteq> 2 ^ 15"
  proof -
    have "y \<noteq> 0"
    proof
      assume "y = 0"
      then have "int (code_start ls ?n) = int (2 ^ 15)" using fit(2) by simp
      then show False using that by (simp only: of_nat_eq_iff)
    qed
    then have g: "longest 15 (count_lengths ls) = 1" using one fit(1) by simp
    note ends = symbols_ends [OF len g [symmetric] one_neq_zero]
    have lens: "len_at ls j = 1" if "j < ?n" for j using ends(6) [OF that] len_at_bounds(1) [OF that] by simp
    have "?n = 1"
    proof (rule ccontr)
      assume "?n \<noteq> 1"
      then have "2 \<le> ?n" using n0 by linarith
      then have "code_start ls 2 \<le> code_start ls ?n" by (rule code_start_mono)
      moreover have "code_start ls 2 = 2 ^ 15"
      proof -
        have n: "0 < ?n" "Suc 0 < ?n" using \<open>2 \<le> ?n\<close> by linarith+
        have "code_start ls (Suc (Suc 0)) = 2 ^ 14 + 2 ^ 14"
          using code_start_Suc [OF n(1)] code_start_Suc [OF n(2)] lens [OF n(1)] lens [OF n(2)] by simp
        moreover have "Suc (Suc 0) = 2" by simp
        ultimately show ?thesis by simp
      qed
      ultimately have "2 ^ 15 \<le> int (code_start ls ?n)" by simp
      then show False using fit(1,2) \<open>y \<noteq> 0\<close> by simp
    qed
    then show ?thesis using lens [OF n0] by simp
  qed
  then show "complete ls" "code_start ls ?n \<noteq> 2 ^ 15 \<Longrightarrow> ?n = 1 \<and> len_at ls 0 = 1" by (auto simp: complete_def)
qed

lemma inflate_table_decodes:
  assumes len: "list_all (\<lambda>l. l < 16) ls" and w: "length (symbols ls) \<le> length work" and some: "symbols ls \<noteq> []"
    and ty: "table_sized ty ls bits table" and ret: "tr_ret (inflate_table ty ls table work bits) = 0"
  shows "decodes ty ls (tr_bits (inflate_table ty ls table work bits)) (tr_table (inflate_table ty ls table work bits))"
    "length (tr_table (inflate_table ty ls table work bits)) = length table" "complete ls"
proof -
  let ?R = "inflate_table ty ls table work bits" and ?n = "length (symbols ls)"
  define g where "g = longest 15 (count_lengths ls)"
  define p where "p = root_size ls bits"
  note R = inflate_table_eq [OF len some, of ty table work bits, unfolded Let_def, folded g_def p_def]
  obtain y where y: "code_room 1 (tl (count_lengths ls)) = Some y" "\<not> (0 < y \<and> (ty = 0 \<or> g \<noteq> 1))" "\<not> table_full ty (2 ^ p)"
    using ret unfolding R by (auto split: option.splits if_splits)
  obtain t where t: "place_symbols (length ls) ty ls (sorted_symbols ls work) g p (table_start ls bits table) = Inr t"
    using ret y unfolding R by (auto split: sum.splits)
  have res: "tr_bits ?R = p" "tr_table ?R = (if t_z t \<noteq> 0 then (t_n t)[t_c t + t_z t := entry (t_w t - t_v t) 64 0] else t_n t)"
    unfolding R y(1) option.case if_not_P [OF y(2)] if_not_P [OF y(3)] t sum.case by simp_all
  note fit = code_room_fits [OF len y(1)]
  note start = table_start_ok [OF len w some ty y(1) y(3) [unfolded p_def], folded g_def p_def]
  have t0: "t_n (table_start ls bits table) = table" "t_cs (table_start ls bits table) = count_lengths ls" "t_m (table_start ls bits table) = 0"
    by (simp_all add: table_start_def Let_def)
  have n0: "0 < ?n" "?n \<le> length ls + 0" using some symbols_length by simp_all
  have p1: "1 \<le> p" "p \<le> 15" using start(1) by (simp_all add: build_ok_def)
  have st: "length (t_n t) = length table" "t_z t = brev 15 (code_start ls ?n)" "t_c t + 2 ^ t_k t \<le> length table" "g \<le> p \<longrightarrow> t_c t = 0"
    "\<exists>bl. \<forall>j < ?n. found ty ls p bl (t_c t) (t_k t) (t_n t) j"
    using place_symbols_ok [of ty ls "sorted_symbols ls work" g p "table_start ls bits table" 0 "length ls", unfolded t0, OF start(1) n0(1) start(2,3) refl n0(2)] t
    by simp_all
  then obtain bl where bl: "\<forall>j < ?n. found ty ls p bl (t_c t) (t_k t) (t_n t) j" by blast
  have dec: "decodes ty ls p (t_n t)"
    by (rule found_decodes [OF p1 _ fit(3) bl]) (use st start(5) in simp_all)
  have one: "0 < y \<longrightarrow> longest 15 (count_lengths ls) = 1" using y(2) by (auto simp: g_def)
  note comp = table_complete [OF len some y(1) one]
  show "complete ls" by (rule comp)
  show "length (tr_table ?R) = length table" using res(2) st(1) by simp
  show "decodes ty ls (tr_bits ?R) (tr_table ?R)"
  proof (cases "t_z t = 0")
    case True
    then show ?thesis using dec res by simp
  next
    case False
    have "code_start ls ?n \<noteq> 2 ^ 15"
    proof
      assume "code_start ls ?n = 2 ^ 15"
      then have "t_z t = brev 15 (2 ^ 15 mod 2 ^ 15)" unfolding st(2) brev_mod by simp
      then show False using False by simp
    qed
    then have one: "?n = 1" "len_at ls 0 = 1" using comp(2) by blast+
    have "g = len_at ls (?n - 1)" using start(1) by (simp add: build_ok_def)
    then have "g = 1" by (simp add: one)
    then have p: "p = 1" using symbols_ends(7,8) [OF len g_def] by (simp add: p_def root_size_def Let_def g_def [symmetric])
    have "t_c t = 0" using st(4) \<open>g = 1\<close> p by simp
    have "T[t_z t := e] ! (h mod 2 ^ p) = T ! (h mod 2 ^ p)" if "starts ls 0 h" for T h and e :: nat
    proof -
      have "h mod 2 ^ p = 0" using that one by (simp add: starts_def p)
      then show ?thesis using False by simp
    qed
    then have "decodes ty ls p ((t_n t)[t_z t := e])" for e
      using dec one by (simp add: decodes_def p)
    then show ?thesis using res False \<open>t_c t = 0\<close> by simp
  qed
qed

text \<open>A complete code whose codes all fit the root gets its table.\<close>

lemma inflate_table_small:
  assumes len: "list_all (\<lambda>l. l < 16) ls" and w: "length (symbols ls) \<le> length work" and some: "symbols ls \<noteq> []"
    and ty: "table_sized ty ls bits table" and room: "code_room 1 (tl (count_lengths ls)) = Some 0"
    and small: "list_all (\<lambda>l. l \<le> bits) ls" "\<not> table_full ty (2 ^ root_size ls bits)"
  shows "tr_ret (inflate_table ty ls table work bits) = 0"
proof -
  note start = table_start_ok [OF len w some ty room small(2)]
  have t0: "t_n (table_start ls bits table) = table" "t_cs (table_start ls bits table) = count_lengths ls" "t_m (table_start ls bits table) = 0"
    by (simp_all add: table_start_def Let_def)
  have n0: "0 < length (symbols ls)" "length (symbols ls) \<le> length ls + 0" using some symbols_length by simp_all
  let ?P = "place_symbols (length ls) ty ls (sorted_symbols ls work) (longest 15 (count_lengths ls)) (root_size ls bits) (table_start ls bits table)"
  have "\<exists>t. ?P = Inr t"
    using place_symbols_ok [of ty ls "sorted_symbols ls work" "longest 15 (count_lengths ls)" "root_size ls bits" "table_start ls bits table" 0 "length ls",
        unfolded t0, OF start(1) n0(1) start(2,3) refl n0(2)] start(4) [OF small(1)]
    by (cases ?P) simp_all
  then show ?thesis unfolding inflate_table_eq [OF len some] using room small(2) by (auto simp: Let_def)
qed

section \<open>Looking a code up\<close>

text \<open>\<open>h\<close> begins with the code of the symbol \<open>s\<close>, its first bit lowest.\<close>

definition begins :: "nat list \<Rightarrow> nat \<Rightarrow> nat \<Rightarrow> bool" where
  "begins ls s h \<longleftrightarrow> s < length ls \<and> 1 \<le> ls ! s \<and> ls ! s \<le> 15 \<and> h mod 2 ^ (ls ! s) = brev (ls ! s) (huffman_code ls s)"

lemma begins_starts:
  assumes "begins ls s h"
  shows "position ls s < length (symbols ls)" "symbols ls ! position ls s = s" "starts ls (position ls s) h"
proof -
  have s: "s < length ls" "1 \<le> ls ! s" "ls ! s \<le> 15" using assms by (simp_all add: begins_def)
  note p = symbols_position [OF s]
  show "position ls s < length (symbols ls)" "symbols ls ! position ls s = s" by (rule p)+
  have "brev 15 (code_start ls (position ls s)) = brev (ls ! s) (huffman_code ls s)"
    unfolding huffman_code_start [OF s] using brev_shift [of "15 - ls ! s" "ls ! s" "huffman_code ls s"] s(3) by simp
  then show "starts ls (position ls s) h" using assms p(1) by (simp add: starts_def begins_def p)
qed

lemma starts_begins:
  assumes "m < length (symbols ls)" "starts ls m h"
  shows "begins ls (symbols ls ! m) h"
proof -
  let ?s = "symbols ls ! m"
  have s: "?s < length ls" "1 \<le> ls ! ?s" "ls ! ?s \<le> 15" using symbols_mem [of ?s ls] assms(1) by simp_all
  have "brev 15 (code_start ls m) = brev (ls ! ?s) (huffman_code ls ?s)"
    using huffman_code_start [OF s] position_symbols [OF assms(1)] brev_shift [of "15 - ls ! ?s" "ls ! ?s" "huffman_code ls ?s"] s(3) by simp
  then show ?thesis using assms(2) s by (simp add: begins_def starts_def)
qed

lemma begins_unique: "fits ls \<Longrightarrow> begins ls s h \<Longrightarrow> begins ls s' h \<Longrightarrow> s = s'"
  using begins_starts starts_unique by metis

lemma decodes_root:
  assumes "decodes ty ls p T" "begins ls s h" "ls ! s \<le> p"
  shows "at T (h mod 2 ^ p) = sym_entry ty (ls ! s) s"
proof -
  note b = begins_starts [OF assms(2)]
  have "2 ^ p \<le> length T" using assms(1) by (simp add: decodes_def)
  then have i: "h mod 2 ^ p < length T" using mod_less_divisor [of "2 ^ p" h] by (simp del: mod_less_divisor)
  have "T ! (h mod 2 ^ p) = sym_entry ty (ls ! s) s"
    using assms(1) [unfolded decodes_def] b assms(3) by (metis (no_types, lifting))
  then show ?thesis using i by (simp add: at_def)
qed

lemma decodes_second:
  assumes "decodes ty ls p T" "length T \<le> 65536" "begins ls s h" "p < ls ! s"
  obtains k c where "at T (h mod 2 ^ p) = entry p k c" "1 \<le> k" "k \<le> 15" "c < 65536"
    "at T (c + h mod 2 ^ (p + k) div 2 ^ p) = sym_entry ty (ls ! s - p) s"
proof -
  note b = begins_starts [OF assms(3)]
  have "2 ^ p \<le> length T" using assms(1) by (simp add: decodes_def)
  then have i: "h mod 2 ^ p < length T" using mod_less_divisor [of "2 ^ p" h] by (simp del: mod_less_divisor)
  have l: "\<not> len_at ls (position ls s) \<le> p" using assms(4) b(2) by simp
  have all: "\<forall>j < length (symbols ls). \<forall>h. starts ls j h \<longrightarrow>
       (if len_at ls j \<le> p then T ! (h mod 2 ^ p) = sym_entry ty (len_at ls j) (symbols ls ! j)
        else \<exists>c k. T ! (h mod 2 ^ p) = entry p k c \<and> 1 \<le> k \<and> k \<le> 15 \<and> len_at ls j - p \<le> k \<and> c + 2 ^ k \<le> length T \<and>
          T ! (c + h div 2 ^ p mod 2 ^ k) = sym_entry ty (len_at ls j - p) (symbols ls ! j))"
    using assms(1) unfolding decodes_def by (elim conjE) assumption
  have "\<exists>c k. T ! (h mod 2 ^ p) = entry p k c \<and> 1 \<le> k \<and> k \<le> 15 \<and> ls ! s - p \<le> k \<and> c + 2 ^ k \<le> length T \<and>
      T ! (c + h div 2 ^ p mod 2 ^ k) = sym_entry ty (ls ! s - p) s"
    using all [rule_format, OF b(1,3)] l unfolding b(2) by simp
  then obtain c k where k: "T ! (h mod 2 ^ p) = entry p k c" "1 \<le> k" "k \<le> 15" "c + 2 ^ k \<le> length T"
    "T ! (c + h div 2 ^ p mod 2 ^ k) = sym_entry ty (ls ! s - p) s" by blast
  have m: "h mod 2 ^ (p + k) div 2 ^ p = h div 2 ^ p mod 2 ^ k" by (simp add: power_add mod_mult2_eq)
  have j: "h div 2 ^ p mod 2 ^ k < 2 ^ k" by simp
  then have "c + h div 2 ^ p mod 2 ^ k < length T" using k(4) by linarith
  then have t: "at T (c + h mod 2 ^ (p + k) div 2 ^ p) = sym_entry ty (ls ! s - p) s" using k(5) by (simp add: at_def m)
  have "c < 65536" using k(4) assms(2) zero_less_power [of "2::nat" k] by linarith
  then show thesis using that k(1-3) i t by (simp add: at_def)
qed

text \<open>C3: The table \<open>inflate_table\<close> (\<open>me\<close>) builds from code lengths decodes their canonical code, as RFC 1951 defines it:
  when the call returns 0, the bits \<open>h\<close> of the stream that begin with the code of a symbol lead to the entry that
  names this symbol and drops exactly its code, either at once (the code fits the root) or through the entry of
  a second table.
\<close>

theorem inflate_table_right:
  assumes "list_all (\<lambda>l. l < 16) ls" "length ls \<le> length work" "table_sized ty ls bits table" "length table \<le> 65536"
    and "tr_ret (inflate_table ty ls table work bits) = 0" "begins ls s h"
  shows "let R = inflate_table ty ls table work bits; p = tr_bits R; e = at (tr_table R) (h mod 2 ^ p) in
    if ls ! s \<le> p then e = sym_entry ty (ls ! s) s
    else entry_bits e = p \<and> 0 < entry_op e \<and> entry_op e < 16 \<and>
      at (tr_table R) (entry_val e + h mod 2 ^ (p + entry_op e) div 2 ^ p) = sym_entry ty (ls ! s - p) s"
proof -
  have w: "length (symbols ls) \<le> length work" using assms(2) symbols_length [of ls] by linarith
  have some: "symbols ls \<noteq> []" using begins_starts(1) [OF assms(6)] by auto
  note d = inflate_table_decodes [OF assms(1) w some assms(3,5)]
  show ?thesis
  proof (cases "ls ! s \<le> tr_bits (inflate_table ty ls table work bits)")
    case True
    then show ?thesis using decodes_root [OF d(1) assms(6)] by (simp add: Let_def)
  next
    case False
    have len: "length (tr_table (inflate_table ty ls table work bits)) \<le> 65536" using d(2) assms(4) by simp
    show ?thesis
      by (rule decodes_second [OF d(1) len assms(6)]) (use False in \<open>auto simp: Let_def entry_fields\<close>)
  qed
qed

text \<open>A code of three symbols, of one and two bits.\<close>

lemma inflate_table_right_witness:
  "let R = inflate_table 0 [1, 2, 2] (replicate 8 0) [0, 0, 0] 3; p = tr_bits R; e = at (tr_table R) (3 mod 2 ^ p) in
    if [1, 2, 2] ! 2 \<le> p then e = sym_entry 0 ([1, 2, 2] ! 2) 2
    else entry_bits e = p \<and> 0 < entry_op e \<and> entry_op e < 16 \<and>
      at (tr_table R) (entry_val e + 3 mod 2 ^ (p + entry_op e) div 2 ^ p) = sym_entry 0 ([1, 2, 2] ! 2 - p) 2"
proof (rule inflate_table_right)
  have sized: "table_sized 0 [1, 2, 2] 3 (replicate 8 (0::nat))" by (simp add: table_sized_def)
  have len: "list_all (\<lambda>l. l < 16) [1, 2, 2 :: nat]" by simp
  have brev: "brev 2 v = v div 2 mod 2 + v mod 2 * 2" for v by (simp add: brev_Suc numeral_2_eq_2)
  have "first_code [1, 2, 2] (Suc (Suc 0)) = 2" by simp
  then have "huffman_code [1, 2, 2] 2 = 3" by (simp add: huffman_code_def numeral_2_eq_2)
  then show b: "begins [1, 2, 2] 2 3" by (simp add: begins_def brev)
  then have some: "symbols [1, 2, 2] \<noteq> []" using begins_starts(1) by fastforce
  have cs: "count_lengths [1, 2, 2] = [0, 1, 2, 0, 0, 0, 0, 0, 0, 0, 0, 0, 0, 0, 0, 0]"
    by (simp add: count_lengths_def numeral_eq_Suc)
  then have room: "code_room 1 (tl (count_lengths [1, 2, 2])) = Some 0" unfolding cs by (simp add: Let_def)
  show "tr_ret (inflate_table 0 [1, 2, 2] (replicate 8 0) [0, 0, 0] 3) = 0"
    by (rule inflate_table_small [OF len _ some sized room])
      (use symbols_length [of "[1, 2, 2]"] in \<open>simp_all add: table_full_def\<close>)
qed (simp_all add: table_sized_def)

end
