(* ===== verification/Pako_Bits.thy ===== *)
theory Pako_Bits
  imports Pako_Stored Pako_Codes Bit_Lists
begin

text \<open>
  The bit buffer of \<open>inflate\<close> against the bits of the whole input: \<open>synced t z\<close> says that \<open>hold\<close> and \<open>bits\<close> are the bits
  of \<open>t\<close> from \<open>place z\<close> to the next unread byte.  Reading a byte and giving bytes back keep the place; dropping bits
  moves it.  On this rest the lemmas about the decoding of one symbol, with the loops that wait for enough bits.
\<close>

section \<open>The bits ahead\<close>

definition ahead :: "nat list \<Rightarrow> nat \<Rightarrow> nat" where
  "ahead t q = le_value t div 2 ^ q"

lemma ahead_add: "ahead t (q + n) = ahead t q div 2 ^ n"
  by (simp add: ahead_def power_add div_mult2_eq)

lemma le_value_bits: "bits_value (bit_list t) = le_value t" if "all_bytes t"
  using that by (induction t) (simp_all add: bits_value_append all_bytes_def)

lemma ahead_has_bits:
  assumes "all_bytes t" "has_bits t q bs" "list_all (\<lambda>b. b < 2) bs"
  shows "ahead t q mod 2 ^ length bs = bits_value bs"
proof (cases "bs = []")
  case False
  let ?B = "bit_list t"
  define pre where "pre = take q ?B"
  define post where "post = drop (length bs) (drop q ?B)"
  have "drop q ?B = take (length bs) (drop q ?B) @ drop (length bs) (drop q ?B)" by (simp only: append_take_drop_id)
  then have d: "drop q ?B = bs @ post" using assms(2) by (simp only: has_bits_def post_def)
  have "drop q ?B \<noteq> []" unfolding d using False by simp
  then have l: "length pre = q" by (simp add: pre_def)
  have "?B = pre @ drop q ?B" by (simp add: pre_def)
  then have B: "?B = pre @ bs @ post" by (simp add: d)
  have bits: "list_all (\<lambda>b. b < 2) (bit_list t)" for t
    by (induction t) (use lsb_bits [of 8] in simp_all)
  have p: "bits_value pre < 2 ^ length pre" "bits_value bs < 2 ^ length bs"
    using bits [of t] B assms(3) by (intro bits_value_less; simp)+
  have "le_value t = bits_value pre + 2 ^ q * (bits_value bs + 2 ^ length bs * bits_value post)"
    using le_value_bits [OF assms(1)] by (simp add: B bits_value_append l)
  then have "ahead t q = bits_value bs + 2 ^ length bs * bits_value post" using p(1) by (simp add: ahead_def l)
  then show ?thesis using p(2) by simp
qed simp

lemma at_le_value: "all_bytes t \<Longrightarrow> at t i = le_value t div 2 ^ (8 * i) mod 256"
proof (induction t arbitrary: i)
  case (Cons b t)
  then have b: "b < 256" "all_bytes t" by (simp_all add: all_bytes_def)
  show ?case
  proof (cases i)
    case 0
    then show ?thesis using b by (simp add: at_def)
  next
    case (Suc j)
    have "(b + 256 * le_value t) div 256 = le_value t" using b by simp
    moreover have "(2::nat) ^ (8 * Suc j) = 256 * 2 ^ (8 * j)" by (simp add: power_add)
    ultimately have "(b + 256 * le_value t) div 2 ^ (8 * Suc j) = le_value t div 2 ^ (8 * j)" by (simp add: div_mult2_eq)
    moreover have "at (b # t) (Suc j) = at t j" by (simp add: at_def)
    ultimately show ?thesis using Cons.IH [OF b(2), of j] unfolding Suc le_value_simps by simp
  qed
qed (simp add: at_def)

section \<open>The buffer\<close>

definition place :: "zstream \<Rightarrow> nat" where
  "place z = 8 * next_in z - bits z"

definition synced :: "nat list \<Rightarrow> zstream \<Rightarrow> bool" where
  "synced t z \<longleftrightarrow> all_bytes t \<and> inp z = t \<and> next_in z \<le> length t \<and> bits z \<le> 8 * next_in z \<and> hold z = ahead t (place z) mod 2 ^ bits z"

lemma place_next: "synced t z \<Longrightarrow> 8 * next_in z = place z + bits z"
  by (simp add: synced_def place_def)

text \<open>Only five fields count.\<close>

lemma synced_fields:
  assumes "inp z' = inp z" "next_in z' = next_in z" "bits z' = bits z" "hold z' = hold z"
  shows "synced t z' \<longleftrightarrow> synced t z" "place z' = place z"
  using assms by (simp_all add: synced_def place_def)

lemma synced_low: "synced t z \<Longrightarrow> n \<le> bits z \<Longrightarrow> low_bits n z = ahead t (place z) mod 2 ^ n"
  by (simp add: synced_def low_bits_def mod_mod_cancel le_imp_power_dvd)

lemma pull_byte_synced:
  assumes "synced t z" "next_in z < length t"
  shows "synced t (pull_byte z)" "place (pull_byte z) = place z" "bits (pull_byte z) = bits z + 8" "next_in (pull_byte z) = Suc (next_in z)"
proof -
  have s: "all_bytes t" "inp z = t" "bits z \<le> 8 * next_in z" "hold z = ahead t (place z) mod 2 ^ bits z"
    using assms(1) by (simp_all add: synced_def)
  show p: "place (pull_byte z) = place z" using s(3) by (simp add: place_def pull_byte_def)
  have "at t (next_in z) = ahead t (place z) div 2 ^ bits z mod 2 ^ 8"
    using at_le_value [OF s(1)] place_next [OF assms(1)] by (simp add: ahead_add [symmetric]) (simp add: ahead_def)
  then have "hold z + at t (next_in z) * 2 ^ bits z = ahead t (place z) mod 2 ^ (bits z + 8)"
    unfolding s(4) power_add mod_mult2_eq [of "ahead t (place z)" "2 ^ bits z" "2 ^ 8"] by (simp add: mult.commute)
  then show "synced t (pull_byte z)" using s assms(2) unfolding synced_def p by (simp add: pull_byte_def)
  show "bits (pull_byte z) = bits z + 8" "next_in (pull_byte z) = Suc (next_in z)" by (simp_all add: pull_byte_def)
qed

lemma drop_bits_synced:
  assumes "synced t z" "n \<le> bits z"
  shows "synced t (drop_bits n z)" "place (drop_bits n z) = place z + n" "bits (drop_bits n z) = bits z - n"
proof -
  have s: "bits z \<le> 8 * next_in z" "hold z = ahead t (place z) mod 2 ^ bits z" using assms(1) by (simp_all add: synced_def)
  show p: "place (drop_bits n z) = place z + n" using s(1) assms(2) by (simp add: place_def drop_bits_def)
  have "drop_bit n (take_bit (bits z) (ahead t (place z))) = take_bit (bits z - n) (drop_bit n (ahead t (place z)))"
    by (rule drop_bit_take_bit)
  then have "hold z div 2 ^ n = ahead t (place z + n) mod 2 ^ (bits z - n)"
    by (simp add: s(2) ahead_add take_bit_eq_mod drop_bit_eq_div)
  then show "synced t (drop_bits n z)" using assms s(1) unfolding synced_def p by (auto simp: drop_bits_def)
  show "bits (drop_bits n z) = bits z - n" by (simp add: drop_bits_def)
qed

lemma init_bits_synced:
  assumes "synced t z"
  shows "synced t (init_bits z)" "place (init_bits z) = place z + bits z" "bits (init_bits z) = 0"
  using assms by (simp_all add: synced_def place_def init_bits_def)

text \<open>Whole bytes go back to the input.\<close>

lemma give_back_synced:
  assumes "synced t z" "z' = z\<lparr>next_in := next_in z - bits z div 8, hold := hold z mod 2 ^ (bits z mod 8), bits := bits z mod 8, avail_out := a\<rparr>"
  shows "synced t z'" "place z' = place z"
proof -
  have s: "bits z \<le> 8 * next_in z" "hold z = ahead t (place z) mod 2 ^ bits z" using assms(1) by (simp_all add: synced_def)
  have b: "bits z = 8 * (bits z div 8) + bits z mod 8" by simp
  have n: "bits z div 8 \<le> next_in z" using s(1) by linarith
  show p: "place z' = place z"
    unfolding place_def assms(2) using b n s(1) by (simp add: diff_mult_distrib2)
  have "hold z mod 2 ^ (bits z mod 8) = ahead t (place z) mod 2 ^ (bits z mod 8)"
    unfolding s(2) by (rule mod_mod_cancel) (simp add: le_imp_power_dvd)
  moreover have "bits z mod 8 \<le> 8 * (next_in z - bits z div 8)" using b s(1) n unfolding diff_mult_distrib2 by linarith
  moreover have "next_in z - bits z div 8 \<le> length t" using assms(1) by (auto simp: synced_def)
  ultimately show "synced t z'" using assms(1) unfolding synced_def p by (simp add: assms(2))
qed

section \<open>Waiting for bits\<close>

text \<open>The same stream with more of it in the buffer.\<close>

definition refilled :: "nat list \<Rightarrow> zstream \<Rightarrow> zstream \<Rightarrow> bool" where
  "refilled t z z' \<longleftrightarrow> same_but_bits z z' \<and> synced t z' \<and> place z' = place z"

lemma refilled_refl: "synced t z \<Longrightarrow> refilled t z z"
  by (simp add: refilled_def)

lemma refilled_byte:
  assumes "synced t z" "next_in z < length t" "refilled t (pull_byte z) z'"
  shows "refilled t z z'"
  using assms pull_byte_synced(2) [OF assms(1,2)] same_but_bits_trans [OF same_but_bits_basic(1)] by (auto simp: refilled_def)

lemma more_input:
  assumes "synced t z" "bits z < n" "place z + n \<le> 8 * length t"
  shows "next_in z < length t" "avail_in z \<noteq> 0"
proof -
  show "next_in z < length t" using place_next [OF assms(1)] assms(2,3) by linarith
  then show "avail_in z \<noteq> 0" using assms(1) by (simp add: avail_in_def synced_def)
qed

lemma pull_synced:
  "synced t z \<Longrightarrow> place z + n \<le> 8 * length t \<Longrightarrow>
   \<exists>z'. pull n z = (True, z') \<and> refilled t z z' \<and> n \<le> bits z' \<and> (bits z' < n + 8 \<or> bits z' = bits z)"
proof (induction n z rule: pull.induct)
  case (1 n z)
  show ?case
  proof (cases "n \<le> bits z")
    case True
    then show ?thesis using 1(2) by (intro exI [of _ z]) (simp add: pull.simps [of n z] refilled_refl)
  next
    case False
    then have i: "next_in z < length t" "avail_in z \<noteq> 0" using more_input [OF 1(2) _ 1(3)] by simp_all
    note p = pull_byte_synced [OF 1(2) i(1)]
    obtain z' where z': "pull n (pull_byte z) = (True, z')" "refilled t (pull_byte z) z'" "n \<le> bits z'" "bits z' < n + 8 \<or> bits z' = bits (pull_byte z)"
      using 1(1) [OF False i(2) p(1)] 1(3) p(2) by auto
    have "pull n z = (True, z')" using False i(2) z'(1) by (simp add: pull.simps [of n z])
    moreover have "bits z' < n + 8" using z'(4) p(3) False by auto
    ultimately show ?thesis using z'(3) refilled_byte [OF 1(2) i(1) z'(2)] by blast
  qed
qed

text \<open>
  The loop over the entries: \<open>F\<close> looks an entry up by the bits in the buffer, the missing ones read as zeros.  It
  finds the entry of the bits ahead when an entry is only taken, from the \<open>b\<close> bits there at least, with all its bits
  there.
\<close>

definition stable :: "(nat \<Rightarrow> nat) \<Rightarrow> nat \<Rightarrow> nat \<Rightarrow> nat \<Rightarrow> bool" where
  "stable F k b v \<longleftrightarrow> (\<forall>n\<ge>b. k + entry_bits (F (v mod 2 ^ n)) \<le> n \<or> k + entry_bits (F v) \<le> n \<longrightarrow> F (v mod 2 ^ n) = F v)"

lemma pull_entry_synced:
  "synced t z \<Longrightarrow> stable F k b (ahead t (place z)) \<Longrightarrow> b \<le> bits z \<Longrightarrow> \<forall>u. same_but_bits z u \<longrightarrow> look u = F (hold u) \<Longrightarrow>
   place z + (k + entry_bits (F (ahead t (place z)))) \<le> 8 * length t \<Longrightarrow>
   \<exists>z'. pull_entry look k z = (Some (F (ahead t (place z))), z') \<and> refilled t z z' \<and> k + entry_bits (F (ahead t (place z))) \<le> bits z' \<and>
     (bits z' < k + entry_bits (F (ahead t (place z))) + 8 \<or> bits z' = bits z)"
proof (induction look k z rule: pull_entry.induct)
  case (1 look k z)
  let ?v = "ahead t (place z)"
  note s = 1(2) and st = 1(3) and b = 1(4) and look = 1(5) and room = 1(6)
  have h: "hold z = ?v mod 2 ^ bits z" using s by (simp add: synced_def)
  have l: "look z = F (?v mod 2 ^ bits z)" using look h by simp
  have same: "look z = F ?v" if "k + entry_bits (look z) \<le> bits z \<or> k + entry_bits (F ?v) \<le> bits z"
    using st b that unfolding stable_def l by blast
  show ?case
  proof (cases "k + entry_bits (look z) \<le> bits z")
    case True
    then have "look z = F ?v" using same by blast
    then show ?thesis using True s by (intro exI [of _ z]) (simp add: pull_entry.simps [of look k z] refilled_refl)
  next
    case False
    have less: "bits z < k + entry_bits (F ?v)"
    proof (rule ccontr)
      assume n: "\<not> bits z < k + entry_bits (F ?v)"
      then have "look z = F ?v" using same by simp
      then show False using n False by simp
    qed
    have i: "next_in z < length t" "avail_in z \<noteq> 0" using more_input [OF s less room] by simp_all
    note p = pull_byte_synced [OF s i(1)]
    have lk: "\<forall>u. same_but_bits (pull_byte z) u \<longrightarrow> look u = F (hold u)"
      using look same_but_bits_trans [OF same_but_bits_basic(1)] by blast
    have bb: "b \<le> bits (pull_byte z)" using b p(3) by simp
    obtain z' where z': "pull_entry look k (pull_byte z) = (Some (F ?v), z')" "refilled t (pull_byte z) z'"
      "k + entry_bits (F ?v) \<le> bits z'" "bits z' < k + entry_bits (F ?v) + 8 \<or> bits z' = bits (pull_byte z)"
      using 1(1) [OF False i(2) p(1) _ bb lk] st room unfolding p(2) by blast
    have "pull_entry look k z = (Some (F ?v), z')" using False i(2) z'(1) by (simp add: pull_entry.simps [of look k z])
    moreover have "bits z' < k + entry_bits (F ?v) + 8" using z'(4) p(3) less by auto
    ultimately show ?thesis using z'(3) refilled_byte [OF s i(1) z'(2)] by blast
  qed
qed

section \<open>Symbols\<close>

lemma at_bounded: "list_all (\<lambda>x. x < b) xs \<Longrightarrow> 0 < b \<Longrightarrow> at xs i < b"
  by (simp add: at_def list_all_length)

lemma sym_entry_bits:
  assumes "s < 65536"
  shows "entry_bits (sym_entry ty b s) = b" "entry_op (sym_entry ty b s) = sym_op ty s" "entry_val (sym_entry ty b s) = sym_val ty s"
proof -
  have "list_all (\<lambda>x. x < 256) lext" "list_all (\<lambda>x. x < 256) dext" "list_all (\<lambda>x. x < 65536) lbase" "list_all (\<lambda>x. x < 65536) dbase"
    by (simp_all add: lext_def dext_def lbase_def dbase_def)
  note b = this [THEN at_bounded]
  have "sym_op ty s < 256" "sym_val ty s < 65536" using b assms by (simp_all add: sym_op_def sym_val_def)
  note e = entry_fields [OF this, of b]
  show "entry_bits (sym_entry ty b s) = b" "entry_op (sym_entry ty b s) = sym_op ty s" "entry_val (sym_entry ty b s) = sym_val ty s"
    unfolding sym_entry_def by (rule e)+
qed

text \<open>A table for the lengths \<open>ls\<close>, as the three calls of \<open>inflate_table\<close> build it.\<close>

definition table_for :: "nat \<Rightarrow> nat list \<Rightarrow> nat \<Rightarrow> nat list \<Rightarrow> bool" where
  "table_for ty ls p T \<longleftrightarrow> decodes ty ls p T \<and> complete ls \<and> length T \<le> 65536 \<and>
     length ls \<le> (if ty = 0 then 19 else if ty = 1 then 288 else 32)"

lemma table_forD:
  assumes "table_for ty ls p T"
  shows "decodes ty ls p T" "complete ls" "length T \<le> 65536" "1 \<le> p" "p \<le> 15" "fits ls" "length ls \<le> 288"
    "length ls \<le> (if ty = 0 then 19 else if ty = 1 then 288 else 32)"
proof -
  show d: "decodes ty ls p T" and "complete ls" "length T \<le> 65536" and l: "length ls \<le> (if ty = 0 then 19 else if ty = 1 then 288 else 32)"
    using assms by (simp_all add: table_for_def)
  show "length ls \<le> 288" using l by (simp split: if_splits)
  show "1 \<le> p" using d unfolding decodes_def by (elim conjE) assumption
  show "p \<le> 15" using d unfolding decodes_def by (elim conjE) assumption
  show "fits ls" using d unfolding decodes_def by (elim conjE) assumption
qed

lemma at_least: "list_all (\<lambda>x. b \<le> x) xs \<Longrightarrow> i < length xs \<Longrightarrow> b \<le> at xs i"
  by (simp add: at_def list_all_length)

text \<open>The entry of a symbol is no link to a second table.\<close>

lemma sym_op_no_link:
  assumes "s < (if ty = 0 then 19 else if ty = 1 then 288 else 32)"
  shows "sym_op ty s = 0 \<and> ty \<le> 1 \<or> 16 \<le> sym_op ty s"
proof -
  have l: "16 \<le> at lext i" if "i < 31" for i by (rule at_least) (use that in \<open>simp_all add: lext_def\<close>)
  have d: "16 \<le> at dext i" if "i < 32" for i by (rule at_least) (use that in \<open>simp_all add: dext_def\<close>)
  show ?thesis using assms l [of "s - 257"] d [of s] by (auto simp: sym_op_def split: if_splits)
qed

lemma complete_cover:
  assumes f: "fits ls" and c: "complete ls" and b: "begins ls s v"
  obtains s' where "begins ls s' (v mod 2 ^ n)"
proof (cases "code_start ls (length (symbols ls)) = 2 ^ 15")
  case True
  let ?h = "v mod 2 ^ n"
  have "x < code_start ls m \<Longrightarrow> \<exists>j<m. code_start ls j \<le> x \<and> x < code_start ls (Suc j)" for x m
  proof (induction m)
    case (Suc m)
    show ?case
    proof (cases "x < code_start ls m")
      case True
      then show ?thesis using Suc.IH by (meson less_SucI)
    next
      case False
      then show ?thesis using Suc.prems by (intro exI [of _ m]) simp
    qed
  qed simp
  from this [of "brev 15 ?h" "length (symbols ls)"] obtain j where j: "j < length (symbols ls)" "code_start ls j \<le> brev 15 ?h" "brev 15 ?h < code_start ls (Suc j)"
    unfolding True using brev_less [of 15 ?h] by blast
  then have "starts ls j ?h" using starts_interval [OF f j(1)] by simp
  then show thesis using starts_begins [OF j(1)] that by blast
next
  case False
  then have one: "length (symbols ls) = 1" "len_at ls 0 = 1" using c by (auto simp: complete_def)
  note st = begins_starts [OF b]
  have p: "position ls s = 0" using st(1) one(1) by simp
  have s: "s = symbols ls ! 0" using st(2) p by simp
  have v: "v mod 2 = 0" using st(3) one(2) by (simp add: starts_def p)
  have "v mod 2 ^ n mod 2 = 0"
  proof (cases n)
    case (Suc m)
    then show ?thesis using v by (simp add: mod_mod_cancel)
  qed simp
  then have "starts ls 0 (v mod 2 ^ n)" using one(2) by (simp add: starts_def)
  then show thesis using starts_begins [of 0 ls] one(1) that by force
qed

text \<open>Only the bits of the code decide.\<close>

lemma begins_mod:
  assumes "ls ! s \<le> n"
  shows "begins ls s (v mod 2 ^ n) \<longleftrightarrow> begins ls s v"
proof -
  have "v mod 2 ^ n mod 2 ^ (ls ! s) = v mod 2 ^ (ls ! s)" by (rule mod_mod_cancel) (simp add: le_imp_power_dvd assms)
  then show ?thesis by (simp add: begins_def)
qed

lemma begins_symbol: "table_for ty ls p T \<Longrightarrow> begins ls s v \<Longrightarrow> s < 65536" "begins ls s v \<Longrightarrow> s < length ls"
  using table_forD(7) [of ty ls p T] by (auto simp: begins_def)

lemma root_bits:
  assumes t: "table_for ty ls p T" and b: "begins ls s h"
  shows "entry_bits (at T (h mod 2 ^ p)) = min (ls ! s) p"
proof (cases "ls ! s \<le> p")
  case True
  then show ?thesis using decodes_root [OF table_forD(1) [OF t] b] sym_entry_bits [OF begins_symbol(1) [OF t b]] by simp
next
  case False
  then have f: "p < ls ! s" by simp
  show ?thesis by (rule decodes_second [OF table_forD(1,3) [OF t] b f]) (use f in \<open>simp add: entry_fields\<close>)
qed

lemma root_stable:
  assumes t: "table_for ty ls p T" and b: "begins ls s v"
  shows "stable (\<lambda>h. at T (h mod 2 ^ p)) 0 0 v"
  unfolding stable_def
proof (intro allI impI)
  fix n :: nat
  note f = table_forD(6) [OF t]
  obtain s' where s': "begins ls s' (v mod 2 ^ n)" by (rule complete_cover [OF f table_forD(2) [OF t] b])
  assume "0 + entry_bits (at T (v mod 2 ^ n mod 2 ^ p)) \<le> n \<or> 0 + entry_bits (at T (v mod 2 ^ p)) \<le> n"
  then have m: "min (ls ! s') p \<le> n \<or> min (ls ! s) p \<le> n" using root_bits [OF t s'] root_bits [OF t b] by simp
  show "at T (v mod 2 ^ n mod 2 ^ p) = at T (v mod 2 ^ p)"
  proof (cases "p \<le> n")
    case True
    then show ?thesis by (simp add: mod_mod_cancel le_imp_power_dvd)
  next
    case False
    then have n: "ls ! s' \<le> n \<or> ls ! s \<le> n" using m by (auto simp: min_def split: if_splits)
    then have e: "s' = s" using s' b begins_mod begins_unique [OF f] by blast
    then have "ls ! s \<le> p" using n False by auto
    then show ?thesis using decodes_root [OF table_forD(1) [OF t]] s' b e by simp
  qed
qed

lemma second_stable:
  assumes t: "table_for ty ls p T" and b: "begins ls s v" and l: "p < ls ! s"
    and e: "at T (v mod 2 ^ p) = entry p k c" "1 \<le> k" "k \<le> 15" "c < 65536"
  shows "stable (\<lambda>h. at T (c + h mod 2 ^ (p + k) div 2 ^ p)) p p v" "at T (c + v mod 2 ^ (p + k) div 2 ^ p) = sym_entry ty (ls ! s - p) s"
proof -
  note f = table_forD(6) [OF t]
  have found: "p < ls ! s' \<and> at T (c + h mod 2 ^ (p + k) div 2 ^ p) = sym_entry ty (ls ! s' - p) s'"
    if h: "begins ls s' h" "h mod 2 ^ p = v mod 2 ^ p" for s' h
  proof
    show l': "p < ls ! s'"
    proof (rule ccontr)
      assume "\<not> p < ls ! s'"
      then have "sym_entry ty (ls ! s') s' = entry p k c" using decodes_root [OF table_forD(1) [OF t] h(1)] h(2) e(1) by simp
      then have "entry_op (sym_entry ty (ls ! s') s') = entry_op (entry p k c)" by simp
      then have "sym_op ty s' = k"
        using sym_entry_bits(2) [OF begins_symbol(1) [OF t h(1)]] entry_fields(2) [of k c p] e(3,4) by simp
      moreover have "s' < (if ty = 0 then 19 else if ty = 1 then 288 else 32)"
        using begins_symbol(2) [OF h(1)] table_forD(8) [OF t] by (auto split: if_splits)
      ultimately show False using sym_op_no_link [of s' ty] e(2,3) by linarith
    qed
    obtain k' c' where k': "at T (h mod 2 ^ p) = entry p k' c'" "k' \<le> 15" "c' < 65536"
      "at T (c' + h mod 2 ^ (p + k') div 2 ^ p) = sym_entry ty (ls ! s' - p) s'"
      by (rule decodes_second [OF table_forD(1,3) [OF t] h(1) l'])
    have "entry p k' c' = entry p k c" using k'(1) h(2) e(1) by simp
    moreover have "k' < 256" "k < 256" using k'(2) e(3) by simp_all
    ultimately have "k' = k" "c' = c" using entry_fields(2,3) [of k' c' p] entry_fields(2,3) [of k c p] k'(3) e(4) by auto
    then show "at T (c + h mod 2 ^ (p + k) div 2 ^ p) = sym_entry ty (ls ! s' - p) s'" using k'(4) by simp
  qed
  show v: "at T (c + v mod 2 ^ (p + k) div 2 ^ p) = sym_entry ty (ls ! s - p) s" using found [OF b refl] by simp
  show "stable (\<lambda>h. at T (c + h mod 2 ^ (p + k) div 2 ^ p)) p p v"
    unfolding stable_def v
  proof (intro allI impI)
    fix n :: nat
    assume n: "p \<le> n" and m: "p + entry_bits (at T (c + v mod 2 ^ n mod 2 ^ (p + k) div 2 ^ p)) \<le> n \<or>
      p + entry_bits (sym_entry ty (ls ! s - p) s) \<le> n"
    obtain s' where s': "begins ls s' (v mod 2 ^ n)" by (rule complete_cover [OF f table_forD(2) [OF t] b])
    have "v mod 2 ^ n mod 2 ^ p = v mod 2 ^ p" using n by (simp add: mod_mod_cancel le_imp_power_dvd)
    note found' = found [OF s' this]
    have "ls ! s' \<le> n \<or> ls ! s \<le> n"
      using m found' l sym_entry_bits(1) [OF begins_symbol(1) [OF t b]] sym_entry_bits(1) [OF begins_symbol(1) [OF t s']] by auto
    then have "s' = s" using s' b begins_mod begins_unique [OF f] by blast
    then show "at T (c + v mod 2 ^ n mod 2 ^ (p + k) div 2 ^ p) = sym_entry ty (ls ! s - p) s" using found' by simp
  qed
qed

section \<open>Reading one symbol\<close>

text \<open>What reading a symbol changes: the buffer, the input position and the count of bits taken.\<close>

definition buffer_only :: "zstream \<Rightarrow> zstream \<Rightarrow> bool" where
  "buffer_only z z' \<longleftrightarrow> (\<exists>h b i k. z' = z\<lparr>hold := h, bits := b, next_in := i, zback := k\<rparr>)"

lemma buffer_only_same: "same_but_bits z z' \<Longrightarrow> buffer_only z z'"
proof -
  assume "same_but_bits z z'"
  then obtain h b i where e: "z' = z\<lparr>hold := h, bits := b, next_in := i\<rparr>" unfolding same_but_bits_def by (elim exE)
  show "buffer_only z z'"
    unfolding buffer_only_def e by (rule exI [of _ h], rule exI [of _ b], rule exI [of _ i], rule exI [of _ "zback z"]) simp
qed

lemma buffer_only_trans: "buffer_only z z' \<Longrightarrow> buffer_only z' z'' \<Longrightarrow> buffer_only z z''"
  unfolding buffer_only_def by (elim exE, intro exI) simp

lemma buffer_only_back: "buffer_only z (z\<lparr>zback := k\<rparr>)"
  unfolding buffer_only_def by (rule exI [of _ "hold z"], rule exI [of _ "bits z"], rule exI [of _ "next_in z"], rule exI [of _ k]) simp

lemma buffer_only_drop: "buffer_only z (drop_bits n z)"
  by (rule buffer_only_same) (rule same_but_bits_basic)

lemma same_but_bits_tables:
  assumes "same_but_bits z z'"
  shows "lencode z' = lencode z" "lenbits z' = lenbits z" "distcode z' = distcode z" "distbits z' = distbits z"
  using assms unfolding same_but_bits_def by auto

text \<open>
  The two loops of \<open>do_len\<close> and \<open>do_dist\<close>: the entry of the root, and where it is a link (\<open>C\<close>) the entry of the second
  table.
\<close>

definition symbol_entry_of :: "(nat \<Rightarrow> bool) \<Rightarrow> nat list \<Rightarrow> nat \<Rightarrow> zstream \<Rightarrow> nat option \<times> zstream" where
  "symbol_entry_of C T e0 z =
     (if C e0 then (case pull_entry (second_entry T e0) (entry_bits e0) z of
          (None, z) \<Rightarrow> (None, z)
        | (Some e, z) \<Rightarrow> (Some e, (drop_bits (entry_bits e0) z)\<lparr>zback := zback z + int (entry_bits e0)\<rparr>))
      else (Some e0, z))"

lemma root_read:
  assumes z: "synced t z" and T: "table_for ty ls p T" and b: "begins ls s (ahead t (place z))"
    and room: "place z + ls ! s \<le> 8 * length t" and look: "\<forall>u. same_but_bits z u \<longrightarrow> look u = at T (hold u mod 2 ^ p)"
  obtains z1 where "pull_entry look 0 z = (Some (at T (ahead t (place z) mod 2 ^ p)), z1)" "refilled t z z1"
    "min (ls ! s) p \<le> bits z1" "bits z1 < min (ls ! s) p + 8 \<or> bits z1 = bits z"
proof -
  let ?v = "ahead t (place z)"
  note eb = root_bits [OF T b]
  have "place z + (0 + entry_bits (at T (?v mod 2 ^ p))) \<le> 8 * length t" using room by (simp add: eb)
  from pull_entry_synced [OF z root_stable [OF T b] _ look this] show thesis using that by (auto simp: eb)
qed

lemma symbol_read:
  assumes z: "synced t z" "bits z < 8" and T: "table_for ty ls p T" and b: "begins ls s (ahead t (place z))"
    and room: "place z + ls ! s \<le> 8 * length t" and look: "\<forall>u. same_but_bits z u \<longrightarrow> look u = at T (hold u mod 2 ^ p)"
    and C: "\<not> C (sym_entry ty (ls ! s) s)" "\<forall>k c. 1 \<le> k \<and> k \<le> 15 \<and> c < 65536 \<longrightarrow> C (entry p k c)"
  obtains e0 z1 m z2 where "pull_entry look 0 z = (Some e0, z1)" "same_but_bits z z1"
    "symbol_entry_of C T e0 z1 = (Some (sym_entry ty m s), z2)" "m \<le> bits z2" "buffer_only z z2"
    "synced t (drop_bits m z2)" "place (drop_bits m z2) = place z + ls ! s" "bits (drop_bits m z2) < 8"
proof -
  let ?v = "ahead t (place z)" and ?e0 = "at T (ahead t (place z) mod 2 ^ p)"
  obtain z1 where z1: "pull_entry look 0 z = (Some ?e0, z1)" "refilled t z z1" "min (ls ! s) p \<le> bits z1"
    "bits z1 < min (ls ! s) p + 8 \<or> bits z1 = bits z"
    by (rule root_read [OF z(1) T b room look])
  have s1: "same_but_bits z z1" "synced t z1" "place z1 = place z" using z1(2) by (simp_all add: refilled_def)
  note d = table_forD [OF T]
  show thesis
  proof (cases "ls ! s \<le> p")
    case True
    have e: "?e0 = sym_entry ty (ls ! s) s" by (rule decodes_root [OF d(1) b True])
    have "symbol_entry_of C T ?e0 z1 = (Some (sym_entry ty (ls ! s) s), z1)"
      using C(1) by (simp add: symbol_entry_of_def e)
    moreover have l: "ls ! s \<le> bits z1" using z1(3) True by simp
    moreover have "bits z1 - ls ! s < 8" using z1(4) True z(2) by auto
    ultimately show thesis
      using that [OF z1(1) s1(1)] buffer_only_same [OF s1(1)] drop_bits_synced [OF s1(2) l] s1(3) by simp
  next
    case False
    then have l: "p < ls ! s" by simp
    obtain k c where k: "?e0 = entry p k c" "1 \<le> k" "k \<le> 15" "c < 65536"
      by (rule decodes_second [OF d(1,3) b l]) blast
    have f: "entry_bits ?e0 = p" "entry_op ?e0 = k" "entry_val ?e0 = c" unfolding k(1) using k(3,4) by (simp_all add: entry_fields)
    note sec = second_stable [OF T b l k]
    let ?m = "ls ! s - p"
    have eb: "entry_bits (sym_entry ty ?m s) = ?m" by (rule sym_entry_bits(1) [OF begins_symbol(1) [OF T b]])
    have bp: "p \<le> bits z1" using z1(3) l by simp
    have look2: "\<forall>u. same_but_bits z1 u \<longrightarrow> second_entry T ?e0 u = at T (c + hold u mod 2 ^ (p + k) div 2 ^ p)"
      by (simp add: second_entry_def low_bits_def f)
    have "place z1 + (p + entry_bits (at T (c + ?v mod 2 ^ (p + k) div 2 ^ p))) \<le> 8 * length t"
      unfolding sec(2) eb using room s1(3) l by simp
    then obtain z2 where z2: "pull_entry (second_entry T ?e0) p z1 = (Some (sym_entry ty ?m s), z2)" "refilled t z1 z2"
      "p + ?m \<le> bits z2" "bits z2 < p + ?m + 8 \<or> bits z2 = bits z1"
      using pull_entry_synced [OF s1(2), where F = "\<lambda>h. at T (c + h mod 2 ^ (p + k) div 2 ^ p)" and k = p and b = p and look = "second_entry T ?e0"]
        sec(1) bp look2 unfolding s1(3) sec(2) eb by blast
    have s2: "same_but_bits z1 z2" "synced t z2" "place z2 = place z" using z2(2) s1(3) by (simp_all add: refilled_def)
    have n: "p \<le> bits z2" using z2(3) by simp
    let ?z3 = "(drop_bits p z2)\<lparr>zback := zback z2 + int p\<rparr>"
    note dp = drop_bits_synced [OF s2(2) n]
    have s3: "synced t ?z3" "place ?z3 = place z + p" "bits ?z3 = bits z2 - p"
      using dp s2(3) synced_fields [of ?z3 "drop_bits p z2"] by simp_all
    have "C ?e0" unfolding k(1) using C(2) k(2-4) by blast
    then have "symbol_entry_of C T ?e0 z1 = (Some (sym_entry ty ?m s), ?z3)"
      by (simp add: symbol_entry_of_def f z2(1))
    moreover have l3: "?m \<le> bits ?z3" using s3(3) z2(3) l by linarith
    moreover have "buffer_only z ?z3"
      using buffer_only_trans [OF buffer_only_same [OF same_but_bits_trans [OF s1(1) s2(1)]]]
        buffer_only_trans [OF buffer_only_drop buffer_only_back] by blast
    moreover have "bits ?z3 - ?m < 8" using z2(4) z1(4) z(2) s3(3) l by auto
    moreover have "place z + p + ?m = place z + ls ! s" using l by simp
    ultimately show thesis using that [OF z1(1) s1(1)] drop_bits_synced [OF s3(1) l3] s3(2) by simp
  qed
qed

end
