(* ===== verification/Pako_Calls.thy ===== *)
theory Pako_Calls
  imports Pako_Stored
begin

text \<open>
  The calls of \<open>inflate\<close> that \<open>push\<close> makes one after the other.  More fuel does not change a result.  \<open>gives ch z v\<close> says that
  \<open>pako.inflate\<close> ends in \<open>v\<close> from the state \<open>z\<close> inside a call, with the chunks \<open>ch\<close> behind it; \<open>leads ch z P\<close> that the run
  comes from there to a state and chunks of \<open>P\<close>, over as many calls as the output needs.
\<close>

section \<open>More fuel\<close>

lemma follow_mono: "follow n T e z = Some r \<Longrightarrow> n \<le> m \<Longrightarrow> follow m T e z = Some r"
proof (induction n arbitrary: e z m)
  case (Suc n)
  then obtain k where k: "m = Suc k" "n \<le> k" by (cases m) auto
  show ?case using Suc.prems(1) Suc.IH [OF _ k(2)] by (auto simp: k(1) Let_def split: if_splits)
qed simp

lemma follow_dist_mono: "follow_dist n T e z = Some r \<Longrightarrow> n \<le> m \<Longrightarrow> follow_dist m T e z = Some r"
proof (induction n arbitrary: e z m)
  case (Suc n)
  then obtain k where k: "m = Suc k" "n \<le> k" by (cases m) auto
  show ?case using Suc.prems(1) Suc.IH [OF _ k(2)] by (auto simp: k(1) Let_def split: if_splits)
qed simp

lemma fast_round_mono:
  assumes "fast_round n beg z = Some r" "n \<le> m"
  shows "fast_round m beg z = Some r"
proof -
  let ?z = "refill2 z"
  obtain e u where f: "follow n (lencode ?z) (at (lencode ?z) (low_bits (lenbits ?z) ?z)) ?z = Some (e, u)"
    using assms(1) by (auto simp: fast_round_def Let_def split: option.splits)
  note fm = follow_mono [OF f assms(2)]
  let ?x = "entry_op e mod 16"
  define w where "w = refill2 (drop_bits ?x (if ?x \<noteq> 0 then refill ?x u else u))"
  show ?thesis
  proof (cases "entry_op e = 0 \<or> \<not> has_bit (entry_op e) 4")
    case True
    then show ?thesis using assms(1) unfolding fast_round_def Let_def f fm option.case prod.case by auto
  next
    case False
    then have c: "entry_op e \<noteq> 0" "\<not> \<not> has_bit (entry_op e) 4" by simp_all
    note one = fast_round_def Let_def option.case prod.case w_def [symmetric] if_not_P [OF c(1)] if_not_P [OF c(2)]
    obtain e' u' where g: "follow_dist n (distcode w) (at (distcode w) (low_bits (distbits w) w)) w = Some (e', u')"
      using assms(1) unfolding one f by (cases "follow_dist n (distcode w) (at (distcode w) (low_bits (distbits w) w)) w") auto
    show ?thesis using assms(1) unfolding one f fm g follow_dist_mono [OF g assms(2)] .
  qed
qed

lemma fast_loop_mono: "fast_loop n beg lim stop z = Some r \<Longrightarrow> n \<le> m \<Longrightarrow> fast_loop m beg lim stop z = Some r"
proof (induction n arbitrary: z m)
  case (Suc n)
  then obtain k where k: "m = Suc k" "n \<le> k" by (cases m) auto
  obtain x where x: "fast_round n beg z = Some x" using Suc.prems(1) by (cases "fast_round n beg z") simp_all
  show ?case using Suc.prems(1) Suc.IH [OF _ k(2)] by (auto simp: k(1) x fast_round_mono [OF x k(2)] split: sum.splits if_splits)
qed simp


lemma inflate_fast_mono: "inflate_fast n f z = Some u \<Longrightarrow> n \<le> m \<Longrightarrow> inflate_fast m f z = Some u"
  unfolding inflate_fast_def Let_def map_option_eq_Some using fast_loop_mono by blast

lemma step_mono: "(\<And>u. step n fl z \<noteq> Endless u) \<Longrightarrow> n \<le> m \<Longrightarrow> step m fl z = step n fl z"
proof (cases "zmode z = M_LEN \<and> 6 \<le> avail_in z \<and> 258 \<le> avail_out z")
  case True
  assume e: "\<And>u. step n fl z \<noteq> Endless u" and m: "n \<le> m"
  then obtain u where "inflate_fast n (room z) z = Some u" using True by (cases "inflate_fast n (room z) z") (auto simp: step_def do_len_def)
  then show ?thesis using True inflate_fast_mono [OF _ m] by (simp add: step_def do_len_def)
next
  case False
  have "do_len n (room z) z = do_len m (room z) z" if "zmode z = M_LEN"
  proof -
    have "\<not> (6 \<le> avail_in z \<and> 258 \<le> avail_out z)" using False that by simp
    show ?thesis unfolding do_len_def if_not_P [OF \<open>\<not> (6 \<le> avail_in z \<and> 258 \<le> avail_out z)\<close>] ..
  qed
  then show ?thesis by (simp add: step_def split: mode.split)
qed

lemma passes_mono: "(\<And>u. passes n fl z \<noteq> Endless u) \<Longrightarrow> n \<le> m \<Longrightarrow> passes m fl z = passes n fl z"
proof (induction n arbitrary: z m)
  case (Suc n)
  obtain k where k: "m = Suc k" "n \<le> k" using Suc.prems(2) by (cases m) auto
  have "step n fl z \<noteq> Endless u" for u using Suc.prems(1) [of u] by auto
  note s = step_mono [OF this k(2)]
  show ?case
  proof (cases "step n fl z")
    case (Again z1)
    have "passes n fl z1 \<noteq> Endless u" for u using Suc.prems(1) [of u] by (simp add: Again)
    then show ?thesis using Suc.IH [OF _ k(2)] by (simp add: k(1) s Again)
  qed (simp_all add: k(1) s)
next
  case 0
  then show ?case using "0.prems"(1) [of z] by simp
qed

lemma inflate_mono: "inflate n fl z = Some r \<Longrightarrow> n \<le> m \<Longrightarrow> inflate m fl z = Some r"
proof -
  assume i: "inflate n fl z = Some r" and m: "n \<le> m"
  let ?z = "z\<lparr>zmode := (if zmode z = M_TYPE then M_TYPEDO else zmode z), room := avail_out z\<rparr>"
  have "passes n fl ?z \<noteq> Endless u" for u using i by (auto simp: inflate_def Let_def)
  from passes_mono [OF this m] show "inflate m fl z = Some r" using i by (simp add: inflate_def Let_def)
qed

lemma next_members_mono: "next_members n fl r = Some r' \<Longrightarrow> n \<le> m \<Longrightarrow> next_members m fl r = Some r'"
proof (induction n arbitrary: r m)
  case (Suc n)
  obtain k where k: "m = Suc k" "n \<le> k" using Suc.prems(2) by (cases m) auto
  obtain s z where r: "r = (s, z)" by (cases r)
  show ?case
  proof (cases "0 < avail_in z \<and> s = 1 \<and> 0 < wrap z \<and> at (inp z) (next_in z) \<noteq> 0")
    case True
    then obtain r1 where r1: "inflate n fl (inflateReset z) = Some r1" "next_members n fl r1 = Some r'"
      using Suc.prems(1) by (auto simp: r split: option.splits)
    show ?thesis using True inflate_mono [OF r1(1) k(2)] Suc.IH [OF r1(2) k(2)] by (simp add: k(1) r)
  next
    case False
    show ?thesis using Suc.prems(1) unfolding k(1) r next_members.simps prod.case if_not_P [OF False] .
  qed
qed simp

lemma if_last:
  "(if A then x else if B then y else if C then w else f) = Some r \<Longrightarrow> (f = Some r \<Longrightarrow> f' = Some r) \<Longrightarrow>
   (if A then x else if B then y else if C then w else f') = Some r"
  by (simp split: if_splits)

lemma push_loop_mono: "push_loop n chunk a = Some r \<Longrightarrow> n \<le> m \<Longrightarrow> push_loop m chunk a = Some r"
proof (induction n arbitrary: a m)
  case (Suc n)
  obtain k where k: "m = Suc k" "n \<le> k" using Suc.prems(2) by (cases m) auto
  define z where "z = (if avail_out (strm a) = 0 then (strm a)\<lparr>outp := [], avail_out := chunk\<rparr> else strm a)"
  obtain s u where b: "Option.bind (inflate n 0 z) (next_members n 0) = Some (s, u)"
    using Suc.prems(1) unfolding push_loop.simps Let_def z_def [symmetric] by (auto split: option.splits)
  then obtain r1 where i1: "inflate n 0 z = Some r1" and i2: "next_members n 0 r1 = Some (s, u)" by (auto simp: bind_eq_Some_conv)
  have b': "Option.bind (inflate k 0 z) (next_members k 0) = Some (s, u)"
    using inflate_mono [OF i1 k(2)] next_members_mono [OF i2 k(2)] by simp
  have p: "push_loop (Suc j) chunk a = (let a = a\<lparr>strm := u\<rparr> in
          if s = -2 \<or> s = -3 \<or> s = 2 \<or> s = -4 then Some (False, onEnd s a)
          else
            let a = (if next_out u \<noteq> 0 \<and> (avail_out u = 0 \<or> s = 1) then a\<lparr>chunks := chunks a @ [outp u]\<rparr> else a) in
            if s = 1 then Some (True, onEnd 0 a)
            else if (s \<noteq> 0 \<or> avail_out u \<noteq> 0) \<and> avail_in u = 0 then Some (True, a)
            else push_loop j chunk a)" if "Option.bind (inflate j 0 z) (next_members j 0) = Some (s, u)" for j
    unfolding push_loop.simps Let_def z_def [symmetric] that option.case prod.case ..
  show ?case
    using Suc.prems(1) unfolding k(1) p [OF b] p [OF b'] Let_def by (rule if_last) (rule Suc.IH [OF _ k(2)])
qed simp

lemma updatewindow_others [simp]:
  "room (updatewindow e i z) = room z" "zmode (updatewindow e i z) = zmode z" "wrap (updatewindow e i z) = wrap z"
  "zflags (updatewindow e i z) = zflags z" "zcheck (updatewindow e i z) = zcheck z"
  by (simp_all add: updatewindow_def Let_def split: option.split)

section \<open>The rest of the calls\<close>

definition outcome_of :: "bool \<times> inflator \<Rightarrow> nat list option result" where
  "outcome_of r = (case r of (_, a) \<Rightarrow>
     if err a \<noteq> 0 then Inl (Runtime (if err_msg a \<noteq> [] then err_msg a else Z_MESSAGE (err a))) else Inr (inflated a))"

text \<open>What \<open>push\<close> does with the code and the state that a call returned.\<close>

definition after_call :: "nat \<Rightarrow> inflator \<Rightarrow> int \<times> zstream \<Rightarrow> (bool \<times> inflator) option" where
  "after_call n a r = (case r of (s, z) \<Rightarrow>
     let a = a\<lparr>strm := z\<rparr> in
     if s = -2 \<or> s = -3 \<or> s = 2 \<or> s = -4 then Some (False, onEnd s a)
     else
       let a = (if next_out z \<noteq> 0 \<and> (avail_out z = 0 \<or> s = 1) then a\<lparr>chunks := chunks a @ [outp z]\<rparr> else a) in
       if s = 1 then Some (True, onEnd 0 a)
       else if (s \<noteq> 0 \<or> avail_out z \<noteq> 0) \<and> avail_in z = 0 then Some (True, a)
       else push_loop n 65536 a)"

text \<open>The same from the result \<open>p\<close> of the passes of a call that began with \<open>i0\<close> bytes of input.\<close>

definition after_passes :: "nat \<Rightarrow> nat \<Rightarrow> inflator \<Rightarrow> pass \<Rightarrow> (bool \<times> inflator) option" where
  "after_passes n i0 a p =
     Option.bind (Option.bind (case p of Leave x z \<Rightarrow> Some (finish 0 i0 x z) | Return x z \<Rightarrow> Some (x, z) | _ \<Rightarrow> None) (next_members n 0))
       (after_call n a)"

lemma push_loop_call:
  "push_loop (Suc n) 65536 a =
     (let z = (if avail_out (strm a) = 0 then (strm a)\<lparr>outp := [], avail_out := 65536\<rparr> else strm a) in
      after_passes n (avail_in z) a (passes n 0 (z\<lparr>zmode := (if zmode z = M_TYPE then M_TYPEDO else zmode z), room := avail_out z\<rparr>)))"
proof -
  have b: "(case Option.bind x y of None \<Rightarrow> None | Some (s, z) \<Rightarrow> f s z) = Option.bind (Option.bind x y) (\<lambda>(s, z). f s z)"
    for x :: "(int \<times> zstream) option" and y and f :: "int \<Rightarrow> zstream \<Rightarrow> (bool \<times> inflator) option"
    by (auto split: option.split bind_split)
  show ?thesis unfolding push_loop.simps b after_passes_def inflate_def after_call_def [abs_def] Let_def ..
qed

lemma after_call_mono: "after_call n a r = Some x \<Longrightarrow> n \<le> m \<Longrightarrow> after_call m a r = Some x"
  unfolding after_call_def Let_def
  by (cases r) (simp only: prod.case, rule if_last, assumption, erule (1) push_loop_mono)

lemma after_passes_mono:
  assumes "after_passes n i0 a p = Some x" "n \<le> m"
  shows "after_passes m i0 a p = Some x"
proof -
  obtain r1 r2 where r: "(case p of Leave x z \<Rightarrow> Some (finish 0 i0 x z) | Return x z \<Rightarrow> Some (x, z) | _ \<Rightarrow> None) = Some r1"
    "next_members n 0 r1 = Some r2" "after_call n a r2 = Some x"
    using assms(1) unfolding after_passes_def by (auto simp: bind_eq_Some_conv)
  show ?thesis
    unfolding after_passes_def r(1) using next_members_mono [OF r(2) assms(2)] after_call_mono [OF r(3) assms(2)] by simp
qed

lemma after_passes_ends: "after_passes n i0 a p = Some x \<Longrightarrow> p \<noteq> Endless u"
  by (auto simp: after_passes_def)

section \<open>Runs over several calls\<close>

definition gives :: "nat list list \<Rightarrow> zstream \<Rightarrow> nat list option result \<Rightarrow> bool" where
  "gives ch z v \<longleftrightarrow> (\<forall>a i0. chunks a = ch \<and> err a = 0 \<and> inflated a = None \<longrightarrow>
     (\<exists>n r. after_passes n i0 a (passes n 0 z) = Some r \<and> outcome_of r = v))"

definition leads :: "nat list list \<Rightarrow> zstream \<Rightarrow> (nat list list \<Rightarrow> zstream \<Rightarrow> bool) \<Rightarrow> bool" where
  "leads ch z P \<longleftrightarrow> (\<forall>v. (\<forall>ch' z'. P ch' z' \<longrightarrow> gives ch' z' v) \<longrightarrow> gives ch z v)"

lemma leads_refl: "P ch z \<Longrightarrow> leads ch z P"
  by (simp add: leads_def)

lemma leads_trans: "leads ch z P \<Longrightarrow> (\<And>ch' z'. P ch' z' \<Longrightarrow> leads ch' z' Q) \<Longrightarrow> leads ch z Q"
  unfolding leads_def by blast

lemma leads_mono: "leads ch z P \<Longrightarrow> (\<And>ch' z'. P ch' z' \<Longrightarrow> Q ch' z') \<Longrightarrow> leads ch z Q"
  unfolding leads_def by blast

lemma leads_gives: "leads ch z P \<Longrightarrow> (\<And>ch' z'. P ch' z' \<Longrightarrow> gives ch' z' v) \<Longrightarrow> gives ch z v"
  unfolding leads_def by blast

text \<open>Passes within the call, with \<open>c\<close> fuel left behind them.\<close>

lemma gives_passes:
  assumes p: "\<And>n. c \<le> n \<Longrightarrow> passes (k + n) 0 z = passes n 0 z'" and g: "gives ch z' v"
  shows "gives ch z v"
  unfolding gives_def
proof (intro allI impI)
  fix a :: inflator and i0 assume a: "chunks a = ch \<and> err a = 0 \<and> inflated a = None"
  obtain n r where n: "after_passes n i0 a (passes n 0 z') = Some r" "outcome_of r = v"
    using g a unfolding gives_def by blast
  let ?m = "max n c"
  have "passes ?m 0 z' = passes n 0 z'" by (rule passes_mono) (use after_passes_ends [OF n(1)] in auto)
  moreover have "passes (k + ?m) 0 z = passes ?m 0 z'" by (rule p) simp
  ultimately have "after_passes (k + ?m) i0 a (passes (k + ?m) 0 z) = Some r"
    using after_passes_mono [OF n(1), of "k + ?m"] by simp
  then show "\<exists>n r. after_passes n i0 a (passes n 0 z) = Some r \<and> outcome_of r = v" using n(2) by blast
qed

lemma leads_runs: "runs b z z' \<Longrightarrow> P ch z' \<Longrightarrow> leads ch z P"
  unfolding runs_def leads_def using gives_passes [where c = 0] by blast

lemma leads_step:
  assumes "\<And>n. c \<le> n \<Longrightarrow> step n 0 z = Again z'" "P ch z'"
  shows "leads ch z P"
  unfolding leads_def
proof (intro allI impI)
  fix v assume v: "\<forall>ch' z'. P ch' z' \<longrightarrow> gives ch' z' v"
  show "gives ch z v" by (rule gives_passes [where c = c and k = 1 and z' = z']) (use assms v in simp_all)
qed

lemma leads_then: "(\<And>n. c \<le> n \<Longrightarrow> step n 0 z = Again z') \<Longrightarrow> leads ch z' P \<Longrightarrow> leads ch z P"
  by (rule leads_trans [where P = "\<lambda>ch' u. ch' = ch \<and> u = z'"]) (auto intro: leads_step)

lemma leads_after: "runs b z z' \<Longrightarrow> leads ch z' P \<Longrightarrow> leads ch z P"
  by (rule leads_trans [where P = "\<lambda>ch' u. ch' = ch \<and> u = z'"]) (auto intro: leads_runs)

section \<open>The ways a call ends\<close>

text \<open>The end of the stream, and of the input.\<close>

lemma gives_done:
  assumes e: "ends b z (Leave 1 z')" and i: "avail_in z' = 0"
  shows "gives ch z (Inr (Some (concat ch @ outp z')))"
  unfolding gives_def
proof (intro allI impI)
  fix a :: inflator and i0 assume a: "chunks a = ch \<and> err a = 0 \<and> inflated a = None"
  obtain s u where f: "finish 0 i0 1 z' = (s, u)" by (cases "finish 0 i0 1 z'")
  note ff = finish_fields [OF f]
  have s: "s = 1" using ff(6) by simp
  have u: "avail_in u = 0" using i ff(1,2) by (simp add: avail_in_def)
  have p: "passes (Suc b) 0 z = Leave 1 z'" using e by (simp add: ends_def del: passes.simps)
  define a2 where "a2 = (if next_out u \<noteq> 0 then a\<lparr>strm := u, chunks := ch @ [outp u]\<rparr> else a\<lparr>strm := u\<rparr>)"
  define r where "r = (True, onEnd 0 a2)"
  have r: "after_call (Suc b) a (1, u) = Some r" using a by (simp add: after_call_def Let_def a2_def r_def)
  have o: "outcome_of r = Inr (Some (concat ch @ outp z'))"
    using a ff(3) by (auto simp: r_def a2_def outcome_of_def onEnd_def next_out_def)
  have "after_passes (Suc b) i0 a (passes (Suc b) 0 z) = Some r"
    unfolding p using r f s u by (simp add: after_passes_def)
  then show "\<exists>n r. after_passes n i0 a (passes n 0 z) = Some r \<and> outcome_of r = Inr (Some (concat ch @ outp z'))" using o by blast
qed

lemma gives_fails:
  assumes e: "ends b z (Leave (-3) z')" and m: "msg z' \<noteq> []"
  shows "gives ch z (Inl (Runtime (msg z')))"
  unfolding gives_def
proof (intro allI impI)
  fix a :: inflator and i0 assume "chunks a = ch \<and> err a = 0 \<and> inflated a = None"
  obtain s u where f: "finish 0 i0 (-3) z' = (s, u)" by (cases "finish 0 i0 (-3) z'")
  note ff = finish_fields [OF f]
  have s: "s = -3" using ff(6) by simp
  have p: "passes (Suc b) 0 z = Leave (-3) z'" using e by (simp add: ends_def del: passes.simps)
  have "after_passes (Suc b) i0 a (passes (Suc b) 0 z) = Some (False, onEnd (-3) (a\<lparr>strm := u\<rparr>))"
    unfolding p using f s by (simp add: after_passes_def after_call_def Let_def)
  moreover have "outcome_of (False, onEnd (-3) (a\<lparr>strm := u\<rparr>)) = Inl (Runtime (msg z'))"
    using ff(5) m by (simp add: outcome_of_def onEnd_def)
  ultimately show "\<exists>n r. after_passes n i0 a (passes n 0 z) = Some r \<and> outcome_of r = Inl (Runtime (msg z'))" by blast
qed

text \<open>The end of a chunk: the next call goes on with an empty one.\<close>

definition next_chunk :: "zstream \<Rightarrow> zstream \<Rightarrow> bool" where
  "next_chunk z z' \<longleftrightarrow> (\<exists>i0. z' = (snd (finish 0 i0 0 z))\<lparr>outp := [], avail_out := 65536, room := 65536\<rparr>)"

lemma leads_chunk:
  assumes l: "\<And>n. step n 0 z = Leave 0 z" and z: "avail_out z = 0" "outp z \<noteq> []" "room z \<noteq> 0" "zmode z \<noteq> M_TYPE"
    and P: "\<And>z'. next_chunk z z' \<Longrightarrow> P (ch @ [outp z]) z'"
  shows "leads ch z P"
  unfolding leads_def gives_def [of ch]
proof (intro allI impI)
  fix v and a :: inflator and i0 assume v: "\<forall>ch' z'. P ch' z' \<longrightarrow> gives ch' z' v" and a: "chunks a = ch \<and> err a = 0 \<and> inflated a = None"
  obtain s u where f: "finish 0 i0 0 z = (s, u)" by (cases "finish 0 i0 0 z")
  note ff = finish_fields [OF f]
  have "fst (finish 0 i0 0 z) = 0" "zmode (snd (finish 0 i0 0 z)) = zmode z" using z(1,3) by (simp_all add: finish_def Let_def)
  then have s: "s = 0" and m: "zmode u = zmode z" by (simp_all add: f)
  define z' where "z' = u\<lparr>outp := [], avail_out := 65536, room := 65536\<rparr>"
  have n: "next_chunk z z'" unfolding next_chunk_def z'_def by (rule exI [of _ i0]) (simp add: f)
  define a' where "a' = a\<lparr>strm := u, chunks := ch @ [outp z]\<rparr>"
  have "gives (ch @ [outp z]) z' v" using v P [OF n] by blast
  moreover have "chunks a' = ch @ [outp z] \<and> err a' = 0 \<and> inflated a' = None" using a by (simp add: a'_def)
  ultimately obtain k r where r: "after_passes k (avail_in z') a' (passes k 0 z') = Some r" "outcome_of r = v"
    unfolding gives_def by blast
  have e: "u\<lparr>outp := [], avail_out := 65536, zmode := zmode z, room := 65536\<rparr> = z'" by (simp add: z'_def m [symmetric])
  have i: "avail_in (u\<lparr>outp := [], avail_out := 65536\<rparr>) = avail_in z'" by (simp add: z'_def avail_in_def)
  have "push_loop (Suc k) 65536 a' = after_passes k (avail_in z') a' (passes k 0 z')"
    unfolding push_loop_call using ff(4) z(1,4) m by (simp add: a'_def i e)
  moreover have "after_call (Suc k) a (0, u) = push_loop (Suc k) 65536 a'"
    using ff(3,4) z(1,2) a unfolding after_call_def Let_def by (simp add: a'_def next_out_def del: push_loop.simps)
  moreover have "after_passes (Suc k) i0 a (passes (Suc k) 0 z) = after_call (Suc k) a (0, u)"
    using f s by (simp add: l after_passes_def)
  ultimately have "after_passes (Suc k) i0 a (passes (Suc k) 0 z) = Some r" using r(1) by simp
  then show "\<exists>n r. after_passes n i0 a (passes n 0 z) = Some r \<and> outcome_of r = v" using r(2) by blast
qed

section \<open>The first call\<close>

lemma started_call:
  assumes "gives [] (started t) v"
  shows "\<exists>n. \<forall>m\<ge>n. pako_inflate m t = v"
proof -
  let ?a = "\<lparr>strm = init_stream\<lparr>inp := t, next_in := 0\<rparr>, chunks = [], err = 0, err_msg = [], ended = False, inflated = None\<rparr>"
  have "chunks ?a = [] \<and> err ?a = 0 \<and> inflated ?a = None" by simp
  then obtain n r where r: "after_passes n (length t) ?a (passes n 0 (started t)) = Some r" "outcome_of r = v"
    using assms unfolding gives_def by blast
  have "init_stream\<lparr>inp := t, next_in := 0, outp := [], avail_out := 65536, zmode := M_HEAD, room := 65536\<rparr> = started t"
    by (simp add: started_def)
  then have "push_loop (Suc n) 65536 ?a = Some r"
    unfolding push_loop_call using r(1) by (simp add: avail_in_def Let_def)
  then have "pako_inflate m t = v" if m: "Suc n \<le> m" for m
  proof -
    obtain k where k: "m = Suc k" using m by (cases m) auto
    have "push_loop m 65536 ?a = Some r" by (rule push_loop_mono [OF \<open>push_loop (Suc n) 65536 ?a = Some r\<close> m])
    then show ?thesis unfolding k pako_inflate_unfold using r(2) by (simp add: outcome_of_def split: prod.splits del: push_loop.simps)
  qed
  then show ?thesis by blast
qed

end
