(* ===== verification/Deflate_Code.thy ===== *)
theory Deflate_Code
  imports Bit_Lists
begin

text \<open>
  The compressed format of RFC 1951 as a reference: what a block means (a list of tokens) and which bits it is
  sent as.  The base values and extra bits of lengths and distances are given by formulas here; the program has
  them as tables.
\<close>

section \<open>Lengths and distances\<close>

definition length_extra :: "nat \<Rightarrow> nat" where
  "length_extra i = (if i < 8 \<or> i = 28 then 0 else i div 4 - 1)"

definition length_base :: "nat \<Rightarrow> nat" where
  "length_base i = (if i < 8 then 3 + i else if i = 28 then 258 else 3 + (4 + i mod 4) * 2 ^ (i div 4 - 1))"

definition dist_extra :: "nat \<Rightarrow> nat" where
  "dist_extra d = (if d < 4 then 0 else d div 2 - 1)"

definition dist_base :: "nat \<Rightarrow> nat" where
  "dist_base d = (if d < 4 then d + 1 else 1 + (2 + d mod 2) * 2 ^ (d div 2 - 1))"

section \<open>Tokens\<close>

text \<open>A literal byte; a copy of length code \<open>i\<close> with extra bits \<open>x\<close>, at distance code \<open>d\<close> with extra bits \<open>y\<close>.\<close>

datatype token = Lit nat | Copy nat nat nat nat

text \<open>\<open>k\<close> bytes from \<open>v\<close> bytes back; the copy may run into what it has just written.\<close>

fun copy_back :: "nat \<Rightarrow> nat \<Rightarrow> nat list \<Rightarrow> nat list" where
  "copy_back 0 v os = os"
| "copy_back (Suc k) v os = copy_back k v (os @ [os ! (length os - v)])"

fun token_out :: "nat list \<Rightarrow> token \<Rightarrow> nat list" where
  "token_out os (Lit b) = os @ [b]"
| "token_out os (Copy i x d y) = copy_back (length_base i + x) (dist_base d + y) os"

definition code_bits :: "nat list \<Rightarrow> nat \<Rightarrow> nat list" where
  "code_bits ls s = msb (ls ! s) (huffman_code ls s)"

fun token_bits :: "nat list \<Rightarrow> nat list \<Rightarrow> token \<Rightarrow> nat list" where
  "token_bits ls ds (Lit b) = code_bits ls b"
| "token_bits ls ds (Copy i x d y) =
     code_bits ls (257 + i) @ lsb (length_extra i) x @ code_bits ds d @ lsb (dist_extra d) y"

text \<open>A symbol that has a code.\<close>

definition coded :: "nat list \<Rightarrow> nat \<Rightarrow> bool" where
  "coded ls s \<longleftrightarrow> s < length ls \<and> 1 \<le> ls ! s \<and> ls ! s \<le> 15"

text \<open>A token that can be sent with these codes when \<open>os\<close> is the output so far.\<close>

fun token_ok :: "nat list \<Rightarrow> nat list \<Rightarrow> nat list \<Rightarrow> token \<Rightarrow> bool" where
  "token_ok ls ds os (Lit b) \<longleftrightarrow> b < 256 \<and> coded ls b"
| "token_ok ls ds os (Copy i x d y) \<longleftrightarrow> i < 29 \<and> x < 2 ^ length_extra i \<and> coded ls (257 + i) \<and>
     d < 30 \<and> y < 2 ^ dist_extra d \<and> coded ds d \<and> dist_base d + y \<le> length os"

fun tokens_ok :: "nat list \<Rightarrow> nat list \<Rightarrow> nat list \<Rightarrow> token list \<Rightarrow> bool" where
  "tokens_ok ls ds os [] \<longleftrightarrow> coded ls 256"
| "tokens_ok ls ds os (a # ts) \<longleftrightarrow> token_ok ls ds os a \<and> tokens_ok ls ds (token_out os a) ts"

definition tokens_out :: "nat list \<Rightarrow> token list \<Rightarrow> nat list" where
  "tokens_out os ts = foldl token_out os ts"

text \<open>The tokens of a block and the end of the block, symbol 256.\<close>

fun tokens_bits :: "nat list \<Rightarrow> nat list \<Rightarrow> token list \<Rightarrow> nat list" where
  "tokens_bits ls ds [] = code_bits ls 256"
| "tokens_bits ls ds (a # ts) = token_bits ls ds a @ tokens_bits ls ds ts"

lemma tokens_out_simps [simp]: "tokens_out os [] = os" "tokens_out os (a # ts) = tokens_out (token_out os a) ts"
  by (simp_all add: tokens_out_def)

lemma copy_back_length [simp]: "length (copy_back k v os) = k + length os"
  by (induction k arbitrary: os) simp_all

lemma token_out_grows: "length os \<le> length (token_out os a)"
  by (cases a) simp_all

lemma tokens_out_grows: "length os \<le> length (tokens_out os ts)"
  by (induction ts arbitrary: os) (auto intro: le_trans [OF token_out_grows])

lemma copy_back_bytes: "list_all (\<lambda>b. b < 256) os \<Longrightarrow> 0 < v \<Longrightarrow> v \<le> length os \<Longrightarrow> list_all (\<lambda>b. b < 256) (copy_back k v os)"
proof (induction k arbitrary: os)
  case (Suc k)
  then have "os ! (length os - v) < 256" by (simp add: list_all_length)
  then show ?case using Suc by simp
qed simp

lemma dist_base_pos: "0 < dist_base d"
  by (simp add: dist_base_def)

lemma tokens_out_bytes:
  "list_all (\<lambda>b. b < 256) os \<Longrightarrow> tokens_ok ls ds os ts \<Longrightarrow> list_all (\<lambda>b. b < 256) (tokens_out os ts)"
proof (induction ts arbitrary: os)
  case (Cons a ts)
  have "list_all (\<lambda>b. b < 256) (token_out os a)"
    using Cons.prems dist_base_pos by (cases a) (auto intro!: copy_back_bytes)
  then show ?case using Cons by simp
qed simp

lemma code_bits_simps [simp]: "length (code_bits ls s) = ls ! s" "bits_value (code_bits ls s) = brev (ls ! s) (huffman_code ls s)"
  "list_all (\<lambda>b. b < 2) (code_bits ls s)"
  by (simp_all add: code_bits_def msb_bits)

lemma tokens_bits_bits: "list_all (\<lambda>b. b < 2) (tokens_bits ls ds ts)"
proof (induction ts)
  case (Cons a ts)
  then show ?case by (cases a) (simp_all add: lsb_bits)
qed simp

section \<open>Blocks\<close>

text \<open>The lengths of the fixed codes.\<close>

definition fixed_literals :: "nat list" where
  "fixed_literals = map (\<lambda>s. if s < 144 then 8 else if s < 256 then 9 else if s < 280 then 7 else 8) [0..<288]"

definition fixed_distances :: "nat list" where
  "fixed_distances = replicate 32 5"

text \<open>
  How code lengths are sent: a length, the last length again, 3 to 10 zeros, or 11 to 138 zeros, with the extra bits
  of the repetition.
\<close>

datatype clen = Len nat | Rep nat | Zeros nat | Many nat

fun clen_out :: "nat list \<Rightarrow> clen \<Rightarrow> nat list" where
  "clen_out ls (Len l) = ls @ [l]"
| "clen_out ls (Rep x) = ls @ replicate (3 + x) (last ls)"
| "clen_out ls (Zeros x) = ls @ replicate (3 + x) 0"
| "clen_out ls (Many x) = ls @ replicate (11 + x) 0"

fun clen_bits :: "nat list \<Rightarrow> clen \<Rightarrow> nat list" where
  "clen_bits cs (Len l) = code_bits cs l"
| "clen_bits cs (Rep x) = code_bits cs 16 @ lsb 2 x"
| "clen_bits cs (Zeros x) = code_bits cs 17 @ lsb 3 x"
| "clen_bits cs (Many x) = code_bits cs 18 @ lsb 7 x"

fun clen_ok :: "nat list \<Rightarrow> nat list \<Rightarrow> clen \<Rightarrow> bool" where
  "clen_ok cs ls (Len l) \<longleftrightarrow> l < 16 \<and> coded cs l"
| "clen_ok cs ls (Rep x) \<longleftrightarrow> x < 4 \<and> ls \<noteq> [] \<and> coded cs 16"
| "clen_ok cs ls (Zeros x) \<longleftrightarrow> x < 8 \<and> coded cs 17"
| "clen_ok cs ls (Many x) \<longleftrightarrow> x < 128 \<and> coded cs 18"

definition clens_out :: "nat list \<Rightarrow> clen list \<Rightarrow> nat list" where
  "clens_out ls es = foldl clen_out ls es"

fun clens_ok :: "nat list \<Rightarrow> nat list \<Rightarrow> clen list \<Rightarrow> bool" where
  "clens_ok cs ls [] \<longleftrightarrow> True"
| "clens_ok cs ls (e # es) \<longleftrightarrow> clen_ok cs ls e \<and> clens_ok cs (clen_out ls e) es"

definition clens_bits :: "nat list \<Rightarrow> clen list \<Rightarrow> nat list" where
  "clens_bits cs es = concat (map (clen_bits cs) es)"

text \<open>The order in which the lengths of the codes for lengths are sent.\<close>

definition clen_order :: "nat list" where
  "clen_order = [16, 17, 18, 0, 8, 7, 9, 6, 10, 5, 11, 4, 12, 3, 13, 2, 14, 1, 15]"

text \<open>
  A block: bytes as they are; tokens in the fixed codes; \<open>Dynamic nl nd nc cs es ts\<close>: tokens in codes that are sent before them, \<open>nl\<close> lengths for
  literals and \<open>nd\<close> for distances, in a code of which the first \<open>nc\<close> lengths of \<open>cs\<close> are sent.
\<close>

datatype block =
    Stored "nat list"
  | Fixed "token list"
  | Dynamic nat nat nat "nat list" "clen list" "token list"

definition literal_lengths :: "nat \<Rightarrow> clen list \<Rightarrow> nat list" where
  "literal_lengths n es = take n (clens_out [] es)"

definition dist_lengths :: "nat \<Rightarrow> clen list \<Rightarrow> nat list" where
  "dist_lengths n es = drop n (clens_out [] es)"

fun block_out :: "nat list \<Rightarrow> block \<Rightarrow> nat list" where
  "block_out os (Stored bs) = os @ bs"
| "block_out os (Fixed ts) = tokens_out os ts"
| "block_out os (Dynamic nl nd nc cs es ts) = tokens_out os ts"

fun block_ok :: "nat list \<Rightarrow> block \<Rightarrow> bool" where
  "block_ok os (Stored bs) \<longleftrightarrow> length bs < 65536 \<and> list_all (\<lambda>b. b < 256) bs"
| "block_ok os (Fixed ts) \<longleftrightarrow> tokens_ok fixed_literals fixed_distances os ts"
| "block_ok os (Dynamic nl nd nc cs es ts) \<longleftrightarrow>
     257 \<le> nl \<and> nl \<le> 286 \<and> 1 \<le> nd \<and> nd \<le> 30 \<and> 4 \<le> nc \<and> nc \<le> 19 \<and>
     length cs = 19 \<and> list_all (\<lambda>l. l < 8) cs \<and> list_all (\<lambda>k. cs ! (clen_order ! k) = 0) [nc..<19] \<and>
     clens_ok cs [] es \<and> length (clens_out [] es) = nl + nd \<and>
     tokens_ok (literal_lengths nl es) (dist_lengths nl es) os ts"

text \<open>The bits of a block that begins at bit \<open>q\<close>: a stored block goes on at the next byte.\<close>

fun block_bits :: "nat \<Rightarrow> nat \<Rightarrow> block \<Rightarrow> nat list" where
  "block_bits q l (Stored bs) = [l, 0, 0] @ replicate (pad_length (q + 3)) 0 @
     bit_list ([length bs mod 256, length bs div 256, 255 - length bs mod 256, 255 - length bs div 256] @ bs)"
| "block_bits q l (Fixed ts) = [l, 1, 0] @ tokens_bits fixed_literals fixed_distances ts"
| "block_bits q l (Dynamic nl nd nc cs es ts) =
     [l, 0, 1] @ lsb 5 (nl - 257) @ lsb 5 (nd - 1) @ lsb 4 (nc - 4) @
     concat (map (\<lambda>k. lsb 3 (cs ! (clen_order ! k))) [0..<nc]) @ clens_bits cs es @
     tokens_bits (literal_lengths nl es) (dist_lengths nl es) ts"

text \<open>The blocks of a stream, the last one marked.\<close>

fun blocks_bits :: "nat \<Rightarrow> block list \<Rightarrow> nat list" where
  "blocks_bits q [] = []"
| "blocks_bits q [b] = block_bits q 1 b"
| "blocks_bits q (b # bs) = block_bits q 0 b @ blocks_bits (q + length (block_bits q 0 b)) bs"

fun blocks_ok :: "nat list \<Rightarrow> block list \<Rightarrow> bool" where
  "blocks_ok os [] \<longleftrightarrow> True"
| "blocks_ok os (b # bs) \<longleftrightarrow> block_ok os b \<and> blocks_ok (block_out os b) bs"

definition blocks_out :: "nat list \<Rightarrow> block list \<Rightarrow> nat list" where
  "blocks_out os bs = foldl block_out os bs"

lemma blocks_out_simps [simp]: "blocks_out os [] = os" "blocks_out os (b # bs) = blocks_out (block_out os b) bs"
  by (simp_all add: blocks_out_def)

lemma clens_out_simps [simp]: "clens_out ls [] = ls" "clens_out ls (e # es) = clens_out (clen_out ls e) es"
  by (simp_all add: clens_out_def)

lemma clens_bits_simps [simp]: "clens_bits cs [] = []" "clens_bits cs (e # es) = clen_bits cs e @ clens_bits cs es"
  by (simp_all add: clens_bits_def)

lemma block_out_grows: "length os \<le> length (block_out os b)"
  by (cases b) (simp_all add: tokens_out_grows)

lemma blocks_out_grows: "length os \<le> length (blocks_out os bs)"
  by (induction bs arbitrary: os) (auto intro: le_trans [OF block_out_grows])

lemma block_out_bytes: "list_all (\<lambda>b. b < 256) os \<Longrightarrow> block_ok os b \<Longrightarrow> list_all (\<lambda>b. b < 256) (block_out os b)"
  by (cases b) (auto intro: tokens_out_bytes)

lemma blocks_out_bytes: "list_all (\<lambda>b. b < 256) os \<Longrightarrow> blocks_ok os bs \<Longrightarrow> list_all (\<lambda>b. b < 256) (blocks_out os bs)"
  by (induction bs arbitrary: os) (simp_all add: block_out_bytes)

lemma clens_out_grows: "length ls \<le> length (clens_out ls es)"
proof (induction es arbitrary: ls)
  case (Cons e es)
  have "length ls \<le> length (clen_out ls e)" by (cases e) simp_all
  then show ?case using Cons [of "clen_out ls e"] by simp
qed simp

lemma clens_out_small: "list_all (\<lambda>l. l < 16) ls \<Longrightarrow> clens_ok cs ls es \<Longrightarrow> list_all (\<lambda>l. l < 16) (clens_out ls es)"
proof (induction es arbitrary: ls)
  case (Cons e es)
  have "last ls < 16" if "ls \<noteq> []" using Cons.prems(1) that by (simp add: list_all_iff)
  then have "list_all (\<lambda>l. l < 16) (clen_out ls e)" using Cons.prems by (cases e) (simp_all add: list_all_iff)
  then show ?case using Cons by simp
qed simp

lemma bits_parts:
  "list_all (\<lambda>b. b < 2) (replicate k (0::nat))" "list_all (\<lambda>b. b < 2) (bit_list bs)" "list_all (\<lambda>b. b < 2) (clens_bits cs es)"
  "list_all (\<lambda>b. b < 2) (concat (map (\<lambda>k. lsb n (f k)) xs))"
proof -
  show "list_all (\<lambda>b. b < 2) (replicate k (0::nat))" by (simp add: list_all_iff)
  show "list_all (\<lambda>b. b < 2) (bit_list bs)" by (induction bs) (use lsb_bits [of 8] in simp_all)
  have "list_all (\<lambda>b. b < 2) (clen_bits cs e)" for e by (cases e) (simp_all add: lsb_bits)
  then show "list_all (\<lambda>b. b < 2) (clens_bits cs es)" by (induction es) simp_all
  show "list_all (\<lambda>b. b < 2) (concat (map (\<lambda>k. lsb n (f k)) xs))" by (induction xs) (simp_all add: lsb_bits)
qed

lemma block_bits_bits: "l < 2 \<Longrightarrow> list_all (\<lambda>b. b < 2) (block_bits q l b)"
  by (cases b) (simp_all add: bits_parts tokens_bits_bits lsb_bits del: bit_list_simps)

lemma blocks_bits_bits: "list_all (\<lambda>b. b < 2) (blocks_bits q bs)"
  by (induction q bs rule: blocks_bits.induct) (simp_all add: block_bits_bits)

section \<open>The zlib format\<close>

text \<open>Two bytes of header, the blocks, and the Adler-32 checksum, highest byte first (RFC 1950).\<close>

definition zlib_stream :: "nat \<Rightarrow> nat \<Rightarrow> block list \<Rightarrow> nat list \<Rightarrow> nat list" where
  "zlib_stream cmf flg bs sum4 = [cmf, flg] @ pack_bits (blocks_bits 16 bs) @ sum4"

definition header_ok :: "nat \<Rightarrow> nat \<Rightarrow> bool" where
  "header_ok cmf flg \<longleftrightarrow> cmf < 128 \<and> cmf mod 16 = 8 \<and> flg < 256 \<and> (cmf * 256 + flg) mod 31 = 0 \<and> even (flg div 32)"

end
