(* ===== verification/Pako_Huffman.thy ===== *)
theory Pako_Huffman
  imports Pako_Bits Pako_Calls Deflate_Code
begin

text \<open>
  One block of Huffman codes in \<open>inflate\<close>: the modes \<open>M_LEN\<close> to \<open>M_LIT\<close>, one symbol, extra bits, distance and copy
  at a time, and the fast loop over many tokens.  Both decode the tokens of the reference.
\<close>

section \<open>The tables of the program\<close>

lemma length_tables: "i < 29 \<Longrightarrow> at lbase i = length_base i \<and> at lext i = 16 + length_extra i"
proof -
  have "list_all (\<lambda>i. at lbase i = length_base i \<and> at lext i = 16 + length_extra i) [0..<29]"
    by (simp add: upt_rec at_def lbase_def lext_def length_base_def length_extra_def)
  then show "i < 29 \<Longrightarrow> at lbase i = length_base i \<and> at lext i = 16 + length_extra i" by (simp add: list_all_iff)
qed

lemma dist_tables: "d < 30 \<Longrightarrow> at dbase d = dist_base d \<and> at dext d = 16 + dist_extra d"
proof -
  have "list_all (\<lambda>d. at dbase d = dist_base d \<and> at dext d = 16 + dist_extra d) [0..<30]"
    by (simp add: upt_rec at_def dbase_def dext_def dist_base_def dist_extra_def)
  then show "d < 30 \<Longrightarrow> at dbase d = dist_base d \<and> at dext d = 16 + dist_extra d" by (simp add: list_all_iff)
qed

lemma extra_small: "i < 29 \<Longrightarrow> length_extra i \<le> 5" "d < 30 \<Longrightarrow> dist_extra d \<le> 13"
  by (auto simp: length_extra_def dist_extra_def)

lemma length_base_least: "3 \<le> length_base i"
  by (simp add: length_base_def)

lemma dist_most: "d < 30 \<Longrightarrow> y < 2 ^ dist_extra d \<Longrightarrow> dist_base d + y \<le> 32768"
proof -
  assume d: "d < 30" and y: "y < 2 ^ dist_extra d"
  have "list_all (\<lambda>d. dist_base d + 2 ^ dist_extra d \<le> 32769) [0..<30]"
    by (simp add: upt_rec dist_base_def dist_extra_def)
  then have "dist_base d + 2 ^ dist_extra d \<le> 32769" using d by (simp add: list_all_iff)
  then show ?thesis using y by linarith
qed

text \<open>The operations: 0 a literal, 16 and more a length or distance with its extra bits, 96 the end.\<close>

lemma sym_ops:
  "s < 256 \<Longrightarrow> sym_op 1 s = 0 \<and> sym_val 1 s = s" "sym_op 1 256 = 96"
  "i < 29 \<Longrightarrow> sym_op 1 (257 + i) = 16 + length_extra i \<and> sym_val 1 (257 + i) = length_base i"
  "d < 30 \<Longrightarrow> sym_op 2 d = 16 + dist_extra d \<and> sym_val 2 d = dist_base d"
  using length_tables [of i] dist_tables [of d] by (simp_all add: sym_op_def sym_val_def)

lemma op_bits: "k < 16 \<Longrightarrow> (16 + k) div 16 = (1::nat)" "k < 16 \<Longrightarrow> (16 + k) mod 16 = (k::nat)"
  "k < 16 \<Longrightarrow> has_bit (16 + k) 4" "k < 16 \<Longrightarrow> \<not> has_bit (16 + k) 5" "k < 16 \<Longrightarrow> \<not> has_bit (16 + k) 6"
  "has_bit 96 5" "has_bit 96 6" "\<not> has_bit 96 4" "\<not> has_bit 0 n" "k < 16 \<Longrightarrow> \<not> has_bit k 4" "k < 16 \<Longrightarrow> \<not> has_bit k 6"
proof -
  show "\<not> has_bit 0 n" "has_bit 96 5" "has_bit 96 6" "\<not> has_bit 96 4" by (simp_all add: has_bit_def)
  assume k: "k < 16"
  show d: "(16 + k) div 16 = 1" "(16 + k) mod 16 = k" using k by simp_all
  show "has_bit (16 + k) 4" using d by (simp add: has_bit_def)
  have "(16 + k) div 32 = 0" "(16 + k) div 64 = 0" using k by simp_all
  then show "\<not> has_bit (16 + k) 5" "\<not> has_bit (16 + k) 6" by (simp_all add: has_bit_def)
  show "\<not> has_bit k 4" "\<not> has_bit k 6" using k by (simp_all add: has_bit_def)
qed

section \<open>The state inside a block\<close>

text \<open>What stays as it is inside a call.\<close>

definition config :: "zstream \<Rightarrow> (nat \<times> nat \<times> int \<times> nat \<times> nat) \<times> (bool \<times> nat \<times> nat) \<times> (nat \<times> nat \<times> nat \<times> nat list option) \<times>
    (nat list \<times> nat \<times> nat list \<times> nat) \<times> nat list \<times> nat list \<times> nat list \<times> nat list" where
  "config z = ((zlast z, wrap z, zflags z, zcheck z, room z), (sane z, whave z, dmax z), (wbits z, wsize z, wnext z, window z),
     (lencode z, lenbits z, distcode z, distbits z), lendyn z, distdyn z, work z, lens z)"

lemma config_fields:
  assumes "config z' = config z"
  shows "zlast z' = zlast z" "wrap z' = wrap z" "zflags z' = zflags z" "zcheck z' = zcheck z" "room z' = room z"
    "sane z' = sane z" "whave z' = whave z" "dmax z' = dmax z" "lencode z' = lencode z" "lenbits z' = lenbits z"
    "distcode z' = distcode z" "distbits z' = distbits z" "lendyn z' = lendyn z" "distdyn z' = distdyn z" "work z' = work z" "lens z' = lens z"
    "wbits z' = wbits z" "wsize z' = wsize z" "wnext z' = wnext z" "window z' = window z"
  using assms by (simp_all add: config_def)

text \<open>What stays as it is inside a block, also from one call to the next.\<close>

definition lasting :: "zstream \<Rightarrow> (nat \<times> nat \<times> int) \<times> (nat list \<times> nat \<times> nat list \<times> nat) \<times> nat list \<times> nat list \<times> nat list \<times> nat list" where
  "lasting z = ((zlast z, wrap z, zflags z), (lencode z, lenbits z, distcode z, distbits z), lendyn z, distdyn z, work z, lens z)"

lemma config_lasting: "config z' = config z \<Longrightarrow> lasting z' = lasting z"
  by (simp add: config_def lasting_def)

lemma lasting_fields:
  assumes "lasting z' = lasting z"
  shows "zlast z' = zlast z" "wrap z' = wrap z" "zflags z' = zflags z" "lencode z' = lencode z" "lenbits z' = lenbits z"
    "distcode z' = distcode z" "distbits z' = distbits z" "lendyn z' = lendyn z" "distdyn z' = distdyn z" "work z' = work z" "lens z' = lens z"
  using assms by (simp_all add: lasting_def)

lemma buffer_only_config:
  assumes "buffer_only z z'"
  shows "config z' = config z" "outp z' = outp z" "avail_out z' = avail_out z" "zmode z' = zmode z" "zlength z' = zlength z"
    "offset z' = offset z" "extra z' = extra z" "inp z' = inp z"
  using assms unfolding buffer_only_def by (auto simp: config_def)

text \<open>
  The chunks \<open>ps\<close> that earlier calls put out are in the window, as far as a distance reaches, and in the checksum.  Every
  chunk is larger than the window, so it is written over as a whole at the end of a call.
\<close>

definition held :: "nat list \<Rightarrow> zstream \<Rightarrow> bool" where
  "held ps z \<longleftrightarrow> wrap z = 7 \<and> zflags z = 0 \<and> zcheck z = adler_reference ps \<and> sane z \<and> dmax z = 32768 \<and> wbits z = 15 \<and> wnext z = 0 \<and>
     (if ps = [] then wsize z = 0 \<and> whave z = 0 \<and> window z = None
      else 32768 \<le> length ps \<and> wsize z = 32768 \<and> whave z = 32768 \<and> window z = Some (last_bytes 32768 ps))"

lemma held_config: "config z' = config z \<Longrightarrow> held ps z' = held ps z"
  using config_fields [of z' z] by (simp add: held_def)

text \<open>The state at bit \<open>q\<close> of the stream with the output \<open>os\<close>, the last part of it in the chunk of this call.\<close>

definition decoding :: "nat list \<Rightarrow> nat list list \<Rightarrow> nat \<Rightarrow> nat list \<Rightarrow> zstream \<Rightarrow> bool" where
  "decoding t ch q os z \<longleftrightarrow> synced t z \<and> place z = q \<and> bits z < 8 \<and> concat ch @ outp z = os \<and> all_bytes os \<and> length (outp z) \<le> 65536 \<and>
     avail_out z = 65536 - length (outp z) \<and> room z = 65536 \<and> held (concat ch) z"

definition codes_ready :: "nat list \<Rightarrow> nat list \<Rightarrow> zstream \<Rightarrow> bool" where
  "codes_ready ls ds z \<longleftrightarrow> table_for 1 ls (lenbits z) (lencode z) \<and> (symbols ds \<noteq> [] \<longrightarrow> table_for 2 ds (distbits z) (distcode z))"

lemma codes_ready_lasting: "lasting z' = lasting z \<Longrightarrow> codes_ready ls ds z' = codes_ready ls ds z"
  using lasting_fields(4-7) [of z' z] by (simp add: codes_ready_def)

lemma codes_ready_config: "config z' = config z \<Longrightarrow> codes_ready ls ds z' = codes_ready ls ds z"
  by (rule codes_ready_lasting) (rule config_lasting)

lemma has_bits_begins:
  assumes "all_bytes t" "has_bits t q (code_bits ls s)" "coded ls s"
  shows "begins ls s (ahead t q)"
  using ahead_has_bits [OF assms(1,2)] assms(3) by (simp add: begins_def coded_def)

lemma has_bits_number:
  assumes "all_bytes t" "has_bits t q (lsb n x)" "x < 2 ^ n"
  shows "ahead t q mod 2 ^ n = x"
  using ahead_has_bits [OF assms(1,2) lsb_bits] assms(3) by simp

lemma coded_symbols: "coded ls s \<Longrightarrow> symbols ls \<noteq> []"
  using symbols_mem [of s ls] by (auto simp: coded_def)

section \<open>One pass\<close>

lemma need_synced:
  assumes "synced t z" "bits z < 8" "place z + n \<le> 8 * length t"
  obtains z' where "\<And>k. need n z k = k z'" "same_but_bits z z'" "synced t z'" "place z' = place z" "n \<le> bits z'"
    "low_bits n z' = ahead t (place z) mod 2 ^ n" "synced t (drop_bits n z')" "place (drop_bits n z') = place z + n" "bits (drop_bits n z') < 8"
proof -
  obtain z' where z': "pull n z = (True, z')" "refilled t z z'" "n \<le> bits z'" "bits z' < n + 8 \<or> bits z' = bits z"
    using pull_synced [OF assms(1,3)] by blast
  have r: "same_but_bits z z'" "synced t z'" "place z' = place z" using z'(2) by (simp_all add: refilled_def)
  have "bits z' - n < 8" using z'(4) assms(2) by auto
  then show thesis
    using that [of z'] z'(1,3) r synced_low [OF r(2) z'(3)] drop_bits_synced [OF r(2) z'(3)] by (simp add: need_def)
qed

lemma do_len_slow:
  assumes "\<not> (6 \<le> avail_in z \<and> 258 \<le> avail_out z)"
    and "pull_entry (\<lambda>z. root_entry (lencode z) (lenbits z) z) 0 (z\<lparr>zback := 0\<rparr>) = (Some e0, z1)" "lencode z1 = lencode z"
    and "symbol_entry_of (\<lambda>e. entry_op e \<noteq> 0 \<and> entry_op e div 16 = 0) (lencode z) e0 z1 = (Some e, z2)"
  shows "do_len fuel f z =
    (let z = (drop_bits (entry_bits e) z2)\<lparr>zback := zback z2 + int (entry_bits e), zlength := entry_val e\<rparr>; oper = entry_op e in
     if oper = 0 then Again (z\<lparr>zmode := M_LIT\<rparr>)
     else if has_bit oper 5 then Again (z\<lparr>zback := -1, zmode := M_TYPE\<rparr>)
     else if has_bit oper 6 then Again (bad ''invalid literal/length code'' z)
     else Again (z\<lparr>extra := oper mod 16, zmode := M_LENEXT\<rparr>))"
proof -
  have d: "(if entry_op e0 \<noteq> 0 \<and> entry_op e0 div 16 = 0
       then (case pull_entry (second_entry (lencode z1) e0) (entry_bits e0) z1 of
               (None, z) \<Rightarrow> (None, z)
             | (Some e, z) \<Rightarrow> (Some e, (drop_bits (entry_bits e0) z)\<lparr>zback := zback z + int (entry_bits e0)\<rparr>))
       else (Some e0, z1)) = (Some e, z2)"
    using assms(4) unfolding symbol_entry_of_def assms(3) by simp
  show ?thesis unfolding do_len_def if_not_P [OF assms(1)] assms(2) prod.case option.case d Let_def by (simp add: drop_bits_def)
qed

lemma decodingD:
  assumes "decoding t ch q os z"
  shows "synced t z" "all_bytes t" "place z = q" "bits z < 8" "concat ch @ outp z = os" "length (outp z) \<le> 65536"
    "avail_out z = 65536 - length (outp z)" "room z = 65536" "dmax z = 32768" "all_bytes os" "held (concat ch) z"
  using assms by (simp_all add: decoding_def synced_def held_def)

text \<open>The state is kept by what changes other fields.\<close>

lemma decoding_moved:
  assumes "decoding t ch q os z" "synced t z'" "place z' = q'" "bits z' < 8" "config z' = config z" "outp z' = outp z" "avail_out z' = avail_out z"
  shows "decoding t ch q' os z'"
  using assms config_fields(5) [OF assms(5)] held_config [OF assms(5)] by (simp add: decoding_def)

lemma has_bits_room: "decoding t ch q os z \<Longrightarrow> has_bits t q bs \<Longrightarrow> q + length bs \<le> 8 * length t"
  using has_bits_fits [of t q bs] place_next [of t z] by (auto simp: decoding_def synced_def)

lemma len_symbol:
  assumes d: "decoding t ch q os z" and T: "table_for 1 ls (lenbits z) (lencode z)" and s: "coded ls s" "has_bits t q (code_bits ls s)"
    and slow: "\<not> (6 \<le> avail_in z \<and> 258 \<le> avail_out z)"
  obtains z' where "\<And>fuel f. do_len fuel f z =
      (if sym_op 1 s = 0 then Again (z'\<lparr>zmode := M_LIT\<rparr>)
       else if has_bit (sym_op 1 s) 5 then Again (z'\<lparr>zback := -1, zmode := M_TYPE\<rparr>)
       else if has_bit (sym_op 1 s) 6 then Again (bad ''invalid literal/length code'' z')
       else Again (z'\<lparr>extra := sym_op 1 s mod 16, zmode := M_LENEXT\<rparr>))"
    "decoding t ch (q + ls ! s) os z'" "config z' = config z" "zlength z' = sym_val 1 s"
proof -
  note D = decodingD [OF d]
  let ?C = "\<lambda>e. entry_op e \<noteq> 0 \<and> entry_op e div 16 = 0" and ?z = "z\<lparr>zback := 0\<rparr>"
  let ?look = "\<lambda>z. root_entry (lencode z) (lenbits z) z"
  have z: "synced t ?z" "bits ?z < 8" "place ?z = q" using D(1,3,4) synced_fields [of ?z z] by simp_all
  have b: "begins ls s (ahead t (place ?z))" using has_bits_begins [OF D(2) s(2,1)] z(3) by simp
  have r: "place ?z + ls ! s \<le> 8 * length t" using has_bits_room [OF d s(2)] z(3) by simp
  have look: "\<forall>u. same_but_bits ?z u \<longrightarrow> ?look u = at (lencode z) (hold u mod 2 ^ lenbits z)"
  proof (intro allI impI)
    fix u assume "same_but_bits ?z u"
    from same_but_bits_tables [OF this] show "?look u = at (lencode z) (hold u mod 2 ^ lenbits z)"
      by (simp add: root_entry_def low_bits_def)
  qed
  note sb = begins_symbol(1) [OF T b] begins_symbol(2) [OF b]
  have s65: "s < 65536" by (rule sb(1))
  have s288: "s < 288" using sb table_forD(7) [OF T] by simp
  have no: "sym_op 1 s = 0 \<or> 16 \<le> sym_op 1 s" using sym_op_no_link [of s 1] s288 by auto
  have C1: "\<not> ?C (sym_entry 1 (ls ! s) s)" using no by (auto simp: sym_entry_bits(2) [OF s65])
  have C2: "\<forall>k c. 1 \<le> k \<and> k \<le> 15 \<and> c < 65536 \<longrightarrow> ?C (entry (lenbits z) k c)" by (simp add: entry_fields)
  obtain e0 z1 m z2 where o: "pull_entry ?look 0 ?z = (Some e0, z1)" "same_but_bits ?z z1"
    "symbol_entry_of ?C (lencode z) e0 z1 = (Some (sym_entry 1 m s), z2)" "m \<le> bits z2" "buffer_only ?z z2"
    "synced t (drop_bits m z2)" "place (drop_bits m z2) = place ?z + ls ! s" "bits (drop_bits m z2) < 8"
    by (rule symbol_read [OF z(1,2) T b r look C1 C2])
  have lc: "lencode z1 = lencode z" using same_but_bits_tables(1) [OF o(2)] by simp
  note en = sym_entry_bits [OF s65, of 1 m]
  let ?z' = "(drop_bits m z2)\<lparr>zback := zback z2 + int m, zlength := sym_val 1 s\<rparr>"
  have st: "synced t ?z'" "place ?z' = q + ls ! s" "bits ?z' < 8"
    using o(6-8) z(3) synced_fields [of ?z' "drop_bits m z2"] by simp_all
  note bf = buffer_only_config [OF buffer_only_trans [OF buffer_only_trans [OF buffer_only_back o(5)] buffer_only_drop]]
  have cf: "config ?z' = config z" "outp ?z' = outp z" "avail_out ?z' = avail_out z"
    using bf(1-3) by (simp_all add: config_def)
  show thesis
  proof (rule that)
    show "decoding t ch (q + ls ! s) os ?z'" by (rule decoding_moved [OF d st cf])
    show "config ?z' = config z" by (rule cf(1))
    show "zlength ?z' = sym_val 1 s" by simp
    show "do_len fuel f z =
      (if sym_op 1 s = 0 then Again (?z'\<lparr>zmode := M_LIT\<rparr>)
       else if has_bit (sym_op 1 s) 5 then Again (?z'\<lparr>zback := -1, zmode := M_TYPE\<rparr>)
       else if has_bit (sym_op 1 s) 6 then Again (bad ''invalid literal/length code'' ?z')
       else Again (?z'\<lparr>extra := sym_op 1 s mod 16, zmode := M_LENEXT\<rparr>))" for fuel f
      unfolding do_len_slow [OF slow o(1) lc o(3)] en Let_def ..
  qed
qed

lemma dist_symbol:
  assumes d: "decoding t ch q os z" and T: "table_for 2 ds (distbits z) (distcode z)" and s: "coded ds s" "has_bits t q (code_bits ds s)" "s < 30"
  obtains z' where "do_dist z = Again (z'\<lparr>offset := dist_base s, extra := dist_extra s, zmode := M_DISTEXT\<rparr>)"
    "decoding t ch (q + ds ! s) os z'" "config z' = config z" "zlength z' = zlength z"
proof -
  note D = decodingD [OF d]
  let ?C = "\<lambda>e. entry_op e div 16 = 0" and ?look = "\<lambda>z. root_entry (distcode z) (distbits z) z"
  have b: "begins ds s (ahead t (place z))" using has_bits_begins [OF D(2) s(2,1)] D(3) by simp
  have r: "place z + ds ! s \<le> 8 * length t" using has_bits_room [OF d s(2)] D(3) by simp
  have look: "\<forall>u. same_but_bits z u \<longrightarrow> ?look u = at (distcode z) (hold u mod 2 ^ distbits z)"
  proof (intro allI impI)
    fix u assume "same_but_bits z u"
    from same_but_bits_tables [OF this] show "?look u = at (distcode z) (hold u mod 2 ^ distbits z)"
      by (simp add: root_entry_def low_bits_def)
  qed
  have s65: "s < 65536" using s(3) by simp
  have x: "dist_extra s < 16" using extra_small(2) [OF s(3)] by simp
  note so = sym_ops(4) [OF s(3)] and ob = op_bits(1-5) [OF x]
  have C1: "\<not> ?C (sym_entry 2 (ds ! s) s)" using so ob by (simp add: sym_entry_bits(2) [OF s65])
  have C2: "\<forall>k c. 1 \<le> k \<and> k \<le> 15 \<and> c < 65536 \<longrightarrow> ?C (entry (distbits z) k c)" by (simp add: entry_fields)
  obtain e0 z1 m z2 where o: "pull_entry ?look 0 z = (Some e0, z1)" "same_but_bits z z1"
    "symbol_entry_of ?C (distcode z) e0 z1 = (Some (sym_entry 2 m s), z2)" "m \<le> bits z2" "buffer_only z z2"
    "synced t (drop_bits m z2)" "place (drop_bits m z2) = place z + ds ! s" "bits (drop_bits m z2) < 8"
    by (rule symbol_read [OF D(1,4) T b r look C1 C2])
  have dc: "distcode z1 = distcode z" using same_but_bits_tables(3) [OF o(2)] .
  note en = sym_entry_bits [OF s65, of 2 m]
  let ?z' = "(drop_bits m z2)\<lparr>zback := zback z2 + int m\<rparr>"
  have st: "synced t ?z'" "place ?z' = q + ds ! s" "bits ?z' < 8"
    using o(6-8) D(3) synced_fields [of ?z' "drop_bits m z2"] by simp_all
  note bf = buffer_only_config [OF buffer_only_trans [OF buffer_only_trans [OF o(5) buffer_only_drop] buffer_only_back]]
  have e: "(if entry_op e0 div 16 = 0
       then (case pull_entry (second_entry (distcode z1) e0) (entry_bits e0) z1 of
               (None, z) \<Rightarrow> (None, z)
             | (Some e, z) \<Rightarrow> (Some e, (drop_bits (entry_bits e0) z)\<lparr>zback := zback z + int (entry_bits e0)\<rparr>))
       else (Some e0, z1)) = (Some (sym_entry 2 m s), z2)"
    using o(3) unfolding symbol_entry_of_def dc by simp
  show thesis
  proof (rule that)
    show "decoding t ch (q + ds ! s) os ?z'" by (rule decoding_moved [OF d st bf(1-3)])
    show "config ?z' = config z" "zlength ?z' = zlength z" by (rule bf)+
    show "do_dist z = Again (?z'\<lparr>offset := dist_base s, extra := dist_extra s, zmode := M_DISTEXT\<rparr>)"
      unfolding do_dist_def o(1) prod.case option.case e en using so ob by (simp add: Let_def drop_bits_def)
  qed
qed

lemma length_bits:
  assumes d: "decoding t ch q os z" and x: "has_bits t q (lsb (extra z) x)" "x < 2 ^ extra z"
  obtains z' where "do_lenext z = Again z'" "decoding t ch (q + extra z) os z'" "config z' = config z" "zlength z' = zlength z + x" "zmode z' = M_DIST"
proof (cases "extra z = 0")
  case True
  let ?z' = "z\<lparr>was := zlength z, zmode := M_DIST\<rparr>"
  have "decoding t ch q os ?z'"
    by (rule decoding_moved [OF d]) (use decodingD [OF d] synced_fields [of ?z' z] in \<open>simp_all add: config_def\<close>)
  then show thesis using that [of ?z'] True x(2) by (simp add: do_lenext_def config_def)
next
  case False
  note D = decodingD [OF d]
  have "place z + extra z \<le> 8 * length t" using has_bits_room [OF d x(1)] D(3) by simp
  then obtain z1 where z1: "\<And>k. need (extra z) z k = k z1" "same_but_bits z z1" "low_bits (extra z) z1 = ahead t (place z) mod 2 ^ extra z"
    "synced t (drop_bits (extra z) z1)" "place (drop_bits (extra z) z1) = place z + extra z" "bits (drop_bits (extra z) z1) < 8"
    by (rule need_synced [OF D(1,4)]) blast
  have v: "low_bits (extra z) z1 = x" using has_bits_number [OF D(2) x] z1(3) D(3) by simp
  have ex: "extra z1 = extra z" "zlength z1 = zlength z" using z1(2) unfolding same_but_bits_def by auto
  let ?u = "(drop_bits (extra z) z1)\<lparr>zlength := zlength z + x, zback := zback z1 + int (extra z)\<rparr>"
  let ?z' = "?u\<lparr>was := zlength z + x, zmode := M_DIST\<rparr>"
  note bf = buffer_only_config [OF buffer_only_trans [OF buffer_only_same [OF z1(2)] buffer_only_drop], of "extra z"]
  have cf: "config ?z' = config z" "outp ?z' = outp z" "avail_out ?z' = avail_out z"
    using bf(1-3) by (simp_all add: config_def)
  have "decoding t ch (q + extra z) os ?z'"
    by (rule decoding_moved [OF d _ _ _ cf]) (use z1(4-6) D(3) synced_fields [of ?z' "drop_bits (extra z) z1"] in simp_all)
  moreover have "do_lenext z = Again ?z'" using False by (simp add: do_lenext_def z1(1) ex v Let_def)
  ultimately show thesis using that cf(1) by simp
qed

lemma dist_bits:
  assumes d: "decoding t ch q os z" and y: "has_bits t q (lsb (extra z) y)" "y < 2 ^ extra z" "offset z + y \<le> 32768"
  obtains z' where "do_distext z = Again z'" "decoding t ch (q + extra z) os z'" "config z' = config z" "zlength z' = zlength z"
    "offset z' = offset z + y" "zmode z' = M_MATCH"
proof (cases "extra z = 0")
  case True
  let ?z' = "z\<lparr>zmode := M_MATCH\<rparr>"
  have "decoding t ch q os ?z'"
    by (rule decoding_moved [OF d]) (use decodingD [OF d] synced_fields [of ?z' z] in \<open>simp_all add: config_def\<close>)
  then show thesis using that [of ?z'] True y(2,3) decodingD(9) [OF d] by (simp add: do_distext_def config_def)
next
  case False
  note D = decodingD [OF d]
  have "place z + extra z \<le> 8 * length t" using has_bits_room [OF d y(1)] D(3) by simp
  then obtain z1 where z1: "\<And>k. need (extra z) z k = k z1" "same_but_bits z z1" "low_bits (extra z) z1 = ahead t (place z) mod 2 ^ extra z"
    "synced t (drop_bits (extra z) z1)" "place (drop_bits (extra z) z1) = place z + extra z" "bits (drop_bits (extra z) z1) < 8"
    by (rule need_synced [OF D(1,4)]) blast
  have v: "low_bits (extra z) z1 = y" using has_bits_number [OF D(2) y(1,2)] z1(3) D(3) by simp
  have ex: "extra z1 = extra z" "offset z1 = offset z" "zlength z1 = zlength z" "dmax z1 = 32768"
    using z1(2) D(9) unfolding same_but_bits_def by auto
  let ?u = "(drop_bits (extra z) z1)\<lparr>offset := offset z + y, zback := zback z1 + int (extra z)\<rparr>"
  let ?z' = "?u\<lparr>zmode := M_MATCH\<rparr>"
  note bf = buffer_only_config [OF buffer_only_trans [OF buffer_only_same [OF z1(2)] buffer_only_drop], of "extra z"]
  have cf: "config ?z' = config z" "outp ?z' = outp z" "avail_out ?z' = avail_out z" "zlength ?z' = zlength z"
    using bf(1-3,5) by (simp_all add: config_def)
  have "decoding t ch (q + extra z) os ?z'"
    by (rule decoding_moved [OF d _ _ _ cf(1-3)]) (use z1(4-6) D(3) synced_fields [of ?z' "drop_bits (extra z) z1"] in simp_all)
  moreover have "do_distext z = Again ?z'" using False y(3) by (simp add: do_distext_def z1(1) ex v Let_def drop_bits_def)
  ultimately show thesis using that cf(1,4) by simp
qed

section \<open>Output\<close>

lemma copy_out_back: "0 < v \<Longrightarrow> v \<le> length os \<Longrightarrow> copy_out k (length os - v) os = copy_back k v os"
proof (induction k arbitrary: os)
  case (Suc k)
  have "length os - v < length os" using Suc.prems by linarith
  then have "at os (length os - v) = os ! (length os - v)" by (simp add: at_def)
  then show ?case using Suc.IH [of "os @ [os ! (length os - v)]"] Suc.prems by (simp add: Suc_diff_le)
qed simp

lemma copy_back_append: "0 < v \<Longrightarrow> v \<le> length os \<Longrightarrow> copy_back k v (ps @ os) = ps @ copy_back k v os"
proof (induction k arbitrary: os)
  case (Suc k)
  have "length (ps @ os) - v = length ps + (length os - v)" using Suc.prems by simp
  then have "(ps @ os) ! (length (ps @ os) - v) = os ! (length os - v)" by (simp only: nth_append_length_plus)
  then show ?case using Suc.IH [of "os @ [os ! (length os - v)]"] Suc.prems by simp
qed simp

lemma copy_back_add: "copy_back (c + k) v os = copy_back k v (copy_back c v os)"
  by (induction c arbitrary: os) simp_all

lemma copy_back_take: "c \<le> v \<Longrightarrow> v \<le> length os \<Longrightarrow> copy_back c v os = os @ take c (drop (length os - v) os)"
proof (induction c)
  case (Suc c)
  have "copy_back (Suc c) v os = copy_back 1 v (copy_back c v os)" using copy_back_add [of c 1 v os] by simp
  also have "\<dots> = (os @ take c (drop (length os - v) os)) @ [os ! (length os - v + c)]"
    using Suc by (simp add: nth_append)
  finally show ?case using Suc.prems by (simp add: take_Suc_conv_app_nth)
qed simp

lemma copy_back_split: "\<exists>bs. copy_back k v os = os @ bs \<and> length bs = k"
proof (induction k arbitrary: os)
  case (Suc k)
  obtain bs where "copy_back k v (os @ [os ! (length os - v)]) = (os @ [os ! (length os - v)]) @ bs" "length bs = k" using Suc by blast
  then show ?case by simp
qed simp

text \<open>Bytes that go out and fit the chunk.\<close>

lemma decoding_out:
  assumes d: "decoding t ch q os z" and f: "synced t z'" "place z' = q'" "bits z' < 8" "config z' = config z"
    and o: "outp z' = outp z @ bs" "avail_out z' = avail_out z - length bs" "length bs \<le> avail_out z" "all_bytes (os @ bs)"
  shows "decoding t ch q' (os @ bs) z'"
proof -
  note D = decodingD [OF d]
  show ?thesis
    unfolding decoding_def
  proof (intro conjI)
    show "concat ch @ outp z' = os @ bs" using D(5) by (simp add: o(1))
    show "length (outp z') \<le> 65536" "avail_out z' = 65536 - length (outp z')" using D(6,7) o by simp_all
    show "room z' = 65536" "held (concat ch) z'" using D(8,11) config_fields(5) [OF f(4)] held_config [OF f(4)] by simp_all
  qed (use f o in simp_all)
qed

text \<open>Bytes that an earlier call put out, in the window.\<close>

lemma copy_window_back:
  assumes os: "concat ch @ outp z = os" and h: "held (concat ch) z" and v: "length (outp z) < v" "v \<le> length os" "v \<le> 32768" and c: "c \<le> v - length (outp z)"
  shows "concat ch @ copy_window c (32768 - (v - length (outp z))) (window_bytes z) (outp z) = copy_back c v os" "concat ch \<noteq> []"
proof -
  let ?ps = "concat ch" and ?p = "v - length (outp z)"
  have l: "length os = length ?ps + length (outp z)" using os by (metis length_append)
  have "0 < length ?ps" using v l by linarith
  then show n: "?ps \<noteq> []" by blast
  then have w: "window_bytes z = last_bytes 32768 ?ps" "32768 \<le> length ?ps" using h by (simp_all add: held_def window_bytes_def)
  have "map (\<lambda>k. at (window_bytes z) (32768 - ?p + k)) [0..<c] = take c (drop (length os - v) os)"
  proof (rule nth_equalityI)
    show "length (map (\<lambda>k. at (window_bytes z) (32768 - ?p + k)) [0..<c]) = length (take c (drop (length os - v) os))"
      using c v by simp
    fix i assume "i < length (map (\<lambda>k. at (window_bytes z) (32768 - ?p + k)) [0..<c])"
    then have i: "i < c" by simp
    have e: "length ?ps - 32768 + (32768 - ?p + i) = length os - v + i" "length os - v + i < length ?ps"
      using w(2) v c i l by linarith+
    have x: "32768 - ?p + i < length (last_bytes 32768 ?ps)" using w(2) v c i by (simp add: last_bytes_def)
    have "at (window_bytes z) (32768 - ?p + i) = last_bytes 32768 ?ps ! (32768 - ?p + i)" using x by (simp add: w(1) at_def)
    also have "\<dots> = ?ps ! (length ?ps - 32768 + (32768 - ?p + i))" using w(2) by (simp add: last_bytes_def)
    also have "\<dots> = os ! (length os - v + i)" unfolding e(1) using e(2) os by (metis nth_append)
    finally show "map (\<lambda>k. at (window_bytes z) (32768 - ?p + k)) [0..<c] ! i = take c (drop (length os - v) os) ! i"
      using i c v by simp
  qed
  then show "?ps @ copy_window c (32768 - ?p) (window_bytes z) (outp z) = copy_back c v os"
    using copy_back_take [of c v os] c v os by (simp add: copy_window_def flip: append_assoc)
qed

lemma copy_out_chunk:
  assumes os: "concat ch @ outp z = os" and v: "0 < v" "v \<le> length (outp z)"
  shows "concat ch @ copy_out c (length (outp z) - v) (outp z) = copy_back c v os"
  using copy_out_back [OF v] copy_back_append [OF v, of c "concat ch"] os by simp

text \<open>One pass of a copy that has room: it moves at least one byte.\<close>

lemma match_out:
  assumes d: "decoding t ch q os z" and v: "0 < offset z" "offset z \<le> length os" "offset z \<le> 32768" and k: "0 < zlength z" and r: "avail_out z \<noteq> 0"
  obtains c z' where "0 < c" "c \<le> zlength z" "do_match (room z) z = Again z'" "decoding t ch q (copy_back c (offset z) os) z'"
    "config z' = config z" "zlength z' = zlength z - c" "offset z' = offset z" "zmode z' = (if c = zlength z then M_LEN else zmode z)"
proof -
  note D = decodingD [OF d]
  let ?v = "offset z" and ?n = "length (outp z)"
  have c0: "room z - avail_out z = ?n" using D(6-8) by simp
  define c where "c = min (if ?n < ?v then min (?v - ?n) (zlength z) else zlength z) (avail_out z)"
  define xs where "xs = (if ?n < ?v then copy_window c (32768 - (?v - ?n)) (window_bytes z) (outp z) else copy_out c (?n - ?v) (outp z))"
  define z' where "z' = z\<lparr>outp := xs, avail_out := avail_out z - c, zlength := zlength z - c, zmode := (if zlength z - c = 0 then M_LEN else zmode z)\<rparr>"
  have c: "0 < c" "c \<le> zlength z" "c \<le> avail_out z" using k r by (auto simp: c_def)
  have cb: "concat ch @ xs = copy_back c ?v os"
  proof (cases "?n < ?v")
    case True
    then have "c \<le> ?v - ?n" by (simp add: c_def)
    from copy_window_back(1) [OF D(5,11) True v(2,3) this] show ?thesis using True by (simp add: xs_def)
  next
    case False
    then show ?thesis using copy_out_chunk [OF D(5) v(1)] by (simp add: xs_def)
  qed
  have step: "do_match (room z) z = Again z'"
  proof (cases "?n < ?v")
    case True
    have "concat ch \<noteq> []" by (rule copy_window_back(2) [OF D(5,11) True v(2,3), of 0]) simp
    then have h: "whave z = 32768" "wsize z = 32768" "wnext z = 0" using D(11) by (simp_all add: held_def)
    have cm: "min (min (?v - ?n) (zlength z)) (avail_out z) = c" "c \<noteq> 0" using True c(1) by (simp_all add: c_def)
    have "?v - ?n \<le> 32768" using v(3) by linarith
    then have far: "\<not> (?n < ?v \<and> whave z < ?v - ?n \<and> sane z)" and wn: "wnext z < ?v - ?n" using True h by simp_all
    show ?thesis
      unfolding do_match_def Let_def c0 if_not_P [OF r] if_not_P [OF far] if_P [OF True] if_P [OF wn] prod.case
      using cm by (simp add: h z'_def xs_def True)
  next
    case False
    have cm: "min (zlength z) (avail_out z) = c" "c \<noteq> 0" using False c(1) by (simp_all add: c_def)
    have far: "\<not> (?n < ?v \<and> whave z < ?v - ?n \<and> sane z)" using False by simp
    show ?thesis
      unfolding do_match_def Let_def c0 if_not_P [OF r] if_not_P [OF far] if_not_P [OF False] prod.case
      using cm by (simp add: next_out_def z'_def xs_def False)
  qed
  obtain bs where bs: "copy_back c ?v os = os @ bs" "length bs = c" using copy_back_split by blast
  have x: "xs = outp z @ bs" using cb bs(1) D(5) by auto
  have ab: "all_bytes (os @ bs)"
    using copy_back_bytes [of os ?v c] D(10) v bs(1) by (simp add: all_bytes_def)
  have "decoding t ch q (os @ bs) z'"
    by (rule decoding_out [OF d _ _ _ _ _ _ _ ab])
      (use D(1,3,4) synced_fields [of z' z] c(3) bs(2) in \<open>simp_all add: z'_def x config_def\<close>)
  then show thesis
    using that [OF c(1,2) step] bs(1) c(2) by (simp add: z'_def config_def)
qed

lemma literal_out:
  assumes d: "decoding t ch q os z" and b: "zlength z < 256" and r: "avail_out z \<noteq> 0"
  obtains z' where "do_lit z = Again z'" "decoding t ch q (os @ [zlength z]) z'" "config z' = config z" "zmode z' = M_LEN"
proof -
  note D = decodingD [OF d]
  let ?z' = "z\<lparr>outp := outp z @ [zlength z], avail_out := avail_out z - 1, zmode := M_LEN\<rparr>"
  have "decoding t ch q (os @ [zlength z]) ?z'"
    by (rule decoding_out [OF d])
      (use D(1,3,4,10) synced_fields [of ?z' z] r b in \<open>simp_all add: config_def all_bytes_def\<close>)
  moreover have "do_lit z = Again ?z'" using b r by (simp add: do_lit_def)
  ultimately show thesis using that [of ?z'] by (simp add: config_def)
qed

section \<open>The next chunk\<close>

lemma updatewindow_chunk:
  assumes h: "held ps z" and e: "length e = 65536"
  shows "updatewindow e 65536 z = z\<lparr>wsize := 32768, wnext := 0, whave := 32768, window := Some (last_bytes 32768 e)\<rparr>"
proof -
  have l: "last_bytes 32768 e = drop 32768 e" "length (drop 32768 e) = 32768" using e by (simp_all add: last_bytes_def)
  show ?thesis
  proof (cases "ps = []")
    case True
    then have "wbits z = 15" "window z = None" using h by (simp_all add: held_def)
    then show ?thesis using e by (simp add: updatewindow_def Let_def set_at_def l)
  next
    case False
    then have "wsize z = 32768" "window z = Some (last_bytes 32768 ps)" "length (last_bytes 32768 ps) = 32768"
      using h by (simp_all add: held_def last_bytes_def)
    then show ?thesis using e by (simp add: updatewindow_def Let_def set_at_def l)
  qed
qed

lemma next_chunk_decoding:
  assumes d: "decoding t ch q os z" and r: "avail_out z = 0" and m: "mode_number (zmode z) < 16206" and n: "next_chunk z z'"
  shows "decoding t (ch @ [outp z]) q os z'" "lasting z' = lasting z" "zmode z' = zmode z" "zlength z' = zlength z" "offset z' = offset z"
    "avail_out z' = 65536"
proof -
  note D = decodingD [OF d]
  let ?ps = "concat ch"
  have l: "length (outp z) = 65536" using D(6,7) r by simp
  obtain i0 where i0: "z' = (snd (finish 0 i0 0 z))\<lparr>outp := [], avail_out := 65536, room := 65536\<rparr>" using n by (auto simp: next_chunk_def)
  define z1 where "z1 = z\<lparr>wsize := 32768, wnext := 0, whave := 32768, window := Some (last_bytes 32768 (outp z))\<rparr>"
  have f: "wrap z = 7" "zflags z = 0" "zcheck z = adler_reference ?ps" using D(11) by (simp_all add: held_def)
  have bit: "has_bit 7 2" by (simp add: has_bit_def)
  have ab: "list_all (\<lambda>b. b < 256) (outp z)" using D(5,10) by (auto simp: all_bytes_def)
  have w: "updatewindow (outp z) 65536 z = z1" unfolding z1_def by (rule updatewindow_chunk [OF D(11) l])
  have "last_bytes 65536 (outp z) = outp z" by (simp add: last_bytes_def l)
  then have "z' = z1\<lparr>total_in := total_in z + (i0 - avail_in z1), total_out := total_out z + 65536, total := total z + 65536,
      zcheck := adler_reference (?ps @ outp z), stream_adler := adler_reference (?ps @ outp z), outp := [], avail_out := 65536, room := 65536\<rparr>"
    unfolding i0 using m r D(8) w adler32_append [OF ab, of ?ps] f bit
    by (simp add: finish_def Let_def update_check_def) (simp add: z1_def)
  then obtain a b c e where z': "z' = z1\<lparr>total_in := a, total_out := b, total := c, zcheck := adler_reference (?ps @ outp z), stream_adler := e,
      outp := [], avail_out := 65536, room := 65536\<rparr>" by blast
  have o: "?ps @ outp z \<noteq> []" "32768 \<le> length (?ps @ outp z)" using l by auto
  have lb: "last_bytes 32768 (?ps @ outp z) = last_bytes 32768 (outp z)" using l by (simp add: last_bytes_def)
  have "held (?ps @ outp z) z'" using D(11) o by (simp add: held_def z' z1_def lb)
  moreover have "synced t z'" "place z' = place z" using D(1) synced_fields [of z' z] by (simp_all add: z' z1_def)
  ultimately show "decoding t (ch @ [outp z]) q os z'"
    using D by (simp add: decoding_def z' z1_def)
  show "lasting z' = lasting z" "zmode z' = zmode z" "zlength z' = zlength z" "offset z' = offset z" "avail_out z' = 65536"
    by (simp_all add: z' z1_def lasting_def)
qed

lemma leads_next_chunk:
  assumes d: "decoding t ch q os z" and r: "avail_out z = 0" and m: "zmode z \<in> {M_LIT, M_MATCH, M_COPY}" and l: "\<And>n. step n 0 z = Leave 0 z"
    and P: "\<And>z'. decoding t (ch @ [outp z]) q os z' \<Longrightarrow> lasting z' = lasting z \<Longrightarrow> zmode z' = zmode z \<Longrightarrow> zlength z' = zlength z \<Longrightarrow>
      offset z' = offset z \<Longrightarrow> avail_out z' = 65536 \<Longrightarrow> leads (ch @ [outp z]) z' P"
  shows "leads ch z P"
proof -
  have o: "outp z \<noteq> []" "room z \<noteq> 0" "zmode z \<noteq> M_TYPE" "mode_number (zmode z) < 16206"
    using decodingD(6-8) [OF d] r m by (auto simp: mode_number_def)
  have "leads ch z (\<lambda>ch' z'. leads ch' z' P)"
    by (rule leads_chunk [OF l r o(1-3)]) (use next_chunk_decoding [OF d r o(4)] P in blast)
  then show ?thesis by (rule leads_trans)
qed

section \<open>The modes of a block\<close>

lemma code_modes:
  "zmode z = M_LEN \<Longrightarrow> step n 0 z = do_len n (room z) z"
  "zmode z = M_LENEXT \<Longrightarrow> step n 0 z = do_lenext z"
  "zmode z = M_DIST \<Longrightarrow> step n 0 z = do_dist z"
  "zmode z = M_DISTEXT \<Longrightarrow> step n 0 z = do_distext z"
  "zmode z = M_MATCH \<Longrightarrow> step n 0 z = do_match (room z) z"
  "zmode z = M_LIT \<Longrightarrow> step n 0 z = do_lit z"
  "zmode z = M_LEN_START \<Longrightarrow> step n 0 z = Again (z\<lparr>zmode := M_LEN\<rparr>)"
  by (simp_all add: step_def)

text \<open>A literal and a copy go out, the copy perhaps over several calls.\<close>

lemma literal_leads:
  assumes d: "decoding t ch q os z" and m: "zmode z = M_LIT" and b: "zlength z < 256"
  shows "leads ch z (\<lambda>ch' z'. decoding t ch' q (os @ [zlength z]) z' \<and> lasting z' = lasting z \<and> zmode z' = M_LEN)"
proof -
  have go: "leads ch' z' (\<lambda>ch' z'. decoding t ch' q (os @ [zlength z]) z' \<and> lasting z' = lasting z \<and> zmode z' = M_LEN)"
    if d': "decoding t ch' q os z'" "lasting z' = lasting z" "zmode z' = M_LIT" "zlength z' = zlength z" "avail_out z' \<noteq> 0" for ch' z'
  proof -
    obtain u where u: "do_lit z' = Again u" "decoding t ch' q (os @ [zlength z']) u" "config u = config z'" "zmode u = M_LEN"
      by (rule literal_out [OF d'(1) _ d'(5)]) (use b d'(4) in simp)
    show ?thesis
      by (rule leads_step [where c = 0 and z' = u]) (use u d' config_lasting [OF u(3)] in \<open>simp_all add: code_modes\<close>)
  qed
  show ?thesis
  proof (cases "avail_out z = 0")
    case True
    show ?thesis
      by (rule leads_next_chunk [OF d True]) (use m True go in \<open>simp_all add: code_modes do_lit_def\<close>)
  next
    case False
    then show ?thesis using go [OF d refl m refl] by simp
  qed
qed

lemma match_leads:
  "decoding t ch q os z \<Longrightarrow> zmode z = M_MATCH \<Longrightarrow> offset z = v \<Longrightarrow> 0 < v \<Longrightarrow> v \<le> length os \<Longrightarrow> v \<le> 32768 \<Longrightarrow> zlength z = k \<Longrightarrow> 0 < k \<Longrightarrow>
   leads ch z (\<lambda>ch' z'. decoding t ch' q (copy_back k v os) z' \<and> lasting z' = lasting z \<and> zmode z' = M_LEN)"
proof (induction k arbitrary: ch os z rule: less_induct)
  case (less k)
  have go: "leads ch' z' (\<lambda>ch' z'. decoding t ch' q (copy_back k v os) z' \<and> lasting z' = lasting z \<and> zmode z' = M_LEN)"
    if d': "decoding t ch' q os z'" "lasting z' = lasting z" "zmode z' = M_MATCH" "zlength z' = k" "offset z' = v" "avail_out z' \<noteq> 0" for ch' z'
  proof -
    obtain c u where u: "0 < c" "c \<le> zlength z'" "do_match (room z') z' = Again u" "decoding t ch' q (copy_back c (offset z') os) u"
      "config u = config z'" "zlength u = zlength z' - c" "offset u = offset z'" "zmode u = (if c = zlength z' then M_LEN else zmode z')"
      by (rule match_out [OF d'(1) _ _ _ _ d'(6)]) (use less.prems d' in simp_all)
    have l: "lasting u = lasting z" using config_lasting [OF u(5)] d'(2) by simp
    have s: "step n 0 z' = Again u" for n using u(3) d'(3) by (simp add: code_modes)
    show ?thesis
    proof (cases "c = k")
      case True
      show ?thesis by (rule leads_step [where c = 0, OF s]) (use u l True d' in simp)
    next
      case False
      have e: "copy_back (k - c) v (copy_back c v os) = copy_back k v os" using copy_back_add [of c "k - c" v os] u(2) d'(4) by simp
      have "leads ch' u (\<lambda>ch' z'. decoding t ch' q (copy_back (k - c) v (copy_back c v os)) z' \<and> lasting z' = lasting u \<and> zmode z' = M_LEN)"
        by (rule less.IH) (use u d' less.prems False in auto)
      then have "leads ch' u (\<lambda>ch' z'. decoding t ch' q (copy_back k v os) z' \<and> lasting z' = lasting z \<and> zmode z' = M_LEN)"
        unfolding e l .
      then show ?thesis by (rule leads_then [where c = 0, OF s])
    qed
  qed
  show ?case
  proof (cases "avail_out z = 0")
    case True
    show ?thesis
      by (rule leads_next_chunk [OF less.prems(1) True]) (use less.prems True go in \<open>simp_all add: code_modes do_match_def\<close>)
  next
    case False
    then show ?thesis using go [OF less.prems(1) refl] less.prems by simp
  qed
qed

section \<open>One token\<close>

lemma decoding_fields:
  "decoding t ch q os (z\<lparr>zmode := m\<rparr>) = decoding t ch q os z" "decoding t ch q os (z\<lparr>zback := k\<rparr>) = decoding t ch q os z"
  "decoding t ch q os (z\<lparr>extra := x\<rparr>) = decoding t ch q os z" "decoding t ch q os (z\<lparr>offset := x\<rparr>) = decoding t ch q os z"
  "config (z\<lparr>zmode := m\<rparr>) = config z" "config (z\<lparr>zback := k\<rparr>) = config z" "config (z\<lparr>extra := x\<rparr>) = config z" "config (z\<lparr>offset := x\<rparr>) = config z"
  by (simp_all add: decoding_def synced_def place_def config_def held_def)

lemma slow_end:
  assumes d: "decoding t ch q os z" and m: "zmode z = M_LEN" and T: "codes_ready ls ds z" and s: "coded ls 256" "has_bits t q (code_bits ls 256)"
    and slow: "\<not> (6 \<le> avail_in z \<and> 258 \<le> avail_out z)"
  obtains z' where "runs 1 z z'" "decoding t ch (q + ls ! 256) os z'" "config z' = config z" "zmode z' = M_TYPE"
proof -
  have T1: "table_for 1 ls (lenbits z) (lencode z)" using T by (simp add: codes_ready_def)
  obtain u where u: "\<And>fuel f. do_len fuel f z =
      (if sym_op 1 256 = 0 then Again (u\<lparr>zmode := M_LIT\<rparr>)
       else if has_bit (sym_op 1 256) 5 then Again (u\<lparr>zback := -1, zmode := M_TYPE\<rparr>)
       else if has_bit (sym_op 1 256) 6 then Again (bad ''invalid literal/length code'' u)
       else Again (u\<lparr>extra := sym_op 1 256 mod 16, zmode := M_LENEXT\<rparr>))"
    "decoding t ch (q + ls ! 256) os u" "config u = config z"
    by (rule len_symbol [OF d T1 s slow]) blast
  have "step n 0 z = Again (u\<lparr>zback := -1, zmode := M_TYPE\<rparr>)" for n
    unfolding code_modes(1) [OF m] u(1) sym_ops(2) using op_bits(6) by simp
  then have "runs 1 z (u\<lparr>zback := -1, zmode := M_TYPE\<rparr>)" using runs_step [OF _ runs_refl] by simp
  then show thesis using that u(2,3) by (simp add: decoding_fields)
qed

lemma slow_literal:
  assumes d: "decoding t ch q os z" and m: "zmode z = M_LEN" and T: "codes_ready ls ds z"
    and s: "b < 256" "coded ls b" "has_bits t q (code_bits ls b)"
    and slow: "\<not> (6 \<le> avail_in z \<and> 258 \<le> avail_out z)"
  shows "leads ch z (\<lambda>ch' z'. decoding t ch' (q + ls ! b) (os @ [b]) z' \<and> lasting z' = lasting z \<and> zmode z' = M_LEN)"
proof -
  have T1: "table_for 1 ls (lenbits z) (lencode z)" using T by (simp add: codes_ready_def)
  obtain u where u: "\<And>fuel f. do_len fuel f z =
      (if sym_op 1 b = 0 then Again (u\<lparr>zmode := M_LIT\<rparr>)
       else if has_bit (sym_op 1 b) 5 then Again (u\<lparr>zback := -1, zmode := M_TYPE\<rparr>)
       else if has_bit (sym_op 1 b) 6 then Again (bad ''invalid literal/length code'' u)
       else Again (u\<lparr>extra := sym_op 1 b mod 16, zmode := M_LENEXT\<rparr>))"
    "decoding t ch (q + ls ! b) os u" "config u = config z" "zlength u = sym_val 1 b"
    by (rule len_symbol [OF d T1 s(2,3) slow]) blast
  note so = sym_ops(1) [OF s(1)]
  let ?u = "u\<lparr>zmode := M_LIT\<rparr>"
  have s0: "step n 0 z = Again ?u" for n unfolding code_modes(1) [OF m] u(1) using so by simp
  have l: "zlength ?u = b" using u(4) so by simp
  have du: "decoding t ch (q + ls ! b) os ?u" using u(2) by (simp add: decoding_fields)
  have e: "lasting ?u = lasting z" using config_lasting [OF u(3)] by (simp add: lasting_def)
  have "leads ch ?u (\<lambda>ch' z'. decoding t ch' (q + ls ! b) (os @ [b]) z' \<and> lasting z' = lasting z \<and> zmode z' = M_LEN)"
    using literal_leads [OF du] s(1) unfolding l e by simp
  then show ?thesis by (rule leads_then [where c = 0, OF s0])
qed

lemma slow_copy:
  assumes d: "decoding t ch q os z" and m: "zmode z = M_LEN" and T: "codes_ready ls ds z"
    and a: "token_ok ls ds os (Copy i x dc y)" "has_bits t q (token_bits ls ds (Copy i x dc y))"
    and slow: "\<not> (6 \<le> avail_in z \<and> 258 \<le> avail_out z)"
  shows "leads ch z (\<lambda>ch' z'. decoding t ch' (q + length (token_bits ls ds (Copy i x dc y))) (token_out os (Copy i x dc y)) z' \<and>
    lasting z' = lasting z \<and> zmode z' = M_LEN)"
proof -
  let ?s = "257 + i" and ?x = "length_extra i" and ?y = "dist_extra dc"
  have ok: "i < 29" "x < 2 ^ ?x" "coded ls ?s" "dc < 30" "y < 2 ^ ?y" "coded ds dc" "dist_base dc + y \<le> length os"
    using a(1) by simp_all
  have T1: "table_for 1 ls (lenbits z) (lencode z)" and T2: "table_for 2 ds (distbits z) (distcode z)"
    using T coded_symbols [OF ok(6)] by (simp_all add: codes_ready_def)
  have h: "has_bits t q (code_bits ls ?s)" "has_bits t (q + ls ! ?s) (lsb ?x x)" "has_bits t (q + ls ! ?s + ?x) (code_bits ds dc)"
    "has_bits t (q + ls ! ?s + ?x + ds ! dc) (lsb ?y y)"
    using a(2) by (simp_all add: has_bits_append add.assoc)
  obtain u1 where u1: "\<And>fuel f. do_len fuel f z =
      (if sym_op 1 ?s = 0 then Again (u1\<lparr>zmode := M_LIT\<rparr>)
       else if has_bit (sym_op 1 ?s) 5 then Again (u1\<lparr>zback := -1, zmode := M_TYPE\<rparr>)
       else if has_bit (sym_op 1 ?s) 6 then Again (bad ''invalid literal/length code'' u1)
       else Again (u1\<lparr>extra := sym_op 1 ?s mod 16, zmode := M_LENEXT\<rparr>))"
    "decoding t ch (q + ls ! ?s) os u1" "config u1 = config z" "zlength u1 = sym_val 1 ?s"
    by (rule len_symbol [OF d T1 ok(3) h(1) slow]) blast
  have x16: "?x < 16" using extra_small(1) [OF ok(1)] by simp
  note so = sym_ops(3) [OF ok(1)] and ob = op_bits(1-5) [OF x16]
  let ?u1 = "u1\<lparr>extra := ?x, zmode := M_LENEXT\<rparr>"
  have s1: "step n 0 z = Again ?u1" for n unfolding code_modes(1) [OF m] u1(1) using so ob by simp
  have d1: "decoding t ch (q + ls ! ?s) os ?u1" "has_bits t (q + ls ! ?s) (lsb (extra ?u1) x)" "x < 2 ^ extra ?u1"
    using u1(2) h(2) ok(2) by (simp_all add: decoding_fields)
  obtain u2 where u2: "do_lenext ?u1 = Again u2" "decoding t ch (q + ls ! ?s + extra ?u1) os u2" "config u2 = config ?u1"
    "zlength u2 = zlength ?u1 + x" "zmode u2 = M_DIST"
    by (rule length_bits [OF d1])
  have s2: "step n 0 ?u1 = Again u2" for n using u2(1) by (simp add: code_modes)
  have c2: "config u2 = config z" using u2(3) u1(3) by (simp add: decoding_fields)
  have T2': "table_for 2 ds (distbits u2) (distcode u2)" using T2 config_fields [OF c2] by simp
  have d2: "decoding t ch (q + ls ! ?s + ?x) os u2" using u2(2) by simp
  obtain u3 where u3: "do_dist u2 = Again (u3\<lparr>offset := dist_base dc, extra := ?y, zmode := M_DISTEXT\<rparr>)"
    "decoding t ch (q + ls ! ?s + ?x + ds ! dc) os u3" "config u3 = config u2" "zlength u3 = zlength u2"
    by (rule dist_symbol [OF d2 T2' ok(6) h(3) ok(4)])
  let ?u3 = "u3\<lparr>offset := dist_base dc, extra := ?y, zmode := M_DISTEXT\<rparr>"
  have s3: "step n 0 u2 = Again ?u3" for n using u3(1) u2(5) by (simp add: code_modes)
  have d3: "decoding t ch (q + ls ! ?s + ?x + ds ! dc) os ?u3" "has_bits t (q + ls ! ?s + ?x + ds ! dc) (lsb (extra ?u3) y)" "y < 2 ^ extra ?u3"
    "offset ?u3 + y \<le> 32768"
    using u3(2) h(4) ok(5) dist_most [OF ok(4,5)] by (simp_all add: decoding_fields)
  obtain u4 where u4: "do_distext ?u3 = Again u4" "decoding t ch (q + ls ! ?s + ?x + ds ! dc + extra ?u3) os u4" "config u4 = config ?u3"
    "zlength u4 = zlength ?u3" "offset u4 = offset ?u3 + y" "zmode u4 = M_MATCH"
    by (rule dist_bits [OF d3])
  have s4: "step n 0 ?u3 = Again u4" for n using u4(1) by (simp add: code_modes)
  have v: "offset u4 = dist_base dc + y" "zlength u4 = length_base i + x"
    using u4(4,5) u3(4) u2(4) u1(4) so by simp_all
  have d4: "decoding t ch (q + ls ! ?s + ?x + ds ! dc + ?y) os u4" using u4(2) by simp
  have e: "lasting u4 = lasting z" using config_lasting [of u4 z] u4(3) u3(3) c2 by (simp add: decoding_fields)
  have "leads ch u4 (\<lambda>ch' z'. decoding t ch' (q + ls ! ?s + ?x + ds ! dc + ?y) (copy_back (length_base i + x) (dist_base dc + y) os) z' \<and>
      lasting z' = lasting z \<and> zmode z' = M_LEN)"
    using match_leads [OF d4 u4(6) v(1) _ ok(7) dist_most [OF ok(4,5)] v(2)] length_base_least [of i] dist_base_pos [of dc] unfolding e by simp
  then have l: "leads ch u4 (\<lambda>ch' z'. decoding t ch' (q + length (token_bits ls ds (Copy i x dc y))) (token_out os (Copy i x dc y)) z' \<and>
      lasting z' = lasting z \<and> zmode z' = M_LEN)"
    by (simp add: add.assoc)
  show ?thesis by (rule leads_after [OF _ l]) (rule runs_step [OF s1 runs_step [OF s2 runs_step [OF s3 runs_step [OF s4 runs_refl]]]])
qed

lemma slow_token:
  assumes "decoding t ch q os z" "zmode z = M_LEN" "codes_ready ls ds z"
    and a: "token_ok ls ds os a" "has_bits t q (token_bits ls ds a)"
    and slow: "\<not> (6 \<le> avail_in z \<and> 258 \<le> avail_out z)"
  shows "leads ch z (\<lambda>ch' z'. decoding t ch' (q + length (token_bits ls ds a)) (token_out os a) z' \<and> lasting z' = lasting z \<and> zmode z' = M_LEN)"
proof (cases a)
  case (Lit b)
  have b: "b < 256" "coded ls b" "has_bits t q (code_bits ls b)" using a by (simp_all add: Lit)
  show ?thesis using slow_literal [OF assms(1-3) b slow] by (simp add: Lit)
next
  case (Copy i x d y)
  show ?thesis unfolding Copy by (rule slow_copy [OF assms(1-3) a [unfolded Copy] slow])
qed

end
