(* ===== verification/Pako_Fast.thy ===== *)
theory Pako_Fast
  imports Pako_Huffman
begin

text \<open>
  The fast loop (\<open>de\<close>): with six bytes of input left a round never reads past the input, since a token has at most 48 bits;
  each round decodes one token of the reference, and the bytes the buffer holds in the end go back.
\<close>

section \<open>Bits for a round\<close>

lemma refill_synced:
  assumes "synced t z" "place z + n \<le> 8 * length t"
  obtains z' where "refill n z = z'" "same_but_bits z z'" "synced t z'" "place z' = place z" "bits z \<le> bits z'" "n \<le> bits z + 8 \<Longrightarrow> n \<le> bits z'"
    "bits z < n \<Longrightarrow> bits z' = bits z + 8" "n \<le> bits z \<Longrightarrow> z' = z"
proof (cases "bits z < n")
  case True
  note p = pull_byte_synced [OF assms(1) more_input(1) [OF assms(1) True assms(2)]]
  show thesis by (rule that [of "pull_byte z"]) (use True p same_but_bits_basic in \<open>simp_all add: refill_def\<close>)
next
  case False
  then show thesis using that [of z] assms(1) by (simp add: refill_def)
qed

lemma refill2_synced:
  assumes "synced t z" "place z + 23 \<le> 8 * length t"
  obtains z' where "refill2 z = z'" "same_but_bits z z'" "synced t z'" "place z' = place z" "15 \<le> bits z'"
proof (cases "bits z < 15")
  case True
  have n: "Suc (next_in z) < length t" using place_next [OF assms(1)] assms(2) True by linarith
  have i: "next_in z < length t" using n by simp
  note p = pull_byte_synced [OF assms(1) i]
  have i': "next_in (pull_byte z) < length t" using p(4) n by simp
  note p' = pull_byte_synced [OF p(1) i']
  show thesis
    by (rule that [of "pull_byte (pull_byte z)"])
      (use True p p' same_but_bits_trans [OF same_but_bits_basic(1) same_but_bits_basic(1)] in \<open>simp_all add: refill2_def\<close>)
next
  case False
  then show thesis using that [of z] assms(1) by (simp add: refill2_def)
qed

text \<open>A symbol when its bits are all there.\<close>

lemma second_found:
  assumes z: "synced t z" "15 \<le> bits z" and T: "table_for ty ls p T" and b: "begins ls s (ahead t (place z))" and l: "p < ls ! s"
  obtains k c where "at T (low_bits p z) = entry p k c" "1 \<le> k" "k \<le> 15" "c < 65536"
    "at T (c + low_bits k (drop_bits p z)) = sym_entry ty (ls ! s - p) s"
proof -
  let ?v = "ahead t (place z)"
  note d = table_forD [OF T]
  have p15: "p \<le> bits z" "ls ! s \<le> bits z" using d(5) z(2) b by (simp_all add: begins_def)
  obtain k c where k: "at T (?v mod 2 ^ p) = entry p k c" "1 \<le> k" "k \<le> 15" "c < 65536"
    by (rule decodes_second [OF d(1,3) b l]) blast
  note sec = second_stable [OF T b l k]
  have h: "hold z = ?v mod 2 ^ bits z" using z(1) by (simp add: synced_def)
  have "p + entry_bits (at T (c + ?v mod 2 ^ (p + k) div 2 ^ p)) \<le> bits z"
    unfolding sec(2) sym_entry_bits(1) [OF begins_symbol(1) [OF T b]] using p15 l by simp
  then have st: "at T (c + hold z mod 2 ^ (p + k) div 2 ^ p) = sym_entry ty (ls ! s - p) s"
    using sec(1) [unfolded stable_def, rule_format, OF p15(1) disjI2] unfolding h sec(2) by blast
  have lb: "low_bits k (drop_bits p z) = hold z mod 2 ^ (p + k) div 2 ^ p"
    by (simp add: low_bits_def drop_bits_def power_add mod_mult2_eq)
  show thesis
    by (rule that [of k c]) (simp_all only: k synced_low [OF z(1) p15(1)] lb st)
qed

lemma follow_symbol:
  assumes z: "synced t z" "15 \<le> bits z" and T: "table_for ty ls p T" and b: "begins ls s (ahead t (place z))"
  obtains m z' where "same_but_bits z z'" "synced t z'" "place z' = place z + ls ! s"
    "sym_op ty s = 0 \<or> has_bit (sym_op ty s) 4 \<or> has_bit (sym_op ty s) 6 \<Longrightarrow>
      follow (Suc (Suc n)) T (at T (low_bits p z)) z = Some (sym_entry ty m s, z')"
    "has_bit (sym_op ty s) 4 \<or> has_bit (sym_op ty s) 6 \<Longrightarrow>
      follow_dist (Suc (Suc n)) T (at T (low_bits p z)) z = Some (sym_entry ty m s, z')"
proof -
  note d = table_forD [OF T]
  have p15: "p \<le> bits z" "ls ! s \<le> bits z" using d(5) z(2) b by (simp_all add: begins_def)
  note sb = sym_entry_bits [OF begins_symbol(1) [OF T b], of ty]
  show thesis
  proof (cases "ls ! s \<le> p")
    case True
    have e: "at T (low_bits p z) = sym_entry ty (ls ! s) s"
      using decodes_root [OF d(1) b True] synced_low [OF z(1) p15(1)] by simp
    show thesis
      by (rule that [of "drop_bits (ls ! s) z" "ls ! s"])
        (use drop_bits_synced [OF z(1) p15(2)] same_but_bits_basic(2) in \<open>auto simp: e sb Let_def\<close>)
  next
    case False
    then have l: "p < ls ! s" by simp
    obtain k c where k: "at T (low_bits p z) = entry p k c" "1 \<le> k" "k \<le> 15" "c < 65536"
      "at T (c + low_bits k (drop_bits p z)) = sym_entry ty (ls ! s - p) s"
      by (rule second_found [OF z T b l])
    have f: "entry_bits (at T (low_bits p z)) = p" "entry_op (at T (low_bits p z)) = k" "entry_val (at T (low_bits p z)) = c"
      unfolding k(1) using k(3,4) by (simp_all add: entry_fields)
    have nb: "k \<noteq> 0" "\<not> has_bit k 4" "\<not> has_bit k 6" using k(2,3) op_bits(10,11) [of k] by simp_all
    note dp = drop_bits_synced [OF z(1) p15(1)]
    let ?m = "ls ! s - p"
    have m: "?m \<le> bits (drop_bits p z)" using dp(3) p15 l by simp
    note dm = drop_bits_synced [OF dp(1) m]
    have sm: "same_but_bits z (drop_bits ?m (drop_bits p z))" by (rule same_but_bits_trans [OF same_but_bits_basic(2) same_but_bits_basic(2)])
    show thesis
    proof (rule that [of "drop_bits ?m (drop_bits p z)" ?m])
      show "same_but_bits z (drop_bits ?m (drop_bits p z))" "synced t (drop_bits ?m (drop_bits p z))" by (rule sm dm)+
      show "place (drop_bits ?m (drop_bits p z)) = place z + ls ! s" using dm(2) dp(2) l by simp
      show "follow (Suc (Suc n)) T (at T (low_bits p z)) z = Some (sym_entry ty ?m s, drop_bits ?m (drop_bits p z))"
        if "sym_op ty s = 0 \<or> has_bit (sym_op ty s) 4 \<or> has_bit (sym_op ty s) 6"
        using that nb by (auto simp: f k(5) sb Let_def)
      show "follow_dist (Suc (Suc n)) T (at T (low_bits p z)) z = Some (sym_entry ty ?m s, drop_bits ?m (drop_bits p z))"
        if "has_bit (sym_op ty s) 4 \<or> has_bit (sym_op ty s) 6"
        using that nb by (auto simp: f k(5) sb Let_def)
    qed
  qed
qed

section \<open>Rounds\<close>

lemma same_but_bits_config:
  assumes "same_but_bits z z'"
  shows "config z' = config z" "outp z' = outp z" "avail_out z' = avail_out z" "zmode z' = zmode z" "wnext z' = wnext z" "wsize z' = wsize z" "inp z' = inp z"
  using assms unfolding same_but_bits_def by (auto simp: config_def)

lemma input_left: "synced t z \<Longrightarrow> next_in z + 6 \<le> length t \<Longrightarrow> place z + 48 \<le> 8 * length t"
  using place_next [of t z] by linarith

text \<open>The first half of a round: the symbol of the literal and length code.\<close>

lemma round_symbol:
  assumes z: "synced t z" "next_in z + 6 \<le> length t" and T: "codes_ready ls ds z"
    and s: "coded ls s" "has_bits t (place z) (code_bits ls s)"
    and final: "sym_op 1 s = 0 \<or> has_bit (sym_op 1 s) 4 \<or> has_bit (sym_op 1 s) 6"
  obtains m z2 where "follow (Suc (Suc n)) (lencode (refill2 z)) (at (lencode (refill2 z)) (low_bits (lenbits (refill2 z)) (refill2 z))) (refill2 z) =
      Some (sym_entry 1 m s, z2)"
    "same_but_bits z z2" "synced t z2" "place z2 = place z + ls ! s" "s < 65536"
proof -
  have T1: "table_for 1 ls (lenbits z) (lencode z)" using T by (simp add: codes_ready_def)
  have bytes: "all_bytes t" using z(1) by (simp add: synced_def)
  have r: "place z + 23 \<le> 8 * length t" using input_left [OF z] by simp
  obtain z1 where z1: "refill2 z = z1" "same_but_bits z z1" "synced t z1" "place z1 = place z" "15 \<le> bits z1"
    by (rule refill2_synced [OF z(1) r])
  note c1 = config_fields [OF same_but_bits_config(1) [OF z1(2)]]
  have T': "table_for 1 ls (lenbits z1) (lencode z1)" using T1 c1(9,10) by simp
  have b: "begins ls s (ahead t (place z1))" using has_bits_begins [OF bytes s(2,1)] by (simp add: z1(4))
  obtain m z2 where z2: "same_but_bits z1 z2" "synced t z2" "place z2 = place z1 + ls ! s"
    "follow (Suc (Suc n)) (lencode z1) (at (lencode z1) (low_bits (lenbits z1) z1)) z1 = Some (sym_entry 1 m s, z2)"
    by (rule follow_symbol [OF z1(3,5) T' b, of n]) (use final in blast)
  show thesis
  proof (rule that)
    show "follow (Suc (Suc n)) (lencode (refill2 z)) (at (lencode (refill2 z)) (low_bits (lenbits (refill2 z)) (refill2 z))) (refill2 z) =
        Some (sym_entry 1 m s, z2)" unfolding z1(1) by (rule z2(4))
    show "same_but_bits z z2" by (rule same_but_bits_trans [OF z1(2) z2(1)])
    show "place z2 = place z + ls ! s" using z2(3) z1(4) by simp
    show "s < 65536" by (rule begins_symbol(1) [OF T' b])
  qed (rule z2)
qed

lemma round_literal:
  assumes z: "synced t z" "next_in z + 6 \<le> length t" and T: "codes_ready ls ds z"
    and s: "b < 256" "coded ls b" "has_bits t (place z) (code_bits ls b)"
  obtains z' where "fast_round (Suc (Suc n)) beg z = Some (Inl z')" "synced t z'" "place z' = place z + ls ! b" "outp z' = outp z @ [b]"
    "config z' = config z" "zmode z' = zmode z" "avail_out z' = avail_out z"
proof -
  note so = sym_ops(1) [OF s(1)]
  obtain m z2 where z2: "follow (Suc (Suc n)) (lencode (refill2 z)) (at (lencode (refill2 z)) (low_bits (lenbits (refill2 z)) (refill2 z))) (refill2 z) =
      Some (sym_entry 1 m b, z2)"
    "same_but_bits z z2" "synced t z2" "place z2 = place z + ls ! b" "b < 65536"
    by (rule round_symbol [OF z T s(2,3)]) (use so in blast)
  let ?z' = "z2\<lparr>outp := outp z2 @ [b]\<rparr>"
  have "fast_round (Suc (Suc n)) beg z = Some (Inl ?z')"
    unfolding fast_round_def Let_def z2(1) option.case prod.case using so s(1) by (simp add: sym_entry_bits [OF z2(5)])
  moreover have "synced t ?z'" "place ?z' = place z2" using z2(3) synced_fields [of ?z' z2] by simp_all
  ultimately show thesis using that [of ?z'] z2(4) same_but_bits_config [OF z2(2)] by (simp add: config_def)
qed

lemma round_end:
  assumes z: "synced t z" "next_in z + 6 \<le> length t" and T: "codes_ready ls ds z"
    and s: "coded ls 256" "has_bits t (place z) (code_bits ls 256)"
  obtains z' where "fast_round (Suc (Suc n)) beg z = Some (Inr z')" "synced t z'" "place z' = place z + ls ! 256" "outp z' = outp z"
    "config z' = config z" "zmode z' = M_TYPE" "avail_out z' = avail_out z"
proof -
  have final: "sym_op 1 256 = 0 \<or> has_bit (sym_op 1 256) 4 \<or> has_bit (sym_op 1 256) 6" unfolding sym_ops(2) using op_bits(7) by blast
  obtain m z2 where z2: "follow (Suc (Suc n)) (lencode (refill2 z)) (at (lencode (refill2 z)) (low_bits (lenbits (refill2 z)) (refill2 z))) (refill2 z) =
      Some (sym_entry 1 m 256, z2)"
    "same_but_bits z z2" "synced t z2" "place z2 = place z + ls ! 256" "(256::nat) < 65536"
    by (rule round_symbol [OF z T s final])
  let ?z' = "z2\<lparr>zmode := M_TYPE\<rparr>"
  have "fast_round (Suc (Suc n)) beg z = Some (Inr ?z')"
    unfolding fast_round_def Let_def z2(1) option.case prod.case sym_entry_bits(2) [OF z2(5)] sym_ops(2) using op_bits(6,8) by simp
  moreover have "synced t ?z'" "place ?z' = place z2" using z2(3) synced_fields [of ?z' z2] by simp_all
  ultimately show thesis using that [of ?z'] z2(4) same_but_bits_config [OF z2(2)] by (simp add: config_def)
qed

text \<open>The second half of a round for a copy.\<close>

lemma round_distance:
  assumes z: "synced t z" "place z + 28 \<le> 8 * length t" and T: "codes_ready ls ds z"
    and d: "d < 30" "y < 2 ^ dist_extra d" "coded ds d" "has_bits t (place z) (code_bits ds d)"
      "has_bits t (place z + ds ! d) (lsb (dist_extra d) y)"
  obtains m z2 z3 where "follow_dist (Suc (Suc n)) (distcode (refill2 z)) (at (distcode (refill2 z)) (low_bits (distbits (refill2 z)) (refill2 z))) (refill2 z) =
      Some (sym_entry 2 m d, z2)"
    "refill (dist_extra d) (refill (dist_extra d) z2) = z3" "same_but_bits z z3" "low_bits (dist_extra d) z3 = y"
    "synced t (drop_bits (dist_extra d) z3)" "place (drop_bits (dist_extra d) z3) = place z + ds ! d + dist_extra d"
proof -
  have T2: "table_for 2 ds (distbits z) (distcode z)" using T coded_symbols [OF d(3)] by (simp add: codes_ready_def)
  have bytes: "all_bytes t" using z(1) by (simp add: synced_def)
  have r: "place z + 23 \<le> 8 * length t" using z(2) by simp
  obtain z1 where z1: "refill2 z = z1" "same_but_bits z z1" "synced t z1" "place z1 = place z" "15 \<le> bits z1"
    by (rule refill2_synced [OF z(1) r])
  note c1 = config_fields [OF same_but_bits_config(1) [OF z1(2)]]
  have T': "table_for 2 ds (distbits z1) (distcode z1)" using T2 c1(11,12) by simp
  have b: "begins ds d (ahead t (place z1))" using has_bits_begins [OF bytes d(4,3)] by (simp add: z1(4))
  let ?x = "dist_extra d"
  have x: "?x \<le> 13" "?x < 16" using extra_small(2) [OF d(1)] by simp_all
  have final: "has_bit (sym_op 2 d) 4 \<or> has_bit (sym_op 2 d) 6" using sym_ops(4) [OF d(1)] op_bits(3) [OF x(2)] by simp
  obtain m z2 where z2: "same_but_bits z1 z2" "synced t z2" "place z2 = place z1 + ds ! d"
    "follow_dist (Suc (Suc n)) (distcode z1) (at (distcode z1) (low_bits (distbits z1) z1)) z1 = Some (sym_entry 2 m d, z2)"
    by (rule follow_symbol [OF z1(3,5) T' b, of n]) (use final in blast)
  have l: "ds ! d \<le> 15" using d(3) by (simp add: coded_def)
  have p2: "place z2 = place z + ds ! d" using z2(3) z1(4) by simp
  have r2: "place z2 + ?x \<le> 8 * length t" using p2 l x(1) z(2) by linarith
  obtain u where u: "refill ?x z2 = u" "same_but_bits z2 u" "synced t u" "place u = place z2" "bits z2 \<le> bits u" "?x \<le> bits z2 + 8 \<Longrightarrow> ?x \<le> bits u"
    "bits z2 < ?x \<Longrightarrow> bits u = bits z2 + 8"
    by (rule refill_synced [OF z2(2) r2]) blast
  have r3: "place u + ?x \<le> 8 * length t" using r2 u(4) by simp
  obtain z3 where z3: "refill ?x u = z3" "same_but_bits u z3" "synced t z3" "place z3 = place u" "bits u \<le> bits z3" "?x \<le> bits u + 8 \<Longrightarrow> ?x \<le> bits z3"
    by (rule refill_synced [OF u(3) r3]) blast
  have xb: "?x \<le> bits z3"
  proof (cases "bits z2 < ?x")
    case True
    then have "?x \<le> bits u + 8" using u(7) x(1) by simp
    then show ?thesis by (rule z3(6))
  next
    case False
    then show ?thesis using u(5) z3(5) by simp
  qed
  have p3: "place z3 = place z + ds ! d" using z3(4) u(4) p2 by simp
  have v: "low_bits ?x z3 = y" using synced_low [OF z3(3) xb] has_bits_number [OF bytes d(5,2)] by (simp add: p3)
  note dr = drop_bits_synced [OF z3(3) xb]
  show thesis
  proof (rule that)
    show "follow_dist (Suc (Suc n)) (distcode (refill2 z)) (at (distcode (refill2 z)) (low_bits (distbits (refill2 z)) (refill2 z))) (refill2 z) =
        Some (sym_entry 2 m d, z2)" unfolding z1(1) by (rule z2(4))
    show "refill ?x (refill ?x z2) = z3" unfolding u(1) by (rule z3(1))
    show "same_but_bits z z3" by (rule same_but_bits_trans [OF z1(2) same_but_bits_trans [OF z2(1) same_but_bits_trans [OF u(2) z3(2)]]])
    show "place (drop_bits ?x z3) = place z + ds ! d + ?x" using dr(2) p3 by simp
  qed (rule v dr)+
qed

text \<open>Inside the loop the state is that of \<open>decoding\<close>, except that the buffer holds more bits and the room in the chunk is not counted.\<close>

definition amid :: "nat list \<Rightarrow> nat list list \<Rightarrow> nat \<Rightarrow> nat list \<Rightarrow> zstream \<Rightarrow> bool" where
  "amid t ch q os z \<longleftrightarrow> synced t z \<and> place z = q \<and> concat ch @ outp z = os \<and> all_bytes os \<and> held (concat ch) z"

lemma amidD:
  assumes "amid t ch q os z"
  shows "synced t z" "place z = q" "concat ch @ outp z = os" "all_bytes os" "held (concat ch) z"
  using assms by (simp_all add: amid_def)

lemma amid_next:
  assumes a: "amid t ch q os z" and z': "synced t z'" "place z' = q'" "concat ch @ outp z' = os'" "all_bytes os'" "config z' = config z"
  shows "amid t ch q' os' z'"
  using amidD(5) [OF a] z' held_config [OF z'(5)] by (simp add: amid_def)

text \<open>The copy of a match, its first bytes perhaps from the window.\<close>

lemma fast_copy_back:
  assumes a: "concat ch @ outp z = os" "held (concat ch) z" and v: "0 < v" "v \<le> length os" "v \<le> 32768" and k: "3 \<le> k"
  obtains xs where "fast_copy 0 k v z = Some xs" "concat ch @ xs = copy_back k v os"
proof (cases "length (outp z) < v")
  case True
  let ?p = "v - length (outp z)"
  have p: "?p \<le> 32768" using v(3) by linarith
  note w = copy_window_back [OF a True v(2,3)]
  have h: "whave z = 32768" "wsize z = 32768" "wnext z = 0" using a(2) w(2) [of 0] by (simp_all add: held_def)
  let ?xs = "\<lambda>c. copy_window c (32768 - ?p) (window_bytes z) (outp z)"
  show thesis
  proof (cases "?p < k")
    case far: True
    have l: "length (?xs ?p) = v" using True by (simp add: copy_window_def)
    have m: "v \<le> length (?xs ?p)" by (simp only: l)
    have "fast_copy 0 k v z = Some (copy_out (k - ?p) (length (?xs ?p) - v) (?xs ?p))"
      using True p far h by (simp add: fast_copy_def next_out_def Let_def)
    moreover have "concat ch @ copy_out (k - ?p) (length (?xs ?p) - v) (?xs ?p) = copy_back k v os"
    proof -
      have "concat ch @ copy_back (k - ?p) v (?xs ?p) = copy_back (k - ?p) v (copy_back ?p v os)"
        using copy_back_append [OF v(1) m, of "k - ?p" "concat ch"] w(1) [OF order_refl] by simp
      also have "\<dots> = copy_back k v os" using copy_back_add [of ?p "k - ?p" v os] far by simp
      finally show ?thesis unfolding copy_out_back [OF v(1) m] .
    qed
    ultimately show thesis by (rule that)
  next
    case False
    then have "k \<le> ?p" by simp
    have "fast_copy 0 k v z = Some (?xs k)" using True p False h by (simp add: fast_copy_def next_out_def Let_def)
    then show thesis using w(1) [OF \<open>k \<le> ?p\<close>] by (rule that)
  qed
next
  case False
  then have "v \<le> length (outp z)" by simp
  from copy_out_chunk [OF a(1) v(1) this, of k] show thesis
    by (rule that [rotated]) (use False k in \<open>simp add: fast_copy_def next_out_def Let_def\<close>)
qed

lemma round_copy:
  assumes m: "amid t ch q os z" and room: "next_in z + 6 \<le> length t" and T: "codes_ready ls ds z"
    and a: "token_ok ls ds os (Copy i x d y)" "has_bits t q (token_bits ls ds (Copy i x d y))"
  obtains z' where "fast_round (Suc (Suc n)) 0 z = Some (Inl z')" "amid t ch (q + length (token_bits ls ds (Copy i x d y))) (token_out os (Copy i x d y)) z'"
    "config z' = config z" "zmode z' = zmode z" "avail_out z' = avail_out z"
proof -
  note M = amidD [OF m]
  have z: "synced t z" "next_in z + 6 \<le> length t" by (rule M room)+
  have dm: "dmax z = 32768" using M(5) by (simp add: held_def)
  let ?s = "257 + i" and ?x = "length_extra i" and ?y = "dist_extra d"
  have ok: "i < 29" "x < 2 ^ ?x" "coded ls ?s" "d < 30" "y < 2 ^ ?y" "coded ds d" "dist_base d + y \<le> length os"
    using a(1) by simp_all
  have h: "has_bits t (place z) (code_bits ls ?s)" "has_bits t (place z + ls ! ?s) (lsb ?x x)" "has_bits t (place z + ls ! ?s + ?x) (code_bits ds d)"
    "has_bits t (place z + ls ! ?s + ?x + ds ! d) (lsb ?y y)"
    using a(2) unfolding M(2) by (simp_all add: has_bits_append add.assoc)
  have bytes: "all_bytes t" using z(1) by (simp add: synced_def)
  have x16: "?x \<le> 5" "?x < 16" "?y < 16" using extra_small [of i] extra_small(2) [of d] ok by auto
  note so = sym_ops(3) [OF ok(1)] and ob = op_bits(1-5) [OF x16(2)]
  obtain m z2 where z2: "follow (Suc (Suc n)) (lencode (refill2 z)) (at (lencode (refill2 z)) (low_bits (lenbits (refill2 z)) (refill2 z))) (refill2 z) =
      Some (sym_entry 1 m ?s, z2)"
    "same_but_bits z z2" "synced t z2" "place z2 = place z + ls ! ?s" "?s < 65536"
    by (rule round_symbol [OF z T ok(3) h(1)]) (use so ob in auto)
  have l: "ls ! ?s \<le> 15" using ok(3) by (simp add: coded_def)
  have r: "place z2 + ?x \<le> 8 * length t" using input_left [OF z] z2(4) l x16(1) by linarith
  obtain u where u: "refill ?x z2 = u" "same_but_bits z2 u" "synced t u" "place u = place z2" "?x \<le> bits z2 + 8 \<Longrightarrow> ?x \<le> bits u"
    "?x \<le> bits z2 \<Longrightarrow> u = z2"
    by (rule refill_synced [OF z2(3) r]) blast
  have iff: "(if ?x \<noteq> 0 then refill ?x z2 else z2) = u" using u(1,6) by auto
  have xb: "?x \<le> bits u" using u(5) x16(1) by simp
  have lx: "low_bits ?x u = x" using synced_low [OF u(3) xb] has_bits_number [OF bytes h(2) ok(2)] u(4) z2(4) by simp
  define w where "w = drop_bits ?x u"
  note dw = drop_bits_synced [OF u(3) xb, folded w_def]
  have sw: "same_but_bits z w" unfolding w_def by (rule same_but_bits_trans [OF z2(2) same_but_bits_trans [OF u(2) same_but_bits_basic(2)]])
  note cw = same_but_bits_config [OF sw]
  have pw: "place w = place z + ls ! ?s + ?x" using dw(2) u(4) z2(4) by simp
  have room': "place w + 28 \<le> 8 * length t" using pw input_left [OF z] l x16(1) by linarith
  have Tw: "codes_ready ls ds w" using T codes_ready_config [OF cw(1)] by simp
  obtain m' z3 z4 where z3: "follow_dist (Suc (Suc n)) (distcode (refill2 w)) (at (distcode (refill2 w)) (low_bits (distbits (refill2 w)) (refill2 w))) (refill2 w) =
      Some (sym_entry 2 m' d, z3)"
    "refill ?y (refill ?y z3) = z4" "same_but_bits w z4" "low_bits ?y z4 = y"
    "synced t (drop_bits ?y z4)" "place (drop_bits ?y z4) = place w + ds ! d + ?y"
    by (rule round_distance [OF dw(1) room' Tw ok(4,5,6), of n]) (use h(3,4) in \<open>simp_all add: pw\<close>)
  define z5 where "z5 = drop_bits ?y z4"
  have s5: "same_but_bits z z5" unfolding z5_def by (rule same_but_bits_trans [OF sw same_but_bits_trans [OF z3(3) same_but_bits_basic(2)]])
  note c5 = same_but_bits_config [OF s5]
  have d65: "d < 65536" using ok(4) by simp
  note so' = sym_ops(4) [OF ok(4)] and ob' = op_bits(1-5) [OF x16(3)]
  have dm4: "dmax z4 = 32768" using same_but_bits_config(1) [OF same_but_bits_trans [OF sw z3(3)]] dm by (simp add: config_def)
  let ?k = "length_base i + x" and ?v = "dist_base d + y"
  have o5: "concat ch @ outp z5 = os" "held (concat ch) z5" using M(3,5) c5(2) held_config [OF c5(1)] by simp_all
  have v: "0 < ?v" "?v \<le> length os" "?v \<le> 32768" "3 \<le> ?k"
    using ok(7) dist_base_pos [of d] length_base_least [of i] dist_most [OF ok(4,5)] by simp_all
  obtain xs where copy: "fast_copy 0 ?k ?v z5 = Some xs" "concat ch @ xs = copy_back ?k ?v os"
    by (rule fast_copy_back [OF o5 v])
  have far: "\<not> dmax z4 < ?v" using dist_most [OF ok(4,5)] dm4 by simp
  let ?z' = "z5\<lparr>outp := xs\<rparr>"
  have "fast_round (Suc (Suc n)) 0 z = Some (Inl ?z')"
    unfolding fast_round_def Let_def z2(1) option.case prod.case sym_entry_bits [OF z2(5)] conjunct1 [OF so] conjunct2 [OF so] ob(2) iff lx
      w_def [symmetric] z3(1) sym_entry_bits [OF d65] conjunct1 [OF so'] conjunct2 [OF so'] ob'(2) z3(2,4) z5_def [symmetric] copy(1)
    using ob(3) ob'(3) far by simp
  moreover have "amid t ch (q + length (token_bits ls ds (Copy i x d y))) (token_out os (Copy i x d y)) ?z'"
  proof (rule amid_next [OF m])
    show "synced t ?z'" using z3(5) synced_fields [of ?z' z5] by (simp add: z5_def)
    show "place ?z' = q + length (token_bits ls ds (Copy i x d y))" using z3(6) pw M(2) synced_fields(2) [of ?z' z5] by (simp add: z5_def add.assoc)
    show "concat ch @ outp ?z' = token_out os (Copy i x d y)" using copy(2) by simp
    show "all_bytes (token_out os (Copy i x d y))" using copy_back_bytes [of os ?v ?k] M(4) v by (simp add: all_bytes_def)
    show "config ?z' = config z" using c5(1) by (simp add: config_def)
  qed
  ultimately show thesis using that [of ?z'] c5 by (simp add: config_def)
qed

lemma round_token:
  assumes m: "amid t ch q os z" and r: "next_in z + 6 \<le> length t" and T: "codes_ready ls ds z"
    and a: "token_ok ls ds os a" "has_bits t q (token_bits ls ds a)"
  obtains z' where "fast_round (Suc (Suc n)) 0 z = Some (Inl z')" "amid t ch (q + length (token_bits ls ds a)) (token_out os a) z'"
    "config z' = config z" "zmode z' = zmode z" "avail_out z' = avail_out z"
proof (cases a)
  case (Lit b)
  note M = amidD [OF m]
  have b: "b < 256" "coded ls b" "has_bits t (place z) (code_bits ls b)" using a M(2) by (simp_all add: Lit)
  obtain z' where z': "fast_round (Suc (Suc n)) 0 z = Some (Inl z')" "synced t z'" "place z' = place z + ls ! b" "outp z' = outp z @ [b]"
    "config z' = config z" "zmode z' = zmode z" "avail_out z' = avail_out z"
    by (rule round_literal [OF M(1) r T b, where n = n and beg = 0])
  have "amid t ch (q + ls ! b) (os @ [b]) z'"
    by (rule amid_next [OF m z'(2) _ _ _ z'(5)]) (use z'(3,4) M b(1) in \<open>simp_all add: all_bytes_def\<close>)
  then show thesis by (intro that [OF z'(1) _ z'(5-7)]) (simp add: Lit)
next
  case (Copy i x d y)
  show thesis by (rule round_copy [OF m r T a [unfolded Copy], where n = n]) (rule that, assumption, simp_all only: Copy)
qed

lemma copy_most: "i < 29 \<Longrightarrow> x < 2 ^ length_extra i \<Longrightarrow> length_base i + x \<le> 258"
proof -
  assume i: "i < 29" and x: "x < 2 ^ length_extra i"
  have "list_all (\<lambda>i. length_base i + 2 ^ length_extra i \<le> 259) [0..<29]"
    by (simp add: upt_rec length_base_def length_extra_def)
  then have "length_base i + 2 ^ length_extra i \<le> 259" using i by (simp add: list_all_iff)
  then show ?thesis using x by linarith
qed

lemma token_most: "token_ok ls ds os a \<Longrightarrow> length (token_out os a) \<le> length os + 258"
  by (cases a) (auto dest: copy_most)

section \<open>The loop\<close>

text \<open>
  Where the fast loop stops: after some tokens, at least one, or with the end of the block.  The last token began below the
  mark \<open>stop\<close>, so it ends within 258 bytes of it.
\<close>

lemma fast_loop_tokens:
  "amid t ch q os z \<Longrightarrow> next_in z + 6 \<le> length t \<Longrightarrow> codes_ready ls ds z \<Longrightarrow> length (outp z) < stop \<Longrightarrow>
   tokens_ok ls ds os ts \<Longrightarrow> has_bits t q (tokens_bits ls ds ts) \<Longrightarrow> length ts + 3 \<le> n \<Longrightarrow>
   \<exists>z' q' os'. fast_loop n 0 (length t - 5) stop z = Some z' \<and> amid t ch q' os' z' \<and> config z' = config z \<and> avail_out z' = avail_out z \<and>
     length (outp z') < stop + 258 \<and>
     (zmode z' = M_TYPE \<and> q' = q + length (tokens_bits ls ds ts) \<and> os' = tokens_out os ts \<or>
      zmode z' = zmode z \<and> (\<exists>rest. length rest < length ts \<and> tokens_ok ls ds os' rest \<and> has_bits t q' (tokens_bits ls ds rest) \<and>
        q' + length (tokens_bits ls ds rest) = q + length (tokens_bits ls ds ts) \<and> tokens_out os' rest = tokens_out os ts))"
proof (induction ts arbitrary: n q os z)
  case Nil
  then obtain k where n: "n = Suc (Suc (Suc k))" using le_Suc_ex [of 3 n] by auto
  note M = amidD [OF Nil.prems(1)]
  have s: "coded ls 256" "has_bits t (place z) (code_bits ls 256)" using Nil M(2) by simp_all
  obtain z' where z': "fast_round (Suc (Suc k)) 0 z = Some (Inr z')" "synced t z'" "place z' = place z + ls ! 256" "outp z' = outp z"
    "config z' = config z" "zmode z' = M_TYPE" "avail_out z' = avail_out z"
    by (rule round_end [OF M(1) Nil(2,3) s])
  have "amid t ch (q + ls ! 256) os z'" by (rule amid_next [OF Nil.prems(1) z'(2)]) (use z' M in simp_all)
  then show ?case using z' Nil.prems(4) by (intro exI [of _ z'] exI [of _ "q + ls ! 256"] exI [of _ os]) (simp add: n)
next
  case (Cons a ts)
  then obtain k where n: "n = Suc (Suc (Suc k))" "length ts + 1 \<le> k" using le_Suc_ex [of 3 n] by auto
  have a: "token_ok ls ds os a" "has_bits t q (token_bits ls ds a)" using Cons.prems by (simp_all add: has_bits_append)
  let ?q = "q + length (token_bits ls ds a)" and ?os = "token_out os a"
  obtain u where u: "fast_round (Suc (Suc k)) 0 z = Some (Inl u)" "amid t ch ?q ?os u" "config u = config z" "zmode u = zmode z" "avail_out u = avail_out z"
    by (rule round_token [OF Cons.prems(1-3) a])
  have rest: "tokens_ok ls ds ?os ts" "has_bits t ?q (tokens_bits ls ds ts)" using Cons.prems by (simp_all add: has_bits_append)
  have e: "length (concat ch) + length (outp z) = length os" "length (concat ch) + length (outp u) = length ?os"
    using amidD(3) [OF Cons.prems(1)] amidD(3) [OF u(2)] by (metis length_append)+
  then have grow: "length (outp u) < stop + 258" using token_most [OF a(1)] Cons.prems(4) by linarith
  have out: "tokens_out ?os ts = tokens_out os (a # ts)" "?q + length (tokens_bits ls ds ts) = q + length (tokens_bits ls ds (a # ts))"
    by simp_all
  show ?case
  proof (cases "next_in u < length t - 5 \<and> next_out u < stop")
    case False
    have "fast_loop n 0 (length t - 5) stop z = Some u"
      unfolding n(1) fast_loop.simps(2) [of "Suc (Suc k)"] u(1) option.case sum.case if_not_P [OF False] ..
    then show ?thesis
      by (rule_tac exI [of _ u], rule_tac exI [of _ ?q], rule_tac exI [of _ ?os], intro conjI disjI2 exI [of _ ts]) (use u rest grow in simp_all)
  next
    case True
    then have l: "next_in u + 6 \<le> length t" "length (outp u) < stop" unfolding next_out_def by linarith+
    have T: "codes_ready ls ds u" using Cons.prems(3) codes_ready_config [OF u(3)] by simp
    have k: "length ts + 3 \<le> Suc (Suc k)" using n(2) by simp
    have e: "fast_loop n 0 (length t - 5) stop z = fast_loop (Suc (Suc k)) 0 (length t - 5) stop u" unfolding n(1) fast_loop.simps(2) [of "Suc (Suc k)"] u(1) using True by simp
    obtain z' q' os' where z': "fast_loop (Suc (Suc k)) 0 (length t - 5) stop u = Some z'" "amid t ch q' os' z'" "config z' = config u" "avail_out z' = avail_out u"
      "length (outp z') < stop + 258"
      "zmode z' = M_TYPE \<and> q' = ?q + length (tokens_bits ls ds ts) \<and> os' = tokens_out ?os ts \<or>
      zmode z' = zmode u \<and> (\<exists>rest. length rest < length ts \<and> tokens_ok ls ds os' rest \<and> has_bits t q' (tokens_bits ls ds rest) \<and>
        q' + length (tokens_bits ls ds rest) = ?q + length (tokens_bits ls ds ts) \<and> tokens_out os' rest = tokens_out ?os ts)"
      using Cons.IH [OF u(2) l(1) T l(2) rest k] by blast
    show ?thesis
      by (rule exI [of _ z'], rule exI [of _ q'], rule exI [of _ os']) (use z' u(3-5) in \<open>simp only: e out\<close>; use less_SucI in fastforce)
  qed
qed

end
