(* ===== verification/Pako_Blocks.thy ===== *)
theory Pako_Blocks
  imports Pako_Fast
begin

text \<open>
  The blocks of a stream in \<open>inflate\<close>: the tokens in the fast loop and one by one, stored blocks, and blocks in the fixed codes.
  Each lemma leads from a block's head to the end of the block, over as many calls as its bytes need.
\<close>

section \<open>The tokens of a block\<close>

lemma fast_tokens:
  assumes d: "decoding t ch q os z" and m: "zmode z = M_LEN" and T: "codes_ready ls ds z" and ts: "tokens_ok ls ds os ts" "has_bits t q (tokens_bits ls ds ts)"
    and fast: "6 \<le> avail_in z" "258 \<le> avail_out z"
  obtains z' q' os' rest where "\<And>n. length ts + 3 \<le> n \<Longrightarrow> step n 0 z = Again z'" "config z' = config z" "decoding t ch q' os' z'"
    "zmode z' = M_TYPE \<and> q' = q + length (tokens_bits ls ds ts) \<and> os' = tokens_out os ts \<or>
     zmode z' = M_LEN \<and> length rest < length ts \<and> tokens_ok ls ds os' rest \<and> has_bits t q' (tokens_bits ls ds rest) \<and>
       q' + length (tokens_bits ls ds rest) = q + length (tokens_bits ls ds ts) \<and> tokens_out os' rest = tokens_out os ts"
proof -
  note D = decodingD [OF d]
  let ?c = "length ts + 3" and ?o = "length (outp z)" and ?all = "q + length (tokens_bits ls ds ts)"
  let ?stop = "?o + (65536 - ?o - 257)"
  have inp: "next_in z + 6 \<le> length t" using fast(1) D(1) by (simp add: avail_in_def synced_def)
  have am: "amid t ch q os z" using D by (simp add: amid_def)
  have st: "?o < ?stop" "?stop + 258 = 65537" using fast(2) D(6,7) by linarith+
  obtain u q' os' where u: "fast_loop ?c 0 (length t - 5) ?stop z = Some u" "amid t ch q' os' u" "config u = config z" "avail_out u = avail_out z"
    "length (outp u) < ?stop + 258"
    "zmode u = M_TYPE \<and> q' = ?all \<and> os' = tokens_out os ts \<or>
      zmode u = zmode z \<and> (\<exists>rest. length rest < length ts \<and> tokens_ok ls ds os' rest \<and> has_bits t q' (tokens_bits ls ds rest) \<and>
        q' + length (tokens_bits ls ds rest) = ?all \<and> tokens_out os' rest = tokens_out os ts)"
    using fast_loop_tokens [OF am inp T st(1) ts order_refl] by blast
  note U = amidD [OF u(2)]
  define z' where "z' = u\<lparr>next_in := next_in u - bits u div 8, hold := hold u mod 2 ^ (bits u mod 8), bits := bits u mod 8,
    avail_out := avail_out z + ?o - length (outp u)\<rparr>"
  note gb = give_back_synced [OF U(1) z'_def]
  have c': "config z' = config z" using u(3) by (simp add: z'_def config_def)
  have grow: "length (outp z') \<le> 65536" "avail_out z' = 65536 - length (outp z')" "concat ch @ outp z' = os'"
    using u(5) U(3) D(6,7) unfolding st(2) by (simp_all add: z'_def)
  have b8: "bits z' < 8" by (simp add: z'_def)
  have dec: "decoding t ch q' os' z'"
    using b8 gb grow U(2,4) D(8,11) config_fields(5) [OF c'] held_config [OF c'] by (simp add: decoding_def)
  have f: "inflate_fast n (room z) z = Some z'" if "?c \<le> n" for n
  proof -
    have "fast_loop n 0 (length t - 5) ?stop z = Some u" by (rule fast_loop_mono [OF u(1) that])
    moreover have "next_out z - (room z - avail_out z) = 0" "inp z = t" using D(1,6-8) by (simp_all add: next_out_def synced_def)
    ultimately show ?thesis using D(7) by (simp add: inflate_fast_def Let_def next_out_def z'_def)
  qed
  define z'' where "z'' = (if zmode z' = M_TYPE then z'\<lparr>zback := -1\<rparr> else z')"
  have r: "step n 0 z = Again z''" if "?c \<le> n" for n
    unfolding code_modes(1) [OF m] do_len_def using fast f [OF that] by (simp add: z''_def)
  have c: "config z'' = config z" using c' by (simp add: z''_def decoding_fields)
  have dec'': "decoding t ch q' os' z''" "zmode z'' = zmode u" using dec by (simp_all add: z''_def z'_def decoding_fields)
  show thesis
  proof (cases "zmode u = M_TYPE")
    case True
    show thesis by (rule that [OF r c dec''(1), of "[]"]) (use True u(6) m dec''(2) in auto)
  next
    case False
    then obtain rest where rest: "length rest < length ts" "tokens_ok ls ds os' rest" "has_bits t q' (tokens_bits ls ds rest)"
      "q' + length (tokens_bits ls ds rest) = ?all" "tokens_out os' rest = tokens_out os ts" "zmode u = M_LEN"
      using u(6) m by auto
    show thesis by (rule that [OF r c dec''(1), of rest]) (use rest dec''(2) in simp_all)
  qed
qed

lemma tokens_leads:
  "decoding t ch q os z \<Longrightarrow> zmode z = M_LEN \<Longrightarrow> codes_ready ls ds z \<Longrightarrow> tokens_ok ls ds os ts \<Longrightarrow> has_bits t q (tokens_bits ls ds ts) \<Longrightarrow>
   leads ch z (\<lambda>ch' z'. decoding t ch' (q + length (tokens_bits ls ds ts)) (tokens_out os ts) z' \<and> lasting z' = lasting z \<and> zmode z' = M_TYPE)"
proof (induction ts arbitrary: ch q os z rule: length_induct)
  case (1 ts)
  note d = "1.prems"(1) and m = "1.prems"(2) and T = "1.prems"(3) and ts = "1.prems"(4,5)
  let ?all = "q + length (tokens_bits ls ds ts)"
  show ?case
  proof (cases "6 \<le> avail_in z \<and> 258 \<le> avail_out z")
    case True
    then have fast: "6 \<le> avail_in z" "258 \<le> avail_out z" by simp_all
    obtain z1 q' os' rest where z1: "\<And>n. length ts + 3 \<le> n \<Longrightarrow> step n 0 z = Again z1" "config z1 = config z" "decoding t ch q' os' z1"
      "zmode z1 = M_TYPE \<and> q' = ?all \<and> os' = tokens_out os ts \<or>
       zmode z1 = M_LEN \<and> length rest < length ts \<and> tokens_ok ls ds os' rest \<and> has_bits t q' (tokens_bits ls ds rest) \<and>
         q' + length (tokens_bits ls ds rest) = ?all \<and> tokens_out os' rest = tokens_out os ts"
      by (rule fast_tokens [OF d m T ts fast]) blast
    note l1 = config_lasting [OF z1(2)]
    show ?thesis
    proof (cases "zmode z1 = M_TYPE")
      case True
      then have "q' = ?all" "os' = tokens_out os ts" using z1(4) by simp_all
      then show ?thesis using z1(3) l1 True by (intro leads_step [OF z1(1)]) simp_all
    next
      case False
      then have s: "zmode z1 = M_LEN" "length rest < length ts" "tokens_ok ls ds os' rest" "has_bits t q' (tokens_bits ls ds rest)"
        "q' + length (tokens_bits ls ds rest) = ?all" "tokens_out os' rest = tokens_out os ts"
        using z1(4) by simp_all
      have T1: "codes_ready ls ds z1" using T codes_ready_config [OF z1(2)] by simp
      from "1.IH" [rule_format, OF s(2) z1(3) s(1) T1 s(3,4)] show ?thesis unfolding s(5,6) l1 by (rule leads_then [OF z1(1), rotated])
    qed
  next
    case slow: False
    show ?thesis
    proof (cases ts)
      case Nil
      have s: "coded ls 256" "has_bits t q (code_bits ls 256)" using ts by (simp_all add: Nil)
      obtain z' where z': "runs 1 z z'" "decoding t ch (q + ls ! 256) os z'" "config z' = config z" "zmode z' = M_TYPE"
        by (rule slow_end [OF d m T s slow])
      show ?thesis by (rule leads_runs [OF z'(1)]) (use z' config_lasting [OF z'(3)] in \<open>simp add: Nil\<close>)
    next
      case (Cons a rest)
      have a: "token_ok ls ds os a" "has_bits t q (token_bits ls ds a)" "tokens_ok ls ds (token_out os a) rest"
        "has_bits t (q + length (token_bits ls ds a)) (tokens_bits ls ds rest)"
        using ts by (simp_all add: Cons has_bits_append)
      have l: "length rest < length ts" by (simp add: Cons)
      show ?thesis
      proof (rule leads_trans [OF slow_token [OF d m T a(1,2) slow]], elim conjE)
        fix ch1 z1
        assume z1: "decoding t ch1 (q + length (token_bits ls ds a)) (token_out os a) z1" "lasting z1 = lasting z" "zmode z1 = M_LEN"
        have T1: "codes_ready ls ds z1" using T codes_ready_lasting [OF z1(2)] by simp
        show "leads ch1 z1 (\<lambda>ch' z'. decoding t ch' ?all (tokens_out os ts) z' \<and> lasting z' = lasting z \<and> zmode z' = M_TYPE)"
          using "1.IH" [rule_format, OF l z1(1,3) T1 a(3,4)] z1(2) by (simp add: Cons add.assoc)
      qed
    qed
  qed
qed

section \<open>The beginning of a block\<close>

text \<open>Inside a block and between two blocks; \<open>l\<close> is the last-block flag.\<close>

definition in_block :: "nat list \<Rightarrow> nat \<Rightarrow> nat list list \<Rightarrow> nat \<Rightarrow> nat list \<Rightarrow> zstream \<Rightarrow> bool" where
  "in_block t l ch q os z \<longleftrightarrow> decoding t ch q os z \<and> zlast z = l \<and>
     length (lendyn z) = 852 \<and> length (distdyn z) = 592 \<and> length (work z) = 288 \<and> length (lens z) = 320"

definition at_block :: "nat list \<Rightarrow> nat \<Rightarrow> nat list list \<Rightarrow> nat \<Rightarrow> nat list \<Rightarrow> zstream \<Rightarrow> bool" where
  "at_block t l ch q os z \<longleftrightarrow> in_block t l ch q os z \<and> zmode z = M_TYPE"

lemma in_block_decoding: "in_block t l ch q os z \<Longrightarrow> decoding t ch q os z"
  by (simp add: in_block_def)

lemma in_block_mode [simp]: "in_block t l ch q os (z\<lparr>zmode := m\<rparr>) = in_block t l ch q os z"
  by (simp add: in_block_def decoding_fields)

lemma in_block_lasting:
  assumes "in_block t l ch q os z" "lasting z' = lasting z" "decoding t ch' q' os' z'"
  shows "in_block t l ch' q' os' z'"
  using assms(1,3) lasting_fields [OF assms(2)] by (simp add: in_block_def)

lemma in_block_config: "in_block t l ch q os z \<Longrightarrow> config z' = config z \<Longrightarrow> decoding t ch q' os' z' \<Longrightarrow> in_block t l ch q' os' z'"
  using in_block_lasting config_lasting by blast

lemma has_bits_head: "has_bits t q ([a, b, c] @ bs) \<longleftrightarrow> has_bits t q [a, b, c] \<and> has_bits t (q + 3) bs"
  using has_bits_append [of t q "[a, b, c]" bs] by (simp add: numeral_3_eq_3)

lemma block_head:
  assumes z: "at_block t 0 ch q os z" and h: "has_bits t q [l, a, b]" and small: "l < 2" "a < 2" "b < 2"
  obtains u where "in_block t l ch (q + 3) os u"
    "\<And>n. step n 0 (z\<lparr>zmode := M_TYPEDO\<rparr>) = (if a = 0 \<and> b = 0 then Again (u\<lparr>zmode := M_STORED\<rparr>)
      else if a = 1 \<and> b = 0 then Again ((fixedtables u)\<lparr>zmode := M_LEN_START\<rparr>)
      else if a = 0 \<and> b = 1 then Again (u\<lparr>zmode := M_TABLE\<rparr>) else Again (bad ''invalid block type'' u))"
proof -
  let ?z = "z\<lparr>zmode := M_TYPEDO\<rparr>"
  have ib: "in_block t 0 ch q os ?z" using z by (simp add: at_block_def)
  note d = in_block_decoding [OF ib] and D = decodingD [OF in_block_decoding [OF ib]]
  have "place ?z + 3 \<le> 8 * length t" using has_bits_room [OF d h] D(3) by simp
  then obtain z1 where z1: "\<And>k. need 3 ?z k = k z1" "same_but_bits ?z z1" "synced t z1" "place z1 = place ?z" "3 \<le> bits z1"
    "low_bits 3 z1 = ahead t (place ?z) mod 2 ^ 3" "synced t (drop_bits 3 z1)" "place (drop_bits 3 z1) = place ?z + 3" "bits (drop_bits 3 z1) < 8"
    by (rule need_synced [OF D(1,4)]) blast
  have v: "hold z1 mod 8 = l + 2 * (a + 2 * b)"
    using z1(6) ahead_has_bits [OF D(2) h] small D(3) by (simp add: low_bits_def)
  have hv: "hold z1 mod 2 = l" "hold z1 div 2 mod 4 = a + 2 * b"
  proof -
    have "hold z1 mod 2 = hold z1 mod 8 mod 2" by (simp add: mod_mod_cancel)
    then show "hold z1 mod 2 = l" unfolding v using small(1) by presburger
    have "hold z1 div 2 mod 4 = hold z1 mod 8 div 2" using mod_mult2_eq [of "hold z1" 2 4] by simp
    then show "hold z1 div 2 mod 4 = a + 2 * b" unfolding v using small by simp
  qed
  let ?u = "drop_bits 3 (z1\<lparr>zlast := l\<rparr>)"
  have s: "synced t ?u" "place ?u = q + 3" "bits ?u < 8"
    using z1(7-9) D(3) synced_fields [of ?u "drop_bits 3 z1"] by (simp_all add: drop_bits_def)
  note c = same_but_bits_config [OF z1(2)]
  have "held (concat ch) ?u = held (concat ch) z1" by (simp add: held_def drop_bits_def)
  then have "held (concat ch) ?u" using D(11) held_config [OF c(1)] by simp
  then have "decoding t ch (q + 3) os ?u" using s D c(1-3) config_fields(5) [OF c(1)] by (simp add: decoding_def drop_bits_def)
  moreover have "lendyn ?u = lendyn z" "distdyn ?u = distdyn z" "work ?u = work z" "lens ?u = lens z"
    using c(1) by (simp_all add: config_def drop_bits_def)
  ultimately have ibu: "in_block t l ch (q + 3) os ?u" using ib by (simp add: in_block_def drop_bits_def)
  have db: "drop_bits 2 (drop_bits 1 x) = drop_bits 3 x" for x
    using div_mult2_eq [of "hold x" 2 4] by (simp add: drop_bits_def)
  have dm: "drop_bits 2 (x\<lparr>zmode := m\<rparr>) = (drop_bits 2 x)\<lparr>zmode := m\<rparr>" "drop_bits 2 (fixedtables x) = fixedtables (drop_bits 2 x)"
    "drop_bits 2 (bad e x) = bad e (drop_bits 2 x)" for x m e
    by (simp_all add: drop_bits_def fixedtables_def bad_def)
  have zl: "zlast ?z = 0" using ib by (simp add: in_block_def)
  have k: "hold (drop_bits 1 (z1\<lparr>zlast := l\<rparr>)) mod 4 = a + 2 * b" using hv(2) by (simp add: drop_bits_def)
  have ab: "a = 0 \<or> a = 1" "b = 0 \<or> b = 1" using small by linarith+
  have "step n 0 ?z = (if a = 0 \<and> b = 0 then Again (?u\<lparr>zmode := M_STORED\<rparr>)
      else if a = 1 \<and> b = 0 then Again ((fixedtables ?u)\<lparr>zmode := M_LEN_START\<rparr>)
      else if a = 0 \<and> b = 1 then Again (?u\<lparr>zmode := M_TABLE\<rparr>) else Again (bad ''invalid block type'' ?u))" for n
  proof -
    have s: "step n 0 ?z = do_typedo 0 ?z" by (simp add: step_modes)
    show ?thesis
      unfolding s do_typedo_def z1(1) Let_def hv(1) k dm db using ab zl by auto
  qed
  with ibu show thesis by (rule that)
qed

section \<open>Stored blocks\<close>

lemma bit_list_inj:
  assumes "bit_list xs = bit_list ys" "list_all (\<lambda>b. b < 256) xs" "list_all (\<lambda>b. b < 256) ys"
  shows "xs = ys"
  using assms
proof (induction xs arbitrary: ys)
  case Nil
  then have "length (bit_list ys) = 0" by (metis bit_list_simps(1) list.size(3))
  then show ?case by (simp del: bit_list_simps)
next
  case (Cons x xs)
  then have "8 * length ys = 8 * length (x # xs)" by (metis bit_list_length)
  then obtain y ys' where ys: "ys = y # ys'" by (cases ys) auto
  have "lsb 8 x = lsb 8 y" "bit_list xs = bit_list ys'" using Cons.prems(1) by (simp_all add: ys del: lsb.simps)
  moreover have "x = y" using arg_cong [OF calculation(1), of bits_value] Cons.prems(2,3) by (simp add: ys)
  ultimately show ?case using Cons by (simp add: ys)
qed

lemma bit_list_take_drop: "take (8 * k) (bit_list t) = bit_list (take k t)" "drop (8 * k) (bit_list t) = bit_list (drop k t)"
proof -
  have e: "bit_list t = bit_list (take k t) @ bit_list (drop k t)" by (metis append_take_drop_id bit_list_simps(3))
  show "drop (8 * k) (bit_list t) = bit_list (drop k t)"
  proof (cases "k \<le> length t")
    case True
    then have l: "length (bit_list (take k t)) = 8 * k" by simp
    show ?thesis unfolding e using l by (metis append_eq_conv_conj)
  qed simp
  show "take (8 * k) (bit_list t) = bit_list (take k t)"
  proof (cases "k \<le> length t")
    case True
    then have l: "length (bit_list (take k t)) = 8 * k" by simp
    show ?thesis unfolding e using l by (metis append_eq_conv_conj)
  qed simp
qed

text \<open>Bits that are bytes, at the border of a byte.\<close>

lemma aligned_bytes:
  assumes "all_bytes t" "list_all (\<lambda>b. b < 256) bs" "has_bits t (8 * i) (bit_list bs)"
  shows "drop i t = bs @ drop (i + length bs) t"
proof -
  have "bit_list (take (length bs) (drop i t)) = bit_list bs"
    using assms(3) by (simp add: has_bits_def bit_list_take_drop)
  moreover have "list_all (\<lambda>b. b < 256) (take (length bs) (drop i t))"
    using assms(1) by (auto simp: all_bytes_def list_all_iff dest!: in_set_takeD in_set_dropD)
  ultimately have "take (length bs) (drop i t) = bs" using bit_list_inj assms(2) by blast
  moreover have "drop i t = take (length bs) (drop i t) @ drop (length bs) (drop i t)" by (simp only: append_take_drop_id)
  ultimately show ?thesis by (metis add.commute drop_drop)
qed

lemma pad_buffer: "synced t z \<Longrightarrow> bits z < 8 \<Longrightarrow> pad_length (place z) = bits z"
proof -
  assume s: "synced t z" and b: "bits z < 8"
  have e: "place z + bits z = 8 * next_in z" using place_next [OF s] by simp
  show ?thesis
  proof (cases "bits z = 0")
    case True
    then show ?thesis using e by (simp add: pad_length_def)
  next
    case False
    have "next_in z \<noteq> 0" using e False by (cases "next_in z") simp_all
    then obtain m where m: "next_in z = Suc m" by (cases "next_in z") auto
    have "place z = (8 - bits z) + 8 * m" using e b unfolding m by simp
    then have "place z mod 8 = (8 - bits z) mod 8" by (simp only: mod_mult_self2)
    then have "place z mod 8 = 8 - bits z" using False by simp
    then show ?thesis using False b by (simp add: pad_length_def)
  qed
qed

text \<open>At the border of a byte the buffer is empty.\<close>

lemma decoding_aligned:
  assumes "decoding t ch (8 * i) os z"
  shows "bits z = 0" "hold z = 0" "next_in z = i" "unread z = drop i t"
proof -
  note D = decodingD [OF assms]
  have "8 * next_in z = 8 * i + bits z" using place_next [OF D(1)] D(3) by simp
  then have b: "bits z = 0 \<and> next_in z = i" using D(4) by presburger
  then show "bits z = 0" "next_in z = i" by simp_all
  then show "hold z = 0" "unread z = drop i t" using D(1) by (simp_all add: synced_def unread_def)
qed

text \<open>The bytes of a stored block go out, as many of them in one pass as the chunk takes.\<close>

lemma copy_leads:
  "decoding t ch (8 * i) os z \<Longrightarrow> zmode z = M_COPY \<Longrightarrow> zlength z = length bs \<Longrightarrow> drop i t = bs @ r \<Longrightarrow>
   leads ch z (\<lambda>ch' z'. decoding t ch' (8 * (i + length bs)) (os @ bs) z' \<and> lasting z' = lasting z \<and> zmode z' = M_TYPE)"
proof (induction "length bs" arbitrary: ch i os bs z rule: less_induct)
  case less
  let ?P = "\<lambda>ch' z'. decoding t ch' (8 * (i + length bs)) (os @ bs) z' \<and> lasting z' = lasting z \<and> zmode z' = M_TYPE"
  have go: "leads ch' z' ?P"
    if d': "decoding t ch' (8 * i) os z'" "lasting z' = lasting z" "zmode z' = M_COPY" "zlength z' = length bs" "avail_out z' \<noteq> 0" for ch' z'
  proof (cases "bs = []")
    case True
    have "step n 0 z' = Again (z'\<lparr>zmode := M_TYPE\<rparr>)" for n using d' True by (simp add: step_modes do_copy_def)
    then show ?thesis by (rule leads_step [where c = 0]) (use d' True in \<open>simp add: decoding_fields lasting_def\<close>)
  next
    case False
    note D = decodingD [OF d'(1)] and A = decoding_aligned [OF d'(1)]
    define c where "c = min (length bs) (avail_out z')"
    have c: "0 < c" "c \<le> length bs" "c \<le> avail_out z'" using False d'(5) by (simp_all add: c_def)
    define u where "u = z'\<lparr>outp := outp z' @ take c bs, next_in := i + c, avail_out := avail_out z' - c, zlength := length bs - c\<rparr>"
    have un: "unread z' = bs @ r" using A(4) less.prems(4) by simp
    have s: "step n 0 z' = Again u" for n
    proof -
      have "min (min (zlength z') (avail_in z')) (avail_out z') = c" using un d'(4) by (simp add: c_def avail_in_unread)
      moreover have "take c (drop (next_in z') (inp z')) = take c bs" using un c(2) by (simp add: unread_def)
      ultimately show ?thesis using d' False c(1) A(3) by (simp add: step_modes do_copy_def Let_def u_def)
    qed
    have len: "i + length bs \<le> length t"
    proof -
      have "length (drop i t) = length bs + length r" unfolding less.prems(4) by simp
      moreover have "0 < length bs" using False by simp
      ultimately show ?thesis by (simp del: length_greater_0_conv)
    qed
    have du: "decoding t ch' (8 * (i + c)) (os @ take c bs) u"
    proof (rule decoding_out [OF d'(1)])
      show "synced t u" "place u = 8 * (i + c)" using D(1) A c(2) len by (simp_all add: synced_def place_def u_def)
      have "set (take c bs) \<subseteq> set t"
        using less.prems(4) set_take_subset [of c bs] set_drop_subset [of i t] by auto
      then show "all_bytes (os @ take c bs)" using D(2,10) by (auto simp: all_bytes_def list_all_iff)
    qed (use D c in \<open>simp_all add: u_def config_def\<close>)
    have dr: "drop (i + c) t = drop c bs @ r"
    proof -
      have "drop (i + c) t = drop c (drop i t)" by (simp add: add.commute)
      then show ?thesis using c(2) less.prems(4) by simp
    qed
    have "leads ch' u (\<lambda>ch' z'. decoding t ch' (8 * (i + c + length (drop c bs))) ((os @ take c bs) @ drop c bs) z' \<and> lasting z' = lasting u \<and> zmode z' = M_TYPE)"
      by (rule less.hyps [OF _ du _ _ dr]) (use c False d'(3) in \<open>simp_all add: u_def\<close>)
    moreover have "lasting u = lasting z" using d'(2) by (simp add: u_def lasting_def)
    ultimately have "leads ch' u ?P" using c(2) by simp
    then show ?thesis by (rule leads_then [where c = 0, OF s])
  qed
  show ?case
  proof (cases "avail_out z = 0 \<and> bs \<noteq> []")
    case True
    then have f: "avail_out z = 0" and ne: "bs \<noteq> []" by simp_all
    show ?thesis
      by (rule leads_next_chunk [OF less.prems(1) f]) (use less.prems ne f go in \<open>simp_all add: step_modes do_copy_def\<close>)
  next
    case False
    show ?thesis
    proof (cases "avail_out z = 0")
      case True
      then have e: "bs = []" using False by simp
      have "step n 0 z = Again (z\<lparr>zmode := M_TYPE\<rparr>)" for n using less.prems e by (simp add: step_modes do_copy_def)
      then show ?thesis by (rule leads_step [where c = 0]) (use less.prems e in \<open>simp add: decoding_fields lasting_def\<close>)
    next
      case False
      then show ?thesis using go [OF less.prems(1) refl less.prems(2,3)] by simp
    qed
  qed
qed

text \<open>The length and its complement, from the border of a byte on.\<close>

lemma stored_length_run:
  assumes w: "unread w = [k mod 256, k div 256, 255 - k mod 256, 255 - k div 256] @ r" "k < 65536" "bits w = 0" "hold w = 0"
    and m: "zmode z = M_STORED" "w = drop_bits (bits z mod 8) z"
  shows "runs 2 z (w\<lparr>next_in := next_in w + 4, zlength := k, zmode := M_COPY\<rparr>)"
proof -
  let ?hd = "[k mod 256, k div 256, 255 - k mod 256, 255 - k div 256]"
  let ?v = "le_value ?hd"
  have "?v = k + 65536 * (65535 - k)" using complement [OF w(2)] by (simp add: algebra_simps)
  then have v: "?v mod 65536 = k" "?v div 65536 mod 65536 = 65535 - k" using w(2) by (simp_all del: le_value_simps)
  let ?z2 = "w\<lparr>hold := 0, bits := 0, next_in := next_in w + 4, zlength := k, zmode := M_COPY_START\<rparr>"
  have n: "need 32 w f = f (w\<lparr>hold := ?v, bits := 32, next_in := next_in w + length ?hd\<rparr>)" for f
    by (rule need_whole [OF w(1,3,4)]) simp
  have s1: "step n 0 z = Again ?z2" for n
    unfolding step_modes(3) [OF m(1)] do_stored_def m(2) [symmetric] n using v w(2) by (simp add: init_bits_def Let_def del: le_value_simps)
  have s2: "step n 0 ?z2 = Again (?z2\<lparr>zmode := M_COPY\<rparr>)" for n by (simp add: step_modes)
  have "w\<lparr>hold := hold w, bits := bits w\<rparr> = w" by simp
  then have e: "w\<lparr>hold := 0, bits := 0\<rparr> = w" by (simp only: w(3,4))
  have "?z2\<lparr>zmode := M_COPY\<rparr> = (w\<lparr>hold := 0, bits := 0\<rparr>)\<lparr>next_in := next_in w + 4, zlength := k, zmode := M_COPY\<rparr>" by simp
  then have "?z2\<lparr>zmode := M_COPY\<rparr> = w\<lparr>next_in := next_in w + 4, zlength := k, zmode := M_COPY\<rparr>" unfolding e .
  then show ?thesis using runs_step [OF s1 runs_step [OF s2 runs_refl]] by (simp add: numeral_eq_Suc)
qed

lemma stored_leads:
  assumes z: "at_block t 0 ch q os z" and l: "l < 2" and b: "block_ok os (Stored bs)" "has_bits t q (block_bits q l (Stored bs))"
  shows "leads ch z (\<lambda>ch' z'. at_block t l ch' (q + length (block_bits q l (Stored bs))) (os @ bs) z')"
proof -
  let ?k = "length bs"
  let ?hd = "[?k mod 256, ?k div 256, 255 - ?k mod 256, 255 - ?k div 256]"
  have bs: "?k < 65536" "list_all (\<lambda>b. b < 256) bs" using b(1) by simp_all
  have h: "has_bits t q [l, 0, 0]" "has_bits t (q + 3 + pad_length (q + 3)) (bit_list (?hd @ bs))"
    using b(2) unfolding block_bits.simps unfolding has_bits_head unfolding has_bits_append length_replicate by blast+
  obtain u where u: "in_block t l ch (q + 3) os u" "\<And>n. step n 0 (z\<lparr>zmode := M_TYPEDO\<rparr>) = Again (u\<lparr>zmode := M_STORED\<rparr>)"
    by (rule block_head [OF z h(1) l]) auto
  let ?v = "u\<lparr>zmode := M_STORED\<rparr>"
  have iv: "in_block t l ch (q + 3) os ?v" using u(1) by simp
  note D = decodingD [OF in_block_decoding [OF iv]]
  define w where "w = drop_bits (bits ?v mod 8) ?v"
  have bm: "bits ?v mod 8 = bits ?v" using D(4) by simp
  note dw = drop_bits_synced [OF D(1) order_refl]
  have pad: "pad_length (q + 3) = bits ?v" using pad_buffer [OF D(1,4)] D(3) by simp
  have w: "synced t w" "place w = q + 3 + pad_length (q + 3)" "bits w = 0" unfolding w_def bm pad using dw D(3) by simp_all
  have hold: "hold w = 0" using w(1,3) by (simp add: synced_def)
  define i where "i = next_in w"
  have pl: "place w = 8 * i" using place_next [OF w(1)] w(3) by (simp add: i_def)
  have hd: "list_all (\<lambda>b. b < 256) (?hd @ bs)" using bs by (auto simp: less_mult_imp_div_less)
  have dr: "drop i t = (?hd @ bs) @ drop (i + length (?hd @ bs)) t"
    by (rule aligned_bytes [OF D(2) hd]) (use h(2) w(2) pl in simp)
  have it: "inp w = t" using w(1) by (simp add: synced_def)
  have un: "unread w = ?hd @ bs @ drop (i + length (?hd @ bs)) t"
    unfolding unread_def it i_def [symmetric] using dr by (simp only: append_assoc)
  define z' where "z' = w\<lparr>next_in := i + 4, zlength := ?k, zmode := M_COPY\<rparr>"
  have r: "runs 2 ?v z'"
    unfolding z'_def i_def by (rule stored_length_run [OF un bs(1) w(3) hold]) (simp_all add: w_def)
  have s0: "step n 0 z = Again (z\<lparr>zmode := M_TYPEDO\<rparr>)" for n using z by (simp add: step_modes at_block_def)
  have run: "runs (Suc (Suc 2)) z z'" by (rule runs_step [OF s0 runs_step [OF u(2) r]])
  have dr4: "drop (i + 4) t = bs @ drop (i + length (?hd @ bs)) t"
  proof -
    have "drop (i + 4) t = drop 4 (drop i t)" by (simp add: add.commute)
    also have "\<dots> = bs @ drop (i + length (?hd @ bs)) t" by (subst dr) simp
    finally show ?thesis .
  qed
  have len: "i + 4 \<le> length t"
  proof -
    have "length (drop i t) = 4 + ?k + length (drop (i + length (?hd @ bs)) t)" by (subst dr) simp
    then show ?thesis by simp
  qed
  have cf: "config z' = config ?v" "outp z' = outp ?v" "avail_out z' = avail_out ?v" by (simp_all add: config_def drop_bits_def w_def z'_def)
  have dz: "decoding t ch (8 * (i + 4)) os z'"
    by (rule decoding_moved [OF in_block_decoding [OF iv] _ _ _ cf])
      (use w(1,3) hold len in \<open>simp_all add: synced_def place_def z'_def\<close>)
  have e: "8 * (i + 4 + ?k) = q + length (block_bits q l (Stored bs))" using w(2) pl by simp
  show ?thesis
  proof (rule leads_after [OF run], rule leads_mono [OF copy_leads [OF dz _ _ dr4]], unfold e)
    fix ch' y assume y: "decoding t ch' (q + length (block_bits q l (Stored bs))) (os @ bs) y \<and> lasting y = lasting z' \<and> zmode y = M_TYPE"
    then have "lasting y = lasting ?v" using config_lasting [OF cf(1)] by simp
    then show "at_block t l ch' (q + length (block_bits q l (Stored bs))) (os @ bs) y"
      using in_block_lasting [OF iv] y by (simp add: at_block_def)
  qed (simp_all add: z'_def)
qed

section \<open>Blocks in the fixed codes\<close>

lemma fixed_lens_literals: "fixed_lens = fixed_literals"
proof -
  have m: "map f [i..<j] = replicate (j - i) x" if "\<And>s. i \<le> s \<Longrightarrow> s < j \<Longrightarrow> f s = x" for f :: "nat \<Rightarrow> nat" and i j x
    using that by (intro replicate_eqI) auto
  let ?f = "\<lambda>s::nat. if s < 144 then 8 else if s < 256 then 9 else if s < 280 then 7 else 8 :: nat"
  have "[0..<288] = [0..<144] @ [144..<256] @ [256..<280] @ [280..<288]"
    using upt_add_eq_append [of 0 144 144] upt_add_eq_append [of 144 256 32] upt_add_eq_append [of 256 280 8] by simp
  moreover have "map ?f [0..<144] = replicate (144 - 0) 8" "map ?f [144..<256] = replicate (256 - 144) 9"
    "map ?f [256..<280] = replicate (280 - 256) 7" "map ?f [280..<288] = replicate (288 - 280) 8"
    by (rule m; simp)+
  moreover have "(144::nat) - 0 = 144" "(256::nat) - 144 = 112" "(280::nat) - 256 = 24" "(288::nat) - 280 = 8" by simp_all
  ultimately show ?thesis unfolding fixed_lens_def fixed_literals_def by (simp only: map_append)
qed

lemma longest_numeral: "longest (numeral k) cs = (if cs ! numeral k = 0 then longest (pred_numeral k) cs else numeral k)"
  by (simp add: numeral_eq_Suc)

lemma count_list_replicate: "count_list (replicate n x) y = (if x = y then n else 0)"
  by (induction n) auto

lemma fixed_counts:
  "count_lengths fixed_lens = [0, 0, 0, 0, 0, 0, 0, 24, 152, 112, 0, 0, 0, 0, 0, 0]"
  "count_lengths (replicate 32 5) = [0, 0, 0, 0, 0, 32, 0, 0, 0, 0, 0, 0, 0, 0, 0, 0]"
proof -
  have l: "list_all (\<lambda>l. l < 16) fixed_lens" "list_all (\<lambda>l. l < 16) (replicate 32 (5::nat))" by (simp_all add: fixed_lens_def list_all_iff)
  have n: "cs = map (\<lambda>i. cs ! i) [0..<16]" if "length cs = 16" for cs :: "nat list" using that by (metis map_nth)
  have c: "count_lengths ls = map (count_list ls) [0..<16]" if "list_all (\<lambda>l. l < 16) ls" for ls
    using count_lengths_count [OF that] by (intro nth_equalityI) simp_all
  show "count_lengths fixed_lens = [0, 0, 0, 0, 0, 0, 0, 24, 152, 112, 0, 0, 0, 0, 0, 0]"
    unfolding c [OF l(1)] by (simp add: upt_rec fixed_lens_def count_list_replicate)
  show "count_lengths (replicate 32 5) = [0, 0, 0, 0, 0, 32, 0, 0, 0, 0, 0, 0, 0, 0, 0, 0]"
    unfolding c [OF l(2)] by (simp add: upt_rec count_list_replicate)
qed

lemma fixed_table:
  assumes len: "list_all (\<lambda>l. l < 16) ls" "symbols ls \<noteq> []" "length ls \<le> 288"
    and cs: "code_room 1 (tl (count_lengths ls)) = Some 0" "longest 15 (count_lengths ls) = p"
    and ty: "ty = 1 \<or> ty = 2" "length ls \<le> (if ty = 1 then 288 else 32)" and size: "list_all (\<lambda>l. l \<le> p) ls" "p \<le> 9"
  shows "table_for ty ls p (tr_table (inflate_table ty ls (replicate (2 ^ p) 0) (replicate 288 0) p))"
proof -
  let ?T = "replicate (2 ^ p) 0 :: nat list" and ?w = "replicate 288 0 :: nat list"
  let ?R = "inflate_table ty ls ?T ?w p"
  have w: "length (symbols ls) \<le> length ?w" using symbols_length [of ls] len(3) by simp
  have sized: "table_sized ty ls p ?T" using size ty(1) by (simp add: table_sized_def)
  have root: "root_size ls p = p"
    using symbols_ends(8) [OF len(1) cs(2) [symmetric]] some_lengths [OF len(1,2)] cs(2) by (simp add: root_size_def Let_def)
  have "(2::nat) ^ p \<le> 2 ^ 9" using size(2) by (intro power_increasing) simp_all
  then have full: "\<not> table_full ty (2 ^ root_size ls p)" by (simp add: root table_full_def)
  note ret = inflate_table_small [OF len(1) w len(2) sized cs(1) size(1) full]
  note d = inflate_table_decodes [OF len(1) w len(2) sized ret]
  have "tr_bits ?R = p"
    using ret root unfolding inflate_table_eq [OF len(1,2)] by (auto simp: Let_def cs(1) split: if_splits sum.splits)
  then show ?thesis using d \<open>2 ^ p \<le> 2 ^ 9\<close> ty by (auto simp: table_for_def)
qed

lemma fixed_ready: "table_for 1 fixed_literals 9 fixed_lencode" "table_for 2 fixed_distances 5 fixed_distcode"
proof -
  have l: "list_all (\<lambda>l. l < 16) fixed_lens" "list_all (\<lambda>l. l < 16) (replicate 32 (5::nat))"
    "list_all (\<lambda>l. l \<le> 9) fixed_lens" "list_all (\<lambda>l. l \<le> 5) (replicate 32 (5::nat))"
    by (simp_all add: fixed_lens_def list_all_iff)
  have len: "length fixed_lens = 288" by (simp add: fixed_lens_def)
  have "0 \<in> set (symbols fixed_lens)" "0 \<in> set (symbols (replicate 32 5))"
    by (simp_all add: symbols_mem len) (simp_all add: fixed_lens_def nth_append)
  then have s: "symbols fixed_lens \<noteq> []" "symbols (replicate 32 5) \<noteq> []" by auto
  have "table_for 1 fixed_lens 9 fixed_lencode"
    using fixed_table [OF l(1) s(1), of 9 1] l(3) by (simp add: len fixed_counts fixed_lencode_def longest_numeral Let_def)
  then show "table_for 1 fixed_literals 9 fixed_lencode" by (simp add: fixed_lens_literals)
  show "table_for 2 fixed_distances 5 fixed_distcode"
    using fixed_table [OF l(2) s(2), of 5 2] l(4) by (simp add: fixed_counts fixed_distances_def fixed_distcode_def longest_numeral Let_def)
qed

text \<open>The tokens of a block, when its tables are there.\<close>

lemma tokens_block:
  assumes z: "in_block t l ch q os z" and m: "zmode z = M_LEN_START" and T: "codes_ready ls ds z"
    and ts: "tokens_ok ls ds os ts" "has_bits t q (tokens_bits ls ds ts)"
  shows "leads ch z (\<lambda>ch' z'. at_block t l ch' (q + length (tokens_bits ls ds ts)) (tokens_out os ts) z')"
proof -
  let ?z = "z\<lparr>zmode := M_LEN\<rparr>"
  have ib: "in_block t l ch q os ?z" using z by simp
  have T': "codes_ready ls ds ?z" using T by (simp add: codes_ready_def)
  have s: "step n 0 z = Again ?z" for n by (simp add: code_modes(7) [OF m])
  have "leads ch ?z (\<lambda>ch' z'. at_block t l ch' (q + length (tokens_bits ls ds ts)) (tokens_out os ts) z')"
    by (rule leads_mono [OF tokens_leads [OF in_block_decoding [OF ib] _ T' ts]])
      (use in_block_lasting [OF ib] in \<open>auto simp: at_block_def\<close>)
  then show ?thesis by (rule leads_then [where c = 0, OF s])
qed

lemma fixed_leads:
  assumes z: "at_block t 0 ch q os z" and l: "l < 2" and b: "block_ok os (Fixed ts)" "has_bits t q (block_bits q l (Fixed ts))"
  shows "leads ch z (\<lambda>ch' z'. at_block t l ch' (q + length (block_bits q l (Fixed ts))) (tokens_out os ts) z')"
proof -
  have h: "has_bits t q [l, 1, 0]" "has_bits t (q + 3) (tokens_bits fixed_literals fixed_distances ts)"
    using b(2) unfolding block_bits.simps unfolding has_bits_head by blast+
  obtain u where u: "in_block t l ch (q + 3) os u" "\<And>n. step n 0 (z\<lparr>zmode := M_TYPEDO\<rparr>) = Again ((fixedtables u)\<lparr>zmode := M_LEN_START\<rparr>)"
    by (rule block_head [OF z h(1) l]) auto
  let ?v = "(fixedtables u)\<lparr>zmode := M_LEN_START\<rparr>"
  have iv: "in_block t l ch (q + 3) os ?v"
    using u(1) by (simp add: in_block_def fixedtables_def decoding_def synced_def place_def held_def)
  have T: "codes_ready fixed_literals fixed_distances ?v"
    using fixed_ready by (simp add: codes_ready_def fixedtables_def)
  have ok: "tokens_ok fixed_literals fixed_distances os ts" using b(1) by simp
  have s0: "step n 0 z = Again (z\<lparr>zmode := M_TYPEDO\<rparr>)" for n using z by (simp add: step_modes at_block_def)
  have r: "runs (Suc (Suc 0)) z ?v" by (rule runs_step [OF s0 runs_step [OF u(2) runs_refl]])
  have e: "q + 3 + length (tokens_bits fixed_literals fixed_distances ts) = q + length (block_bits q l (Fixed ts))" by simp
  show ?thesis using leads_after [OF r tokens_block [OF iv _ T ok h(2)]] unfolding e by simp
qed

end
