(* ===== verification/Pako_Dynamic.thy ===== *)
theory Pako_Dynamic
  imports Pako_Blocks
begin

text \<open>
  Blocks with their own codes in \<open>inflate\<close>: the modes \<open>M_TABLE\<close>, \<open>M_LENLENS\<close> and \<open>M_CODELENS\<close>, which read the lengths of the
  codes and build the tables.  Whether a table fits its array is a question to \<open>inflate_table\<close> alone: the answer
  does not depend on what the arrays held before.
\<close>

section \<open>What the arrays held before does not matter\<close>

definition same_control :: "table_state \<Rightarrow> table_state \<Rightarrow> bool" where
  "same_control t t' \<longleftrightarrow> t\<lparr>t_n := []\<rparr> = t'\<lparr>t_n := []\<rparr> \<and> length (t_n t) = length (t_n t')"

lemma same_control_fields:
  assumes "same_control t t'"
  shows "t_cs t' = t_cs t" "t_z t' = t_z t" "t_m t' = t_m t" "t_w t' = t_w t" "t_c t' = t_c t" "t_k t' = t_k t" "t_v t' = t_v t"
    "t_low t' = t_low t" "t_x t' = t_x t" "length (t_n t') = length (t_n t)"
  using assms unfolding same_control_def by (cases t; cases t'; simp)+

lemma fill_length [simp]: "length (fill a b c e t) = length t"
  by (simp add: fill_def foldl_writes(1))

lemma same_control_moves:
  assumes "same_control t t'"
  shows "same_control (stepped ty ls m t) (stepped ty ls m t')" "same_control (t\<lparr>t_w := w\<rparr>) (t'\<lparr>t_w := w\<rparr>)"
    "same_control (open_table g p w k t) (open_table g p w k t')"
  using assms same_control_fields [OF assms]
  by (auto simp: same_control_def stepped_def open_table_def filled_def Let_def)

lemma place_symbols_same:
  "build_ok ty ls r g p (length (t_n t)) \<Longrightarrow> build_ok ty ls r' g p (length (t_n t)) \<Longrightarrow> m < length (symbols ls) \<Longrightarrow>
   table_ok ty ls p m t \<Longrightarrow> table_ok ty ls p m t' \<Longrightarrow> counts_ok ls m (t_cs t) \<Longrightarrow> t_m t = m \<Longrightarrow> same_control t t' \<Longrightarrow>
   isl (place_symbols i ty ls r g p t) = isl (place_symbols i ty ls r' g p t')"
proof (induction i arbitrary: m t t')
  case (Suc i)
  note sc = same_control_fields [OF Suc.prems(8)]
  have b': "build_ok ty ls r' g p (length (t_n t'))" using Suc.prems(2) sc(10) by simp
  have ok': "table_ok ty ls p m t'" "counts_ok ls m (t_cs t')" "t_m t' = m" using Suc.prems(5-7) sc by simp_all
  let ?s = "stepped ty ls m t" and ?s' = "stepped ty ls m t'"
  note ss = same_control_moves(1) [OF Suc.prems(8), of ty ls m] and sf = same_control_fields [OF same_control_moves(1) [OF Suc.prems(8), of ty ls m]]
  note e = place_symbol_eq [OF Suc.prems(1,3,4,6,7), unfolded Let_def] and e' = place_symbol_eq [OF b' Suc.prems(3) ok', unfolded Let_def]
  note o = place_symbol_ok [OF Suc.prems(1,3,4,6,7)] and o' = place_symbol_ok [OF b' Suc.prems(3) ok']
  have go: ?case if n: "place_symbol ty ls r g p t = Inr (False, u)" "place_symbol ty ls r' g p t' = Inr (False, u')" "same_control u u'" for u u'
  proof -
    have l: "Suc m \<noteq> length (symbols ls)" using o n(1) by auto
    then have "isl (place_symbols i ty ls r g p u) = isl (place_symbols i ty ls r' g p u')"
      using o o' n Suc.prems(1,2,3) by (intro Suc.IH [of u "Suc m" u']) (simp_all add: sc(10))
    then show ?thesis by (simp add: n)
  qed
  let ?w = "len_at ls (Suc m)"
  let ?k = "subtable_bits g p (?w - p) (2 ^ (?w - p)) (t_cs ?s)"
  consider (last) "Suc m = length (symbols ls)"
    | (plain) "Suc m \<noteq> length (symbols ls)" "\<not> (p < ?w \<and> Some (t_z ?s mod 2 ^ p) \<noteq> t_low t)"
    | (full) "Suc m \<noteq> length (symbols ls)" "p < ?w \<and> Some (t_z ?s mod 2 ^ p) \<noteq> t_low t" "table_full ty (t_x t + 2 ^ ?k)"
    | (opened) "Suc m \<noteq> length (symbols ls)" "p < ?w \<and> Some (t_z ?s mod 2 ^ p) \<noteq> t_low t" "\<not> table_full ty (t_x t + 2 ^ ?k)"
    by blast
  then show ?case
  proof cases
    case last
    have "place_symbol ty ls r g p t = Inr (True, ?s)" "place_symbol ty ls r' g p t' = Inr (True, ?s')" using last e e' by simp_all
    then show ?thesis by simp
  next
    case plain
    have "place_symbol ty ls r g p t = Inr (False, ?s\<lparr>t_w := ?w\<rparr>)" unfolding e if_not_P [OF plain(1)] if_not_P [OF plain(2)] ..
    moreover have "\<not> (p < ?w \<and> Some (t_z ?s' mod 2 ^ p) \<noteq> t_low t')" using plain(2) unfolding sf(2) sc(8) .
    then have "place_symbol ty ls r' g p t' = Inr (False, ?s'\<lparr>t_w := ?w\<rparr>)" unfolding e' if_not_P [OF plain(1)] by (rule if_not_P)
    ultimately show ?thesis by (rule go) (rule same_control_moves(2) [OF ss])
  next
    case full
    have "place_symbol ty ls r g p t = Inl (t\<lparr>t_n := t_n ?s\<rparr>)"
      unfolding e if_not_P [OF full(1)] if_P [OF full(2)] if_P [OF full(3)] ..
    moreover have "\<exists>x. place_symbol ty ls r' g p t' = Inl x"
      unfolding e' if_not_P [OF full(1)] sf(1,2) sc(8,9) if_P [OF full(2)] if_P [OF full(3)] by blast
    ultimately show ?thesis by auto
  next
    case opened
    have "place_symbol ty ls r g p t = Inr (False, open_table g p ?w ?k ?s)"
      unfolding e if_not_P [OF opened(1)] if_P [OF opened(2)] if_not_P [OF opened(3)] ..
    moreover have "place_symbol ty ls r' g p t' = Inr (False, open_table g p ?w ?k ?s')"
      unfolding e' if_not_P [OF opened(1)] sf(1,2) sc(8,9) if_P [OF opened(2)] if_not_P [OF opened(3)] ..
    ultimately show ?thesis by (rule go) (rule same_control_moves(3) [OF ss])
  qed
qed simp

lemma inflate_table_ret_same:
  assumes len: "list_all (\<lambda>l. l < 16) ls" and some: "symbols ls \<noteq> []" and w: "length (symbols ls) \<le> length wk" "length (symbols ls) \<le> length wk'"
    and sized: "table_sized ty ls b table" "length table' = length table"
    and ret: "tr_ret (inflate_table ty ls table wk b) = 0"
  shows "tr_ret (inflate_table ty ls table' wk' b) = 0"
proof -
  have sized': "table_sized ty ls b table'" using sized by (simp add: table_sized_def)
  note R = inflate_table_eq [OF len some, unfolded Let_def]
  let ?g = "longest 15 (count_lengths ls)" and ?p = "root_size ls b"
  obtain y where y: "code_room 1 (tl (count_lengths ls)) = Some y" "\<not> (0 < y \<and> (ty = 0 \<or> ?g \<noteq> 1))" "\<not> table_full ty (2 ^ ?p)"
    using ret unfolding R by (auto split: option.splits if_splits)
  let ?P = "place_symbols (length ls) ty ls (sorted_symbols ls wk) ?g ?p (table_start ls b table)"
  let ?P' = "place_symbols (length ls) ty ls (sorted_symbols ls wk') ?g ?p (table_start ls b table')"
  have "\<not> isl ?P" using ret y unfolding R by (auto split: sum.splits)
  note s = table_start_ok [OF len w(1) some sized(1) y(1,3)] and s' = table_start_ok [OF len w(2) some sized' y(1,3)]
  have t0: "t_n (table_start ls b T) = T" "t_cs (table_start ls b T) = count_lengths ls" "t_m (table_start ls b T) = 0" for T
    by (simp_all add: table_start_def Let_def)
  have sc: "same_control (table_start ls b table) (table_start ls b table')"
    using sized(2) by (simp add: same_control_def table_start_def Let_def)
  have n0: "0 < length (symbols ls)" using some by simp
  have "isl ?P = isl ?P'"
    by (rule place_symbols_same [of _ _ _ _ _ _ _ 0]) (use s s' sc n0 sized(2) in \<open>simp_all add: t0\<close>)
  then obtain t where "?P' = Inr t" using \<open>\<not> isl ?P\<close> by (cases ?P') simp_all
  then show ?thesis unfolding R y(1) option.case if_not_P [OF y(2)] if_not_P [OF y(3)] by simp
qed

lemma inflate_table_work: "length (tr_work (inflate_table ty ls table wk b)) = length wk"
  unfolding inflate_table_def Let_def by (simp add: sort_symbols_length split: option.split sum.split)

text \<open>When all codes fit the root there are no second tables.\<close>

lemma inflate_table_root:
  assumes len: "list_all (\<lambda>l. l < 16) ls" and w: "length (symbols ls) \<le> length wk" and sized: "table_sized ty ls b table"
    and ret: "tr_ret (inflate_table ty ls table wk b) = 0" and small: "list_all (\<lambda>l. l \<le> b) ls" and s: "coded ls s"
  shows "ls ! s \<le> tr_bits (inflate_table ty ls table wk b)"
proof -
  have some: "symbols ls \<noteq> []" by (rule coded_symbols [OF s])
  note R = inflate_table_eq [OF len some, unfolded Let_def]
  obtain y where y: "code_room 1 (tl (count_lengths ls)) = Some y" "\<not> (0 < y \<and> (ty = 0 \<or> longest 15 (count_lengths ls) \<noteq> 1))"
    "\<not> table_full ty (2 ^ root_size ls b)"
    using ret unfolding R by (auto split: option.splits if_splits)
  have "tr_bits (inflate_table ty ls table wk b) = root_size ls b"
    using ret unfolding R y(1) option.case if_not_P [OF y(2)] if_not_P [OF y(3)] by (auto split: sum.splits)
  moreover have "ls ! s \<le> longest 15 (count_lengths ls)"
  proof -
    have p: "position ls s < length (symbols ls)" "symbols ls ! position ls s = s"
      using symbols_position [of s ls] s by (simp_all add: coded_def)
    then show ?thesis using symbols_ends(6) [OF len refl some_lengths [OF len some] p(1)] by simp
  qed
  moreover have "longest 15 (count_lengths ls) \<le> root_size ls b" by (rule table_start_ok(4) [OF len w some sized y(1,3) small])
  ultimately show ?thesis by simp
qed

section \<open>The counts\<close>

lemma field_bits:
  assumes "synced t z" "n \<le> bits z" "has_bits t (place z) (lsb n x)" "x < 2 ^ n"
  shows "hold z mod 2 ^ n = x"
  using synced_low [OF assms(1,2)] has_bits_number [OF _ assms(3,4)] assms(1) by (simp add: low_bits_def synced_def)

text \<open>Three fields that come one after the other; the buffer has them all.\<close>

lemma table_counts:
  assumes z: "in_block t l ch q os z" and m: "zmode z = M_TABLE" and n: "257 \<le> n1" "n1 \<le> 286" "1 \<le> n2" "n2 \<le> 30" "4 \<le> n3" "n3 \<le> 19"
    and h: "has_bits t q (lsb 5 (n1 - 257))" "has_bits t (q + 5) (lsb 5 (n2 - 1))" "has_bits t (q + 10) (lsb 4 (n3 - 4))"
  obtains z' where "\<And>k. step k 0 z = Again z'" "in_block t l ch (q + 14) os z'" "zmode z' = M_LENLENS" "nlen z' = n1" "ndist z' = n2" "ncode z' = n3" "got z' = 0"
proof -
  note d = in_block_decoding [OF z] and D = decodingD [OF in_block_decoding [OF z]]
  have "place z + 14 \<le> 8 * length t"
    using has_bits_fits [OF h(3)] has_bits_fits [OF h(2)] has_bits_room [OF d h(1)] D(3) by simp
  then obtain z1 where z1: "\<And>k. need 14 z k = k z1" "same_but_bits z z1" "synced t z1" "place z1 = place z" "14 \<le> bits z1"
    "synced t (drop_bits 14 z1)" "place (drop_bits 14 z1) = place z + 14" "bits (drop_bits 14 z1) < 8"
    by (rule need_synced [OF D(1,4)]) blast
  have b: "5 \<le> bits z1" using z1(5) by simp
  note d1 = drop_bits_synced [OF z1(3) b]
  have b2: "5 \<le> bits (drop_bits 5 z1)" using d1(3) z1(5) by simp
  note d2 = drop_bits_synced [OF d1(1) b2]
  have v1: "hold z1 mod 32 = n1 - 257" using field_bits [OF z1(3) b, of "n1 - 257"] h(1) n z1(4) D(3) by simp
  have v2: "hold (drop_bits 5 z1) mod 32 = n2 - 1" using field_bits [OF d1(1) b2, of "n2 - 1"] h(2) n d1(2) z1(4) D(3) by simp
  have "4 \<le> bits (drop_bits 5 (drop_bits 5 z1))" using d2(3) d1(3) z1(5) by simp
  from field_bits [OF d2(1) this, of "n3 - 4"] have v3: "hold (drop_bits 5 (drop_bits 5 z1)) mod 16 = n3 - 4"
    using h(3) n d2(2) d1(2) z1(4) D(3) by (simp add: add.assoc)
  define z' where "z' = (drop_bits 14 z1)\<lparr>nlen := n1, ndist := n2, ncode := n3, got := 0, zmode := M_LENLENS\<rparr>"
  have e: "drop_bits 4 ((drop_bits 5 ((drop_bits 5 (z1\<lparr>nlen := n1\<rparr>))\<lparr>ndist := n2\<rparr>))\<lparr>ncode := n3\<rparr>) =
      (drop_bits 14 z1)\<lparr>nlen := n1, ndist := n2, ncode := n3\<rparr>"
    using div_mult2_eq [of "hold z1" "32 * 32" 16] div_mult2_eq [of "hold z1" 32 32] by (simp add: drop_bits_def)
  have "step k 0 z = Again z'" for k
  proof -
    have "257 + hold z1 mod 32 = n1" "1 + hold (drop_bits 5 (z1\<lparr>nlen := n1\<rparr>)) mod 32 = n2"
      "4 + hold (drop_bits 5 ((drop_bits 5 (z1\<lparr>nlen := n1\<rparr>))\<lparr>ndist := n2\<rparr>)) mod 16 = n3"
      using v1 v2 v3 n by (simp_all add: drop_bits_def)
    moreover have "\<not> (286 < n1 \<or> 30 < n2)" using n by simp
    moreover have "step k 0 z = do_table z" using m by (simp add: step_def)
    ultimately show ?thesis by (simp add: do_table_def z1(1) Let_def e z'_def)
  qed
  moreover have "in_block t l ch (q + 14) os z'"
  proof (rule in_block_config [OF z])
    note c = same_but_bits_config [OF z1(2)]
    show "config z' = config z" using c(1) by (simp add: config_def z'_def drop_bits_def)
    then show "decoding t ch (q + 14) os z'"
      by (intro decoding_moved [OF d]) (use z1(6-8) D(3) c synced_fields [of z' "drop_bits 14 z1"] in \<open>simp_all add: z'_def drop_bits_def\<close>)
  qed
  ultimately show thesis using that by (simp add: z'_def)
qed

section \<open>The code for lengths\<close>

text \<open>A state inside a block with other contents of \<open>lens\<close>.\<close>

lemma in_block_lens:
  assumes "in_block t l ch q os z" "config z' = config (z\<lparr>lens := lens z'\<rparr>)" "length (lens z') = length (lens z)" "decoding t ch q' os z'"
  shows "in_block t l ch q' os z'"
  using assms(1,3,4) config_fields [OF assms(2)] by (simp add: in_block_def)

definition put_lens :: "nat list \<Rightarrow> nat list \<Rightarrow> nat list \<Rightarrow> nat list" where
  "put_lens cs ks ls = foldl (\<lambda>ls k. ls[clen_order ! k := cs ! (clen_order ! k)]) ls ks"

lemma put_lens_simps [simp]:
  "put_lens cs [] ls = ls" "put_lens cs (k # ks) ls = put_lens cs ks (ls[clen_order ! k := cs ! (clen_order ! k)])"
  by (simp_all add: put_lens_def)

lemma put_lens_length [simp]: "length (put_lens cs ks ls) = length ls"
  by (induction ks arbitrary: ls) simp_all

lemma put_lens_nth: "j < length ls \<Longrightarrow> put_lens cs ks ls ! j = (if j \<in> (\<lambda>k. clen_order ! k) ` set ks then cs ! j else ls ! j)"
  by (induction ks arbitrary: ls) (auto simp: nth_list_update)

lemma put_lens_all:
  assumes "length cs = 19" "19 \<le> length ls"
  shows "take 19 (put_lens cs [0..<19] ls) = cs"
proof (rule nth_equalityI)
  show "length (take 19 (put_lens cs [0..<19] ls)) = length cs" using assms by simp
  have "(\<lambda>k. clen_order ! k) ` {0..<19} = {0..<19}"
    by (simp add: atLeast0LessThan [symmetric] atLeastLessThan_upt set_eq_iff upt_rec clen_order_def) arith
  then show "take 19 (put_lens cs [0..<19] ls) ! j = cs ! j" if "j < length (take 19 (put_lens cs [0..<19] ls))" for j
    using that assms by (simp add: put_lens_nth)
qed

lemma code_order_is: "k < 19 \<Longrightarrow> at code_order k = clen_order ! k"
  by (simp add: at_def code_order_def clen_order_def)

lemma read_code_lens_run:
  "in_block t l ch q os z \<Longrightarrow> got z \<le> ncode z \<Longrightarrow> ncode z \<le> 19 \<Longrightarrow> list_all (\<lambda>l. l < 8) cs \<Longrightarrow> length cs = 19 \<Longrightarrow>
   has_bits t q (concat (map (\<lambda>k. lsb 3 (cs ! (clen_order ! k))) [got z..<ncode z])) \<Longrightarrow>
   \<exists>z'. read_code_lens z = (True, z') \<and> in_block t l ch (q + 3 * (ncode z - got z)) os z' \<and> lens z' = put_lens cs [got z..<ncode z] (lens z) \<and>
     got z' = ncode z \<and> config z' = config (z\<lparr>lens := lens z'\<rparr>) \<and> nlen z' = nlen z \<and> ndist z' = ndist z"
proof (induction "ncode z - got z" arbitrary: z q)
  case 0
  then show ?case by (intro exI [of _ z]) (simp add: read_code_lens.simps [of z])
next
  case (Suc n)
  note z = Suc.prems(1)
  note d = in_block_decoding [OF z] and D = decodingD [OF in_block_decoding [OF z]]
  have g: "got z < ncode z" using Suc.hyps(2) by simp
  let ?i = "clen_order ! got z"
  have i: "?i < 19"
  proof -
    have "?i \<in> set clen_order" using g Suc.prems(3) by (intro nth_mem) (simp add: clen_order_def)
    then show ?thesis by (auto simp: clen_order_def)
  qed
  have c8: "cs ! ?i < 2 ^ 3" using Suc.prems(4,5) i by (simp add: list_all_length)
  have h: "has_bits t q (lsb 3 (cs ! ?i))" "has_bits t (q + 3) (concat (map (\<lambda>k. lsb 3 (cs ! (clen_order ! k))) [Suc (got z)..<ncode z]))"
    using Suc.prems(6) g by (simp_all add: upt_conv_Cons has_bits_append del: lsb.simps)
  have "place z + 3 \<le> 8 * length t" using has_bits_room [OF d h(1)] D(3) by simp
  then obtain z1 where z1: "pull 3 z = (True, z1)" "refilled t z z1" "3 \<le> bits z1" "bits z1 < 3 + 8 \<or> bits z1 = bits z"
    using pull_synced [OF D(1)] by blast
  have r: "same_but_bits z z1" "synced t z1" "place z1 = place z" using z1(2) by (simp_all add: refilled_def)
  have v: "hold z1 mod 8 = cs ! ?i" using field_bits [OF r(2) z1(3), of "cs ! ?i"] h(1) c8 r(3) D(3) by simp
  define u where "u = drop_bits 3 (z\<lparr>hold := hold z1, bits := bits z1, next_in := next_in z1, lens := (lens z)[?i := cs ! ?i], got := got z + 1\<rparr>)"
  note dz = drop_bits_synced [OF r(2) z1(3)]
  have inp: "inp z1 = inp z" using r(1) unfolding same_but_bits_def by auto
  have su: "synced t u" "place u = q + 3"
    using dz r(3) D(3) synced_fields [of u "drop_bits 3 z1"] inp by (simp_all add: u_def drop_bits_def)
  have bu: "bits u < 8" using z1(4) D(4) by (auto simp: u_def drop_bits_def)
  have cu: "config u = config (z\<lparr>lens := lens u\<rparr>)" "length (lens u) = length (lens z)" "outp u = outp z" "avail_out u = avail_out z" "room u = room z" "dmax u = dmax z"
    "lens u = (lens z)[?i := cs ! ?i]" "got u = Suc (got z)" "ncode u = ncode z" "nlen u = nlen z" "ndist u = ndist z"
    using D(5) by (simp_all add: u_def drop_bits_def config_def)
  have "held (concat ch) u" using D(11) unfolding held_config [OF cu(1)] by (simp add: held_def)
  then have "decoding t ch (q + 3) os u" using d su bu cu by (simp add: decoding_def)
  from in_block_lens [OF z cu(1,2) this] have ib: "in_block t l ch (q + 3) os u" .
  have n: "n = ncode u - got u" and g': "got u \<le> ncode u" using Suc.hyps(2) g by (simp_all add: cu)
  have h': "has_bits t (q + 3) (concat (map (\<lambda>k. lsb 3 (cs ! (clen_order ! k))) [got u..<ncode u]))" using h(2) by (simp add: cu)
  obtain z' where z': "read_code_lens u = (True, z')" "in_block t l ch (q + 3 + 3 * (ncode u - got u)) os z'"
    "lens z' = put_lens cs [got u..<ncode u] (lens u)" "got z' = ncode u" "config z' = config (u\<lparr>lens := lens z'\<rparr>)" "nlen z' = nlen u" "ndist z' = ndist u"
    using Suc.hyps(1) [OF n ib g' Suc.prems(3) [folded cu(9)] Suc.prems(4,5) h'] by blast
  have e: "read_code_lens z = read_code_lens u"
    using g z1(1) v code_order_is [of "got z"] Suc.prems(3) by (simp add: read_code_lens.simps [of z] u_def)
  have c: "config z' = config (z\<lparr>lens := lens z'\<rparr>)" using z'(5) cu(1) by (simp add: config_def)
  have p: "q + 3 + 3 * (ncode u - got u) = q + 3 * (ncode z - got z)" using g by (simp add: cu)
  show ?case
    using z' g unfolding p by (intro exI [of _ z']) (simp add: e c cu upt_conv_Cons)
qed

definition length_code_fits :: "nat list \<Rightarrow> bool" where
  "length_code_fits cs \<longleftrightarrow> tr_ret (inflate_table 0 cs (replicate 852 0) (replicate 288 0) 7) = 0"

lemma small_16: "list_all (\<lambda>l. l < (8::nat)) cs \<Longrightarrow> list_all (\<lambda>l. l < 16) cs \<and> list_all (\<lambda>l. l \<le> 7) cs"
  by (auto simp: list_all_iff)

lemma zeros_put:
  assumes "list_all (\<lambda>k. cs ! (clen_order ! k) = 0) ks" "list_all (\<lambda>k. k < 19) ks"
  shows "foldl (\<lambda>ls k. ls[at code_order k := 0]) ls ks = put_lens cs ks ls"
  using assms by (induction ks arbitrary: ls) (simp_all add: code_order_is)

lemma lenlens_run:
  assumes z: "in_block t l ch q os z" and m: "zmode z = M_LENLENS" and g: "got z = 0" and n: "4 \<le> ncode z" "ncode z \<le> 19"
    and cs: "length cs = 19" "list_all (\<lambda>l. l < 8) cs" "list_all (\<lambda>k. cs ! (clen_order ! k) = 0) [ncode z..<19]" "length_code_fits cs" "symbols cs \<noteq> []"
    and h: "has_bits t q (concat (map (\<lambda>k. lsb 3 (cs ! (clen_order ! k))) [0..<ncode z]))"
  obtains z' where "\<And>k. step k 0 z = Again z'" "in_block t l ch (q + 3 * ncode z) os z'" "zmode z' = M_CODELENS" "got z' = 0"
    "nlen z' = nlen z" "ndist z' = ndist z" "table_for 0 cs (lenbits z') (lencode z')" "length (lencode z') = 852"
    "\<And>s. coded cs s \<Longrightarrow> cs ! s \<le> lenbits z'"
proof -
  obtain z1 where z1: "read_code_lens z = (True, z1)" "in_block t l ch (q + 3 * (ncode z - got z)) os z1" "lens z1 = put_lens cs [got z..<ncode z] (lens z)"
    "got z1 = ncode z" "config z1 = config (z\<lparr>lens := lens z1\<rparr>)" "nlen z1 = nlen z" "ndist z1 = ndist z"
    using read_code_lens_run [OF z _ n(2) cs(2,1)] h by (auto simp: g)
  define ls where "ls = put_lens cs [0..<19] (lens z)"
  have "[0..<19] = [0..<ncode z] @ [ncode z..<19]" using upt_add_eq_append [of 0 "ncode z" "19 - ncode z"] n by simp
  then have ls: "foldl (\<lambda>ls k. ls[at code_order k := 0]) (lens z1) [got z1..<19] = ls"
    using zeros_put [OF cs(3), of "lens z1"] by (simp add: z1(3,4) g ls_def put_lens_def list_all_iff)
  have l320: "length (lens z) = 320" using z by (simp add: in_block_def)
  have tk: "take 19 ls = cs" unfolding ls_def by (rule put_lens_all [OF cs(1)]) (simp add: l320)
  have ib1: "in_block t l ch (q + 3 * ncode z) os z1" using z1(2) by (simp add: g)
  have w: "length (work z1) = 288" "length (lendyn z1) = 852" using ib1 by (simp_all add: in_block_def)
  note sm = small_16 [OF cs(2)]
  have sized: "table_sized 0 cs 7 (lendyn z1)" "table_sized 0 cs 7 (replicate 852 0)" using sm cs(1) w by (simp_all add: table_sized_def)
  have wk: "length (symbols cs) \<le> length (work z1)" "length (symbols cs) \<le> length (replicate 288 (0::nat))"
    using symbols_length [of cs] cs(1) w by simp_all
  let ?R = "inflate_table 0 cs (lendyn z1) (work z1) 7"
  have ret: "tr_ret ?R = 0"
    by (rule inflate_table_ret_same [OF conjunct1 [OF sm] cs(5) wk(2,1) sized(2)]) (use cs(4) w in \<open>simp_all add: length_code_fits_def\<close>)
  note dec = inflate_table_decodes [OF conjunct1 [OF sm] wk(1) cs(5) sized(1) ret]
  have T: "table_for 0 cs (tr_bits ?R) (tr_table ?R)" using dec cs(1) w by (simp add: table_for_def)
  define z' where "z' = z1\<lparr>lens := ls, lencode := tr_table ?R, lendyn := tr_table ?R, work := tr_work ?R, lenbits := tr_bits ?R, got := 0, zmode := M_CODELENS\<rparr>"
  have "step k 0 z = Again z'" for k
  proof -
    have "step k 0 z = do_lenlens z" using m by (simp add: step_def)
    then show ?thesis using ret by (simp add: do_lenlens_def z1(1) ls tk Let_def z'_def)
  qed
  moreover have "in_block t l ch (q + 3 * ncode z) os z'"
    using ib1 dec(2) w l320 inflate_table_work [of 0 cs "lendyn z1" "work z1" 7]
    by (simp add: in_block_def z'_def decoding_def synced_def place_def held_def ls_def)
  moreover have "cs ! s \<le> lenbits z'" if "coded cs s" for s
    using inflate_table_root [OF conjunct1 [OF sm] wk(1) sized(1) ret conjunct2 [OF sm] that] by (simp add: z'_def)
  ultimately show thesis using that [of z'] T dec(2) w z1(6,7) by (simp add: z'_def)
qed

section \<open>The lengths\<close>

text \<open>The lengths read so far.\<close>

definition lens_read :: "nat list \<Rightarrow> zstream \<Rightarrow> bool" where
  "lens_read ls z \<longleftrightarrow> got z = length ls \<and> take (length ls) (lens z) = ls \<and> length ls \<le> length (lens z)"

lemma set_range: "i + c \<le> length ls \<Longrightarrow> foldl (\<lambda>ls k. ls[k := y]) ls [i..<i + c] = take i ls @ replicate c y @ drop (i + c) ls"
proof (induction c)
  case (Suc c)
  then have "foldl (\<lambda>ls k. ls[k := y]) ls [i..<i + Suc c] = (take i ls @ replicate c y @ drop (i + c) ls)[i + c := y]" by simp
  also have "\<dots> = take i ls @ replicate (Suc c) y @ drop (i + Suc c) ls"
  proof (rule nth_equalityI)
    fix j
    assume "j < length ((take i ls @ replicate c y @ drop (i + c) ls)[i + c := y])"
    then show "(take i ls @ replicate c y @ drop (i + c) ls)[i + c := y] ! j = (take i ls @ replicate (Suc c) y @ drop (i + Suc c) ls) ! j"
      using Suc.prems by (auto simp: nth_append nth_list_update nth_Cons' split: if_splits)
  qed (use Suc.prems in simp)
  finally show ?case .
qed simp

lemma lens_read_set:
  assumes "lens_read ls z" "length ls + c \<le> length (lens z)"
  shows "lens_read (ls @ replicate c y) (set_lens c y z)" "length (lens (set_lens c y z)) = length (lens z)"
proof -
  have g: "got z = length ls" "take (length ls) (lens z) = ls" using assms(1) by (simp_all add: lens_read_def)
  have e: "lens (set_lens c y z) = ls @ replicate c y @ drop (length ls + c) (lens z)"
    using set_range [of "length ls" c "lens z" y] assms(2) by (simp add: set_lens_def g)
  show "length (lens (set_lens c y z)) = length (lens z)" unfolding e using assms(2) by simp
  show "lens_read (ls @ replicate c y) (set_lens c y z)"
    using assms(2) by (simp add: lens_read_def e) (simp add: set_lens_def g)
qed

text \<open>The symbol of a length or of a repetition.\<close>

lemma length_symbol:
  assumes d: "decoding t ch q os z" and T: "table_for 0 cs (lenbits z) (lencode z)" and s: "coded cs s" "cs ! s \<le> lenbits z" "has_bits t q (code_bits cs s)"
  obtains z1 where "pull_entry (\<lambda>z. root_entry (lencode z) (lenbits z) z) 0 z = (Some (sym_entry 0 (cs ! s) s), z1)"
    "same_but_bits z z1" "synced t z1" "place z1 = q" "cs ! s \<le> bits z1" "bits z1 < cs ! s + 8" "entry_bits (sym_entry 0 (cs ! s) s) = cs ! s"
    "entry_val (sym_entry 0 (cs ! s) s) = s"
proof -
  note D = decodingD [OF d]
  have b: "begins cs s (ahead t (place z))" using has_bits_begins [OF D(2) s(3,1)] D(3) by simp
  have r: "place z + cs ! s \<le> 8 * length t" using has_bits_room [OF d s(3)] D(3) by simp
  let ?look = "\<lambda>z. root_entry (lencode z) (lenbits z) z"
  have look: "\<forall>u. same_but_bits z u \<longrightarrow> ?look u = at (lencode z) (hold u mod 2 ^ lenbits z)"
  proof (intro allI impI)
    fix u assume "same_but_bits z u"
    from same_but_bits_tables [OF this] show "?look u = at (lencode z) (hold u mod 2 ^ lenbits z)"
      by (simp add: root_entry_def low_bits_def)
  qed
  obtain z1 where z1: "pull_entry ?look 0 z = (Some (at (lencode z) (ahead t (place z) mod 2 ^ lenbits z)), z1)" "refilled t z z1"
    "min (cs ! s) (lenbits z) \<le> bits z1" "bits z1 < min (cs ! s) (lenbits z) + 8 \<or> bits z1 = bits z"
    by (rule root_read [OF D(1) T b r look])
  have e: "at (lencode z) (ahead t (place z) mod 2 ^ lenbits z) = sym_entry 0 (cs ! s) s"
    by (rule decodes_root [OF table_forD(1) [OF T] b s(2)])
  have m: "min (cs ! s) (lenbits z) = cs ! s" using s(2) by simp
  note en = sym_entry_bits [OF begins_symbol(1) [OF T b], of 0 "cs ! s"]
  show thesis
    by (rule that [of z1]) (use z1 D(3,4) en in \<open>auto simp: e m refilled_def sym_val_def\<close>)
qed

text \<open>What the symbols 16, 17 and 18 stand for: the extra bits and the shortest run.\<close>

definition run_bits :: "nat \<Rightarrow> nat" where
  "run_bits s = (if s = 16 then 2 else if s = 17 then 3 else 7)"

definition run_least :: "nat \<Rightarrow> nat" where
  "run_least s = (if s = 16 \<or> s = 17 then 3 else 11)"

lemma one_length:
  assumes z: "in_block t l ch q os z" and T: "table_for 0 cs (lenbits z) (lencode z)" and root: "cs ! s \<le> lenbits z"
    and s: "s < 16" "coded cs s" "has_bits t q (code_bits cs s)" and ls: "lens_read ls z" "length ls < length (lens z)"
  obtains z' where "lens_round z = Lens_go z'" "in_block t l ch (q + cs ! s) os z'" "lens_read (ls @ [s]) z'" "config z' = config (z\<lparr>lens := lens z'\<rparr>)"
    "nlen z' = nlen z" "ndist z' = ndist z" "length (lens z') = length (lens z)"
proof -
  note d = in_block_decoding [OF z]
  obtain z1 where z1: "pull_entry (\<lambda>z. root_entry (lencode z) (lenbits z) z) 0 z = (Some (sym_entry 0 (cs ! s) s), z1)"
    "same_but_bits z z1" "synced t z1" "place z1 = q" "cs ! s \<le> bits z1" "bits z1 < cs ! s + 8" "entry_bits (sym_entry 0 (cs ! s) s) = cs ! s"
    "entry_val (sym_entry 0 (cs ! s) s) = s"
    by (rule length_symbol [OF d T s(2) root s(3)])
  define u where "u = drop_bits (cs ! s) z1"
  note dz = drop_bits_synced [OF z1(3,5), folded u_def]
  note c = same_but_bits_config [OF same_but_bits_trans [OF z1(2) same_but_bits_basic(2)], of "cs ! s", folded u_def]
  note f = same_but_bits_fields [OF same_but_bits_trans [OF z1(2) same_but_bits_basic(2)], of "cs ! s", folded u_def]
  have du: "decoding t ch (q + cs ! s) os u" using decoding_moved [OF d dz(1,2) _ c(1-3)] dz(3) z1(4,6) by simp
  have lu: "lens_read ls u" "length ls + 1 \<le> length (lens u)" using ls f by (simp_all add: lens_read_def)
  define z' where "z' = set_lens 1 s u"
  note sl = lens_read_set [OF lu, of s, folded z'_def]
  have cz: "config z' = config (z\<lparr>lens := lens z'\<rparr>)" using c(1) by (simp add: z'_def set_lens_def config_def)
  have dz': "decoding t ch (q + cs ! s) os z'" using du by (simp add: z'_def set_lens_def decoding_def synced_def place_def held_def)
  have len: "length (lens z') = length (lens z)" using sl(2) f(5) by simp
  have "lens_round z = Lens_go z'"
    using s(1) by (simp add: lens_round_def z1(1,7,8) Let_def z'_def u_def)
  moreover have "nlen z' = nlen z" "ndist z' = ndist z" using f(2,3) by (simp_all add: z'_def set_lens_def)
  ultimately show thesis using that in_block_lens [OF z cz len dz'] sl(1) cz len by simp
qed

lemma run_of_lengths:
  assumes z: "in_block t l ch q os z" and T: "table_for 0 cs (lenbits z) (lencode z)" and root: "cs ! s \<le> lenbits z"
    and s: "16 \<le> s" "s \<le> 18" "coded cs s" "has_bits t q (code_bits cs s)" "has_bits t (q + cs ! s) (lsb (run_bits s) x)" "x < 2 ^ run_bits s"
    and ls: "lens_read ls z" "length ls + (run_least s + x) \<le> nlen z + ndist z" "nlen z + ndist z \<le> length (lens z)" "s = 16 \<longrightarrow> ls \<noteq> []"
  obtains z' where "lens_round z = Lens_go z'" "in_block t l ch (q + cs ! s + run_bits s) os z'"
    "lens_read (ls @ replicate (run_least s + x) (if s = 16 then last ls else 0)) z'" "config z' = config (z\<lparr>lens := lens z'\<rparr>)"
    "nlen z' = nlen z" "ndist z' = ndist z" "length (lens z') = length (lens z)"
proof -
  note d = in_block_decoding [OF z] and D = decodingD [OF in_block_decoding [OF z]]
  obtain z1 where z1: "pull_entry (\<lambda>z. root_entry (lencode z) (lenbits z) z) 0 z = (Some (sym_entry 0 (cs ! s) s), z1)"
    "same_but_bits z z1" "synced t z1" "place z1 = q" "cs ! s \<le> bits z1" "bits z1 < cs ! s + 8" "entry_bits (sym_entry 0 (cs ! s) s) = cs ! s"
    "entry_val (sym_entry 0 (cs ! s) s) = s"
    by (rule length_symbol [OF d T s(3) root s(4)])
  let ?m = "cs ! s" and ?k = "run_bits s"
  have "q + ?m \<le> 8 * length t" using has_bits_room [OF d s(4)] by simp
  then have "place z1 + (?m + ?k) \<le> 8 * length t" using has_bits_fits [OF s(5)] z1(4) by simp
  then obtain z2 where z2: "pull (?m + ?k) z1 = (True, z2)" "refilled t z1 z2" "?m + ?k \<le> bits z2" "bits z2 < ?m + ?k + 8 \<or> bits z2 = bits z1"
    using pull_synced [OF z1(3)] by blast
  have r: "same_but_bits z1 z2" "synced t z2" "place z2 = q" using z2(2) z1(4) by (simp_all add: refilled_def)
  define v where "v = drop_bits ?m z2"
  have mb: "?m \<le> bits z2" using z2(3) by simp
  note dv = drop_bits_synced [OF r(2) mb, folded v_def]
  have kb: "?k \<le> bits v" using dv(3) z2(3) by simp
  have val: "low_bits ?k v = x" using field_bits [OF dv(1) kb _ s(6)] s(5) dv(2) r(3) by (simp add: low_bits_def)
  define u where "u = drop_bits ?k v"
  note du = drop_bits_synced [OF dv(1) kb, folded u_def]
  have sv: "same_but_bits z v" unfolding v_def by (rule same_but_bits_trans [OF z1(2) same_but_bits_trans [OF r(1) same_but_bits_basic(2)]])
  have su: "same_but_bits z u" unfolding u_def by (rule same_but_bits_trans [OF sv same_but_bits_basic(2)])
  note c = same_but_bits_config [OF su] and f = same_but_bits_fields [OF su] and fv = same_but_bits_fields [OF sv]
  have "bits u < 8" using du(3) dv(3) z2(4) z1(6) by auto
  then have dec: "decoding t ch (q + ?m + ?k) os u" using decoding_moved [OF d du(1) _ _ c(1-3)] du(2) dv(2) r(3) by simp
  let ?c = "run_least s + x" and ?y = "if s = 16 then last ls else 0"
  have lu: "lens_read ls u" "length ls + ?c \<le> length (lens u)" using ls f by (simp_all add: lens_read_def)
  define z' where "z' = set_lens ?c ?y u"
  note sl = lens_read_set [OF lu, of ?y, folded z'_def]
  have g: "got z = length ls" "take (length ls) (lens z) = ls" "length ls \<le> length (lens z)" using ls(1) by (simp_all add: lens_read_def)
  have y: "(if s = 16 then at (lens v) (got v - 1) else 0) = ?y"
  proof -
    have "at (lens z) (length ls - 1) = last ls" if "ls \<noteq> []"
    proof -
      have i: "length ls - 1 < length ls" using that by simp
      then have "at (lens z) (length ls - 1) = lens z ! (length ls - 1)" using g(3) by (simp add: at_def)
      also have "\<dots> = take (length ls) (lens z) ! (length ls - 1)" using i by simp
      finally show ?thesis using that by (simp add: g(2) last_conv_nth)
    qed
    then show ?thesis using ls(4) by (simp add: fv g(1))
  qed
  have no: "\<not> (s = 16 \<and> got v = 0)" using ls(4) by (auto simp: fv g(1))
  have tot: "\<not> nlen v + ndist v < got u + ?c" using ls(2) by (simp add: f fv g(1))
  have "lens_round z = repeat_lens ?m ?y (run_least s) ?k (nlen v + ndist v) v"
  proof -
    have k: "(if s = 16 then 2 else if s = 17 then 3 else 7) = ?k" by (simp add: run_bits_def)
    have n: "\<not> s < 16" using s(1) by simp
    show ?thesis
      unfolding lens_round_def z1(1) prod.case option.case Let_def z1(7,8) k z2(1) bool.case if_not_P [OF n] v_def [symmetric] if_not_P [OF no] y
        run_least_def ..
  qed
  also have "\<dots> = Lens_go z'" using tot by (simp add: repeat_lens_def val Let_def u_def [symmetric] z'_def)
  finally have round: "lens_round z = Lens_go z'" .
  have cz: "config z' = config (z\<lparr>lens := lens z'\<rparr>)" using c(1) by (simp add: z'_def set_lens_def config_def)
  have dz': "decoding t ch (q + ?m + ?k) os z'" using dec by (simp add: z'_def set_lens_def decoding_def synced_def place_def held_def)
  have len: "length (lens z') = length (lens z)" using sl(2) f(5) by simp
  have "nlen z' = nlen z" "ndist z' = ndist z" using f(2,3) by (simp_all add: z'_def set_lens_def)
  then show thesis using that round in_block_lens [OF z cz len dz'] sl(1) cz len by simp
qed

lemma clen_round:
  assumes z: "in_block t l ch q os z" and T: "table_for 0 cs (lenbits z) (lencode z)" and root: "\<And>s. coded cs s \<Longrightarrow> cs ! s \<le> lenbits z"
    and e: "clen_ok cs ls e" "has_bits t q (clen_bits cs e)"
    and ls: "lens_read ls z" "length (clen_out ls e) \<le> nlen z + ndist z" "nlen z + ndist z \<le> length (lens z)"
  obtains z' where "lens_round z = Lens_go z'" "in_block t l ch (q + length (clen_bits cs e)) os z'" "lens_read (clen_out ls e) z'"
    "config z' = config (z\<lparr>lens := lens z'\<rparr>)" "nlen z' = nlen z" "ndist z' = ndist z" "length (lens z') = length (lens z)"
proof (cases e)
  case (Len s)
  have s: "s < 16" "coded cs s" "has_bits t q (code_bits cs s)" "length ls < length (lens z)" using e ls by (simp_all add: Len)
  show thesis by (rule one_length [OF z T root [OF s(2)] s(1-3) ls(1) s(4)]) (rule that, assumption, simp_all add: Len)
next
  case (Rep x)
  have s: "coded cs 16" "has_bits t q (code_bits cs 16)" "has_bits t (q + cs ! 16) (lsb (run_bits 16) x)" "x < 2 ^ run_bits 16"
    "length ls + (run_least 16 + x) \<le> nlen z + ndist z"
    using e ls by (simp_all add: Rep has_bits_append run_bits_def run_least_def del: lsb.simps)
  show thesis
    by (rule run_of_lengths [OF z T root [OF s(1)] _ _ s(1-4) ls(1) s(5) ls(3)], simp_all, (use e in \<open>simp add: Rep\<close>))
      (rule that, assumption, simp_all add: Rep run_bits_def run_least_def add.assoc)
next
  case (Zeros x)
  have s: "coded cs 17" "has_bits t q (code_bits cs 17)" "has_bits t (q + cs ! 17) (lsb (run_bits 17) x)" "x < 2 ^ run_bits 17"
    "length ls + (run_least 17 + x) \<le> nlen z + ndist z"
    using e ls by (simp_all add: Zeros has_bits_append run_bits_def run_least_def del: lsb.simps)
  show thesis
    by (rule run_of_lengths [OF z T root [OF s(1)] _ _ s(1-4) ls(1) s(5) ls(3)], simp_all)
      (rule that, assumption, simp_all add: Zeros run_bits_def run_least_def add.assoc)
next
  case (Many x)
  have s: "coded cs 18" "has_bits t q (code_bits cs 18)" "has_bits t (q + cs ! 18) (lsb (run_bits 18) x)" "x < 2 ^ run_bits 18"
    "length ls + (run_least 18 + x) \<le> nlen z + ndist z"
    using e ls by (simp_all add: Many has_bits_append run_bits_def run_least_def del: lsb.simps)
  show thesis
    by (rule run_of_lengths [OF z T root [OF s(1)] _ _ s(1-4) ls(1) s(5) ls(3)], simp_all)
      (rule that, assumption, simp_all add: Many run_bits_def run_least_def add.assoc)
qed

lemma clen_out_longer: "length ls < length (clen_out ls e)"
  by (cases e) simp_all

lemma read_lens_run:
  "in_block t l ch q os z \<Longrightarrow> table_for 0 cs (lenbits z) (lencode z) \<Longrightarrow> (\<And>s. coded cs s \<Longrightarrow> cs ! s \<le> lenbits z) \<Longrightarrow>
   clens_ok cs ls es \<Longrightarrow> has_bits t q (clens_bits cs es) \<Longrightarrow> lens_read ls z \<Longrightarrow> length (clens_out ls es) = nlen z + ndist z \<Longrightarrow>
   nlen z + ndist z \<le> length (lens z) \<Longrightarrow>
   \<exists>z'. read_lens z = Lens_go z' \<and> in_block t l ch (q + length (clens_bits cs es)) os z' \<and> lens_read (clens_out ls es) z' \<and>
     config z' = config (z\<lparr>lens := lens z'\<rparr>) \<and> nlen z' = nlen z \<and> ndist z' = ndist z \<and> length (lens z') = length (lens z)"
proof (induction es arbitrary: q ls z)
  case Nil
  then have "\<not> got z < nlen z + ndist z" by (simp add: lens_read_def)
  then show ?case using Nil by (intro exI [of _ z]) (simp add: read_lens.simps [of z])
next
  case (Cons e es)
  have h: "has_bits t q (clen_bits cs e)" "has_bits t (q + length (clen_bits cs e)) (clens_bits cs es)"
    using Cons.prems(5) by (simp_all add: has_bits_append)
  have ok: "clen_ok cs ls e" "clens_ok cs (clen_out ls e) es" using Cons.prems(4) by simp_all
  have le: "length (clen_out ls e) \<le> nlen z + ndist z"
    using clens_out_grows [of "clen_out ls e" es] Cons.prems(7) by simp
  obtain u where u: "lens_round z = Lens_go u" "in_block t l ch (q + length (clen_bits cs e)) os u" "lens_read (clen_out ls e) u"
    "config u = config (z\<lparr>lens := lens u\<rparr>)" "nlen u = nlen z" "ndist u = ndist z" "length (lens u) = length (lens z)"
    by (rule clen_round [OF Cons.prems(1-3) ok(1) h(1) Cons.prems(6) le Cons.prems(8)])
  have cu: "lenbits u = lenbits z" "lencode u = lencode z" using u(4) by (simp_all add: config_def)
  have g: "got z < nlen z + ndist z" using Cons.prems(6) le clen_out_longer [of ls e] by (simp add: lens_read_def)
  have r: "read_lens z = read_lens u" using g by (simp add: read_lens.simps [of z] u(1))
  have T: "table_for 0 cs (lenbits u) (lencode u)" and root: "\<And>s. coded cs s \<Longrightarrow> cs ! s \<le> lenbits u"
    using Cons.prems(2,3) by (simp_all add: cu)
  have n: "length (clens_out (clen_out ls e) es) = nlen u + ndist u" "nlen u + ndist u \<le> length (lens u)"
    using Cons.prems(7,8) u(5-7) by simp_all
  obtain z' where z': "read_lens u = Lens_go z'" "in_block t l ch (q + length (clen_bits cs e) + length (clens_bits cs es)) os z'"
    "lens_read (clens_out (clen_out ls e) es) z'" "config z' = config (u\<lparr>lens := lens z'\<rparr>)" "nlen z' = nlen u" "ndist z' = ndist u"
    "length (lens z') = length (lens u)"
    using Cons.IH [OF u(2) T root ok(2) h(2) u(3) n] by blast
  have c: "config z' = config (z\<lparr>lens := lens z'\<rparr>)" using z'(4) u(4) by (simp add: config_def)
  show ?case using z' u(5-7) c r by (intro exI [of _ z']) (simp add: add.assoc)
qed

section \<open>The codes of the block\<close>

definition tables_fit :: "nat list \<Rightarrow> nat list \<Rightarrow> bool" where
  "tables_fit ls ds \<longleftrightarrow> tr_ret (inflate_table 1 ls (replicate 852 0) (replicate 288 0) 9) = 0 \<and>
     tr_ret (inflate_table 2 ds (replicate 592 0) (replicate 288 0) 6) = 0"

text \<open>A code without symbols: the table has two entries that end in an error.\<close>

lemma no_symbols:
  assumes "list_all (\<lambda>l. l < 16) ls" "symbols ls = []"
  shows "inflate_table ty ls table wk b = \<lparr>tr_ret = 0, tr_table = table[0 := 20971520, 1 := 20971520], tr_work = wk, tr_bits = 1\<rparr>"
proof -
  have "longest 15 (count_lengths ls) = 0"
  proof (rule ccontr)
    assume "longest 15 (count_lengths ls) \<noteq> 0"
    then show False using symbols_ends(1) [OF assms(1) refl] assms(2) by blast
  qed
  then show ?thesis by (simp add: inflate_table_def Let_def)
qed

lemma built_table:
  assumes len: "list_all (\<lambda>l. l < 16) ls" "length ls \<le> (if ty = 1 then 288 else 32)" and ty: "ty = 1 \<and> n = 852 \<or> ty = 2 \<and> n = 592"
    and size: "length table = n" "length wk = 288" and fit: "tr_ret (inflate_table ty ls (replicate n 0) (replicate 288 0) b) = 0"
  shows "tr_ret (inflate_table ty ls table wk b) = 0" "length (tr_table (inflate_table ty ls table wk b)) = n"
    "symbols ls \<noteq> [] \<Longrightarrow> table_for ty ls (tr_bits (inflate_table ty ls table wk b)) (tr_table (inflate_table ty ls table wk b))"
proof -
  let ?R = "inflate_table ty ls table wk b"
  have "tr_ret ?R = 0 \<and> length (tr_table ?R) = n \<and> (symbols ls \<noteq> [] \<longrightarrow> table_for ty ls (tr_bits ?R) (tr_table ?R))"
  proof (cases "symbols ls = []")
    case True
    then show ?thesis using no_symbols [OF len(1)] size by simp
  next
    case False
    have w: "length (symbols ls) \<le> length (replicate 288 (0::nat))" "length (symbols ls) \<le> length wk"
      using symbols_length [of ls] len(2) size(2) by (auto split: if_splits)
    have sized: "table_sized ty ls b (replicate n 0)" "table_sized ty ls b table" using ty size(1) by (auto simp: table_sized_def)
    have ret: "tr_ret ?R = 0"
      by (rule inflate_table_ret_same [OF len(1) False w sized(1) _ fit]) (simp add: size)
    show ?thesis using inflate_table_decodes [OF len(1) w(2) False sized(2) ret] ret len(2) size ty by (auto simp: table_for_def)
  qed
  then show "tr_ret ?R = 0" "length (tr_table ?R) = n" "symbols ls \<noteq> [] \<Longrightarrow> table_for ty ls (tr_bits ?R) (tr_table ?R)" by simp_all
qed

lemma do_codelens_tables:
  assumes "read_lens z = Lens_go z1" "at (lens z1) 256 \<noteq> 0"
    and "inflate_table 1 (take (nlen z1) (lens z1)) (lencode z1) (work z1) 9 = R1" "tr_ret R1 = 0"
    and "inflate_table 2 (take (ndist z1) (drop (nlen z1) (lens z1))) (distdyn z1) (tr_work R1) 6 = R2" "tr_ret R2 = 0"
  shows "do_codelens 0 z = Again (z1\<lparr>lencode := tr_table R1, lendyn := tr_table R1, lenbits := tr_bits R1, distcode := tr_table R2,
    distdyn := tr_table R2, work := tr_work R2, distbits := tr_bits R2, zmode := M_LEN_START\<rparr>)"
  using assms by (simp add: do_codelens_def)

lemma codelens_run:
  assumes z: "in_block t l ch q os z" and m: "zmode z = M_CODELENS" and T: "table_for 0 cs (lenbits z) (lencode z)"
    and root: "\<And>s. coded cs s \<Longrightarrow> cs ! s \<le> lenbits z" and g: "got z = 0" and tl: "length (lencode z) = 852"
    and n: "nlen z = n1" "ndist z = n2" "257 \<le> n1" "n1 \<le> 286" "n2 \<le> 30"
    and es: "clens_ok cs [] es" "has_bits t q (clens_bits cs es)" "length (clens_out [] es) = n1 + n2"
    and eob: "coded (literal_lengths n1 es) 256" and fit: "tables_fit (literal_lengths n1 es) (dist_lengths n1 es)"
  obtains z' where "\<And>k. step k 0 z = Again z'" "in_block t l ch (q + length (clens_bits cs es)) os z'" "zmode z' = M_LEN_START"
    "codes_ready (literal_lengths n1 es) (dist_lengths n1 es) z'"
proof -
  have l320: "length (lens z) = 320" using z by (simp add: in_block_def)
  obtain z1 where z1: "read_lens z = Lens_go z1" "in_block t l ch (q + length (clens_bits cs es)) os z1" "lens_read (clens_out [] es) z1"
    "config z1 = config (z\<lparr>lens := lens z1\<rparr>)" "nlen z1 = n1" "ndist z1 = n2"
  proof -
    have r0: "lens_read [] z" using g by (simp add: lens_read_def)
    have nn: "length (clens_out [] es) = nlen z + ndist z" "nlen z + ndist z \<le> length (lens z)" using es(3) n l320 by simp_all
    show thesis using read_lens_run [OF z T root es(1,2) r0 nn] that n(1,2) by blast
  qed
  let ?all = "clens_out [] es" and ?ls = "literal_lengths n1 es" and ?ds = "dist_lengths n1 es"
  have tk: "take (n1 + n2) (lens z1) = ?all" using z1(3) es(3) by (simp add: lens_read_def)
  have ls: "take n1 (lens z1) = ?ls" using arg_cong [OF tk, of "take n1"] by (simp add: literal_lengths_def)
  have ds: "take n2 (drop n1 (lens z1)) = ?ds" using arg_cong [OF tk, of "drop n1"] by (simp add: dist_lengths_def drop_take)
  have "list_all (\<lambda>l. l < 16) ?all" by (rule clens_out_small [OF _ es(1)]) simp
  then have l16: "list_all (\<lambda>l. l < 16) ?ls" "list_all (\<lambda>l. l < 16) ?ds"
    by (auto simp: literal_lengths_def dist_lengths_def list_all_iff dest: in_set_takeD in_set_dropD)
  have len: "length ?ls = n1" "length ?ds = n2" using es(3) by (simp_all add: literal_lengths_def dist_lengths_def)
  have e256: "at (lens z1) 256 \<noteq> 0"
  proof -
    have "256 < length (lens z1)" using z1(2) by (simp add: in_block_def)
    then have "at (lens z1) 256 = ?ls ! 256" using n(3) unfolding ls [symmetric] by (simp add: at_def)
    then show ?thesis using eob by (simp add: coded_def)
  qed
  have w: "length (work z1) = 288" "length (distdyn z1) = 592" "length (lencode z1) = 852"
    using z1(2,4) tl by (simp_all add: in_block_def config_def)
  have n1: "length ?ls \<le> (if (1::nat) = 1 then 288 else 32)" and n2: "length ?ds \<le> (if (2::nat) = 1 then 288 else 32)"
    using len n by simp_all
  note fit = fit [unfolded tables_fit_def, THEN conjunct1] fit [unfolded tables_fit_def, THEN conjunct2]
  let ?R1 = "inflate_table 1 ?ls (lencode z1) (work z1) 9"
  have b1: "tr_ret ?R1 = 0" "length (tr_table ?R1) = 852" "symbols ?ls \<noteq> [] \<Longrightarrow> table_for 1 ?ls (tr_bits ?R1) (tr_table ?R1)"
    using built_table [OF l16(1) n1 _ w(3,1) fit(1)] by simp_all
  have wk: "length (tr_work ?R1) = 288" using w(1) by (simp only: inflate_table_work)
  let ?R2 = "inflate_table 2 ?ds (distdyn z1) (tr_work ?R1) 6"
  have b2: "tr_ret ?R2 = 0" "length (tr_table ?R2) = 592" "symbols ?ds \<noteq> [] \<Longrightarrow> table_for 2 ?ds (tr_bits ?R2) (tr_table ?R2)"
    using built_table [OF l16(2) n2 _ w(2) wk fit(2)] by simp_all
  define z' where "z' = z1\<lparr>lencode := tr_table ?R1, lendyn := tr_table ?R1, lenbits := tr_bits ?R1, distcode := tr_table ?R2, distdyn := tr_table ?R2,
    work := tr_work ?R2, distbits := tr_bits ?R2, zmode := M_LEN_START\<rparr>"
  have "step k 0 z = Again z'" for k
  proof -
    have s: "step k 0 z = do_codelens 0 z" using m by (simp add: step_def)
    have r1: "inflate_table 1 (take (nlen z1) (lens z1)) (lencode z1) (work z1) 9 = ?R1" unfolding z1(5) ls ..
    have r2: "inflate_table 2 (take (ndist z1) (drop (nlen z1) (lens z1))) (distdyn z1) (tr_work ?R1) 6 = ?R2" unfolding z1(5,6) ds ..
    show ?thesis unfolding s do_codelens_tables [OF z1(1) e256 r1 b1(1) r2 b2(1)] z'_def ..
  qed
  moreover have "in_block t l ch (q + length (clens_bits cs es)) os z'"
    using z1(2) b1(2) b2(2) w by (simp add: in_block_def z'_def decoding_def synced_def place_def held_def inflate_table_work)
  moreover have "codes_ready ?ls ?ds z'"
    using b1(3) [OF coded_symbols [OF eob]] b2(3) by (simp add: codes_ready_def z'_def)
  ultimately show thesis using that by (simp add: z'_def)
qed

section \<open>The block\<close>

definition block_fits :: "block \<Rightarrow> bool" where
  "block_fits b \<longleftrightarrow> (case b of
     Dynamic n1 n2 n3 cs es ts \<Rightarrow> length_code_fits cs \<and> tables_fit (literal_lengths n1 es) (dist_lengths n1 es)
   | _ \<Rightarrow> True)"

lemma tokens_end: "tokens_ok ls ds os ts \<Longrightarrow> coded ls 256"
  by (induction ts arbitrary: os) auto

lemma dynamic_leads:
  assumes z: "at_block t 0 ch q os z" and l: "l < 2" and b: "block_ok os (Dynamic n1 n2 n3 cs es ts)" "block_fits (Dynamic n1 n2 n3 cs es ts)"
    and h: "has_bits t q (block_bits q l (Dynamic n1 n2 n3 cs es ts))"
  shows "leads ch z (\<lambda>ch' z'. at_block t l ch' (q + length (block_bits q l (Dynamic n1 n2 n3 cs es ts))) (tokens_out os ts) z')"
proof -
  let ?ls = "literal_lengths n1 es" and ?ds = "dist_lengths n1 es"
  let ?cl = "concat (map (\<lambda>k. lsb 3 (cs ! (clen_order ! k))) [0..<n3])"
  have ok: "257 \<le> n1" "n1 \<le> 286" "1 \<le> n2" "n2 \<le> 30" "4 \<le> n3" "n3 \<le> 19" "length cs = 19" "list_all (\<lambda>l. l < 8) cs"
    "list_all (\<lambda>k. cs ! (clen_order ! k) = 0) [n3..<19]" "clens_ok cs [] es" "length (clens_out [] es) = n1 + n2" "tokens_ok ?ls ?ds os ts"
    using b(1) by simp_all
  have fit: "length_code_fits cs" "tables_fit ?ls ?ds" using b(2) by (simp_all add: block_fits_def)
  have cl: "length ?cl = 3 * n3" by (simp add: length_concat comp_def sum_list_triv)
  have hh: "has_bits t q [l, 0, 1]" "has_bits t (q + 3) (lsb 5 (n1 - 257))" "has_bits t (q + 3 + 5) (lsb 5 (n2 - 1))"
    "has_bits t (q + 3 + 5 + 5) (lsb 4 (n3 - 4))" "has_bits t (q + 3 + 5 + 5 + 4) ?cl" "has_bits t (q + 3 + 5 + 5 + 4 + 3 * n3) (clens_bits cs es)"
    "has_bits t (q + 3 + 5 + 5 + 4 + 3 * n3 + length (clens_bits cs es)) (tokens_bits ?ls ?ds ts)"
    using h unfolding block_bits.simps unfolding has_bits_head unfolding has_bits_append lsb_length cl by blast+
  obtain u where u: "in_block t l ch (q + 3) os u" "\<And>n. step n 0 (z\<lparr>zmode := M_TYPEDO\<rparr>) = Again (u\<lparr>zmode := M_TABLE\<rparr>)"
    by (rule block_head [OF z hh(1) l]) auto
  have s0: "step n 0 z = Again (z\<lparr>zmode := M_TYPEDO\<rparr>)" for n using z by (simp add: step_modes at_block_def)
  have u': "in_block t l ch (q + 3) os (u\<lparr>zmode := M_TABLE\<rparr>)" using u(1) by simp
  obtain z2 where z2: "\<And>k. step k 0 (u\<lparr>zmode := M_TABLE\<rparr>) = Again z2" "in_block t l ch (q + 3 + 14) os z2" "zmode z2 = M_LENLENS"
    "nlen z2 = n1" "ndist z2 = n2" "ncode z2 = n3" "got z2 = 0"
    by (rule table_counts [OF u' _ ok(1-6)]) (use hh(2-4) in \<open>auto simp: add.assoc\<close>)
  have e0: "es \<noteq> []" using ok(1,11) by auto
  have ms: "4 \<le> ncode z2" "ncode z2 \<le> 19" "list_all (\<lambda>k. cs ! (clen_order ! k) = 0) [ncode z2..<19]"
    "has_bits t (q + 3 + 14) (concat (map (\<lambda>k. lsb 3 (cs ! (clen_order ! k))) [0..<ncode z2]))"
    using ok hh(5) by (simp_all add: z2(6) add.assoc)
  have sy: "symbols cs \<noteq> []"
  proof -
    obtain e es' where e: "es = e # es'" using e0 by (cases es) auto
    then have "clen_ok cs [] e" using ok(10) by simp
    then show ?thesis by (cases e) (auto dest: coded_symbols)
  qed
  obtain z3 where z3: "\<And>k. step k 0 z2 = Again z3" "in_block t l ch (q + 3 + 14 + 3 * ncode z2) os z3" "zmode z3 = M_CODELENS" "got z3 = 0"
    "nlen z3 = nlen z2" "ndist z3 = ndist z2" "table_for 0 cs (lenbits z3) (lencode z3)" "length (lencode z3) = 852"
    "\<And>s. coded cs s \<Longrightarrow> cs ! s \<le> lenbits z3"
    by (rule lenlens_run [OF z2(2,3,7) ms(1,2) ok(7,8) ms(3) fit(1) sy ms(4)]) blast
  have n3: "nlen z3 = n1" "ndist z3 = n2" by (simp_all add: z3(5,6) z2(4,5))
  have h3: "has_bits t (q + 3 + 14 + 3 * ncode z2) (clens_bits cs es)" using hh(6) by (simp add: z2(6) add.assoc)
  obtain z4 where z4: "\<And>k. step k 0 z3 = Again z4" "in_block t l ch (q + 3 + 14 + 3 * ncode z2 + length (clens_bits cs es)) os z4"
    "zmode z4 = M_LEN_START" "codes_ready ?ls ?ds z4"
    by (rule codelens_run [OF z3(2,3,7,9,4,8) n3 ok(1,2,4,10) h3 ok(11) tokens_end [OF ok(12)] fit(2)]) blast+
  have h4: "has_bits t (q + 3 + 14 + 3 * ncode z2 + length (clens_bits cs es)) (tokens_bits ?ls ?ds ts)"
    using hh(7) by (simp add: z2(6) add.assoc)
  have r: "runs (Suc (Suc (Suc (Suc (Suc 0))))) z z4"
    by (rule runs_step [OF s0 runs_step [OF u(2) runs_step [OF z2(1) runs_step [OF z3(1) runs_step [OF z4(1) runs_refl]]]]])
  have e: "q + 3 + 14 + 3 * ncode z2 + length (clens_bits cs es) + length (tokens_bits ?ls ?ds ts) =
      q + length (block_bits q l (Dynamic n1 n2 n3 cs es ts))"
    unfolding block_bits.simps length_append lsb_length cl by (simp add: z2(6))
  show ?thesis by (rule leads_after [OF r tokens_block [OF z4(2,3,4) ok(12) h4, unfolded e]])
qed

end
