(* ===== verification/Pako_Total.thy ===== *)
theory Pako_Total
  imports Pako_Dynamic
begin

text \<open>
  \<open>inflate\<close> returns on every input.  A measure of the state falls with every pass: the bits that are left count most, and the
  modes that read none are ordered.  The loops that follow a table end because every table that \<open>inflate_table\<close>
  returns without an error is full (\<open>good_table\<close>).
\<close>

section \<open>Full tables\<close>

text \<open>An entry that is no link: a literal, an error or the end (bit 6), a length or a distance with its extra bits.\<close>

definition final_entry :: "nat \<Rightarrow> nat \<Rightarrow> bool" where
  "final_entry ty e \<longleftrightarrow> 1 \<le> entry_bits e \<and> entry_bits e \<le> 15 \<and>
     (ty = 1 \<and> entry_op e = 0 \<or> has_bit (entry_op e) 6 \<and> \<not> has_bit (entry_op e) 4 \<or>
      ty = 1 \<and> 16 \<le> entry_op e \<and> entry_op e \<le> 21 \<and> 3 \<le> entry_val e \<and> entry_val e \<le> 258 \<or>
      ty = 2 \<and> 16 \<le> entry_op e \<and> entry_op e \<le> 29)"

definition good_table :: "nat \<Rightarrow> nat \<Rightarrow> nat list \<Rightarrow> bool" where
  "good_table ty p T \<longleftrightarrow> (\<forall>h. let e = at T (h mod 2 ^ p) in
     final_entry ty e \<or>
     1 \<le> entry_op e \<and> entry_op e < 16 \<and> entry_bits e = p \<and> 1 \<le> p \<and>
       (let e2 = at T (entry_val e + h div 2 ^ p mod 2 ^ entry_op e) in final_entry ty e2 \<and> p + entry_bits e2 \<le> 15))"

lemma sym_final:
  assumes "ty = 1 \<and> s < 288 \<or> ty = 2 \<and> s < 32" "1 \<le> b" "b \<le> 15"
  shows "final_entry ty (sym_entry ty b s)"
proof -
  have l: "list_all (\<lambda>i. 16 \<le> at lext i \<and> at lext i \<le> 21 \<and> 3 \<le> at lbase i \<and> at lbase i \<le> 258 \<or> has_bit (at lext i) 6 \<and> \<not> has_bit (at lext i) 4) [0..<31]"
    by (simp add: upt_rec at_def lext_def lbase_def has_bit_def)
  have d: "list_all (\<lambda>i. 16 \<le> at dext i \<and> at dext i \<le> 29 \<or> has_bit (at dext i) 6 \<and> \<not> has_bit (at dext i) 4) [0..<32]"
    by (simp add: upt_rec at_def dext_def has_bit_def)
  have s: "s < 65536" using assms(1) by auto
  have bit: "has_bit 96 6" "\<not> has_bit 96 4" by (simp_all add: has_bit_def)
  have l': "16 \<le> at lext (s - 257) \<and> at lext (s - 257) \<le> 21 \<and> 3 \<le> at lbase (s - 257) \<and> at lbase (s - 257) \<le> 258 \<or>
      has_bit (at lext (s - 257)) 6 \<and> \<not> has_bit (at lext (s - 257)) 4" if "257 \<le> s" "s < 288"
    using l that by (simp add: list_all_iff)
  have d': "16 \<le> at dext s \<and> at dext s \<le> 29 \<or> has_bit (at dext s) 6 \<and> \<not> has_bit (at dext s) 4" if "s < 32"
    using d that by (simp add: list_all_iff)
  show ?thesis
    unfolding final_entry_def sym_entry_bits [OF s] sym_op_def sym_val_def
    using assms bit l' d' by (cases "s < 256"; cases "s = 256") auto
qed

lemma every_start:
  assumes f: "fits ls" and c: "code_start ls (length (symbols ls)) = 2 ^ 15"
  obtains j where "j < length (symbols ls)" "starts ls j h"
proof -
  have "x < code_start ls m \<Longrightarrow> \<exists>j<m. code_start ls j \<le> x \<and> x < code_start ls (Suc j)" for x m
  proof (induction m)
    case (Suc m)
    show ?case
    proof (cases "x < code_start ls m")
      case True
      then show ?thesis using Suc.IH by (meson less_SucI)
    next
      case False
      then show ?thesis using Suc.prems by (intro exI [of _ m]) simp
    qed
  qed simp
  from this [of "brev 15 h" "length (symbols ls)"] obtain j where j: "j < length (symbols ls)" "code_start ls j \<le> brev 15 h" "brev 15 h < code_start ls (Suc j)"
    unfolding c using brev_less [of 15 h] by blast
  then have "starts ls j h" using starts_interval [OF f j(1)] by simp
  then show thesis using that j(1) by blast
qed

lemma full_table_good:
  assumes d: "decodes ty ls p T" and c: "code_start ls (length (symbols ls)) = 2 ^ 15" and len: "length T \<le> 65536"
    and ty: "ty = 1 \<and> length ls \<le> 288 \<or> ty = 2 \<and> length ls \<le> 32"
  shows "good_table ty p T"
  unfolding good_table_def
proof
  fix h
  have f: "fits ls" and p: "1 \<le> p" "p \<le> 15" "2 ^ p \<le> length T" using d by (simp_all add: decodes_def)
  obtain j where j: "j < length (symbols ls)" "starts ls j h" by (rule every_start [OF f c])
  let ?s = "symbols ls ! j"
  have s: "?s < length ls" using symbols_mem [of ?s ls] j(1) by simp
  then have sy: "ty = 1 \<and> ?s < 288 \<or> ty = 2 \<and> ?s < 32" using ty by auto
  note lb = len_at_bounds [OF j(1)]
  have i: "at T (h mod 2 ^ p) = T ! (h mod 2 ^ p)"
  proof -
    have "h mod 2 ^ p < 2 ^ p" by simp
    then have "h mod 2 ^ p < length T" using p(3) by linarith
    then show ?thesis by (simp add: at_def)
  qed
  note dj = d [unfolded decodes_def, THEN conjunct2, THEN conjunct2, THEN conjunct2, THEN conjunct2, rule_format, OF j]
  show "let e = at T (h mod 2 ^ p) in final_entry ty e \<or> 1 \<le> entry_op e \<and> entry_op e < 16 \<and> entry_bits e = p \<and> 1 \<le> p \<and>
       (let e2 = at T (entry_val e + h div 2 ^ p mod 2 ^ entry_op e) in final_entry ty e2 \<and> p + entry_bits e2 \<le> 15)"
  proof (cases "len_at ls j \<le> p")
    case True
    then have "at T (h mod 2 ^ p) = sym_entry ty (len_at ls j) ?s" using dj i by simp
    then show ?thesis using sym_final [OF sy lb] by (simp add: Let_def)
  next
    case False
    then obtain c k where k: "T ! (h mod 2 ^ p) = entry p k c" "1 \<le> k" "k \<le> 15" "c + 2 ^ k \<le> length T"
      "T ! (c + h div 2 ^ p mod 2 ^ k) = sym_entry ty (len_at ls j - p) ?s" using dj by auto
    have "h div 2 ^ p mod 2 ^ k < 2 ^ k" by simp
    then have "c + h div 2 ^ p mod 2 ^ k < length T" using k(4) by linarith
    then have t: "at T (c + h div 2 ^ p mod 2 ^ k) = sym_entry ty (len_at ls j - p) ?s"
      using k(5) by (simp add: at_def)
    have "c < 65536" using k(4) len zero_less_power [of "2::nat" k] by linarith
    then have e: "entry_bits (entry p k c) = p" "entry_op (entry p k c) = k" "entry_val (entry p k c) = c"
      using entry_fields [of k c p] k(3) by simp_all
    have b: "1 \<le> len_at ls j - p" "len_at ls j - p \<le> 15" "p + (len_at ls j - p) \<le> 15" using False lb by simp_all
    have s': "?s < 65536" using sy by auto
    show ?thesis unfolding i k(1) Let_def e t sym_entry_bits(1) [OF s'] using sym_final [OF sy b(1,2)] b(3) k(2,3) p(1) by simp
  qed
qed

lemma fixed_good: "ty = 1 \<or> ty = 2 \<Longrightarrow> final_entry ty (entry 1 64 0)"
  using entry_fields [of 64 0 1] by (auto simp: final_entry_def has_bit_def)

text \<open>A code of one symbol, one bit long: the other entry is an error.\<close>

lemma single_table_good:
  assumes len: "list_all (\<lambda>l. l < 16) ls" and w: "length (symbols ls) \<le> length wk" and some: "symbols ls \<noteq> []"
    and sized: "table_sized ty ls b table" and ret: "tr_ret (inflate_table ty ls table wk b) = 0" "1 \<le> b"
    and ty: "ty = 1 \<and> length ls \<le> 288 \<or> ty = 2 \<and> length ls \<le> 32"
    and one: "length (symbols ls) = 1" "len_at ls 0 = 1"
  shows "good_table ty (tr_bits (inflate_table ty ls table wk b)) (tr_table (inflate_table ty ls table wk b))"
proof -
  let ?R = "inflate_table ty ls table wk b"
  let ?cs = "count_lengths ls"
  have g0: "longest 15 ?cs \<noteq> 0" by (rule some_lengths [OF len some])
  note ends = symbols_ends [OF len refl g0]
  have g: "longest 15 ?cs = 1" using ends(2) one by simp
  have sh: "shortest 1 ?cs = 1" using ends(3) g one(2) by simp
  have p: "root_size ls b = 1" using ret(2) sh by (simp add: root_size_def g)
  have R: "?R = (case code_room 1 (tl ?cs) of
      None \<Rightarrow> \<lparr>tr_ret = -1, tr_table = table, tr_work = wk, tr_bits = b\<rparr>
    | Some y \<Rightarrow>
        if 0 < y \<and> (ty = 0 \<or> 1 \<noteq> (1::nat)) then \<lparr>tr_ret = -1, tr_table = table, tr_work = wk, tr_bits = b\<rparr>
        else if table_full ty (2 ^ 1) then \<lparr>tr_ret = 1, tr_table = table, tr_work = sorted_symbols ls wk, tr_bits = b\<rparr>
        else case place_symbols (length ls) ty ls (sorted_symbols ls wk) 1 1 (table_start ls b table) of
            Inl t \<Rightarrow> \<lparr>tr_ret = 1, tr_table = t_n t, tr_work = sorted_symbols ls wk, tr_bits = b\<rparr>
          | Inr t \<Rightarrow> \<lparr>tr_ret = 0, tr_table = (if t_z t \<noteq> 0 then (t_n t)[t_c t + t_z t := entry (t_w t - t_v t) 64 0] else t_n t),
                       tr_work = sorted_symbols ls wk, tr_bits = 1\<rparr>)"
    unfolding inflate_table_eq [OF len some] Let_def g p ..
  obtain y where y: "code_room 1 (tl ?cs) = Some y" using ret(1) unfolding R by (auto split: option.splits)
  have nf: "\<not> table_full ty (2 ^ root_size ls b)" by (simp add: p table_full_def)
  note start = table_start_ok [OF len w some sized y nf]
  have c1: "?cs ! 1 = 1"
  proof -
    have "?cs ! 1 = length (filter (\<lambda>s. ls ! s = 1) (symbols ls))" using start(3) by (simp add: counts_ok_def)
    moreover obtain s where s: "symbols ls = [s]" using one(1) by (cases "symbols ls") auto
    moreover have "ls ! s = 1" using one(2) s by simp
    ultimately show ?thesis by simp
  qed
  have lc: "length ?cs = 16" using start(3) by (simp add: counts_ok_def)
  let ?t = "table_start ls b table"
  have t: "t_cs ?t = ?cs" "t_z ?t = 0" "t_m ?t = 0" "t_w ?t = 1" "t_c ?t = 0" "t_k ?t = 1" "t_v ?t = 0" "t_n ?t = table"
    by (use sh in \<open>simp_all add: table_start_def p g\<close>)
  obtain n where n: "length ls = Suc n" using symbols_length [of ls] some by (cases "length ls") auto
  obtain u where u: "place_symbol ty ls (sorted_symbols ls wk) 1 1 ?t = Inr (True, u)" "t_z u = 1" "t_c u = 0" "t_w u = 1" "t_v u = 0"
  proof -
    have "\<exists>u. place_symbol ty ls (sorted_symbols ls wk) 1 1 ?t = Inr (True, u) \<and> t_z u = 1 \<and> t_c u = 0 \<and> t_w u = 1 \<and> t_v u = 0"
      using c1 lc by (auto simp: place_symbol_def Let_def t has_bit_def split: prod.split)
    then show thesis using that by blast
  qed
  have ps: "place_symbols (length ls) ty ls (sorted_symbols ls wk) 1 1 ?t = Inr u" by (simp add: n u(1) del: One_nat_def)
  have T: "tr_table ?R = (t_n u)[1 := entry 1 64 0]" "tr_bits ?R = 1"
    using ret(1) unfolding R y ps by (auto simp: u table_full_def split: if_splits)
  note d = inflate_table_decodes [OF len w some sized ret(1)]
  have d0: "1 < length (tr_table ?R)" using d(1) by (simp add: decodes_def T(2))
  have "brev 15 0 = 0" by (rule bit_eqI) (simp add: bit_brev)
  then have s0: "starts ls 0 0" by (simp add: starts_def)
  let ?s = "symbols ls ! 0"
  have s: "?s < length ls" using symbols_mem [of ?s ls] some by simp
  then have sy: "ty = 1 \<and> ?s < 288 \<or> ty = 2 \<and> ?s < 32" using ty by auto
  have e0: "at (tr_table ?R) 0 = sym_entry ty 1 ?s"
  proof -
    have n: "0 < length (symbols ls)" using some by simp
    from d(1) [unfolded decodes_def T(2), THEN conjunct2, THEN conjunct2, THEN conjunct2, THEN conjunct2, rule_format, OF n s0]
    have "tr_table ?R ! (0 mod 2 ^ 1) = sym_entry ty 1 ?s" unfolding one(2) by simp
    moreover have "0 < length (tr_table ?R)" using d0 by linarith
    ultimately show ?thesis by (simp add: at_def)
  qed
  have e1: "at (tr_table ?R) 1 = entry 1 64 0" using d0 unfolding T(1) by (simp add: at_def)
  have ty': "ty = 1 \<or> ty = 2" using ty by auto
  show ?thesis
    unfolding good_table_def T(2)
  proof
    fix h :: nat
    have "h mod 2 ^ 1 = 0 \<or> h mod 2 ^ 1 = 1" by auto
    then show "let e = at (tr_table ?R) (h mod 2 ^ 1) in final_entry ty e \<or> 1 \<le> entry_op e \<and> entry_op e < 16 \<and> entry_bits e = 1 \<and> 1 \<le> (1::nat) \<and>
       (let e2 = at (tr_table ?R) (entry_val e + h div 2 ^ 1 mod 2 ^ entry_op e) in final_entry ty e2 \<and> 1 + entry_bits e2 \<le> 15)"
      using e0 e1 sym_final [OF sy, of 1] fixed_good [OF ty'] by (auto simp: Let_def)
  qed
qed

text \<open>Every table that is built without an error is full.\<close>

lemma built_good:
  assumes len: "list_all (\<lambda>l. l < 16) ls" and w: "length ls \<le> length wk"
    and sized: "table_sized ty ls b table" and ret: "tr_ret (inflate_table ty ls table wk b) = 0" "1 \<le> b"
    and ty: "ty = 1 \<and> length ls \<le> 288 \<or> ty = 2 \<and> length ls \<le> 32" and size: "2 \<le> length table" "length table \<le> 65536"
  shows "good_table ty (tr_bits (inflate_table ty ls table wk b)) (tr_table (inflate_table ty ls table wk b))"
proof (cases "symbols ls = []")
  case True
  have e: "20971520 = entry 1 64 0" by (simp add: entry_def)
  have ty': "ty = 1 \<or> ty = 2" using ty by auto
  have f: "at (table[0 := 20971520, 1 := 20971520]) i = 20971520" if "i < 2" for i
  proof -
    have "i = 0 \<or> i = 1" using that by auto
    then show ?thesis using size(1) by (auto simp: at_def)
  qed
  have "good_table ty 1 (table[0 := 20971520, 1 := 20971520])"
    unfolding good_table_def
  proof
    fix h :: nat
    have "h mod 2 ^ 1 < 2" by simp
    then show "let e = at (table[0 := 20971520, 1 := 20971520]) (h mod 2 ^ 1) in final_entry ty e \<or>
       1 \<le> entry_op e \<and> entry_op e < 16 \<and> entry_bits e = 1 \<and> 1 \<le> (1::nat) \<and>
       (let e2 = at (table[0 := 20971520, 1 := 20971520]) (entry_val e + h div 2 ^ 1 mod 2 ^ entry_op e) in final_entry ty e2 \<and> 1 + entry_bits e2 \<le> 15)"
      unfolding f [OF \<open>h mod 2 ^ 1 < 2\<close>] using fixed_good [OF ty'] e by (simp add: Let_def)
  qed
  then show ?thesis using no_symbols [OF len True] by simp
next
  case False
  have w': "length (symbols ls) \<le> length wk" using symbols_length [of ls] w by linarith
  note d = inflate_table_decodes [OF len w' False sized ret(1)]
  show ?thesis
  proof (cases "code_start ls (length (symbols ls)) = 2 ^ 15")
    case True
    show ?thesis by (rule full_table_good [OF d(1) True _ ty]) (use d(2) size in simp)
  next
    case False
    then have one: "length (symbols ls) = 1" "len_at ls 0 = 1" using d(3) by (auto simp: complete_def)
    show ?thesis by (rule single_table_good [OF len w' _ sized ret ty one]) (use one in auto)
  qed
qed

lemma table_for_good:
  assumes t: "table_for ty ls p T" and ty: "ty = 1 \<or> ty = 2" and two: "a \<in> set (symbols ls)" "b \<in> set (symbols ls)" "a \<noteq> b"
  shows "good_table ty p T"
proof -
  have "length (symbols ls) \<noteq> 1"
  proof
    assume "length (symbols ls) = 1"
    then obtain s where "symbols ls = [s]" by (cases "symbols ls") auto
    then show False using two by simp
  qed
  then have "code_start ls (length (symbols ls)) = 2 ^ 15" using table_forD(2) [OF t] by (auto simp: complete_def)
  from full_table_good [OF table_forD(1) [OF t] this table_forD(3) [OF t]] show ?thesis using table_forD(8) [OF t] ty by (auto split: if_splits)
qed

lemma fixed_tables_good: "good_table 1 9 fixed_lencode" "good_table 2 5 fixed_distcode"
proof -
  have "0 \<in> set (symbols fixed_literals)" "1 \<in> set (symbols fixed_literals)"
    unfolding symbols_mem fixed_literals_def by simp_all
  then show "good_table 1 9 fixed_lencode" using table_for_good [OF fixed_ready(1)] by blast
  have "0 \<in> set (symbols fixed_distances)" "1 \<in> set (symbols fixed_distances)"
    unfolding symbols_mem fixed_distances_def by simp_all
  then show "good_table 2 5 fixed_distcode" using table_for_good [OF fixed_ready(2)] by blast
qed

section \<open>What is left of the input\<close>

definition left :: "zstream \<Rightarrow> int" where
  "left z = 8 * int (length (inp z)) + int (bits z) - 8 * int (next_in z)"

lemma left_moves [simp]: "left (pull_byte z) = left z" "left (refill n z) = left z" "left (refill2 z) = left z"
  by (simp_all add: left_def pull_byte_def refill_def refill2_def)

lemma left_drop: "left (drop_bits n z) \<le> left z" "left z - int n \<le> left (drop_bits n z)"
  "1 \<le> n \<Longrightarrow> n \<le> bits z \<Longrightarrow> left (drop_bits n z) < left z" "n \<le> bits z \<Longrightarrow> left (drop_bits n z) = left z - int n"
  by (simp_all add: left_def drop_bits_def)

lemma left_drop_some: "1 \<le> n \<Longrightarrow> 1 \<le> bits z \<Longrightarrow> left (drop_bits n z) < left z"
  by (simp add: left_def drop_bits_def)

lemma left_init: "left (init_bits z) = left z - int (bits z)"
  by (simp add: left_def init_bits_def)

lemma left_same:
  assumes "inp z' = inp z" "next_in z' = next_in z" "bits z' = bits z"
  shows "left z' = left z"
  using assms by (simp add: left_def)

text \<open>Taking bytes off the input.\<close>

definition taken :: "zstream \<Rightarrow> zstream \<Rightarrow> bool" where
  "taken z z' \<longleftrightarrow> same_but_bits z z' \<and> left z' = left z \<and> (next_in z \<le> length (inp z) \<longrightarrow> next_in z' \<le> length (inp z))"

lemma taken_refl [simp]: "taken z z"
  by (simp add: taken_def)

lemma taken_byte: "taken (pull_byte z) z' \<Longrightarrow> avail_in z \<noteq> 0 \<Longrightarrow> taken z z'"
proof -
  assume t: "taken (pull_byte z) z'" and a: "avail_in z \<noteq> 0"
  have f: "inp (pull_byte z) = inp z" "next_in (pull_byte z) = Suc (next_in z)" by (simp_all add: pull_byte_def)
  have s: "same_but_bits z z'" using t same_but_bits_trans [OF same_but_bits_basic(1)] unfolding taken_def by blast
  have "Suc (next_in z) \<le> length (inp z)" using a by (simp add: avail_in_def)
  then show "taken z z'" using t s unfolding taken_def f by simp
qed

lemma pull_taken: "pull n z = (b, z') \<Longrightarrow> taken z z' \<and> (if b then n \<le> bits z' else avail_in z' = 0)"
proof (induction n z rule: pull.induct)
  case (1 n z)
  show ?case
  proof (cases "n \<le> bits z \<or> avail_in z = 0")
    case True
    then show ?thesis using 1(2) by (auto simp: pull.simps [of n z] split: if_splits)
  next
    case False
    then show ?thesis using 1 taken_byte by (simp add: pull.simps [of n z])
  qed
qed

lemma pull_entry_taken:
  "pull_entry look k z = (e, z') \<Longrightarrow> taken z z' \<and> bits z \<le> bits z' \<and> (\<forall>p \<le> bits z. hold z' mod 2 ^ p = hold z mod 2 ^ p) \<and>
     (case e of None \<Rightarrow> avail_in z' = 0 | Some x \<Rightarrow> x = look z' \<and> k + entry_bits x \<le> bits z')"
proof (induction look k z rule: pull_entry.induct)
  case (1 look k z)
  show ?case
  proof (cases "k + entry_bits (look z) \<le> bits z \<or> avail_in z = 0")
    case True
    then have "(e, z') = (if k + entry_bits (look z) \<le> bits z then (Some (look z), z) else (None, z))"
      using 1(2) by (auto simp: pull_entry.simps [of look k z])
    then show ?thesis using True by (cases "k + entry_bits (look z) \<le> bits z") simp_all
  next
    case False
    then have p: "pull_entry look k (pull_byte z) = (e, z')" using 1(2) by (simp add: pull_entry.simps [of look k z])
    note IH = 1(1) [OF _ _ p]
    have h: "hold (pull_byte z) mod 2 ^ p = hold z mod 2 ^ p" if "p \<le> bits z" for p
    proof -
      obtain d where "bits z = p + d" using \<open>p \<le> bits z\<close> by (metis le_Suc_ex)
      then have d: "2 ^ bits z = (2 :: nat) ^ p * 2 ^ d" by (simp only: power_add)
      have "hold (pull_byte z) = hold z + at (inp z) (next_in z) * 2 ^ bits z" by (simp add: pull_byte_def)
      also have "\<dots> = hold z + 2 ^ p * (at (inp z) (next_in z) * 2 ^ d)" unfolding d by (simp only: mult.left_commute)
      finally show ?thesis by (simp only: mod_mult_self2)
    qed
    have b: "bits z \<le> bits (pull_byte z)" by (simp add: pull_byte_def)
    have t: "taken z z'" by (rule taken_byte) (use IH False in simp_all)
    show ?thesis
    proof (intro conjI allI impI)
      show "taken z z'" by (rule t)
      show "bits z \<le> bits z'" using IH False b by simp
      show "hold z' mod 2 ^ p = hold z mod 2 ^ p" if "p \<le> bits z" for p
      proof -
        have "p \<le> bits (pull_byte z)" using that b by simp
        then show ?thesis using IH False h [OF that] by simp
      qed
      show "case e of None \<Rightarrow> avail_in z' = 0 | Some x \<Rightarrow> x = look z' \<and> k + entry_bits x \<le> bits z'" using IH False by simp
    qed
  qed
qed

section \<open>The fast loop\<close>

text \<open>What the decoding of a block leaves as it is.\<close>

definition quiet :: "zstream \<Rightarrow> zstream \<Rightarrow> bool" where
  "quiet z z' \<longleftrightarrow> config z' = config z \<and> inp z' = inp z \<and> avail_out z' = avail_out z"

lemma quiet_refl [simp]: "quiet z z"
  by (simp add: quiet_def)

lemma quiet_trans: "quiet z z' \<Longrightarrow> quiet z' z'' \<Longrightarrow> quiet z z''"
  by (simp add: quiet_def)

lemma quiet_same: "same_but_bits z z' \<Longrightarrow> quiet z z'"
  using same_but_bits_config [of z z'] same_but_bits_fields [of z z'] by (simp add: quiet_def)

lemma final_bits:
  "16 \<le> n \<Longrightarrow> n < 32 \<Longrightarrow> has_bit n 4" "1 \<le> n \<Longrightarrow> n < 16 \<Longrightarrow> \<not> has_bit n 4 \<and> \<not> has_bit n 6" "\<not> has_bit 0 n"
proof -
  show "16 \<le> n \<Longrightarrow> n < 32 \<Longrightarrow> has_bit n 4"
  proof -
    assume "16 \<le> n" "n < 32"
    then have "n div 16 = 1" by auto
    then show "has_bit n 4" by (simp add: has_bit_def)
  qed
  show "1 \<le> n \<Longrightarrow> n < 16 \<Longrightarrow> \<not> has_bit n 4 \<and> \<not> has_bit n 6" by (simp add: has_bit_def)
  show "\<not> has_bit 0 n" by (simp add: has_bit_def)
qed

text \<open>An entry and, after a link, the entry of the second table.\<close>

lemma good_entry:
  assumes "good_table ty p T"
  obtains "final_entry ty (at T (low_bits p z))"
  | e2 where "1 \<le> entry_op (at T (low_bits p z))" "entry_op (at T (low_bits p z)) < 16" "entry_bits (at T (low_bits p z)) = p" "1 \<le> p"
    "e2 = at T (entry_val (at T (low_bits p z)) + low_bits (entry_op (at T (low_bits p z))) (drop_bits p z))" "final_entry ty e2"
    "p + entry_bits e2 \<le> 15"
  using assms unfolding good_table_def Let_def by (auto simp: low_bits_def drop_bits_def)

lemma two_drops:
  assumes "p + b \<le> 15" "1 \<le> p"
  shows "left (drop_bits b (drop_bits p z)) \<le> left z" "left z - 15 \<le> left (drop_bits b (drop_bits p z))"
    "1 \<le> bits z \<Longrightarrow> left (drop_bits b (drop_bits p z)) < left z"
  using left_drop(1,2) [where n = b and z = "drop_bits p z"] left_drop(1,2) [where n = p and z = z] left_drop_some [of p z] assms by linarith+

lemma same_but_bits_drops: "same_but_bits z (drop_bits b (drop_bits p z))"
  by (rule same_but_bits_trans [OF same_but_bits_basic(2) same_but_bits_basic(2)])

lemma follow_good:
  assumes "good_table 1 p T"
  obtains e z' where "follow (Suc (Suc n)) T (at T (low_bits p z)) z = Some (e, z')" "final_entry 1 e" "same_but_bits z z'"
    "left z' \<le> left z" "left z - 15 \<le> left z'" "1 \<le> bits z \<Longrightarrow> left z' < left z"
proof (rule good_entry [OF assms, of z])
  let ?e = "at T (low_bits p z)"
  assume f: "final_entry 1 ?e"
  then have "\<not> (entry_op ?e \<noteq> 0 \<and> \<not> has_bit (entry_op ?e) 4 \<and> \<not> has_bit (entry_op ?e) 6)"
    using final_bits(1) [of "entry_op ?e"] by (auto simp: final_entry_def)
  then have "follow (Suc (Suc n)) T ?e z = Some (?e, drop_bits (entry_bits ?e) z)" by (auto simp: Let_def)
  moreover have "1 \<le> entry_bits ?e" "entry_bits ?e \<le> 15" using f by (simp_all add: final_entry_def)
  ultimately show thesis using that [of ?e "drop_bits (entry_bits ?e) z"] f left_drop(1,2) [where n = "entry_bits ?e" and z = z] left_drop_some [of "entry_bits ?e" z]
      same_but_bits_basic(2) by simp
next
  let ?e = "at T (low_bits p z)"
  fix e2
  assume l: "1 \<le> entry_op ?e" "entry_op ?e < 16" "entry_bits ?e = p" "1 \<le> p" "e2 = at T (entry_val ?e + low_bits (entry_op ?e) (drop_bits p z))"
    and f: "final_entry 1 e2" "p + entry_bits e2 \<le> 15"
  have g: "entry_op ?e \<noteq> 0 \<and> \<not> has_bit (entry_op ?e) 4 \<and> \<not> has_bit (entry_op ?e) 6" using final_bits(2) l(1,2) by auto
  have "\<not> (entry_op e2 \<noteq> 0 \<and> \<not> has_bit (entry_op e2) 4 \<and> \<not> has_bit (entry_op e2) 6)"
    using final_bits(1) [of "entry_op e2"] f(1) by (auto simp: final_entry_def)
  then have "follow (Suc n) T e2 (drop_bits p z) = Some (e2, drop_bits (entry_bits e2) (drop_bits p z))" by (auto simp: Let_def)
  then have "follow (Suc (Suc n)) T ?e z = Some (e2, drop_bits (entry_bits e2) (drop_bits p z))"
    unfolding follow.simps(2) [of "Suc n"] Let_def if_P [OF g] l(3) l(5) [symmetric] .
  then show thesis using that f(1) two_drops [OF f(2) l(4), of z] same_but_bits_drops by simp
qed

lemma follow_dist_good:
  assumes "good_table 2 p T"
  obtains e z' where "follow_dist (Suc (Suc n)) T (at T (low_bits p z)) z = Some (e, z')" "final_entry 2 e" "same_but_bits z z'"
    "left z' \<le> left z" "left z - 15 \<le> left z'"
proof (rule good_entry [OF assms, of z])
  let ?e = "at T (low_bits p z)"
  assume f: "final_entry 2 ?e"
  then have "\<not> (\<not> has_bit (entry_op ?e) 4 \<and> \<not> has_bit (entry_op ?e) 6)"
    using final_bits(1) [of "entry_op ?e"] by (auto simp: final_entry_def)
  then have "follow_dist (Suc (Suc n)) T ?e z = Some (?e, drop_bits (entry_bits ?e) z)" by (auto simp: Let_def)
  moreover have "1 \<le> entry_bits ?e" "entry_bits ?e \<le> 15" using f by (simp_all add: final_entry_def)
  ultimately show thesis using that [of ?e "drop_bits (entry_bits ?e) z"] f left_drop(1,2) [where n = "entry_bits ?e" and z = z]
      same_but_bits_basic(2) by simp
next
  let ?e = "at T (low_bits p z)"
  fix e2
  assume l: "1 \<le> entry_op ?e" "entry_op ?e < 16" "entry_bits ?e = p" "1 \<le> p" "e2 = at T (entry_val ?e + low_bits (entry_op ?e) (drop_bits p z))"
    and f: "final_entry 2 e2" "p + entry_bits e2 \<le> 15"
  have g: "\<not> has_bit (entry_op ?e) 4 \<and> \<not> has_bit (entry_op ?e) 6" using final_bits(2) l(1,2) by auto
  have "\<not> (\<not> has_bit (entry_op e2) 4 \<and> \<not> has_bit (entry_op e2) 6)"
    using final_bits(1) [of "entry_op e2"] f(1) by (auto simp: final_entry_def)
  then have "follow_dist (Suc n) T e2 (drop_bits p z) = Some (e2, drop_bits (entry_bits e2) (drop_bits p z))" by (auto simp: Let_def)
  then have "follow_dist (Suc (Suc n)) T ?e z = Some (e2, drop_bits (entry_bits e2) (drop_bits p z))"
    unfolding follow_dist.simps(2) [of "Suc n"] Let_def if_P [OF g] l(3) l(5) [symmetric] .
  then show thesis using that f(1) two_drops [OF f(2) l(4), of z] same_but_bits_drops by simp
qed

lemma quiet_fields [simp]:
  "quiet z (z'\<lparr>outp := x\<rparr>) = quiet z z'" "quiet z (z'\<lparr>zmode := m\<rparr>) = quiet z z'" "quiet z (bad t z') = quiet z z'"
  by (simp_all add: quiet_def config_def bad_def)

lemma left_fields [simp]:
  "left (z\<lparr>outp := x\<rparr>) = left z" "left (z\<lparr>zmode := m\<rparr>) = left z" "left (bad t z) = left z" "left (z\<lparr>zback := k\<rparr>) = left z"
  "left (z\<lparr>zlength := l\<rparr>) = left z" "left (z\<lparr>extra := l\<rparr>) = left z" "left (z\<lparr>offset := l\<rparr>) = left z" "left (z\<lparr>was := l\<rparr>) = left z"
  "left (z\<lparr>avail_out := l\<rparr>) = left z" "left (z\<lparr>zlast := l\<rparr>) = left z" "left (z\<lparr>zcheck := l\<rparr>) = left z"
  by (simp_all add: left_def bad_def)

lemma quiet_moves: "quiet z (refill2 z)" "quiet z (refill n z)" "quiet z (drop_bits n z)"
  using quiet_same [OF same_but_bits_basic(1), of z] quiet_same [OF same_but_bits_basic(2), where z = z]
    quiet_same [OF same_but_bits_trans [OF same_but_bits_basic(1) same_but_bits_basic(1)], of z]
  by (simp_all add: refill2_def refill_def)

lemma refill2_some: "1 \<le> bits (refill2 z)"
  by (simp add: refill2_def pull_byte_def)

lemma bad_mode [simp]: "zmode (bad t z) = M_BAD"
  by (simp add: bad_def)

lemma moves_mode [simp]: "zmode (refill2 z) = zmode z" "zmode (refill n z) = zmode z" "zmode (drop_bits n z) = zmode z"
  by (simp_all add: refill2_def refill_def drop_bits_def pull_byte_def)

text \<open>A round takes at least one bit and at most 48.\<close>

lemma fast_round_total:
  assumes T: "good_table 1 (lenbits z) (lencode z)" "good_table 2 (distbits z) (distcode z)" and n: "2 \<le> n"
  obtains r z' where "fast_round n beg z = Some r" "r = Inl z' \<and> zmode z' = zmode z \<or> r = Inr z' \<and> (zmode z' = M_TYPE \<or> zmode z' = M_BAD)"
    "quiet z z'" "left z' < left z" "left z - 48 \<le> left z'"
proof -
  obtain k where k: "n = Suc (Suc k)" using n by (metis Suc_le_D numeral_2_eq_2 le_Suc_ex add_2_eq_Suc)
  let ?z1 = "refill2 z"
  have q1: "quiet z ?z1" "left ?z1 = left z" "zmode ?z1 = zmode z" "1 \<le> bits ?z1"
    using quiet_moves refill2_some by simp_all
  have t1: "lencode ?z1 = lencode z" "lenbits ?z1 = lenbits z" using q1(1) by (simp_all add: quiet_def config_def)
  obtain e z2 where f: "follow n (lencode ?z1) (at (lencode ?z1) (low_bits (lenbits ?z1) ?z1)) ?z1 = Some (e, z2)" "final_entry 1 e" "same_but_bits ?z1 z2"
    "left z2 \<le> left z" "left z - 15 \<le> left z2" "left z2 < left z"
    unfolding k t1 by (rule follow_good [OF T(1), of k ?z1]) (use q1 in auto)
  have q2: "quiet z z2" using quiet_trans [OF q1(1) quiet_same [OF f(3)]] .
  have m2: "zmode z2 = zmode z" using same_but_bits_fields(6) [OF f(3)] by simp
  consider (lit) "entry_op e = 0" | (stop) "entry_op e \<noteq> 0" "\<not> has_bit (entry_op e) 4" | (len) "entry_op e \<noteq> 0" "has_bit (entry_op e) 4" by blast
  then show thesis
  proof cases
    case lit
    then show thesis by (intro that [of "Inl (z2\<lparr>outp := outp z2 @ [entry_val e mod 256]\<rparr>)" "z2\<lparr>outp := outp z2 @ [entry_val e mod 256]\<rparr>"])
        (use f q2 m2 in \<open>simp_all add: fast_round_def Let_def\<close>)
  next
    case stop
    define z' where "z' = (if has_bit (entry_op e) 5 then z2\<lparr>zmode := M_TYPE\<rparr> else bad ''invalid literal/length code'' z2)"
    show thesis by (intro that [of "Inr z'" z']) (use f q2 stop in \<open>simp_all add: fast_round_def Let_def z'_def\<close>)
  next
    case len
    let ?x = "entry_op e mod 16"
    have op: "16 \<le> entry_op e" "entry_op e \<le> 21" using f(2) len by (auto simp: final_entry_def)
    have x5: "?x \<le> 5"
    proof -
      have "?x = entry_op e - 16" using op by (simp add: le_mod_geq)
      then show ?thesis using op by simp
    qed
    define z3 where "z3 = (if ?x \<noteq> 0 then refill ?x z2 else z2)"
    define z4 where "z4 = refill2 (drop_bits ?x z3)"
    have q4: "quiet z z4" 
    proof -
      have "quiet z2 z3" using quiet_moves(2) by (simp add: z3_def)
      then have "quiet z z3" by (rule quiet_trans [OF q2])
      then show ?thesis unfolding z4_def by (rule quiet_trans [OF quiet_trans [OF _ quiet_moves(3)] quiet_moves(1)])
    qed
    have l3: "left z3 = left z2" "left z4 = left (drop_bits ?x z3)" by (simp_all add: z3_def z4_def)
    have l4: "left z4 \<le> left z2" "left z2 - 5 \<le> left z4" using left_drop(1,2) [where n = ?x and z = z3] x5 l3 by linarith+
    have m4: "zmode z4 = zmode z" using m2 by (simp add: z4_def z3_def)
    have t4: "distcode z4 = distcode z" "distbits z4 = distbits z" using q4 by (simp_all add: quiet_def config_def)
    obtain e2 z5 where g: "follow_dist n (distcode z4) (at (distcode z4) (low_bits (distbits z4) z4)) z4 = Some (e2, z5)" "final_entry 2 e2" "same_but_bits z4 z5"
      "left z5 \<le> left z4" "left z4 - 15 \<le> left z5"
      unfolding k t4 by (rule follow_dist_good [OF T(2), of k z4]) blast
    have q5: "quiet z z5" using quiet_trans [OF q4 quiet_same [OF g(3)]] .
    have m5: "zmode z5 = zmode z" using same_but_bits_fields(6) [OF g(3)] m4 by simp
    have FR: "fast_round n beg z = (let oper = entry_op e2 in
        if \<not> has_bit oper 4 then Some (Inr (bad ''invalid distance code'' z5))
        else let x = oper mod 16; z = refill x (refill x z5); v = entry_val e2 + low_bits x z in
          if dmax z < v then Some (Inr (bad ''invalid distance too far back'' z))
          else let z = drop_bits x z in
            case fast_copy beg (entry_val e + low_bits ?x z3) v z of
              None \<Rightarrow> Some (Inr (bad ''invalid distance too far back'' z))
            | Some xs \<Rightarrow> Some (Inl (z\<lparr>outp := xs\<rparr>)))"
    proof -
      have nn: "(\<not> has_bit (entry_op e) 4) = False" using len(2) by simp
      show ?thesis
        unfolding fast_round_def Let_def f(1) option.case prod.case if_not_P [OF len(1)] nn if_False
        unfolding z3_def [symmetric]
        unfolding z4_def [symmetric]
        unfolding g(1) option.case prod.case ..
    qed
    show thesis
    proof (cases "has_bit (entry_op e2) 4")
      case False
      show thesis by (rule that [of "Inr (bad ''invalid distance code'' z5)" "bad ''invalid distance code'' z5"])
          (use FR False q5 f(5,6) l4 g(4,5) in simp_all)
    next
      case True
      let ?y = "entry_op e2 mod 16"
      define z6 where "z6 = refill ?y (refill ?y z5)"
      define v where "v = entry_val e2 + low_bits ?y z6"
      define z7 where "z7 = drop_bits ?y z6"
      have op2: "16 \<le> entry_op e2" "entry_op e2 \<le> 29" using g(2) True by (auto simp: final_entry_def)
      have y13: "?y \<le> 13"
      proof -
        have "?y = entry_op e2 - 16" using op2 by (simp add: le_mod_geq)
        then show ?thesis using op2 by simp
      qed
      have q6: "quiet z z6" unfolding z6_def by (rule quiet_trans [OF quiet_trans [OF q5 quiet_moves(2)] quiet_moves(2)])
      have q7: "quiet z z7" unfolding z7_def by (rule quiet_trans [OF q6 quiet_moves(3)])
      have l6: "left z6 = left z5" "left z7 = left (drop_bits ?y z6)" by (simp_all add: z6_def z7_def)
      have l7: "left z7 \<le> left z5" "left z5 - 13 \<le> left z7" using left_drop(1,2) [where n = ?y and z = z6] y13 l6 by linarith+
      have bounds: "left z6 < left z" "left z - 48 \<le> left z6" "left z7 < left z" "left z - 48 \<le> left z7" using f(5,6) l4 g(4,5) l6 l7 by linarith+
      have m7: "zmode z7 = zmode z" using m5 by (simp add: z7_def z6_def)
      have FR': "fast_round n beg z = (if dmax z6 < v then Some (Inr (bad ''invalid distance too far back'' z6))
          else case fast_copy beg (entry_val e + low_bits ?x z3) v z7 of
              None \<Rightarrow> Some (Inr (bad ''invalid distance too far back'' z7))
            | Some xs \<Rightarrow> Some (Inl (z7\<lparr>outp := xs\<rparr>)))"
        unfolding FR z7_def v_def unfolding z6_def using True by (simp add: Let_def)
      show thesis
      proof (cases "dmax z6 < v")
        case True
        show thesis by (rule that [of "Inr (bad ''invalid distance too far back'' z6)" "bad ''invalid distance too far back'' z6"])
            (use FR' True q6 bounds in simp_all)
      next
        case False
        show thesis
        proof (cases "fast_copy beg (entry_val e + low_bits ?x z3) v z7")
          case None
          show thesis by (rule that [of "Inr (bad ''invalid distance too far back'' z7)" "bad ''invalid distance too far back'' z7"])
              (use FR' False None q7 bounds in simp_all)
        next
          case (Some xs)
          show thesis by (rule that [of "Inl (z7\<lparr>outp := xs\<rparr>)" "z7\<lparr>outp := xs\<rparr>"]) (use FR' False Some q7 bounds m7 in simp_all)
        qed
      qed
    qed
  qed
qed

lemma fast_loop_total:
  "good_table 1 (lenbits z) (lencode z) \<Longrightarrow> good_table 2 (distbits z) (distcode z) \<Longrightarrow> next_in z + 6 \<le> length (inp z) \<Longrightarrow>
   nat (left z) + 3 \<le> n \<Longrightarrow>
   \<exists>z'. fast_loop n beg (length (inp z) - 5) stop z = Some z' \<and> quiet z z' \<and> left z' < left z \<and> 0 \<le> left z' \<and>
     (zmode z' = zmode z \<or> zmode z' = M_TYPE \<or> zmode z' = M_BAD)"
proof (induction n arbitrary: z)
  case (Suc n)
  have l48: "48 \<le> left z" using Suc.prems(3) by (simp add: left_def)
  have n2: "2 \<le> n" using Suc.prems(4) by linarith
  obtain r z1 where r: "fast_round n beg z = Some r" "r = Inl z1 \<and> zmode z1 = zmode z \<or> r = Inr z1 \<and> (zmode z1 = M_TYPE \<or> zmode z1 = M_BAD)"
    "quiet z z1" "left z1 < left z" "left z - 48 \<le> left z1"
    by (rule fast_round_total [OF Suc.prems(1,2) n2])
  show ?case
  proof (cases "r = Inl z1 \<and> next_in z1 < length (inp z) - 5 \<and> next_out z1 < stop")
    case True
    have q: "inp z1 = inp z" "lencode z1 = lencode z" "lenbits z1 = lenbits z" "distcode z1 = distcode z" "distbits z1 = distbits z"
      using r(3) by (simp_all add: quiet_def config_def)
    have g: "good_table 1 (lenbits z1) (lencode z1)" "good_table 2 (distbits z1) (distcode z1)" "next_in z1 + 6 \<le> length (inp z1)"
      using Suc.prems(1,2) True unfolding q by (simp_all, linarith)
    have fl: "nat (left z1) + 3 \<le> n" using Suc.prems(4) r(4) l48 by linarith
    obtain z' where z': "fast_loop n beg (length (inp z1) - 5) stop z1 = Some z'" "quiet z1 z'" "left z' < left z1" "0 \<le> left z'"
      "zmode z' = zmode z1 \<or> zmode z' = M_TYPE \<or> zmode z' = M_BAD"
      using Suc.IH [OF g fl] by blast
    have m: "zmode z1 = zmode z" using r(2) True by auto
    have "fast_loop (Suc n) beg (length (inp z) - 5) stop z = Some z'"
      using True z'(1) by (simp add: r(1) q(1))
    then show ?thesis using quiet_trans [OF r(3) z'(2)] z'(3-5) r(4) m by (intro exI [of _ z']) simp
  next
    case False
    then have "fast_loop (Suc n) beg (length (inp z) - 5) stop z = Some z1" using r(1,2) by auto
    then show ?thesis using r(2-5) l48 by (intro exI [of _ z1]) auto
  qed
qed simp

lemma inflate_fast_total:
  assumes g: "good_table 1 (lenbits z) (lencode z)" "good_table 2 (distbits z) (distcode z)" "6 \<le> avail_in z" and n: "nat (left z) + 3 \<le> n"
  obtains z' where "inflate_fast n f z = Some z'" "config z' = config z" "inp z' = inp z" "left z' < left z" "next_in z' \<le> length (inp z)"
    "zmode z' = zmode z \<or> zmode z' = M_TYPE \<or> zmode z' = M_BAD"
proof -
  have i: "next_in z + 6 \<le> length (inp z)" using g(3) by (simp add: avail_in_def)
  obtain u where u: "fast_loop n (next_out z - (f - avail_out z)) (length (inp z) - 5) (next_out z + (avail_out z - 257)) z = Some u"
    "quiet z u" "left u < left z" "0 \<le> left u" "zmode u = zmode z \<or> zmode u = M_TYPE \<or> zmode u = M_BAD"
    using fast_loop_total [OF g(1,2) i n] by blast
  let ?z = "u\<lparr>next_in := next_in u - bits u div 8, hold := hold u mod 2 ^ (bits u mod 8), bits := bits u mod 8,
      avail_out := avail_out z + next_out z - next_out u\<rparr>"
  have b: "bits u = 8 * (bits u div 8) + bits u mod 8" "bits u mod 8 < 8" by simp_all
  have l: "left ?z \<le> left u" "next_in ?z \<le> length (inp u)"
  proof -
    have "left ?z \<le> left u \<and> next_in ?z \<le> length (inp u)"
    proof (cases "bits u div 8 \<le> next_in u")
      case True
      then have e: "int (next_in u - bits u div 8) = int (next_in u) - int (bits u div 8)" by simp
      have "int (bits u) = 8 * int (bits u div 8) + int (bits u mod 8)" using b(1) by linarith
      then have "left ?z = left u" by (simp add: left_def e)
      moreover have "next_in u - bits u div 8 \<le> length (inp u)" using u(4) b e unfolding left_def by linarith
      ultimately show ?thesis by simp
    next
      case False
      then have "next_in u - bits u div 8 = 0" "next_in u < bits u div 8" by simp_all
      then show ?thesis using b by (simp add: left_def)
    qed
    then show "left ?z \<le> left u" "next_in ?z \<le> length (inp u)" by simp_all
  qed
  have q: "config u = config z" "inp u = inp z" using u(2) by (simp_all add: quiet_def)
  show thesis
    by (rule that [of ?z]) (use u l q in \<open>simp_all add: inflate_fast_def Let_def config_def\<close>)
qed

section \<open>The measure\<close>

definition arrays :: "zstream \<Rightarrow> bool" where
  "arrays z \<longleftrightarrow> list_all (\<lambda>l. l < 16) (lens z) \<and> length (lens z) = 320 \<and> length (work z) = 288 \<and> length (lendyn z) = 852 \<and> length (distdyn z) = 592"

definition codes :: "zstream \<Rightarrow> bool" where
  "codes z \<longleftrightarrow> good_table 1 (lenbits z) (lencode z) \<and> good_table 2 (distbits z) (distcode z)"

definition mode_ok :: "zstream \<Rightarrow> bool" where
  "mode_ok z \<longleftrightarrow> (case zmode z of
     M_LENLENS \<Rightarrow> nlen z \<le> 286 \<and> ndist z \<le> 30
   | M_CODELENS \<Rightarrow> nlen z \<le> 286 \<and> ndist z \<le> 30 \<and> length (lencode z) = 852
   | M_LEN_START \<Rightarrow> codes z | M_LEN \<Rightarrow> codes z | M_LIT \<Rightarrow> codes z
   | M_LENEXT \<Rightarrow> codes z \<and> 3 \<le> zlength z \<and> zlength z \<le> 258 \<and> extra z \<le> 5
   | M_DIST \<Rightarrow> codes z \<and> 3 \<le> zlength z \<and> zlength z \<le> 300
   | M_DISTEXT \<Rightarrow> codes z \<and> 3 \<le> zlength z \<and> zlength z \<le> 300
   | M_MATCH \<Rightarrow> codes z \<and> 1 \<le> zlength z \<and> zlength z \<le> 300
   | _ \<Rightarrow> True)"

definition ok :: "zstream \<Rightarrow> bool" where
  "ok z \<longleftrightarrow> next_in z \<le> length (inp z) \<and> arrays z \<and> mode_ok z"

text \<open>
  The modes that read nothing come in this order; a copy also counts the bytes it still has to write.  A state that is reset
  (wrap is not 0 then) lies below one that is done.
\<close>

definition rank :: "zstream \<Rightarrow> nat" where
  "rank z = (case zmode z of M_HEAD \<Rightarrow> if wrap z = 0 then 40 else 1 | M_FLAGS \<Rightarrow> 34 | M_TIME \<Rightarrow> 33 | M_OS \<Rightarrow> 32 | M_EXLEN \<Rightarrow> 31
     | M_EXTRA \<Rightarrow> 30 | M_NAME \<Rightarrow> 29 | M_COMMENT \<Rightarrow> 28 | M_HCRC \<Rightarrow> 27 | M_DICTID \<Rightarrow> 26 | M_DICT \<Rightarrow> 25 | M_TYPE \<Rightarrow> 20 | M_TYPEDO \<Rightarrow> 19
     | M_STORED \<Rightarrow> 24 | M_COPY_START \<Rightarrow> 23 | M_COPY \<Rightarrow> 22 | M_TABLE \<Rightarrow> 54 | M_LENLENS \<Rightarrow> 53 | M_CODELENS \<Rightarrow> 52 | M_LEN_START \<Rightarrow> 51
     | M_LEN \<Rightarrow> 50 | M_LENEXT \<Rightarrow> 1003 | M_DIST \<Rightarrow> 1002 | M_DISTEXT \<Rightarrow> 1001 | M_MATCH \<Rightarrow> 100 + zlength z | M_LIT \<Rightarrow> 51
     | M_CHECK \<Rightarrow> 18 | M_LENGTH \<Rightarrow> 17 | M_DONE \<Rightarrow> 16 | M_BAD \<Rightarrow> 0 | M_MEM \<Rightarrow> 0)"

definition weight :: "zstream \<Rightarrow> int" where
  "weight z = 2048 * left z + int (rank z)"

definition falls :: "zstream \<Rightarrow> pass \<Rightarrow> bool" where
  "falls z p \<longleftrightarrow> (case p of
     Again z' \<Rightarrow> ok z' \<and> weight z' < weight z \<and> inp z' = inp z \<and> wrap z' = wrap z
   | Leave x z' \<Rightarrow> ok z' \<and> weight z' \<le> weight z \<and> inp z' = inp z \<and> wrap z' = wrap z \<and> avail_out z' = avail_out z \<and>
       (x = 0 \<and> (avail_in z' = 0 \<or> avail_out z' = 0) \<or> x = 1 \<and> zmode z' = M_DONE \<or> x = -3)
   | Return x z' \<Rightarrow> x = 2 \<or> x = -4
   | Endless _ \<Rightarrow> False)"

abbreviation buffered :: "nat \<Rightarrow> nat \<Rightarrow> nat \<Rightarrow> zstream \<Rightarrow> zstream" where
  "buffered h b i z \<equiv> z\<lparr>hold := h, bits := b, next_in := i\<rparr>"

lemma buffered_parts [simp]: "arrays (buffered h b i z) = arrays z" "codes (buffered h b i z) = codes z" "mode_ok (buffered h b i z) = mode_ok z" "rank (buffered h b i z) = rank z"
  by (simp_all add: arrays_def codes_def mode_ok_def rank_def cong: mode.case_cong)

lemma ok_left: "ok z \<Longrightarrow> 0 \<le> left z"
  by (simp add: ok_def left_def)

lemma taken_buffered:
  assumes "taken z z'" "ok z"
  obtains h b i where "z' = buffered h b i z" "i \<le> length (inp z)" "left (buffered h b i z) = left z"
proof -
  obtain h b i where e: "z' = buffered h b i z" using assms(1) unfolding taken_def same_but_bits_def by blast
  show thesis by (rule that [OF e]) (use assms in \<open>simp_all add: taken_def ok_def e\<close>)
qed

lemma starved_falls:
  assumes "taken z z'" "ok z" "avail_in z' = 0"
  shows "falls z (Leave 0 z')"
proof -
  obtain h b i where z': "z' = buffered h b i z" "i \<le> length (inp z)" "left (buffered h b i z) = left z" by (rule taken_buffered [OF assms(1,2)])
  then show ?thesis using assms(2,3) by (simp add: falls_def ok_def weight_def)
qed

lemma falls_need:
  assumes ok: "ok z" and k: "\<And>h b i. i \<le> length (inp z) \<Longrightarrow> n \<le> b \<Longrightarrow> left (buffered h b i z) = left z \<Longrightarrow> falls z (k (buffered h b i z))"
  shows "falls z (need n z k)"
proof -
  obtain c z' where p: "pull n z = (c, z')" by (cases "pull n z")
  note t = pull_taken [OF p]
  show ?thesis
  proof (cases c)
    case True
    obtain h b i where z': "z' = buffered h b i z" "i \<le> length (inp z)" "left (buffered h b i z) = left z" using taken_buffered [of z z'] t ok by blast
    have "n \<le> b" using t True by (simp add: z'(1))
    then show ?thesis using k [OF z'(2) _ z'(3)] by (simp add: need_def p True z'(1))
  next
    case False
    then show ?thesis using starved_falls [of z z'] t ok by (simp add: need_def p)
  qed
qed

end
