(* ===== verification/Pako_Passes.thy ===== *)
theory Pako_Passes
  imports Pako_Total
begin

text \<open>Every pass of the loop over the modes lowers the measure or leaves the loop.\<close>

section \<open>The header\<close>

lemmas pass_simps = falls_def ok_def weight_def rank_def mode_ok_def arrays_def left_def init_bits_def bad_def header_crc_def set_head_def Let_def

lemma do_head_falls: "ok z \<Longrightarrow> zmode z = M_HEAD \<Longrightarrow> falls z (do_head z)"
proof -
  assume ok: "ok z" and m: "zmode z = M_HEAD"
  show "falls z (do_head z)"
  proof (cases "wrap z = 0")
    case True
    then show ?thesis using ok m by (simp add: do_head_def pass_simps)
  next
    case False
    show ?thesis
      unfolding do_head_def if_not_P [OF False]
      by (rule falls_need [OF ok]) (use ok m False in \<open>simp add: pass_simps drop_bits_def\<close>)
  qed
qed

lemma do_flags_falls: "ok z \<Longrightarrow> zmode z = M_FLAGS \<Longrightarrow> falls z (do_flags z)"
  unfolding do_flags_def by (rule falls_need, assumption) (simp add: pass_simps)

lemma do_time_falls: "ok z \<Longrightarrow> zmode z = M_TIME \<Longrightarrow> falls z (do_time z)"
  unfolding do_time_def by (rule falls_need, assumption) (simp add: pass_simps)

lemma do_os_falls: "ok z \<Longrightarrow> zmode z = M_OS \<Longrightarrow> falls z (do_os z)"
  unfolding do_os_def by (rule falls_need, assumption) (simp add: pass_simps)

lemma do_exlen_falls: "ok z \<Longrightarrow> zmode z = M_EXLEN \<Longrightarrow> falls z (do_exlen z)"
proof (cases "has_bit (nat (zflags z)) 10")
  case True
  assume "ok z" "zmode z = M_EXLEN"
  then show ?thesis unfolding do_exlen_def if_P [OF True] by (intro falls_need) (simp_all add: pass_simps)
next
  case False
  assume "ok z" "zmode z = M_EXLEN"
  then show ?thesis unfolding do_exlen_def if_not_P [OF False] by (simp add: pass_simps)
qed

lemma do_extra_falls: "ok z \<Longrightarrow> zmode z = M_EXTRA \<Longrightarrow> falls z (do_extra z)"
proof -
  assume ok: "ok z" and m: "zmode z = M_EXTRA"
  show "falls z (do_extra z)"
  proof (cases "has_bit (nat (zflags z)) 10")
    case False
    then show ?thesis using ok m by (simp add: do_extra_def pass_simps)
  next
    case flag: True
    let ?c = "min (zlength z) (avail_in z)"
    have c: "next_in z + ?c \<le> length (inp z)" using ok by (auto simp: ok_def avail_in_def min_def)
    show ?thesis
    proof (cases "?c = 0")
      case True
      then show ?thesis using ok m flag by (auto simp: do_extra_def pass_simps min_def split: if_splits)
    next
      case nz: False
      show ?thesis
        using ok m flag nz c
        by (auto simp: do_extra_def pass_simps take_header_def avail_in_def min_def split: if_splits)
    qed
  qed
qed

lemma do_text_falls:
  assumes ok: "ok z" and m: "zmode z = m0" and r: "m0 = M_NAME \<and> m = M_COMMENT \<or> m0 = M_COMMENT \<and> m = M_HCRC"
  shows "falls z (do_text flag add none m z)"
proof (cases "has_bit (nat (zflags z)) flag")
  case False
  then show ?thesis using ok m r by (auto simp: do_text_def pass_simps)
next
  case flag: True
  show ?thesis
  proof (cases "avail_in z = 0")
    case True
    then show ?thesis using ok flag by (simp add: do_text_def falls_def)
  next
    case in0: False
    define rest where "rest = drop (next_in z) (inp z)"
    define t where "t = takeWhile (\<lambda>y. y \<noteq> 0) rest"
    have l: "length rest = avail_in z" by (simp add: rest_def avail_in_def)
    have tl: "length t \<le> length rest" unfolding t_def by (rule length_takeWhile_le)
    have zt: "zero_text z = (t, length t < length rest)" by (simp add: zero_text_def Let_def t_def rest_def)
    show ?thesis
    proof (cases "length t < length rest")
      case True
      then show ?thesis using ok m r flag in0 l by (auto simp: do_text_def zt take_header_def pass_simps avail_in_def)
    next
      case False
      then have "length t = avail_in z" using tl l by simp
      then show ?thesis using ok m r flag in0 False by (auto simp: do_text_def zt take_header_def pass_simps avail_in_def)
    qed
  qed
qed

lemma do_name_falls: "ok z \<Longrightarrow> zmode z = M_NAME \<Longrightarrow> falls z (do_name z)"
  unfolding do_name_def by (rule do_text_falls) auto

lemma do_comment_falls: "ok z \<Longrightarrow> zmode z = M_COMMENT \<Longrightarrow> falls z (do_comment z)"
  unfolding do_comment_def by (rule do_text_falls) auto

lemma do_hcrc_falls: "ok z \<Longrightarrow> zmode z = M_HCRC \<Longrightarrow> falls z (do_hcrc z)"
proof (cases "has_bit (nat (zflags z)) 9")
  case True
  assume "ok z" "zmode z = M_HCRC"
  then show ?thesis unfolding do_hcrc_def if_P [OF True] by (intro falls_need) (simp_all add: pass_simps end_header_def)
next
  case False
  assume "ok z" "zmode z = M_HCRC"
  then show ?thesis unfolding do_hcrc_def if_not_P [OF False] by (simp add: pass_simps end_header_def)
qed

lemma do_dictid_falls: "ok z \<Longrightarrow> zmode z = M_DICTID \<Longrightarrow> falls z (do_dictid z)"
  unfolding do_dictid_def by (rule falls_need, assumption) (simp add: pass_simps)

lemma do_dict_falls: "ok z \<Longrightarrow> zmode z = M_DICT \<Longrightarrow> falls z (do_dict z)"
  unfolding do_dict_def by (simp add: pass_simps)

section \<open>Blocks\<close>

lemma do_type_falls: "ok z \<Longrightarrow> zmode z = M_TYPE \<Longrightarrow> falls z (do_type 0 z)"
  unfolding do_type_def by (simp add: pass_simps)

lemma do_typedo_falls: "ok z \<Longrightarrow> zmode z = M_TYPEDO \<Longrightarrow> falls z (do_typedo 0 z)"
proof (cases "zlast z = 0")
  case False
  assume "ok z" "zmode z = M_TYPEDO"
  then show ?thesis using False by (simp add: do_typedo_def pass_simps drop_bits_def)
next
  case True
  assume "ok z" "zmode z = M_TYPEDO"
  then show ?thesis
    unfolding do_typedo_def using True fixed_tables_good
    by (simp, intro falls_need) (simp_all add: pass_simps drop_bits_def fixedtables_def codes_def)
qed

lemma do_stored_falls: "ok z \<Longrightarrow> zmode z = M_STORED \<Longrightarrow> falls z (do_stored 0 z)"
proof -
  assume ok: "ok z" and m: "zmode z = M_STORED"
  let ?w = "drop_bits (bits z mod 8) z"
  have w: "ok ?w" "weight ?w \<le> weight z" "zmode ?w = M_STORED" "inp ?w = inp z" "wrap ?w = wrap z" "avail_out ?w = avail_out z"
    using ok m by (simp_all add: pass_simps drop_bits_def)
  have "falls ?w (do_stored 0 z)"
    unfolding do_stored_def by (rule falls_need [OF w(1)]) (use w m in \<open>simp add: pass_simps drop_bits_def\<close>)
  then show "falls z (do_stored 0 z)" using w(2,4-6) by (auto simp: falls_def split: pass.splits)
qed

lemma do_copy_falls: "ok z \<Longrightarrow> zmode z = M_COPY \<Longrightarrow> falls z (do_copy z)"
  by (auto simp: do_copy_def pass_simps min_def avail_in_def split: if_splits)

lemma do_table_falls: "ok z \<Longrightarrow> zmode z = M_TABLE \<Longrightarrow> falls z (do_table z)"
  unfolding do_table_def by (rule falls_need, assumption) (simp add: pass_simps drop_bits_def)

section \<open>Code lengths\<close>

text \<open>Reading lengths changes the buffer, the lengths and their count.\<close>

definition small_lens :: "nat list \<Rightarrow> bool" where
  "small_lens ls \<longleftrightarrow> list_all (\<lambda>l. l < 16) ls \<and> length ls = 320"

lemma small_update: "small_lens ls \<Longrightarrow> y < 16 \<Longrightarrow> small_lens (ls[k := y])"
  using set_update_subset_insert [of ls k y] by (auto simp: small_lens_def list_all_iff)

lemma small_updates: "small_lens ls \<Longrightarrow> y < 16 \<Longrightarrow> small_lens (foldl (\<lambda>ls k. ls[f k := y]) ls ks)"
  by (induction ks arbitrary: ls) (simp_all add: small_update)

lemma small_at: "small_lens ls \<Longrightarrow> at ls k < 16"
  by (auto simp: small_lens_def list_all_length at_def)

definition lens_moved :: "zstream \<Rightarrow> zstream \<Rightarrow> bool" where
  "lens_moved z z' \<longleftrightarrow> (\<exists>h b i ls g. z' = z\<lparr>hold := h, bits := b, next_in := i, lens := ls, got := g\<rparr> \<and>
     (next_in z \<le> length (inp z) \<longrightarrow> i \<le> length (inp z)) \<and> left z' \<le> left z \<and> (small_lens (lens z) \<longrightarrow> small_lens ls))"

lemma lens_moved_refl [simp]: "lens_moved z z"
  unfolding lens_moved_def
  by (rule exI [of _ "hold z"], rule exI [of _ "bits z"], rule exI [of _ "next_in z"], rule exI [of _ "lens z"], rule exI [of _ "got z"]) simp

lemma lens_moved_trans: "lens_moved z z' \<Longrightarrow> lens_moved z' z'' \<Longrightarrow> lens_moved z z''"
  unfolding lens_moved_def by (elim exE conjE, intro exI conjI) (assumption | simp)+

lemma lens_moved_taken: "taken z z' \<Longrightarrow> lens_moved z z'"
proof -
  assume t: "taken z z'"
  then obtain h b i where e: "z' = z\<lparr>hold := h, bits := b, next_in := i\<rparr>" unfolding taken_def same_but_bits_def by blast
  then have "z' = z\<lparr>hold := h, bits := b, next_in := i, lens := lens z, got := got z\<rparr>" by simp
  then show ?thesis using t unfolding lens_moved_def taken_def e by (intro exI conjI) (assumption | simp)+
qed

lemma lens_moved_drop: "lens_moved z (drop_bits n z)"
proof -
  have "drop_bits n z = z\<lparr>hold := hold z div 2 ^ n, bits := bits z - n, next_in := next_in z, lens := lens z, got := got z\<rparr>" by (simp add: drop_bits_def)
  then show ?thesis unfolding lens_moved_def using left_drop(1) by blast
qed

lemma lens_moved_lens:
  assumes "small_lens (lens z) \<Longrightarrow> small_lens ls"
  shows "lens_moved z (z\<lparr>lens := ls, got := g\<rparr>)"
proof -
  have "z\<lparr>lens := ls, got := g\<rparr> = z\<lparr>hold := hold z, bits := bits z, next_in := next_in z, lens := ls, got := g\<rparr>" by simp
  moreover have "left (z\<lparr>lens := ls, got := g\<rparr>) \<le> left z" by (simp add: left_def)
  ultimately show ?thesis unfolding lens_moved_def using assms by blast
qed

lemma read_code_lens_moved: "read_code_lens z = (c, z') \<Longrightarrow> small_lens (lens z) \<Longrightarrow> lens_moved z z' \<and> (c \<or> avail_in z' = 0)"
proof (induction z rule: read_code_lens.induct)
  case (1 z)
  show ?case
  proof (cases "got z < ncode z")
    case False
    then show ?thesis using 1(2) by (simp add: read_code_lens.simps [of z])
  next
    case True
    obtain d z1 where p: "pull 3 z = (d, z1)" by (cases "pull 3 z")
    note t = pull_taken [OF p]
    show ?thesis
    proof (cases d)
      case False
      then show ?thesis using 1(2) True p t lens_moved_taken by (simp add: read_code_lens.simps [of z])
    next
      case d: True
      let ?ls = "(lens z)[at code_order (got z) := hold z1 mod 8]"
      let ?u = "z\<lparr>hold := hold z1, bits := bits z1, next_in := next_in z1, lens := ?ls, got := got z + 1\<rparr>"
      have e1: "z1 = z\<lparr>hold := hold z1, bits := bits z1, next_in := next_in z1\<rparr>" using t unfolding taken_def same_but_bits_def by auto
      have r: "read_code_lens (drop_bits 3 ?u) = (c, z')" using 1(2) True p d by (simp add: read_code_lens.simps [of z])
      have y: "hold z1 mod 8 < 16" using mod_less_divisor [of 8 "hold z1"] by linarith
      have s1: "small_lens ?ls" by (rule small_update [OF 1(3) y])
      have "lens_moved z1 (z1\<lparr>lens := ?ls, got := got z + 1\<rparr>)" by (rule lens_moved_lens) (rule s1)
      moreover have "z1\<lparr>lens := ?ls, got := got z + 1\<rparr> = ?u" by (subst e1) simp
      ultimately have "lens_moved z1 ?u" by (simp only:)
      then have m: "lens_moved z (drop_bits 3 ?u)" using lens_moved_trans lens_moved_taken lens_moved_drop t by meson
      have s2: "small_lens (lens (drop_bits 3 ?u))" using s1 by (simp add: drop_bits_def)
      show ?thesis using 1(1) [OF True p [symmetric] _ r s2] d lens_moved_trans [OF m] by simp
    qed
  qed
qed

definition lens_end :: "lens_pass \<Rightarrow> zstream" where
  "lens_end r = (case r of Lens_go z \<Rightarrow> z | Lens_starved z \<Rightarrow> z | Lens_bad z \<Rightarrow> z)"

text \<open>A round goes on, is starved, or has found an error.\<close>

definition lens_result :: "zstream \<Rightarrow> lens_pass \<Rightarrow> bool" where
  "lens_result z r \<longleftrightarrow> (case r of
     Lens_go z' \<Rightarrow> lens_moved z z'
   | Lens_starved z' \<Rightarrow> lens_moved z z' \<and> avail_in z' = 0
   | Lens_bad z' \<Rightarrow> \<exists>z1 t. lens_moved z z1 \<and> z' = bad t z1)"

lemma lens_result_trans: "lens_moved z z1 \<Longrightarrow> lens_result z1 r \<Longrightarrow> lens_result z r"
  unfolding lens_result_def using lens_moved_trans by (auto split: lens_pass.splits)

lemma set_lens_moved: "y < 16 \<or> \<not> small_lens (lens z) \<Longrightarrow> lens_moved z (set_lens c y z)"
  unfolding set_lens_def by (rule lens_moved_lens) (auto intro: small_updates [where f = "\<lambda>k. k"])

lemma lens_round_result:
  assumes "small_lens (lens z)"
  shows "lens_result z (lens_round z)"
proof -
  obtain eo u where p: "pull_entry (\<lambda>z. root_entry (lencode z) (lenbits z) z) 0 z = (eo, u)"
    by (cases "pull_entry (\<lambda>z. root_entry (lencode z) (lenbits z) z) 0 z")
  note t = pull_entry_taken [OF p]
  have mu: "lens_moved z u" using t lens_moved_taken by blast
  show ?thesis
  proof (cases eo)
    case None
    then show ?thesis using p t mu by (simp add: lens_round_def lens_result_def)
  next
    case (Some e)
    let ?m = "entry_bits e" and ?g = "entry_val e"
    have su: "lens u = lens z" using t unfolding taken_def by (simp add: same_but_bits_fields)
    show ?thesis
    proof (cases "?g < 16")
      case True
      have "lens_moved u (set_lens 1 ?g (drop_bits ?m u))"
        by (rule lens_moved_trans [OF lens_moved_drop set_lens_moved]) (use True in simp)
      then show ?thesis using p Some True lens_moved_trans [OF mu] by (simp add: lens_round_def lens_result_def Let_def)
    next
      case False
      define k where "k = (if ?g = 16 then 2 else if ?g = 17 then 3 else 7 :: nat)"
      obtain c v where q: "pull (?m + k) u = (c, v)" by (cases "pull (?m + k) u")
      note tq = pull_taken [OF q]
      have mv: "lens_moved z v" using lens_moved_trans [OF mu] lens_moved_taken tq by blast
      show ?thesis
      proof (cases c)
        case starved: False
        then show ?thesis using p Some False q tq mv by (simp add: lens_round_def lens_result_def Let_def k_def [symmetric])
      next
        case True
        define w where "w = drop_bits ?m v"
        have mw: "lens_moved z w" unfolding w_def by (rule lens_moved_trans [OF mv lens_moved_drop])
        have sw: "lens w = lens z" 
        proof -
          have "same_but_bits u v" using tq by (simp add: taken_def)
          then have "lens v = lens u" by (rule same_but_bits_fields(5))
          then show ?thesis using su by (simp add: w_def drop_bits_def)
        qed
        define y where "y = (if ?g = 16 then at (lens w) (got w - 1) else 0)"
        have y16: "y < 16" using small_at [OF assms] by (simp add: y_def sw)
        have R: "lens_round z = (if ?g = 16 \<and> got w = 0 then Lens_bad (bad ''invalid bit length repeat'' w)
            else repeat_lens ?m y (if ?g = 16 \<or> ?g = 17 then 3 else 11) k (nlen w + ndist w) w)"
          using p Some False q True by (simp add: lens_round_def Let_def k_def [symmetric] w_def [symmetric] y_def)
        show ?thesis
        proof (cases "?g = 16 \<and> got w = 0")
          case True
          then show ?thesis unfolding R using mw by (auto simp: lens_result_def)
        next
          case False
          let ?d = "drop_bits k w"
          have md: "lens_moved z ?d" by (rule lens_moved_trans [OF mw lens_moved_drop])
          have "lens_moved z (set_lens n y ?d)" for n by (rule lens_moved_trans [OF md set_lens_moved]) (use y16 in simp)
          then show ?thesis unfolding R if_not_P [OF False] repeat_lens_def Let_def using md by (auto simp: lens_result_def)
        qed
      qed
    qed
  qed
qed

lemma read_lens_result: "small_lens (lens z) \<Longrightarrow> lens_result z (read_lens z)"
proof (induction z rule: read_lens.induct)
  case (1 z)
  note r = lens_round_result [OF 1(2)]
  show ?case
  proof (cases "got z < nlen z + ndist z")
    case False
    then show ?thesis by (simp add: read_lens.simps [of z] lens_result_def)
  next
    case True
    show ?thesis
    proof (cases "lens_round z")
      case (Lens_go z')
      have m: "lens_moved z z'" using r by (simp add: lens_result_def Lens_go)
      then have "small_lens (lens z')" using 1(2) unfolding lens_moved_def by auto
      from lens_result_trans [OF m 1(1) [OF True Lens_go this]] show ?thesis using True by (simp add: read_lens.simps [of z] Lens_go)
    qed (use r True in \<open>simp_all add: read_lens.simps [of z]\<close>)
  qed
qed

text \<open>A table keeps its size, whatever comes of it.\<close>

lemma place_symbol_length:
  "place_symbol ty ls r g p t = Inl u \<Longrightarrow> length (t_n u) = length (t_n t)"
  "place_symbol ty ls r g p t = Inr (b, u) \<Longrightarrow> length (t_n u) = length (t_n t)"
proof -
  define e where "e = (let sym = at r (t_m t);
          u = (if ty = 0 then 20 else if ty = 1 then 257 else 0);
          base = (if ty = 0 then r else if ty = 1 then lbase else dbase);
          ext = (if ty = 0 then r else if ty = 1 then lext else dext) in
          (if sym + 1 < u then (0, sym) else if u \<le> sym then (at ext (sym - u), at base (sym - u)) else (96, 0)))"
  obtain oper val where ov: "e = (oper, val)" by (cases e)
  define n where "n = fill (t_c t + t_z t div 2 ^ t_v t) (2 ^ (t_w t - t_v t)) (2 ^ t_k t) (entry (t_w t - t_v t) oper val) (t_n t)"
  have n: "length n = length (t_n t)" by (simp add: n_def fill_length)
  note d = place_symbol_def [of ty ls r g p t, unfolded Let_def, folded e_def [unfolded Let_def], unfolded ov prod.case, folded n_def]
  show "place_symbol ty ls r g p t = Inl u \<Longrightarrow> length (t_n u) = length (t_n t)"
    unfolding d using n by (auto split: if_splits)
  show "place_symbol ty ls r g p t = Inr (b, u) \<Longrightarrow> length (t_n u) = length (t_n t)"
    unfolding d using n by (auto split: if_splits)
qed

lemma place_symbols_length:
  "place_symbols i ty ls r g p t = Inl u \<Longrightarrow> length (t_n u) = length (t_n t)"
  "place_symbols i ty ls r g p t = Inr u \<Longrightarrow> length (t_n u) = length (t_n t)"
proof (induction i arbitrary: t)
  case (Suc i)
  {
    case 1
    then show ?case using Suc place_symbol_length [of ty ls r g p t] by (auto split: sum.splits prod.splits bool.splits)
  next
    case 2
    then show ?case using Suc place_symbol_length [of ty ls r g p t] by (auto split: sum.splits prod.splits bool.splits)
  }
qed simp_all

lemma inflate_table_length: "length (tr_table (inflate_table ty ls table wk b)) = length table"
proof -
  have "length (tr_table (case place_symbols i ty ls r g p t of
      Inl u \<Rightarrow> \<lparr>tr_ret = 1, tr_table = t_n u, tr_work = w, tr_bits = b\<rparr>
    | Inr u \<Rightarrow> \<lparr>tr_ret = 0, tr_table = (if t_z u \<noteq> 0 then (t_n u)[t_c u + t_z u := entry (t_w u - t_v u) 64 0] else t_n u), tr_work = w, tr_bits = q\<rparr>))
    = length (t_n t)" for i r g p t w q
    by (cases "place_symbols i ty ls r g p t") (simp_all add: place_symbols_length)
  then show ?thesis unfolding inflate_table_def Let_def by (simp split: option.split)
qed

lemma lens_moved_parts:
  assumes "lens_moved z z'" "ok z"
  obtains h b i ls g where "z' = z\<lparr>hold := h, bits := b, next_in := i, lens := ls, got := g\<rparr>" "i \<le> length (inp z)" "small_lens ls" "left z' \<le> left z"
  using assms unfolding lens_moved_def ok_def arrays_def small_lens_def by blast

lemma do_lenlens_falls: "ok z \<Longrightarrow> zmode z = M_LENLENS \<Longrightarrow> falls z (do_lenlens z)"
proof -
  assume ok: "ok z" and m: "zmode z = M_LENLENS"
  have sm: "small_lens (lens z)" using ok by (simp add: ok_def arrays_def small_lens_def)
  obtain c u where r: "read_code_lens z = (c, u)" by (cases "read_code_lens z")
  note mv = read_code_lens_moved [OF r sm]
  obtain h b i ls g where u: "u = z\<lparr>hold := h, bits := b, next_in := i, lens := ls, got := g\<rparr>" "i \<le> length (inp z)" "small_lens ls" "left u \<le> left z"
    by (rule lens_moved_parts [OF conjunct1 [OF mv] ok])
  have w: "length (work z) = 288" "length (lendyn z) = 852" "length (distdyn z) = 592" "nlen z \<le> 286" "ndist z \<le> 30"
    using ok m by (simp_all add: ok_def arrays_def mode_ok_def)
  show "falls z (do_lenlens z)"
  proof (cases c)
    case False
    then show ?thesis using r mv u w m by (simp add: do_lenlens_def falls_def ok_def arrays_def mode_ok_def small_lens_def weight_def rank_def)
  next
    case True
    define ls' where "ls' = foldl (\<lambda>ls k. ls[at code_order k := 0]) (lens u) [got u..<19]"
    define R where "R = inflate_table 0 (take 19 ls') (lendyn u) (work u) 7"
    have s': "small_lens ls'" unfolding ls'_def by (rule small_updates) (use u in simp_all)
    have R: "length (tr_table R) = 852" "length (tr_work R) = 288" by (simp_all add: R_def inflate_table_length inflate_table_work u(1) w)
    have e: "do_lenlens z = (let v = u\<lparr>lens := ls', lencode := tr_table R, lendyn := tr_table R, work := tr_work R, lenbits := tr_bits R, got := max 19 (got u)\<rparr>
        in if tr_ret R \<noteq> 0 then Again (bad ''invalid code lengths set'' v) else Again (v\<lparr>got := 0, zmode := M_CODELENS\<rparr>))"
      unfolding do_lenlens_def r prod.case eqTrueI [OF True] bool.case Let_def ls'_def [symmetric] R_def [symmetric] ..
    have l: "left (u\<lparr>lens := x, lencode := x2, lendyn := x3, work := x4, lenbits := x5, got := x6, zmode := x7\<rparr>) = left u"
      "left (u\<lparr>lens := x, lencode := x2, lendyn := x3, work := x4, lenbits := x5, got := x6, msg := x8, zmode := x7\<rparr>) = left u" for x x2 x3 x4 x5 x6 x7 x8
      by (simp_all add: left_def)
    show ?thesis
      unfolding e Let_def bad_def
      using R s' u w m l by (simp add: falls_def ok_def arrays_def mode_ok_def small_lens_def weight_def rank_def)
  qed
qed

lemma do_codelens_falls: "ok z \<Longrightarrow> zmode z = M_CODELENS \<Longrightarrow> falls z (do_codelens 0 z)"
proof -
  assume ok: "ok z" and m: "zmode z = M_CODELENS"
  have sm: "small_lens (lens z)" using ok by (simp add: ok_def arrays_def small_lens_def)
  note res = read_lens_result [OF sm]
  have w: "length (work z) = 288" "length (lendyn z) = 852" "length (distdyn z) = 592" "nlen z \<le> 286" "ndist z \<le> 30" "length (lencode z) = 852"
    using ok m by (simp_all add: ok_def arrays_def mode_ok_def)
  show "falls z (do_codelens 0 z)"
  proof (cases "read_lens z")
    case (Lens_starved u)
    then have mv: "lens_moved z u" "avail_in u = 0" using res by (simp_all add: lens_result_def)
    obtain h b i ls g where u: "u = z\<lparr>hold := h, bits := b, next_in := i, lens := ls, got := g\<rparr>" "i \<le> length (inp z)" "small_lens ls" "left u \<le> left z"
      by (rule lens_moved_parts [OF mv(1) ok])
    show ?thesis using mv(2) u w m by (simp add: do_codelens_def Lens_starved falls_def ok_def arrays_def mode_ok_def small_lens_def weight_def rank_def)
  next
    case (Lens_bad v)
    then obtain u t where mv: "lens_moved z u" "v = bad t u" using res by (auto simp: lens_result_def)
    obtain h b i ls g where u: "u = z\<lparr>hold := h, bits := b, next_in := i, lens := ls, got := g\<rparr>" "i \<le> length (inp z)" "small_lens ls" "left u \<le> left z"
      by (rule lens_moved_parts [OF mv(1) ok])
    have l: "left v = left u" by (simp add: mv(2))
    show ?thesis using l u w m mv(2) by (simp add: do_codelens_def Lens_bad falls_def ok_def arrays_def mode_ok_def small_lens_def weight_def rank_def bad_def)
  next
    case (Lens_go u)
    then have mv: "lens_moved z u" using res by (simp add: lens_result_def)
    obtain h b i ls g where u: "u = z\<lparr>hold := h, bits := b, next_in := i, lens := ls, got := g\<rparr>" "i \<le> length (inp z)" "small_lens ls" "left u \<le> left z"
      by (rule lens_moved_parts [OF mv ok])
    define ls1 ls2 where "ls1 = take (nlen u) (lens u)" and "ls2 = take (ndist u) (drop (nlen u) (lens u))"
    define R1 where "R1 = inflate_table 1 ls1 (lencode u) (work u) 9"
    define R2 where "R2 = inflate_table 2 ls2 (distdyn u) (tr_work R1) 6"
    have sl: "list_all (\<lambda>l. l < 16) ls" "length ls = 320" using u(3) by (simp_all add: small_lens_def)
    have l1: "list_all (\<lambda>l. l < 16) ls1" "list_all (\<lambda>l. l < 16) ls2" "length ls1 \<le> 286" "length ls2 \<le> 30"
      using sl w(4,5) by (auto simp: ls1_def ls2_def u(1) list_all_iff dest: in_set_takeD in_set_dropD)
    have len: "length (tr_table R1) = 852" "length (tr_work R1) = 288" "length (tr_table R2) = 592" "length (tr_work R2) = 288"
      by (simp_all add: R1_def R2_def inflate_table_length inflate_table_work u(1) w)
    have g1: "good_table 1 (tr_bits R1) (tr_table R1)" if "tr_ret R1 = 0"
      unfolding R1_def by (rule built_good) (use that l1 w in \<open>simp_all add: R1_def u(1) table_sized_def\<close>)
    have g2: "good_table 2 (tr_bits R2) (tr_table R2)" if "tr_ret R2 = 0"
      unfolding R2_def by (rule built_good) (use that l1 w len(2) in \<open>simp_all add: R2_def u(1) table_sized_def\<close>)
    define u1 where "u1 = u\<lparr>lencode := tr_table R1, lendyn := tr_table R1, work := tr_work R1, lenbits := tr_bits R1\<rparr>"
    define u2 where "u2 = u1\<lparr>distcode := tr_table R2, distdyn := tr_table R2, work := tr_work R2, distbits := tr_bits R2\<rparr>"
    have e: "do_codelens 0 z = (if at (lens u) 256 = 0 then Again (bad ''invalid code -- missing end-of-block'' u)
        else if tr_ret R1 \<noteq> 0 then Again (bad ''invalid literal/lengths set'' u1)
        else if tr_ret R2 \<noteq> 0 then Again (bad ''invalid distances set'' u2) else Again (u2\<lparr>zmode := M_LEN_START\<rparr>))"
    proof -
      have f: "ndist u1 = ndist u" "nlen u1 = nlen u" "lens u1 = lens u" "distdyn u1 = distdyn u" "work u1 = tr_work R1" by (simp_all add: u1_def)
      show ?thesis
        unfolding do_codelens_def Lens_go lens_pass.case Let_def
        unfolding ls1_def [symmetric]
        unfolding R1_def [symmetric]
        unfolding u1_def [symmetric]
        unfolding f
        unfolding ls2_def [symmetric]
        unfolding R2_def [symmetric]
        unfolding u2_def [symmetric] by simp
    qed
    have lf: "left u1 = left u" "left u2 = left u" by (simp_all add: left_def u1_def u2_def)
    have arr: "arrays u" "arrays u1" "arrays u2" using sl w len by (simp_all add: arrays_def u1_def u2_def u(1))
    have fr: "next_in v = i \<and> inp v = inp z \<and> wrap v = wrap z" if "v = u \<or> v = u1 \<or> v = u2" for v
      using that by (auto simp: u1_def u2_def u(1))
    have a: "falls z (Again v')" if v: "v = u \<or> v = u1 \<or> v = u2" and v': "v' = bad t v" for v v' t
    proof -
      have "arrays v'" "left v' \<le> left z" "next_in v' = i" "inp v' = inp z" "wrap v' = wrap z" "zmode v' = M_BAD"
        using v arr lf u(4) fr [OF v] by (auto simp: v' arrays_def bad_def left_def)
      then show ?thesis using u(2) m by (simp add: falls_def ok_def mode_ok_def weight_def rank_def)
    qed
    have c: "falls z (Again (u2\<lparr>zmode := M_LEN_START\<rparr>))" if r: "tr_ret R1 = 0" "tr_ret R2 = 0"
    proof -
      have "codes u2" using g1 [OF r(1)] g2 [OF r(2)] by (simp add: codes_def u2_def u1_def)
      then have "codes (u2\<lparr>zmode := M_LEN_START\<rparr>)" "arrays (u2\<lparr>zmode := M_LEN_START\<rparr>)" using arr(3) by (simp_all add: codes_def arrays_def)
      then show ?thesis using lf u(2,4) fr [of u2] m by (simp add: falls_def ok_def mode_ok_def weight_def rank_def)
    qed
    show ?thesis unfolding e using a c by simp
  qed
qed

section \<open>Symbols\<close>

text \<open>A symbol in the slow modes: the entry is final, and its bits are there.\<close>

definition read_moved :: "zstream \<Rightarrow> zstream \<Rightarrow> bool" where
  "read_moved z z' \<longleftrightarrow> (\<exists>h b i k. z' = z\<lparr>hold := h, bits := b, next_in := i, zback := k\<rparr> \<and> i \<le> length (inp z) \<and> left z' \<le> left z)"

lemma read_moved_taken: "taken z z' \<Longrightarrow> next_in z \<le> length (inp z) \<Longrightarrow> read_moved z z'"
proof -
  assume t: "taken z z'" and n: "next_in z \<le> length (inp z)"
  obtain h b i where e: "z' = z\<lparr>hold := h, bits := b, next_in := i\<rparr>" using t unfolding taken_def same_but_bits_def by blast
  then have "z' = z\<lparr>hold := h, bits := b, next_in := i, zback := zback z\<rparr>" by simp
  moreover have "i \<le> length (inp z)" using t n by (simp add: taken_def e)
  moreover have "left z' \<le> left z" using t by (simp add: taken_def)
  ultimately show ?thesis unfolding read_moved_def by blast
qed

lemma read_moved_drop:
  assumes "read_moved z z'"
  shows "read_moved z ((drop_bits n z')\<lparr>zback := k\<rparr>)"
proof -
  obtain h b i k' where e: "z' = z\<lparr>hold := h, bits := b, next_in := i, zback := k'\<rparr>" "i \<le> length (inp z)" "left z' \<le> left z"
    using assms unfolding read_moved_def by blast
  have "(drop_bits n z')\<lparr>zback := k\<rparr> = z\<lparr>hold := h div 2 ^ n, bits := b - n, next_in := i, zback := k\<rparr>" by (simp add: e(1) drop_bits_def)
  moreover have "left ((drop_bits n z')\<lparr>zback := k\<rparr>) \<le> left z" using left_drop(1) [of n z'] e(3) by simp
  ultimately show ?thesis unfolding read_moved_def using e(2) by blast
qed

lemma read_moved_trans: "read_moved z z' \<Longrightarrow> read_moved z' z'' \<Longrightarrow> read_moved z z''"
  unfolding read_moved_def by (elim exE conjE, intro exI conjI) (assumption | simp)+

lemma no_final_link: "1 \<le> entry_op e \<Longrightarrow> entry_op e < 16 \<Longrightarrow> \<not> final_entry ty e"
  using final_bits(2) [of "entry_op e"] by (auto simp: final_entry_def)

lemma symbol_final:
  assumes T: "good_table ty p T" and ty: "ty = 1 \<or> ty = 2" and pe: "pull_entry look 0 z = (Some e0, z1)" "look z1 = at T (low_bits p z1)" and n: "next_in z \<le> length (inp z)"
    and C: "\<And>e. C e \<longleftrightarrow> (ty = 2 \<or> entry_op e \<noteq> 0) \<and> entry_op e div 16 = 0" and s: "symbol_entry_of C T e0 z1 = (eo, z2)"
  shows "read_moved z z2 \<and> (case eo of None \<Rightarrow> avail_in z2 = 0 | Some e \<Rightarrow> final_entry ty e \<and> entry_bits e \<le> bits z2)"
proof -
  have t: "taken z z1" "e0 = at T (low_bits p z1)" "entry_bits e0 \<le> bits z1" 
    using pull_entry_taken [OF pe(1)] unfolding pe(2) option.case add_0 by blast+
  have r1: "read_moved z z1" by (rule read_moved_taken [OF t(1) n])
  have n1: "next_in z1 \<le> length (inp z1)" using r1 unfolding read_moved_def by auto
  have g: "final_entry ty e0 \<or> 1 \<le> entry_op e0 \<and> entry_op e0 < 16"
    using good_entry [OF T, of z1] unfolding t(2) by blast
  show ?thesis
  proof (cases "C e0")
    case False
    then have "final_entry ty e0" using g C by auto
    then show ?thesis using False s t(3) r1 by (auto simp: symbol_entry_of_def)
  next
    case True
    have op: "1 \<le> entry_op e0" "entry_op e0 < 16"
    proof -
      have "entry_op e0 < 16" using True C by (simp add: div_eq_0_iff)
      moreover have "\<not> final_entry ty e0 \<or> entry_op e0 \<noteq> 0" using True C ty by (auto simp: final_entry_def final_bits)
      moreover have "\<not> final_entry ty e0" if "entry_op e0 \<noteq> 0" using no_final_link [of e0] calculation(1) that by simp
      ultimately show "1 \<le> entry_op e0" "entry_op e0 < 16" using g by auto
    qed
    have nf: "\<not> final_entry ty e0" by (rule no_final_link [OF op])
    have p: "entry_bits e0 = p" "1 \<le> p" using good_entry [OF T, of z1] nf unfolding t(2) by blast+
    obtain eo2 z3 where q: "pull_entry (second_entry T e0) (entry_bits e0) z1 = (eo2, z3)" by (cases "pull_entry (second_entry T e0) (entry_bits e0) z1")
    note tq = pull_entry_taken [OF q]
    have r3: "read_moved z z3" using read_moved_trans [OF r1 read_moved_taken [OF _ n1]] tq by blast
    show ?thesis
    proof (cases eo2)
      case None
      then have "eo = None" "z2 = z3" using s True q by (simp_all add: symbol_entry_of_def)
      then show ?thesis using r3 tq None by simp
    next
      case (Some e)
      then have e: "eo = Some e" "z2 = (drop_bits (entry_bits e0) z3)\<lparr>zback := zback z3 + int (entry_bits e0)\<rparr>"
        using s True q by (simp_all add: symbol_entry_of_def)
      have h: "hold z3 mod 2 ^ p = hold z1 mod 2 ^ p" using tq t(3) p(1) by simp
      have e0': "at T (hold z3 mod 2 ^ p) = e0" unfolding h t(2) low_bits_def ..
      have "e = second_entry T e0 z3" "p + entry_bits e \<le> bits z3" using tq unfolding Some option.case p(1) by blast+
      moreover have "hold z3 mod 2 ^ (p + entry_op e0) div 2 ^ p = hold z3 div 2 ^ p mod 2 ^ entry_op e0"
        by (simp add: power_add mod_mult2_eq)
      ultimately have e1: "e = at T (entry_val e0 + hold z3 div 2 ^ p mod 2 ^ entry_op e0)" "p + entry_bits e \<le> bits z3"
        by (simp_all add: second_entry_def p(1) low_bits_def)
      have "final_entry ty e"
        using T [unfolded good_table_def Let_def, THEN spec, of "hold z3"] nf unfolding e0' e1(1) by blast
      then show ?thesis using e e1(2) read_moved_drop [OF r3] p(1) by (simp add: drop_bits_def)
    qed
  qed
qed

lemma read_starved_falls:
  assumes ok: "ok z" and r: "read_moved z u" and a: "avail_in u = 0"
  shows "falls z (Leave 0 u)"
proof -
  obtain h b i k where u: "u = z\<lparr>hold := h, bits := b, next_in := i, zback := k\<rparr>" "i \<le> length (inp z)" "left u \<le> left z"
    using r unfolding read_moved_def by blast
  have "arrays u = arrays z" "codes u = codes z" "zmode u = zmode z" "rank u = rank z" "mode_ok u = mode_ok z"
    by (simp_all add: u(1) arrays_def codes_def rank_def mode_ok_def cong: mode.case_cong)
  then show ?thesis using ok u a by (simp add: falls_def ok_def weight_def)
qed

lemma do_len_falls:
  assumes ok: "ok z" and m: "zmode z = M_LEN" and fuel: "nat (left z) + 3 \<le> n"
  shows "falls z (do_len n f z)"
proof -
  have g: "good_table 1 (lenbits z) (lencode z)" "good_table 2 (distbits z) (distcode z)" and n: "next_in z \<le> length (inp z)" and ar: "arrays z"
    using ok m by (simp_all add: ok_def mode_ok_def codes_def)
  show ?thesis
  proof (cases "6 \<le> avail_in z \<and> 258 \<le> avail_out z")
    case True
    then have a: "6 \<le> avail_in z" by simp
    obtain u where u: "inflate_fast n f z = Some u" "config u = config z" "inp u = inp z" "left u < left z" "next_in u \<le> length (inp z)"
      "zmode u = zmode z \<or> zmode u = M_TYPE \<or> zmode u = M_BAD"
      by (rule inflate_fast_total [OF g a fuel])
    define v where "v = (if zmode u = M_TYPE then u\<lparr>zback := -1\<rparr> else u)"
    have v: "do_len n f z = Again v" using True u(1) by (simp add: do_len_def v_def)
    have cv: "config v = config z" "inp v = inp z" "left v < left z" "next_in v \<le> length (inp z)" "zmode v = zmode u"
      using u by (simp_all add: v_def config_def)
    have "arrays v" "codes v" "wrap v = wrap z" using ar g config_fields [OF cv(1)] by (simp_all add: arrays_def codes_def)
    then show ?thesis unfolding v using cv u(6) m by (auto simp: falls_def ok_def mode_ok_def weight_def rank_def)
  next
    case slow: False
    let ?z = "z\<lparr>zback := 0\<rparr>"
    have z0: "ok ?z" "next_in ?z \<le> length (inp ?z)" using ok n by (simp_all add: ok_def arrays_def mode_ok_def codes_def m)
    have w0: "weight ?z = weight z" by (simp add: weight_def rank_def m)
    have fz: "falls z p" if "falls ?z p" for p using that unfolding falls_def w0 by (auto split: pass.splits)
    let ?look = "\<lambda>z. root_entry (lencode z) (lenbits z) z" and ?C = "\<lambda>e. entry_op e \<noteq> 0 \<and> entry_op e div 16 = 0"
    have e: "do_len n f z = (case pull_entry ?look 0 ?z of
        (None, z) \<Rightarrow> Leave 0 z
      | (Some e0, z1) \<Rightarrow> (case symbol_entry_of ?C (lencode z1) e0 z1 of
           (None, z) \<Rightarrow> Leave 0 z
         | (Some e, z) \<Rightarrow> let z = (drop_bits (entry_bits e) z)\<lparr>zback := zback z + int (entry_bits e), zlength := entry_val e\<rparr>; oper = entry_op e in
                  if oper = 0 then Again (z\<lparr>zmode := M_LIT\<rparr>)
                  else if has_bit oper 5 then Again (z\<lparr>zback := -1, zmode := M_TYPE\<rparr>)
                  else if has_bit oper 6 then Again (bad ''invalid literal/length code'' z)
                  else Again (z\<lparr>extra := oper mod 16, zmode := M_LENEXT\<rparr>)))"
      unfolding do_len_def if_not_P [OF slow] symbol_entry_of_def ..
    obtain eo z1 where pe: "pull_entry ?look 0 ?z = (eo, z1)" by (cases "pull_entry ?look 0 ?z")
    note t = pull_entry_taken [OF pe]
    show ?thesis
    proof (cases eo)
      case None
      have "read_moved ?z z1" using read_moved_taken [OF _ z0(2)] t by blast
      then have "falls ?z (Leave 0 z1)" using read_starved_falls [OF z0(1)] t None by simp
      then show ?thesis unfolding e pe None prod.case option.case by (rule fz)
    next
      case (Some e0)
      have sb: "same_but_bits ?z z1" using t by (simp add: taken_def)
      have lc: "lencode z1 = lencode z" "lenbits z1 = lenbits z" using same_but_bits_tables [OF sb] by simp_all
      have look: "?look z1 = at (lencode z) (low_bits (lenbits z) z1)" by (simp add: root_entry_def lc)
      obtain eo2 z2 where sy: "symbol_entry_of ?C (lencode z) e0 z1 = (eo2, z2)" by (cases "symbol_entry_of ?C (lencode z) e0 z1")
      have C: "?C e \<longleftrightarrow> (1 = (2::nat) \<or> entry_op e \<noteq> 0) \<and> entry_op e div 16 = 0" for e by simp
      have sf: "read_moved ?z z2" "case eo2 of None \<Rightarrow> avail_in z2 = 0 | Some e \<Rightarrow> final_entry 1 e \<and> entry_bits e \<le> bits z2"
        using symbol_final [OF g(1) _ pe [unfolded Some] look z0(2) C sy] by simp_all
      show ?thesis
      proof (cases eo2)
        case None
        then have "falls ?z (Leave 0 z2)" using read_starved_falls [OF z0(1) sf(1)] sf(2) by simp
        then show ?thesis unfolding e pe Some prod.case option.case lc(1) sy None prod.case option.case by (rule fz)
      next
        case (Some e1)
        have fe: "final_entry 1 e1" "entry_bits e1 \<le> bits z2" using sf(2) Some by simp_all
        obtain h b i k where z2: "z2 = ?z\<lparr>hold := h, bits := b, next_in := i, zback := k\<rparr>" "i \<le> length (inp z)" "left z2 \<le> left z"
          using sf(1) unfolding read_moved_def by auto
        have ld: "left (drop_bits (entry_bits e1) z2) < left z"
          using left_drop(3) [of "entry_bits e1" z2] fe z2(3) by (simp add: final_entry_def)
        define v where "v = (drop_bits (entry_bits e1) z2)\<lparr>zback := zback z2 + int (entry_bits e1), zlength := entry_val e1\<rparr>"
        have lv0: "left v < left z" using ld by (simp add: v_def)
        have lv: "next_in v \<le> length (inp v)" "inp v = inp z" "wrap v = wrap z" "arrays v" "codes v" "zlength v = entry_val e1"
          using z2(2) ar g by (simp_all add: v_def z2(1) drop_bits_def arrays_def codes_def)
        have r: "do_len n f z = (if entry_op e1 = 0 then Again (v\<lparr>zmode := M_LIT\<rparr>)
                  else if has_bit (entry_op e1) 5 then Again (v\<lparr>zback := -1, zmode := M_TYPE\<rparr>)
                  else if has_bit (entry_op e1) 6 then Again (bad ''invalid literal/length code'' v)
                  else Again (v\<lparr>extra := entry_op e1 mod 16, zmode := M_LENEXT\<rparr>))"
          unfolding e pe \<open>eo = Some e0\<close> prod.case option.case lc(1) sy Some prod.case option.case Let_def v_def [symmetric] ..
        have ar': "arrays (v\<lparr>zmode := x\<rparr>)" "codes (v\<lparr>zmode := x\<rparr>)" "arrays (v\<lparr>zback := y, zmode := x\<rparr>)" "arrays (bad t v)"
          "arrays (v\<lparr>extra := w, zmode := x\<rparr>)" "codes (v\<lparr>extra := w, zmode := x\<rparr>)" for x y w t
          using lv(4,5) by (simp_all add: arrays_def codes_def bad_def)
        have bd: "next_in (bad t v) = next_in v" "inp (bad t v) = inp v" "wrap (bad t v) = wrap v" for t by (simp_all add: bad_def)
        have len: "3 \<le> entry_val e1 \<and> entry_val e1 \<le> 258 \<and> entry_op e1 mod 16 \<le> 5" if "entry_op e1 \<noteq> 0" "\<not> has_bit (entry_op e1) 6"
        proof -
          have op: "16 \<le> entry_op e1" "entry_op e1 \<le> 21" "3 \<le> entry_val e1" "entry_val e1 \<le> 258" using fe(1) that by (simp_all add: final_entry_def)
          then have "entry_op e1 mod 16 = entry_op e1 - 16" by (simp add: le_mod_geq)
          then show ?thesis using op by simp
        qed
        show ?thesis
          unfolding r using lv0 lv ar' bd len m by (auto simp: falls_def ok_def mode_ok_def weight_def rank_def)
      qed
    qed
  qed
qed

lemma do_lenext_falls: "ok z \<Longrightarrow> zmode z = M_LENEXT \<Longrightarrow> falls z (do_lenext z)"
proof -
  assume ok: "ok z" and m: "zmode z = M_LENEXT"
  have x: "extra z \<le> 5" "3 \<le> zlength z" "zlength z \<le> 258" using ok m by (simp_all add: ok_def mode_ok_def)
  have lb: "low_bits (extra z) u < 32" for u
  proof -
    have "low_bits (extra z) u < 2 ^ extra z" by (simp add: low_bits_def)
    also have "(2::nat) ^ extra z \<le> 2 ^ 5" using x(1) by (intro power_increasing) simp_all
    finally show ?thesis by simp
  qed
  show ?thesis
  proof (cases "extra z = 0")
    case True
    then show ?thesis using ok m by (simp add: do_lenext_def pass_simps codes_def)
  next
    case False
    show ?thesis
      unfolding do_lenext_def Let_def if_P [OF False]
    proof (rule falls_need [OF ok])
      fix h b i
      assume a: "i \<le> length (inp z)" "extra z \<le> b" "left (buffered h b i z) = left z"
      let ?l = "low_bits (extra z) (buffered h b i z)"
      have "zlength z + ?l \<le> 300" using lb [of "buffered h b i z"] x(3) by simp
      then show "falls z (Again ((drop_bits (extra (buffered h b i z)) (buffered h b i z))
          \<lparr>zlength := zlength (buffered h b i z) + low_bits (extra (buffered h b i z)) (buffered h b i z),
           zback := zback (buffered h b i z) + int (extra (buffered h b i z)),
           was := zlength ((drop_bits (extra (buffered h b i z)) (buffered h b i z))
             \<lparr>zlength := zlength (buffered h b i z) + low_bits (extra (buffered h b i z)) (buffered h b i z),
              zback := zback (buffered h b i z) + int (extra (buffered h b i z))\<rparr>), zmode := M_DIST\<rparr>))"
        using a ok m by (simp add: pass_simps codes_def drop_bits_def)
    qed
  qed
qed

lemma do_dist_falls:
  assumes ok: "ok z" and m: "zmode z = M_DIST"
  shows "falls z (do_dist z)"
proof -
  have g: "good_table 2 (distbits z) (distcode z)" and n: "next_in z \<le> length (inp z)" and ar: "arrays z" "codes z"
    and x: "3 \<le> zlength z" "zlength z \<le> 300"
    using ok m by (simp_all add: ok_def mode_ok_def codes_def)
  let ?look = "\<lambda>z. root_entry (distcode z) (distbits z) z" and ?C = "\<lambda>e. entry_op e div 16 = 0"
  have e: "do_dist z = (case pull_entry ?look 0 z of
      (None, z) \<Rightarrow> Leave 0 z
    | (Some e0, z1) \<Rightarrow> (case symbol_entry_of ?C (distcode z1) e0 z1 of
         (None, z) \<Rightarrow> Leave 0 z
       | (Some e, z) \<Rightarrow> let z = (drop_bits (entry_bits e) z)\<lparr>zback := zback z + int (entry_bits e)\<rparr>; oper = entry_op e in
               if has_bit oper 6 then Again (bad ''invalid distance code'' z)
               else Again (z\<lparr>offset := entry_val e, extra := oper mod 16, zmode := M_DISTEXT\<rparr>)))"
    unfolding do_dist_def symbol_entry_of_def ..
  obtain eo z1 where pe: "pull_entry ?look 0 z = (eo, z1)" by (cases "pull_entry ?look 0 z")
  note t = pull_entry_taken [OF pe]
  show ?thesis
  proof (cases eo)
    case None
    have "read_moved z z1" using read_moved_taken [OF _ n] t by blast
    then have "falls z (Leave 0 z1)" using read_starved_falls [OF ok] t None by simp
    then show ?thesis unfolding e pe None prod.case option.case .
  next
    case (Some e0)
    have sb: "same_but_bits z z1" using t by (simp add: taken_def)
    have lc: "distcode z1 = distcode z" "distbits z1 = distbits z" using same_but_bits_tables [OF sb] by simp_all
    have look: "?look z1 = at (distcode z) (low_bits (distbits z) z1)" by (simp add: root_entry_def lc)
    obtain eo2 z2 where sy: "symbol_entry_of ?C (distcode z) e0 z1 = (eo2, z2)" by (cases "symbol_entry_of ?C (distcode z) e0 z1")
    have C: "?C e \<longleftrightarrow> (2 = (2::nat) \<or> entry_op e \<noteq> 0) \<and> entry_op e div 16 = 0" for e by simp
    have sf: "read_moved z z2" "case eo2 of None \<Rightarrow> avail_in z2 = 0 | Some e \<Rightarrow> final_entry 2 e \<and> entry_bits e \<le> bits z2"
      using symbol_final [OF g _ pe [unfolded Some] look n C sy] by simp_all
    show ?thesis
    proof (cases eo2)
      case None
      then have "falls z (Leave 0 z2)" using read_starved_falls [OF ok sf(1)] sf(2) by simp
      then show ?thesis unfolding e pe Some prod.case option.case lc(1) sy None prod.case option.case .
    next
      case (Some e1)
      obtain h b i k where z2: "z2 = z\<lparr>hold := h, bits := b, next_in := i, zback := k\<rparr>" "i \<le> length (inp z)" "left z2 \<le> left z"
        using sf(1) unfolding read_moved_def by auto
      have ld: "left (drop_bits (entry_bits e1) z2) \<le> left z" using left_drop(1) [of "entry_bits e1" z2] z2(3) by simp
      define v where "v = (drop_bits (entry_bits e1) z2)\<lparr>zback := zback z2 + int (entry_bits e1)\<rparr>"
      have lv0: "left v \<le> left z" using ld by (simp add: v_def)
      have lv: "next_in v \<le> length (inp v)" "inp v = inp z" "wrap v = wrap z" "arrays v" "codes v" "zlength v = zlength z"
        using z2(2) ar by (simp_all add: v_def z2(1) drop_bits_def arrays_def codes_def)
      have r: "do_dist z = (if has_bit (entry_op e1) 6 then Again (bad ''invalid distance code'' v)
               else Again (v\<lparr>offset := entry_val e1, extra := entry_op e1 mod 16, zmode := M_DISTEXT\<rparr>))"
        unfolding e pe \<open>eo = Some e0\<close> prod.case option.case lc(1) sy Some prod.case option.case Let_def v_def [symmetric] ..
      have ar': "arrays (bad t v)" "arrays (v\<lparr>offset := y, extra := w, zmode := x\<rparr>)" "codes (v\<lparr>offset := y, extra := w, zmode := x\<rparr>)" for x y w t
        using lv(4,5) by (simp_all add: arrays_def codes_def bad_def)
      have bd: "next_in (bad t v) = next_in v" "inp (bad t v) = inp v" "wrap (bad t v) = wrap v" for t by (simp_all add: bad_def)
      show ?thesis unfolding r using lv0 lv ar' bd x m by (auto simp: falls_def ok_def mode_ok_def weight_def rank_def)
    qed
  qed
qed

lemma do_distext_falls: "ok z \<Longrightarrow> zmode z = M_DISTEXT \<Longrightarrow> falls z (do_distext z)"
proof -
  assume ok: "ok z" and m: "zmode z = M_DISTEXT"
  have x: "3 \<le> zlength z" "zlength z \<le> 300" using ok m by (simp_all add: ok_def mode_ok_def)
  show ?thesis
  proof (cases "extra z = 0")
    case True
    then show ?thesis using ok m by (simp add: do_distext_def pass_simps codes_def)
  next
    case False
    show ?thesis
      unfolding do_distext_def Let_def if_P [OF False]
      by (rule falls_need [OF ok]) (use ok m in \<open>simp add: pass_simps codes_def drop_bits_def\<close>)
  qed
qed

lemma do_match_falls: "ok z \<Longrightarrow> zmode z = M_MATCH \<Longrightarrow> falls z (do_match f z)"
proof -
  assume ok: "ok z" and m: "zmode z = M_MATCH"
  have x: "1 \<le> zlength z" "zlength z \<le> 300" and ar: "arrays z" "codes z" and n: "next_in z \<le> length (inp z)" using ok m by (simp_all add: ok_def mode_ok_def)
  show ?thesis
  proof (cases "avail_out z = 0")
    case True
    then show ?thesis using ok by (simp add: do_match_def falls_def)
  next
    case out: False
    let ?c0 = "f - avail_out z"
    show ?thesis
    proof (cases "?c0 < offset z \<and> whave z < offset z - ?c0 \<and> sane z")
      case True
      then show ?thesis using ok m out by (simp add: do_match_def pass_simps)
    next
      case far: False
      define T where "T = (if ?c0 < offset z then
                   let c = offset z - ?c0 in
                   if wnext z < c then (True, wsize z - (c - wnext z), min (c - wnext z) (zlength z))
                   else (True, wnext z - c, min c (zlength z))
                 else (False, next_out z - offset z, zlength z))"
      obtain w u c where T: "T = (w, u, c)" by (cases T)
      have c: "1 \<le> c" "c \<le> zlength z"
      proof -
        define q where "q = offset z - ?c0"
        have "c = (if ?c0 < offset z then if wnext z < q then min (q - wnext z) (zlength z) else min q (zlength z) else zlength z)"
          using T unfolding T_def Let_def q_def [symmetric] by (simp split: if_splits)
        moreover have "?c0 < offset z \<longrightarrow> 1 \<le> q" by (simp add: q_def Suc_le_eq)
        ultimately show "1 \<le> c" "c \<le> zlength z" using x(1) by (auto simp: min_def)
      qed
      define d where "d = min c (avail_out z)"
      have d: "1 \<le> d" "d \<le> zlength z" using c out by (simp_all add: d_def)
      define v where "v = z\<lparr>outp := (if w then copy_window d u (window_bytes z) (outp z) else copy_out d u (outp z)), avail_out := avail_out z - d,
        zlength := zlength z - d, zmode := (if zlength z - d = 0 then M_LEN else zmode z)\<rparr>"
      have e: "do_match f z = Again v"
        unfolding do_match_def if_not_P [OF out] Let_def if_not_P [OF far]
        unfolding T_def [unfolded Let_def, symmetric] T prod.case d_def [symmetric] using d(1) by (simp add: v_def)
      have "left v = left z" "arrays v" "codes v" "inp v = inp z" "wrap v = wrap z" "next_in v = next_in z"
        using ar by (simp_all add: v_def left_def arrays_def codes_def)
      then show ?thesis unfolding e using d x n m by (auto simp: falls_def ok_def mode_ok_def weight_def rank_def v_def)
    qed
  qed
qed

lemma do_lit_falls: "ok z \<Longrightarrow> zmode z = M_LIT \<Longrightarrow> falls z (do_lit z)"
  by (simp add: do_lit_def pass_simps codes_def)

section \<open>The end\<close>

lemma update_check_parts: "\<exists>c a. update_check f z = z\<lparr>zcheck := c, stream_adler := a\<rparr>"
proof -
  have "z = z\<lparr>zcheck := zcheck z, stream_adler := stream_adler z\<rparr>" by simp
  then show ?thesis unfolding update_check_def Let_def by metis
qed

lemma do_check_falls: "ok z \<Longrightarrow> zmode z = M_CHECK \<Longrightarrow> falls z (do_check z)"
proof -
  assume ok: "ok z" and m: "zmode z = M_CHECK"
  show ?thesis
  proof (cases "wrap z = 0")
    case True
    then show ?thesis using ok m by (simp add: do_check_def pass_simps)
  next
    case False
    show ?thesis
      unfolding do_check_def if_P [OF False]
    proof (rule falls_need [OF ok])
      fix h b i
      assume a: "i \<le> length (inp z)" "32 \<le> b" "left (buffered h b i z) = left z"
      let ?z = "buffered h b i z"
      let ?f = "room ?z - avail_out ?z"
      obtain c y where u: "update_check ?f (?z\<lparr>total_out := total_out ?z + ?f, total := total ?z + ?f\<rparr>) =
          ?z\<lparr>total_out := total_out ?z + ?f, total := total ?z + ?f, zcheck := c, stream_adler := y\<rparr>"
        using update_check_parts by blast
      show "falls z (let f = ?f; v = (update_check f (?z\<lparr>total_out := total_out ?z + f, total := total ?z + f\<rparr>))\<lparr>room := avail_out ?z\<rparr> in
          if has_bit (wrap v) 2 \<and> (if zflags v \<noteq> 0 then hold v else zswap32 (hold v)) \<noteq> zcheck v
          then Again (bad ''incorrect data check'' v) else Again ((init_bits v)\<lparr>zmode := M_LENGTH\<rparr>))"
        unfolding Let_def u using a ok m by (simp add: pass_simps)
    qed
  qed
qed

lemma do_length_falls: "ok z \<Longrightarrow> zmode z = M_LENGTH \<Longrightarrow> falls z (do_length z)"
proof (cases "wrap z \<noteq> 0 \<and> zflags z \<noteq> 0")
  case True
  assume "ok z" "zmode z = M_LENGTH"
  then show ?thesis unfolding do_length_def if_P [OF True] by (intro falls_need) (simp_all add: pass_simps)
next
  case False
  assume "ok z" "zmode z = M_LENGTH"
  then show ?thesis unfolding do_length_def if_not_P [OF False] by (simp add: pass_simps)
qed

lemma step_falls:
  assumes ok: "ok z" and n: "nat (left z) + 3 \<le> n"
  shows "falls z (step n 0 z)"
proof (cases "zmode z")
  case M_LEN
  then show ?thesis using do_len_falls [OF ok M_LEN n] by (simp add: step_def)
next
  case M_COPY_START
  then show ?thesis using ok by (simp add: step_def pass_simps)
next
  case M_LEN_START
  then show ?thesis using ok by (simp add: step_def pass_simps codes_def)
next
  case M_DONE
  then show ?thesis using ok by (simp add: step_def falls_def)
next
  case M_BAD
  then show ?thesis using ok by (simp add: step_def falls_def)
next
  case M_MEM
  then show ?thesis by (simp add: step_def falls_def)
qed (use ok in \<open>simp_all add: step_def do_head_falls do_flags_falls do_time_falls do_os_falls do_exlen_falls do_extra_falls do_name_falls
  do_comment_falls do_hcrc_falls do_dictid_falls do_dict_falls do_type_falls do_typedo_falls do_stored_falls do_copy_falls do_table_falls
  do_lenlens_falls do_codelens_falls do_lenext_falls do_dist_falls do_distext_falls do_match_falls do_lit_falls do_check_falls do_length_falls\<close>)

end
