(* ===== verification/Pako_Returns.thy ===== *)
theory Pako_Returns
  imports Pako_Passes
begin

text \<open>
  The calls of \<open>inflate\<close>, the members of a stream one after the other, and the loop of \<open>push\<close> over the chunks of the result all end,
  and more fuel does not change what they return.
\<close>

section \<open>A call of inflate\<close>

lemma weight_nonneg: "ok z \<Longrightarrow> 0 \<le> weight z"
  using ok_left [of z] by (simp add: weight_def)

definition comes_out :: "zstream \<Rightarrow> int \<Rightarrow> zstream \<Rightarrow> bool" where
  "comes_out z s z' \<longleftrightarrow> ok z' \<and> weight z' \<le> weight z \<and> inp z' = inp z \<and> wrap z' = wrap z \<and>
     (avail_out z' = avail_out z \<or> weight z' < weight z) \<and>
     (s = 0 \<and> (avail_in z' = 0 \<or> avail_out z' = 0) \<or> s = 1 \<and> zmode z' = M_DONE \<or> s = -3)"

lemma passes_end:
  "ok z \<Longrightarrow> weight z + 3 < int n \<Longrightarrow>
   (\<exists>x z'. passes n 0 z = Leave x z' \<and> comes_out z x z') \<or> (\<exists>x z'. passes n 0 z = Return x z' \<and> (x = 2 \<or> x = -4))"
proof (induction n arbitrary: z)
  case 0
  then show ?case using weight_nonneg [of z] by simp
next
  case (Suc n)
  have "left z \<le> weight z" using ok_left [OF Suc.prems(1)] by (simp add: weight_def)
  moreover have "int (nat (left z)) = left z" using ok_left [OF Suc.prems(1)] by simp
  ultimately have f: "nat (left z) + 3 \<le> n" using Suc.prems(2) by linarith
  note s = step_falls [OF Suc.prems(1) f]
  show ?case
  proof (cases "step n 0 z")
    case (Again z1)
    then have z1: "ok z1" "weight z1 < weight z" "inp z1 = inp z" "wrap z1 = wrap z" using s by (simp_all add: falls_def)
    have "weight z1 + 3 < int n" using z1(2) Suc.prems(2) by simp
    from Suc.IH [OF z1(1) this] show ?thesis using z1(2-4) by (auto simp: Again comes_out_def)
  next
    case (Leave x z1)
    then show ?thesis using s by (auto simp: falls_def comes_out_def)
  next
    case (Return x z1)
    then show ?thesis using s by (simp add: falls_def)
  next
    case (Endless z1)
    then show ?thesis using s by (simp add: falls_def)
  qed
qed

text \<open>The fields the measure looks at, which the end of a call leaves as they are.\<close>

definition core :: "zstream \<Rightarrow> (nat list \<times> nat \<times> nat \<times> mode \<times> nat) \<times> (nat \<times> nat \<times> nat \<times> nat \<times> nat) \<times>
    (nat list \<times> nat \<times> nat list \<times> nat) \<times> nat list \<times> nat list \<times> nat list \<times> nat list" where
  "core z = ((inp z, next_in z, bits z, zmode z, wrap z), (zlength z, extra z, nlen z, ndist z, avail_out z),
     (lencode z, lenbits z, distcode z, distbits z), lens z, work z, lendyn z, distdyn z)"

lemma core_same:
  assumes "core z' = core z"
  shows "ok z' = ok z" "weight z' = weight z" "inp z' = inp z" "wrap z' = wrap z" "avail_out z' = avail_out z" "avail_in z' = avail_in z"
    "zmode z' = zmode z"
  using assms
  by (simp_all add: core_def ok_def arrays_def mode_ok_def codes_def weight_def rank_def left_def avail_in_def cong: mode.case_cong)

lemma finish_core: "core (snd (finish fl i x z)) = core z"
proof -
  have w: "core (updatewindow e k z) = core z" for e k
    by (simp add: updatewindow_def Let_def core_def split: option.split)
  have c: "core (update_check f u) = core u" for f u
    by (simp add: update_check_def Let_def core_def)
  have t: "core (u\<lparr>total_in := a, total_out := b, total := d\<rparr>) = core u" for u a b d
    by (simp add: core_def)
  show ?thesis by (simp add: finish_def Let_def c t w)
qed

lemma finish_code: "fst (finish fl i x z) = x \<or> x = 0 \<and> fst (finish fl i x z) = -5"
  by (simp add: finish_def Let_def)

definition call_outcome :: "zstream \<Rightarrow> int \<times> zstream \<Rightarrow> bool" where
  "call_outcome z r \<longleftrightarrow> (case r of (s, z') \<Rightarrow> s = 2 \<or> s = -4 \<or> s = -3 \<or>
     ok z' \<and> weight z' \<le> weight z \<and> inp z' = inp z \<and> wrap z' = wrap z \<and> (avail_out z' = avail_out z \<or> weight z' < weight z) \<and>
       (s = 1 \<and> zmode z' = M_DONE \<or> (s = 0 \<or> s = -5) \<and> (avail_in z' = 0 \<or> avail_out z' = 0)))"

lemma inflate_total:
  assumes ok: "ok z0" and n: "weight z0 + 3 < int n"
  shows "\<exists>r. inflate n 0 z0 = Some r \<and> call_outcome z0 r"
proof -
  let ?z = "z0\<lparr>zmode := (if zmode z0 = M_TYPE then M_TYPEDO else zmode z0), room := avail_out z0\<rparr>"
  have z: "ok ?z" "weight ?z \<le> weight z0" "inp ?z = inp z0" "wrap ?z = wrap z0" "avail_out ?z = avail_out z0"
    using ok by (cases "zmode z0"; simp add: ok_def arrays_def mode_ok_def codes_def weight_def rank_def left_def)+
  have n': "weight ?z + 3 < int n" using z(2) n by linarith
  consider x z' where "passes n 0 ?z = Leave x z'" "comes_out ?z x z'" | x z' where "passes n 0 ?z = Return x z'" "x = 2 \<or> x = -4"
    using passes_end [OF z(1) n'] by blast
  then show ?thesis
  proof cases
    case (1 x z')
    define r where "r = finish 0 (avail_in z0) x z'"
    have r: "inflate n 0 z0 = Some r" by (simp add: inflate_def 1(1) r_def)
    have c: "core (snd r) = core z'" unfolding r_def by (rule finish_core)
    note f = core_same [OF c]
    have code: "fst r = x \<or> x = 0 \<and> fst r = -5" unfolding r_def by (rule finish_code)
    have "call_outcome z0 (fst r, snd r)"
      using 1(2) code z(2-5) unfolding call_outcome_def prod.case f comes_out_def by auto
    then show ?thesis using r by simp
  next
    case (2 x z')
    then show ?thesis by (auto simp: inflate_def call_outcome_def)
  qed
qed

section \<open>The members of a stream\<close>

lemma reset_falls:
  assumes "ok z" "zmode z = M_DONE" "0 < wrap z"
  shows "ok (inflateReset z)" "weight (inflateReset z) < weight z" "inp (inflateReset z) = inp z" "wrap (inflateReset z) = wrap z"
proof -
  have f: "inp (inflateReset z) = inp z" "next_in (inflateReset z) = next_in z" "bits (inflateReset z) = 0" "zmode (inflateReset z) = M_HEAD"
    "wrap (inflateReset z) = wrap z" "lens (inflateReset z) = lens z" "work (inflateReset z) = work z"
    "length (lendyn (inflateReset z)) = 852" "length (distdyn (inflateReset z)) = 592"
    by (simp_all add: inflateReset_def inflateResetKeep_def)
  show "ok (inflateReset z)" using assms(1) f by (simp add: ok_def arrays_def mode_ok_def)
  show "weight (inflateReset z) < weight z" using assms f by (simp add: weight_def rank_def left_def)
  show "inp (inflateReset z) = inp z" "wrap (inflateReset z) = wrap z" using f by simp_all
qed

lemma next_members_total: "call_outcome z0 r \<Longrightarrow> weight z0 + 3 < int n \<Longrightarrow> ok z0 \<Longrightarrow> \<exists>r'. next_members n 0 r = Some r' \<and> call_outcome z0 r'"
proof (induction n arbitrary: r z0)
  case 0
  then show ?case using weight_nonneg [of z0] by simp
next
  case (Suc n)
  obtain s z where r: "r = (s, z)" by (cases r)
  show ?case
  proof (cases "0 < avail_in z \<and> s = 1 \<and> 0 < wrap z \<and> at (inp z) (next_in z) \<noteq> 0")
    case False
    show ?thesis unfolding r next_members.simps prod.case if_not_P [OF False] using Suc.prems(1) by (simp add: r)
  next
    case True
    then have z: "ok z" "zmode z = M_DONE" "weight z \<le> weight z0" "inp z = inp z0" "wrap z = wrap z0"
      using Suc.prems(1) by (auto simp: call_outcome_def r)
    note re = reset_falls [OF z(1,2)]
    have w: "0 < wrap z" using True by simp
    have n: "weight (inflateReset z) + 3 < int n" using re(2) [OF w] z(3) Suc.prems(2) by linarith
    obtain r1 where r1: "inflate n 0 (inflateReset z) = Some r1" "call_outcome (inflateReset z) r1"
      using inflate_total [OF re(1) [OF w] n] by blast
    obtain r2 where r2: "next_members n 0 r1 = Some r2" "call_outcome (inflateReset z) r2"
      using Suc.IH [OF r1(2) n re(1) [OF w]] by blast
    have "call_outcome z0 r2"
      using r2(2) re(2-4) [OF w] z(3-5) unfolding call_outcome_def by (cases r2) auto
    then show ?thesis using True r1(1) r2(1) by (intro exI [of _ r2]) (simp add: r)
  qed
qed

section \<open>The chunks of the result\<close>

lemma push_loop_total: "ok (strm a) \<Longrightarrow> weight (strm a) + 4 < int n \<Longrightarrow> 0 < chunk \<Longrightarrow> \<exists>r. push_loop n chunk a = Some r"
proof (induction n arbitrary: a)
  case 0
  then show ?case using weight_nonneg [of "strm a"] by simp
next
  case (Suc n)
  define z where "z = (if avail_out (strm a) = 0 then (strm a)\<lparr>outp := [], avail_out := chunk\<rparr> else strm a)"
  have c: "ok z" "weight z = weight (strm a)" "0 < avail_out z"
    using Suc.prems(1,3) by (simp_all add: z_def ok_def arrays_def mode_ok_def codes_def weight_def rank_def left_def cong: mode.case_cong)
  have n: "weight z + 3 < int n" using Suc.prems(2) c(2) by simp
  obtain r where r: "inflate n 0 z = Some r" "call_outcome z r" using inflate_total [OF c(1) n] by blast
  obtain r' where r': "next_members n 0 r = Some r'" "call_outcome z r'" using next_members_total [OF r(2) n c(1)] by blast
  obtain s u where su: "r' = (s, u)" by (cases r')
  have b: "Option.bind (inflate n 0 z) (next_members n 0) = Some (s, u)" by (simp add: r(1) r'(1) su)
  define a1 where "a1 = a\<lparr>strm := u\<rparr>"
  define a2 where "a2 = (if next_out u \<noteq> 0 \<and> (avail_out u = 0 \<or> s = 1) then a1\<lparr>chunks := chunks a1 @ [outp u]\<rparr> else a1)"
  have e: "push_loop (Suc n) chunk a = (if s = -2 \<or> s = -3 \<or> s = 2 \<or> s = -4 then Some (False, onEnd s a1)
      else if s = 1 then Some (True, onEnd 0 a2)
      else if (s \<noteq> 0 \<or> avail_out u \<noteq> 0) \<and> avail_in u = 0 then Some (True, a2) else push_loop n chunk a2)"
    unfolding push_loop.simps Let_def z_def [symmetric] b option.case prod.case a1_def [symmetric] a2_def [symmetric] ..
  show ?case
  proof (cases "s = -2 \<or> s = -3 \<or> s = 2 \<or> s = -4 \<or> s = 1 \<or> (s \<noteq> 0 \<or> avail_out u \<noteq> 0) \<and> avail_in u = 0")
    case True
    then show ?thesis unfolding e by auto
  next
    case False
    then have o: "ok u" "weight u \<le> weight z" "avail_out u = avail_out z \<or> weight u < weight z" "avail_out u = 0"
      using r'(2) by (auto simp: call_outcome_def su)
    have w: "weight u < weight z" using o(3,4) c(3) by auto
    have s2: "strm a2 = u" by (simp add: a2_def a1_def)
    have "\<exists>r. push_loop n chunk a2 = Some r"
      by (rule Suc.IH) (use o(1) w c(2) Suc.prems(2,3) in \<open>simp_all add: s2\<close>)
    then show ?thesis unfolding e using False by auto
  qed
qed

section \<open>pako.inflate\<close>

lemma init_stream_ok:
  "ok (init_stream\<lparr>inp := t, next_in := 0\<rparr>)" "weight (init_stream\<lparr>inp := t, next_in := 0\<rparr>) = 16384 * int (length t) + 1"
proof -
  have f: "lens init_stream = replicate 320 0" "work init_stream = replicate 288 0" "length (lendyn init_stream) = 852" "length (distdyn init_stream) = 592"
    by (simp_all add: init_stream_def inflateGetHeader_def inflateReset_def inflateResetKeep_def new_stream_def has_bit_def)
  have "list_all (\<lambda>l. l < 16) (replicate 320 (0::nat))" by (simp add: list_all_iff)
  then show "ok (init_stream\<lparr>inp := t, next_in := 0\<rparr>)" by (simp add: ok_def arrays_def mode_ok_def f)
  show "weight (init_stream\<lparr>inp := t, next_in := 0\<rparr>) = 16384 * int (length t) + 1" by (simp add: weight_def rank_def left_def)
qed

lemma pako_inflate_total:
  "\<exists>r. (\<forall>n. pako_inflate (16384 * length t + 6 + n) t = r) \<and> (case r of Inl e \<Rightarrow> \<exists>m. e = Runtime m | Inr _ \<Rightarrow> True)"
proof -
  let ?N = "16384 * length t + 6"
  let ?a = "\<lparr>strm = init_stream\<lparr>inp := t, next_in := 0\<rparr>, chunks = [], err = 0, err_msg = [], ended = False, inflated = None\<rparr>"
  have w: "weight (strm ?a) + 4 < int ?N" using init_stream_ok(2) [of t] by simp
  obtain b a where p: "push_loop ?N 65536 ?a = Some (b, a)"
    using push_loop_total [of ?a ?N 65536] init_stream_ok(1) [of t] w by auto
  let ?r = "if err a \<noteq> 0 then Inl (Runtime (if err_msg a \<noteq> [] then err_msg a else Z_MESSAGE (err a))) else Inr (inflated a)"
  have "pako_inflate (?N + n) t = ?r" for n
  proof -
    have "push_loop (?N + n) 65536 ?a = Some (b, a)" by (rule push_loop_mono [OF p]) simp
    then show ?thesis by (simp add: pako_inflate_def pako_run_def new_inflator_default push_def del: push_loop.simps)
  qed
  then show ?thesis by (intro exI [of _ ?r]) simp
qed

end
