(* ===== verification/Pako_Deflate.thy ===== *)
theory Pako_Deflate
  imports Pako_Returns
begin

text \<open>
  \<open>pako.inflate\<close> on a whole zlib stream: the header, the blocks of any kind one after the other, over as many chunks of the result
  as their bytes fill, and the checksum.
\<close>

section \<open>Blocks\<close>

lemma block_leads:
  assumes z: "at_block t 0 ch q os z" and l: "l < 2" and b: "block_ok os b" "block_fits b" "has_bits t q (block_bits q l b)"
  shows "leads ch z (\<lambda>ch' z'. at_block t l ch' (q + length (block_bits q l b)) (block_out os b) z')"
proof (cases b)
  case (Stored bs)
  show ?thesis unfolding Stored block_out.simps by (rule stored_leads [OF z l b(1,3) [unfolded Stored]])
next
  case (Fixed ts)
  show ?thesis unfolding Fixed block_out.simps by (rule fixed_leads [OF z l b(1,3) [unfolded Fixed]])
next
  case (Dynamic nl nd nc cs es ts)
  show ?thesis unfolding Dynamic block_out.simps by (rule dynamic_leads [OF z l b [unfolded Dynamic]])
qed

lemma blocks_leads:
  "bs \<noteq> [] \<Longrightarrow> at_block t 0 ch q os z \<Longrightarrow> blocks_ok os bs \<Longrightarrow> list_all block_fits bs \<Longrightarrow> has_bits t q (blocks_bits q bs) \<Longrightarrow>
   leads ch z (\<lambda>ch' z'. at_block t 1 ch' (q + length (blocks_bits q bs)) (blocks_out os bs) z')"
proof (induction q bs arbitrary: ch os z rule: blocks_bits.induct)
  case (2 q b)
  have ok: "block_ok os b" "block_fits b" "has_bits t q (block_bits q 1 b)" "(1::nat) < 2" using "2.prems" by simp_all
  show ?case using block_leads [OF "2.prems"(2) ok(4,1-3)] by simp
next
  case (3 q b b2 bs)
  let ?q = "q + length (block_bits q 0 b)" and ?rest = "b2 # bs"
  have ok: "block_ok os b" "block_fits b" "has_bits t q (block_bits q 0 b)" "(0::nat) < 2"
    "blocks_ok (block_out os b) ?rest" "list_all block_fits ?rest" "has_bits t ?q (blocks_bits ?q ?rest)"
    using "3.prems"(3-5) by (simp_all add: has_bits_append)
  have e: "?q + length (blocks_bits ?q ?rest) = q + length (blocks_bits q (b # ?rest))"
    "blocks_out (block_out os b) ?rest = blocks_out os (b # ?rest)" by simp_all
  show ?case
    by (rule leads_trans [OF block_leads [OF "3.prems"(2) ok(4,1-3)]]) (rule "3.IH" [OF _ _ ok(5-7), unfolded e], simp_all)
qed simp

section \<open>The header\<close>

lemma started_tables [simp]:
  "length (lendyn (started t)) = 852" "length (distdyn (started t)) = 592" "length (work (started t)) = 288" "length (lens (started t)) = 320"
  by (simp_all add: started_def init_stream_def inflateGetHeader_def inflateReset_def inflateResetKeep_def new_stream_def has_bit_def)

lemma started_window [simp]:
  "sane (started t)" "wnext (started t) = 0" "wsize (started t) = 0" "whave (started t) = 0" "window (started t) = None"
  by (simp_all add: started_def init_stream_def inflateGetHeader_def inflateReset_def inflateResetKeep_def new_stream_def has_bit_def)

lemma header_run:
  assumes t: "t = cmf # flg # r" and h: "header_ok cmf flg" and bytes: "all_bytes t"
  obtains z where "runs 1 (started t) z" "at_block t 0 [] 16 [] z"
proof -
  have ok: "cmf < 128" "cmf mod 16 = 8" "flg < 256" "(cmf * 256 + flg) mod 31 = 0" "even (flg div 32)"
    using h by (simp_all add: header_ok_def)
  have m: "\<not> (cmf = 31 \<and> flg = 139)" using ok(2) by auto
  define z1 where "z1 = (started t)\<lparr>hold := cmf + 256 * flg, bits := 16, next_in := 2\<rparr>"
  have n: "need 16 (started t) k = k z1" for k
    using need_whole [of "started t" "[cmf, flg]" r 16 k] t by (simp add: unread_def z1_def numeral_2_eq_2)
  define z2 where "z2 = z1\<lparr>head := map_option (\<lambda>g. g\<lparr>hd_done := False\<rparr>) (head z1)\<rparr>"
  define z3 where "z3 = (drop_bits 4 z2)\<lparr>wbits := 15\<rparr>"
  define z where "z = init_bits (z3\<lparr>dmax := 32768, zflags := 0, zcheck := 1, stream_adler := 1, zmode := M_TYPE\<rparr>)"
  have f: "hold z1 = cmf + 256 * flg" "hold z2 = cmf + 256 * flg" "wrap z1 = 7" "wrap z2 = 7" "hold z3 = (cmf + 256 * flg) div 16" "wbits z3 = 15"
    "wbits (drop_bits 4 z2) = 15" "hold (drop_bits 4 z2) = (cmf + 256 * flg) div 16"
    by (simp_all add: z1_def z2_def z3_def drop_bits_def)
  have magic: "cmf + 256 * flg \<noteq> 35615" using ok(1,2) by presburger
  have v: "(cmf + 256 * flg) mod 256 = cmf" "(cmf + 256 * flg) div 256 = flg" using ok(1) by simp_all
  have q: "(cmf + 256 * flg) div 16 = cmf div 16 + 16 * flg"
    using div_mult_self2 [of 16 cmf "16 * flg"] by simp
  have k: "cmf div 16 < 8" using ok(1) by (simp add: less_mult_imp_div_less)
  have m16: "(cmf + 256 * flg) mod 16 = 8" using mod_mult_self2 [of cmf 16 "16 * flg"] ok(2) by simp
  have y: "(cmf div 16 + 16 * flg) mod 16 = cmf div 16" using k by simp
  have bit: "\<not> has_bit (cmf div 16 + 16 * flg) 9" "has_bit 7 0"
  proof -
    have "(cmf div 16 + 16 * flg) div 512 = (cmf div 16 + 16 * flg) div 16 div 32" by (simp only: div_mult2_eq [symmetric]) simp
    also have "\<dots> = flg div 32" using k by simp
    finally show "\<not> has_bit (cmf div 16 + 16 * flg) 9" using ok(5) by (simp add: has_bit_def)
  qed (simp add: has_bit_def)
  have d: "drop_bits 4 z2 = z3"
  proof -
    have "drop_bits 4 z2 = (drop_bits 4 z2)\<lparr>wbits := wbits (drop_bits 4 z2)\<rparr>" by simp
    then show ?thesis unfolding f z3_def .
  qed
  have w: "z3\<lparr>wbits := 15\<rparr> = z3" by (simp add: z3_def)
  have "do_head (started t) = Again z"
    unfolding do_head_def n using ok(4) k
    by (simp add: f magic z2_def [symmetric] d v q m16 y bit w z_def Let_def)
  moreover have "at_block t 0 [] 16 [] z"
    using bytes t started_tables by (simp add: at_block_def in_block_def decoding_def held_def adler_reference_def all_bytes_def synced_def place_def z_def init_bits_def z3_def drop_bits_def z2_def z1_def)
  ultimately show thesis using that runs_step [OF _ runs_refl, of "started t" z] by (simp add: step_modes)
qed

section \<open>The end\<close>

text \<open>After the last block the rest of its last byte is dropped and the checksum read.\<close>

lemma end_gives:
  assumes z: "at_block t 1 ch q os z" and sum4: "drop ((q + pad_length q) div 8) t = be4 c" and c: "c < 4294967296"
  shows "gives ch z (if c = adler_reference os then Inr (Some os) else Inl (Runtime ''incorrect data check''))"
proof -
  have d: "decoding t ch q os z" and m: "zmode z = M_TYPE" and l: "zlast z = 1"
    using z by (simp_all add: at_block_def in_block_def)
  note D = decodingD [OF d]
  let ?z1 = "z\<lparr>zmode := M_TYPEDO\<rparr>"
  let ?z2 = "(drop_bits (bits z) z)\<lparr>zmode := M_CHECK\<rparr>"
  note dz = drop_bits_synced [OF D(1) order_refl]
  have bm: "bits z mod 8 = bits z" using D(4) by simp
  have dm: "drop_bits k (z\<lparr>zmode := x\<rparr>) = (drop_bits k z)\<lparr>zmode := x\<rparr>" for k x by (simp add: drop_bits_def)
  have s1: "step n 0 z = Again ?z1" for n by (simp add: step_modes(1) [OF m])
  have s2: "step n 0 ?z1 = Again ?z2" for n by (simp add: step_modes do_typedo_def l bm dm)
  have b: "bits ?z2 = 0" "hold ?z2 = 0" using dz by (simp_all add: synced_def)
  have it: "inp ?z2 = t" "next_in ?z2 = next_in z" using D(1) by (simp_all add: synced_def drop_bits_def)
  have nx: "(q + pad_length q) div 8 = next_in z"
    using pad_buffer [OF D(1,4)] place_next [OF D(1)] by (simp add: D(3))
  have u: "unread ?z2 = be4 c" using sum4 unfolding nx unread_def it .
  have o: "outp ?z2 = outp z" "avail_out ?z2 = 65536 - length (outp z)" "wrap ?z2 = 7" "zflags ?z2 = 0"
    "zcheck ?z2 = adler_reference (concat ch)" "room ?z2 = 65536"
    using D by (simp_all add: drop_bits_def held_def)
  have os: "all_bytes (outp z)" using D(5,10) by (auto simp: all_bytes_def)
  have mz: "zmode ?z2 = M_CHECK" by simp
  obtain z' where z': "ends 4 ?z2 (if c = adler_reference os then Leave 1 z' else Leave (-3) z')"
    "inp z' = inp ?z2" "next_in z' = next_in ?z2 + 4" "outp z' = outp z" "c \<noteq> adler_reference os \<longrightarrow> msg z' = ''incorrect data check''"
    using check_ends [OF mz b u c o(1,2) D(6) os o(3-6)] unfolding D(5) by blast
  have e: "ends (Suc (Suc 4)) z (if c = adler_reference os then Leave 1 z' else Leave (-3) z')"
    by (rule ends_step [OF s1 ends_step [OF s2 z'(1)]])
  show ?thesis
  proof (cases "c = adler_reference os")
    case True
    have "length (drop (next_in z) t) = 4" using sum4 unfolding nx by simp
    then have a: "avail_in z' = 0" unfolding avail_in_def z'(2,3) it by simp
    have "ends (Suc (Suc 4)) z (Leave 1 z')" using e True by simp
    from gives_done [OF this a, of ch] show ?thesis using True D(5) by (simp add: z'(4))
  next
    case False
    then have "ends (Suc (Suc 4)) z (Leave (-3) z')" "msg z' = ''incorrect data check''" using e z'(5) by simp_all
    then show ?thesis using gives_fails [of _ z z' ch] False by simp
  qed
qed

section \<open>Tables that fit\<close>

text \<open>Complete codes that are no longer than the root of their tables always fit.\<close>

lemma short_code_fits:
  assumes len: "list_all (\<lambda>l. l \<le> b) ls" "b \<le> 9" and some: "symbols ls \<noteq> []" "length ls \<le> 288"
    and room: "code_room 1 (tl (count_lengths ls)) = Some 0" and n: "2 ^ b \<le> n" and ty: "ty = 0 \<and> length ls \<le> 19 \<or> ty = 1 \<or> ty = 2"
  shows "tr_ret (inflate_table ty ls (replicate n 0) (replicate 288 0) b) = 0"
proof (rule inflate_table_small [OF _ _ some(1) _ room len(1)])
  show l: "list_all (\<lambda>l. l < 16) ls" using len by (auto simp: list_all_iff)
  show "length (symbols ls) \<le> length (replicate 288 (0::nat))" using symbols_length [of ls] some(2) by simp
  show "table_sized ty ls b (replicate n 0)" using len n ty by (simp add: table_sized_def)
  have "longest 15 (count_lengths ls) \<le> b"
  proof -
    let ?g = "longest 15 (count_lengths ls)"
    have "?g < 16" "count_lengths ls ! ?g \<noteq> 0" using longest_le [of 15 "count_lengths ls"] longest_pos [of 15 "count_lengths ls"] some_lengths [OF l some(1)]
      by simp_all
    then have "count_list ls ?g \<noteq> 0" using count_lengths_count [OF l] by simp
    then show ?thesis using len(1) by (auto simp: list_all_iff count_list_0_iff)
  qed
  then have "root_size ls b \<le> 9"
    using symbols_ends(8) [OF l refl some_lengths [OF l some(1)]] len(2) by (simp add: root_size_def Let_def)
  then have "(2::nat) ^ root_size ls b \<le> 2 ^ 9" by (intro power_increasing) simp_all
  then show "\<not> table_full ty (2 ^ root_size ls b)" by (simp add: table_full_def)
qed

section \<open>The whole stream\<close>

lemma pad_length_16: "pad_length (16 + n) = pad_length n"
proof -
  have "(16 + n) mod 8 = n mod 8" by presburger
  then show ?thesis by (simp add: pad_length_def)
qed

lemma zlib_stream_parts:
  assumes "header_ok cmf flg"
  shows "all_bytes (zlib_stream cmf flg bs (be4 c))" "has_bits (zlib_stream cmf flg bs (be4 c)) 16 (blocks_bits 16 bs)"
    "drop ((16 + length (blocks_bits 16 bs) + pad_length (16 + length (blocks_bits 16 bs))) div 8) (zlib_stream cmf flg bs (be4 c)) = be4 c"
proof -
  let ?bits = "blocks_bits 16 bs" and ?p = "pack_bits (blocks_bits 16 bs)"
  note b = blocks_bits_bits [of 16 bs]
  show "all_bytes (zlib_stream cmf flg bs (be4 c))"
    using assms pack_bits_bytes [OF b] by (simp add: zlib_stream_def all_bytes_def header_ok_def be4_def list_all_iff)
  have "bit_list (zlib_stream cmf flg bs (be4 c)) = bit_list [cmf, flg] @ ?bits @ replicate (pad_length (length ?bits)) 0 @ bit_list (be4 c)"
    unfolding zlib_stream_def bit_list_simps(3) bit_list_pack [OF b] append_assoc ..
  moreover have "length (bit_list [cmf, flg]) = 16" by simp
  ultimately show "has_bits (zlib_stream cmf flg bs (be4 c)) 16 ?bits"
    unfolding has_bits_def by (metis append_eq_conv_conj)
  have "length (bit_list ?p) = length ?bits + pad_length (length ?bits)"
    unfolding bit_list_pack [OF b] by simp
  then have e: "16 + length ?bits + pad_length (16 + length ?bits) = 8 * (2 + length ?p)"
    unfolding pad_length_16 by simp
  have "8 * (2 + length ?p) div 8 = 2 + length ?p" by simp
  then show "drop ((16 + length ?bits + pad_length (16 + length ?bits)) div 8) (zlib_stream cmf flg bs (be4 c)) = be4 c"
    unfolding e by (simp add: zlib_stream_def)
qed

lemma blocks_give:
  assumes "header_ok cmf flg" "bs \<noteq> []" "blocks_ok [] bs" "list_all block_fits bs" "c < 4294967296"
  shows "gives [] (started (zlib_stream cmf flg bs (be4 c)))
    (if c = adler_reference (blocks_out [] bs) then Inr (Some (blocks_out [] bs)) else Inl (Runtime ''incorrect data check''))"
proof -
  let ?t = "zlib_stream cmf flg bs (be4 c)"
  note parts = zlib_stream_parts [OF assms(1), of bs c]
  have t: "?t = cmf # flg # pack_bits (blocks_bits 16 bs) @ be4 c" by (simp add: zlib_stream_def)
  obtain z where z: "runs 1 (started ?t) z" "at_block ?t 0 [] 16 [] z" by (rule header_run [OF t assms(1) parts(1)])
  have "leads [] (started ?t) (\<lambda>ch' z'. at_block ?t 1 ch' (16 + length (blocks_bits 16 bs)) (blocks_out [] bs) z')"
    by (rule leads_after [OF z(1) blocks_leads [OF assms(2) z(2) assms(3,4) parts(2)]])
  then show ?thesis by (rule leads_gives) (rule end_gives [OF _ parts(3) assms(5)])
qed

lemma pako_inflate_blocks:
  assumes "header_ok cmf flg" "bs \<noteq> []" "blocks_ok [] bs" "list_all block_fits bs" "c < 4294967296"
    and "16384 * length (zlib_stream cmf flg bs (be4 c)) + 6 \<le> fuel"
  shows "pako_inflate fuel (zlib_stream cmf flg bs (be4 c)) =
    (if c = adler_reference (blocks_out [] bs) then Inr (Some (blocks_out [] bs)) else Inl (Runtime ''incorrect data check''))" (is "_ = ?v")
proof -
  let ?t = "zlib_stream cmf flg bs (be4 c)" and ?N = "16384 * length (zlib_stream cmf flg bs (be4 c)) + 6"
  obtain n where n: "\<And>m. n \<le> m \<Longrightarrow> pako_inflate m ?t = ?v" using started_call [OF blocks_give [OF assms(1-5)]] by blast
  obtain r where r: "\<And>k. pako_inflate (?N + k) ?t = r" using pako_inflate_total [of ?t] by blast
  have "r = ?v" using r [of n] n [of "?N + n"] by simp
  moreover obtain k where "fuel = ?N + k" using assms(6) le_Suc_ex by blast
  ultimately show ?thesis using r [of k] by simp
qed

text \<open>
  Three blocks, one of each kind.  The last has a literal, a copy of length 3 and the end of the block in its first code,
  the distances 1 and 2 in its second.
\<close>

definition example_clens :: "clen list" where
  "example_clens = [Many 86, Len 1, Many 127, Many 9, Len 2, Len 2, Len 1, Len 1]"

definition example_blocks :: "block list" where
  "example_blocks = [Stored [98], Fixed [Lit 99],
     Dynamic 258 2 18 [0, 2, 2, 0, 0, 0, 0, 0, 0, 0, 0, 0, 0, 0, 0, 0, 0, 0, 1] example_clens [Lit 97, Copy 0 0 0 0]]"

lemma example_lengths:
  "literal_lengths 258 example_clens = replicate 97 0 @ 1 # replicate 158 0 @ [2, 2]" "dist_lengths 258 example_clens = [1, 1]"
  "length (clens_out [] example_clens) = 260"
proof -
  have r: "replicate 138 (0::nat) @ replicate 20 0 @ xs = replicate 158 0 @ xs" for xs
    by (simp add: replicate_add [symmetric] append_assoc [symmetric] del: append_assoc)
  have e: "clens_out [] example_clens = (replicate 97 0 @ 1 # replicate 158 0 @ [2, 2]) @ [1, 1]"
    by (simp add: example_clens_def r)
  show "literal_lengths 258 example_clens = replicate 97 0 @ 1 # replicate 158 0 @ [2, 2]" "dist_lengths 258 example_clens = [1, 1]"
    "length (clens_out [] example_clens) = 260"
    unfolding literal_lengths_def dist_lengths_def e by simp_all
qed

lemma example_fits: "list_all block_fits example_blocks"
proof -
  let ?ls = "replicate 97 0 @ 1 # replicate 158 0 @ [2, 2] :: nat list" and ?ds = "[1, 1] :: nat list"
  let ?cs = "[0, 2, 2, 0, 0, 0, 0, 0, 0, 0, 0, 0, 0, 0, 0, 0, 0, 0, 1] :: nat list"
  have n: "xs = map (\<lambda>i. xs ! i) [0..<16]" if "length xs = 16" for xs :: "nat list" using that by (metis map_nth)
  have c: "count_lengths ls = map (count_list ls) [0..<16]" if "list_all (\<lambda>l. l < 16) ls" for ls
    using count_lengths_count [OF that] by (intro nth_equalityI) simp_all
  have small: "list_all (\<lambda>l. l < 16) ?ls" "list_all (\<lambda>l. l < 16) ?ds" "list_all (\<lambda>l. l < 16) ?cs" by (simp_all add: list_all_iff)
  have room: "code_room 1 (tl (count_lengths ?ls)) = Some 0" "code_room 1 (tl (count_lengths ?ds)) = Some 0" "code_room 1 (tl (count_lengths ?cs)) = Some 0"
    unfolding c [OF small(1)] c [OF small(2)] c [OF small(3)] by (simp_all add: upt_rec count_list_replicate Let_def)
  have "97 \<in> set (symbols ?ls)" "0 \<in> set (symbols ?ds)" "1 \<in> set (symbols ?cs)" by (simp_all add: symbols_mem nth_append)
  then have some: "symbols ?ls \<noteq> []" "symbols ?ds \<noteq> []" "symbols ?cs \<noteq> []" by auto
  have "tr_ret (inflate_table 1 ?ls (replicate 852 0) (replicate 288 0) 9) = 0"
    by (rule short_code_fits [OF _ _ some(1) _ room(1)]) (simp_all add: list_all_iff)
  moreover have "tr_ret (inflate_table 2 ?ds (replicate 592 0) (replicate 288 0) 6) = 0"
    by (rule short_code_fits [OF _ _ some(2) _ room(2)]) simp_all
  moreover have "tr_ret (inflate_table 0 ?cs (replicate 852 0) (replicate 288 0) 7) = 0"
    by (rule short_code_fits [OF _ _ some(3) _ room(3)]) simp_all
  ultimately show ?thesis
    by (simp only: example_blocks_def list.pred_inject block_fits_def block.case example_lengths length_code_fits_def tables_fit_def simp_thms)
qed

lemma example_ok: "blocks_ok [] example_blocks" "blocks_out [] example_blocks = [98, 99, 97, 97, 97, 97]"
proof -
  show o: "blocks_out [] example_blocks = [98, 99, 97, 97, 97, 97]"
    by (simp add: example_blocks_def length_base_def dist_base_def numeral_3_eq_3)
  have "clens_ok [0, 2, 2, 0, 0, 0, 0, 0, 0, 0, 0, 0, 0, 0, 0, 0, 0, 0, 1] [] example_clens"
    by (simp add: example_clens_def coded_def)
  moreover have "coded fixed_literals 99" "coded fixed_literals 256" by (simp_all add: coded_def fixed_literals_def)
  moreover have "list_all (\<lambda>k. [0, 2, 2, 0, 0, 0, 0, 0, 0, 0, 0, 0, 0, 0, 0, 0, 0, 0, 1 :: nat] ! (clen_order ! k) = 0) [18..<19]"
    by (simp add: upt_rec clen_order_def)
  ultimately show "blocks_ok [] example_blocks"
    by (simp add: example_blocks_def example_lengths coded_def nth_append length_base_def dist_base_def length_extra_def dist_extra_def)
qed

lemma example_length: "length (zlib_stream 120 156 example_blocks (be4 c)) \<le> 60"
proof -
  let ?bits = "blocks_bits 16 example_blocks"
  have "length (clens_bits [0, 2, 2, 0, 0, 0, 0, 0, 0, 0, 0, 0, 0, 0, 0, 0, 0, 0, 1] example_clens) \<le> 100"
    by (simp add: example_clens_def)
  then have "length ?bits \<le> 400"
    by (simp add: example_blocks_def example_lengths fixed_literals_def nth_append length_extra_def dist_extra_def pad_length_def comp_def sum_list_triv length_concat)
  moreover have "8 * length (pack_bits ?bits) = length ?bits + pad_length (length ?bits)"
    using arg_cong [OF bit_list_pack [OF blocks_bits_bits [of 16 example_blocks]], of length] by simp
  moreover have "pad_length (length ?bits) < 8" by (simp add: pad_length_def)
  ultimately show ?thesis by (simp add: zlib_stream_def be4_def)
qed

text \<open>C2: \<open>pako.inflate\<close> is the inverse of the format of RFC 1950 and RFC 1951: a stream with a valid header and without preset
  dictionary, of any number of blocks, stored, in the fixed codes or in codes of their own, gives exactly the bytes
  its literals and copies stand for, of any length, over as many chunks of the result as they fill, and the error of the checksum
  when that is not theirs.  The loop through the slow and the fast decoder ends within 16384 units of fuel for each byte of the stream.
  Of a code that is sent with its block it is asked that its tables are built (\<open>block_fits\<close>), which holds for complete codes
  within the root (\<open>short_code_fits\<close>).
\<close>

theorem inflate_deflated:
  assumes "header_ok cmf flg" "bs \<noteq> []" "blocks_ok [] bs" "list_all block_fits bs" "c < 4294967296"
    and "16384 * length (zlib_stream cmf flg bs (be4 c)) + 6 \<le> fuel"
  shows "pako_inflate fuel (zlib_stream cmf flg bs (be4 c)) =
    (if c = adler_reference (blocks_out [] bs) then Inr (Some (blocks_out [] bs)) else Inl (Runtime ''incorrect data check''))"
  by (rule pako_inflate_blocks [OF assms])

lemma inflate_deflated_witness:
  "pako_inflate 1000000 (zlib_stream 120 156 example_blocks (be4 (adler_reference [98, 99, 97, 97, 97, 97]))) = Inr (Some [98, 99, 97, 97, 97, 97])"
proof -
  have c: "adler_reference [98, 99, 97, 97, 97, 97] < 4294967296" by (simp add: adler_reference_def)
  have n: "16384 * length (zlib_stream 120 156 example_blocks (be4 (adler_reference [98, 99, 97, 97, 97, 97]))) + 6 \<le> 1000000"
    using example_length [of "adler_reference [98, 99, 97, 97, 97, 97]"] by linarith
  have h: "header_ok 120 156" by (simp add: header_ok_def)
  show ?thesis
    using inflate_deflated [OF h _ example_ok(1) example_fits c n] unfolding example_ok(2) by (simp add: example_blocks_def)
qed

end
