(* ===== verification/Language_Packs.thy ===== *)
theory Language_Packs
  imports Error_Handler Script
begin

text \<open>
  The language packs of the plugin: \<open>loadLocale\<close> and \<open>t$d\<close> (line 30 of \<open>main.js\<close>) over the packed texts of
  line 23.  What the evaluation of a pack's text gives is a parameter: it throws, gives no function, or gives a
  function whose call throws or returns a pack or nothing.  Texts are the values of a pack; an empty one counts
  as missing.
\<close>

section \<open>Operations\<close>

type_synonym text_table = "string \<rightharpoonup> string"

type_synonym pack_evaluator = "js_text \<Rightarrow> text_table option result option result"

record languages = error_handler +
  current_locale :: "text_table option"

definition loadLocale ::
  "globals \<Rightarrow> pack_evaluator \<Rightarrow> text_table \<Rightarrow> string \<Rightarrow> languages \<Rightarrow> text_table \<times> languages" where
  "loadLocale g ev en l s =
     (case map_of (PLUGIN_LANGUAGES g) (if l = ''zh'' then ''zh-cn'' else l) of
        None \<Rightarrow> (en, s)
      | Some t \<Rightarrow>
          (case window_unpack g of
             None \<Rightarrow> (en, s)
           | Some i \<Rightarrow>
               (case i t of
                  Inl _ \<Rightarrow> (en, s)
                | Inr text \<Rightarrow>
                    (case safeEval (\<lambda>s. (ev text, s)) ''loadLocale - parsing language pack'' None s of
                       (Inl _, s) \<Rightarrow> (en, s)
                     | (Inr None, s) \<Rightarrow> (en, s)
                     | (Inr (Some a), s) \<Rightarrow>
                         (case a of Inl _ \<Rightarrow> (en, s) | Inr None \<Rightarrow> (en, s) | Inr (Some p) \<Rightarrow> (p, s))))))"

definition ensure_locale ::
  "globals \<Rightarrow> pack_evaluator \<Rightarrow> text_table \<Rightarrow> string \<Rightarrow> languages \<Rightarrow> text_table \<times> languages" where
  "ensure_locale g ev en l s =
     (case current_locale s of
        Some p \<Rightarrow> (p, s)
      | None \<Rightarrow> (case loadLocale g ev en l s of (p, s) \<Rightarrow> (p, s\<lparr>current_locale := Some p\<rparr>)))"

definition t_d ::
  "globals \<Rightarrow> pack_evaluator \<Rightarrow> text_table \<Rightarrow> string \<Rightarrow> string \<Rightarrow> languages \<Rightarrow> string option \<times> languages" where
  "t_d g ev en l k s =
     (case ensure_locale g ev en l s of
        (p, s) \<Rightarrow> (case p k of Some v \<Rightarrow> if v \<noteq> [] then Some v else en k | None \<Rightarrow> en k, s))"

text \<open>A sequence of lookups.\<close>

fun t_all ::
  "globals \<Rightarrow> pack_evaluator \<Rightarrow> text_table \<Rightarrow> string \<Rightarrow> string list \<Rightarrow> languages \<Rightarrow> string option list \<times> languages" where
  "t_all g ev en l [] s = ([], s)"
| "t_all g ev en l (k # ks) s =
     (case t_d g ev en l k s of (v, s) \<Rightarrow> (case t_all g ev en l ks s of (vs, s) \<Rightarrow> (v # vs, s)))"

section \<open>Lookups\<close>

definition translated :: "text_table \<Rightarrow> text_table \<Rightarrow> string \<Rightarrow> string option" where
  "translated p en k = (case p k of Some v \<Rightarrow> if v \<noteq> [] then Some v else en k | None \<Rightarrow> en k)"

lemma translated_same [simp]: "translated en en k = en k"
  by (simp add: translated_def split: option.split)

lemma translated_empty [simp]: "translated Map.empty en k = en k"
  by (simp add: translated_def)

lemma t_all_loaded: "current_locale s = Some p \<Longrightarrow> t_all g ev en l ks s = (map (translated p en) ks, s)"
  by (induction ks) (simp_all add: t_d_def ensure_locale_def translated_def)

text \<open>The pack is loaded by the first lookup and kept.\<close>

lemma t_all_first:
  assumes "current_locale s = None" "loadLocale g ev en l s = (p, s')"
  shows "t_all g ev en l (k # ks) s = (map (translated p en) (k # ks), s'\<lparr>current_locale := Some p\<rparr>)"
proof -
  have "t_d g ev en l k s = (translated p en k, s'\<lparr>current_locale := Some p\<rparr>)"
    using assms by (simp add: t_d_def ensure_locale_def translated_def)
  then show ?thesis by (simp add: t_all_loaded)
qed

text \<open>A pack whose text was packed properly and evaluates to translations.\<close>

context text_pack
begin

lemma loadLocale_packed:
  assumes "map_of (PLUGIN_LANGUAGES g) (if l = ''zh'' then ''zh-cn'' else l) = Some (pack x)" "packable x"
    and "window_unpack g = Some unpack" "ev (content x) = Inr (Some (Inr (Some p)))"
  shows "loadLocale g ev en l s = (p, s)"
  using assms by (simp add: loadLocale_def unpack_pack safeEval_def wrapWithTryCatch_def)

end

text \<open>With a language whose pack is the packed source of a table of translations, every lookup gives the
  translation, or the English text where there is none; the pack is loaded once, by the first lookup, and
  nothing is logged.\<close>

theorem lookups_translate:
  assumes "map_of (PLUGIN_LANGUAGES g) (if l = ''zh'' then ''zh-cn'' else l) = Some (pack_stored (cs, bss))"
    and "storable fuel (cs, bss)" "window_unpack g = Some (unpackBase64Deflate fuel)"
    and "ev (utf16 cs) = Inr (Some (Inr (Some p)))" "current_locale s = None" "ks \<noteq> []"
  shows "t_all g ev en l ks s = (map (translated p en) ks, s\<lparr>current_locale := Some p\<rparr>)"
proof -
  obtain k ks' where ks: "ks = k # ks'" using assms(6) by (cases ks) auto
  have "loadLocale g ev en l s = (p, s)"
    by (rule stored_text.loadLocale_packed [of _ _ "(cs, bss)"]) (use assms in simp_all)
  then show ?thesis unfolding ks by (rule t_all_first [OF assms(5)])
qed

theorem lookups_translate_witness:
  "t_all (script 15 [] [] (pack_stored ([104, 105], [[104, 105]])) [] []) (\<lambda>_. Inr (Some (Inr (Some [''OK'' \<mapsto> ''Hao'']))))
     [''OK'' \<mapsto> ''OK'', ''NO'' \<mapsto> ''No''] ''zh'' [''OK'', ''NO''] \<lparr>errorLog = [], notices = [], current_locale = None\<rparr> =
   ([Some ''Hao'', Some ''No''], \<lparr>errorLog = [], notices = [], current_locale = Some [''OK'' \<mapsto> ''Hao'']\<rparr>)"
proof -
  have "storable 15 ([104, 105], [[104, 105]])" by (simp add: storable_def scalar_def utf8_char_def)
  then show ?thesis
    by (subst lookups_translate [where cs = "[104, 105]" and bss = "[[104, 105]]" and fuel = 15 and p = "[''OK'' \<mapsto> ''Hao'']"]) (simp_all add: translated_def)
qed

text \<open>C18: A language that is not among the packs, or whose packed text does not unpack or unpacks to nothing (as a
  stream that was cut short does), gives the English texts.\<close>

theorem lookups_fall_back:
  assumes "\<And>t. map_of (PLUGIN_LANGUAGES g) (if l = ''zh'' then ''zh-cn'' else l) = Some t \<Longrightarrow>
      (\<exists>e. unpackBase64Deflate fuel t = Inl e) \<or> unpackBase64Deflate fuel t = Inr []"
    and "window_unpack g = Some (unpackBase64Deflate fuel)" "ev [] = Inr (Some (Inr (Some Map.empty)))" "current_locale s = None"
  shows "fst (t_all g ev en l ks s) = map en ks"
proof (cases ks)
  case (Cons k ks')
  obtain p s' where p: "loadLocale g ev en l s = (p, s')" by (rule prod.exhaust)
  have "p = en \<or> p = Map.empty"
    using assms p by (fastforce simp: loadLocale_def safeEval_def wrapWithTryCatch_def split: option.splits sum.splits)
  then show ?thesis using t_all_first [OF assms(4) p] Cons by auto
qed simp

theorem lookups_fall_back_witness:
  "fst (t_all (script 15 [] [] [] [] []) (\<lambda>_. Inr (Some (Inr (Some Map.empty)))) [''OK'' \<mapsto> ''Ok''] ''fr'' [''OK'', ''NO'']
     \<lparr>errorLog = [], notices = [], current_locale = None\<rparr>) = [Some ''Ok'', None]"
  by (subst lookups_fall_back [where fuel = 15]) simp_all

end
