(* ===== verification/Packed_Text.thy ===== *)
theory Packed_Text
  imports Pako_Deflate Language_Packs
begin

text \<open>
  The packed texts of the plugin, compressed: \<open>unpackBase64Deflate\<close> on a deflated stream of any blocks, and the language packs on
  top of it.  The interface \<open>text_pack\<close> has its second interpretation here.
\<close>

lemma unpack_deflated_text:
  assumes "list_all scalar cs" "cs \<noteq> [] \<longrightarrow> hd cs \<noteq> 65279"
    and "header_ok cmf flg" "bs \<noteq> []" "blocks_ok [] bs" "list_all block_fits bs" "blocks_out [] bs = utf8 cs"
    and "c < 4294967296" "16384 * length (zlib_stream cmf flg bs (be4 c)) + 6 \<le> fuel"
  shows "unpackBase64Deflate fuel (base64 (zlib_stream cmf flg bs (be4 c))) =
    (if c = adler_reference (utf8 cs) then Inr (utf16 cs) else Inl (Runtime ''incorrect data check''))"
  using unpack_base64 [OF zlib_stream_parts(1) [OF assms(3)], of fuel bs c] text_decode_utf8 [OF assms(1,2)]
    pako_inflate_blocks [OF assms(3-6,8,9)] assms(7) by simp

section \<open>Compressed texts as packs\<close>





section \<open>Unpacking\<close>

text \<open>The code points of the example: six letters.\<close>

lemma example_text: "utf8 [98, 99, 97, 97, 97, 97] = [98, 99, 97, 97, 97, 97]"
  by (simp add: utf8_char_def)

lemma example_size: "example_blocks \<noteq> []" "16384 * length (zlib_stream 120 156 example_blocks (be4 c)) + 6 \<le> 1000000"
  using example_length [of c] by (simp_all add: example_blocks_def)


text \<open>C1: A text of any length (that does not begin with a byte order mark) that is packed as a zlib stream of blocks of any kind
  and encoded as Base64 is unpacked to itself, over as many chunks of the result as its UTF-8 form fills, when the checksum is the
  Adler-32 of the bytes; with any other checksum the call throws.  Of the codes sent with the blocks it is asked that
  \<open>inflate_table\<close> has room for them (\<open>block_fits\<close>).\<close>

theorem unpack_deflated:
  assumes "list_all scalar cs" "cs \<noteq> [] \<longrightarrow> hd cs \<noteq> 65279"
    and "header_ok cmf flg" "bs \<noteq> []" "blocks_ok [] bs" "list_all block_fits bs" "blocks_out [] bs = utf8 cs"
    and "c < 4294967296" "16384 * length (zlib_stream cmf flg bs (be4 c)) + 6 \<le> fuel"
  shows "unpackBase64Deflate fuel (base64 (zlib_stream cmf flg bs (be4 c))) =
    (if c = adler_reference (utf8 cs) then Inr (utf16 cs) else Inl (Runtime ''incorrect data check''))"
  by (rule unpack_deflated_text [OF assms])

theorem unpack_deflated_witness:
  "unpackBase64Deflate 1000000 (base64 (zlib_stream 120 156 example_blocks (be4 1))) = Inl (Runtime ''incorrect data check'')"
proof -
  have s: "list_all scalar [98, 99, 97, 97, 97, 97]" "header_ok 120 156" by (simp_all add: scalar_def header_ok_def)
  have "adler_reference [98, 99, 97, 97, 97, 97] \<noteq> 1" by (simp add: adler_reference_def)
  then show ?thesis
    using unpack_deflated [of "[98, 99, 97, 97, 97, 97]", OF s(1) _ s(2) example_size(1) example_ok(1) example_fits _ _ example_size(2), of 1]
    unfolding example_ok(2) example_text by simp
qed

section \<open>Language packs\<close>



end
