(* ===== verification/Script_Returns.thy ===== *)
theory Script_Returns
  imports Pako_Returns Script
begin

text \<open>
  \<open>unpackBase64Deflate\<close> always ends: Base64 has no more bytes than characters, so the fuel that is enough for \<open>pako.inflate\<close>
  is enough for the whole text.
\<close>

lemma b64_bytes_length: "length (b64_bytes vs) \<le> length vs"
  by (induction vs rule: b64_bytes.induct) simp_all

lemma strip_padding_length: "length (strip_padding us) \<le> length us"
  by (simp add: strip_padding_def)

lemma those_length: "those xs = Some ys \<Longrightarrow> length ys = length xs"
  by (induction xs arbitrary: ys) (auto split: option.splits)

lemma atob_cases:
  obtains "atob us = Inl (Runtime ''InvalidCharacterError'')" | bs where "atob us = Inr bs" "length bs \<le> length us"
proof -
  let ?ds = "strip_padding (filter (\<lambda>u. \<not> ascii_space u) us)"
  have l: "length ?ds \<le> length us"
    using strip_padding_length [of "filter (\<lambda>u. \<not> ascii_space u) us"] length_filter_le [of "\<lambda>u. \<not> ascii_space u" us] by linarith
  show thesis
  proof (cases "those (map b64_value ?ds)")
    case None
    then show ?thesis using that(1) by (simp add: atob_def Let_def)
  next
    case (Some vs)
    have "length (b64_bytes vs) \<le> length us" using b64_bytes_length [of vs] those_length [OF Some] l by simp
    then show ?thesis using that Some by (cases "length ?ds mod 4 = 1") (simp_all add: atob_def Let_def)
  qed
qed

text \<open>C4: \<open>unpackBase64Deflate\<close> returns on every text, Base64 or not, deflated or not: with 16384 units of fuel per
  character the outcome no longer depends on the fuel, and it is a well-formed text or a thrown error of \<open>atob\<close> or of pako,
  never a read outside an array.\<close>

theorem unpack_returns:
  "\<exists>r. (\<forall>n. unpackBase64Deflate (16384 * length b64 + 6 + n) b64 = r) \<and>
     (case r of Inl e \<Rightarrow> \<exists>m. e = Runtime m | Inr us \<Rightarrow> units_ok us)"
proof (cases rule: atob_cases [of b64])
  case 1
  then show ?thesis by (simp add: unpackBase64Deflate_def bindE_def)
next
  case (2 bs)
  let ?t = "to_bytes bs"
  have len: "length ?t = length bs" by (simp add: to_bytes_def)
  obtain r where r: "\<And>n. pako_inflate (16384 * length ?t + 6 + n) ?t = r" and e: "case r of Inl e \<Rightarrow> \<exists>m. e = Runtime m | Inr _ \<Rightarrow> True"
    using pako_inflate_total [of ?t] by blast
  have "pako_inflate (16384 * length b64 + 6 + n) ?t = r" for n
    using r [of "16384 * (length b64 - length bs) + n"] 2(2) by (simp add: len algebra_simps)
  then have u: "unpackBase64Deflate (16384 * length b64 + 6 + n) b64 = bindE r (\<lambda>r. Inr (text_decode r))" for n
    by (simp add: unpackBase64Deflate_def 2(1))
  show ?thesis using e text_decode_ok by (intro exI [of _ "bindE r (\<lambda>r. Inr (text_decode r))"]) (auto simp: u bindE_def split: sum.splits)
qed

end
