(* ===== verification/Bytes.thy ===== *)
theory Bytes
  imports Prelude
begin

text \<open>
  Byte memory.  The code overlays packed structs on raw \<open>char\<close> arrays with
  \<open>reinterpret_cast\<close> and moves data with \<open>memcpy\<close>; the model keeps the arrays as functions
  from offsets to bytes and reads and writes little-endian integers at the structs' offsets.
  The bounds of an array are checked where the code writes (\<open>write_at\<close>, \<open>fill_at\<close>): a write
  outside is undefined behaviour.
\<close>

type_synonym byte = "8 word"
type_synonym mem = "nat \<Rightarrow> byte"

section \<open>Little-endian encodings\<close>

fun le_bytes :: "nat \<Rightarrow> nat \<Rightarrow> byte list" where
  "le_bytes 0 v = []"
| "le_bytes (Suc n) v = word_of_nat (v mod 256) # le_bytes n (v div 256)"

fun le_value :: "byte list \<Rightarrow> nat" where
  "le_value [] = 0"
| "le_value (b # bs) = unat b + 256 * le_value bs"

lemma length_le_bytes [simp]: "length (le_bytes n v) = n"
  by (induction n arbitrary: v) auto

lemma unat_byte_of_nat [simp]: "unat (word_of_nat v :: byte) = v mod 256"
  by (simp add: unat_of_nat)

lemma le_value_le_bytes [simp]: "le_value (le_bytes n v) = v mod 256 ^ n"
proof (induction n arbitrary: v)
  case 0
  then show ?case by simp
next
  case (Suc n)
  have "v mod 256 + 256 * (v div 256 mod 256 ^ n) = v mod (256 * 256 ^ n)"
    by (metis mod_mult2_eq add.commute)
  then show ?case by (simp add: Suc)
qed

lemma unat_byte_lt [simp]: "unat (b :: byte) < 256"
  using unsigned_less [of b, where ?'a = nat] by simp

lemma le_value_lt: "le_value bs < 256 ^ length bs"
proof (induction bs)
  case Nil
  then show ?case by simp
next
  case (Cons b bs)
  then have "unat b + 256 * le_value bs < 256 + 256 * (256 ^ length bs - 1)"
    using unat_byte_lt [of b] by (intro add_less_le_mono mult_le_mono2) auto
  also have "\<dots> = 256 ^ length (b # bs)"
    by (simp add: algebra_simps)
  finally show ?case by simp
qed

lemma le_bytes_le_value: "length bs = n \<Longrightarrow> le_bytes n (le_value bs) = bs"
proof (induction bs arbitrary: n)
  case Nil
  then show ?case by simp
next
  case (Cons b bs)
  have "(unat b + 256 * le_value bs) mod 256 = unat b"
    by simp
  moreover have "(unat b + 256 * le_value bs) div 256 = le_value bs"
    by simp
  ultimately show ?case
    using Cons by (cases n) auto
qed

text \<open>A C \<open>int\<close> is 32 bits in two's complement.\<close>

definition int_bits :: "int \<Rightarrow> nat" where
  "int_bits v = nat (v mod 4294967296)"

definition bits_int :: "nat \<Rightarrow> int" where
  "bits_int n = (if n < 2147483648 then int n else int n - 4294967296)"

definition int_range :: "int \<Rightarrow> bool" where
  "int_range v \<longleftrightarrow> - 2147483648 \<le> v \<and> v < 2147483648"

lemma int_range_small: "0 \<le> v \<Longrightarrow> v \<le> 65536 \<Longrightarrow> int_range v"
  by (simp add: int_range_def)

lemma int_bits_lt: "int_bits v < 4294967296"
  by (simp add: int_bits_def nat_less_iff)

lemma bits_int_int_bits [simp]: "int_range v \<Longrightarrow> bits_int (int_bits v) = v"
proof -
  assume r: "int_range v"
  show ?thesis
  proof (cases "0 \<le> v")
    case True
    with r have "v mod 4294967296 = v"
      by (intro mod_pos_pos_trivial) (auto simp: int_range_def)
    with True r show ?thesis by (simp add: int_bits_def bits_int_def int_range_def nat_less_iff)
  next
    case False
    have "v mod 4294967296 = (v + 4294967296) mod 4294967296"
      by simp
    also have "\<dots> = v + 4294967296"
      using False r by (intro mod_pos_pos_trivial) (auto simp: int_range_def)
    finally show ?thesis
      using False r by (simp add: int_bits_def bits_int_def int_range_def nat_less_iff)
  qed
qed

lemma int_bits_bits_int [simp]: "n < 4294967296 \<Longrightarrow> int_bits (bits_int n) = n"
proof -
  assume n: "n < 4294967296"
  have "(int n - 4294967296) mod 4294967296 = int n mod 4294967296"
    by (metis minus_mod_self2)
  with n show ?thesis
    by (simp add: int_bits_def bits_int_def zmod_int [symmetric])
qed

lemma int_range_bits_int: "n < 4294967296 \<Longrightarrow> int_range (bits_int n)"
  by (auto simp: int_range_def bits_int_def)

definition char_byte :: "char \<Rightarrow> byte" where
  "char_byte c = word_of_nat (of_char c)"

definition byte_char :: "byte \<Rightarrow> char" where
  "byte_char b = char_of (unat b)"

lemma byte_char_char_byte [simp]: "byte_char (char_byte c) = c"
  by (simp add: byte_char_def char_byte_def)

lemma map_byte_char_char_byte [simp]: "map (byte_char \<circ> char_byte) s = s"
  by (induction s) auto

section \<open>Reading and writing memory\<close>

definition get_bytes :: "mem \<Rightarrow> nat \<Rightarrow> nat \<Rightarrow> byte list" where
  "get_bytes m off n = map m [off..<off + n]"

definition put_bytes :: "nat \<Rightarrow> byte list \<Rightarrow> mem \<Rightarrow> mem" where
  "put_bytes off bs m =
     (\<lambda>i. if off \<le> i \<and> i < off + length bs then bs ! (i - off) else m i)"

definition fill_bytes :: "nat \<Rightarrow> nat \<Rightarrow> byte \<Rightarrow> mem \<Rightarrow> mem" where
  "fill_bytes off n b m = (\<lambda>i. if off \<le> i \<and> i < off + n then b else m i)"

lemma length_get_bytes [simp]: "length (get_bytes m off n) = n"
  by (simp add: get_bytes_def)

lemma get_bytes_cong:
  "(\<And>i. off \<le> i \<Longrightarrow> i < off + n \<Longrightarrow> m i = m' i) \<Longrightarrow> get_bytes m off n = get_bytes m' off n"
  by (simp add: get_bytes_def)

lemma get_put_same [mem_simps]:
  "n = length bs \<Longrightarrow> get_bytes (put_bytes off bs m) off n = bs"
  by (rule nth_equalityI) (auto simp: get_bytes_def put_bytes_def)

lemma get_put_other [mem_simps]:
  "off' + n \<le> off \<or> off + length bs \<le> off' \<Longrightarrow>
   get_bytes (put_bytes off bs m) off' n = get_bytes m off' n"
  by (rule get_bytes_cong) (auto simp: put_bytes_def)

lemma put_bytes_other [mem_simps]:
  "i < off \<or> off + length bs \<le> i \<Longrightarrow> put_bytes off bs m i = m i"
  by (auto simp: put_bytes_def)

lemma put_bytes_nth [mem_simps]:
  "i < length bs \<Longrightarrow> put_bytes off bs m (off + i) = bs ! i"
  by (simp add: put_bytes_def)

lemma get_fill_other [mem_simps]:
  "off' + n \<le> off \<or> off + k \<le> off' \<Longrightarrow>
   get_bytes (fill_bytes off k b m) off' n = get_bytes m off' n"
  by (rule get_bytes_cong) (auto simp: fill_bytes_def)

lemma get_fill_same [mem_simps]: "get_bytes (fill_bytes off n b m) off n = replicate n b"
  by (rule nth_equalityI) (auto simp: get_bytes_def fill_bytes_def)

lemma fill_bytes_other [mem_simps]:
  "i < off \<or> off + n \<le> i \<Longrightarrow> fill_bytes off n b m i = m i"
  by (auto simp: fill_bytes_def)

lemma put_bytes_Nil [simp]: "put_bytes off [] m = m"
  by (rule ext) (auto simp: put_bytes_def)

lemma put_put_append:
  "put_bytes (off + length bs) cs (put_bytes off bs m) = put_bytes off (bs @ cs) m"
  by (rule ext) (auto simp: put_bytes_def nth_append)

lemma fill_after_put:
  "fill_bytes (off + length bs) n b (put_bytes off bs m) = put_bytes off (bs @ replicate n b) m"
  by (rule ext) (auto simp: put_bytes_def fill_bytes_def nth_append)

lemma put_get_same: "put_bytes off (get_bytes m off n) m = m"
proof (rule ext)
  fix i
  show "put_bytes off (get_bytes m off n) m i = m i"
  proof (cases "off \<le> i \<and> i < off + n")
    case True
    then have "i - off < n" by linarith
    with True show ?thesis by (simp add: put_bytes_def get_bytes_def)
  next
    case False
    then show ?thesis by (auto simp: put_bytes_def)
  qed
qed

lemma put_put_same: "length bs = length cs \<Longrightarrow> put_bytes off cs (put_bytes off bs m) = put_bytes off cs m"
  by (simp add: put_bytes_def fun_eq_iff)

lemma get_bytes_add: "get_bytes m off (n + k) = get_bytes m off n @ get_bytes m (off + n) k"
  using upt_add_eq_append [of off "off + n" k] by (simp add: get_bytes_def add.assoc)

subsection \<open>Integers in memory\<close>

definition get_nat :: "mem \<Rightarrow> nat \<Rightarrow> nat \<Rightarrow> nat" where
  "get_nat m off n = le_value (get_bytes m off n)"

definition put_nat :: "nat \<Rightarrow> nat \<Rightarrow> nat \<Rightarrow> mem \<Rightarrow> mem" where
  "put_nat off n v m = put_bytes off (le_bytes n v) m"

definition get_int :: "mem \<Rightarrow> nat \<Rightarrow> int" where
  "get_int m off = bits_int (get_nat m off 4)"

definition put_int :: "nat \<Rightarrow> int \<Rightarrow> mem \<Rightarrow> mem" where
  "put_int off v m = put_nat off 4 (int_bits v) m"

definition get_bool :: "mem \<Rightarrow> nat \<Rightarrow> bool" where
  "get_bool m off \<longleftrightarrow> m off \<noteq> 0"

definition put_bool :: "nat \<Rightarrow> bool \<Rightarrow> mem \<Rightarrow> mem" where
  "put_bool off b m = put_bytes off [if b then 1 else 0] m"

lemma get_nat_put_nat [mem_simps]: "get_nat (put_nat off n v m) off n = v mod 256 ^ n"
  by (simp add: get_nat_def put_nat_def get_put_same)

lemma get_int_put_int [mem_simps]: "int_range v \<Longrightarrow> get_int (put_int off v m) off = v"
  using int_bits_lt [of v] by (simp add: get_int_def put_int_def mem_simps)

lemma get_bool_put_bool [mem_simps]: "get_bool (put_bool off b m) off = b"
  by (simp add: get_bool_def put_bool_def put_bytes_def)

lemma get_int_range: "int_range (get_int m off)"
  using le_value_lt [of "get_bytes m off 4"]
  by (simp add: get_int_def get_nat_def int_range_bits_int)

lemma get_nat_put_bytes_other [mem_simps]:
  "off' + n \<le> off \<or> off + length bs \<le> off' \<Longrightarrow> get_nat (put_bytes off bs m) off' n = get_nat m off' n"
  by (simp add: get_nat_def get_put_other)

lemma get_int_put_bytes_other [mem_simps]:
  "off' + 4 \<le> off \<or> off + length bs \<le> off' \<Longrightarrow> get_int (put_bytes off bs m) off' = get_int m off'"
  by (simp add: get_int_def get_nat_put_bytes_other)

lemma get_bool_put_bytes_other [mem_simps]:
  "off' < off \<or> off + length bs \<le> off' \<Longrightarrow> get_bool (put_bytes off bs m) off' = get_bool m off'"
  by (simp add: get_bool_def put_bytes_other)

lemma get_bytes_put_nat_other [mem_simps]:
  "off' + k \<le> off \<or> off + n \<le> off' \<Longrightarrow> get_bytes (put_nat off n v m) off' k = get_bytes m off' k"
  by (simp add: put_nat_def get_put_other)

lemma get_bytes_put_int_other [mem_simps]:
  "off' + k \<le> off \<or> off + 4 \<le> off' \<Longrightarrow> get_bytes (put_int off v m) off' k = get_bytes m off' k"
  by (simp add: put_int_def get_bytes_put_nat_other)

lemma get_bytes_put_bool_other [mem_simps]:
  "off' + k \<le> off \<or> off + 1 \<le> off' \<Longrightarrow> get_bytes (put_bool off b m) off' k = get_bytes m off' k"
  by (simp add: put_bool_def get_put_other)

lemma get_nat_put_nat_other [mem_simps]:
  "off' + k \<le> off \<or> off + n \<le> off' \<Longrightarrow> get_nat (put_nat off n v m) off' k = get_nat m off' k"
  by (simp add: put_nat_def get_nat_put_bytes_other)

lemma get_nat_put_int_other [mem_simps]:
  "off' + k \<le> off \<or> off + 4 \<le> off' \<Longrightarrow> get_nat (put_int off v m) off' k = get_nat m off' k"
  by (simp add: put_int_def get_nat_put_nat_other)

lemma get_nat_put_bool_other [mem_simps]:
  "off' + k \<le> off \<or> off + 1 \<le> off' \<Longrightarrow> get_nat (put_bool off b m) off' k = get_nat m off' k"
  by (simp add: put_bool_def get_nat_put_bytes_other)

lemma get_int_put_nat_other [mem_simps]:
  "off' + 4 \<le> off \<or> off + n \<le> off' \<Longrightarrow> get_int (put_nat off n v m) off' = get_int m off'"
  by (simp add: put_nat_def get_int_put_bytes_other)

lemma get_int_put_int_other [mem_simps]:
  "off' + 4 \<le> off \<or> off + 4 \<le> off' \<Longrightarrow> get_int (put_int off v m) off' = get_int m off'"
  by (simp add: put_int_def get_int_put_nat_other)

lemma get_int_put_bool_other [mem_simps]:
  "off' + 4 \<le> off \<or> off + 1 \<le> off' \<Longrightarrow> get_int (put_bool off b m) off' = get_int m off'"
  by (simp add: put_bool_def get_int_put_bytes_other)

lemma get_bool_put_nat_other [mem_simps]:
  "off' < off \<or> off + n \<le> off' \<Longrightarrow> get_bool (put_nat off n v m) off' = get_bool m off'"
  by (simp add: put_nat_def get_bool_put_bytes_other)

lemma get_bool_put_int_other [mem_simps]:
  "off' < off \<or> off + 4 \<le> off' \<Longrightarrow> get_bool (put_int off v m) off' = get_bool m off'"
  by (simp add: put_int_def get_bool_put_nat_other)

lemma get_bool_put_bool_other [mem_simps]:
  "off' \<noteq> off \<Longrightarrow> get_bool (put_bool off b m) off' = get_bool m off'"
  by (auto simp: put_bool_def get_bool_def put_bytes_def)

end
