(* ===== verification/Storage_Types.thy ===== *)
theory Storage_Types
  imports Bytes
begin

unbundle bit_operations_syntax

text \<open>
  The shared types of the storage manager (\<open>src/storage_manager/headers/types.hpp\<close>): page
  types, buffer pool constants, rows and values, slots and row identifiers, and the layout of
  a heap page inside a raw page buffer.
\<close>

section \<open>Constants and enumerations\<close>

datatype page_type = HEAP_PAGE | INDEX_PAGE | WAL_PAGE

definition buffer_size :: nat where "buffer_size = 50"

definition page_data_size :: nat where "page_data_size = 4096"

text \<open>The constants of page and frame numbers are \<open>static_cast<size_t>(-1)\<close>; stored in an
  \<open>int\<close> they are -1, and the comparison with an \<open>int\<close> page number converts it back.\<close>

definition INVALID_PAGE_ID :: int where "INVALID_PAGE_ID = -1"

definition MAX_SLOTS :: nat where "MAX_SLOTS = 10"

definition STRING_MAX_SIZE :: nat where "STRING_MAX_SIZE = 500"

text \<open>Sizes of the packed structs \<open>PageHeader\<close> (4+4+1+2) and \<open>Slot\<close> (4+2+1).\<close>

definition sizeof_PageHeader :: nat where "sizeof_PageHeader = 4 + 4 + 1 + 2"

definition sizeof_Slot :: nat where "sizeof_Slot = 4 + 2 + 1"

definition HEAP_PAYLOAD_SIZE :: nat where
  "HEAP_PAYLOAD_SIZE = page_data_size - sizeof_PageHeader - sizeof_Slot * MAX_SLOTS"

lemma storage_constants [simp]:
  "buffer_size = 50" "page_data_size = 4096" "INVALID_PAGE_ID = -1" "MAX_SLOTS = 10"
  "STRING_MAX_SIZE = 500" "sizeof_PageHeader = 11" "sizeof_Slot = 7" "HEAP_PAYLOAD_SIZE = 4015"
  by (simp_all add: buffer_size_def page_data_size_def INVALID_PAGE_ID_def MAX_SLOTS_def
      STRING_MAX_SIZE_def sizeof_PageHeader_def sizeof_Slot_def HEAP_PAYLOAD_SIZE_def)

datatype SUPORTED_COLUMN_TYPE = STRING | INTEGER | FLOATING

datatype op_type = EQ | GT | LS | GTE | LSE

datatype ScanStatus = SUCCESS | EOP | EOPs | ERR

section \<open>Values and rows\<close>

text \<open>A \<open>float\<close> is its 32-bit pattern.\<close>

type_synonym f32 = "32 word"

text \<open>\<open>VALUE_TYPE = std::variant<std::string, int, float>\<close>, alternatives in this order.\<close>

datatype VALUE_TYPE = VString string | VInt int | VFloat f32

type_synonym row_t = "VALUE_TYPE list"

record ScanResult =
  scan_status :: ScanStatus
  scan_result :: "row_t option"
  opration_complete :: bool

section \<open>Slots and row identifiers\<close>

record Slot =
  slot_size :: int
  slot_offset :: nat
  deleted :: bool

record RID =
  rid_pid :: int
  rid_slot :: Slot

text \<open>\<open>RID::operator==\<close> ignores the slot's size and its deleted flag.\<close>

definition rid_eq :: "RID \<Rightarrow> RID \<Rightarrow> bool" where
  "rid_eq a b \<longleftrightarrow> rid_pid b = rid_pid a \<and> slot_offset (rid_slot b) = slot_offset (rid_slot a)"

definition RID_Hash :: "RID \<Rightarrow> 32 word" where
  "RID_Hash e =
     0x9e3779b9 XOR ((word_of_int (rid_pid e) + push_bit 2 3) XOR (word_of_nat (slot_offset (rid_slot e)) + push_bit 2 7))"

text \<open>The key an \<open>unordered_map\<close> keyed by row identifiers distinguishes.\<close>

definition rid_key :: "RID \<Rightarrow> int \<times> nat" where
  "rid_key r = (rid_pid r, slot_offset (rid_slot r))"

lemma rid_eq_key: "rid_eq a b \<longleftrightarrow> rid_key a = rid_key b"
  by (auto simp: rid_eq_def rid_key_def)

lemma rid_eq_hash: "rid_eq a b \<Longrightarrow> RID_Hash a = RID_Hash b"
  by (simp add: rid_eq_def RID_Hash_def)

section \<open>The layout of a heap page\<close>

text \<open>
  \<open>HeapPage\<close> is packed: the header (free size at 0, slot count at 4, initialised flag at 8, LSN
  at 9), ten slots of seven bytes from offset 11, the payload from offset 81.
\<close>

definition hp_free_size :: "mem \<Rightarrow> int" where "hp_free_size m = get_int m 0"
definition hp_slot_count :: "mem \<Rightarrow> int" where "hp_slot_count m = get_int m 4"
definition hp_is_initialized :: "mem \<Rightarrow> bool" where "hp_is_initialized m = get_bool m 8"
definition hp_lsn :: "mem \<Rightarrow> nat" where "hp_lsn m = get_nat m 9 2"

definition set_free_size :: "int \<Rightarrow> mem \<Rightarrow> mem" where "set_free_size v = put_int 0 v"
definition set_slot_count :: "int \<Rightarrow> mem \<Rightarrow> mem" where "set_slot_count v = put_int 4 v"
definition set_is_initialized :: "bool \<Rightarrow> mem \<Rightarrow> mem" where "set_is_initialized b = put_bool 8 b"
definition set_lsn :: "nat \<Rightarrow> mem \<Rightarrow> mem" where "set_lsn v = put_nat 9 2 v"

definition slot_base :: "nat \<Rightarrow> nat" where
  "slot_base i = sizeof_PageHeader + sizeof_Slot * i"

definition hp_slot :: "mem \<Rightarrow> nat \<Rightarrow> Slot" where
  "hp_slot m i =
     \<lparr>slot_size = get_int m (slot_base i),
      slot_offset = get_nat m (slot_base i + 4) 2,
      deleted = get_bool m (slot_base i + 6)\<rparr>"

definition set_slot_size :: "nat \<Rightarrow> int \<Rightarrow> mem \<Rightarrow> mem" where
  "set_slot_size i v = put_int (slot_base i) v"
definition set_slot_offset :: "nat \<Rightarrow> nat \<Rightarrow> mem \<Rightarrow> mem" where
  "set_slot_offset i v = put_nat (slot_base i + 4) 2 v"
definition set_slot_deleted :: "nat \<Rightarrow> bool \<Rightarrow> mem \<Rightarrow> mem" where
  "set_slot_deleted i b = put_bool (slot_base i + 6) b"

definition heap_data :: nat where
  "heap_data = sizeof_PageHeader + sizeof_Slot * MAX_SLOTS"

definition initialize :: "mem \<Rightarrow> mem" where
  "initialize m =
     set_slot_count 0 (set_free_size (int HEAP_PAYLOAD_SIZE) (set_is_initialized True m))"

lemma heap_data_eq [simp]: "heap_data = 81"
  by (simp add: heap_data_def)

lemmas hp_access_defs = hp_free_size_def hp_slot_count_def hp_is_initialized_def hp_lsn_def
  hp_slot_def set_free_size_def set_slot_count_def set_is_initialized_def set_lsn_def
  set_slot_size_def set_slot_offset_def set_slot_deleted_def slot_base_def

subsection \<open>Header and slot fields are independent\<close>

lemma hp_header_same [mem_simps]:
  "int_range v \<Longrightarrow> hp_free_size (set_free_size v m) = v"
  "int_range v \<Longrightarrow> hp_slot_count (set_slot_count v m) = v"
  "hp_is_initialized (set_is_initialized b m) = b"
  "hp_lsn (set_lsn n m) = n mod 65536"
  by (simp_all add: hp_access_defs mem_simps)

lemma hp_header_other [mem_simps]:
  "hp_free_size (set_slot_count v m) = hp_free_size m"
  "hp_free_size (set_is_initialized b m) = hp_free_size m"
  "hp_free_size (set_lsn n m) = hp_free_size m"
  "hp_slot_count (set_free_size v m) = hp_slot_count m"
  "hp_slot_count (set_is_initialized b m) = hp_slot_count m"
  "hp_slot_count (set_lsn n m) = hp_slot_count m"
  "hp_is_initialized (set_free_size v m) = hp_is_initialized m"
  "hp_is_initialized (set_slot_count v m) = hp_is_initialized m"
  "hp_is_initialized (set_lsn n m) = hp_is_initialized m"
  "hp_lsn (set_free_size v m) = hp_lsn m"
  "hp_lsn (set_slot_count v m) = hp_lsn m"
  "hp_lsn (set_is_initialized b m) = hp_lsn m"
  by (simp_all add: hp_access_defs mem_simps)

lemma hp_header_set_slot [mem_simps]:
  "hp_free_size (set_slot_size i v m) = hp_free_size m"
  "hp_slot_count (set_slot_size i v m) = hp_slot_count m"
  "hp_is_initialized (set_slot_size i v m) = hp_is_initialized m"
  "hp_lsn (set_slot_size i v m) = hp_lsn m"
  "hp_free_size (set_slot_offset i n m) = hp_free_size m"
  "hp_slot_count (set_slot_offset i n m) = hp_slot_count m"
  "hp_is_initialized (set_slot_offset i n m) = hp_is_initialized m"
  "hp_lsn (set_slot_offset i n m) = hp_lsn m"
  "hp_free_size (set_slot_deleted i b m) = hp_free_size m"
  "hp_slot_count (set_slot_deleted i b m) = hp_slot_count m"
  "hp_is_initialized (set_slot_deleted i b m) = hp_is_initialized m"
  "hp_lsn (set_slot_deleted i b m) = hp_lsn m"
  by (simp_all add: hp_access_defs mem_simps)

lemma hp_slot_set_header [mem_simps]:
  "hp_slot (set_free_size v m) i = hp_slot m i"
  "hp_slot (set_slot_count v m) i = hp_slot m i"
  "hp_slot (set_is_initialized b m) i = hp_slot m i"
  "hp_slot (set_lsn n m) i = hp_slot m i"
  by (simp_all add: hp_access_defs mem_simps)

lemma hp_slot_set_other [mem_simps]:
  assumes "i \<noteq> j"
  shows "hp_slot (set_slot_size i v m) j = hp_slot m j"
    and "hp_slot (set_slot_offset i n m) j = hp_slot m j"
    and "hp_slot (set_slot_deleted i b m) j = hp_slot m j"
proof -
  from assms have "i < j \<or> j < i" by auto
  then show "hp_slot (set_slot_size i v m) j = hp_slot m j"
    and "hp_slot (set_slot_offset i n m) j = hp_slot m j"
    and "hp_slot (set_slot_deleted i b m) j = hp_slot m j"
    by (auto simp: hp_access_defs mem_simps)
qed

lemma hp_slot_set_same [mem_simps]:
  "int_range v \<Longrightarrow> hp_slot (set_slot_size i v m) i = (hp_slot m i)\<lparr>slot_size := v\<rparr>"
  "hp_slot (set_slot_offset i n m) i = (hp_slot m i)\<lparr>slot_offset := n mod 65536\<rparr>"
  "hp_slot (set_slot_deleted i b m) i = (hp_slot m i)\<lparr>deleted := b\<rparr>"
  by (simp_all add: hp_access_defs mem_simps)

text \<open>Writes to the payload leave the header and the slot directory alone.\<close>

lemma hp_put_payload [mem_simps]:
  assumes "heap_data \<le> off"
  shows "hp_free_size (put_bytes off bs m) = hp_free_size m"
    and "hp_slot_count (put_bytes off bs m) = hp_slot_count m"
    and "hp_is_initialized (put_bytes off bs m) = hp_is_initialized m"
    and "hp_lsn (put_bytes off bs m) = hp_lsn m"
    and "i < MAX_SLOTS \<Longrightarrow> hp_slot (put_bytes off bs m) i = hp_slot m i"
  using assms by (simp_all add: hp_access_defs mem_simps)

text \<open>Writes to the header and the slot directory leave the payload alone.\<close>

lemma payload_set_header [mem_simps]:
  assumes "heap_data \<le> off"
  shows "get_bytes (set_free_size v m) off n = get_bytes m off n"
    and "get_bytes (set_slot_count v m) off n = get_bytes m off n"
    and "get_bytes (set_is_initialized b m) off n = get_bytes m off n"
    and "get_bytes (set_lsn k m) off n = get_bytes m off n"
    and "i < MAX_SLOTS \<Longrightarrow> get_bytes (set_slot_size i v m) off n = get_bytes m off n"
    and "i < MAX_SLOTS \<Longrightarrow> get_bytes (set_slot_offset i k m) off n = get_bytes m off n"
    and "i < MAX_SLOTS \<Longrightarrow> get_bytes (set_slot_deleted i b m) off n = get_bytes m off n"
  using assms by (simp_all add: hp_access_defs mem_simps)

lemma initialize_fields [mem_simps]:
  "hp_free_size (initialize m) = 4015"
  "hp_slot_count (initialize m) = 0"
  "hp_is_initialized (initialize m)"
  "hp_lsn (initialize m) = hp_lsn m"
  by (simp_all add: initialize_def mem_simps int_range_def)

lemma hp_slot_count_range: "int_range (hp_slot_count m)"
  by (simp add: hp_slot_count_def get_int_range)

lemma hp_free_size_range: "int_range (hp_free_size m)"
  by (simp add: hp_free_size_def get_int_range)

end
