(* ===== verification/Numbers.thy ===== *)
theory Numbers
  imports Storage_Types
begin

text \<open>
  Numbers from text: what the source uses of \<open>std::stoi\<close>, \<open>std::stod\<close> and \<open>std::stof\<close>, with
  \<open>convert_correct_type\<close> of \<open>src/query_manager/headers/types.hpp\<close> and \<open>col_type_match\<close> of
  \<open>src/catalog_manager/headers/schmea_manager.hpp\<close>.  Decimal and hexadecimal literals are rounded to
  the nearest binary number, ties to even; a \<open>float\<close> is its bit pattern, and the order of \<open>float\<close>s
  is read off the patterns.
\<close>

section \<open>Characters\<close>

definition is_space :: "char \<Rightarrow> bool" where
  "is_space c \<longleftrightarrow> of_char c = (32 :: nat) \<or> (9 \<le> (of_char c :: nat) \<and> of_char c \<le> (13 :: nat))"

text \<open>The value of a digit in a base up to 16.\<close>

definition digit_value :: "nat \<Rightarrow> char \<Rightarrow> nat option" where
  "digit_value base c =
     (let n = of_char c;
          v = (if 48 \<le> n \<and> n \<le> 57 then n - 48
               else if 97 \<le> n \<and> n \<le> 102 then n - 87
               else if 65 \<le> n \<and> n \<le> 70 then n - 55 else 16)
      in if v < base then Some v else None)"

definition is_digit :: "nat \<Rightarrow> char \<Rightarrow> bool" where
  "is_digit base c \<longleftrightarrow> digit_value base c \<noteq> None"

definition digits_value :: "nat \<Rightarrow> string \<Rightarrow> nat" where
  "digits_value base s = foldl (\<lambda>a c. a * base + the (digit_value base c)) 0 s"

fun lower :: "char \<Rightarrow> char" where
  "lower c = (let n = of_char c in if 65 \<le> n \<and> n \<le> 90 then char_of (n + 32 :: nat) else c)"

text \<open>An optional sign: whether it is a minus, and the rest.\<close>

definition take_sign :: "string \<Rightarrow> bool \<times> string" where
  "take_sign s =
     (case s of
        c # r \<Rightarrow> if c = CHR ''-'' then (True, r) else if c = CHR ''+'' then (False, r) else (False, s)
      | [] \<Rightarrow> (False, s))"

section \<open>std::stoi\<close>

text \<open>The value and the number of characters used (\<open>*idx\<close>).\<close>

definition stoi :: "string \<Rightarrow> (int \<times> nat) result" where
  "stoi s =
     (case take_sign (dropWhile is_space s) of (neg, r) \<Rightarrow>
      let ds = takeWhile (is_digit 10) r;
          v = (if neg then - int (digits_value 10 ds) else int (digits_value 10 ds))
      in if ds = [] then Inl (Invalid_argument ''stoi'')
         else if \<not> int_range v then Inl (Out_of_range ''stoi'')
         else Inr (v, length s - length (drop (length ds) r)))"

section \<open>Literals of floating point numbers\<close>

datatype literal = Ratio nat nat | Infinite | NotANumber

text \<open>Digits, a point, digits: the digits, how many stand behind the point, the rest.\<close>

definition mantissa :: "nat \<Rightarrow> string \<Rightarrow> (string \<times> nat \<times> string) option" where
  "mantissa base s =
     (let ip = takeWhile (is_digit base) s; r = dropWhile (is_digit base) s;
          (fp, rest) = (case r of
              c # r' \<Rightarrow> if c = CHR ''.'' then (takeWhile (is_digit base) r', dropWhile (is_digit base) r') else ([], r)
            | [] \<Rightarrow> ([], r))
      in if ip @ fp = [] then None else Some (ip @ fp, length fp, rest))"

text \<open>An exponent after one of two letters; without digits it is not part of the literal.\<close>

definition exponent :: "char \<Rightarrow> string \<Rightarrow> int \<times> string" where
  "exponent letter s =
     (case s of
        c # r \<Rightarrow>
          if lower c = letter then
            (case take_sign r of (neg, r') \<Rightarrow>
              let ds = takeWhile (is_digit 10) r';
                  e = int (digits_value 10 ds)
              in if ds = [] then (0, s) else (if neg then - e else e, drop (length ds) r'))
          else (0, s)
      | [] \<Rightarrow> (0, s))"

text \<open>\<open>m * b ^ e\<close> as a ratio.\<close>

definition scale :: "nat \<Rightarrow> nat \<Rightarrow> int \<Rightarrow> literal" where
  "scale m b e = (if 0 \<le> e then Ratio (m * b ^ nat e) 1 else Ratio m (b ^ nat (- e)))"

definition decimal_literal :: "string \<Rightarrow> (literal \<times> string) option" where
  "decimal_literal s =
     (case mantissa 10 s of
        None \<Rightarrow> None
      | Some (ds, k, r) \<Rightarrow>
          (case exponent (CHR ''e'') r of (e, rest) \<Rightarrow>
             Some (scale (digits_value 10 ds) 10 (e - int k), rest)))"

text \<open>After \<open>0x\<close>; when no hexadecimal digit follows, only the \<open>0\<close> is a number.\<close>

definition hex_literal :: "string \<Rightarrow> (literal \<times> string) option" where
  "hex_literal s =
     (case mantissa 16 s of
        None \<Rightarrow> None
      | Some (ds, k, r) \<Rightarrow>
          (case exponent (CHR ''p'') r of (e, rest) \<Rightarrow>
             Some (scale (digits_value 16 ds) 2 (e - 4 * int k), rest)))"

definition starts_with :: "string \<Rightarrow> string \<Rightarrow> bool" where
  "starts_with p s \<longleftrightarrow> map lower (take (length p) s) = p"

text \<open>A parenthesis never reaches these functions inside a token, so \<open>nan(...)\<close> is left out.\<close>

definition float_literal :: "string \<Rightarrow> (literal \<times> string) option" where
  "float_literal s =
     (if starts_with ''infinity'' s then Some (Infinite, drop 8 s)
      else if starts_with ''inf'' s then Some (Infinite, drop 3 s)
      else if starts_with ''nan'' s then Some (NotANumber, drop 3 s)
      else if starts_with ''0x'' s \<and> hex_literal (drop 2 s) \<noteq> None then hex_literal (drop 2 s)
      else decimal_literal s)"

section \<open>Rounding to binary\<close>

fun bit_length :: "nat \<Rightarrow> nat" where
  "bit_length n = (if n = 0 then 0 else Suc (bit_length (n div 2)))"

declare bit_length.simps [simp del]

text \<open>\<open>n / d\<close> divided by \<open>2 ^ u\<close>, and rounded to the nearest integer, ties to even.\<close>

definition shift_ratio :: "nat \<Rightarrow> nat \<Rightarrow> int \<Rightarrow> nat \<times> nat" where
  "shift_ratio n d u = (if 0 \<le> u then (n, d * 2 ^ nat u) else (n * 2 ^ nat (- u), d))"

definition nearest :: "nat \<times> nat \<Rightarrow> nat" where
  "nearest r = (case r of (n, d) \<Rightarrow>
     (if 2 * (n mod d) < d \<or> (2 * (n mod d) = d \<and> even (n div d)) then n div d else n div d + 1))"

text \<open>The exponent of the leading bit of \<open>n / d\<close>.\<close>

definition leading :: "nat \<Rightarrow> nat \<Rightarrow> int" where
  "leading n d =
     (let e = int (bit_length n) - int (bit_length d) in
      case shift_ratio n d e of (n', d') \<Rightarrow> if d' \<le> n' then e else e - 1)"

text \<open>A binary format: bits of precision, exponent of the smallest unit, exponent of the overflow.\<close>

record format =
  precision :: nat
  unit_min :: int
  exp_max :: int

definition binary32 :: format where
  "binary32 = \<lparr>precision = 24, unit_min = -149, exp_max = 128\<rparr>"

definition binary64 :: format where
  "binary64 = \<lparr>precision = 53, unit_min = -1074, exp_max = 1024\<rparr>"

text \<open>
  The bits of the magnitude, or \<open>None\<close> when the C library reports \<open>ERANGE\<close>: an overflow, or an
  inexact result below the normal numbers.
\<close>

definition round_magnitude :: "format \<Rightarrow> nat \<Rightarrow> nat \<Rightarrow> nat option" where
  "round_magnitude f n d =
     (if n = 0 then Some 0
      else
        let p = precision f; u0 = leading n d - (int p - 1); u = max u0 (unit_min f);
            m0 = nearest (shift_ratio n d u0); m = nearest (shift_ratio n d u);
            inexact = (case shift_ratio n d u of (n', d') \<Rightarrow> n' mod d' \<noteq> 0);
            tiny = (u0 < unit_min f \<and> \<not> (u0 = unit_min f - 1 \<and> m0 = 2 ^ p))
        in if exp_max f - u < int p \<or> (exp_max f - u = int p \<and> m = 2 ^ p) then None
           else if inexact \<and> tiny then None
           else Some (m + nat (u - unit_min f) * 2 ^ (p - 1)))"

section \<open>std::stod and std::stof\<close>

definition float_bits :: "format \<Rightarrow> literal \<Rightarrow> nat option" where
  "float_bits f l =
     (case l of
        Ratio n d \<Rightarrow> round_magnitude f n d
      | Infinite \<Rightarrow> Some (nat (exp_max f - unit_min f - int (precision f) + 2) * 2 ^ (precision f - 1))
      | NotANumber \<Rightarrow> Some (nat (exp_max f - unit_min f - int (precision f) + 2) * 2 ^ (precision f - 1) + 2 ^ (precision f - 2)))"

text \<open>Sign, bits of the magnitude and characters used.\<close>

definition sto_float :: "string \<Rightarrow> format \<Rightarrow> string \<Rightarrow> (bool \<times> nat \<times> nat) result" where
  "sto_float name f s =
     (case take_sign (dropWhile is_space s) of (neg, r) \<Rightarrow>
      (case float_literal r of
         None \<Rightarrow> Inl (Invalid_argument name)
       | Some (l, rest) \<Rightarrow>
           (case float_bits f l of
              None \<Rightarrow> Inl (Out_of_range name)
            | Some b \<Rightarrow> Inr (neg, b, length s - length rest))))"

definition stod_used :: "string \<Rightarrow> nat result" where
  "stod_used s = bindE (sto_float ''stod'' binary64 s) (\<lambda>(neg, b, k). Inr k)"

definition stof :: "string \<Rightarrow> f32 result" where
  "stof s =
     bindE (sto_float ''stof'' binary32 s) (\<lambda>(neg, b, k).
     Inr (word_of_nat (b + (if neg then 2 ^ 31 else 0))))"

section \<open>Values from text\<close>

text \<open>An empty text gives the integer 0 whatever the type is.\<close>

definition convert_correct_type :: "string \<Rightarrow> SUPORTED_COLUMN_TYPE \<Rightarrow> VALUE_TYPE result" where
  "convert_correct_type s ty =
     (if s = [] then Inr (VInt 0)
      else case ty of
        STRING \<Rightarrow> Inr (VString s)
      | INTEGER \<Rightarrow> bindE (stoi s) (\<lambda>(v, k). Inr (VInt v))
      | FLOATING \<Rightarrow> bindE (stof s) (\<lambda>w. Inr (VFloat w)))"

definition col_type_match :: "SUPORTED_COLUMN_TYPE \<Rightarrow> string \<Rightarrow> bool result" where
  "col_type_match ty s =
     (case ty of
        STRING \<Rightarrow> Inr True
      | INTEGER \<Rightarrow> bindE (stoi s) (\<lambda>(v, k). Inr (k = length s))
      | FLOATING \<Rightarrow> bindE (stod_used s) (\<lambda>k. Inr (k = length s)))"

section \<open>The order of floats\<close>

text \<open>The numerical order of two patterns that are not NaN is the order of these keys.\<close>

definition f32_magnitude :: "f32 \<Rightarrow> nat" where
  "f32_magnitude w = unat w mod 2 ^ 31"

definition f32_nan :: "f32 \<Rightarrow> bool" where
  "f32_nan w \<longleftrightarrow> 2139095040 < f32_magnitude w"

definition f32_key :: "f32 \<Rightarrow> int" where
  "f32_key w = (if unat w < 2 ^ 31 then int (f32_magnitude w) else - int (f32_magnitude w))"

definition f32_eq :: "f32 \<Rightarrow> f32 \<Rightarrow> bool" where
  "f32_eq v w \<longleftrightarrow> \<not> f32_nan v \<and> \<not> f32_nan w \<and> f32_key v = f32_key w"

definition f32_less :: "f32 \<Rightarrow> f32 \<Rightarrow> bool" where
  "f32_less v w \<longleftrightarrow> \<not> f32_nan v \<and> \<not> f32_nan w \<and> f32_key v < f32_key w"

section \<open>Decimal numerals\<close>

definition digit_char :: "nat \<Rightarrow> char" where
  "digit_char d = char_of (48 + d)"

fun show_nat :: "nat \<Rightarrow> string" where
  "show_nat n = (if n < 10 then [digit_char n] else show_nat (n div 10) @ [digit_char (n mod 10)])"

declare show_nat.simps [simp del]

definition show_int :: "int \<Rightarrow> string" where
  "show_int v = (if v < 0 then CHR ''-'' # show_nat (nat (- v)) else show_nat (nat v))"

lemma digit_char_value [simp]: "d < 10 \<Longrightarrow> digit_value 10 (digit_char d) = Some d"
  by (simp add: digit_value_def digit_char_def Let_def)

lemma is_digit_char [simp]: "d < 10 \<Longrightarrow> is_digit 10 (digit_char d)"
  by (simp add: is_digit_def)

lemma show_nat_digits: "list_all (is_digit 10) (show_nat n) \<and> show_nat n \<noteq> [] \<and> digits_value 10 (show_nat n) = n"
proof (induction n rule: show_nat.induct)
  case (1 n)
  show ?case
  proof (cases "n < 10")
    case True
    then show ?thesis by (simp add: show_nat.simps [of n] digits_value_def)
  next
    case False
    then show ?thesis using 1 by (simp add: show_nat.simps [of n] digits_value_def)
  qed
qed

lemma digit_code: "is_digit 10 c \<longleftrightarrow> 48 \<le> (of_char c :: nat) \<and> of_char c \<le> (57 :: nat)"
  by (auto simp: is_digit_def digit_value_def Let_def split: if_splits)

lemma digit_not [simp]:
  "is_digit 10 c \<Longrightarrow> \<not> is_space c" "is_digit 10 c \<Longrightarrow> c \<noteq> CHR ''-''" "is_digit 10 c \<Longrightarrow> c \<noteq> CHR ''+''"
  "is_digit 10 c \<Longrightarrow> lower c = c"
  by (auto simp: digit_code is_space_def Let_def)

text \<open>A text of digits, maybe after a minus, as the parsers of numbers see it.\<close>

lemma digits_front:
  assumes "list_all (is_digit 10) ds" "ds \<noteq> []"
  shows "dropWhile is_space (ds @ r) = ds @ r" and "take_sign (ds @ r) = (False, ds @ r)"
    and "dropWhile is_space (CHR ''-'' # ds @ r) = CHR ''-'' # ds @ r"
    and "take_sign (CHR ''-'' # ds @ r) = (True, ds @ r)"
proof -
  obtain c cs where ds: "ds = c # cs" and c: "is_digit 10 c" using assms by (cases ds) auto
  have m: "\<not> is_space (CHR ''-'')" by (simp add: is_space_def)
  show "dropWhile is_space (ds @ r) = ds @ r" "take_sign (ds @ r) = (False, ds @ r)"
    "dropWhile is_space (CHR ''-'' # ds @ r) = CHR ''-'' # ds @ r"
    "take_sign (CHR ''-'' # ds @ r) = (True, ds @ r)"
    using c m by (simp_all add: ds take_sign_def)
qed

lemma takeWhile_digits: "list_all (is_digit 10) ds \<Longrightarrow> takeWhile (is_digit 10) ds = ds"
  by (simp add: takeWhile_eq_all_conv list_all_iff)

lemma stoi_show: "int_range v \<Longrightarrow> stoi (show_int v) = Inr (v, length (show_int v))"
  using show_nat_digits [of "nat v"] show_nat_digits [of "nat (- v)"]
    digits_front [of "show_nat (nat v)" "[]"] digits_front [of "show_nat (nat (- v))" "[]"]
  by (auto simp: stoi_def show_int_def takeWhile_digits)

section \<open>Floats of small integers\<close>

text \<open>The value of a pattern in units of \<open>2 ^ -149\<close>, the least positive \<open>float\<close>.\<close>

definition magnitude_units :: "nat \<Rightarrow> nat" where
  "magnitude_units b =
     (if b div 2 ^ 23 = 0 then b mod 2 ^ 23 else (2 ^ 23 + b mod 2 ^ 23) * 2 ^ (b div 2 ^ 23 - 1))"

definition f32_units :: "f32 \<Rightarrow> int" where
  "f32_units w = (if unat w < 2 ^ 31 then int (magnitude_units (f32_magnitude w)) else - int (magnitude_units (f32_magnitude w)))"

lemma magnitude_units_at: "f < 2 ^ 23 \<Longrightarrow> magnitude_units (e * 2 ^ 23 + f) = (if e = 0 then f else (2 ^ 23 + f) * 2 ^ (e - 1))"
  by (simp add: magnitude_units_def)

lemma magnitude_units_Suc: "magnitude_units b < magnitude_units (Suc b)"
proof -
  define e f where "e = b div 2 ^ 23" and "f = b mod 2 ^ 23"
  have b: "b = e * 2 ^ 23 + f" and f: "f < 2 ^ 23" by (simp_all add: e_def f_def)
  show ?thesis
  proof (cases "Suc f < 2 ^ 23")
    case True
    then have "magnitude_units (Suc b) = (if e = 0 then Suc f else (2 ^ 23 + Suc f) * 2 ^ (e - 1))"
      using magnitude_units_at [of "Suc f" e] by (simp add: b)
    then show ?thesis using magnitude_units_at [OF f, of e] by (simp add: b)
  next
    case False
    then have ff: "Suc f = 2 ^ 23" using f by simp
    then have "magnitude_units (Suc b) = 2 ^ 23 * 2 ^ e"
      using magnitude_units_at [of 0 "Suc e"] by (simp add: b)
    then show ?thesis using magnitude_units_at [OF f, of e] ff by (cases e) (simp_all add: b)
  qed
qed

lemma magnitude_units_less: "magnitude_units a < magnitude_units b \<longleftrightarrow> a < b"
  using strict_mono_less [of magnitude_units] magnitude_units_Suc by (auto simp: strict_mono_Suc_iff)

lemma magnitude_units_zero: "magnitude_units a = 0 \<longleftrightarrow> a = 0"
  using magnitude_units_less [of 0 a] by (auto simp: magnitude_units_def)

lemma f32_key_units: "f32_key v < f32_key w \<longleftrightarrow> f32_units v < f32_units w"
  using magnitude_units_less [of "f32_magnitude v" "f32_magnitude w"]
    magnitude_units_less [of "f32_magnitude w" "f32_magnitude v"]
    magnitude_units_zero [of "f32_magnitude v"] magnitude_units_zero [of "f32_magnitude w"]
  unfolding f32_key_def f32_units_def by (auto split: if_splits)

lemma bit_length_bounds: "0 < n \<Longrightarrow> 0 < bit_length n \<and> 2 ^ (bit_length n - 1) \<le> n \<and> n < 2 ^ bit_length n"
proof (induction n rule: bit_length.induct)
  case (1 n)
  show ?case
  proof (cases "n < 2")
    case True
    then have "n = Suc 0" using 1 by simp
    then show ?thesis by (simp add: bit_length.simps [of "Suc 0"] bit_length.simps [of 0])
  next
    case False
    define b where "b = bit_length (n div 2)"
    have b: "0 < b" "2 ^ (b - 1) \<le> n div 2" "n div 2 < 2 ^ b"
      using 1(1) False by (simp_all add: b_def)
    have "bit_length n = Suc b" using False by (simp add: bit_length.simps [of n] b_def)
    moreover have "(2::nat) ^ b = 2 * 2 ^ (b - 1)" using b(1) by (cases b) simp_all
    ultimately have "2 ^ b \<le> 2 * (n div 2)" "2 * (n div 2) + 2 \<le> 2 * 2 ^ b" using b by linarith+
    then have "2 ^ b \<le> n" "n < 2 * 2 ^ b"
      using div_mult_mod_eq [of n 2] mod_less_divisor [of 2 n] by linarith+
    with \<open>bit_length n = Suc b\<close> show ?thesis by simp
  qed
qed

text \<open>An integer of at most 24 bits is represented exactly.\<close>

lemma round_small:
  assumes "0 < n" "n < 2 ^ 24"
  shows "\<exists>m. round_magnitude binary32 n 1 = Some m \<and> m < 2 ^ 31 \<and> magnitude_units m = n * 2 ^ 149 \<and> m \<le> 2139095040"
proof -
  define b where "b = bit_length n"
  have b: "0 < b" "2 ^ (b - 1) \<le> n" "n < 2 ^ b"
    using bit_length_bounds [OF assms(1)] by (simp_all add: b_def)
  have "2 ^ (b - 1) < (2 :: nat) ^ 24" using b(2) assms(2) by linarith
  then have b24: "b \<le> 24" using power_increasing [of 24 "b - 1" "2 :: nat"] by linarith
  have l: "leading n 1 = int b - 1"
  proof -
    have "bit_length 1 = 1" by (simp add: bit_length.simps [of "Suc 0"] bit_length.simps [of 0])
    moreover have "nat (int b - 1) = b - 1" using b(1) by simp
    ultimately show ?thesis
      using b(1,2) by (simp add: leading_def shift_ratio_def b_def [symmetric])
  qed
  define k where "k = 24 - b"
  have k: "int b - 1 - 23 = - int k" "k + b = 24" using b24 by (simp_all add: k_def)
  define m where "m = n * 2 ^ k"
  have "2 ^ (b - 1) * 2 ^ k \<le> m" "m < 2 ^ b * 2 ^ k" using b by (simp_all add: m_def)
  then have m: "2 ^ 23 \<le> m" "m < 2 ^ 24"
    using k(2) b(1) by (simp_all add: power_add [symmetric] add.commute)
  have s: "shift_ratio n 1 (- int k) = (m, 1)" by (simp add: shift_ratio_def m_def)
  have mx: "max (- int k) (-149) = - int k" using k(2) by simp
  have "round_magnitude binary32 n 1 = Some (m + nat (149 - int k) * 2 ^ 23)"
  proof -
    have "leading n 1 = 23 - int k" using l k by simp
    then show ?thesis
      using assms(1) m s mx by (simp add: round_magnitude_def binary32_def nearest_def Let_def)
  qed
  moreover have "magnitude_units (m + nat (149 - int k) * 2 ^ 23) = n * 2 ^ 149"
  proof -
    define e where "e = nat (149 - int k)"
    have e: "e + k = 149" using k(2) by (simp add: e_def)
    have "m + e * 2 ^ 23 = Suc e * 2 ^ 23 + (m - 2 ^ 23)" using m(1) by simp
    moreover have "m - 2 ^ 23 < 2 ^ 23" using m by simp
    ultimately have "magnitude_units (m + e * 2 ^ 23) = m * 2 ^ e"
      using magnitude_units_at [of "m - 2 ^ 23" "Suc e"] m(1) by (simp add: add.commute)
    also have "\<dots> = n * 2 ^ 149" using e by (simp add: m_def mult.assoc power_add [symmetric] add.commute)
    finally show ?thesis by (simp only: e_def)
  qed
  moreover have "m + nat (149 - int k) * 2 ^ 23 < 2 ^ 24 + 149 * 2 ^ 23"
  proof -
    have "nat (149 - int k) \<le> 149" by simp
    then have "nat (149 - int k) * 2 ^ 23 \<le> 149 * 2 ^ 23" by (rule mult_le_mono1)
    then show ?thesis using m(2) by linarith
  qed
  ultimately show ?thesis by (intro exI [of _ "m + nat (149 - int k) * 2 ^ 23"]) simp
qed

lemma digits_literal:
  assumes "list_all (is_digit 10) ds" "ds \<noteq> []"
  shows "float_literal ds = Some (Ratio (digits_value 10 ds) 1, [])"
proof -
  have low: "map lower (take n ds) = take n ds" for n
    using assms(1) by (intro map_idI) (auto simp: list_all_iff dest: in_set_takeD simp del: lower.simps)
  have no: "\<not> starts_with p ds" if "\<exists>c \<in> set p. \<not> is_digit 10 c" for p
    using that assms(1) unfolding starts_with_def low by (metis in_set_takeD list_all_iff)
  have "\<not> is_digit 10 (CHR ''i'')" "\<not> is_digit 10 (CHR ''n'')" "\<not> is_digit 10 (CHR ''x'')"
    by (simp_all add: digit_code)
  then have "\<not> starts_with ''infinity'' ds" "\<not> starts_with ''inf'' ds" "\<not> starts_with ''nan'' ds" "\<not> starts_with ''0x'' ds"
    by (auto intro!: no)
  then have "float_literal ds = decimal_literal ds" by (simp add: float_literal_def)
  moreover have "dropWhile (is_digit 10) ds = []" using assms(1) by (simp add: list_all_iff)
  ultimately show ?thesis
    using assms by (simp add: decimal_literal_def mantissa_def takeWhile_digits exponent_def scale_def)
qed

lemma stof_show:
  assumes "\<bar>v\<bar> < 2 ^ 24"
  shows "\<exists>w. stof (show_int v) = Inr w \<and> f32_units w = v * 2 ^ 149 \<and> \<not> f32_nan w"
proof -
  define n where "n = nat \<bar>v\<bar>"
  have n: "n < 2 ^ 24" using assms by (simp add: n_def)
  obtain m where m: "round_magnitude binary32 n 1 = Some m" "m < 2 ^ 31" "magnitude_units m = n * 2 ^ 149" "m \<le> 2139095040"
  proof (cases "n = 0")
    case True
    then show ?thesis using that [of 0] by (simp add: round_magnitude_def magnitude_units_def)
  next
    case False
    then show ?thesis using that round_small [of n] n by blast
  qed
  define ds where "ds = show_nat n"
  have ds: "list_all (is_digit 10) ds" "ds \<noteq> []" "digits_value 10 ds = n"
    using show_nat_digits [of n] by (simp_all add: ds_def)
  note front = digits_front [OF ds(1,2), of "[]", simplified]
  define w :: f32 where "w = word_of_nat (m + (if v < 0 then 2 ^ 31 else 0))"
  have uw: "unat w = m + (if v < 0 then 2 ^ 31 else 0)"
    unfolding w_def by (subst unat_of_nat) (use m(2) in simp)
  have "show_int v = (if v < 0 then CHR ''-'' # ds else ds)"
    by (simp add: show_int_def ds_def n_def)
  then have "stof (show_int v) = Inr w"
    using front digits_literal [OF ds(1,2)] ds(3) m(1)
    by (simp add: stof_def sto_float_def float_bits_def w_def)
  moreover have "f32_magnitude w = m" using uw m(2) by (simp add: f32_magnitude_def)
  moreover have "int n = \<bar>v\<bar>" by (simp add: n_def)
  ultimately show ?thesis
    using uw m by (auto simp: f32_units_def f32_nan_def)
qed

section \<open>Properties\<close>

text \<open>Integers are read back: for every \<open>int\<close> its decimal text, without leading zeros, matches
  an integer column and is converted to it, and for an integer below \<open>2 ^ 24\<close> in magnitude the
  conversion of this text for a floating column gives exactly that value.\<close>

theorem numbers_read_back:
  assumes "int_range v"
  shows "col_type_match INTEGER (show_int v) = Inr True \<and>
    convert_correct_type (show_int v) INTEGER = Inr (VInt v) \<and>
    (\<bar>v\<bar> < 2 ^ 24 \<longrightarrow>
      (\<exists>w. convert_correct_type (show_int v) FLOATING = Inr (VFloat w) \<and> f32_units w = v * 2 ^ 149))"
proof -
  have "show_int v \<noteq> []" using show_nat_digits by (simp add: show_int_def)
  then show ?thesis
    using stoi_show [OF assms] stof_show [of v] by (auto simp: col_type_match_def convert_correct_type_def)
qed

theorem numbers_read_back_witness:
  "convert_correct_type ''-1'' INTEGER = Inr (VInt (-1)) \<and>
   (\<exists>w. convert_correct_type ''-1'' FLOATING = Inr (VFloat w) \<and> f32_units w = - (2 ^ 149))"
proof -
  have "show_int (-1) = ''-1''" by (simp add: show_int_def show_nat.simps [of "Suc 0"] digit_char_def char_of_def bit_0)
  then show ?thesis
    using numbers_read_back [of "-1"] by (simp add: int_range_def)
qed

text \<open>The order the filter uses on floats is the numerical order: for two patterns that are not NaN the
  comparison agrees with the comparison of their values, and a NaN is neither less than nor equal to
  anything.\<close>

theorem float_order:
  shows "f32_less v w = (\<not> f32_nan v \<and> \<not> f32_nan w \<and> f32_units v < f32_units w) \<and>
    f32_eq v w = (\<not> f32_nan v \<and> \<not> f32_nan w \<and> f32_units v = f32_units w)"
  using f32_key_units [of v w] f32_key_units [of w v] unfolding f32_less_def f32_eq_def by force

end
