(* ===== verification/Versions.thy ===== *)
theory Versions
  imports Numbers Script
begin

text \<open>
  Versions of the plugin (line 30 of \<open>main.js\<close>): \<open>isVersionNewerThanOther\<close> and
  \<open>verifyMinimumPluginVersion\<close>, with what they use of \<open>match\<close>, \<open>parseInt\<close> and \<open>split\<close>.
\<close>

section \<open>Operations\<close>

text \<open>\<open>/(\d*)\.(\d*)\.(\d*)/\<close> at one position, and the first position where it matches.\<close>

definition match_here :: "string \<Rightarrow> (string \<times> string \<times> string) option" where
  "match_here s =
     (case dropWhile (is_digit 10) s of
        c # s1 \<Rightarrow>
          if c \<noteq> CHR ''.'' then None
          else (case dropWhile (is_digit 10) s1 of
                  d # s2 \<Rightarrow> if d \<noteq> CHR ''.'' then None
                    else Some (takeWhile (is_digit 10) s, takeWhile (is_digit 10) s1, takeWhile (is_digit 10) s2)
                | [] \<Rightarrow> None)
      | [] \<Rightarrow> None)"

fun match_version :: "string \<Rightarrow> (string \<times> string \<times> string) option" where
  "match_version [] = None"
| "match_version (c # s) = (case match_here (c # s) of Some m \<Rightarrow> Some m | None \<Rightarrow> match_version s)"

text \<open>
  The number a numeral gives: exact below \<open>2 ^ 53\<close>, else rounded to 53 bits (to even in the middle); the
  value \<open>2 ^ 1024\<close> stands for infinity.
\<close>

fun bit_count :: "nat \<Rightarrow> nat" where
  "bit_count n = (if n = 0 then 0 else Suc (bit_count (n div 2)))"

declare bit_count.simps [simp del]

definition js_number :: "nat \<Rightarrow> nat" where
  "js_number n =
     (if n < 2 ^ 53 then n
      else let k = bit_count n - 53; q = n div 2 ^ k; r = n mod 2 ^ k;
               q = (if 2 * r < 2 ^ k \<or> (2 * r = 2 ^ k \<and> even q) then q else q + 1)
           in min (2 ^ 1024) (q * 2 ^ k))"

text \<open>\<open>None\<close> is \<open>NaN\<close>.\<close>

definition parseInt :: "string \<Rightarrow> nat option" where
  "parseInt ds = (if ds = [] then None else Some (js_number (digits_value 10 ds)))"

definition isVersionNewerThanOther :: "string \<Rightarrow> string \<Rightarrow> bool" where
  "isVersionNewerThanOther e t =
     (if e = [] \<or> t = [] then True
      else case (match_version e, match_version t) of
        (Some (i1, i2, i3), Some (n1, n2, n3)) \<Rightarrow>
          (case (parseInt i1, parseInt i2, parseInt i3, parseInt n1, parseInt n2, parseInt n3) of
             (Some i1, Some i2, Some i3, Some n1, Some n2, Some n3) \<Rightarrow>
               n1 < i1 \<or> (n1 \<le> i1 \<and> n2 < i2) \<or> (n1 \<le> i1 \<and> n2 \<le> i2 \<and> n3 < i3)
           | _ \<Rightarrow> False)
      | _ \<Rightarrow> False)"

definition verifyMinimumPluginVersion :: "globals \<Rightarrow> string \<Rightarrow> bool" where
  "verifyMinimumPluginVersion g e =
     (let p = takeWhile (\<lambda>c. c \<noteq> CHR ''-'') (PLUGIN_VERSION g) in p = e \<or> isVersionNewerThanOther p e)"

section \<open>The order of versions\<close>

definition version_text :: "nat \<times> nat \<times> nat \<Rightarrow> string" where
  "version_text v = (case v of (a, b, c) \<Rightarrow> show_nat a @ ''.'' @ show_nat b @ ''.'' @ show_nat c)"

text \<open>The order of the parts, the first that differs deciding.\<close>

definition version_less :: "nat \<times> nat \<times> nat \<Rightarrow> nat \<times> nat \<times> nat \<Rightarrow> bool" where
  "version_less v w = (case (v, w) of ((a, b, c), (a', b', c')) \<Rightarrow> a < a' \<or> (a = a' \<and> (b < b' \<or> (b = b' \<and> c < c'))))"

lemma dot_no_digit [simp]: "\<not> is_digit 10 (CHR ''.'')"
  by (simp add: digit_code)

lemma digits_split:
  "takeWhile (is_digit 10) (show_nat n) = show_nat n" "dropWhile (is_digit 10) (show_nat n) = []"
  "takeWhile (is_digit 10) (show_nat n @ CHR ''.'' # s) = show_nat n"
  "dropWhile (is_digit 10) (show_nat n @ CHR ''.'' # s) = CHR ''.'' # s"
  using show_nat_digits [of n]
  by (auto simp: takeWhile_digits list_all_iff takeWhile_append2 dropWhile_append2)

lemma match_version_text: "match_version (version_text (a, b, c)) = Some (show_nat a, show_nat b, show_nat c)"
proof -
  have "match_here (version_text (a, b, c)) = Some (show_nat a, show_nat b, show_nat c)"
    by (simp add: match_here_def version_text_def digits_split)
  moreover have "version_text (a, b, c) \<noteq> []" by (simp add: version_text_def)
  ultimately show ?thesis by (cases "version_text (a, b, c)") simp_all
qed

lemma parseInt_show: "n < 2 ^ 53 \<Longrightarrow> parseInt (show_nat n) = Some n"
  using show_nat_digits [of n] by (simp add: parseInt_def js_number_def)

lemma newer_version_text:
  assumes "a < 2 ^ 53" "b < 2 ^ 53" "c < 2 ^ 53" "a' < 2 ^ 53" "b' < 2 ^ 53" "c' < 2 ^ 53"
  shows "isVersionNewerThanOther (version_text (a, b, c)) (version_text (a', b', c')) \<longleftrightarrow> version_less (a', b', c') (a, b, c)"
proof -
  have "version_text (a, b, c) \<noteq> []" "version_text (a', b', c') \<noteq> []" by (simp_all add: version_text_def)
  then show ?thesis
    by (auto simp: isVersionNewerThanOther_def match_version_text parseInt_show [OF assms(1)] parseInt_show [OF assms(2)]
        parseInt_show [OF assms(3)] parseInt_show [OF assms(4)] parseInt_show [OF assms(5)] parseInt_show [OF assms(6)]
        version_less_def)
qed

lemma version_text_inj: "version_text v = version_text w \<Longrightarrow> v = w"
proof -
  obtain a b c a' b' c' where v: "v = (a, b, c)" "w = (a', b', c')" by (cases v; cases w)
  assume "version_text v = version_text w"
  then have "show_nat a = show_nat a'" "show_nat b = show_nat b'" "show_nat c = show_nat c'"
    using match_version_text [of a b c] match_version_text [of a' b' c'] by (simp_all add: v)
  then show "v = w" using show_nat_digits by (metis v)
qed

text \<open>C17: For versions with three numbers below \<open>2 ^ 53\<close>, \<open>isVersionNewerThanOther\<close> is the order of the numbers,
  the first that differs deciding, and \<open>verifyMinimumPluginVersion\<close> accepts exactly the versions that are not
  after the plugin's own.\<close>

theorem version_order:
  assumes "list_all (\<lambda>n. n < 2 ^ 53) [a, b, c, a', b', c']"
  shows "(isVersionNewerThanOther (version_text (a, b, c)) (version_text (a', b', c')) \<longleftrightarrow> version_less (a', b', c') (a, b, c)) \<and>
    (verifyMinimumPluginVersion (script fuel lib ru cn tw es) (version_text (a, b, c)) \<longleftrightarrow> \<not> version_less (2, 26, 4) (a, b, c))"
proof -
  have own: "version_text (2, 26, 4) = ''2.26.4''"
    by (simp add: version_text_def show_nat.simps digit_char_def) code_simp
  have "verifyMinimumPluginVersion (script fuel lib ru cn tw es) (version_text (a, b, c)) \<longleftrightarrow>
      (2, 26, 4) = (a, b, c) \<or> isVersionNewerThanOther (version_text (2, 26, 4)) (version_text (a, b, c))"
    using version_text_inj [of "(2, 26, 4)" "(a, b, c)"]
    by (auto simp: verifyMinimumPluginVersion_def own)
  moreover have "isVersionNewerThanOther (version_text (2, 26, 4)) (version_text (a, b, c)) \<longleftrightarrow> version_less (a, b, c) (2, 26, 4)"
    by (rule newer_version_text) (use assms in simp_all)
  moreover have "(2, 26, 4) = (a, b, c) \<or> version_less (a, b, c) (2, 26, 4) \<longleftrightarrow> \<not> version_less (2, 26, 4) (a, b, c)"
    by (auto simp: version_less_def)
  ultimately show ?thesis using newer_version_text assms by simp
qed

theorem version_order_witness:
  "isVersionNewerThanOther (version_text (2, 26, 4)) (version_text (2, 9, 10)) \<and>
   \<not> verifyMinimumPluginVersion (script 0 [] [] [] [] []) (version_text (3, 0, 0)) \<and>
   verifyMinimumPluginVersion (script 0 [] [] [] [] []) (version_text (1, 99, 99))"
  using version_order [of 2 26 4 2 9 10 0 "[]" "[]" "[]" "[]" "[]"] version_order [of 3 0 0 0 0 0 0 "[]" "[]" "[]" "[]" "[]"]
    version_order [of 1 99 99 0 0 0 0 "[]" "[]" "[]" "[]" "[]"] by (simp add: version_less_def)

end
