(* ===== verification/Random_Ids.thy ===== *)
theory Random_Ids
  imports Prelude
begin

text \<open>
  Identifiers of elements (line 30 of \<open>main.js\<close>): \<open>customRandom\<close>, \<open>customAlphabet\<close> and \<open>nanoid\<close>.  The
  random source is a parameter, the list of the byte arrays it gives; \<open>None\<close> is a call that asks for one more
  than there are.
\<close>

section \<open>Operations\<close>

text \<open>The bytes that stand for a character: \<open>n = 256 - 256 % e.length\<close>.\<close>

definition accept_limit :: "nat \<Rightarrow> nat" where
  "accept_limit len = 256 - 256 mod len"

text \<open>How many bytes are asked for: \<open>a = t\<close>, or \<open>a = Math.ceil(409.6 * t / n)\<close>.\<close>

definition block_size :: "nat \<Rightarrow> nat \<Rightarrow> nat" where
  "block_size len t =
     (let n = accept_limit len in if n = 256 then t else (4096 * t + 10 * n - 1) div (10 * n))"

text \<open>
  The character of a byte.  When the length divides 256 the mask \<open>len - 1\<close> is used, which is the remainder as
  the length is a power of two.
\<close>

definition pick :: "string \<Rightarrow> nat \<Rightarrow> char option" where
  "pick e b =
     (let n = accept_limit (length e) in
      if n = 256 then Some (e ! and b (length e - 1))
      else if b < n then Some (e ! (b mod length e)) else None)"

text \<open>One array, read from its end; \<open>Inr\<close> is the return, \<open>Inl\<close> what there is when the array is used up.\<close>

fun id_block :: "string \<Rightarrow> nat \<Rightarrow> nat list \<Rightarrow> string \<Rightarrow> (string, string) sum" where
  "id_block e s [] r = Inl r"
| "id_block e s (b # bs) r =
     (case pick e b of
        None \<Rightarrow> id_block e s bs r
      | Some c \<Rightarrow> let r = r @ [c] in if s \<le> length r then Inr r else id_block e s bs r)"

fun id_blocks :: "string \<Rightarrow> nat \<Rightarrow> nat list list \<Rightarrow> string \<Rightarrow> string option" where
  "id_blocks e s [] r = None"
| "id_blocks e s (t # ts) r = (case id_block e s (rev t) r of Inr r \<Rightarrow> Some r | Inl r \<Rightarrow> id_blocks e s ts r)"

definition customRandom :: "string \<Rightarrow> nat \<Rightarrow> nat list list \<Rightarrow> string option" where
  "customRandom e s ts = (if s = 0 then Some [] else id_blocks e s ts [])"

text \<open>The source \<open>random$3\<close> gives arrays of the size asked for.\<close>

definition nanoid_alphabet :: string where
  "nanoid_alphabet = ''1234567890abcdefghijklmnopqrstuvwxyzABCDEFGHIJKLMNOPQRSTUVWXYZ''"

definition nanoid :: "nat list list \<Rightarrow> string option" where
  "nanoid ts = customRandom nanoid_alphabet 8 ts"

section \<open>What is drawn\<close>

text \<open>The characters of all accepted bytes in the order in which they are read.\<close>

definition drawn :: "string \<Rightarrow> nat list list \<Rightarrow> string" where
  "drawn e ts = List.map_filter (pick e) (concat (map rev ts))"

lemma map_filter_append: "List.map_filter f (xs @ ys) = List.map_filter f xs @ List.map_filter f ys"
  by (simp add: List.map_filter_def)

lemma id_block_drawn:
  "length r < s \<Longrightarrow> id_block e s bs r =
     (let all = r @ List.map_filter (pick e) bs in if length all < s then Inl all else Inr (take s all))"
proof (induction bs arbitrary: r)
  case Nil
  then show ?case by (simp add: List.map_filter_simps)
next
  case (Cons b bs)
  show ?case
  proof (cases "pick e b")
    case None
    then show ?thesis using Cons by (simp add: List.map_filter_simps)
  next
    case (Some c)
    show ?thesis
    proof (cases "s \<le> Suc (length r)")
      case True
      then have "s = Suc (length r)" using Cons.prems by simp
      then show ?thesis using Some by (simp add: List.map_filter_simps Let_def)
    next
      case False
      then show ?thesis using Some Cons.IH [of "r @ [c]"] by (simp add: List.map_filter_simps Let_def)
    qed
  qed
qed

lemma id_blocks_drawn:
  "length r < s \<Longrightarrow> id_blocks e s ts r =
     (let all = r @ drawn e ts in if length all < s then None else Some (take s all))"
proof (induction ts arbitrary: r)
  case Nil
  then show ?case by (simp add: drawn_def List.map_filter_simps)
next
  case (Cons t ts)
  let ?all = "r @ List.map_filter (pick e) (rev t)"
  have d: "drawn e (t # ts) = List.map_filter (pick e) (rev t) @ drawn e ts"
    by (simp add: drawn_def map_filter_append)
  show ?case
    using Cons.IH [of ?all] Cons.prems by (auto simp: id_block_drawn d Let_def)
qed

lemma customRandom_drawn:
  "customRandom e s ts = (if s \<le> length (drawn e ts) then Some (take s (drawn e ts)) else None)"
  using id_blocks_drawn [of "[]" s e ts] by (auto simp: customRandom_def Let_def)

lemma nanoid_pick: "pick nanoid_alphabet b = (if b < 248 then Some (nanoid_alphabet ! (b mod 62)) else None)"
  by (simp add: pick_def accept_limit_def nanoid_alphabet_def)

lemma nanoid_drawn:
  "drawn nanoid_alphabet ts = map (\<lambda>b. nanoid_alphabet ! (b mod 62)) (filter (\<lambda>b. b < 248) (concat (map rev ts)))"
proof -
  have "List.map_filter (pick nanoid_alphabet) bs = map (\<lambda>b. nanoid_alphabet ! (b mod 62)) (filter (\<lambda>b. b < 248) bs)" for bs
    by (induction bs) (simp_all add: List.map_filter_simps nanoid_pick)
  then show ?thesis by (simp add: drawn_def)
qed

lemma nanoid_alphabet_distinct: "distinct nanoid_alphabet"
  by (simp add: nanoid_alphabet_def)

lemma nanoid_fair:
  "\<forall>c \<in> set nanoid_alphabet. length (filter (\<lambda>b. pick nanoid_alphabet b = Some c) [0..<256]) = 4"
proof
  fix c assume "c \<in> set nanoid_alphabet"
  moreover have l: "length nanoid_alphabet = 62" by (simp add: nanoid_alphabet_def)
  ultimately obtain i where i: "i < 62" "c = nanoid_alphabet ! i" by (auto simp: in_set_conv_nth)
  have "b mod 62 < 62" for b :: nat by simp
  then have p: "pick nanoid_alphabet b = Some c \<longleftrightarrow> b < 248 \<and> b mod 62 = i" for b
    using nth_eq_iff_index_eq [OF nanoid_alphabet_distinct, of "b mod 62" i] i l by (simp add: nanoid_pick)
  have "{b. b < 256 \<and> b < 248 \<and> b mod 62 = i} = {i, i + 62, i + 124, i + 186}"
  proof (intro set_eqI iffI)
    fix b assume "b \<in> {b. b < 256 \<and> b < 248 \<and> b mod 62 = i}"
    then have b: "b < 248" "b mod 62 = i" by simp_all
    define q where "q = b div 62"
    have "b = 62 * q + i" using mult_div_mod_eq [of 62 b] b(2) by (simp only: q_def)
    moreover have "q = 0 \<or> q = 1 \<or> q = 2 \<or> q = 3" using b(1) unfolding q_def by linarith
    ultimately show "b \<in> {i, i + 62, i + 124, i + 186}" by auto
  next
    have m: "(i + 62 * k) mod 62 = i" for k using i(1) by simp
    fix b assume "b \<in> {i, i + 62, i + 124, i + 186}"
    then show "b \<in> {b. b < 256 \<and> b < 248 \<and> b mod 62 = i}"
      using i(1) m [of 1] m [of 2] m [of 3] by auto
  qed
  moreover have "[0..<256] ! k = k" if "k < 256" for k :: nat using that by simp
  then have "{k. k < length [0..<256] \<and> pick nanoid_alphabet ([0..<256] ! k) = Some c} = {b. b < 256 \<and> b < 248 \<and> b mod 62 = i}"
    by (auto simp: p)
  ultimately show "length (filter (\<lambda>b. pick nanoid_alphabet b = Some c) [0..<256]) = 4"
    by (simp only: length_filter_conv_card) simp
qed

text \<open>C19: \<open>nanoid\<close> returns as soon as its source has given eight bytes below 248, and not before: the result is
  their characters, in the order in which they are read, so it has length 8 and is over the alphabet; among the
  accepted bytes each character has exactly four.\<close>

theorem nanoid_result:
  "nanoid ts = (let bs = filter (\<lambda>b. b < 248) (concat (map rev ts)) in
      if length bs < 8 then None else Some (map (\<lambda>b. nanoid_alphabet ! (b mod 62)) (take 8 bs))) \<and>
   list_all (\<lambda>c. length (filter (\<lambda>b. pick nanoid_alphabet b = Some c) [0..<256]) = 4) nanoid_alphabet \<and>
   distinct nanoid_alphabet \<and> block_size (length nanoid_alphabet) 8 = 14"
  using nanoid_fair nanoid_alphabet_distinct customRandom_drawn [of nanoid_alphabet 8 ts]
  by (auto simp: nanoid_def nanoid_drawn take_map list_all_iff Let_def block_size_def accept_limit_def nanoid_alphabet_def [THEN arg_cong [of _ _ length]])

end
