(* ===== verification/Disk.thy ===== *)
theory Disk
  imports Storage_Types
begin

text \<open>
  \<open>Disk_operator\<close> (\<open>src/storage_manager/headers/disk_operator.hpp\<close>): the heap file, the index
  file and the write-ahead log file.

  The two page files are written by \<open>write_page\<close> only, a whole page at a time at a multiple of
  the page size, so a page file is the list of its pages; the log is a list of bytes.  Every
  call into the operating system can fail: \<open>io_script\<close> says how the next calls end (an
  exhausted script means success), \<open>IO_fail n\<close> being a failure after \<open>n\<close> bytes have reached
  the log.  A failed page write leaves the page file as it was.
\<close>

datatype io_outcome = IO_ok | IO_fail nat

record disk =
  db_file :: "mem list"
  index_file :: "mem list"
  wal_file :: "byte list"
  io_script :: "io_outcome list"

section \<open>Calls into the operating system\<close>

definition sys_call :: "string \<Rightarrow> (nat \<Rightarrow> disk \<Rightarrow> disk) \<Rightarrow> (disk, unit) action" where
  "sys_call msg partial d =
     (case io_script d of
        [] \<Rightarrow> (Inr (), d)
      | IO_ok # r \<Rightarrow> (Inr (), d\<lparr>io_script := r\<rparr>)
      | IO_fail n # r \<Rightarrow> (Inl (Runtime msg), partial n (d\<lparr>io_script := r\<rparr>)))"

definition sys_check :: "string \<Rightarrow> (disk, unit) action" where
  "sys_check msg = sys_call msg (\<lambda>_ d. d)"

lemma sys_call_ok [simp]: "io_script d = [] \<Longrightarrow> sys_call msg p d = (Inr (), d)"
  by (simp add: sys_call_def)

lemma sys_check_ok [simp]: "io_script d = [] \<Longrightarrow> sys_check msg d = (Inr (), d)"
  by (simp add: sys_check_def)

section \<open>Page files\<close>

definition zero_page :: mem where "zero_page = (\<lambda>_. 0)"

fun page_file :: "page_type \<Rightarrow> disk \<Rightarrow> mem list" where
  "page_file HEAP_PAGE d = db_file d"
| "page_file INDEX_PAGE d = index_file d"
| "page_file WAL_PAGE d = []"

fun set_page_file :: "page_type \<Rightarrow> mem list \<Rightarrow> disk \<Rightarrow> disk" where
  "set_page_file HEAP_PAGE f d = d\<lparr>db_file := f\<rparr>"
| "set_page_file INDEX_PAGE f d = d\<lparr>index_file := f\<rparr>"
| "set_page_file WAL_PAGE f d = d"

text \<open>Writing at a page number past the end leaves a hole of zero bytes.\<close>

definition store_page :: "nat \<Rightarrow> mem \<Rightarrow> mem list \<Rightarrow> mem list" where
  "store_page n p f =
     (if n < length f then f[n := p] else f @ replicate (n - length f) zero_page @ [p])"

definition read_page :: "int \<Rightarrow> page_type \<Rightarrow> (disk, mem) action" where
  "read_page pid ty =
     (if ty = WAL_PAGE then throwS (Runtime ''Unsupported page type for read'')
      else if pid < 0 then throwS (Runtime ''Could not seek page'')
      else
        bindS (sys_check ''Could not seek page'') (\<lambda>_.
        bindS (getS (page_file ty)) (\<lambda>f.
        if nat pid < length f
        then bindS (sys_check ''Could not read page'') (\<lambda>_. returnS (f ! nat pid))
        else returnS zero_page)))"

definition write_page :: "int \<Rightarrow> mem \<Rightarrow> page_type \<Rightarrow> (disk, unit) action" where
  "write_page pid data ty =
     (if ty = WAL_PAGE then throwS (Runtime ''Unsupported page type for write'')
      else if pid < 0 then throwS (Runtime ''Could not seek page'')
      else
        bindS (sys_check ''Could not seek page'') (\<lambda>_.
        bindS (sys_check ''Could not write page'') (\<lambda>_.
        bindS (putS (\<lambda>d. set_page_file ty (store_page (nat pid) data (page_file ty d)) d)) (\<lambda>_.
        sys_check ''Could not flush page''))))"

definition last_pid :: "page_type \<Rightarrow> (disk, nat) action" where
  "last_pid ty =
     (if ty = WAL_PAGE then throwS (Runtime ''ERROR GETTING LAST PID'')
      else getS (\<lambda>d. length (page_file ty d)))"

section \<open>The log file\<close>

text \<open>\<open>WAL_entry\<close> is packed, but the \<open>RID\<close> in it is not: its twelve bytes end in one byte of
  padding.\<close>

record WAL_entry =
  entry_lsn :: nat
  entry_rid :: RID
  row_size :: nat

definition sizeof_WAL_entry :: nat where "sizeof_WAL_entry = 8 + 12 + 4"

definition WAL_HEADER_SIZE :: nat where "WAL_HEADER_SIZE = 8"

lemma wal_constants [simp]: "sizeof_WAL_entry = 24" "WAL_HEADER_SIZE = 8"
  by (simp_all add: sizeof_WAL_entry_def WAL_HEADER_SIZE_def)

definition slot_image :: "Slot \<Rightarrow> byte list" where
  "slot_image s =
     le_bytes 4 (int_bits (slot_size s)) @ le_bytes 2 (slot_offset s) @ [if deleted s then 1 else 0]"

definition rid_image :: "RID \<Rightarrow> byte list" where
  "rid_image r = le_bytes 4 (int_bits (rid_pid r)) @ slot_image (rid_slot r) @ [0]"

definition entry_image :: "WAL_entry \<Rightarrow> byte list" where
  "entry_image e = le_bytes 8 (entry_lsn e) @ rid_image (entry_rid e) @ le_bytes 4 (row_size e)"

lemma length_entry_image [simp]: "length (entry_image e) = 24"
  by (simp add: entry_image_def rid_image_def slot_image_def)

text \<open>Overwriting bytes at the start of the log.\<close>

definition overwrite :: "byte list \<Rightarrow> byte list \<Rightarrow> byte list" where
  "overwrite bs f = bs @ drop (length bs) f"

definition wal_append :: "byte list \<Rightarrow> disk \<Rightarrow> disk" where
  "wal_append bs d = d\<lparr>wal_file := wal_file d @ bs\<rparr>"

definition wal_overwrite :: "byte list \<Rightarrow> disk \<Rightarrow> disk" where
  "wal_overwrite bs d = d\<lparr>wal_file := overwrite bs (wal_file d)\<rparr>"

definition sys_fwrite :: "string \<Rightarrow> (byte list \<Rightarrow> disk \<Rightarrow> disk) \<Rightarrow> byte list \<Rightarrow> (disk, unit) action" where
  "sys_fwrite msg put bs =
     bindS (sys_call msg (\<lambda>n. put (take n bs))) (\<lambda>_. putS (put bs))"

lemma sys_fwrite_ok [simp]: "io_script d = [] \<Longrightarrow> sys_fwrite msg put bs d = (Inr (), put bs d)"
  by (simp add: sys_fwrite_def bindS_def)

definition write_to_wal :: "WAL_entry \<Rightarrow> byte list \<Rightarrow> (disk, unit) action" where
  "write_to_wal record row_bytes =
     bindS (sys_check ''Could not seek WAL end'') (\<lambda>_.
     bindS (getS (\<lambda>d. length (wal_file d))) (\<lambda>record_offset.
     if record_offset < 8 then throwS (Runtime ''WAL file is missing its header'')
     else
       bindS (sys_fwrite ''Could not write WAL record'' wal_append (entry_image record)) (\<lambda>_.
       bindS (if 0 < row_size record
              then sys_fwrite ''Could not write WAL row'' wal_append (take (row_size record) row_bytes)
              else returnS ()) (\<lambda>_.
       bindS (sys_check ''Could not fsync WAL'') (\<lambda>_.
       bindS (sys_check ''Could not seek WAL header'') (\<lambda>_.
       bindS (sys_fwrite ''Could not update WAL header'' wal_overwrite (le_bytes 8 record_offset)) (\<lambda>_.
       bindS (sys_check ''Could not fsync WAL header'') (\<lambda>_.
       sys_check ''Could not restore WAL end position''))))))))"

text \<open>The constructor: a missing file is created empty, an empty log gets its header.\<close>

definition open_disk :: "(disk, unit) action" where
  "open_disk =
     bindS (sys_check ''Could not open database or index file'') (\<lambda>_.
     bindS (sys_check ''Could not open database or index file'') (\<lambda>_.
     bindS (sys_check ''Could not open wal file'') (\<lambda>_.
     bindS (sys_check ''Could not seek WAL'') (\<lambda>_.
     bindS (getS wal_file) (\<lambda>w.
     if w = []
     then sys_fwrite ''Could not initialize WAL header'' wal_append (le_bytes 8 0)
     else returnS ())))))"

section \<open>Pages as a map\<close>

definition disk_page :: "disk \<Rightarrow> page_type \<Rightarrow> int \<Rightarrow> mem" where
  "disk_page d ty pid =
     (let f = page_file ty d in if nat pid < length f then f ! nat pid else zero_page)"

lemma read_page_ok:
  "io_script d = [] \<Longrightarrow> ty \<noteq> WAL_PAGE \<Longrightarrow> 0 \<le> pid \<Longrightarrow>
   read_page pid ty d = (Inr (disk_page d ty pid), d)"
  by (simp add: read_page_def disk_page_def Let_def bindS_def)

definition disk_after_write :: "int \<Rightarrow> mem \<Rightarrow> page_type \<Rightarrow> disk \<Rightarrow> disk" where
  "disk_after_write pid data ty d =
     set_page_file ty (store_page (nat pid) data (page_file ty d)) d"

lemma set_page_file_script [simp]: "io_script (set_page_file ty f d) = io_script d"
  by (cases ty) auto

lemma set_page_file_wal [simp]: "wal_file (set_page_file ty f d) = wal_file d"
  by (cases ty) auto

lemma disk_after_write_other [simp]:
  "io_script (disk_after_write p m ty d) = io_script d"
  "wal_file (disk_after_write p m ty d) = wal_file d"
  by (simp_all add: disk_after_write_def)

lemma write_page_ok:
  "io_script d = [] \<Longrightarrow> ty \<noteq> WAL_PAGE \<Longrightarrow> 0 \<le> pid \<Longrightarrow>
   write_page pid m ty d = (Inr (), disk_after_write pid m ty d)"
  by (simp add: write_page_def bindS_def disk_after_write_def)

lemma nth_store_page:
  "(if k < length (store_page n p f) then store_page n p f ! k else zero_page) =
   (if k = n then p else if k < length f then f ! k else zero_page)"
  by (auto simp: store_page_def nth_append nth_list_update less_Suc_eq nth_Cons' not_less)

lemma page_file_set_page_file:
  "ty \<noteq> WAL_PAGE \<Longrightarrow> page_file ty' (set_page_file ty f d) = (if ty' = ty then f else page_file ty' d)"
  by (cases ty; cases ty') auto

lemma disk_page_after_write:
  assumes "ty \<noteq> WAL_PAGE" "0 \<le> pid" "0 \<le> pid'"
  shows "disk_page (disk_after_write pid m ty d) ty' pid' =
    (if ty' = ty \<and> pid' = pid then m else disk_page d ty' pid')"
proof -
  have eq: "(nat pid' = nat pid) = (pid' = pid)"
    using assms by linarith
  show ?thesis
  proof (cases "ty' = ty")
    case True
    have "disk_page (disk_after_write pid m ty d) ty' pid' =
        (if nat pid' < length (store_page (nat pid) m (page_file ty d))
         then store_page (nat pid) m (page_file ty d) ! nat pid' else zero_page)"
      by (simp only: disk_page_def disk_after_write_def Let_def page_file_set_page_file [OF assms(1)]
          True if_True refl)
    also have "\<dots> = (if pid' = pid then m else disk_page d ty pid')"
      by (simp only: nth_store_page eq disk_page_def Let_def)
    finally show ?thesis using True by simp
  next
    case False
    then show ?thesis
      by (simp add: disk_page_def disk_after_write_def page_file_set_page_file [OF assms(1)])
  qed
qed

lemma length_store_page: "length (store_page n p f) = max (length f) (Suc n)"
  by (simp add: store_page_def)

section \<open>A successful append to the log\<close>

lemma write_to_wal_ok:
  assumes "io_script d = []" and "8 \<le> length (wal_file d)" and "length rb = row_size e"
  shows "write_to_wal e rb d =
    (Inr (), d\<lparr>wal_file := le_bytes 8 (length (wal_file d)) @ drop 8 (wal_file d) @ entry_image e @ rb\<rparr>)"
proof -
  have "rb = []" if "row_size e = 0" using that assms(3) by simp
  then show ?thesis
    using assms
    by (simp add: write_to_wal_def bindS_def wal_append_def wal_overwrite_def overwrite_def)
qed

text \<open>An append that returns is whole, whatever is still to fail.\<close>

lemma sys_call_done: "sys_call msg p d = (Inr (), d') \<Longrightarrow> \<exists>r. d' = d\<lparr>io_script := r\<rparr>"
proof (cases "io_script d")
  case Nil
  assume "sys_call msg p d = (Inr (), d')"
  then have "d' = d\<lparr>io_script := io_script d\<rparr>" using Nil by simp
  then show ?thesis by blast
qed (auto simp: sys_call_def split: io_outcome.splits)

lemma sys_check_done: "sys_check msg d = (Inr (), d') \<Longrightarrow> wal_file d' = wal_file d"
  unfolding sys_check_def by (drule sys_call_done) auto

lemma sys_fwrite_done: "sys_fwrite msg put bs d = (Inr (), d') \<Longrightarrow> \<exists>r. d' = put bs (d\<lparr>io_script := r\<rparr>)"
  unfolding sys_fwrite_def by (auto simp: bindS_Inr_iff dest!: sys_call_done)

lemma write_to_wal_done:
  assumes "write_to_wal e rb d = (Inr (), d')" and "length rb = row_size e"
  shows "wal_file d' = le_bytes 8 (length (wal_file d)) @ drop 8 (wal_file d) @ entry_image e @ rb"
proof -
  obtain d1 d2 d3 d4 d5 d6 d7 where s: "sys_check ''Could not seek WAL end'' d = (Inr (), d1)" "8 \<le> length (wal_file d1)"
    "sys_fwrite ''Could not write WAL record'' wal_append (entry_image e) d1 = (Inr (), d2)"
    "(if 0 < row_size e then sys_fwrite ''Could not write WAL row'' wal_append (take (row_size e) rb) else returnS ()) d2 = (Inr (), d3)"
    "sys_check ''Could not fsync WAL'' d3 = (Inr (), d4)" "sys_check ''Could not seek WAL header'' d4 = (Inr (), d5)"
    "sys_fwrite ''Could not update WAL header'' wal_overwrite (le_bytes 8 (length (wal_file d1))) d5 = (Inr (), d6)"
    "sys_check ''Could not fsync WAL header'' d6 = (Inr (), d7)" "sys_check ''Could not restore WAL end position'' d7 = (Inr (), d')"
    using assms(1) unfolding write_to_wal_def by (auto simp: bindS_Inr_iff not_less split: if_splits)
  have "wal_file d3 = wal_file d2 @ rb"
  proof (cases "0 < row_size e")
    case True
    then show ?thesis using s(4) assms(2) by (auto simp: wal_append_def dest!: sys_fwrite_done)
  next
    case False
    then show ?thesis using s(4) assms(2) by simp
  qed
  then show ?thesis
    using s(2) sys_check_done [OF s(1)] sys_fwrite_done [OF s(3)] sys_check_done [OF s(5)] sys_check_done [OF s(6)]
      sys_fwrite_done [OF s(7)] sys_check_done [OF s(8)] sys_check_done [OF s(9)]
    by (auto simp: wal_append_def wal_overwrite_def overwrite_def)
qed

text \<open>Whatever the outcome of an append, the page files are as they were.\<close>

lemma keeps_sys_call:
  "(\<And>d r. P d \<Longrightarrow> P (d\<lparr>io_script := r\<rparr>)) \<Longrightarrow> (\<And>n d. P d \<Longrightarrow> P (f n d)) \<Longrightarrow>
   keeps P (sys_call msg f)"
  by (auto simp: keeps_def sys_call_def split: list.splits io_outcome.splits)

lemma keeps_sys_fwrite:
  "(\<And>d r. P d \<Longrightarrow> P (d\<lparr>io_script := r\<rparr>)) \<Longrightarrow> (\<And>bs d. P d \<Longrightarrow> P (put bs d)) \<Longrightarrow>
   keeps P (sys_fwrite msg put bs)"
  unfolding sys_fwrite_def by (intro keeps_bindS keeps_sys_call keeps_putS) auto

lemma keeps_write_to_wal:
  assumes "\<And>d r. P d \<Longrightarrow> P (d\<lparr>io_script := r\<rparr>)" and "\<And>w d. P d \<Longrightarrow> P (d\<lparr>wal_file := w\<rparr>)"
  shows "keeps P (write_to_wal e rb)"
proof -
  have c: "keeps P (sys_check msg)" for msg
    unfolding sys_check_def by (intro keeps_sys_call) (auto simp: assms)
  have a: "keeps P (sys_fwrite msg wal_append bs)" for msg bs
    by (intro keeps_sys_fwrite) (auto simp: assms wal_append_def)
  have o: "keeps P (sys_fwrite msg wal_overwrite bs)" for msg bs
    by (intro keeps_sys_fwrite) (auto simp: assms wal_overwrite_def)
  show ?thesis
    unfolding write_to_wal_def by (intro inv_intros c a o)
qed

lemma write_to_wal_pages:
  assumes "write_to_wal e rb d = (r, d')"
  shows "db_file d' = db_file d \<and> index_file d' = index_file d"
  using keepsD [OF keeps_write_to_wal [of "\<lambda>x. db_file x = db_file d \<and> index_file x = index_file d"]
      _ assms] by simp

end
