(* ===== verification/Buffer_Pool.thy ===== *)
theory Buffer_Pool
  imports Disk
begin

text \<open>
  The buffer pool (\<open>src/storage_manager/buffer_manager.cpp\<close> and its header): fifty frames, a
  hash table from page keys to frames and a FIFO queue of replacement candidates.  A pointer to
  a page is the number of its frame; the code reads and writes the frame through it.
\<close>

section \<open>State\<close>

record Page =
  page_data :: mem
  page_id :: int
  dirty_bit :: bool
  pin_count :: int
  ptype :: page_type

record buffer_pool =
  frames :: "Page list"
  table :: "nat \<Rightarrow> nat option"
  replacement_check_queue :: "nat list"
  disk_operator :: disk

definition empty_frame :: Page where
  "empty_frame = \<lparr>page_data = zero_page, page_id = INVALID_PAGE_ID, dirty_bit = False,
     pin_count = 0, ptype = HEAP_PAGE\<rparr>"

definition new_pool :: "disk \<Rightarrow> buffer_pool" where
  "new_pool d = \<lparr>frames = replicate buffer_size empty_frame, table = Map.empty,
     replacement_check_queue = [], disk_operator = d\<rparr>"

fun page_type_code :: "page_type \<Rightarrow> nat" where
  "page_type_code HEAP_PAGE = 0"
| "page_type_code INDEX_PAGE = 1"
| "page_type_code WAL_PAGE = 2"

text \<open>\<open>(static_cast<PageKey>(type) << 32) | static_cast<std::uint32_t>(pid)\<close>: the low half has
  32 bits, so the disjunction is a sum.\<close>

definition make_key :: "int \<Rightarrow> page_type \<Rightarrow> nat" where
  "make_key pid ty = page_type_code ty * 2 ^ 32 + int_bits pid"

definition upd_frame :: "nat \<Rightarrow> (Page \<Rightarrow> Page) \<Rightarrow> buffer_pool \<Rightarrow> buffer_pool" where
  "upd_frame i f s = s\<lparr>frames := (frames s)[i := f (frames s ! i)]\<rparr>"

definition on_disk :: "(disk, 'a) action \<Rightarrow> (buffer_pool, 'a) action" where
  "on_disk m s = (case m (disk_operator s) of (r, d) \<Rightarrow> (r, s\<lparr>disk_operator := d\<rparr>))"

text \<open>Access to a frame the vector does not have is undefined.\<close>

definition frame_check :: "nat \<Rightarrow> (buffer_pool, unit) action" where
  "frame_check i s =
     (if i < length (frames s) then (Inr (), s) else (Inl (Undefined ''frame index''), s))"

section \<open>Operations\<close>

text \<open>
  \<open>page_replacement_policy\<close>: at most one round over the queue; pinned candidates go to its end.
\<close>

function replacement_loop :: "nat \<Rightarrow> (buffer_pool, nat) action" where
  "replacement_loop idx s =
     (case replacement_check_queue s of
        [] \<Rightarrow> (Inl (Runtime ''All pages are pinned''), s)
      | fr # rest \<Rightarrow>
          if length (fr # rest) \<le> idx then (Inl (Runtime ''All pages are pinned''), s)
          else
            let s' = s\<lparr>replacement_check_queue := rest\<rparr>; f = frames s ! fr in
            if length (frames s) \<le> fr then (Inl (Undefined ''frame index''), s')
            else if pin_count f = 0 then
              (let key = make_key (page_id f) (ptype f) in
               bindS
                 (if table s key \<noteq> None
                  then bindS (if dirty_bit f then on_disk (write_page (page_id f) (page_data f) (ptype f))
                              else returnS ()) (\<lambda>_.
                       putS (\<lambda>p. p\<lparr>table := (table p)(key := None)\<rparr>))
                  else returnS ()) (\<lambda>_.
               bindS (putS (upd_frame fr (\<lambda>p. p\<lparr>page_id := INVALID_PAGE_ID, dirty_bit := False, pin_count := 0\<rparr>))) (\<lambda>_.
               returnS fr)) s')
            else if 0 < pin_count f then
              replacement_loop (Suc idx) (s\<lparr>replacement_check_queue := rest @ [fr]\<rparr>)
            else (Inl (Runtime ''Page replacement error, pin count invalid''), s'))"
  by pat_completeness auto
termination
  by (relation "measure (\<lambda>(idx, s). length (replacement_check_queue s) - idx)") auto

declare replacement_loop.simps [simp del]

definition page_replacement_policy :: "page_type \<Rightarrow> (buffer_pool, nat) action" where
  "page_replacement_policy ty = replacement_loop 0"

text \<open>\<open>page_access\<close>: a cached page is pinned once more; otherwise the first free frame is
  taken, and with no free frame a replacement candidate.  The frame is entered in the table and
  in the queue before the page is read.\<close>

definition load_frame :: "nat \<Rightarrow> int \<Rightarrow> page_type \<Rightarrow> (buffer_pool, nat) action" where
  "load_frame i pid ty =
     bindS (putS (\<lambda>p. p\<lparr>table := (table p)(make_key pid ty := Some i)\<rparr>)) (\<lambda>_.
     bindS (putS (\<lambda>p. p\<lparr>replacement_check_queue := replacement_check_queue p @ [i]\<rparr>)) (\<lambda>_.
     bindS (on_disk (read_page pid ty)) (\<lambda>m.
     bindS (putS (upd_frame i (\<lambda>f. f\<lparr>page_data := m\<rparr>))) (\<lambda>_.
     returnS i))))"

definition page_access :: "int \<Rightarrow> page_type \<Rightarrow> (buffer_pool, nat) action" where
  "page_access pid ty s =
     (if pid < 0 then (Inl (Runtime ''NEGATIVE PID RECIEVED''), s)
      else case table s (make_key pid ty) of
        Some i \<Rightarrow>
          bindS (frame_check i) (\<lambda>_.
          bindS (putS (upd_frame i (\<lambda>f. f\<lparr>pin_count := pin_count f + 1\<rparr>))) (\<lambda>_.
          returnS i)) s
      | None \<Rightarrow>
          (case find_index (\<lambda>f. page_id f = INVALID_PAGE_ID) (frames s) of
             Some i \<Rightarrow>
               bindS (putS (upd_frame i (\<lambda>f. f\<lparr>page_id := pid, pin_count := 1, ptype := ty\<rparr>))) (\<lambda>_.
               load_frame i pid ty) s
           | None \<Rightarrow>
               bindS (page_replacement_policy ty) (\<lambda>i.
               bindS (putS (upd_frame i (\<lambda>f. f\<lparr>page_id := pid, pin_count := 1, ptype := ty, dirty_bit := False\<rparr>))) (\<lambda>_.
               load_frame i pid ty)) s))"

definition un_pin :: "int \<Rightarrow> page_type \<Rightarrow> (buffer_pool, unit) action" where
  "un_pin pid ty s =
     (case table s (make_key pid ty) of
        None \<Rightarrow> (Inl (Runtime ''page not found''), s)
      | Some i \<Rightarrow>
          bindS (frame_check i) (\<lambda>_.
          putS (upd_frame i (\<lambda>f. if 0 < pin_count f then f\<lparr>pin_count := pin_count f - 1\<rparr> else f))) s)"

text \<open>The last heap page is taken again while it has any free payload byte; the frame is read
  after the page has been un-pinned.\<close>

definition get_last_pid :: "page_type \<Rightarrow> (buffer_pool, nat) action" where
  "get_last_pid ty =
     bindS (on_disk (last_pid ty)) (\<lambda>lpid.
     if ty = HEAP_PAGE then
       if lpid = 0 then returnS lpid
       else
         bindS (page_access (int lpid - 1) HEAP_PAGE) (\<lambda>i.
         bindS (un_pin (int lpid - 1) ty) (\<lambda>_.
         bindS (getS (\<lambda>s. hp_free_size (page_data (frames s ! i)))) (\<lambda>free.
         if 0 < free then returnS (lpid - 1) else returnS lpid)))
     else returnS lpid)"

definition dp_write_to_wal :: "WAL_entry \<Rightarrow> byte list \<Rightarrow> (buffer_pool, unit) action" where
  "dp_write_to_wal record row_bytes = on_disk (write_to_wal record row_bytes)"

definition dp_write_page :: "nat \<Rightarrow> page_type \<Rightarrow> (buffer_pool, unit) action" where
  "dp_write_page i ty =
     bindS (getS (\<lambda>s. frames s ! i)) (\<lambda>f. on_disk (write_page (page_id f) (page_data f) ty))"

definition dp_read_page :: "nat \<Rightarrow> page_type \<Rightarrow> (buffer_pool, unit) action" where
  "dp_read_page i ty =
     bindS (getS (\<lambda>s. page_id (frames s ! i))) (\<lambda>p.
     bindS (on_disk (read_page p ty)) (\<lambda>m.
     putS (upd_frame i (\<lambda>f. f\<lparr>page_data := m\<rparr>))))"

text \<open>\<open>final_write\<close>: every dirty page is written and its frame freed.\<close>

primrec final_write_from :: "nat \<Rightarrow> nat \<Rightarrow> (buffer_pool, unit) action" where
  "final_write_from i 0 = returnS ()"
| "final_write_from i (Suc n) =
     bindS (getS (\<lambda>s. frames s ! i)) (\<lambda>f.
     bindS
       (if page_id f \<noteq> INVALID_PAGE_ID \<and> dirty_bit f then
          bindS (on_disk (write_page (page_id f) (page_data f) (ptype f))) (\<lambda>_.
          bindS (putS (upd_frame i (\<lambda>p. p\<lparr>dirty_bit := False\<rparr>))) (\<lambda>_.
          bindS (putS (\<lambda>p. p\<lparr>table := (table p)(make_key (page_id f) (ptype f) := None)\<rparr>)) (\<lambda>_.
          putS (upd_frame i (\<lambda>p. p\<lparr>pin_count := 0, page_id := INVALID_PAGE_ID\<rparr>)))))
        else returnS ()) (\<lambda>_.
     final_write_from (Suc i) n))"

definition final_write :: "(buffer_pool, unit) action" where
  "final_write = bindS (getS (\<lambda>s. length (frames s))) (\<lambda>n. final_write_from 0 n)"

text \<open>What callers do through a page pointer.\<close>

definition page_of :: "nat \<Rightarrow> buffer_pool \<Rightarrow> mem" where
  "page_of i s = page_data (frames s ! i)"

definition through_page :: "nat \<Rightarrow> (mem, 'a) action \<Rightarrow> (buffer_pool, 'a) action" where
  "through_page i m s =
     (case m (page_of i s) of (r, p) \<Rightarrow> (r, upd_frame i (\<lambda>f. f\<lparr>page_data := p\<rparr>) s))"

definition set_dirty :: "nat \<Rightarrow> bool \<Rightarrow> (buffer_pool, unit) action" where
  "set_dirty i b = putS (upd_frame i (\<lambda>f. f\<lparr>dirty_bit := b\<rparr>))"

end
