(* ===== verification/Buffer_Inv.thy ===== *)
theory Buffer_Inv
  imports Buffer_Pool
begin

text \<open>
  The invariant of the buffer pool and what its operations do to the pages behind it: the table
  and the frames name each other, the queue holds exactly the occupied frames, and whatever is
  evicted or loaded, every page keeps its contents (\<open>page_view\<close>), as if there were no pool.
\<close>

section \<open>Page keys\<close>

lemma int_bits_inj: "int_range p \<Longrightarrow> int_range q \<Longrightarrow> int_bits p = int_bits q \<Longrightarrow> p = q"
  by (metis bits_int_int_bits)

lemma page_type_code_inj: "page_type_code t = page_type_code u \<Longrightarrow> t = u"
  by (cases t; cases u) auto

lemma make_key_inj:
  assumes "int_range p" "int_range q" "make_key p t = make_key q u"
  shows "p = q \<and> t = u"
proof -
  have "(page_type_code t * 2 ^ 32 + int_bits p) mod 2 ^ 32 = (page_type_code u * 2 ^ 32 + int_bits q) mod 2 ^ 32"
    "(page_type_code t * 2 ^ 32 + int_bits p) div 2 ^ 32 = (page_type_code u * 2 ^ 32 + int_bits q) div 2 ^ 32"
    using assms(3) by (simp_all add: make_key_def)
  then have "int_bits p = int_bits q" "page_type_code t = page_type_code u"
    using int_bits_lt [of p] int_bits_lt [of q] by simp_all
  then show ?thesis
    using assms(1,2) int_bits_inj page_type_code_inj by blast
qed

section \<open>The invariant\<close>

definition occupied :: "Page \<Rightarrow> bool" where
  "occupied f \<longleftrightarrow> page_id f \<noteq> INVALID_PAGE_ID"

definition frame_key :: "Page \<Rightarrow> nat" where
  "frame_key f = make_key (page_id f) (ptype f)"

definition frame_ok :: "Page \<Rightarrow> bool" where
  "frame_ok f \<longleftrightarrow>
     int_range (page_id f) \<and> -1 \<le> page_id f \<and> ptype f \<noteq> WAL_PAGE \<and> 0 \<le> pin_count f \<and>
     (\<not> occupied f \<longrightarrow> pin_count f = 0 \<and> \<not> dirty_bit f)"

definition pool_inv :: "buffer_pool \<Rightarrow> bool" where
  "pool_inv s \<longleftrightarrow>
     length (frames s) = buffer_size \<and>
     (\<forall>i < length (frames s). frame_ok (frames s ! i)) \<and>
     (\<forall>k i. table s k = Some i \<longrightarrow>
        i < length (frames s) \<and> occupied (frames s ! i) \<and> frame_key (frames s ! i) = k) \<and>
     (\<forall>i < length (frames s). occupied (frames s ! i) \<longrightarrow>
        table s (frame_key (frames s ! i)) = Some i) \<and>
     distinct (replacement_check_queue s) \<and>
     set (replacement_check_queue s) = {i. i < length (frames s) \<and> occupied (frames s ! i)}"

lemma pool_invD:
  assumes "pool_inv s"
  shows "length (frames s) = 50"
    and "i < 50 \<Longrightarrow> frame_ok (frames s ! i)"
    and "table s k = Some i \<Longrightarrow> i < 50 \<and> occupied (frames s ! i) \<and> frame_key (frames s ! i) = k"
    and "i < 50 \<Longrightarrow> occupied (frames s ! i) \<Longrightarrow> table s (frame_key (frames s ! i)) = Some i"
    and "distinct (replacement_check_queue s)"
    and "i \<in> set (replacement_check_queue s) \<longleftrightarrow> i < 50 \<and> occupied (frames s ! i)"
  using assms by (auto simp: pool_inv_def)

lemma pool_inv_new: "pool_inv (new_pool d)"
  by (auto simp: pool_inv_def new_pool_def empty_frame_def frame_ok_def occupied_def int_range_def)

section \<open>Pages as seen through the pool\<close>

definition page_view :: "buffer_pool \<Rightarrow> page_type \<Rightarrow> int \<Rightarrow> mem" where
  "page_view s ty pid =
     (case table s (make_key pid ty) of
        Some i \<Rightarrow> page_data (frames s ! i)
      | None \<Rightarrow> disk_page (disk_operator s) ty pid)"

text \<open>Clean frames hold what is on disk.\<close>

definition coherent :: "buffer_pool \<Rightarrow> bool" where
  "coherent s \<longleftrightarrow>
     (\<forall>i < length (frames s). occupied (frames s ! i) \<and> \<not> dirty_bit (frames s ! i) \<longrightarrow>
        page_data (frames s ! i) = disk_page (disk_operator s) (ptype (frames s ! i)) (page_id (frames s ! i)))"

definition healthy :: "buffer_pool \<Rightarrow> bool" where
  "healthy s \<longleftrightarrow> pool_inv s \<and> coherent s \<and> io_script (disk_operator s) = []"

definition valid_page :: "page_type \<Rightarrow> int \<Rightarrow> bool" where
  "valid_page ty pid \<longleftrightarrow> ty \<noteq> WAL_PAGE \<and> 0 \<le> pid \<and> int_range pid"

definition same_pages :: "buffer_pool \<Rightarrow> buffer_pool \<Rightarrow> bool" where
  "same_pages s t \<longleftrightarrow> (\<forall>ty pid. valid_page ty pid \<longrightarrow> page_view t ty pid = page_view s ty pid)"

text \<open>Pinned frames are not touched, so pointers to their pages stay good.\<close>

definition keeps_pinned :: "buffer_pool \<Rightarrow> buffer_pool \<Rightarrow> bool" where
  "keeps_pinned s t \<longleftrightarrow>
     (\<forall>j < buffer_size. 0 < pin_count (frames s ! j) \<longrightarrow>
        page_id (frames t ! j) = page_id (frames s ! j) \<and>
        ptype (frames t ! j) = ptype (frames s ! j) \<and>
        page_data (frames t ! j) = page_data (frames s ! j) \<and>
        pin_count (frames s ! j) \<le> pin_count (frames t ! j))"

text \<open>The pin counts; an access adds one pin, to the frame it returns.\<close>

definition exhausted :: "(nat \<Rightarrow> int) \<Rightarrow> bool" where
  "exhausted n \<longleftrightarrow> (\<forall>j < buffer_size. 0 < n j)"

definition pins :: "buffer_pool \<Rightarrow> nat \<Rightarrow> int" where
  "pins s j = (if j < buffer_size then pin_count (frames s ! j) else 0)"

lemma same_pages_refl [simp]: "same_pages s s"
  by (simp add: same_pages_def)

lemma same_pages_trans: "same_pages s t \<Longrightarrow> same_pages t u \<Longrightarrow> same_pages s u"
  by (simp add: same_pages_def)

lemma keeps_pinned_refl [simp]: "keeps_pinned s s"
  by (simp add: keeps_pinned_def)

lemma healthyD:
  assumes "healthy s"
  shows "pool_inv s" "coherent s" "io_script (disk_operator s) = []"
  using assms by (simp_all add: healthy_def)

lemma healthy_new: "io_script d = [] \<Longrightarrow> healthy (new_pool d)"
proof -
  assume "io_script d = []"
  moreover have "coherent (new_pool d)"
    by (auto simp: coherent_def new_pool_def empty_frame_def occupied_def)
  ultimately show ?thesis
    unfolding healthy_def using pool_inv_new by (simp add: new_pool_def)
qed

lemma new_pool_simps [simp]:
  "pins (new_pool d) = (\<lambda>_. 0)" "page_view (new_pool d) ty p = disk_page d ty p"
  "disk_operator (new_pool d) = d"
  by (auto simp: pins_def new_pool_def page_view_def empty_frame_def)

lemma not_exhausted_zero [simp]: "\<not> exhausted (\<lambda>_. 0)"
  by (auto simp: exhausted_def intro: exI [of _ 0])

section \<open>Eviction\<close>

text \<open>The state after frame \<open>i\<close> has been freed, the queue being what the search has made it.\<close>

definition evicted :: "nat \<Rightarrow> nat list \<Rightarrow> buffer_pool \<Rightarrow> buffer_pool" where
  "evicted i q s =
     (let f = frames s ! i in
      s\<lparr>frames := (frames s)[i := f\<lparr>page_id := INVALID_PAGE_ID, dirty_bit := False, pin_count := 0\<rparr>],
        table := (table s)(frame_key f := None),
        replacement_check_queue := q,
        disk_operator :=
          (if dirty_bit f then disk_after_write (page_id f) (page_data f) (ptype f) (disk_operator s)
           else disk_operator s)\<rparr>)"

definition rotated :: "nat list \<Rightarrow> buffer_pool \<Rightarrow> buffer_pool" where
  "rotated q s = s\<lparr>replacement_check_queue := q\<rparr>"

lemma pool_inv_rotated:
  "pool_inv s \<Longrightarrow> distinct q \<Longrightarrow> set q = set (replacement_check_queue s) \<Longrightarrow> pool_inv (rotated q s)"
  unfolding pool_inv_def rotated_def by auto

lemma replacement_step_evict:
  assumes "pool_inv s" and "io_script (disk_operator s) = []"
    and "replacement_check_queue s = i # rest" and "idx < length (i # rest)"
    and "pin_count (frames s ! i) = 0"
  shows "replacement_loop idx s = (Inr i, evicted i rest s)"
proof -
  have i: "i < 50" "occupied (frames s ! i)"
    using pool_invD(6) [OF assms(1), of i] assms(3) by simp_all
  have f: "frame_ok (frames s ! i)" "table s (frame_key (frames s ! i)) = Some i"
    using pool_invD(2,4) [OF assms(1) i(1)] i(2) by simp_all
  have pos: "0 \<le> page_id (frames s ! i)" "ptype (frames s ! i) \<noteq> WAL_PAGE"
    using f(1) i(2) by (auto simp: frame_ok_def occupied_def)
  have w: "write_page (page_id (frames s ! i)) (page_data (frames s ! i)) (ptype (frames s ! i)) (disk_operator s)
      = (Inr (), disk_after_write (page_id (frames s ! i)) (page_data (frames s ! i)) (ptype (frames s ! i)) (disk_operator s))"
    using pos assms(2) by (intro write_page_ok)
  show ?thesis
    using assms(3-5) i(1) f(2) pool_invD(1) [OF assms(1)]
    by (subst replacement_loop.simps)
      (simp add: Let_def evicted_def frame_key_def bindS_def on_disk_def w upd_frame_def)
qed

lemma replacement_step_pinned:
  assumes "pool_inv s" and "replacement_check_queue s = i # rest" and "idx < length (i # rest)"
    and "pin_count (frames s ! i) \<noteq> 0"
  shows "replacement_loop idx s = replacement_loop (Suc idx) (rotated (rest @ [i]) s)"
proof -
  have "i < 50" "frame_ok (frames s ! i)"
    using pool_invD(6) [OF assms(1), of i] pool_invD(2) [OF assms(1), of i] assms(2) by simp_all
  then have "i < length (frames s)" "0 < pin_count (frames s ! i)"
    using assms(4) pool_invD(1) [OF assms(1)] by (auto simp: frame_ok_def)
  then show ?thesis
    using assms(2-4) by (subst replacement_loop.simps) (simp add: rotated_def)
qed

lemma replacement_loop_Inr:
  "replacement_loop idx s = (Inr i, t) \<Longrightarrow> pool_inv s \<Longrightarrow> io_script (disk_operator s) = [] \<Longrightarrow>
   \<exists>q. t = evicted i q s \<and> i \<in> set (replacement_check_queue s) \<and> pin_count (frames s ! i) = 0 \<and>
     distinct q \<and> set q = set (replacement_check_queue s) - {i}"
proof (induction idx s rule: replacement_loop.induct)
  case (1 idx s)
  show ?case
  proof (cases "replacement_check_queue s")
    case Nil
    then show ?thesis using "1.prems"(1) by (simp add: replacement_loop.simps)
  next
    case (Cons j rest)
    note d = pool_invD(5) [OF "1.prems"(2)]
    show ?thesis
    proof (cases "idx < length (j # rest)")
      case False
      then show ?thesis using "1.prems"(1) Cons by (simp add: replacement_loop.simps [of idx s])
    next
      case idx: True
      show ?thesis
      proof (cases "pin_count (frames s ! j) = 0")
        case True
        then have "i = j" "t = evicted j rest s"
          using "1.prems" replacement_step_evict [OF "1.prems"(2,3) Cons idx] by auto
        then show ?thesis using Cons d True by auto
      next
        case False
        let ?s = "rotated (rest @ [j]) s"
        have inv: "pool_inv ?s"
          using "1.prems"(2) Cons d by (intro pool_inv_rotated) auto
        have j: "j < length (frames s)" "0 < pin_count (frames s ! j)"
          using pool_invD(1) [OF "1.prems"(2)] pool_invD(2,6) [OF "1.prems"(2), of j] Cons False
          by (auto simp: frame_ok_def)
        have "replacement_loop (Suc idx) ?s = (Inr i, t)"
          using "1.prems"(1) replacement_step_pinned [OF "1.prems"(2) Cons idx False] by simp
        then have "\<exists>q. t = evicted i q ?s \<and> i \<in> set (replacement_check_queue ?s) \<and>
            pin_count (frames ?s ! i) = 0 \<and> distinct q \<and> set q = set (replacement_check_queue ?s) - {i}"
          using "1.IH" [OF Cons] idx j False inv "1.prems"(3) by (simp add: rotated_def)
        moreover have "evicted i q ?s = evicted i q s" for q
          by (simp add: evicted_def rotated_def Let_def)
        ultimately show ?thesis using Cons by (auto simp: rotated_def)
      qed
    qed
  qed
qed

lemma pool_inv_evicted:
  assumes inv: "pool_inv s" and i: "i \<in> set (replacement_check_queue s)"
    and q: "distinct q" "set q = set (replacement_check_queue s) - {i}"
  shows "pool_inv (evicted i q s)"
proof -
  let ?t = "evicted i q s"
  have i50: "i < 50" and occ: "occupied (frames s ! i)"
    using pool_invD(6) [OF inv, of i] i by simp_all
  have fr: "frames ?t ! j = (if j = i then (frames s ! i)\<lparr>page_id := -1, dirty_bit := False, pin_count := 0\<rparr>
      else frames s ! j)" if "j < 50" for j
    using that i50 pool_invD(1) [OF inv] by (simp add: evicted_def Let_def)
  have len: "length (frames ?t) = 50"
    using pool_invD(1) [OF inv] by (simp add: evicted_def Let_def)
  have tab: "table ?t k = (if k = frame_key (frames s ! i) then None else table s k)" for k
    by (simp add: evicted_def Let_def)
  have qt: "replacement_check_queue ?t = q"
    by (simp add: evicted_def Let_def)
  have occ_t: "occupied (frames ?t ! j) \<longleftrightarrow> j \<noteq> i \<and> occupied (frames s ! j)" if "j < 50" for j
    using fr [OF that] by (simp add: occupied_def)
  have "frame_ok (frames ?t ! j)" if "j < 50" for j
    using pool_invD(2) [OF inv that] fr [OF that]
    by (auto simp: frame_ok_def occupied_def int_range_def)
  moreover have "j < 50 \<and> occupied (frames ?t ! j) \<and> frame_key (frames ?t ! j) = k"
    if "table ?t k = Some j" for k j
  proof -
    from that have "table s k = Some j" "k \<noteq> frame_key (frames s ! i)"
      by (auto simp: tab split: if_splits)
    moreover from this have "j \<noteq> i" using pool_invD(3) [OF inv] by auto
    ultimately show ?thesis
      using pool_invD(3) [OF inv, of k j] fr [of j] by simp
  qed
  moreover have "table ?t (frame_key (frames ?t ! j)) = Some j"
    if "j < 50" "occupied (frames ?t ! j)" for j
  proof -
    have ji: "j \<noteq> i" "occupied (frames s ! j)" using that occ_t by auto
    then have "table s (frame_key (frames s ! j)) = Some j"
      using pool_invD(4) [OF inv that(1)] by simp
    moreover have "table s (frame_key (frames s ! i)) = Some i"
      using pool_invD(4) [OF inv i50 occ] .
    ultimately show ?thesis
      using ji fr [OF that(1)] by (auto simp: tab)
  qed
  moreover have "set q = {j. j < 50 \<and> occupied (frames ?t ! j)}"
    using q(2) occ_t pool_invD(6) [OF inv] by auto
  ultimately show ?thesis
    unfolding pool_inv_def len qt using q(1) by simp
qed

lemma disk_page_evicted:
  assumes h: "healthy s" and i: "i < 50" "occupied (frames s ! i)"
    and v: "valid_page ty pid"
  shows "disk_page (disk_operator (evicted i q s)) ty pid =
    (if make_key pid ty = frame_key (frames s ! i) then page_data (frames s ! i)
     else disk_page (disk_operator s) ty pid)"
proof -
  let ?f = "frames s ! i"
  have ok: "frame_ok ?f" and c: "coherent s"
    using h i pool_invD(2) by (auto simp: healthy_def)
  then have f: "int_range (page_id ?f)" "0 \<le> page_id ?f" "ptype ?f \<noteq> WAL_PAGE"
    using i(2) by (auto simp: frame_ok_def occupied_def)
  have key: "make_key pid ty = frame_key ?f \<longleftrightarrow> ty = ptype ?f \<and> pid = page_id ?f"
    using make_key_inj [of pid "page_id ?f" ty "ptype ?f"] v f(1)
    by (auto simp: frame_key_def valid_page_def)
  show ?thesis
  proof (cases "dirty_bit ?f")
    case True
    then show ?thesis
      using disk_page_after_write [of "ptype ?f" "page_id ?f" pid] f v key
      by (simp add: evicted_def Let_def valid_page_def)
  next
    case False
    have "page_data ?f = disk_page (disk_operator s) (ptype ?f) (page_id ?f)"
      using c False i pool_invD(1) h unfolding coherent_def healthy_def by auto
    then show ?thesis
      using False key by (simp add: evicted_def Let_def)
  qed
qed

lemma page_view_evicted:
  assumes h: "healthy s" and i: "i < 50" "occupied (frames s ! i)" and v: "valid_page ty pid"
  shows "page_view (evicted i q s) ty pid = page_view s ty pid"
proof -
  have inv: "pool_inv s" using h by (simp add: healthy_def)
  have ti: "table s (frame_key (frames s ! i)) = Some i"
    using pool_invD(4) [OF inv i] .
  show ?thesis
  proof (cases "make_key pid ty = frame_key (frames s ! i)")
    case True
    then have "table (evicted i q s) (make_key pid ty) = None"
      by (simp add: evicted_def Let_def)
    then show ?thesis
      using True ti disk_page_evicted [OF h i v] by (simp add: page_view_def)
  next
    case False
    then have t: "table (evicted i q s) (make_key pid ty) = table s (make_key pid ty)"
      by (simp add: evicted_def Let_def)
    have "frames (evicted i q s) ! j = frames s ! j" if "table s (make_key pid ty) = Some j" for j
    proof -
      have "j \<noteq> i" using False pool_invD(3) [OF inv that] by auto
      then show ?thesis by (simp add: evicted_def Let_def)
    qed
    then show ?thesis
      using False t disk_page_evicted [OF h i v] by (simp add: page_view_def split: option.splits)
  qed
qed

lemma healthy_evicted:
  assumes h: "healthy s" and i: "i \<in> set (replacement_check_queue s)"
    and q: "distinct q" "set q = set (replacement_check_queue s) - {i}"
  shows "healthy (evicted i q s)"
proof -
  have inv: "pool_inv s" using h by (simp add: healthy_def)
  have i50: "i < 50" "occupied (frames s ! i)"
    using pool_invD(6) [OF inv, of i] i by simp_all
  have "coherent (evicted i q s)"
    unfolding coherent_def
  proof (intro allI impI)
    fix j
    let ?t = "evicted i q s"
    assume j: "j < length (frames ?t)" "occupied (frames ?t ! j) \<and> \<not> dirty_bit (frames ?t ! j)"
    then have j50: "j < 50" and ji: "j \<noteq> i" and eq: "frames ?t ! j = frames s ! j"
      using pool_invD(1) [OF inv] i50(1) by (auto simp: evicted_def Let_def occupied_def nth_list_update)
    have ok: "frame_ok (frames s ! j)" "occupied (frames s ! j)" "\<not> dirty_bit (frames s ! j)"
      using j eq pool_invD(2) [OF inv j50] by auto
    then have v: "valid_page (ptype (frames s ! j)) (page_id (frames s ! j))"
      by (auto simp: frame_ok_def valid_page_def occupied_def)
    have "frame_key (frames s ! j) \<noteq> frame_key (frames s ! i)"
      using pool_invD(4) [OF inv j50 ok(2)] pool_invD(4) [OF inv i50] ji by auto
    moreover have "page_data (frames s ! j) = disk_page (disk_operator s) (ptype (frames s ! j)) (page_id (frames s ! j))"
      using h ok j50 pool_invD(1) [OF inv] by (auto simp: healthy_def coherent_def)
    ultimately show "page_data (frames ?t ! j) = disk_page (disk_operator ?t) (ptype (frames ?t ! j)) (page_id (frames ?t ! j))"
      using disk_page_evicted [OF h i50 v, of q] eq by (simp add: frame_key_def)
  qed
  moreover have "io_script (disk_operator (evicted i q s)) = []"
    using h by (simp add: healthy_def evicted_def Let_def)
  ultimately show ?thesis
    using pool_inv_evicted [OF inv i q] by (simp add: healthy_def)
qed

section \<open>Loading a page into a free frame\<close>

definition loaded :: "nat \<Rightarrow> int \<Rightarrow> page_type \<Rightarrow> buffer_pool \<Rightarrow> buffer_pool" where
  "loaded i pid ty s =
     s\<lparr>frames := (frames s)[i := \<lparr>page_data = disk_page (disk_operator s) ty pid, page_id = pid,
          dirty_bit = False, pin_count = 1, ptype = ty\<rparr>],
       table := (table s)(make_key pid ty := Some i),
       replacement_check_queue := replacement_check_queue s @ [i]\<rparr>"

lemma load_free_frame:
  assumes h: "healthy s" and i: "i < 50" "\<not> occupied (frames s ! i)" and v: "valid_page ty pid"
  shows "bindS (putS (upd_frame i (\<lambda>f. f\<lparr>page_id := pid, pin_count := 1, ptype := ty\<rparr>))) (\<lambda>_.
      load_frame i pid ty) s = (Inr i, loaded i pid ty s)"
    and "bindS (putS (upd_frame i (\<lambda>f. f\<lparr>page_id := pid, pin_count := 1, ptype := ty, dirty_bit := False\<rparr>))) (\<lambda>_.
      load_frame i pid ty) s = (Inr i, loaded i pid ty s)"
proof -
  have inv: "pool_inv s" and io: "io_script (disk_operator s) = []"
    using h by (auto simp: healthy_def)
  have nd: "\<not> dirty_bit (frames s ! i)" and len: "length (frames s) = 50"
    using pool_invD(1,2) [OF inv] i by (auto simp: frame_ok_def)
  have rd: "read_page pid ty (disk_operator s) = (Inr (disk_page (disk_operator s) ty pid), disk_operator s)"
    using read_page_ok [OF io] v by (simp add: valid_page_def)
  have e: "(frames s ! i)\<lparr>page_id := pid, pin_count := 1, ptype := ty, page_data := m\<rparr> =
      \<lparr>page_data = m, page_id = pid, dirty_bit = False, pin_count = 1, ptype = ty\<rparr>"
    "(frames s ! i)\<lparr>page_id := pid, pin_count := 1, ptype := ty, dirty_bit := False, page_data := m\<rparr> =
      \<lparr>page_data = m, page_id = pid, dirty_bit = False, pin_count = 1, ptype = ty\<rparr>" for m
    using nd by (cases "frames s ! i"; simp)+
  show "bindS (putS (upd_frame i (\<lambda>f. f\<lparr>page_id := pid, pin_count := 1, ptype := ty\<rparr>))) (\<lambda>_.
      load_frame i pid ty) s = (Inr i, loaded i pid ty s)"
    "bindS (putS (upd_frame i (\<lambda>f. f\<lparr>page_id := pid, pin_count := 1, ptype := ty, dirty_bit := False\<rparr>))) (\<lambda>_.
      load_frame i pid ty) s = (Inr i, loaded i pid ty s)"
    using i(1) len by (simp_all add: load_frame_def bindS_def on_disk_def rd upd_frame_def loaded_def e)
qed

lemma pool_inv_loaded:
  assumes inv: "pool_inv s" and i: "i < 50" "\<not> occupied (frames s ! i)" and v: "valid_page ty pid"
    and free: "table s (make_key pid ty) = None"
  shows "pool_inv (loaded i pid ty s)"
proof -
  let ?t = "loaded i pid ty s"
  let ?f = "\<lparr>page_data = disk_page (disk_operator s) ty pid, page_id = pid, dirty_bit = False,
      pin_count = 1, ptype = ty\<rparr>"
  have fr: "frames ?t ! j = (if j = i then ?f else frames s ! j)" if "j < 50" for j
    using that i(1) pool_invD(1) [OF inv] by (simp add: loaded_def)
  have len: "length (frames ?t) = 50"
    using pool_invD(1) [OF inv] by (simp add: loaded_def)
  have tab: "table ?t k = (if k = make_key pid ty then Some i else table s k)" for k
    by (simp add: loaded_def)
  have q: "replacement_check_queue ?t = replacement_check_queue s @ [i]"
    by (simp add: loaded_def)
  have new: "frame_ok ?f" "occupied ?f" "frame_key ?f = make_key pid ty"
    using v by (auto simp: frame_ok_def occupied_def valid_page_def frame_key_def)
  have notin: "table s k \<noteq> Some i" for k
    using pool_invD(3) [OF inv, of k i] i(2) by auto
  have "frame_ok (frames ?t ! j)" if "j < 50" for j
    using pool_invD(2) [OF inv that] fr [OF that] new by simp
  moreover have "j < 50 \<and> occupied (frames ?t ! j) \<and> frame_key (frames ?t ! j) = k"
    if "table ?t k = Some j" for k j
  proof (cases "k = make_key pid ty")
    case True
    then show ?thesis using that i(1) new fr [OF i(1)] by (simp add: tab)
  next
    case False
    then have "table s k = Some j" using that by (simp add: tab)
    then show ?thesis
      using pool_invD(3) [OF inv, of k j] notin [of k] fr [of j] by auto
  qed
  moreover have "table ?t (frame_key (frames ?t ! j)) = Some j"
    if "j < 50" "occupied (frames ?t ! j)" for j
  proof (cases "j = i")
    case True
    then show ?thesis using fr [OF i(1)] new by (simp add: tab)
  next
    case False
    then have "table s (frame_key (frames s ! j)) = Some j"
      using that fr [OF that(1)] pool_invD(4) [OF inv that(1)] by simp
    then show ?thesis using False free fr [OF that(1)] by (auto simp: tab)
  qed
  moreover have "i \<notin> set (replacement_check_queue s)"
    using pool_invD(6) [OF inv] i(2) by simp
  moreover have "set (replacement_check_queue s @ [i]) = {j. j < 50 \<and> occupied (frames ?t ! j)}"
  proof (rule set_eqI)
    fix j
    show "j \<in> set (replacement_check_queue s @ [i]) \<longleftrightarrow> j \<in> {j. j < 50 \<and> occupied (frames ?t ! j)}"
      using pool_invD(6) [OF inv, of j] fr [of j] i(1) new(2) by (cases "j = i") auto
  qed
  ultimately show ?thesis
    unfolding pool_inv_def len q using pool_invD(5) [OF inv] by simp
qed

lemma loaded_pages:
  assumes h: "healthy s" and i: "i < 50" "\<not> occupied (frames s ! i)" and v: "valid_page ty pid"
    and free: "table s (make_key pid ty) = None"
  shows "healthy (loaded i pid ty s)" and "same_pages s (loaded i pid ty s)"
    and "keeps_pinned s (loaded i pid ty s)"
    and "page_of i (loaded i pid ty s) = page_view s ty pid"
    and "pin_count (frames (loaded i pid ty s) ! i) = 1"
proof -
  let ?t = "loaded i pid ty s"
  have inv: "pool_inv s" and c: "coherent s" and io: "io_script (disk_operator s) = []"
    using h by (auto simp: healthy_def)
  have len: "length (frames s) = 50" using pool_invD(1) [OF inv] .
  have fr: "frames ?t ! j = (if j = i then \<lparr>page_data = disk_page (disk_operator s) ty pid, page_id = pid,
      dirty_bit = False, pin_count = 1, ptype = ty\<rparr> else frames s ! j)" if "j < 50" for j
    using that i(1) len by (simp add: loaded_def)
  have d: "disk_operator ?t = disk_operator s" by (simp add: loaded_def)
  have "coherent ?t"
    unfolding coherent_def d
  proof (intro allI impI)
    fix j
    assume j: "j < length (frames ?t)" "occupied (frames ?t ! j) \<and> \<not> dirty_bit (frames ?t ! j)"
    then have "j < 50" using len by (simp add: loaded_def)
    then show "page_data (frames ?t ! j) =
        disk_page (disk_operator s) (ptype (frames ?t ! j)) (page_id (frames ?t ! j))"
      using j(2) c len fr [of j] by (cases "j = i") (auto simp: coherent_def)
  qed
  then show "healthy ?t"
    using pool_inv_loaded [OF inv i v free] io d by (simp add: healthy_def)
  show "same_pages s ?t"
    unfolding same_pages_def
  proof (intro allI impI)
    fix ty' pid'
    assume "valid_page ty' pid'"
    show "page_view ?t ty' pid' = page_view s ty' pid'"
    proof (cases "make_key pid' ty' = make_key pid ty")
      case True
      then have "pid' = pid \<and> ty' = ty"
        using make_key_inj v \<open>valid_page ty' pid'\<close> by (auto simp: valid_page_def)
      then show ?thesis
        using free i(1) len by (simp add: page_view_def loaded_def)
    next
      case False
      have "j \<noteq> i \<and> j < 50" if "table s (make_key pid' ty') = Some j" for j
        using pool_invD(3) [OF inv that] i(2) by auto
      then show ?thesis
        using False fr by (auto simp: page_view_def loaded_def split: option.splits)
    qed
  qed
  have "pin_count (frames s ! i) = 0"
    using pool_invD(2) [OF inv i(1)] i(2) by (simp add: frame_ok_def)
  then show "keeps_pinned s ?t"
    using fr by (auto simp: keeps_pinned_def)
  show "page_of i ?t = page_view s ty pid"
    using free i(1) len by (simp add: page_of_def page_view_def loaded_def)
  show "pin_count (frames ?t ! i) = 1"
    using fr [OF i(1)] by simp
qed

end
