(* ===== verification/Buffer_Access.thy ===== *)
theory Buffer_Access
  imports Buffer_Inv
begin

text \<open>
  The public operations of the buffer pool on a healthy pool: what \<open>page_access\<close> returns on
  each path and when it fails, \<open>un_pin\<close>, and the two ways callers change a page (marking the
  frame dirty, or writing it through to disk).
\<close>

section \<open>page_access\<close>

definition accessed :: "buffer_pool \<Rightarrow> int \<Rightarrow> page_type \<Rightarrow> nat \<Rightarrow> buffer_pool \<Rightarrow> bool" where
  "accessed s pid ty i t \<longleftrightarrow>
     i < buffer_size \<and> healthy t \<and> same_pages s t \<and> keeps_pinned s t \<and>
     page_of i t = page_view s ty pid \<and> table t (make_key pid ty) = Some i \<and>
     page_id (frames t ! i) = pid \<and> ptype (frames t ! i) = ty \<and> 0 < pin_count (frames t ! i) \<and>
     pins t = (pins s)(i := pins s i + 1)"

lemma accessed_loaded:
  assumes "healthy s" and "i < 50" "\<not> occupied (frames s ! i)" and "valid_page ty pid"
    and "table s (make_key pid ty) = None"
  shows "accessed s pid ty i (loaded i pid ty s)"
proof -
  have "pin_count (frames s ! i) = 0" "length (frames s) = 50"
    using assms(1-3) pool_invD(1,2) [of s] by (auto simp: healthy_def frame_ok_def)
  then have "pins (loaded i pid ty s) = (pins s)(i := pins s i + 1)"
    using assms(2) by (auto simp: pins_def loaded_def fun_eq_iff nth_list_update)
  then show ?thesis
    using loaded_pages [OF assms] assms(2) pool_invD(1) [of s] assms(1)
    by (simp add: accessed_def loaded_def healthy_def)
qed

definition pinned_again :: "nat \<Rightarrow> buffer_pool \<Rightarrow> buffer_pool" where
  "pinned_again i s = upd_frame i (\<lambda>f. f\<lparr>pin_count := pin_count f + 1\<rparr>) s"

text \<open>Changing the pin count of an occupied frame changes no page.\<close>

lemma set_pin_count:
  assumes h: "healthy s" and i: "i < 50" "occupied (frames s ! i)" and n: "0 \<le> n (frames s ! i)"
  defines "t \<equiv> upd_frame i (\<lambda>f. f\<lparr>pin_count := n f\<rparr>) s"
  shows "healthy t" and "same_pages s t"
    and "frames t ! j = (if j = i then (frames s ! i)\<lparr>pin_count := n (frames s ! i)\<rparr> else frames s ! j)"
    and "table t = table s" and "disk_operator t = disk_operator s"
proof -
  have inv: "pool_inv s" and c: "coherent s" and io: "io_script (disk_operator s) = []"
    using h by (auto simp: healthy_def)
  have len: "length (frames s) = 50" using pool_invD(1) [OF inv] .
  show fr: "frames t ! j = (if j = i then (frames s ! i)\<lparr>pin_count := n (frames s ! i)\<rparr> else frames s ! j)" for j
    using i(1) len by (simp add: t_def upd_frame_def)
  show tab: "table t = table s" and dk: "disk_operator t = disk_operator s"
    by (simp_all add: t_def upd_frame_def)
  have q: "replacement_check_queue t = replacement_check_queue s" "length (frames t) = 50"
    using len by (simp_all add: t_def upd_frame_def)
  have occ: "occupied (frames t ! j) = occupied (frames s ! j)"
    "frame_key (frames t ! j) = frame_key (frames s ! j)"
    "page_data (frames t ! j) = page_data (frames s ! j)"
    "dirty_bit (frames t ! j) = dirty_bit (frames s ! j)"
    "page_id (frames t ! j) = page_id (frames s ! j)"
    "ptype (frames t ! j) = ptype (frames s ! j)" for j
    using fr [of j] by (auto simp: occupied_def frame_key_def)
  have ok: "frame_ok (frames t ! j)" if "j < 50" for j
    using pool_invD(2) [OF inv that] fr [of j] i(2) n by (auto simp: frame_ok_def occupied_def)
  have "pool_inv t"
    using inv ok unfolding pool_inv_def tab q occ len by simp
  moreover have "coherent t"
    using c unfolding coherent_def q occ dk len .
  ultimately show "healthy t" using io dk by (simp add: healthy_def)
  show "same_pages s t"
    by (simp add: same_pages_def page_view_def tab dk occ split: option.split)
qed

lemma page_access_hit:
  assumes h: "healthy s" and v: "valid_page ty pid" and t: "table s (make_key pid ty) = Some i"
  shows "page_access pid ty s = (Inr i, pinned_again i s)"
    and "accessed s pid ty i (pinned_again i s)"
proof -
  have inv: "pool_inv s" using h by (simp add: healthy_def)
  note d = pool_invD(3) [OF inv t]
  have len: "length (frames s) = 50" using pool_invD(1) [OF inv] .
  show "page_access pid ty s = (Inr i, pinned_again i s)"
    using v t d len by (simp add: page_access_def valid_page_def frame_check_def bindS_def pinned_again_def)
  have ok: "frame_ok (frames s ! i)" using pool_invD(2) [OF inv] d by simp
  then have "0 \<le> pin_count (frames s ! i) + 1" by (simp add: frame_ok_def)
  note p = set_pin_count [OF h, of i "\<lambda>f. pin_count f + 1", folded pinned_again_def, OF _ _ this]
  have "page_id (frames s ! i) = pid \<and> ptype (frames s ! i) = ty"
    using d v ok make_key_inj by (auto simp: frame_key_def valid_page_def frame_ok_def)
  moreover have "keeps_pinned s (pinned_again i s)"
    using p(3) d by (auto simp: keeps_pinned_def)
  moreover have "pins (pinned_again i s) = (pins s)(i := pins s i + 1)"
    using p(3) d by (auto simp: pins_def fun_eq_iff)
  ultimately show "accessed s pid ty i (pinned_again i s)"
    using d p t ok by (simp add: accessed_def page_of_def page_view_def frame_ok_def)
qed

lemma find_free_frame:
  "find_index (\<lambda>f. page_id f = INVALID_PAGE_ID) (frames s) = Some i \<Longrightarrow>
   i < length (frames s) \<and> \<not> occupied (frames s ! i)"
  by (drule find_index_Some) (simp add: occupied_def)

lemma keeps_pinned_evicted:
  assumes "pin_count (frames s ! i) = 0"
  shows "keeps_pinned s (evicted i q s)"
  unfolding keeps_pinned_def
proof (intro allI impI)
  fix j
  assume "0 < pin_count (frames s ! j)"
  with assms have "j \<noteq> i" by auto
  then show "page_id (frames (evicted i q s) ! j) = page_id (frames s ! j) \<and>
      ptype (frames (evicted i q s) ! j) = ptype (frames s ! j) \<and>
      page_data (frames (evicted i q s) ! j) = page_data (frames s ! j) \<and>
      pin_count (frames s ! j) \<le> pin_count (frames (evicted i q s) ! j)"
    by (simp add: evicted_def Let_def)
qed

lemma keeps_pinned_trans:
  "keeps_pinned s t \<Longrightarrow> keeps_pinned t u \<Longrightarrow> keeps_pinned s u"
  unfolding keeps_pinned_def by (metis order_trans less_le_trans)

lemma page_access_Inr:
  assumes h: "healthy s" and v: "valid_page ty pid" and r: "page_access pid ty s = (Inr i, t)"
  shows "accessed s pid ty i t"
proof (cases "table s (make_key pid ty)")
  case (Some j)
  then show ?thesis using page_access_hit [OF h v Some] r by simp
next
  case None
  have inv: "pool_inv s" and io: "io_script (disk_operator s) = []"
    using h by (auto simp: healthy_def)
  have neg: "\<not> pid < 0" using v by (simp add: valid_page_def)
  show ?thesis
  proof (cases "find_index (\<lambda>f. page_id f = INVALID_PAGE_ID) (frames s)")
    case (Some j)
    then have j: "j < 50" "\<not> occupied (frames s ! j)"
      using find_free_frame [OF Some] pool_invD(1) [OF inv] by auto
    then have "i = j" "t = loaded j pid ty s"
      using r neg None Some load_free_frame(1) [OF h j v] by (auto simp: page_access_def)
    then show ?thesis using accessed_loaded [OF h j v None] by simp
  next
    case none: None
    then obtain j u where
      "replacement_loop 0 s = (Inr j, u)" and
      rest: "bindS (putS (upd_frame j (\<lambda>f. f\<lparr>page_id := pid, pin_count := 1, ptype := ty, dirty_bit := False\<rparr>))) (\<lambda>_.
          load_frame j pid ty) u = (Inr i, t)"
      using r neg None by (auto simp: page_access_def page_replacement_policy_def bindS_Inr_iff)
    then obtain q where u: "u = evicted j q s" and j: "j \<in> set (replacement_check_queue s)"
      "pin_count (frames s ! j) = 0" and q: "distinct q" "set q = set (replacement_check_queue s) - {j}"
      using replacement_loop_Inr [OF _ inv io] by blast
    have j50: "j < 50" "occupied (frames s ! j)" using pool_invD(6) [OF inv, of j] j by auto
    have hu: "healthy u" using healthy_evicted [OF h j(1) q] u by simp
    have free: "\<not> occupied (frames u ! j)"
      using u j50 pool_invD(1) [OF inv] by (simp add: evicted_def Let_def occupied_def)
    have tab: "table u (make_key pid ty) = None"
      using u None by (simp add: evicted_def Let_def)
    have "i = j" "t = loaded j pid ty u"
      using rest load_free_frame(2) [OF hu j50(1) free v] by simp_all
    moreover have "same_pages s u"
      using page_view_evicted [OF h j50] u by (simp add: same_pages_def)
    moreover have "keeps_pinned s u"
      using keeps_pinned_evicted [OF j(2)] u by simp
    moreover have "pins u = pins s"
      using j j50(1) u pool_invD(1) [OF inv]
      by (auto simp: pins_def evicted_def Let_def fun_eq_iff nth_list_update)
    moreover have "accessed u pid ty j (loaded j pid ty u)"
      using accessed_loaded [OF hu j50(1) free v tab] .
    ultimately show ?thesis
      using v same_pages_trans keeps_pinned_trans
      by (auto simp: accessed_def same_pages_def)
  qed
qed

section \<open>When page_access fails\<close>

lemma replacement_loop_done:
  "length (replacement_check_queue s) \<le> idx \<Longrightarrow>
   replacement_loop idx s = (Inl (Runtime ''All pages are pinned''), s)"
  by (cases "replacement_check_queue s") (simp_all add: replacement_loop.simps [of idx s])

lemma replacement_loop_Inl:
  "replacement_loop idx s = (Inl e, t) \<Longrightarrow> pool_inv s \<Longrightarrow> io_script (disk_operator s) = [] \<Longrightarrow>
   idx \<le> length (replacement_check_queue s) \<Longrightarrow>
   \<forall>j \<in> set (drop (length (replacement_check_queue s) - idx) (replacement_check_queue s)).
      pin_count (frames s ! j) \<noteq> 0 \<Longrightarrow>
   e = Runtime ''All pages are pinned'' \<and>
   (\<forall>j \<in> set (replacement_check_queue s). pin_count (frames s ! j) \<noteq> 0) \<and>
   (\<exists>q. t = rotated q s \<and> distinct q \<and> set q = set (replacement_check_queue s))"
proof (induction idx s rule: replacement_loop.induct)
  case (1 idx s)
  note prems = "1.prems"
  have self: "s = rotated (replacement_check_queue s) s" by (simp add: rotated_def)
  note d = pool_invD(5) [OF prems(2)]
  show ?case
  proof (cases "replacement_check_queue s")
    case Nil
    then show ?thesis using prems(1) self replacement_loop_done [of s idx] by auto
  next
    case (Cons j rest)
    show ?thesis
    proof (cases "idx < length (j # rest)")
      case False
      then have "idx = length (replacement_check_queue s)" using prems(4) Cons by simp
      then show ?thesis using prems(1,5) d self replacement_loop_done [of s idx] by auto
    next
      case idx: True
      show ?thesis
      proof (cases "pin_count (frames s ! j) = 0")
        case True
        then show ?thesis
          using prems replacement_step_evict [OF prems(2,3) Cons idx] by auto
      next
        case False
        let ?s = "rotated (rest @ [j]) s"
        have inv: "pool_inv ?s"
          using prems(2) Cons d by (intro pool_inv_rotated) auto
        have j: "j < length (frames s)" "0 < pin_count (frames s ! j)"
          using pool_invD(1) [OF prems(2)] pool_invD(2,6) [OF prems(2), of j] Cons False
          by (auto simp: frame_ok_def)
        have step: "replacement_loop (Suc idx) ?s = (Inl e, t)"
          using prems(1) replacement_step_pinned [OF prems(2) Cons idx False] by simp
        have last: "\<forall>k \<in> set (drop (length (rest @ [j]) - Suc idx) (rest @ [j])). pin_count (frames s ! k) \<noteq> 0"
        proof -
          have "drop (length (rest @ [j]) - Suc idx) (rest @ [j]) = drop (length rest - idx) rest @ [j]"
            by simp
          moreover have "set (drop (length rest - idx) rest) =
              set (drop (length (replacement_check_queue s) - idx) (replacement_check_queue s))"
            using Cons idx by (simp add: Suc_diff_le)
          ultimately show ?thesis using prems(5) False by auto
        qed
        have "e = Runtime ''All pages are pinned'' \<and>
            (\<forall>j \<in> set (replacement_check_queue ?s). pin_count (frames ?s ! j) \<noteq> 0) \<and>
            (\<exists>q. t = rotated q ?s \<and> distinct q \<and> set q = set (replacement_check_queue ?s))"
          using "1.IH" [OF Cons, of "s\<lparr>replacement_check_queue := rest\<rparr>" "frames s ! j"]
            step inv prems(3) idx j False last by (simp add: rotated_def)
        then show ?thesis using Cons by (auto simp: rotated_def)
      qed
    qed
  qed
qed

lemma healthy_rotated:
  assumes "healthy s" "distinct q" "set q = set (replacement_check_queue s)"
  shows "healthy (rotated q s)" and "same_pages s (rotated q s)"
proof -
  have "coherent (rotated q s) = coherent s"
    by (simp add: coherent_def rotated_def)
  then show "healthy (rotated q s)"
    using assms pool_inv_rotated by (simp add: healthy_def) (simp add: rotated_def)
  show "same_pages s (rotated q s)"
    by (simp add: same_pages_def page_view_def rotated_def split: option.split)
qed

lemma page_access_Inl:
  assumes h: "healthy s" and v: "valid_page ty pid" and r: "page_access pid ty s = (Inl e, t)"
  shows "e = Runtime ''All pages are pinned''"
    and "exhausted (pins s)"
    and "healthy t" and "same_pages s t" and "pins t = pins s"
proof -
  have inv: "pool_inv s" and io: "io_script (disk_operator s) = []"
    using h by (auto simp: healthy_def)
  have neg: "\<not> pid < 0" using v by (simp add: valid_page_def)
  have none: "table s (make_key pid ty) = None"
    using r page_access_hit(1) [OF h v] by (cases "table s (make_key pid ty)") auto
  have full: "find_index (\<lambda>f. page_id f = INVALID_PAGE_ID) (frames s) = None"
  proof (rule ccontr)
    assume "\<not> ?thesis"
    then obtain j where j: "find_index (\<lambda>f. page_id f = INVALID_PAGE_ID) (frames s) = Some j" by auto
    then have "j < 50" "\<not> occupied (frames s ! j)"
      using find_free_frame [OF j] pool_invD(1) [OF inv] by auto
    then show False
      using r neg none j load_free_frame(1) [OF h _ _ v] by (simp add: page_access_def)
  qed
  have loop: "replacement_loop 0 s = (Inl e, t)"
  proof (cases "replacement_loop 0 s")
    case (Pair a u)
    show ?thesis
    proof (cases a)
      case (Inl e')
      then show ?thesis
        using Pair r neg none full by (simp add: page_access_def page_replacement_policy_def bindS_def)
    next
      case (Inr j)
      then obtain q where u: "u = evicted j q s" and j: "j \<in> set (replacement_check_queue s)"
        and q: "distinct q" "set q = set (replacement_check_queue s) - {j}"
        using replacement_loop_Inr [OF _ inv io] Pair by blast
      have j50: "j < 50" using pool_invD(6) [OF inv, of j] j by auto
      have hu: "healthy u" using healthy_evicted [OF h j q] u by simp
      have free: "\<not> occupied (frames u ! j)"
        using u j50 pool_invD(1) [OF inv] by (simp add: evicted_def Let_def occupied_def)
      show ?thesis
        using Pair Inr r neg none full load_free_frame(2) [OF hu j50 free v]
        by (simp add: page_access_def page_replacement_policy_def bindS_step(1))
    qed
  qed
  have res: "e = Runtime ''All pages are pinned'' \<and>
      (\<forall>j \<in> set (replacement_check_queue s). pin_count (frames s ! j) \<noteq> 0) \<and>
      (\<exists>q. t = rotated q s \<and> distinct q \<and> set q = set (replacement_check_queue s))"
    using replacement_loop_Inl [OF loop inv io] by simp
  then show "e = Runtime ''All pages are pinned''" by simp
  have occ: "occupied (frames s ! j)" if "j < 50" for j
    using full that pool_invD(1) [OF inv] by (auto simp: find_index_None occupied_def)
  show "exhausted (pins s)"
    unfolding exhausted_def
  proof (intro allI impI)
    fix j assume "j < buffer_size"
    then have "j < 50" by simp
    then have "j \<in> set (replacement_check_queue s)" "frame_ok (frames s ! j)"
      using occ pool_invD(2,6) [OF inv, of j] by auto
    then show "0 < pins s j" using res \<open>j < 50\<close> by (auto simp: frame_ok_def pins_def)
  qed
  show "healthy t" "same_pages s t"
    using res healthy_rotated [OF h] by auto
  show "pins t = pins s" using res by (auto simp: pins_def rotated_def)
qed

end
