(* ===== verification/Buffer_Store.thy ===== *)
theory Buffer_Store
  imports Buffer_Access
begin

text \<open>
  The buffer pool as a store of heap pages: the interface its clients (insertion, the scan, the
  log) rely on is the locale \<open>page_store\<close>, and the pool is shown to provide it.
\<close>

section \<open>Changing a page through its pointer\<close>

text \<open>
  A frame whose bytes have been replaced: with the dirty bit set, or written through to disk
  with the dirty bit cleared.
\<close>

definition rewritten :: "nat \<Rightarrow> mem \<Rightarrow> bool \<Rightarrow> buffer_pool \<Rightarrow> buffer_pool" where
  "rewritten i m b s =
     (let f = frames s ! i in
      s\<lparr>frames := (frames s)[i := f\<lparr>page_data := m, dirty_bit := b\<rparr>],
        disk_operator := (if b then disk_operator s
           else disk_after_write (page_id f) m (ptype f) (disk_operator s))\<rparr>)"

lemma rewritten_basic:
  fixes m :: mem and b :: bool
  assumes h: "healthy s" and i: "i < 50" "occupied (frames s ! i)"
  defines t: "t \<equiv> rewritten i m b s"
  shows "pool_inv s" and "length (frames s) = 50" and "table t = table s"
    and "frames t ! j = (if j = i then (frames s ! i)\<lparr>page_data := m, dirty_bit := b\<rparr> else frames s ! j)"
    and "valid_page (ptype (frames s ! i)) (page_id (frames s ! i))"
  using h i pool_invD(1) [of s] pool_invD(2) [of s i]
  by (auto simp: healthy_def t rewritten_def Let_def valid_page_def frame_ok_def occupied_def)

lemma rewritten_disk:
  fixes m :: mem and b :: bool
  assumes h: "healthy s" and i: "i < 50" "occupied (frames s ! i)"
    and "valid_page ty pid"
  defines t: "t \<equiv> rewritten i m b s"
  shows "disk_page (disk_operator t) ty pid =
   (if \<not> b \<and> ty = ptype (frames s ! i) \<and> pid = page_id (frames s ! i) then m
    else disk_page (disk_operator s) ty pid)"
  using rewritten_basic(5) [OF h i] assms(4)
    disk_page_after_write [of "ptype (frames s ! i)" "page_id (frames s ! i)" pid]
  by (auto simp: t rewritten_def Let_def valid_page_def)

lemma rewritten_view:
  fixes m :: mem and b :: bool
  assumes h: "healthy s" and i: "i < 50" "occupied (frames s ! i)"
    and v: "valid_page ty pid"
  defines t: "t \<equiv> rewritten i m b s"
  shows "page_view t ty pid =
    (if ty = ptype (frames s ! i) \<and> pid = page_id (frames s ! i) then m else page_view s ty pid)"
proof -
  note basic = rewritten_basic [OF h i]
  note fr = rewritten_basic(4) [OF h i, of m b, folded t]
  have ti: "table s (frame_key (frames s ! i)) = Some i"
    using pool_invD(4) [OF basic(1) i] .
  have key: "make_key pid ty = frame_key (frames s ! i) \<longleftrightarrow>
      ty = ptype (frames s ! i) \<and> pid = page_id (frames s ! i)"
    using make_key_inj v basic(5) by (auto simp: frame_key_def valid_page_def)
  show ?thesis
  proof (cases "make_key pid ty = frame_key (frames s ! i)")
    case True
    then show ?thesis using ti key basic(3) [of m b, folded t] fr by (simp add: page_view_def)
  next
    case False
    then have "j \<noteq> i" if "table s (make_key pid ty) = Some j" for j
      using pool_invD(3) [OF basic(1) that] by auto
    then show ?thesis
      using False key basic(3) [of m b, folded t] fr rewritten_disk [OF h i v, of m b, folded t]
      by (auto simp: page_view_def split: option.split)
  qed
qed

lemma rewritten_healthy:
  fixes m :: mem and b :: bool
  assumes h: "healthy s" and i: "i < 50" "occupied (frames s ! i)"
  defines t: "t \<equiv> rewritten i m b s"
  shows "healthy t"
proof -
  note basic = rewritten_basic [OF h i]
  note fr = rewritten_basic(4) [OF h i, of m b, folded t]
  have inv: "pool_inv s" and len: "length (frames s) = 50" "length (frames t) = 50"
    using basic(1,2) by (simp_all add: t rewritten_def Let_def)
  have same: "frame_ok (frames t ! j) = frame_ok (frames s ! j)"
    "occupied (frames t ! j) = occupied (frames s ! j)"
    "frame_key (frames t ! j) = frame_key (frames s ! j)"
    "page_id (frames t ! j) = page_id (frames s ! j)"
    "ptype (frames t ! j) = ptype (frames s ! j)" for j
    using fr [of j] i(2) by (auto simp: occupied_def frame_key_def frame_ok_def)
  have q: "replacement_check_queue t = replacement_check_queue s"
    by (simp add: t rewritten_def Let_def)
  have "pool_inv t"
    using inv unfolding pool_inv_def len same q basic(3) [of m b, folded t] .
  moreover have "coherent t"
    unfolding coherent_def
  proof (intro allI impI)
    fix j
    assume j: "j < length (frames t)" "occupied (frames t ! j) \<and> \<not> dirty_bit (frames t ! j)"
    then have ok: "j < 50" "frame_ok (frames s ! j)" "occupied (frames s ! j)"
      using len pool_invD(2) [OF inv] same by auto
    then have v: "valid_page (ptype (frames s ! j)) (page_id (frames s ! j))"
      by (auto simp: frame_ok_def valid_page_def occupied_def)
    show "page_data (frames t ! j) = disk_page (disk_operator t) (ptype (frames t ! j)) (page_id (frames t ! j))"
    proof (cases "j = i")
      case True
      then show ?thesis
        using j(2) fr [of j] rewritten_disk [OF h i v, of m b, folded t] same by simp
    next
      case False
      have "frame_key (frames s ! j) \<noteq> frame_key (frames s ! i)"
        using pool_invD(4) [OF inv ok(1,3)] pool_invD(4) [OF inv i] False by auto
      moreover have "page_data (frames s ! j) = disk_page (disk_operator s) (ptype (frames s ! j)) (page_id (frames s ! j))"
        using h ok j(2) False len fr [of j] by (simp add: healthy_def coherent_def)
      ultimately show ?thesis
        using False fr [of j] rewritten_disk [OF h i v, of m b, folded t] by (auto simp: frame_key_def)
    qed
  qed
  moreover have "io_script (disk_operator t) = []"
    using h by (simp add: healthy_def t rewritten_def Let_def)
  ultimately show ?thesis by (simp add: healthy_def)
qed

section \<open>Holding a page\<close>

text \<open>Frame \<open>i\<close> holds page \<open>pid\<close> and is pinned.\<close>

definition holds_page :: "buffer_pool \<Rightarrow> page_type \<Rightarrow> int \<Rightarrow> nat \<Rightarrow> bool" where
  "holds_page s ty pid i \<longleftrightarrow>
     i < buffer_size \<and> page_id (frames s ! i) = pid \<and> ptype (frames s ! i) = ty \<and>
     0 < pin_count (frames s ! i) \<and> table s (make_key pid ty) = Some i"

lemma accessed_holds: "accessed s pid ty i t \<Longrightarrow> holds_page t ty pid i"
  by (simp add: accessed_def holds_page_def)

lemma holds_page_occupied:
  "healthy s \<Longrightarrow> valid_page ty pid \<Longrightarrow> holds_page s ty pid i \<Longrightarrow> i < 50 \<and> occupied (frames s ! i)"
  by (auto simp: holds_page_def occupied_def valid_page_def)

lemma holds_page_view:
  "holds_page s ty pid i \<Longrightarrow> page_view s ty pid = page_of i s"
  by (simp add: holds_page_def page_view_def page_of_def)

text \<open>Write through the pointer, write the page to disk, clear the dirty bit.\<close>

definition write_through :: "page_type \<Rightarrow> nat \<Rightarrow> mem \<Rightarrow> (buffer_pool, unit) action" where
  "write_through ty i m =
     bindS (putS (upd_frame i (\<lambda>f. f\<lparr>page_data := m\<rparr>))) (\<lambda>_.
     bindS (dp_write_page i ty) (\<lambda>_.
     set_dirty i False))"

lemma write_through_ok:
  assumes h: "healthy s" and v: "valid_page ty pid" and hp: "holds_page s ty pid i"
  shows "write_through ty i m s = (Inr (), rewritten i m False s)"
proof -
  have io: "io_script (disk_operator s) = []" and len: "length (frames s) = 50"
    using h pool_invD(1) by (auto simp: healthy_def)
  have "write_page pid m ty (disk_operator s) = (Inr (), disk_after_write pid m ty (disk_operator s))"
    using v io by (intro write_page_ok) (auto simp: valid_page_def)
  then show ?thesis
    using hp len
    by (simp add: write_through_def bindS_def dp_write_page_def on_disk_def upd_frame_def
        set_dirty_def rewritten_def Let_def holds_page_def)
qed

lemma holds_page_rewritten:
  assumes "healthy s" and "holds_page s ty pid j" and "i < 50" "occupied (frames s ! i)"
  shows "holds_page (rewritten i m b s) ty pid j"
  using assms rewritten_basic(3,4) [OF assms(1,3,4)] by (auto simp: holds_page_def)

lemma un_pin_ok:
  assumes h: "healthy s" and v: "valid_page ty pid" and hp: "holds_page s ty pid i"
  shows "un_pin pid ty s = (Inr (), upd_frame i (\<lambda>f. f\<lparr>pin_count := pin_count (frames s ! i) - 1\<rparr>) s)"
    and "healthy (snd (un_pin pid ty s))" and "same_pages s (snd (un_pin pid ty s))"
    and "page_of j (snd (un_pin pid ty s)) = page_of j s"
    and "pins (snd (un_pin pid ty s)) = (pins s)(i := pins s i - 1)"
proof -
  have len: "length (frames s) = 50" using h pool_invD(1) by (auto simp: healthy_def)
  have i: "i < 50" "occupied (frames s ! i)" using holds_page_occupied [OF h v hp] by auto
  show eq: "un_pin pid ty s = (Inr (), upd_frame i (\<lambda>f. f\<lparr>pin_count := pin_count (frames s ! i) - 1\<rparr>) s)"
    using hp len by (simp add: un_pin_def holds_page_def frame_check_def bindS_def upd_frame_def)
  have "0 \<le> pin_count (frames s ! i) - 1" using hp by (simp add: holds_page_def)
  note p = set_pin_count [OF h i, of "\<lambda>_. pin_count (frames s ! i) - 1", OF this]
  show "healthy (snd (un_pin pid ty s))" "same_pages s (snd (un_pin pid ty s))"
    using p eq by simp_all
  show "page_of j (snd (un_pin pid ty s)) = page_of j s"
    using p(3) [of j] eq by (simp add: page_of_def)
  show "pins (snd (un_pin pid ty s)) = (pins s)(i := pins s i - 1)"
    using p(3) eq i by (auto simp: pins_def fun_eq_iff)
qed

section \<open>The interface\<close>

locale page_store =
  fixes access :: "int \<Rightarrow> 's \<Rightarrow> nat result \<times> 's"
    and release :: "int \<Rightarrow> 's \<Rightarrow> unit result \<times> 's"
    and store :: "nat \<Rightarrow> mem \<Rightarrow> 's \<Rightarrow> unit result \<times> 's"
    and page_at :: "nat \<Rightarrow> 's \<Rightarrow> mem"
    and contents :: "'s \<Rightarrow> int \<Rightarrow> mem"
    and pinned :: "'s \<Rightarrow> nat \<Rightarrow> int"
    and holds :: "'s \<Rightarrow> int \<Rightarrow> nat \<Rightarrow> bool"
    and ok :: "'s \<Rightarrow> bool"
    and valid :: "int \<Rightarrow> bool"
  assumes access_ok: "ok s \<Longrightarrow> valid p \<Longrightarrow> access p s = (Inr i, t) \<Longrightarrow>
      ok t \<and> holds t p i \<and> (\<forall>q. valid q \<longrightarrow> contents t q = contents s q) \<and>
      pinned t = (pinned s)(i := pinned s i + 1)"
    and access_fail: "ok s \<Longrightarrow> valid p \<Longrightarrow> access p s = (Inl e, t) \<Longrightarrow>
      ok t \<and> (\<forall>q. valid q \<longrightarrow> contents t q = contents s q) \<and> pinned t = pinned s \<and> exhausted (pinned s)"
    and page_at_contents: "ok s \<Longrightarrow> holds s p i \<Longrightarrow> page_at i s = contents s p"
    and store_ok: "ok s \<Longrightarrow> valid p \<Longrightarrow> holds s p i \<Longrightarrow>
      \<exists>t. store i m s = (Inr (), t) \<and> ok t \<and> holds t p i \<and> pinned t = pinned s \<and>
        (\<forall>q. valid q \<longrightarrow> contents t q = (if q = p then m else contents s q))"
    and release_ok: "ok s \<Longrightarrow> valid p \<Longrightarrow> holds s p i \<Longrightarrow>
      \<exists>t. release p s = (Inr (), t) \<and> ok t \<and> (\<forall>q. valid q \<longrightarrow> contents t q = contents s q) \<and>
        pinned t = (pinned s)(i := pinned s i - 1)"
begin

text \<open>Looking at a page: access it, read it through the pointer, release it.\<close>

lemma look:
  assumes "ok s" "valid p"
    and "bindS (access p) (\<lambda>i. bindS (getS (page_at i)) (\<lambda>m. bindS (release p) (\<lambda>_. returnS (f m)))) s = (r, t)"
  shows "ok t" and "valid q \<Longrightarrow> contents t q = contents s q" and "pinned t = pinned s"
    and "r = Inr x \<Longrightarrow> x = f (contents s p)"
    and "r = Inl e \<Longrightarrow> fst (access p s) = Inl e \<and> exhausted (pinned s)"
proof -
  obtain a u where a: "access p s = (a, u)" by (cases "access p s")
  have "ok t \<and> (valid q \<longrightarrow> contents t q = contents s q) \<and> pinned t = pinned s \<and>
      (r = Inr x \<longrightarrow> x = f (contents s p)) \<and>
      (r = Inl e \<longrightarrow> fst (access p s) = Inl e \<and> exhausted (pinned s))"
  proof (cases a)
    case (Inl e')
    then show ?thesis using a assms(3) access_fail [OF assms(1,2)] by (auto simp: bindS_def)
  next
    case (Inr i)
    then have u: "ok u" "holds u p i" "\<forall>q. valid q \<longrightarrow> contents u q = contents s q"
      "pinned u = (pinned s)(i := pinned s i + 1)"
      using access_ok [OF assms(1,2)] a by auto
    then obtain w where w: "release p u = (Inr (), w)" "ok w" "\<forall>q. valid q \<longrightarrow> contents w q = contents u q"
      "pinned w = (pinned u)(i := pinned u i - 1)"
      using release_ok [OF _ assms(2)] by blast
    then show ?thesis
      using a Inr assms(2,3) u page_at_contents [OF u(1,2)] by (auto simp: bindS_def)
  qed
  then show "ok t" "valid q \<Longrightarrow> contents t q = contents s q" "r = Inr x \<Longrightarrow> x = f (contents s p)"
    "pinned t = pinned s" "r = Inl e \<Longrightarrow> fst (access p s) = Inl e \<and> exhausted (pinned s)" by auto
qed

text \<open>Updating a page in place and on disk: only that page changes, and only on success.\<close>

lemma update:
  assumes "ok s" "valid p"
    and "bindS (access p) (\<lambda>i. bindS (getS (page_at i)) (\<lambda>m. bindS (store i (f m)) (\<lambda>_. release p))) s = (r, t)"
  shows "ok t" and "pinned t = pinned s"
    and "valid q \<Longrightarrow> r = Inr () \<Longrightarrow> contents t q = (if q = p then f (contents s p) else contents s q)"
    and "valid q \<Longrightarrow> r = Inl e \<Longrightarrow> contents t q = contents s q"
    and "r = Inl e \<Longrightarrow> fst (access p s) = Inl e \<and> exhausted (pinned s)"
proof -
  obtain a u where a: "access p s = (a, u)" by (cases "access p s")
  have "ok t \<and> pinned t = pinned s \<and>
      (valid q \<longrightarrow> r = Inr () \<longrightarrow> contents t q = (if q = p then f (contents s p) else contents s q)) \<and>
      (valid q \<longrightarrow> r = Inl e \<longrightarrow> contents t q = contents s q) \<and>
      (r = Inl e \<longrightarrow> fst (access p s) = Inl e \<and> exhausted (pinned s))"
  proof (cases a)
    case (Inl e')
    then show ?thesis using a assms(3) access_fail [OF assms(1,2)] by (auto simp: bindS_def)
  next
    case (Inr i)
    then have u: "ok u" "holds u p i" "\<forall>q. valid q \<longrightarrow> contents u q = contents s q"
      "pinned u = (pinned s)(i := pinned s i + 1)"
      using access_ok [OF assms(1,2)] a by auto
    then obtain v where v: "store i (f (page_at i u)) u = (Inr (), v)" "ok v" "holds v p i"
      "pinned v = pinned u"
      "\<forall>q. valid q \<longrightarrow> contents v q = (if q = p then f (page_at i u) else contents u q)"
      using store_ok [OF _ assms(2)] by blast
    then obtain w where w: "release p v = (Inr (), w)" "ok w" "\<forall>q. valid q \<longrightarrow> contents w q = contents v q"
      "pinned w = (pinned v)(i := pinned v i - 1)"
      using release_ok [OF _ assms(2)] by blast
    then show ?thesis
      using a Inr v assms(2,3) u page_at_contents [OF u(1,2)] by (auto simp: bindS_def)
  qed
  then show "ok t" "pinned t = pinned s"
    "valid q \<Longrightarrow> r = Inr () \<Longrightarrow> contents t q = (if q = p then f (contents s p) else contents s q)"
    "valid q \<Longrightarrow> r = Inl e \<Longrightarrow> contents t q = contents s q"
    "r = Inl e \<Longrightarrow> fst (access p s) = Inl e \<and> exhausted (pinned s)" by auto
qed

end

section \<open>The pool provides the interface\<close>

abbreviation heap_access :: "int \<Rightarrow> (buffer_pool, nat) action" where
  "heap_access p \<equiv> page_access p HEAP_PAGE"

abbreviation heap_release :: "int \<Rightarrow> (buffer_pool, unit) action" where
  "heap_release p \<equiv> un_pin p HEAP_PAGE"

abbreviation heap_view :: "buffer_pool \<Rightarrow> int \<Rightarrow> mem" where
  "heap_view s \<equiv> page_view s HEAP_PAGE"

lemma pins_rewritten:
  "i < 50 \<Longrightarrow> length (frames s) = 50 \<Longrightarrow> pins (rewritten i m b s) = pins s"
  by (auto simp: pins_def rewritten_def Let_def fun_eq_iff nth_list_update)

lemma page_store_pool:
  "page_store (\<lambda>p. page_access p ty) (\<lambda>p. un_pin p ty) (write_through ty) page_of
     (\<lambda>s. page_view s ty) pins (\<lambda>s. holds_page s ty) healthy (valid_page ty)"
proof unfold_locales
  fix s t :: buffer_pool and p :: int and i :: nat
  assume "healthy s" "valid_page ty p" "page_access p ty s = (Inr i, t)"
  then have "accessed s p ty i t" by (rule page_access_Inr)
  then show "healthy t \<and> holds_page t ty p i \<and>
      (\<forall>q. valid_page ty q \<longrightarrow> page_view t ty q = page_view s ty q) \<and> pins t = (pins s)(i := pins s i + 1)"
    by (auto simp: accessed_def same_pages_def holds_page_def)
next
  fix s t :: buffer_pool and p :: int and e :: error
  assume a: "healthy s" "valid_page ty p" "page_access p ty s = (Inl e, t)"
  then show "healthy t \<and> (\<forall>q. valid_page ty q \<longrightarrow> page_view t ty q = page_view s ty q) \<and>
      pins t = pins s \<and> exhausted (pins s)"
    using page_access_Inl(2-5) [OF a] by (auto simp: same_pages_def)
next
  fix s :: buffer_pool and p :: int and i :: nat
  assume "holds_page s ty p i"
  then show "page_of i s = page_view s ty p" by (simp add: holds_page_view)
next
  fix s :: buffer_pool and p :: int and i :: nat and m :: mem
  assume a: "healthy s" "valid_page ty p" "holds_page s ty p i"
  then have i: "i < 50" "occupied (frames s ! i)" using holds_page_occupied by auto
  have "length (frames s) = 50" using a(1) pool_invD(1) by (simp add: healthy_def)
  then show "\<exists>t. write_through ty i m s = (Inr (), t) \<and> healthy t \<and> holds_page t ty p i \<and> pins t = pins s \<and>
      (\<forall>q. valid_page ty q \<longrightarrow> page_view t ty q = (if q = p then m else page_view s ty q))"
    using write_through_ok [OF a] rewritten_healthy [OF a(1) i] rewritten_view [OF a(1) i]
      holds_page_rewritten [OF a(1,3) i] a(3) pins_rewritten [OF i(1)] by (auto simp: holds_page_def)
next
  fix s :: buffer_pool and p :: int and i :: nat
  assume a: "healthy s" "valid_page ty p" "holds_page s ty p i"
  then show "\<exists>t. un_pin p ty s = (Inr (), t) \<and> healthy t \<and>
      (\<forall>q. valid_page ty q \<longrightarrow> page_view t ty q = page_view s ty q) \<and> pins t = (pins s)(i := pins s i - 1)"
    using un_pin_ok [OF a] by (auto simp: same_pages_def)
qed

interpretation pool: page_store heap_access heap_release "write_through HEAP_PAGE" page_of heap_view pins
  "\<lambda>s. holds_page s HEAP_PAGE" healthy "valid_page HEAP_PAGE"
  by (rule page_store_pool)

interpretation index_pool: page_store "\<lambda>p. page_access p INDEX_PAGE" "\<lambda>p. un_pin p INDEX_PAGE"
  "write_through INDEX_PAGE" page_of "\<lambda>s. page_view s INDEX_PAGE" pins
  "\<lambda>s. holds_page s INDEX_PAGE" healthy "valid_page INDEX_PAGE"
  by (rule page_store_pool)

section \<open>Access and release, step by step\<close>

lemma access_page:
  assumes "healthy s" "valid_page ty p" "\<not> exhausted (pins s)"
  obtains i t where "page_access p ty s = (Inr i, t)" "healthy t" "holds_page t ty p i"
    "page_of i t = page_view s ty p" "pins t = (pins s)(i := pins s i + 1)" "same_pages s t"
proof -
  obtain r t where a: "page_access p ty s = (r, t)" by (cases "page_access p ty s")
  show ?thesis
  proof (cases r)
    case (Inl e)
    then show ?thesis using page_access_Inl(2) [OF assms(1,2)] a assms(3) by blast
  next
    case (Inr i)
    have "accessed s p ty i t" using page_access_Inr [OF assms(1,2)] a Inr by simp
    then show ?thesis
      using that a Inr by (simp add: accessed_def holds_page_def)
  qed
qed

lemma release_page:
  assumes "healthy s" "valid_page ty p" "holds_page s ty p i"
  obtains t where "un_pin p ty s = (Inr (), t)" "healthy t"
    "pins t = (pins s)(i := pins s i - 1)" "same_pages s t" "\<And>j. page_of j t = page_of j s"
  using un_pin_ok [OF assms] by (metis fst_conv snd_conv)

end
