(* ===== verification/Heap_Writer.thy ===== *)
theory Heap_Writer
  imports Storage_Types
begin

text \<open>
  Writing rows to a heap page and reading them back: \<open>heap_write\<close> of
  \<open>src/storage_manager/heap_writer.cpp\<close> and the row decoding of \<open>heap_scan::scan\<close> in
  \<open>src/storage_manager/access_methods.cpp\<close>, both on the bytes of one page.
\<close>

section \<open>Bounded writes\<close>

text \<open>A \<open>memcpy\<close> or \<open>memset\<close> past the end of \<open>page_data\<close> is undefined behaviour.\<close>

definition write_at :: "nat \<Rightarrow> byte list \<Rightarrow> (mem, unit) action" where
  "write_at off bs m =
     (if off + length bs \<le> page_data_size then (Inr (), put_bytes off bs m)
      else (Inl (Undefined ''memcpy past the page''), m))"

definition fill_at :: "nat \<Rightarrow> nat \<Rightarrow> byte \<Rightarrow> (mem, unit) action" where
  "fill_at off n b m =
     (if off + n \<le> page_data_size then (Inr (), fill_bytes off n b m)
      else (Inl (Undefined ''memset past the page''), m))"

section \<open>Writing a row\<close>

text \<open>
  The visitor of \<open>heap_write\<close> for one value at \<open>start + cum_offset\<close>; the result is what is
  added to \<open>cum_offset\<close>.  The count of the \<open>memset\<close> is a \<open>size_t\<close> subtraction, which wraps
  around for a string longer than \<open>STRING_MAX_SIZE\<close>.
\<close>

fun write_value :: "nat \<Rightarrow> VALUE_TYPE \<Rightarrow> (mem, nat) action" where
  "write_value pos (VInt v) =
     bindS (write_at pos (le_bytes 4 (int_bits v))) (\<lambda>_. returnS 4)"
| "write_value pos (VFloat f) =
     bindS (write_at pos (le_bytes 4 (unat f))) (\<lambda>_. returnS 4)"
| "write_value pos (VString s) =
     bindS (write_at pos (map char_byte s)) (\<lambda>_.
     bindS (fill_at (pos + length s) ((STRING_MAX_SIZE + 2 ^ 64 - length s) mod 2 ^ 64) 0) (\<lambda>_.
     returnS STRING_MAX_SIZE))"

fun write_row :: "nat \<Rightarrow> row_t \<Rightarrow> (mem, unit) action" where
  "write_row pos [] = returnS ()"
| "write_row pos (v # vs) = bindS (write_value pos v) (\<lambda>n. write_row (pos + n) vs)"

text \<open>
  \<open>heap_write\<close>.  The slot count is raised and the slot's size stored before the free space is
  checked; the comparison and the subtraction of a \<open>size_t\<close> with the \<open>int\<close> field are done in
  \<open>size_t\<close>.
\<close>

definition heap_write :: "row_t \<Rightarrow> nat list \<Rightarrow> (mem, Slot) action" where
  "heap_write row row_data_size_arr =
     bindS (putS (\<lambda>m. if hp_is_initialized m then m else initialize m)) (\<lambda>_.
     bindS (getS hp_slot_count) (\<lambda>count.
     if \<not> count < int MAX_SLOTS then throwS (Runtime ''Slots Full'')
     else if count < 0 then throwS (Undefined ''slot index'')
     else
       let i = nat count; row_size = sum_list row_data_size_arr in
       bindS (putS (set_slot_count (count + 1))) (\<lambda>_.
       bindS (putS (set_slot_size i (int row_size))) (\<lambda>_.
       bindS (getS hp_free_size) (\<lambda>free.
       if \<not> int row_size \<le> free mod 2 ^ 64 then throwS (Runtime ''HEAP PAGE SPACE FULL'')
       else
         bindS (putS (set_free_size (free - int row_size))) (\<lambda>_.
         bindS (getS hp_free_size) (\<lambda>free'.
         bindS (putS (set_slot_offset i (nat (free' mod 65536)))) (\<lambda>_.
         bindS (putS (set_slot_deleted i False)) (\<lambda>_.
         bindS (getS (\<lambda>m. slot_offset (hp_slot m i))) (\<lambda>off.
         bindS (write_row (heap_data + off) row) (\<lambda>_.
         getS (\<lambda>m. hp_slot m i))))))))))))"

section \<open>Reading a row\<close>

text \<open>\<open>std::string(char *)\<close>: the bytes up to the first NUL, wherever it is; \<open>n\<close> bytes are left
  in the page.\<close>

fun cstring_from :: "mem \<Rightarrow> nat \<Rightarrow> nat \<Rightarrow> string result" where
  "cstring_from m pos n =
     (if n = 0 then Inl (Undefined ''string read past the page'')
      else if m pos = 0 then Inr []
      else bindE (cstring_from m (Suc pos) (n - 1)) (\<lambda>s. Inr (byte_char (m pos) # s)))"

declare cstring_from.simps [simp del]

definition read_cstring :: "mem \<Rightarrow> nat \<Rightarrow> string result" where
  "read_cstring m pos = cstring_from m pos (page_data_size - pos)"

definition read_int32 :: "mem \<Rightarrow> nat \<Rightarrow> nat result" where
  "read_int32 m pos =
     (if pos + 4 \<le> page_data_size then Inr (get_nat m pos 4)
      else Inl (Undefined ''read past the page''))"

text \<open>The loop over the columns: each value and the advance of \<open>cum_offset\<close>.\<close>

fun read_value :: "mem \<Rightarrow> nat \<Rightarrow> SUPORTED_COLUMN_TYPE \<Rightarrow> (VALUE_TYPE \<times> nat) result" where
  "read_value m pos STRING = bindE (read_cstring m pos) (\<lambda>s. Inr (VString s, STRING_MAX_SIZE))"
| "read_value m pos INTEGER = bindE (read_int32 m pos) (\<lambda>n. Inr (VInt (bits_int n), 4))"
| "read_value m pos FLOATING = bindE (read_int32 m pos) (\<lambda>n. Inr (VFloat (word_of_nat n), 4))"

fun read_row :: "mem \<Rightarrow> nat \<Rightarrow> SUPORTED_COLUMN_TYPE list \<Rightarrow> row_t result" where
  "read_row m pos [] = Inr []"
| "read_row m pos (t # ts) =
     bindE (read_value m pos t) (\<lambda>(v, n).
     bindE (read_row m (pos + n) ts) (\<lambda>vs. Inr (v # vs)))"

section \<open>The bytes of a row\<close>

text \<open>The fixed-width image of a row, and what it means for a row to have given column types.\<close>

fun value_type :: "VALUE_TYPE \<Rightarrow> SUPORTED_COLUMN_TYPE" where
  "value_type (VString _) = STRING"
| "value_type (VInt _) = INTEGER"
| "value_type (VFloat _) = FLOATING"

fun type_width :: "SUPORTED_COLUMN_TYPE \<Rightarrow> nat" where
  "type_width STRING = STRING_MAX_SIZE"
| "type_width INTEGER = 4"
| "type_width FLOATING = 4"

fun value_fits :: "VALUE_TYPE \<Rightarrow> bool" where
  "value_fits (VString s) \<longleftrightarrow> length s \<le> STRING_MAX_SIZE"
| "value_fits (VInt v) \<longleftrightarrow> int_range v"
| "value_fits (VFloat _) \<longleftrightarrow> True"

text \<open>A string comes back from its column only if it is shorter than the column and has no
  NUL.\<close>

fun value_readable :: "VALUE_TYPE \<Rightarrow> bool" where
  "value_readable (VString s) \<longleftrightarrow> length s < STRING_MAX_SIZE \<and> CHR 0x00 \<notin> set s"
| "value_readable (VInt v) \<longleftrightarrow> int_range v"
| "value_readable (VFloat _) \<longleftrightarrow> True"

fun value_bytes :: "VALUE_TYPE \<Rightarrow> byte list" where
  "value_bytes (VString s) = map char_byte s @ replicate (STRING_MAX_SIZE - length s) 0"
| "value_bytes (VInt v) = le_bytes 4 (int_bits v)"
| "value_bytes (VFloat f) = le_bytes 4 (unat f)"

definition row_bytes :: "row_t \<Rightarrow> byte list" where
  "row_bytes row = concat (map value_bytes row)"

definition row_types :: "row_t \<Rightarrow> SUPORTED_COLUMN_TYPE list" where
  "row_types row = map value_type row"

definition row_width :: "row_t \<Rightarrow> nat" where
  "row_width row = sum_list (map (type_width \<circ> value_type) row)"

definition row_fits :: "row_t \<Rightarrow> bool" where "row_fits row = list_all value_fits row"

definition row_readable :: "row_t \<Rightarrow> bool" where "row_readable row = list_all value_readable row"

lemmas row_defs = row_bytes_def row_types_def row_width_def row_fits_def row_readable_def

lemma row_simps [simp]:
  "row_bytes [] = []" "row_bytes (v # vs) = value_bytes v @ row_bytes vs"
  "row_types [] = []" "row_types (v # vs) = value_type v # row_types vs"
  "row_width [] = 0" "row_width (v # vs) = type_width (value_type v) + row_width vs"
  "row_fits []" "row_fits (v # vs) \<longleftrightarrow> value_fits v \<and> row_fits vs"
  "row_readable []" "row_readable (v # vs) \<longleftrightarrow> value_readable v \<and> row_readable vs"
  by (simp_all add: row_defs)

lemma readable_fits: "value_readable v \<Longrightarrow> value_fits v"
  by (cases v) auto

lemma row_readable_fits: "row_readable row \<Longrightarrow> row_fits row"
  by (induction row) (auto simp: readable_fits)

lemma length_value_bytes: "value_fits v \<Longrightarrow> length (value_bytes v) = type_width (value_type v)"
  by (cases v) auto

lemma length_row_bytes: "row_fits row \<Longrightarrow> length (row_bytes row) = row_width row"
  by (induction row) (auto simp: length_value_bytes)

section \<open>What writing does\<close>

lemma memset_count:
  "n \<le> STRING_MAX_SIZE \<Longrightarrow> (STRING_MAX_SIZE + 2 ^ 64 - n) mod 2 ^ 64 = STRING_MAX_SIZE - n"
proof -
  assume "n \<le> STRING_MAX_SIZE"
  then have "STRING_MAX_SIZE + 2 ^ 64 - n = (STRING_MAX_SIZE - n) + 2 ^ 64" and "n \<le> 500" by simp_all
  moreover have "((500 - n) + 2 ^ 64) mod 2 ^ 64 = (500 - n :: nat)"
    by (subst mod_add_self2) (rule mod_less, simp)
  ultimately show ?thesis by simp
qed

lemma write_value_ok:
  assumes "value_fits v" and "pos + type_width (value_type v) \<le> page_data_size"
  shows "write_value pos v m = (Inr (type_width (value_type v)), put_bytes pos (value_bytes v) m)"
proof (cases v)
  case (VString s)
  with assms have "length s \<le> 500" "pos + 500 \<le> 4096" by simp_all
  moreover have "fill_bytes (pos + length s) n 0 (put_bytes pos (map char_byte s) m) =
      put_bytes pos (map char_byte s @ replicate n 0) m" for n
    using fill_after_put [of pos "map char_byte s"] by simp
  ultimately show ?thesis
    using VString memset_count [of "length s"]
    by (simp add: bindS_def write_at_def fill_at_def)
next
  case (VInt v)
  with assms show ?thesis by (simp add: bindS_def write_at_def)
next
  case (VFloat f)
  with assms show ?thesis by (simp add: bindS_def write_at_def)
qed

lemma write_row_ok:
  "row_fits row \<Longrightarrow> pos + row_width row \<le> page_data_size \<Longrightarrow>
   write_row pos row m = (Inr (), put_bytes pos (row_bytes row) m)"
proof (induction row arbitrary: pos m)
  case Nil
  then show ?case by simp
next
  case (Cons v vs)
  let ?w = "type_width (value_type v)"
  have "write_value pos v m = (Inr ?w, put_bytes pos (value_bytes v) m)"
    using Cons.prems by (intro write_value_ok) auto
  moreover have "write_row (pos + ?w) vs (put_bytes pos (value_bytes v) m) =
      (Inr (), put_bytes (pos + ?w) (row_bytes vs) (put_bytes pos (value_bytes v) m))"
    using Cons.prems by (intro Cons.IH) auto
  moreover have "put_bytes (pos + ?w) (row_bytes vs) (put_bytes pos (value_bytes v) m) =
      put_bytes pos (row_bytes (v # vs)) m"
    using put_put_append [of pos "value_bytes v" "row_bytes vs" m] Cons.prems
    by (simp add: length_value_bytes)
  ultimately show ?case by (simp add: bindS_def)
qed

section \<open>Reading what was written\<close>

lemma byte_char_0: "byte_char 0 = CHR 0x00"
  by (simp add: byte_char_def char_of_def)

lemma cstring_from_written:
  assumes "\<And>i. i < length s \<Longrightarrow> m (pos + i) = char_byte (s ! i)"
    and "m (pos + length s) = 0" and "CHR 0x00 \<notin> set s" and "length s < n"
  shows "cstring_from m pos n = Inr s"
  using assms
proof (induction s arbitrary: pos n)
  case Nil
  then show ?case by (simp add: cstring_from.simps)
next
  case (Cons c s)
  have c: "m pos = char_byte c"
    using Cons.prems(1) [of 0] by simp
  have "char_byte c \<noteq> 0"
  proof
    assume "char_byte c = 0"
    then have "byte_char (char_byte c) = byte_char 0" by simp
    then have "c = CHR 0x00" by (simp only: byte_char_char_byte byte_char_0)
    with Cons.prems(3) show False by simp
  qed
  moreover have "cstring_from m (Suc pos) (n - 1) = Inr s"
  proof (rule Cons.IH)
    fix i assume "i < length s"
    then show "m (Suc pos + i) = char_byte (s ! i)"
      using Cons.prems(1) [of "Suc i"] by simp
  qed (use Cons.prems in auto)
  ultimately show ?case
    using Cons.prems(4) c by (subst cstring_from.simps) simp
qed

lemma get_bytes_nth: "i < n \<Longrightarrow> get_bytes m off n ! i = m (off + i)"
  by (simp add: get_bytes_def)

lemma read_value_written:
  assumes "value_readable v" and "pos + type_width (value_type v) \<le> page_data_size"
    and "get_bytes m pos (type_width (value_type v)) = value_bytes v"
  shows "read_value m pos (value_type v) = Inr (v, type_width (value_type v))"
proof (cases v)
  case (VString s)
  with assms have len: "length s < 500" "CHR 0x00 \<notin> set s" "pos + 500 \<le> 4096"
    and bytes: "get_bytes m pos 500 = map char_byte s @ replicate (500 - length s) 0" by simp_all
  have at: "m (pos + i) = (map char_byte s @ replicate (500 - length s) 0) ! i" if "i < 500" for i
    using bytes get_bytes_nth [OF that, of m pos] by simp
  have "read_cstring m pos = Inr s"
    unfolding read_cstring_def
  proof (rule cstring_from_written)
    fix i assume "i < length s"
    then show "m (pos + i) = char_byte (s ! i)"
      using at [of i] len by (simp add: nth_append)
  qed (use at [of "length s"] len in \<open>auto simp: nth_append\<close>)
  then show ?thesis using VString by simp
next
  case (VInt i)
  with assms show ?thesis
    using int_bits_lt [of i] by (simp add: read_int32_def get_nat_def)
next
  case (VFloat f)
  have "unat f mod 4294967296 = unat f"
    using unsigned_less [of f, where ?'a = nat] by simp
  with VFloat assms show ?thesis
    by (simp add: read_int32_def get_nat_def)
qed

lemma read_row_written:
  "row_readable row \<Longrightarrow> pos + row_width row \<le> page_data_size \<Longrightarrow>
   get_bytes m pos (row_width row) = row_bytes row \<Longrightarrow> read_row m pos (row_types row) = Inr row"
proof (induction row arbitrary: pos)
  case Nil
  then show ?case by simp
next
  case (Cons v vs)
  let ?w = "type_width (value_type v)"
  have "get_bytes m pos ?w @ get_bytes m (pos + ?w) (row_width vs) = value_bytes v @ row_bytes vs"
    using Cons.prems(3) by (simp add: get_bytes_add)
  moreover have "length (get_bytes m pos ?w) = length (value_bytes v)"
    using Cons.prems(1) by (simp add: length_value_bytes readable_fits)
  ultimately have "get_bytes m pos ?w = value_bytes v"
    and "get_bytes m (pos + ?w) (row_width vs) = row_bytes vs" by (auto simp: append_eq_append_conv)
  moreover from this have "read_value m pos (value_type v) = Inr (v, ?w)"
    using Cons.prems by (intro read_value_written) auto
  ultimately show ?case
    using Cons by simp
qed

end
