(* ===== verification/Heap_Page.thy ===== *)
theory Heap_Page
  imports Heap_Writer
begin

text \<open>
  Correctness of \<open>heap_write\<close> on one page: the invariant of a heap page (rows packed downwards
  from the end of the payload, one slot per row), that a successful write keeps it, stores the
  row readably and leaves every earlier row alone, and what the two error exits leave behind.
\<close>

section \<open>The page invariant\<close>

text \<open>The page as \<open>heap_write\<close> sees it: a page never used is initialised first.\<close>

definition prepared :: "mem \<Rightarrow> mem" where
  "prepared m = (if hp_is_initialized m then m else initialize m)"

definition slots_packed :: "mem \<Rightarrow> bool" where
  "slots_packed m \<longleftrightarrow>
     (\<forall>i < nat (hp_slot_count m).
        0 \<le> slot_size (hp_slot m i) \<and>
        hp_free_size m \<le> int (slot_offset (hp_slot m i)) \<and>
        int (slot_offset (hp_slot m i)) + slot_size (hp_slot m i) \<le>
          (if i = 0 then int HEAP_PAYLOAD_SIZE else int (slot_offset (hp_slot m (i - 1)))))"

definition heap_page_inv :: "mem \<Rightarrow> bool" where
  "heap_page_inv m \<longleftrightarrow>
     hp_is_initialized m \<and>
     0 \<le> hp_slot_count m \<and> hp_slot_count m \<le> int MAX_SLOTS \<and>
     0 \<le> hp_free_size m \<and> hp_free_size m \<le> int HEAP_PAYLOAD_SIZE \<and>
     slots_packed m"

lemma heap_page_inv_initialize: "heap_page_inv (initialize m)"
  by (simp add: heap_page_inv_def slots_packed_def mem_simps)

lemma prepared_initialized [simp]: "hp_is_initialized (prepared m)"
  by (simp add: prepared_def mem_simps)

section \<open>A successful write\<close>

text \<open>The page after a successful write, as one expression.\<close>

definition page_after_write :: "row_t \<Rightarrow> mem \<Rightarrow> mem" where
  "page_after_write row m =
     (let i = nat (hp_slot_count m); off = nat (hp_free_size m) - row_width row in
      put_bytes (heap_data + off) (row_bytes row)
        (set_slot_deleted i False
          (set_slot_offset i off
            (set_free_size (int off)
              (set_slot_size i (int (row_width row))
                (set_slot_count (hp_slot_count m + 1) m))))))"

definition slot_of_write :: "row_t \<Rightarrow> mem \<Rightarrow> Slot" where
  "slot_of_write row m =
     \<lparr>slot_size = int (row_width row), slot_offset = nat (hp_free_size m) - row_width row,
      deleted = False\<rparr>"

definition room_for :: "row_t \<Rightarrow> mem \<Rightarrow> bool" where
  "room_for row m \<longleftrightarrow>
     hp_slot_count m < int MAX_SLOTS \<and> int (row_width row) \<le> hp_free_size m"

lemma heap_write_ok:
  assumes "heap_page_inv (prepared m)" and "row_fits row" and "room_for row (prepared m)"
    and "sum_list sizes = row_width row"
  shows "heap_write row sizes m =
    (Inr (slot_of_write row (prepared m)), page_after_write row (prepared m))"
proof -
  define p where "p = prepared m"
  define w where "w = row_width row"
  define f where "f = nat (hp_free_size p)"
  define i where "i = nat (hp_slot_count p)"
  have f: "hp_free_size p = int f" and fb: "f \<le> 4015" and wf: "w \<le> f"
    using assms(1,3) by (auto simp: heap_page_inv_def room_for_def f_def w_def p_def)
  have i: "hp_slot_count p = int i" and ib: "i < 10"
    using assms(1,3) by (auto simp: heap_page_inv_def room_for_def i_def p_def)
  define off where "off = f - w"
  define m1 where "m1 = set_slot_size i (int w) (set_slot_count (int i + 1) p)"
  define m2 where "m2 = set_free_size (int off) m1"
  define m3 where "m3 = set_slot_deleted i False (set_slot_offset i off m2)"
  define m4 where "m4 = put_bytes (heap_data + off) (row_bytes row) m3"
  note m_defs = m1_def m2_def m3_def m4_def
  have ob: "off \<le> 4015" and diff: "int f - int w = int off" and le: "int w \<le> int f"
    using fb wf by (auto simp: off_def)
  have range: "int_range (int w)" "int_range (int off)"
    using fb wf ob by (auto simp: int_range_def)
  have fm: "int f mod 2 ^ 64 = int f" and om: "int off mod 65536 = int off"
    using fb ob by (auto intro: mod_pos_pos_trivial)
  have free: "hp_free_size m1 = int f" "hp_free_size m2 = int off"
    using range by (simp_all add: m_defs mem_simps f)
  have slot: "hp_slot m3 i = \<lparr>slot_size = int w, slot_offset = off, deleted = False\<rparr>"
    using range ob by (simp add: m_defs mem_simps)
  have wr: "write_row (heap_data + off) row m3 = (Inr (), m4)"
    unfolding m4_def using assms(2) wf fb by (intro write_row_ok) (auto simp: w_def off_def)
  have fin: "hp_slot m4 i = hp_slot m3 i"
    using ib unfolding m4_def by (simp add: mem_simps)
  have "heap_write row sizes m = (Inr (hp_slot m4 i), m4)"
    using ib le
    by (simp add: heap_write_def prepared_def [symmetric] p_def [symmetric] i assms(4)
        w_def [symmetric] Let_def m1_def [symmetric] free fm [simplified] diff m2_def [symmetric]
        om m3_def [symmetric] slot bindS_def wr [simplified])
  then show ?thesis
    unfolding fin slot
    by (simp add: slot_of_write_def page_after_write_def Let_def m_defs off_def w_def
        f_def i_def i [symmetric] flip: p_def) (simp add: i_def [symmetric] i)
qed

section \<open>The error exits\<close>

text \<open>No slot is left: the page is as it was (initialised if it was not).\<close>

lemma heap_write_slots_full:
  assumes "int MAX_SLOTS \<le> hp_slot_count (prepared m)"
  shows "heap_write row sizes m = (Inl (Runtime ''Slots Full''), prepared m)"
  using assms by (simp add: heap_write_def prepared_def [symmetric])

text \<open>
  No room in the payload: the slot count has been raised and the size of the new slot stored
  when the exception leaves.
\<close>

definition page_after_space_full :: "nat \<Rightarrow> mem \<Rightarrow> mem" where
  "page_after_space_full w m =
     set_slot_size (nat (hp_slot_count m)) (int w) (set_slot_count (hp_slot_count m + 1) m)"

lemma heap_write_space_full:
  assumes "heap_page_inv (prepared m)" and "hp_slot_count (prepared m) < int MAX_SLOTS"
    and "hp_free_size (prepared m) < int (sum_list sizes)"
  shows "heap_write row sizes m =
    (Inl (Runtime ''HEAP PAGE SPACE FULL''), page_after_space_full (sum_list sizes) (prepared m))"
proof -
  let ?p = "prepared m"
  have "0 \<le> hp_slot_count ?p" "0 \<le> hp_free_size ?p" "hp_free_size ?p \<le> 4015"
    using assms(1) by (simp_all add: heap_page_inv_def)
  moreover from this have "hp_free_size ?p mod 18446744073709551616 = hp_free_size ?p"
    by (intro mod_pos_pos_trivial) auto
  ultimately show ?thesis
    using assms(2,3)
    by (simp add: heap_write_def prepared_def [symmetric] Let_def mem_simps page_after_space_full_def)
qed

text \<open>Every branch of \<open>heap_write\<close> on a well-formed page.\<close>

lemma heap_write_cases:
  assumes "heap_page_inv (prepared m)" and "row_fits row" and "sum_list sizes = row_width row"
  shows "heap_write row sizes m =
    (if int MAX_SLOTS \<le> hp_slot_count (prepared m)
     then (Inl (Runtime ''Slots Full''), prepared m)
     else if hp_free_size (prepared m) < int (row_width row)
     then (Inl (Runtime ''HEAP PAGE SPACE FULL''), page_after_space_full (row_width row) (prepared m))
     else (Inr (slot_of_write row (prepared m)), page_after_write row (prepared m)))"
  using assms heap_write_slots_full heap_write_space_full [OF assms(1), of sizes row]
    heap_write_ok [OF assms(1,2) _ assms(3)]
  by (simp add: room_for_def)

lemma heap_write_Inr:
  assumes "heap_page_inv (prepared m)" and "row_fits row" and "sum_list sizes = row_width row"
    and "heap_write row sizes m = (Inr s, m')"
  shows "room_for row (prepared m)" and "s = slot_of_write row (prepared m)"
    and "m' = page_after_write row (prepared m)"
  using assms(4) unfolding heap_write_cases [OF assms(1-3)]
  by (auto simp: room_for_def split: if_splits)

section \<open>What a successful write keeps\<close>

lemma page_after_write_fields:
  assumes "heap_page_inv m" and "room_for row m"
  shows "hp_is_initialized (page_after_write row m)"
    and "hp_slot_count (page_after_write row m) = hp_slot_count m + 1"
    and "hp_free_size (page_after_write row m) = hp_free_size m - int (row_width row)"
    and "hp_lsn (page_after_write row m) = hp_lsn m"
    and "hp_slot (page_after_write row m) (nat (hp_slot_count m)) = slot_of_write row m"
    and "j < MAX_SLOTS \<Longrightarrow> j \<noteq> nat (hp_slot_count m) \<Longrightarrow>
         hp_slot (page_after_write row m) j = hp_slot m j"
proof -
  have b: "hp_is_initialized m" "0 \<le> hp_slot_count m" "hp_slot_count m < 10"
    "int (row_width row) \<le> hp_free_size m" "hp_free_size m \<le> 4015"
    using assms by (auto simp: heap_page_inv_def room_for_def)
  define off where "off = nat (hp_free_size m) - row_width row"
  have io: "int off = hp_free_size m - int (row_width row)"
    using b(4) unfolding off_def by linarith
  then have ob: "off \<le> 4015" and wb: "row_width row \<le> 4015"
    using b(4,5) by linarith+
  then have om: "off mod 65536 = off"
    by (intro mod_less) linarith
  have ir: "int_range (int off)" "int_range (int (row_width row))" "int_range (hp_slot_count m + 1)"
    using ob wb b(2,3) by (simp_all add: int_range_small)
  have nb: "nat (hp_slot_count m) < 10"
    using b(3) by linarith
  note o = io ob om ir nb
  show "hp_is_initialized (page_after_write row m)"
    "hp_slot_count (page_after_write row m) = hp_slot_count m + 1"
    "hp_free_size (page_after_write row m) = hp_free_size m - int (row_width row)"
    "hp_lsn (page_after_write row m) = hp_lsn m"
    "hp_slot (page_after_write row m) (nat (hp_slot_count m)) = slot_of_write row m"
    using b o by (simp_all add: page_after_write_def slot_of_write_def Let_def mem_simps
        flip: off_def)
  show "j < MAX_SLOTS \<Longrightarrow> j \<noteq> nat (hp_slot_count m) \<Longrightarrow>
      hp_slot (page_after_write row m) j = hp_slot m j"
    using b o by (simp add: page_after_write_def Let_def mem_simps flip: off_def)
qed

lemma page_after_write_inv:
  assumes "heap_page_inv m" and "room_for row m"
  shows "heap_page_inv (page_after_write row m)"
proof -
  note f = page_after_write_fields [OF assms]
  have b: "0 \<le> hp_slot_count m" "hp_slot_count m < 10"
    "int (row_width row) \<le> hp_free_size m" "hp_free_size m \<le> 4015"
    and pk: "slots_packed m"
    using assms by (auto simp: heap_page_inv_def room_for_def)
  define n where "n = nat (hp_slot_count m)"
  have n: "hp_slot_count m = int n" "n < 10" "nat (hp_slot_count m) = n"
    using b by (auto simp: n_def)
  have same: "hp_slot (page_after_write row m) j = hp_slot m j" if "j < n" for j
    using f(6) [of j] that n(2) unfolding n(3) by simp
  have "slots_packed (page_after_write row m)"
    unfolding slots_packed_def
  proof (intro allI impI)
    fix i
    assume "i < nat (hp_slot_count (page_after_write row m))"
    then have "i < n \<or> i = n" using f(2) n by auto
    then show "0 \<le> slot_size (hp_slot (page_after_write row m) i) \<and>
        hp_free_size (page_after_write row m) \<le> int (slot_offset (hp_slot (page_after_write row m) i)) \<and>
        int (slot_offset (hp_slot (page_after_write row m) i)) + slot_size (hp_slot (page_after_write row m) i)
          \<le> (if i = 0 then int HEAP_PAYLOAD_SIZE
              else int (slot_offset (hp_slot (page_after_write row m) (i - 1))))"
    proof
      assume i: "i < n"
      then have "0 \<le> slot_size (hp_slot m i) \<and> hp_free_size m \<le> int (slot_offset (hp_slot m i)) \<and>
          int (slot_offset (hp_slot m i)) + slot_size (hp_slot m i)
            \<le> (if i = 0 then int HEAP_PAYLOAD_SIZE else int (slot_offset (hp_slot m (i - 1))))"
        using pk unfolding slots_packed_def n(3) by blast
      then show ?thesis
        using i same [of i] same [of "i - 1"] f(3) by auto
    next
      assume i: "i = n"
      have new: "hp_slot (page_after_write row m) i = slot_of_write row m"
        using f(5) i unfolding n(3) by simp
      have "hp_free_size m \<le> (if i = 0 then 4015 else int (slot_offset (hp_slot m (i - 1))))"
        using pk i b(4) unfolding slots_packed_def n(3) by (auto dest: spec [of _ "i - 1"])
      then show ?thesis
        using new same [of "i - 1"] i b f(3) by (auto simp: slot_of_write_def)
    qed
  qed
  then show ?thesis
    using f b by (simp add: heap_page_inv_def)
qed

lemma page_after_write_payload:
  assumes "heap_page_inv m" and "room_for row m" and "row_fits row"
    and "i < MAX_SLOTS" and "int (slot_offset (hp_slot m i)) \<ge> hp_free_size m"
  shows "get_bytes (page_after_write row m) (heap_data + slot_offset (hp_slot m i)) n =
    get_bytes m (heap_data + slot_offset (hp_slot m i)) n"
proof -
  have "nat (hp_free_size m) - row_width row + row_width row \<le> slot_offset (hp_slot m i)"
    "nat (hp_slot_count m) < 10"
    using assms by (auto simp: room_for_def heap_page_inv_def)
  then show ?thesis
    using assms(3) by (simp add: page_after_write_def Let_def mem_simps length_row_bytes)
qed

end
