(* ===== verification/Wal.thy ===== *)
theory Wal
  imports Buffer_Store Heap_Page
begin

text \<open>
  The write-ahead log (\<open>src/wal/wal.cpp\<close>): serialising a row, committing an insertion, reading
  the last LSN when the log is opened, and replaying the log.  The log file is the one of the
  pool's disk operator; \<open>wal_mutex\<close> and \<open>buffer_pool_lock\<close> make each of these calls one step.
\<close>

section \<open>State and codec\<close>

record wal_db =
  pool :: buffer_pool
  LSN :: nat

definition on_pool :: "(buffer_pool, 'a) action \<Rightarrow> (wal_db, 'a) action" where
  "on_pool m s = (case m (pool s) of (r, p) \<Rightarrow> (r, s\<lparr>pool := p\<rparr>))"

fun serialize_value :: "VALUE_TYPE \<Rightarrow> byte list" where
  "serialize_value (VInt v) = le_bytes 4 (int_bits v)"
| "serialize_value (VFloat f) = le_bytes 4 (unat f)"
| "serialize_value (VString s) =
     (let copy_size = min (length s) STRING_MAX_SIZE in
      map char_byte (take copy_size s) @ replicate (STRING_MAX_SIZE - copy_size) 0)"

definition serialize_row :: "row_t \<Rightarrow> byte list" where
  "serialize_row row = concat (map serialize_value row)"

definition decode_entry :: "byte list \<Rightarrow> WAL_entry" where
  "decode_entry bs =
     \<lparr>entry_lsn = le_value (take 8 bs),
      entry_rid =
        \<lparr>rid_pid = bits_int (le_value (take 4 (drop 8 bs))),
         rid_slot =
           \<lparr>slot_size = bits_int (le_value (take 4 (drop 12 bs))),
            slot_offset = le_value (take 2 (drop 16 bs)),
            deleted = (bs ! 18 \<noteq> 0)\<rparr>\<rparr>,
      row_size = le_value (take 4 (drop 20 bs))\<rparr>"

section \<open>Operations\<close>

text \<open>The constructor: the LSN of the record the header points to, 0 if it points nowhere.\<close>

definition initial_lsn :: "byte list \<Rightarrow> nat" where
  "initial_lsn f =
     (if length f < WAL_HEADER_SIZE then 0
      else
        let last_entry_offset = le_value (take 8 f) in
        if last_entry_offset < WAL_HEADER_SIZE \<or> length f \<le> last_entry_offset then 0
        else if last_entry_offset + sizeof_WAL_entry \<le> length f
        then entry_lsn (decode_entry (take sizeof_WAL_entry (drop last_entry_offset f)))
        else 0)"

definition open_wal :: "buffer_pool \<Rightarrow> wal_db" where
  "open_wal p = \<lparr>pool = p, LSN = initial_lsn (wal_file (disk_operator p))\<rparr>"

text \<open>
  The shared tail of \<open>CommitTransaction\<close> and \<open>apply_redo\<close>: fetch the page, change its bytes,
  write it to disk, clear the dirty bit, un-pin; the handler un-pins and rethrows.
\<close>

definition change_page :: "int \<Rightarrow> (mem, unit) action \<Rightarrow> (buffer_pool, unit) action" where
  "change_page pid m =
     bindS (page_access pid HEAP_PAGE) (\<lambda>i.
     rethrowS
       (bindS (through_page i m) (\<lambda>_.
        bindS (dp_write_page i HEAP_PAGE) (\<lambda>_.
        bindS (set_dirty i False) (\<lambda>_.
        un_pin pid HEAP_PAGE))))
       (un_pin pid HEAP_PAGE))"

definition CommitTransaction :: "RID \<Rightarrow> row_t \<Rightarrow> (wal_db, unit) action" where
  "CommitTransaction rid row =
     (let bs = serialize_row row in
      if slot_size (rid_slot rid) < 0 \<or> int (length bs) \<noteq> slot_size (rid_slot rid)
      then throwS (Runtime ''Serialized WAL row size does not match slot size'')
      else if HEAP_PAYLOAD_SIZE < slot_offset (rid_slot rid) + length bs
      then throwS (Runtime ''WAL row exceeds heap page payload'')
      else
        bindS (getS (\<lambda>s. (LSN s + 1) mod 2 ^ 64)) (\<lambda>next_lsn.
        if 65535 < next_lsn
        then throwS (Overflow_error ''Page LSN exceeds its 16-bit on-page representation'')
        else
          bindS (on_pool (dp_write_to_wal
            \<lparr>entry_lsn = next_lsn, entry_rid = rid, row_size = length bs mod 2 ^ 32\<rparr> bs)) (\<lambda>_.
          bindS (putS (\<lambda>s. s\<lparr>LSN := next_lsn\<rparr>)) (\<lambda>_.
          on_pool (change_page (rid_pid rid) (putS (set_lsn next_lsn)))))))"

definition apply_redo :: "RID \<Rightarrow> byte list \<Rightarrow> nat \<Rightarrow> (buffer_pool, unit) action" where
  "apply_redo rid payload record_lsn =
     change_page (rid_pid rid)
       (bindS
         (if 0 < slot_size (rid_slot rid)
          then write_at (heap_data + slot_offset (rid_slot rid)) (take (nat (slot_size (rid_slot rid))) payload)
          else returnS ()) (\<lambda>_.
        putS (set_lsn record_lsn)))"

text \<open>One look at the page a record is for: is its LSN behind the record's?\<close>

definition needs_redo :: "WAL_entry \<Rightarrow> (buffer_pool, bool) action" where
  "needs_redo record =
     bindS (page_access (rid_pid (entry_rid record)) HEAP_PAGE) (\<lambda>i.
     bindS (getS (page_of i)) (\<lambda>m.
     bindS (un_pin (rid_pid (entry_rid record)) HEAP_PAGE) (\<lambda>_.
     returnS (hp_lsn m < entry_lsn record))))"

text \<open>The conditions under which the replay loop stops at a record.\<close>

definition bad_record :: "nat \<Rightarrow> nat \<Rightarrow> WAL_entry \<Rightarrow> bool" where
  "bad_record file_size payload_offset record \<longleftrightarrow>
     file_size - payload_offset < row_size record \<or>
     slot_size (rid_slot (entry_rid record)) < 0 \<or>
     int (row_size record) \<noteq> slot_size (rid_slot (entry_rid record)) \<or>
     65535 < entry_lsn record \<or>
     HEAP_PAYLOAD_SIZE < slot_offset (rid_slot (entry_rid record)) + row_size record"

function replay_loop :: "byte list \<Rightarrow> nat \<Rightarrow> nat \<Rightarrow> (buffer_pool, unit) action" where
  "replay_loop f last_entry_offset offset s =
     (if last_entry_offset < offset then (Inr (), s)
      else if length f < offset \<or> length f - offset < sizeof_WAL_entry then (Inr (), s)
      else
        let record = decode_entry (take sizeof_WAL_entry (drop offset f));
            payload_offset = offset + sizeof_WAL_entry in
        if bad_record (length f) payload_offset record then (Inr (), s)
        else
          let row = take (row_size record) (drop payload_offset f) in
          bindS (needs_redo record) (\<lambda>redo.
          bindS (if redo then apply_redo (entry_rid record) row (entry_lsn record) else returnS ()) (\<lambda>_.
          replay_loop f last_entry_offset (payload_offset + row_size record))) s)"
  by pat_completeness auto
termination
  by (relation "measure (\<lambda>(f, last, offset, s). Suc (length f) - offset)") auto

declare replay_loop.simps [simp del]

definition ReplayTransaction :: "(wal_db, unit) action" where
  "ReplayTransaction =
     bindS (getS (\<lambda>s. wal_file (disk_operator (pool s)))) (\<lambda>f.
     if length f < WAL_HEADER_SIZE then returnS ()
     else
       let last_entry_offset = le_value (take 8 f) in
       if last_entry_offset < WAL_HEADER_SIZE \<or> length f \<le> last_entry_offset then returnS ()
       else on_pool (replay_loop f last_entry_offset WAL_HEADER_SIZE))"

section \<open>Rows on the page and rows in the log\<close>

text \<open>A row that fits its columns has the same bytes in the log as on the page.\<close>

lemma serialize_value_fits: "value_fits v \<Longrightarrow> serialize_value v = value_bytes v"
  by (cases v) auto

lemma serialize_row_fits: "row_fits row \<Longrightarrow> serialize_row row = row_bytes row"
  by (induction row) (auto simp: serialize_row_def serialize_value_fits)

text \<open>Whatever the strings are, the payload has the fixed width of the row's types.\<close>

lemma length_serialize_row: "length (serialize_row row) = row_width row"
proof (induction row)
  case Nil
  then show ?case by (simp add: serialize_row_def)
next
  case (Cons v row)
  have "length (serialize_value v) = type_width (value_type v)"
    by (cases v) (auto simp: Let_def)
  with Cons show ?case by (simp add: serialize_row_def)
qed

section \<open>Records survive encoding\<close>

definition entry_ok :: "WAL_entry \<Rightarrow> bool" where
  "entry_ok e \<longleftrightarrow>
     entry_lsn e < 2 ^ 64 \<and> row_size e < 2 ^ 32 \<and> int_range (rid_pid (entry_rid e)) \<and>
     int_range (slot_size (rid_slot (entry_rid e))) \<and> slot_offset (rid_slot (entry_rid e)) < 2 ^ 16"

lemma drop_le_bytes_append: "drop (n + k) (le_bytes n v @ xs) = drop k xs"
  by simp

lemma decode_entry_image:
  assumes "entry_ok e"
  shows "decode_entry (entry_image e) = e"
proof -
  let ?r = "entry_rid e"
  let ?s = "rid_slot ?r"
  have img: "entry_image e = le_bytes 8 (entry_lsn e) @ le_bytes 4 (int_bits (rid_pid ?r)) @
      le_bytes 4 (int_bits (slot_size ?s)) @ le_bytes 2 (slot_offset ?s) @
      [if deleted ?s then 1 else 0] @ [0] @ le_bytes 4 (row_size e)"
    by (simp add: entry_image_def rid_image_def slot_image_def)
  have d: "drop 8 (entry_image e) = le_bytes 4 (int_bits (rid_pid ?r)) @
      le_bytes 4 (int_bits (slot_size ?s)) @ le_bytes 2 (slot_offset ?s) @
      [if deleted ?s then 1 else 0] @ [0] @ le_bytes 4 (row_size e)"
    "drop 12 (entry_image e) = le_bytes 4 (int_bits (slot_size ?s)) @ le_bytes 2 (slot_offset ?s) @
      [if deleted ?s then 1 else 0] @ [0] @ le_bytes 4 (row_size e)"
    "drop 16 (entry_image e) = le_bytes 2 (slot_offset ?s) @
      [if deleted ?s then 1 else 0] @ [0] @ le_bytes 4 (row_size e)"
    "drop 20 (entry_image e) = le_bytes 4 (row_size e)"
    "entry_image e ! 18 = (if deleted ?s then 1 else 0)"
    unfolding img by (simp_all add: nth_append)
  have t: "take 8 (entry_image e) = le_bytes 8 (entry_lsn e)"
    unfolding img by simp
  show ?thesis
    using assms int_bits_lt [of "rid_pid ?r"] int_bits_lt [of "slot_size ?s"]
    unfolding decode_entry_def t d by (simp add: entry_ok_def)
qed

section \<open>Looking at a page and changing it\<close>

lemma change_page_shape:
  assumes h: "healthy s" and v: "valid_page HEAP_PAGE pid" and m: "\<And>p. m p = (Inr (), f p)"
  shows "change_page pid m s =
    bindS (heap_access pid) (\<lambda>i. bindS (getS (page_of i)) (\<lambda>p.
      bindS (write_through HEAP_PAGE i (f p)) (\<lambda>_. heap_release pid))) s"
proof (cases "heap_access pid s")
  case (Pair r t)
  show ?thesis
  proof (cases r)
    case (Inl e)
    then show ?thesis using Pair by (simp add: change_page_def bindS_def)
  next
    case (Inr i)
    have a: "accessed s pid HEAP_PAGE i t"
      using page_access_Inr [OF h v] Pair Inr by simp
    then have t: "healthy t" "holds_page t HEAP_PAGE pid i"
      using accessed_holds [OF a] by (simp_all add: accessed_def)
    note w = write_through_ok [OF t(1) v t(2), of "f (page_of i t)"]
    define u where "u = rewritten i (f (page_of i t)) False t"
    have u: "healthy u" "holds_page u HEAP_PAGE pid i"
      using holds_page_occupied [OF t(1) v t(2)] rewritten_healthy [OF t(1)]
        holds_page_rewritten [OF t] by (auto simp: u_def)
    have inner: "bindS (through_page i m) (\<lambda>_. bindS (dp_write_page i HEAP_PAGE) (\<lambda>_.
        bindS (set_dirty i False) k)) t = k () u" for k :: "unit \<Rightarrow> (buffer_pool, unit) action"
      using w by (auto simp: write_through_def bindS_def through_page_def m u_def
          split: prod.splits sum.splits)
    show ?thesis
      using Pair Inr w inner [of "\<lambda>_. un_pin pid HEAP_PAGE"] un_pin_ok(1) [OF u(1) v u(2)]
      by (simp add: change_page_def rethrowS_def u_def bindS_step)
  qed
qed

text \<open>The page and nothing else, in the pool's view, and only when the call succeeds.\<close>

lemma change_page_ok:
  assumes h: "healthy s" and v: "valid_page HEAP_PAGE pid" and m: "\<And>p. m p = (Inr (), f p)"
    and r: "change_page pid m s = (r, t)"
  shows "healthy t" and "pins t = pins s"
    and "valid_page HEAP_PAGE q \<Longrightarrow> r = Inr () \<Longrightarrow>
      heap_view t q = (if q = pid then f (heap_view s pid) else heap_view s q)"
    and "valid_page HEAP_PAGE q \<Longrightarrow> r = Inl e \<Longrightarrow> heap_view t q = heap_view s q"
    and "r = Inl e \<Longrightarrow> exhausted (pins s)"
  using pool.update [OF h v r [unfolded change_page_shape [OF h v m]]] by blast+

lemma needs_redo_ok:
  assumes h: "healthy s" and v: "valid_page HEAP_PAGE (rid_pid (entry_rid e))"
    and r: "needs_redo e s = (r, t)"
  shows "healthy t" and "valid_page HEAP_PAGE q \<Longrightarrow> heap_view t q = heap_view s q" and "pins t = pins s"
    and "r = Inr b \<Longrightarrow> b = (hp_lsn (heap_view s (rid_pid (entry_rid e))) < entry_lsn e)"
    and "r = Inl x \<Longrightarrow> exhausted (pins s)"
  using pool.look [OF h v r [unfolded needs_redo_def]] by auto

text \<open>The log file is untouched by page traffic.\<close>

definition wal_of :: "buffer_pool \<Rightarrow> byte list" where
  "wal_of s = wal_file (disk_operator s)"

lemma keeps_on_disk:
  assumes "keeps (\<lambda>d. P (wal_file d)) m"
  shows "keeps (\<lambda>s. P (wal_of s)) (on_disk m)"
  using assms by (auto simp: keeps_def on_disk_def wal_of_def split: prod.splits)

lemma keeps_wal_page_io [inv_intros]:
  "keeps (\<lambda>d. P (wal_file d)) (read_page pid ty)"
  "keeps (\<lambda>d. P (wal_file d)) (write_page pid m ty)"
  unfolding read_page_def write_page_def sys_check_def
  by (auto intro!: inv_intros keeps_sys_call keeps_putS)

lemma keeps_wal_upd_frame [inv_intros]: "keeps (\<lambda>s. P (wal_of s)) (putS (upd_frame i f))"
  by (simp add: keeps_def upd_frame_def wal_of_def)

lemma keeps_wal_putS: "(\<And>s. disk_operator (g s) = disk_operator s) \<Longrightarrow> keeps (\<lambda>s. P (wal_of s)) (putS g)"
  by (simp add: keeps_def wal_of_def)

lemma wal_of_replacement_loop: "wal_of (snd (replacement_loop k s)) = wal_of s"
proof (induction k s rule: replacement_loop.induct)
  case (1 k s)
  have evict: "keeps (\<lambda>u. wal_of u = w) (bindS
      (if table u0 key \<noteq> None
       then bindS (if b then on_disk (write_page pid m ty) else returnS ()) (\<lambda>_.
         putS (\<lambda>p. p\<lparr>table := (table p)(key := None)\<rparr>))
       else returnS ()) (\<lambda>_. bindS (putS (upd_frame i g)) (\<lambda>_. returnS i)))"
    for u0 w key b pid m ty i and g :: "Page \<Rightarrow> Page"
    by (intro inv_intros keeps_on_disk keeps_wal_putS) simp
  show ?case
  proof (cases "replacement_check_queue s")
    case Nil
    then show ?thesis by (simp add: replacement_loop.simps)
  next
    case (Cons fr rest)
    show ?thesis
    proof (cases "\<not> length (fr # rest) \<le> k \<and> \<not> length (frames s) \<le> fr \<and> pin_count (frames s ! fr) = 0")
      case True
      then have step: "replacement_loop k s = bindS
        (if table s (make_key (page_id (frames s ! fr)) (ptype (frames s ! fr))) \<noteq> None
         then bindS (if dirty_bit (frames s ! fr)
             then on_disk (write_page (page_id (frames s ! fr)) (page_data (frames s ! fr)) (ptype (frames s ! fr)))
             else returnS ()) (\<lambda>_. putS (\<lambda>p. p\<lparr>table :=
               (table p)(make_key (page_id (frames s ! fr)) (ptype (frames s ! fr)) := None)\<rparr>))
         else returnS ()) (\<lambda>_.
        bindS (putS (upd_frame fr (\<lambda>p. p\<lparr>page_id := INVALID_PAGE_ID, dirty_bit := False, pin_count := 0\<rparr>))) (\<lambda>_.
        returnS fr)) (s\<lparr>replacement_check_queue := rest\<rparr>)"
        using Cons by (simp add: replacement_loop.simps [of k s] Let_def)
      show ?thesis
        unfolding step by (rule evict [unfolded keeps_def, rule_format]) (simp add: wal_of_def)
    next
      case False
      then show ?thesis
        using Cons 1 [OF Cons] by (auto simp: replacement_loop.simps [of k s] Let_def wal_of_def)
    qed
  qed
qed

lemma keeps_wal_page_access [inv_intros]: "keeps (\<lambda>s. wal_of s = w) (page_access pid ty)"
proof (rule keepsI)
  fix s
  assume w: "wal_of s = w"
  have load: "keeps (\<lambda>s. wal_of s = w) (load_frame i pid ty)" for i
    unfolding load_frame_def by (intro inv_intros keeps_on_disk keeps_wal_putS) simp_all
  have check: "keeps (\<lambda>s. wal_of s = w) (frame_check i)" for i
    by (simp add: keeps_def frame_check_def)
  have repl: "keeps (\<lambda>s. wal_of s = w) (page_replacement_policy ty)"
    by (simp add: keeps_def page_replacement_policy_def wal_of_replacement_loop)
  have "keeps (\<lambda>s. wal_of s = w) (bindS (frame_check i) (\<lambda>_. bindS (putS (upd_frame i g)) (\<lambda>_. returnS i)))"
    "keeps (\<lambda>s. wal_of s = w) (bindS (putS (upd_frame i g)) (\<lambda>_. load_frame i pid ty))"
    "keeps (\<lambda>s. wal_of s = w) (bindS (page_replacement_policy ty) (\<lambda>i. bindS (putS (upd_frame i g)) (\<lambda>_. load_frame i pid ty)))"
    for i and g :: "Page \<Rightarrow> Page"
    by (intro inv_intros load check repl)+
  then show "wal_of (snd (page_access pid ty s)) = w"
    using w by (auto simp: page_access_def keeps_def split: option.split)
qed

lemma keeps_wal_un_pin [inv_intros]: "keeps (\<lambda>s. wal_of s = w) (un_pin pid ty)"
  by (auto simp: keeps_def un_pin_def frame_check_def bindS_def upd_frame_def wal_of_def
      split: option.split)

lemma wal_of_change_page:
  assumes "change_page pid m s = (r, t)"
  shows "wal_of t = wal_of s"
proof -
  have thr: "keeps (\<lambda>s. wal_of s = w) (through_page i m)" for i w
    by (auto simp: keeps_def through_page_def upd_frame_def wal_of_def split: prod.split)
  have wr: "keeps (\<lambda>s. wal_of s = w) (dp_write_page i ty)" for i w ty
    unfolding dp_write_page_def by (intro inv_intros keeps_on_disk)
  have sd: "keeps (\<lambda>s. wal_of s = w) (set_dirty i b)" for i w b
    unfolding set_dirty_def by (intro inv_intros)
  have "keeps (\<lambda>u. wal_of u = wal_of s) (change_page pid m)"
    unfolding change_page_def by (intro keeps_bindS keeps_rethrowS keeps_wal_page_access keeps_wal_un_pin thr wr sd)
  from keepsD [OF this _ assms] show ?thesis by simp
qed

section \<open>Committing a row\<close>

text \<open>The log of a sequence of records: a header that points to the last record, then the records.\<close>

type_synonym log_record = "WAL_entry \<times> byte list"

definition record_bytes :: "log_record \<Rightarrow> byte list" where
  "record_bytes r = entry_image (fst r) @ snd r"

definition log_body :: "log_record list \<Rightarrow> byte list" where
  "log_body rs = concat (map record_bytes rs)"

definition last_offset :: "log_record list \<Rightarrow> nat" where
  "last_offset rs = (if rs = [] then 0 else WAL_HEADER_SIZE + length (log_body (butlast rs)))"

definition log_file :: "log_record list \<Rightarrow> byte list" where
  "log_file rs = le_bytes 8 (last_offset rs) @ log_body rs"

definition record_ok :: "log_record \<Rightarrow> bool" where
  "record_ok r \<longleftrightarrow>
     entry_ok (fst r) \<and> entry_lsn (fst r) \<le> 65535 \<and> length (snd r) = row_size (fst r) \<and>
     slot_size (rid_slot (entry_rid (fst r))) = int (row_size (fst r)) \<and>
     slot_offset (rid_slot (entry_rid (fst r))) + row_size (fst r) \<le> HEAP_PAYLOAD_SIZE \<and>
     valid_page HEAP_PAGE (rid_pid (entry_rid (fst r)))"

definition commit_record :: "nat \<Rightarrow> RID \<Rightarrow> row_t \<Rightarrow> log_record" where
  "commit_record n rid row =
     (\<lparr>entry_lsn = n, entry_rid = rid, row_size = row_width row\<rparr>, serialize_row row)"

definition commit_ok :: "RID \<Rightarrow> row_t \<Rightarrow> bool" where
  "commit_ok rid row \<longleftrightarrow>
     slot_size (rid_slot rid) = int (row_width row) \<and>
     slot_offset (rid_slot rid) + row_width row \<le> HEAP_PAYLOAD_SIZE"

lemma length_record_bytes: "record_ok r \<Longrightarrow> length (record_bytes r) = 24 + row_size (fst r)"
  by (simp add: record_bytes_def record_ok_def)

lemma log_body_append [simp]: "log_body (rs @ rs') = log_body rs @ log_body rs'"
  by (simp add: log_body_def)

lemma log_body_simps [simp]:
  "log_body [] = []" "log_body (r # rs) = record_bytes r @ log_body rs"
  by (simp_all add: log_body_def)

text \<open>Appending a record and moving the header makes the log of one more record.\<close>

lemma log_file_append:
  "le_bytes 8 (length (log_file rs)) @ drop 8 (log_file rs) @ record_bytes r = log_file (rs @ [r])"
  by (simp add: log_file_def last_offset_def)

lemma log_file_length: "8 \<le> length (log_file rs)"
  by (simp add: log_file_def)

lemma commit_rejected:
  assumes "\<not> commit_ok rid row \<or> 65535 \<le> LSN s" and "LSN s < 2 ^ 64 - 1"
  shows "\<exists>e. CommitTransaction rid row s = (Inl e, s)"
  using assms by (auto simp: CommitTransaction_def commit_ok_def length_serialize_row Let_def)

lemma row_width_bound: "commit_ok rid row \<Longrightarrow> row_width row \<le> 4015"
  by (simp add: commit_ok_def)

text \<open>An accepted commit is an append to the log, then a change of the page's LSN.\<close>

lemma commit_shape:
  assumes "commit_ok rid row" and "LSN s < 65535"
  shows "CommitTransaction rid row s =
    bindS (on_pool (dp_write_to_wal (fst (commit_record (LSN s + 1) rid row)) (serialize_row row))) (\<lambda>_.
    bindS (putS (\<lambda>s. s\<lparr>LSN := LSN s + 1\<rparr>)) (\<lambda>_.
    on_pool (change_page (rid_pid rid) (putS (set_lsn (LSN s + 1)))))) s"
proof -
  have m: "row_width row mod 2 ^ 32 = row_width row"
    using row_width_bound [OF assms(1)] by simp
  have n: "Suc (LSN s) mod 2 ^ 64 = Suc (LSN s)" using assms(2) by simp
  have k: "LSN u = LSN s" if "on_pool c s = (x, u)" for c :: "(buffer_pool, unit) action" and x u
    using that by (auto simp: on_pool_def split: prod.splits)
  show ?thesis
    using assms unfolding commit_ok_def
    by (auto simp: CommitTransaction_def length_serialize_row Let_def commit_record_def m n
        intro!: bindS_cong dest!: k simp del: power_numeral)
qed

lemma wal_of_simp: "wal_of (s\<lparr>disk_operator := d\<rparr>) = wal_file d"
  by (simp add: wal_of_def)

lemma same_frames_disk:
  assumes "healthy s" and "db_file d = db_file (disk_operator s)"
    and "index_file d = index_file (disk_operator s)" and "io_script d = []"
  shows "healthy (s\<lparr>disk_operator := d\<rparr>)"
    and "page_view (s\<lparr>disk_operator := d\<rparr>) ty pid = page_view s ty pid"
proof -
  have f: "page_file ty' d = page_file ty' (disk_operator s)" for ty'
    using assms(2,3) by (cases ty') auto
  then have v: "disk_page d ty' q = disk_page (disk_operator s) ty' q" for ty' q
    by (simp add: disk_page_def)
  have fields: "frames (s\<lparr>disk_operator := d\<rparr>) = frames s" "table (s\<lparr>disk_operator := d\<rparr>) = table s"
    "replacement_check_queue (s\<lparr>disk_operator := d\<rparr>) = replacement_check_queue s"
    "disk_operator (s\<lparr>disk_operator := d\<rparr>) = d" by simp_all
  have "pool_inv (s\<lparr>disk_operator := d\<rparr>) = pool_inv s"
    "coherent (s\<lparr>disk_operator := d\<rparr>) = coherent s"
    by (simp_all only: pool_inv_def coherent_def fields v)
  then show "healthy (s\<lparr>disk_operator := d\<rparr>)"
    using assms(1,4) by (simp add: healthy_def)
  show "page_view (s\<lparr>disk_operator := d\<rparr>) ty pid = page_view s ty pid"
    by (simp add: page_view_def v split: option.split)
qed

text \<open>The append alone: the log grows by the record, the pages are as they were.\<close>

definition logged :: "log_record \<Rightarrow> buffer_pool \<Rightarrow> buffer_pool" where
  "logged r p = p\<lparr>disk_operator := (disk_operator p)\<lparr>wal_file :=
     le_bytes 8 (length (wal_of p)) @ drop 8 (wal_of p) @ record_bytes r\<rparr>\<rparr>"

lemma logged_ok:
  assumes "healthy p"
  shows "healthy (logged r p)" and "page_view (logged r p) ty pid = page_view p ty pid"
    and "pins (logged r p) = pins p"
    and "wal_of p = log_file rs \<Longrightarrow> wal_of (logged r p) = log_file (rs @ [r])"
  using assms same_frames_disk [OF assms] log_file_append [of rs r]
  by (auto simp: logged_def healthy_def wal_of_simp pins_def)

lemma dp_write_to_wal_ok:
  assumes "healthy p" and "8 \<le> length (wal_of p)" and "length b = row_size e"
  shows "dp_write_to_wal e b p = (Inr (), logged (e, b) p)"
  using write_to_wal_ok [of "disk_operator p" b e] assms
  by (simp add: dp_write_to_wal_def on_disk_def healthy_def logged_def wal_of_def record_bytes_def)

lemma commit_result:
  assumes c: "commit_ok rid row" "LSN s < 65535"
    and h: "healthy (pool s)" "8 \<le> length (wal_of (pool s))"
  shows "CommitTransaction rid row s =
    (case change_page (rid_pid rid) (putS (set_lsn (LSN s + 1)))
       (logged (commit_record (LSN s + 1) rid row) (pool s)) of
     (r, p) \<Rightarrow> (r, \<lparr>pool = p, LSN = LSN s + 1\<rparr>))"
proof -
  let ?e = "fst (commit_record (LSN s + 1) rid row)"
  have "dp_write_to_wal ?e (serialize_row row) (pool s) =
      (Inr (), logged (?e, serialize_row row) (pool s))"
    using dp_write_to_wal_ok [OF h, of "serialize_row row" ?e]
    by (simp add: commit_record_def length_serialize_row)
  then show ?thesis
    unfolding commit_shape [OF c]
    by (auto simp: bindS_def on_pool_def commit_record_def split: prod.split)
qed

end
