(* ===== verification/Lock_Manager.thy ===== *)
theory Lock_Manager
  imports Storage_Types
begin

text \<open>
  \<open>LockManager\<close> (\<open>src/transaction_manager/lock_manager.cpp\<close>): transaction ids and the table of
  row locks.  \<open>lock_table_mutex\<close> makes each call one step on the table; a call that has to wait
  on the condition variable is \<open>Blocked\<close> and is tried again after the next release.
\<close>

section \<open>State\<close>

text \<open>The maps compare \<open>RID\<close>s by page number and slot offset, so their keys are these pairs.\<close>

type_synonym tid = "8 word"

type_synonym lock_key = "int \<times> nat"

record lock_manager =
  transaction_id_seed :: "16 word"
  lock_table_reverse :: "lock_key \<Rightarrow> tid option"
  lock_table :: "tid \<Rightarrow> lock_key set option"

definition new_lock_manager :: lock_manager where
  "new_lock_manager = \<lparr>transaction_id_seed = 0, lock_table_reverse = Map.empty, lock_table = Map.empty\<rparr>"

section \<open>Operations\<close>

definition get_transaction_id :: "(lock_manager, tid) action" where
  "get_transaction_id s = (Inr (ucast (transaction_id_seed s)), s\<lparr>transaction_id_seed := transaction_id_seed s + 1\<rparr>)"

definition AcquireLockFromLockTable :: "tid \<Rightarrow> RID option \<Rightarrow> (lock_manager, tid) action" where
  "AcquireLockFromLockTable tid rid s =
     (case rid of
        None \<Rightarrow> (Inr tid, s)
      | Some r \<Rightarrow>
          (case lock_table_reverse s (rid_key r) of
             Some owner \<Rightarrow> if owner \<noteq> tid then (Inl Blocked, s) else (Inr tid, s)
           | None \<Rightarrow>
               (Inr tid,
                s\<lparr>lock_table_reverse := (lock_table_reverse s)(rid_key r \<mapsto> tid),
                  lock_table := (lock_table s)(tid \<mapsto>
                    insert (rid_key r) (case lock_table s tid of None \<Rightarrow> {} | Some ks \<Rightarrow> ks))\<rparr>)))"

definition ReleaseLockFromLockTable :: "tid \<Rightarrow> (lock_manager, unit) action" where
  "ReleaseLockFromLockTable tid s =
     (case lock_table s tid of
        None \<Rightarrow> (Inr (), s)
      | Some owned \<Rightarrow>
          (Inr (),
           s\<lparr>lock_table_reverse := (\<lambda>k. if k \<in> owned \<and> lock_table_reverse s k = Some tid then None
               else lock_table_reverse s k),
             lock_table := (lock_table s)(tid := None)\<rparr>))"

section \<open>The two tables agree\<close>

definition owned :: "lock_manager \<Rightarrow> tid \<Rightarrow> lock_key set" where
  "owned s t = (case lock_table s t of None \<Rightarrow> {} | Some ks \<Rightarrow> ks)"

definition locks_ok :: "lock_manager \<Rightarrow> bool" where
  "locks_ok s \<longleftrightarrow> (\<forall>k t. lock_table_reverse s k = Some t \<longleftrightarrow> k \<in> owned s t)"

lemma locks_okD: "locks_ok s \<Longrightarrow> lock_table_reverse s k = Some t \<longleftrightarrow> k \<in> owned s t"
  unfolding locks_ok_def by blast

lemma locks_okI: "(\<And>k t. lock_table_reverse s k = Some t \<longleftrightarrow> k \<in> owned s t) \<Longrightarrow> locks_ok s"
  unfolding locks_ok_def by blast

lemma locks_ok_new: "locks_ok new_lock_manager"
  by (simp add: locks_ok_def owned_def new_lock_manager_def)

lemma acquire_tables:
  assumes "locks_ok m" "AcquireLockFromLockTable t (Some r) m = (Inr x, m')"
  shows "owned m' u = (if u = t then insert (rid_key r) (owned m u) else owned m u)"
    and "lock_table_reverse m' = (lock_table_reverse m)(rid_key r \<mapsto> t)"
    and "lock_table_reverse m (rid_key r) = None \<or> lock_table_reverse m (rid_key r) = Some t"
proof -
  have "rid_key r \<in> owned m t" if "lock_table_reverse m (rid_key r) = Some t"
    using that locks_okD [OF assms(1)] by blast
  then show "owned m' u = (if u = t then insert (rid_key r) (owned m u) else owned m u)"
    using assms(2) by (auto simp: AcquireLockFromLockTable_def owned_def split: option.splits if_splits)
  show "lock_table_reverse m' = (lock_table_reverse m)(rid_key r \<mapsto> t)"
    "lock_table_reverse m (rid_key r) = None \<or> lock_table_reverse m (rid_key r) = Some t"
    using assms(2) by (auto simp: AcquireLockFromLockTable_def split: option.splits if_splits)
qed

lemma locks_ok_acquire:
  assumes "locks_ok s" "AcquireLockFromLockTable t (Some r) s = (Inr x, s')"
  shows "locks_ok s'"
proof (rule locks_okI)
  fix k u
  show "lock_table_reverse s' k = Some u \<longleftrightarrow> k \<in> owned s' u"
    using locks_okD [OF assms(1), of k u] locks_okD [OF assms(1), of "rid_key r" u]
      acquire_tables [OF assms] by auto
qed

lemma release_tables:
  assumes "locks_ok s" "ReleaseLockFromLockTable t s = (x, s')"
  shows "owned s' u = (if u = t then {} else owned s u)"
    and "lock_table_reverse s' k = (if lock_table_reverse s k = Some t then None else lock_table_reverse s k)"
proof -
  have k: "lock_table_reverse s k = Some t \<longleftrightarrow> k \<in> owned s t" for k
    using locks_okD [OF assms(1)] .
  show "owned s' u = (if u = t then {} else owned s u)"
    using assms(2) by (auto simp: ReleaseLockFromLockTable_def owned_def split: option.splits)
  show "lock_table_reverse s' k = (if lock_table_reverse s k = Some t then None else lock_table_reverse s k)"
    using assms(2) k by (auto simp: ReleaseLockFromLockTable_def owned_def split: option.splits)
qed

lemma locks_ok_release:
  assumes "locks_ok s" "ReleaseLockFromLockTable t s = (x, s')"
  shows "locks_ok s'"
proof (rule locks_okI)
  fix k u
  show "lock_table_reverse s' k = Some u \<longleftrightarrow> k \<in> owned s' u"
    using locks_okD [OF assms(1), of k u] locks_okD [OF assms(1), of k t]
    by (auto simp: release_tables [OF assms])
qed

text \<open>Calls that take several locks, one after another, in a given order.\<close>

primrec lock_all :: "('k \<Rightarrow> ('s, 'r) action) \<Rightarrow> 'k list \<Rightarrow> ('s, unit) action" where
  "lock_all lock [] = returnS ()"
| "lock_all lock (k # ks) = bindS (lock k) (\<lambda>_. lock_all lock ks)"

section \<open>The interface of an exclusive lock table\<close>

locale exclusive_locks =
  fixes lock :: "'t \<Rightarrow> 'k \<Rightarrow> 's \<Rightarrow> 'r result \<times> 's"
    and unlock :: "'t \<Rightarrow> 's \<Rightarrow> unit result \<times> 's"
    and owner :: "'s \<Rightarrow> 'k \<Rightarrow> 't option"
    and ok :: "'s \<Rightarrow> bool"
  assumes lock_Inr: "ok s \<Longrightarrow> lock t k s = (Inr x, s') \<Longrightarrow>
      (owner s k = None \<or> owner s k = Some t) \<and> ok s' \<and> owner s' = (owner s)(k \<mapsto> t)"
    and lock_Inl: "ok s \<Longrightarrow> lock t k s = (Inl e, s') \<Longrightarrow>
      s' = s \<and> (\<exists>t'. owner s k = Some t' \<and> t' \<noteq> t)"
    and unlock_ok: "ok s \<Longrightarrow> \<exists>s'. unlock t s = (Inr (), s') \<and> ok s' \<and>
      owner s' = (\<lambda>k. if owner s k = Some t then None else owner s k)"
begin

lemma lock_granted_iff:
  assumes "ok s"
  shows "(\<exists>x s'. lock t k s = (Inr x, s')) \<longleftrightarrow> owner s k = None \<or> owner s k = Some t"
proof -
  obtain a s' where l: "lock t k s = (a, s')" by (cases "lock t k s")
  show ?thesis
  proof (cases a)
    case (Inl e)
    then show ?thesis using l lock_Inl [OF assms] by force
  next
    case (Inr x)
    then show ?thesis using l lock_Inr [OF assms] by auto
  qed
qed

text \<open>Two transactions never hold the same key: while one does, the other's call waits and
  changes nothing.\<close>

lemma lock_excludes:
  assumes "ok s" "lock t k s = (Inr x, s')" "t' \<noteq> t"
  shows "\<exists>e. lock t' k s' = (Inl e, s')"
proof -
  have o: "ok s'" "owner s' k = Some t" using lock_Inr [OF assms(1,2)] by auto
  obtain a u where l: "lock t' k s' = (a, u)" by (cases "lock t' k s'")
  show ?thesis
  proof (cases a)
    case (Inl e)
    then show ?thesis using l lock_Inl [OF o(1)] by auto
  next
    case (Inr y)
    then show ?thesis using l o(2) assms(3) lock_Inr [OF o(1), of t' k y u] by simp
  qed
qed

text \<open>Taking locks in any order and then releasing leaves the table without the caller, and
  everybody else's locks as they were.\<close>

lemma lock_all_owner:
  "ok s \<Longrightarrow> lock_all (lock t) ks s = (r, s') \<Longrightarrow>
   ok s' \<and> (\<forall>k. owner s' k = owner s k \<or> owner s k = None \<and> owner s' k = Some t) \<and>
   (r = Inr () \<longrightarrow> (\<forall>k \<in> set ks. owner s' k = Some t))"
proof (induction ks arbitrary: s)
  case Nil
  then show ?case by simp
next
  case (Cons k ks)
  obtain a u where l: "lock t k s = (a, u)" by (cases "lock t k s")
  show ?case
  proof (cases a)
    case (Inl e)
    then show ?thesis using Cons.prems l lock_Inl [OF Cons.prems(1)] by (auto simp: bindS_step)
  next
    case (Inr x)
    then have u: "owner s k = None \<or> owner s k = Some t" "ok u" "owner u = (owner s)(k \<mapsto> t)"
      using lock_Inr [OF Cons.prems(1), of t k x u] l by simp_all
    have "lock_all (lock t) ks u = (r, s')" using Cons.prems(2) l Inr by (simp add: bindS_step)
    from Cons.IH [OF u(2) this]
    have ih: "ok s'" "\<And>j. owner s' j = owner u j \<or> owner u j = None \<and> owner s' j = Some t"
      "r = Inr () \<Longrightarrow> j \<in> set ks \<Longrightarrow> owner s' j = Some t" for j by blast+
    have "owner s' j = owner s j \<or> owner s j = None \<and> owner s' j = Some t" for j
      using ih(2) [of j] u(1,3) by (cases "j = k") auto
    moreover have "owner s' k = Some t" using ih(2) [of k] u(3) by simp
    ultimately show ?thesis using ih(1,3) by simp
  qed
qed

lemma transaction_releases:
  assumes "ok s" "lock_all (lock t) ks s = (r, u)" "\<And>k. owner s k \<noteq> Some t"
  shows "\<exists>s'. unlock t u = (Inr (), s') \<and> ok s' \<and> owner s' = owner s"
proof -
  have u: "ok u" "\<forall>k. owner u k = owner s k \<or> owner s k = None \<and> owner u k = Some t"
    using lock_all_owner [OF assms(1,2)] by auto
  obtain s' where s': "unlock t u = (Inr (), s')" "ok s'"
    "owner s' = (\<lambda>k. if owner u k = Some t then None else owner u k)"
    using unlock_ok [OF u(1)] by blast
  have "owner s' k = owner s k" for k
    using s'(3) spec [OF u(2), of k] assms(3) [of k] by auto
  then have "owner s' = owner s" by (rule ext)
  then show ?thesis using s'(1,2) by blast
qed

end

section \<open>The lock manager provides the interface\<close>

definition row_lock :: "tid \<Rightarrow> RID \<Rightarrow> (lock_manager, tid) action" where
  "row_lock t r = AcquireLockFromLockTable t (Some r)"

definition key_rid :: "lock_key \<Rightarrow> RID" where
  "key_rid k = \<lparr>rid_pid = fst k, rid_slot = \<lparr>slot_size = 0, slot_offset = snd k, deleted = False\<rparr>\<rparr>"

lemma rid_key_key_rid [simp]: "rid_key (key_rid k) = k"
  by (simp add: rid_key_def key_rid_def)

lemma row_lock_key: "row_lock t (key_rid (rid_key r)) = row_lock t r"
  by (rule ext) (simp add: row_lock_def AcquireLockFromLockTable_def split: option.split)

interpretation row_locks: exclusive_locks "\<lambda>t k. row_lock t (key_rid k)" ReleaseLockFromLockTable
  lock_table_reverse locks_ok
proof unfold_locales
  fix s s' :: lock_manager and t x :: tid and k :: lock_key
  assume a: "locks_ok s" "row_lock t (key_rid k) s = (Inr x, s')"
  then have "locks_ok s'" unfolding row_lock_def by (rule locks_ok_acquire [of s t "key_rid k" x])
  then show "(lock_table_reverse s k = None \<or> lock_table_reverse s k = Some t) \<and> locks_ok s' \<and>
      lock_table_reverse s' = (lock_table_reverse s)(k \<mapsto> t)"
    using a(2) by (auto simp: row_lock_def AcquireLockFromLockTable_def split: option.splits if_splits)
next
  fix s s' :: lock_manager and t :: tid and k :: lock_key and e
  assume "row_lock t (key_rid k) s = (Inl e, s')"
  then show "s' = s \<and> (\<exists>t'. lock_table_reverse s k = Some t' \<and> t' \<noteq> t)"
    by (auto simp: row_lock_def AcquireLockFromLockTable_def split: option.splits if_splits)
next
  fix s :: lock_manager and t :: tid
  assume ok: "locks_ok s"
  obtain s' where r: "ReleaseLockFromLockTable t s = (Inr (), s')"
    by (cases "lock_table s t") (simp_all add: ReleaseLockFromLockTable_def)
  have "lock_table_reverse s' = (\<lambda>k. if lock_table_reverse s k = Some t then None else lock_table_reverse s k)"
    using release_tables(2) [OF ok r] by (simp add: fun_eq_iff)
  then show "\<exists>s'. ReleaseLockFromLockTable t s = (Inr (), s') \<and> locks_ok s' \<and>
      lock_table_reverse s' = (\<lambda>k. if lock_table_reverse s k = Some t then None else lock_table_reverse s k)"
    using r locks_ok_release [OF ok r] by blast
qed

section \<open>Transactions that wait\<close>

text \<open>
  Threads running transactions: a call either is granted, or puts its thread to sleep until the
  key is free; releasing at the end of the transaction wakes every sleeper, which then competes
  again.  \<open>allowed\<close> restricts the keys a transaction asks for, given those it has.
\<close>

record lock_system =
  locks :: lock_manager
  asleep :: "tid \<Rightarrow> lock_key option"

inductive lock_step ::
  "(lock_key set \<Rightarrow> lock_key \<Rightarrow> bool) \<Rightarrow> lock_system \<Rightarrow> lock_system \<Rightarrow> bool"
  for allowed where
  granted: "asleep s t = None \<Longrightarrow> allowed (owned (locks s) t) (rid_key r) \<Longrightarrow>
     AcquireLockFromLockTable t (Some r) (locks s) = (Inr t, m) \<Longrightarrow>
     lock_step allowed s (s\<lparr>locks := m\<rparr>)"
| sleeps: "asleep s t = None \<Longrightarrow> allowed (owned (locks s) t) (rid_key r) \<Longrightarrow>
     AcquireLockFromLockTable t (Some r) (locks s) = (Inl Blocked, m) \<Longrightarrow>
     lock_step allowed s (s\<lparr>asleep := (asleep s)(t \<mapsto> rid_key r)\<rparr>)"
| wakes: "asleep s t = Some (rid_key r) \<Longrightarrow>
     AcquireLockFromLockTable t (Some r) (locks s) = (Inr t, m) \<Longrightarrow>
     lock_step allowed s (s\<lparr>locks := m, asleep := (asleep s)(t := None)\<rparr>)"
| finishes: "asleep s t = None \<Longrightarrow> ReleaseLockFromLockTable t (locks s) = (Inr (), m) \<Longrightarrow>
     lock_step allowed s (s\<lparr>locks := m\<rparr>)"

inductive_cases lock_stepE: "lock_step allowed s s'"

definition new_lock_system :: lock_system where
  "new_lock_system = \<lparr>locks = new_lock_manager, asleep = Map.empty\<rparr>"

inductive reachable :: "(lock_key set \<Rightarrow> lock_key \<Rightarrow> bool) \<Rightarrow> lock_system \<Rightarrow> bool" for allowed where
  start: "reachable allowed new_lock_system"
| step: "reachable allowed s \<Longrightarrow> lock_step allowed s s' \<Longrightarrow> reachable allowed s'"

text \<open>The scan's order: pages upwards, and within a page from the end of the payload downwards.\<close>

definition scan_before :: "lock_key \<Rightarrow> lock_key \<Rightarrow> bool" where
  "scan_before a b \<longleftrightarrow> fst a < fst b \<or> fst a = fst b \<and> snd b < snd a"

definition scan_order :: "lock_key set \<Rightarrow> lock_key \<Rightarrow> bool" where
  "scan_order ks k \<longleftrightarrow> (\<forall>k' \<in> ks. k' = k \<or> scan_before k' k)"

text \<open>The tables agree, and a sleeper waits for a key it may ask for and does not own.\<close>

definition system_ok :: "lock_system \<Rightarrow> bool" where
  "system_ok s \<longleftrightarrow> locks_ok (locks s) \<and>
     (\<forall>t k. asleep s t = Some k \<longrightarrow> (\<forall>k' \<in> owned (locks s) t. scan_before k' k))"

lemma system_ok_new: "system_ok new_lock_system"
  by (simp add: system_ok_def new_lock_system_def locks_ok_new)

lemma system_ok_step:
  assumes "lock_step scan_order s s'" "system_ok s"
  shows "system_ok s'"
  using assms(1)
proof (cases rule: lock_step.cases)
  case (granted t r m)
  then show ?thesis
    using assms(2) acquire_tables [OF _ granted(4)] locks_ok_acquire [OF _ granted(4)]
    by (auto simp: system_ok_def)
next
  case (sleeps t r m)
  have "rid_key r \<notin> owned (locks s) t"
    using sleeps(4) assms(2) locks_okD [of "locks s" "rid_key r" t]
    by (auto simp: AcquireLockFromLockTable_def system_ok_def split: option.splits if_splits)
  then show ?thesis
    using sleeps assms(2) by (auto simp: system_ok_def scan_order_def)
next
  case (wakes t r m)
  then show ?thesis
    using assms(2) acquire_tables [OF _ wakes(3)] locks_ok_acquire [OF _ wakes(3)]
    by (auto simp: system_ok_def)
next
  case (finishes t m)
  then show ?thesis
    using assms(2) release_tables [OF _ finishes(3)] locks_ok_release [OF _ finishes(3)]
    by (auto simp: system_ok_def)
qed

lemma reachable_system_ok: "reachable scan_order s \<Longrightarrow> system_ok s"
  by (induction rule: reachable.induct) (auto intro: system_ok_new system_ok_step)

text \<open>With any order of acquisition the tables stay consistent.\<close>

lemma reachable_locks_ok: "reachable allowed s \<Longrightarrow> locks_ok (locks s)"
proof (induction rule: reachable.induct)
  case start
  then show ?case by (simp add: new_lock_system_def locks_ok_new)
next
  case (step s s')
  then show ?case
    by (auto elim!: lock_stepE intro: locks_ok_acquire locks_ok_release)
qed

subsection \<open>No deadlock\<close>

lemma scan_before_trans: "scan_before a b \<Longrightarrow> scan_before b c \<Longrightarrow> scan_before a c"
  by (auto simp: scan_before_def)

lemma scan_before_irrefl: "\<not> scan_before a a"
  by (simp add: scan_before_def)

lemma finite_scan_max:
  "finite A \<Longrightarrow> A \<noteq> {} \<Longrightarrow> \<exists>m \<in> A. \<forall>a \<in> A. \<not> scan_before m a"
proof (induction A rule: finite_induct)
  case empty
  then show ?case by simp
next
  case (insert x A)
  show ?case
  proof (cases "A = {}")
    case True
    then show ?thesis by (simp add: scan_before_irrefl)
  next
    case False
    then obtain m where m: "m \<in> A" "\<forall>a \<in> A. \<not> scan_before m a" using insert by auto
    show ?thesis
    proof (cases "scan_before m x")
      case True
      then have "\<forall>a \<in> A. \<not> scan_before x a" using m(2) scan_before_trans by blast
      then show ?thesis by (auto simp: scan_before_irrefl)
    next
      case False
      then show ?thesis using m by auto
    qed
  qed
qed

text \<open>If transactions lock in scan order, some sleeper's key is free or owned by a runner.\<close>

lemma someone_runs:
  assumes ok: "system_ok s" and sl: "asleep s t = Some k"
  shows "\<exists>t' k'. asleep s t' = Some k' \<and>
    (lock_table_reverse (locks s) k' = None \<or>
     (\<exists>u. lock_table_reverse (locks s) k' = Some u \<and> asleep s u = None))"
proof -
  let ?K = "ran (asleep s)"
  have "ran (asleep s) = (\<lambda>t. the (asleep s t)) ` dom (asleep s)"
    by (auto simp: ran_def dom_def image_iff) (metis option.sel)
  moreover have "finite (dom (asleep s))" by (rule finite_subset [OF subset_UNIV]) simp
  ultimately have "finite ?K" by simp
  moreover have "?K \<noteq> {}" using ranI [of "asleep s" t k] sl by blast
  ultimately obtain m where m: "m \<in> ?K" "\<forall>a \<in> ?K. \<not> scan_before m a"
    using finite_scan_max by blast
  then obtain t' where t': "asleep s t' = Some m" by (auto simp: ran_def)
  show ?thesis
  proof (cases "lock_table_reverse (locks s) m")
    case None
    then show ?thesis using t' by blast
  next
    case (Some u)
    have "asleep s u = None"
    proof (rule ccontr)
      assume "asleep s u \<noteq> None"
      then obtain k' where k': "asleep s u = Some k'" by auto
      have "m \<in> owned (locks s) u" using ok Some locks_okD [of "locks s" m u] by (simp add: system_ok_def)
      then have "scan_before m k'" using ok k' unfolding system_ok_def by blast
      moreover have "k' \<in> ?K" using k' by (auto simp: ran_def)
      ultimately show False using m(2) by blast
    qed
    then show ?thesis using t' Some by blast
  qed
qed

section \<open>Properties\<close>

text \<open>C29: In every interleaving of transactions, whatever rows they ask for, the two lock tables
  agree, and a row is owned by at most one transaction.\<close>

theorem locks_mutual_exclusion:
  assumes "reachable allowed s"
  shows "locks_ok (locks s) \<and> (\<forall>t u. t \<noteq> u \<longrightarrow> owned (locks s) t \<inter> owned (locks s) u = {})"
proof -
  have ok: "locks_ok (locks s)" by (rule reachable_locks_ok [OF assms])
  have "owned (locks s) t \<inter> owned (locks s) u = {}" if "t \<noteq> u" for t u
    using that locks_okD [OF ok] by (metis disjoint_iff option.inject)
  with ok show ?thesis by blast
qed

definition two_owners :: lock_system where
  "two_owners = new_lock_system\<lparr>locks := snd (AcquireLockFromLockTable 1 (Some (key_rid (0, 4000))) new_lock_manager)\<rparr>"

lemma two_owners_reachable: "reachable scan_order two_owners"
proof -
  have "lock_step scan_order new_lock_system two_owners"
    unfolding two_owners_def
    by (rule lock_step.granted [of _ 1 _ "key_rid (0, 4000)"])
      (simp_all add: new_lock_system_def new_lock_manager_def scan_order_def owned_def AcquireLockFromLockTable_def)
  then show ?thesis using reachable.start reachable.step by blast
qed

theorem locks_mutual_exclusion_witness:
  "owned (locks two_owners) 1 = {(0, 4000)} \<and> owned (locks two_owners) 1 \<inter> owned (locks two_owners) 2 = {}"
proof -
  have "(1 :: tid) \<noteq> 2" by simp
  then show ?thesis
    using locks_mutual_exclusion [OF two_owners_reachable]
    by (auto simp: two_owners_def new_lock_manager_def owned_def AcquireLockFromLockTable_def)
qed

text \<open>A transaction that takes any sequence of row locks and then releases leaves the table
  exactly as it found it, whether or not it got all of them.\<close>

theorem locks_released_at_end:
  assumes "locks_ok s" "lock_all (\<lambda>k. row_lock t (key_rid k)) ks s = (r, u)"
    and "\<And>k. lock_table_reverse s k \<noteq> Some t"
  shows "\<exists>s'. ReleaseLockFromLockTable t u = (Inr (), s') \<and> locks_ok s' \<and>
    lock_table_reverse s' = lock_table_reverse s"
  using assms by (rule row_locks.transaction_releases)

theorem locks_released_at_end_witness:
  "\<exists>r u s'. lock_all (\<lambda>k. row_lock 3 (key_rid k)) [(0, 4000), (0, 3900)] new_lock_manager = (r, u) \<and>
     ReleaseLockFromLockTable 3 u = (Inr (), s') \<and> lock_table_reverse s' = Map.empty"
proof -
  obtain r u where l: "lock_all (\<lambda>k. row_lock 3 (key_rid k)) [(0, 4000), (0, 3900)] new_lock_manager = (r, u)"
    by (cases "lock_all (\<lambda>k. row_lock 3 (key_rid k)) [(0, 4000), (0, 3900)] new_lock_manager")
  have "lock_table_reverse new_lock_manager = Map.empty" by (simp add: new_lock_manager_def)
  then show ?thesis
    using locks_released_at_end [OF locks_ok_new l] l by auto
qed

text \<open>C30: Transactions that lock rows in the order of the heap scan cannot deadlock: whenever a
  transaction sleeps, some sleeping transaction's row is free or is owned by a transaction that
  is not asleep.\<close>

theorem scan_order_no_deadlock:
  assumes "reachable scan_order s" "asleep s t = Some k"
  shows "\<exists>t' k'. asleep s t' = Some k' \<and>
    (lock_table_reverse (locks s) k' = None \<or>
     (\<exists>u. lock_table_reverse (locks s) k' = Some u \<and> asleep s u = None))"
  using someone_runs [OF reachable_system_ok [OF assms(1)] assms(2)] .

definition one_sleeper :: lock_system where
  "one_sleeper = two_owners\<lparr>asleep := (asleep two_owners)(2 \<mapsto> (0, 4000))\<rparr>"

lemma one_sleeper_reachable: "reachable scan_order one_sleeper"
proof -
  have "lock_step scan_order two_owners (two_owners\<lparr>asleep := (asleep two_owners)(2 \<mapsto> rid_key (key_rid (0, 4000)))\<rparr>)"
    by (rule lock_step.sleeps [of _ 2 _ "key_rid (0, 4000)" "locks two_owners"])
      (simp_all add: two_owners_def new_lock_system_def new_lock_manager_def scan_order_def owned_def
        AcquireLockFromLockTable_def)
  then show ?thesis
    using two_owners_reachable reachable.step unfolding one_sleeper_def by (metis rid_key_key_rid)
qed

theorem scan_order_no_deadlock_witness:
  "\<exists>t' k'. asleep one_sleeper t' = Some k' \<and>
    (lock_table_reverse (locks one_sleeper) k' = None \<or>
     (\<exists>u. lock_table_reverse (locks one_sleeper) k' = Some u \<and> asleep one_sleeper u = None))"
  by (rule scan_order_no_deadlock [OF one_sleeper_reachable, of 2 "(0, 4000)"])
    (simp add: one_sleeper_def)

text \<open>Transaction ids are a sixteen-bit counter cut to eight bits: 256 transactions after a given
  one, the same id is handed out again, and a lock the first still holds is granted to the second.\<close>

theorem transaction_ids_repeat:
  assumes "AcquireLockFromLockTable (ucast n) (Some r) s = (Inr t, s')"
  shows "fst (get_transaction_id (m\<lparr>transaction_id_seed := n + 256\<rparr>)) = fst (get_transaction_id (m\<lparr>transaction_id_seed := n\<rparr>)) \<and>
    AcquireLockFromLockTable (ucast (n + 256)) (Some r) s' = (Inr t, s')"
proof -
  have c: "ucast (n + 256) = (ucast n :: tid)"
    by (simp add: word_uint_eq_iff unsigned_ucast_eq uint_word_ariths
        take_bit_eq_mod mod_mod_cancel)
  show ?thesis
    using assms unfolding c
    by (auto simp: get_transaction_id_def AcquireLockFromLockTable_def c split: option.splits if_splits)
qed

theorem transaction_ids_repeat_witness:
  "AcquireLockFromLockTable (ucast (256 :: 16 word)) (Some (key_rid (0, 4000)))
     (snd (AcquireLockFromLockTable 0 (Some (key_rid (0, 4000))) new_lock_manager)) =
   (Inr 0, snd (AcquireLockFromLockTable 0 (Some (key_rid (0, 4000))) new_lock_manager))"
proof -
  have "AcquireLockFromLockTable (ucast (0 :: 16 word)) (Some (key_rid (0, 4000))) new_lock_manager =
      (Inr 0, snd (AcquireLockFromLockTable 0 (Some (key_rid (0, 4000))) new_lock_manager))"
    by (simp add: AcquireLockFromLockTable_def new_lock_manager_def)
  from transaction_ids_repeat [OF this, of new_lock_manager] show ?thesis by simp
qed

end
