(* ===== verification/Heap_Rows.thy ===== *)
theory Heap_Rows
  imports Heap_Page
begin

text \<open>
  A heap page as a list of rows: the abstract contents that \<open>heap_write\<close> extends and that the
  scan's decoder reads back, with the interface \<open>append_store\<close> that pages share with the larger
  stores built on them.
\<close>

section \<open>The rows of a page\<close>

definition row_at :: "mem \<Rightarrow> nat \<Rightarrow> row_t \<Rightarrow> bool" where
  "row_at m k row \<longleftrightarrow>
     \<not> deleted (hp_slot m k) \<and> row_readable row \<and>
     slot_size (hp_slot m k) = int (row_width row) \<and>
     get_bytes m (heap_data + slot_offset (hp_slot m k)) (row_width row) = row_bytes row"

definition holds_rows :: "mem \<Rightarrow> row_t list \<Rightarrow> bool" where
  "holds_rows m rows \<longleftrightarrow>
     heap_page_inv m \<and> hp_slot_count m = int (length rows) \<and> (\<forall>k < length rows. row_at m k (rows ! k))"

lemma holds_rows_initialize: "holds_rows (initialize m) []"
  by (simp add: holds_rows_def heap_page_inv_initialize mem_simps)

lemma holds_rowsD:
  assumes "holds_rows m rows"
  shows "heap_page_inv m" and "hp_slot_count m = int (length rows)" and "length rows \<le> MAX_SLOTS"
    and "k < length rows \<Longrightarrow> row_at m k (rows ! k)"
  using assms by (auto simp: holds_rows_def heap_page_inv_def)

lemma slot_bounds:
  assumes "heap_page_inv m" and "int k < hp_slot_count m"
  shows "hp_free_size m \<le> int (slot_offset (hp_slot m k))"
    and "int (slot_offset (hp_slot m k)) + slot_size (hp_slot m k) \<le> int HEAP_PAYLOAD_SIZE"
proof -
  have pk: "\<And>i. i < nat (hp_slot_count m) \<Longrightarrow>
        0 \<le> slot_size (hp_slot m i) \<and>
        hp_free_size m \<le> int (slot_offset (hp_slot m i)) \<and>
        int (slot_offset (hp_slot m i)) + slot_size (hp_slot m i) \<le>
          (if i = 0 then int HEAP_PAYLOAD_SIZE else int (slot_offset (hp_slot m (i - 1))))"
    using assms(1) by (auto simp: heap_page_inv_def slots_packed_def)
  have k: "k < nat (hp_slot_count m)" using assms(2) by linarith
  show "hp_free_size m \<le> int (slot_offset (hp_slot m k))" using pk [OF k] by blast
  show "int (slot_offset (hp_slot m k)) + slot_size (hp_slot m k) \<le> int HEAP_PAYLOAD_SIZE"
    using k
  proof (induction k)
    case 0
    then show ?case using pk [of 0] by simp
  next
    case (Suc k)
    then have "k < nat (hp_slot_count m)" by simp
    with Suc pk [of "Suc k"] pk [of k] show ?case by simp
  qed
qed

text \<open>Slots further on lie strictly lower in the payload, as far as their rows have any width.\<close>

lemma slots_descend:
  assumes "heap_page_inv m" and "int j < hp_slot_count m" and "i < j"
  shows "int (slot_offset (hp_slot m j)) + slot_size (hp_slot m j) \<le> int (slot_offset (hp_slot m i))"
proof -
  have pk: "\<And>i. 0 < i \<Longrightarrow> i < nat (hp_slot_count m) \<Longrightarrow>
        0 \<le> slot_size (hp_slot m (i - 1)) \<and>
        int (slot_offset (hp_slot m i)) + slot_size (hp_slot m i) \<le> int (slot_offset (hp_slot m (i - 1)))"
    using assms(1) by (fastforce simp: heap_page_inv_def slots_packed_def)
  have "j < nat (hp_slot_count m)" using assms(2) by linarith
  with assms(3) show ?thesis
  proof (induction j)
    case 0
    then show ?case by simp
  next
    case (Suc j)
    show ?case
    proof (cases "i = j")
      case True
      then show ?thesis using pk [of "Suc j"] Suc.prems by simp
    next
      case False
      then have "int (slot_offset (hp_slot m j)) + slot_size (hp_slot m j) \<le> int (slot_offset (hp_slot m i))"
        using Suc by simp
      then show ?thesis using pk [of "Suc j"] Suc.prems by simp
    qed
  qed
qed

lemma row_at_read:
  assumes "heap_page_inv m" "int k < hp_slot_count m" "row_at m k row"
  shows "read_row m (heap_data + slot_offset (hp_slot m k)) (row_types row) = Inr row"
  using assms slot_bounds(2) [OF assms(1,2)]
  by (intro read_row_written) (auto simp: row_at_def)

section \<open>Writing adds a row\<close>

lemma holds_rows_write:
  assumes h: "holds_rows m rows" and rm: "room_for row m" and rd: "row_readable row"
  shows "holds_rows (page_after_write row m) (rows @ [row])"
proof -
  note inv = holds_rowsD(1,2) [OF h]
  note f = page_after_write_fields [OF inv(1) rm]
  define n where "n = length rows"
  have n: "nat (hp_slot_count m) = n" "n < 10" using inv(2) rm by (auto simp: n_def room_for_def)
  have "row_at (page_after_write row m) k ((rows @ [row]) ! k)" if k: "k < Suc n" for k
  proof (cases "k = n")
    case True
    have w: "row_width row \<le> nat (hp_free_size m)" using rm unfolding room_for_def by linarith
    have "get_bytes (page_after_write row m) (heap_data + (nat (hp_free_size m) - row_width row)) (row_width row)
        = row_bytes row"
      by (simp add: page_after_write_def Let_def mem_simps length_row_bytes [OF row_readable_fits [OF rd]])
    then show ?thesis
      using True f(5) n rd by (simp add: row_at_def slot_of_write_def nth_append n_def)
  next
    case False
    then have kn: "k < n" using k by simp
    have ra: "row_at m k (rows ! k)" using holds_rowsD(4) [OF h] kn by (simp add: n_def)
    have s: "hp_slot (page_after_write row m) k = hp_slot m k"
      using f(6) [of k] kn n by simp
    have "int k < hp_slot_count m" using kn inv(2) by (simp add: n_def)
    then have "hp_free_size m \<le> int (slot_offset (hp_slot m k))" by (rule slot_bounds(1) [OF inv(1)])
    then show ?thesis
      using ra s kn n(2) page_after_write_payload [OF inv(1) rm row_readable_fits [OF rd], of k]
      by (simp add: row_at_def nth_append n_def)
  qed
  then show ?thesis
    using page_after_write_inv [OF inv(1) rm] f(2) inv(2) by (simp add: holds_rows_def n_def)
qed

text \<open>Stamping the LSN is invisible to the rows.\<close>

lemma holds_rows_set_lsn [simp]: "holds_rows (set_lsn n m) rows = holds_rows m rows"
  by (simp add: holds_rows_def row_at_def heap_page_inv_def slots_packed_def mem_simps)

section \<open>Stores that grow at the end\<close>

primrec put_all :: "('r \<Rightarrow> ('s, 'x) action) \<Rightarrow> 'r list \<Rightarrow> ('s, 'x list) action" where
  "put_all put [] = returnS []"
| "put_all put (r # rs) = bindS (put r) (\<lambda>x. bindS (put_all put rs) (\<lambda>xs. returnS (x # xs)))"

locale append_store =
  fixes put :: "'r \<Rightarrow> 's \<Rightarrow> 'x result \<times> 's"
    and holds :: "'s \<Rightarrow> 'r list \<Rightarrow> bool"
    and good :: "'r \<Rightarrow> bool"
  assumes put_appends: "holds s rs \<Longrightarrow> good r \<Longrightarrow> put r s = (Inr x, s') \<Longrightarrow> holds s' (rs @ [r])"
begin

lemma put_all_appends:
  "holds s rs \<Longrightarrow> list_all good new \<Longrightarrow> put_all put new s = (Inr xs, s') \<Longrightarrow> holds s' (rs @ new)"
proof (induction new arbitrary: s rs xs)
  case Nil
  then show ?case by simp
next
  case (Cons r new)
  from Cons.prems(3) obtain x u ys where "put r s = (Inr x, u)" "put_all put new u = (Inr ys, s')"
    by (auto simp: bindS_Inr_iff)
  with Cons.IH [of u "rs @ [r]" ys] put_appends [OF Cons.prems(1)] Cons.prems(2)
  show ?case by simp
qed

end

text \<open>The sizes the planner passes: the width of each column's type.\<close>

definition row_sizes :: "row_t \<Rightarrow> nat list" where
  "row_sizes row = map (\<lambda>v. type_width (value_type v)) row"

lemma sum_list_row_sizes: "sum_list (row_sizes row) = row_width row"
  by (induction row) (simp_all add: row_sizes_def)

lemma heap_write_appends:
  assumes "holds_rows (prepared m) rows" "row_readable row"
    and "heap_write row (row_sizes row) m = (Inr s, m')"
  shows "holds_rows (prepared m') (rows @ [row])" and "hp_lsn m' = hp_lsn m"
proof -
  note w = heap_write_Inr [OF holds_rowsD(1) [OF assms(1)] row_readable_fits [OF assms(2)]
      sum_list_row_sizes assms(3)]
  have "holds_rows m' (rows @ [row])"
    using holds_rows_write [OF assms(1) w(1) assms(2)] w(3) by simp
  then show "holds_rows (prepared m') (rows @ [row])"
    by (simp add: prepared_def holds_rows_def heap_page_inv_def)
  show "hp_lsn m' = hp_lsn m"
    using page_after_write_fields(4) [OF holds_rowsD(1) [OF assms(1)] w(1)] w(3)
    by (simp add: prepared_def mem_simps split: if_splits)
qed

interpretation page_rows: append_store "\<lambda>row. heap_write row (row_sizes row)"
  "\<lambda>m. holds_rows (prepared m)" row_readable
  by unfold_locales (rule heap_write_appends(1))

lemma prepared_zero: "holds_rows (prepared zero_bytes) []" if "zero_bytes = (\<lambda>_. 0)"
  using that by (simp add: prepared_def hp_is_initialized_def get_bool_def holds_rows_initialize)

section \<open>Properties\<close>

text \<open>C28: Writing a row that fits the columns and the free space returns the new slot, keeps the page
  well formed (rows packed downwards, slots disjoint), keeps every earlier row readable, adds the
  row at the end and leaves the page's LSN alone.\<close>

theorem heap_write_adds_row:
  assumes "holds_rows (prepared m) rows" "row_readable row" "room_for row (prepared m)"
  shows "\<exists>s m'. heap_write row (row_sizes row) m = (Inr s, m') \<and>
    slot_size s = int (row_width row) \<and> \<not> deleted s \<and>
    holds_rows m' (rows @ [row]) \<and> hp_lsn m' = hp_lsn m"
proof -
  note w = heap_write_ok [OF holds_rowsD(1) [OF assms(1)] row_readable_fits [OF assms(2)] assms(3)
      sum_list_row_sizes]
  have "holds_rows (page_after_write row (prepared m)) (rows @ [row])"
    by (rule holds_rows_write [OF assms(1,3,2)])
  then show ?thesis
    using w heap_write_appends(2) [OF assms(1,2) w] by (simp add: slot_of_write_def)
qed

definition sample_row :: row_t where
  "sample_row = [VInt 7, VString ''ab'', VFloat 0]"

lemma sample_row_facts: "row_readable sample_row" "row_width sample_row = 508"
  by (simp_all add: sample_row_def int_range_def byte_char_def char_byte_def)

lemma sample_page_facts:
  "holds_rows (prepared (\<lambda>_. 0)) []" "room_for sample_row (prepared (\<lambda>_. 0))"
proof -
  show h: "holds_rows (prepared (\<lambda>_. 0)) []" by (rule prepared_zero) simp
  show "room_for sample_row (prepared (\<lambda>_. 0))"
    by (simp add: room_for_def sample_row_facts prepared_def hp_is_initialized_def get_bool_def mem_simps)
qed

theorem heap_write_adds_row_witness:
  "\<exists>s m'. heap_write sample_row (row_sizes sample_row) (\<lambda>_. 0) = (Inr s, m') \<and> holds_rows m' [sample_row]"
  using heap_write_adds_row [OF sample_page_facts(1) sample_row_facts(1) sample_page_facts(2)] by auto

text \<open>C27: Round trip: after any sequence of successful writes, starting from a page that holds some
  rows, decoding slot \<open>k\<close> with the column types of row \<open>k\<close> gives row \<open>k\<close>, for the old rows and the
  new ones.  The rows fit their columns and their strings are shorter than the 500 bytes of a column and hold no NUL
  (\<open>row_readable\<close>): a string of 500 characters is written without its terminating zero, and for a longer one the count of
  the \<open>memset\<close> wraps around.\<close>

theorem written_rows_read_back:
  assumes "holds_rows (prepared m) rows" "list_all row_readable new"
    and "put_all (\<lambda>row. heap_write row (row_sizes row)) new m = (Inr xs, m')"
    and "k < length (rows @ new)"
  shows "read_row (prepared m') (heap_data + slot_offset (hp_slot (prepared m') k)) (row_types ((rows @ new) ! k))
    = Inr ((rows @ new) ! k)"
proof -
  have h: "holds_rows (prepared m') (rows @ new)"
    by (rule page_rows.put_all_appends [OF assms(1-3)])
  show ?thesis
    using row_at_read [OF holds_rowsD(1) [OF h] _ holds_rowsD(4) [OF h assms(4)]]
      holds_rowsD(2) [OF h] assms(4) by simp
qed

theorem written_rows_read_back_witness:
  "\<exists>xs m'. put_all (\<lambda>row. heap_write row (row_sizes row)) [sample_row] (\<lambda>_. 0) = (Inr xs, m') \<and>
     read_row (prepared m') (heap_data + slot_offset (hp_slot (prepared m') 0)) [INTEGER, STRING, FLOATING] = Inr sample_row"
proof -
  have fits: "sum_list (row_sizes sample_row) = row_width sample_row" by (rule sum_list_row_sizes)
  obtain xs m' where p: "put_all (\<lambda>row. heap_write row (row_sizes row)) [sample_row] (\<lambda>_. 0) = (Inr xs, m')"
    using heap_write_ok [OF holds_rowsD(1) [OF sample_page_facts(1)] row_readable_fits [OF sample_row_facts(1)]
        sample_page_facts(2) fits] by (simp add: bindS_step)
  have "list_all row_readable [sample_row]" using sample_row_facts by simp
  from written_rows_read_back [OF sample_page_facts(1) this p, of 0] p
  show ?thesis by (auto simp: sample_row_def)
qed

text \<open>C33: The error exits of a write: with all ten slots taken it throws and the page is as it was
  (initialised if it was not); with too little free space it throws after having raised the slot
  count and stored the size of a slot that has no row.\<close>

theorem heap_write_error_exits:
  assumes "heap_page_inv (prepared m)" "\<not> room_for row (prepared m)"
  shows "heap_write row (row_sizes row) m =
    (if int MAX_SLOTS \<le> hp_slot_count (prepared m)
     then (Inl (Runtime ''Slots Full''), prepared m)
     else (Inl (Runtime ''HEAP PAGE SPACE FULL''), page_after_space_full (row_width row) (prepared m)))"
  using assms heap_write_slots_full [of m row "row_sizes row"]
    heap_write_space_full [OF assms(1), of "row_sizes row" row] sum_list_row_sizes [of row]
  by (auto simp: room_for_def)

definition wide_row :: row_t where
  "wide_row = replicate 9 (VString [])"

theorem heap_write_error_exits_witness:
  "\<exists>e m'. heap_write wide_row (row_sizes wide_row) (\<lambda>_. 0) = (Inl e, m') \<and> hp_slot_count m' = 1"
proof -
  have h: "heap_page_inv (prepared (\<lambda>_. 0))" using holds_rowsD(1) [OF sample_page_facts(1)] .
  have p: "hp_slot_count (prepared (\<lambda>_. 0)) = 0" "hp_free_size (prepared (\<lambda>_. 0)) = 4015"
    by (simp_all add: prepared_def hp_is_initialized_def get_bool_def mem_simps)
  have w: "row_width wide_row = 4500" by (simp add: wide_row_def row_width_def sum_list_replicate)
  have "\<not> room_for wide_row (prepared (\<lambda>_. 0))" by (simp add: room_for_def p w)
  from heap_write_error_exits [OF h this] show ?thesis
    by (simp add: p page_after_space_full_def mem_simps int_range_def)
qed

end
