(* ===== verification/Heap_Scan.thy ===== *)
theory Heap_Scan
  imports Wal Lock_Manager Heap_Rows
begin

text \<open>
  The sequential scan of the heap file: \<open>heap_scan::scan\<close> of
  \<open>src/storage_manager/access_methods.cpp\<close>.  The objects a statement works on are the pool, the
  log and the lock manager; the cursor of a scan belongs to the operator that owns it, so it is
  an argument and part of the result.
\<close>

section \<open>State\<close>

record database =
  db_wal :: wal_db
  db_locks :: lock_manager

definition on_wal :: "(wal_db, 'a) action \<Rightarrow> (database, 'a) action" where
  "on_wal m d = (case m (db_wal d) of (r, w) \<Rightarrow> (r, d\<lparr>db_wal := w\<rparr>))"

definition on_locks :: "(lock_manager, 'a) action \<Rightarrow> (database, 'a) action" where
  "on_locks m d = (case m (db_locks d) of (r, l) \<Rightarrow> (r, d\<lparr>db_locks := l\<rparr>))"

definition on_buffers :: "(buffer_pool, 'a) action \<Rightarrow> (database, 'a) action" where
  "on_buffers m = on_wal (on_pool m)"

abbreviation buffers :: "database \<Rightarrow> buffer_pool" where
  "buffers d \<equiv> pool (db_wal d)"

definition with_buffers :: "buffer_pool \<Rightarrow> database \<Rightarrow> database" where
  "with_buffers p d = d\<lparr>db_wal := (db_wal d)\<lparr>pool := p\<rparr>\<rparr>"

lemma on_buffers_eq: "on_buffers m d = (case m (buffers d) of (r, p) \<Rightarrow> (r, with_buffers p d))"
  by (simp add: on_buffers_def on_wal_def on_pool_def with_buffers_def split: prod.split)

lemma with_buffers_simps [simp]:
  "buffers (with_buffers p d) = p" "db_locks (with_buffers p d) = db_locks d"
  "with_buffers q (with_buffers p d) = with_buffers q d" "LSN (db_wal (with_buffers p d)) = LSN (db_wal d)"
  by (simp_all add: with_buffers_def)

record heap_scan =
  HeapTable :: "int list"
  curr_pid :: int
  curr_slot :: int

definition new_heap_scan :: heap_scan where
  "new_heap_scan = \<lparr>HeapTable = [0], curr_pid = 0, curr_slot = 0\<rparr>"

definition heap_table_push :: "int \<Rightarrow> heap_scan \<Rightarrow> heap_scan" where
  "heap_table_push p c = c\<lparr>HeapTable := HeapTable c @ [p]\<rparr>"

section \<open>One call of scan\<close>

text \<open>
  The loop of \<open>scan\<close>: at the end of the page the cursor moves on; a deleted slot is skipped by
  \<open>continue\<close>, which leaves the page pinned; so does the exception for mismatched arrays.  The
  row's lock is taken after the page has been given back.
\<close>

function scan_loop :: "nat list \<Rightarrow> SUPORTED_COLUMN_TYPE list \<Rightarrow> tid \<Rightarrow> heap_scan \<Rightarrow>
    (database, ScanResult \<times> heap_scan) action" where
  "scan_loop data_size_arr col_types tid c d =
     bindS (on_buffers (page_access (curr_pid c) HEAP_PAGE)) (\<lambda>i.
     bindS (getS (\<lambda>d. page_of i (buffers d))) (\<lambda>heap_page.
     if curr_slot c = hp_slot_count heap_page
     then
       bindS (on_buffers (un_pin (curr_pid c) HEAP_PAGE)) (\<lambda>_.
       returnS (\<lparr>scan_status = EOP, scan_result = None, opration_complete = False\<rparr>,
         c\<lparr>curr_pid := curr_pid c + 1, curr_slot := 0\<rparr>))
     else if curr_slot c < 0 \<or> int MAX_SLOTS \<le> curr_slot c then throwS (Undefined ''slot index'')
     else
       let current_slot = hp_slot heap_page (nat (curr_slot c)) in
       if \<not> deleted current_slot
       then
         if length data_size_arr = length col_types
         then
           bindS (liftE (read_row heap_page (heap_data + slot_offset current_slot) col_types)) (\<lambda>row.
           bindS (on_buffers (un_pin (curr_pid c) HEAP_PAGE)) (\<lambda>_.
           bindS (on_locks (AcquireLockFromLockTable tid
             (Some \<lparr>rid_pid = curr_pid c, rid_slot = current_slot\<rparr>))) (\<lambda>_.
           returnS (\<lparr>scan_status = SUCCESS, scan_result = Some row, opration_complete = True\<rparr>,
             c\<lparr>curr_slot := curr_slot c + 1\<rparr>))))
         else throwS (Runtime ''COLUMNS SIZES AND TYPES ARRAYS SIZE MISMATCH'')
       else scan_loop data_size_arr col_types tid (c\<lparr>curr_slot := curr_slot c + 1\<rparr>))) d"
  by pat_completeness auto
termination
  by (relation "measure (\<lambda>(_, _, _, c, _). nat (int MAX_SLOTS - curr_slot c))") auto

declare scan_loop.simps [simp del]

definition scan :: "nat list \<Rightarrow> SUPORTED_COLUMN_TYPE list \<Rightarrow> tid \<Rightarrow> heap_scan \<Rightarrow>
    (database, ScanResult \<times> heap_scan) action" where
  "scan = scan_loop"

section \<open>Looking at the page\<close>

definition same_heap_pages :: "buffer_pool \<Rightarrow> buffer_pool \<Rightarrow> bool" where
  "same_heap_pages s t \<longleftrightarrow> (\<forall>q. valid_page HEAP_PAGE q \<longrightarrow> heap_view t q = heap_view s q)"

lemma same_pages_heap: "same_pages s t \<Longrightarrow> same_heap_pages s t"
  by (simp add: same_heap_pages_def same_pages_def)

lemma same_heap_pages_trans: "same_heap_pages s t \<Longrightarrow> same_heap_pages t u \<Longrightarrow> same_heap_pages s u"
  by (simp add: same_heap_pages_def)

lemma on_buffers_step:
  "m (buffers d) = (Inr x, p) \<Longrightarrow> bindS (on_buffers m) f d = f x (with_buffers p d)"
  "m (buffers d) = (Inl e, p) \<Longrightarrow> bindS (on_buffers m) f d = (Inl e, with_buffers p d)"
  by (simp_all add: bindS_def on_buffers_eq)

lemma on_locks_step:
  "m (db_locks d) = (Inr x, l) \<Longrightarrow> bindS (on_locks m) f d = f x (d\<lparr>db_locks := l\<rparr>)"
  "m (db_locks d) = (Inl e, l) \<Longrightarrow> bindS (on_locks m) f d = (Inl e, d\<lparr>db_locks := l\<rparr>)"
  by (simp_all add: bindS_def on_locks_def)

section \<open>The branches\<close>

lemma scan_end_of_page:
  assumes h: "healthy (buffers d)" "\<not> exhausted (pins (buffers d))" "valid_page HEAP_PAGE (curr_pid c)"
    and e: "curr_slot c = hp_slot_count (heap_view (buffers d) (curr_pid c))"
  obtains p where "scan szs tys tid c d =
      (Inr (\<lparr>scan_status = EOP, scan_result = None, opration_complete = False\<rparr>,
        c\<lparr>curr_pid := curr_pid c + 1, curr_slot := 0\<rparr>), with_buffers p d)"
    "healthy p" "pins p = pins (buffers d)" "same_heap_pages (buffers d) p"
proof -
  obtain i t where a: "page_access (curr_pid c) HEAP_PAGE (buffers d) = (Inr i, t)" "healthy t"
    "holds_page t HEAP_PAGE (curr_pid c) i" "page_of i t = heap_view (buffers d) (curr_pid c)"
    "pins t = (pins (buffers d))(i := pins (buffers d) i + 1)" "same_pages (buffers d) t"
    by (rule access_page [OF h(1,3,2)])
  obtain u where u: "un_pin (curr_pid c) HEAP_PAGE t = (Inr (), u)" "healthy u"
    "pins u = (pins t)(i := pins t i - 1)" "same_pages t u"
    by (rule release_page [OF a(2) h(3) a(3)])
  have "scan szs tys tid c d =
      (Inr (\<lparr>scan_status = EOP, scan_result = None, opration_complete = False\<rparr>,
        c\<lparr>curr_pid := curr_pid c + 1, curr_slot := 0\<rparr>), with_buffers u d)"
    using e a(4) unfolding scan_def scan_loop.simps [of szs tys tid c d]
    by (simp add: on_buffers_step(1) a(1) u(1))
  moreover have "pins u = pins (buffers d)" using a(5) u(3) by (simp add: fun_eq_iff)
  ultimately show ?thesis
    using that u(2) same_pages_heap [OF same_pages_trans [OF a(6) u(4)]] by blast
qed

lemma scan_live_row:
  assumes h: "healthy (buffers d)" "\<not> exhausted (pins (buffers d))" "valid_page HEAP_PAGE (curr_pid c)"
    and m: "heap_view (buffers d) (curr_pid c) = m"
    and k: "curr_slot c = int k" "int k < hp_slot_count m" "k < MAX_SLOTS" "\<not> deleted (hp_slot m k)"
    and row: "length szs = length tys" "read_row m (heap_data + slot_offset (hp_slot m k)) tys = Inr row"
    and lk: "AcquireLockFromLockTable tid (Some \<lparr>rid_pid = curr_pid c, rid_slot = hp_slot m k\<rparr>) (db_locks d) = (a, l)"
  obtains p where "scan szs tys tid c d =
      (case a of Inr _ \<Rightarrow> Inr (\<lparr>scan_status = SUCCESS, scan_result = Some row, opration_complete = True\<rparr>,
        c\<lparr>curr_slot := curr_slot c + 1\<rparr>) | Inl e \<Rightarrow> Inl e, (with_buffers p d)\<lparr>db_locks := l\<rparr>)"
    "healthy p" "pins p = pins (buffers d)" "same_heap_pages (buffers d) p"
proof -
  obtain i t where ac: "page_access (curr_pid c) HEAP_PAGE (buffers d) = (Inr i, t)" "healthy t"
    "holds_page t HEAP_PAGE (curr_pid c) i" "page_of i t = heap_view (buffers d) (curr_pid c)"
    "pins t = (pins (buffers d))(i := pins (buffers d) i + 1)" "same_pages (buffers d) t"
    by (rule access_page [OF h(1,3,2)])
  obtain u where u: "un_pin (curr_pid c) HEAP_PAGE t = (Inr (), u)" "healthy u"
    "pins u = (pins t)(i := pins t i - 1)" "same_pages t u"
    by (rule release_page [OF ac(2) h(3) ac(3)])
  have "scan szs tys tid c d = bindS (on_locks (AcquireLockFromLockTable tid
      (Some \<lparr>rid_pid = curr_pid c, rid_slot = hp_slot m k\<rparr>))) (\<lambda>_.
       returnS (\<lparr>scan_status = SUCCESS, scan_result = Some row, opration_complete = True\<rparr>,
         c\<lparr>curr_slot := curr_slot c + 1\<rparr>)) (with_buffers u d)"
    using ac(4) k row m unfolding scan_def scan_loop.simps [of szs tys tid c d]
    by (simp add: on_buffers_step(1) ac(1) u(1) Let_def)
  also have "\<dots> = (case a of Inr _ \<Rightarrow> Inr (\<lparr>scan_status = SUCCESS, scan_result = Some row, opration_complete = True\<rparr>,
        c\<lparr>curr_slot := curr_slot c + 1\<rparr>) | Inl e \<Rightarrow> Inl e, (with_buffers u d)\<lparr>db_locks := l\<rparr>)"
    using lk by (cases a) (simp_all add: on_locks_step)
  finally have "scan szs tys tid c d = \<dots>" .
  moreover have "pins u = pins (buffers d)" using ac(5) u(3) by (simp add: fun_eq_iff)
  ultimately show ?thesis
    using that u(2) same_pages_heap [OF same_pages_trans [OF ac(6) u(4)]] by blast
qed

text \<open>A deleted slot: the scan goes on with the next one and the page has one pin more.\<close>

lemma scan_deleted_slot:
  assumes h: "healthy (buffers d)" "\<not> exhausted (pins (buffers d))" "valid_page HEAP_PAGE (curr_pid c)"
    and m: "heap_view (buffers d) (curr_pid c) = m"
    and k: "curr_slot c = int k" "int k < hp_slot_count m" "k < MAX_SLOTS" "deleted (hp_slot m k)"
  obtains i p where "scan szs tys tid c d = scan szs tys tid (c\<lparr>curr_slot := curr_slot c + 1\<rparr>) (with_buffers p d)"
    "healthy p" "pins p = (pins (buffers d))(i := pins (buffers d) i + 1)" "same_heap_pages (buffers d) p" "i < buffer_size"
proof -
  obtain i t where ac: "page_access (curr_pid c) HEAP_PAGE (buffers d) = (Inr i, t)" "healthy t"
    "holds_page t HEAP_PAGE (curr_pid c) i" "page_of i t = heap_view (buffers d) (curr_pid c)"
    "pins t = (pins (buffers d))(i := pins (buffers d) i + 1)" "same_pages (buffers d) t"
    by (rule access_page [OF h(1,3,2)])
  have "scan szs tys tid c d = scan szs tys tid (c\<lparr>curr_slot := curr_slot c + 1\<rparr>) (with_buffers t d)"
    using ac(4) k m unfolding scan_def scan_loop.simps [of szs tys tid c d]
    by (simp add: on_buffers_step(1) ac(1) Let_def)
  then show ?thesis using that ac(2,3,5) same_pages_heap [OF ac(6)] by (auto simp: holds_page_def)
qed

section \<open>Scanning a page of rows\<close>

text \<open>Page \<open>p\<close> holds \<open>m\<close>, can be brought in, and transaction \<open>tid\<close> can lock its rows.\<close>

definition page_open :: "tid \<Rightarrow> int \<Rightarrow> mem \<Rightarrow> database \<Rightarrow> bool" where
  "page_open tid p m d \<longleftrightarrow>
     healthy (buffers d) \<and> \<not> exhausted (pins (buffers d)) \<and> valid_page HEAP_PAGE p \<and>
     heap_view (buffers d) p = m \<and> locks_ok (db_locks d) \<and>
     (\<forall>k. int k < hp_slot_count m \<longrightarrow>
        lock_table_reverse (db_locks d) (p, slot_offset (hp_slot m k)) = None \<or>
        lock_table_reverse (db_locks d) (p, slot_offset (hp_slot m k)) = Some tid)"

definition found_row :: "row_t \<Rightarrow> ScanResult" where
  "found_row row = \<lparr>scan_status = SUCCESS, scan_result = Some row, opration_complete = True\<rparr>"

definition end_of_page :: ScanResult where
  "end_of_page = \<lparr>scan_status = EOP, scan_result = None, opration_complete = False\<rparr>"

lemma scan_row:
  assumes o: "page_open tid p m d" and h: "holds_rows m rows" and k: "k < length rows"
    and t: "row_types (rows ! k) = tys" "length szs = length tys"
    and c: "curr_pid c = p" "curr_slot c = int k"
  shows "\<exists>d'. scan szs tys tid c d = (Inr (found_row (rows ! k), c\<lparr>curr_slot := int (Suc k)\<rparr>), d') \<and>
    page_open tid p m d' \<and> pins (buffers d') = pins (buffers d) \<and>
    same_heap_pages (buffers d) (buffers d') \<and>
    lock_table_reverse (db_locks d') = (lock_table_reverse (db_locks d))((p, slot_offset (hp_slot m k)) \<mapsto> tid)"
proof -
  note d = holds_rowsD [OF h]
  have o': "healthy (buffers d)" "\<not> exhausted (pins (buffers d))" "valid_page HEAP_PAGE (curr_pid c)"
    "heap_view (buffers d) (curr_pid c) = m" "locks_ok (db_locks d)"
    using o c by (simp_all add: page_open_def)
  have kc: "int k < hp_slot_count m" "k < MAX_SLOTS" using d(2,3) k by auto
  have ra: "row_at m k (rows ! k)" by (rule d(4) [OF k])
  have nd: "\<not> deleted (hp_slot m k)" using ra by (simp add: row_at_def)
  have rd: "read_row m (heap_data + slot_offset (hp_slot m k)) tys = Inr (rows ! k)"
    using row_at_read [OF d(1) kc(1) ra] t(1) by simp
  let ?r = "\<lparr>rid_pid = curr_pid c, rid_slot = hp_slot m k\<rparr>"
  have key: "rid_key ?r = (p, slot_offset (hp_slot m k))" using c by (simp add: rid_key_def)
  have free: "lock_table_reverse (db_locks d) (rid_key ?r) = None \<or>
      lock_table_reverse (db_locks d) (rid_key ?r) = Some tid"
    using o kc(1) by (simp only: page_open_def key)
  obtain l where l: "AcquireLockFromLockTable tid (Some ?r) (db_locks d) = (Inr tid, l)"
    using free by (auto simp: AcquireLockFromLockTable_def)
  obtain q where q: "scan szs tys tid c d =
      (case Inr tid of Inr _ \<Rightarrow> Inr (\<lparr>scan_status = SUCCESS, scan_result = Some (rows ! k), opration_complete = True\<rparr>,
        c\<lparr>curr_slot := curr_slot c + 1\<rparr>) | Inl e \<Rightarrow> Inl e, (with_buffers q d)\<lparr>db_locks := l\<rparr>)"
    "healthy q" "pins q = pins (buffers d)" "same_heap_pages (buffers d) q"
    by (rule scan_live_row [OF o'(1-4) c(2) kc nd t(2) rd l])
  define d' where "d' = (with_buffers q d)\<lparr>db_locks := l\<rparr>"
  have d': "buffers d' = q" "db_locks d' = l" by (simp_all add: d'_def with_buffers_def)
  have lk: "lock_table_reverse l = (lock_table_reverse (db_locks d))((p, slot_offset (hp_slot m k)) \<mapsto> tid)"
    using acquire_tables(2) [OF o'(5) l] key by simp
  have "page_open tid p m d'"
    using o q(2-4) locks_ok_acquire [OF o'(5) l] lk c
    by (auto simp: page_open_def d' same_heap_pages_def)
  then show ?thesis
    using q(1,3,4) lk c(2) d' unfolding d'_def [symmetric]
    by (intro exI [of _ d']) (simp add: found_row_def add.commute)
qed

lemma scan_end:
  assumes o: "page_open tid p m d" and c: "curr_pid c = p" "curr_slot c = hp_slot_count m"
  shows "\<exists>d'. scan szs tys tid c d =
      (Inr (end_of_page, c\<lparr>curr_pid := p + 1, curr_slot := 0\<rparr>), d') \<and>
    page_open tid p m d' \<and> pins (buffers d') = pins (buffers d) \<and>
    same_heap_pages (buffers d) (buffers d') \<and> db_locks d' = db_locks d"
proof -
  have o': "healthy (buffers d)" "\<not> exhausted (pins (buffers d))" "valid_page HEAP_PAGE (curr_pid c)"
    "curr_slot c = hp_slot_count (heap_view (buffers d) (curr_pid c))"
    using o c by (simp_all add: page_open_def)
  obtain q where q: "scan szs tys tid c d =
      (Inr (\<lparr>scan_status = EOP, scan_result = None, opration_complete = False\<rparr>,
        c\<lparr>curr_pid := curr_pid c + 1, curr_slot := 0\<rparr>), with_buffers q d)"
    "healthy q" "pins q = pins (buffers d)" "same_heap_pages (buffers d) q"
    by (rule scan_end_of_page [OF o'])
  have "page_open tid p m (with_buffers q d)"
    using o q(2-4) by (auto simp: page_open_def same_heap_pages_def)
  then show ?thesis
    using q c by (intro exI [of _ "with_buffers q d"]) (simp add: end_of_page_def)
qed

text \<open>Calling \<open>scan\<close> \<open>n\<close> times, as the operators above it do.\<close>

primrec scan_times :: "nat \<Rightarrow> nat list \<Rightarrow> SUPORTED_COLUMN_TYPE list \<Rightarrow> tid \<Rightarrow> heap_scan \<Rightarrow>
    (database, ScanResult list \<times> heap_scan) action" where
  "scan_times 0 szs tys tid c = returnS ([], c)"
| "scan_times (Suc n) szs tys tid c =
     bindS (scan szs tys tid c) (\<lambda>(r, c').
     bindS (scan_times n szs tys tid c') (\<lambda>(rs, c''). returnS (r # rs, c'')))"

lemma scan_times_rows:
  assumes "page_open tid p m d" "holds_rows m rows" "k + n = length rows"
    and "\<forall>row \<in> set rows. row_types row = tys" "length szs = length tys"
    and "curr_pid c = p" "curr_slot c = int k"
  shows "\<exists>d'. scan_times n szs tys tid c d =
      (Inr (map found_row (drop k rows), c\<lparr>curr_slot := int (length rows)\<rparr>), d') \<and>
    page_open tid p m d' \<and> pins (buffers d') = pins (buffers d) \<and> same_heap_pages (buffers d) (buffers d')"
  using assms
proof (induction n arbitrary: k c d)
  case 0
  then show ?case by (auto simp: same_heap_pages_def)
next
  case (Suc n)
  have k: "k < length rows" using Suc.prems(3) by simp
  have t: "row_types (rows ! k) = tys" using Suc.prems(4) k by simp
  obtain d1 where d1: "scan szs tys tid c d = (Inr (found_row (rows ! k), c\<lparr>curr_slot := int (Suc k)\<rparr>), d1)"
    "page_open tid p m d1" "pins (buffers d1) = pins (buffers d)" "same_heap_pages (buffers d) (buffers d1)"
    using scan_row [OF Suc.prems(1,2) k t Suc.prems(5-7)] by blast
  obtain d2 where d2: "scan_times n szs tys tid (c\<lparr>curr_slot := int (Suc k)\<rparr>) d1 =
      (Inr (map found_row (drop (Suc k) rows), (c\<lparr>curr_slot := int (Suc k)\<rparr>)\<lparr>curr_slot := int (length rows)\<rparr>), d2)"
    "page_open tid p m d2" "pins (buffers d2) = pins (buffers d1)" "same_heap_pages (buffers d1) (buffers d2)"
    using Suc.IH [OF d1(2) Suc.prems(2), of "Suc k" "c\<lparr>curr_slot := int (Suc k)\<rparr>"] Suc.prems(3-6) by auto
  have "drop k rows = rows ! k # drop (Suc k) rows" using k by (simp add: Cons_nth_drop_Suc)
  then have "scan_times (Suc n) szs tys tid c d =
      (Inr (map found_row (drop k rows), c\<lparr>curr_slot := int (length rows)\<rparr>), d2)"
    by (simp add: bindS_def d1(1) d2(1) del: of_nat_Suc)
  moreover have "same_heap_pages (buffers d) (buffers d2)"
    by (rule same_heap_pages_trans [OF d1(4) d2(4)])
  ultimately show ?case using d1(3) d2(2,3) by auto
qed

section \<open>Properties\<close>

text \<open>C26: Scanning a page that holds rows of the scanned column types, with its row locks free or
  already owned, returns exactly those rows in slot order, then the end of the page with the
  cursor on the next one; every pin is given back and no page changes.\<close>

theorem scan_returns_page_rows:
  assumes "page_open tid p m d" "holds_rows m rows"
    and "\<forall>row \<in> set rows. row_types row = tys" "length szs = length tys"
    and "curr_pid c = p" "curr_slot c = 0"
  shows "\<exists>d'. scan_times (Suc (length rows)) szs tys tid c d =
      (Inr (map found_row rows @ [end_of_page], c\<lparr>curr_pid := p + 1, curr_slot := 0\<rparr>), d') \<and>
    pins (buffers d') = pins (buffers d) \<and> same_heap_pages (buffers d) (buffers d')"
proof -
  have snoc: "scan_times (Suc n) szs tys tid c = bindS (scan_times n szs tys tid c) (\<lambda>(rs, c').
      bindS (scan szs tys tid c') (\<lambda>(r, c''). returnS (rs @ [r], c'')))" for n c
  proof (induction n arbitrary: c)
    case (Suc n)
    have "scan_times (Suc (Suc n)) szs tys tid c = bindS (scan szs tys tid c) (\<lambda>(r, c').
        bindS (scan_times (Suc n) szs tys tid c') (\<lambda>(rs, c''). returnS (r # rs, c'')))"
      by (rule scan_times.simps(2))
    also have "\<dots> = bindS (scan szs tys tid c) (\<lambda>(r, c').
        bindS (bindS (scan_times n szs tys tid c') (\<lambda>(rs, c').
          bindS (scan szs tys tid c') (\<lambda>(r, c''). returnS (rs @ [r], c''))))
        (\<lambda>(rs, c''). returnS (r # rs, c'')))"
      by (simp only: Suc.IH)
    also have "\<dots> = bindS (bindS (scan szs tys tid c) (\<lambda>(r, c').
          bindS (scan_times n szs tys tid c') (\<lambda>(rs, c''). returnS (r # rs, c''))))
        (\<lambda>(rs, c'). bindS (scan szs tys tid c') (\<lambda>(r, c''). returnS (rs @ [r], c'')))"
      by (simp only: split_def bindS_assoc bindS_returnS fst_conv snd_conv append_Cons)
    also have "bindS (scan szs tys tid c) (\<lambda>(r, c').
        bindS (scan_times n szs tys tid c') (\<lambda>(rs, c''). returnS (r # rs, c''))) =
        scan_times (Suc n) szs tys tid c"
      by (rule scan_times.simps(2) [symmetric])
    finally show ?case .
  qed (simp only: scan_times.simps split_def bindS_returnS fst_conv snd_conv append_Nil)
  obtain d1 where d1: "scan_times (length rows) szs tys tid c d =
      (Inr (map found_row rows, c\<lparr>curr_slot := int (length rows)\<rparr>), d1)"
    "page_open tid p m d1" "pins (buffers d1) = pins (buffers d)" "same_heap_pages (buffers d) (buffers d1)"
    using scan_times_rows [OF assms(1,2) _ assms(3-5), of 0 "length rows"] assms(6) by auto
  have "curr_pid (c\<lparr>curr_slot := int (length rows)\<rparr>) = p"
    "curr_slot (c\<lparr>curr_slot := int (length rows)\<rparr>) = hp_slot_count m"
    using assms(5) holds_rowsD(2) [OF assms(2)] by simp_all
  then obtain d2 where d2: "scan szs tys tid (c\<lparr>curr_slot := int (length rows)\<rparr>) d1 =
      (Inr (end_of_page, (c\<lparr>curr_slot := int (length rows)\<rparr>)\<lparr>curr_pid := p + 1, curr_slot := 0\<rparr>), d2)"
    "pins (buffers d2) = pins (buffers d1)" "same_heap_pages (buffers d1) (buffers d2)"
    using scan_end [OF d1(2)] by blast
  show ?thesis
    unfolding snoc
    using d1(1,3) d2 same_heap_pages_trans [OF d1(4) d2(3)] by (auto simp: bindS_def)
qed

text \<open>A file whose first page is \<open>m\<close>, under a fresh pool and lock table.\<close>

definition one_page_db :: "mem \<Rightarrow> database" where
  "one_page_db m = \<lparr>db_wal = \<lparr>pool = new_pool \<lparr>db_file = [m], index_file = [], wal_file = le_bytes 8 0,
     io_script = []\<rparr>, LSN = 0\<rparr>, db_locks = new_lock_manager\<rparr>"

lemma one_page_open: "page_open tid 0 m (one_page_db m)"
  by (simp add: page_open_def one_page_db_def healthy_new valid_page_def int_range_def disk_page_def
      locks_ok_new) (simp add: new_lock_manager_def)

definition sample_page :: mem where
  "sample_page = page_after_write sample_row (prepared (\<lambda>_. 0))"

lemma sample_page_rows: "holds_rows sample_page [sample_row]"
  using holds_rows_write [OF sample_page_facts(1) sample_page_facts(2) sample_row_facts(1)]
  by (simp add: sample_page_def)

theorem scan_returns_page_rows_witness:
  "\<exists>d' c'. scan_times (Suc (length [sample_row])) [4, 500, 4] [INTEGER, STRING, FLOATING] 0 new_heap_scan
       (one_page_db sample_page) =
     (Inr ([found_row sample_row, end_of_page], c'), d') \<and> curr_pid c' = 1"
proof -
  have t: "\<forall>row \<in> set [sample_row]. row_types row = [INTEGER, STRING, FLOATING]"
    by (simp add: sample_row_def)
  have c: "curr_pid new_heap_scan = 0" "curr_slot new_heap_scan = 0" "length [4, 500, 4 :: nat] = length [INTEGER, STRING, FLOATING]"
    by (simp_all add: new_heap_scan_def)
  obtain d' where "scan_times (Suc (length [sample_row])) [4, 500, 4] [INTEGER, STRING, FLOATING] 0 new_heap_scan
      (one_page_db sample_page) =
      (Inr (map found_row [sample_row] @ [end_of_page], new_heap_scan\<lparr>curr_pid := 0 + 1, curr_slot := 0\<rparr>), d')"
    using scan_returns_page_rows [OF one_page_open sample_page_rows t c(3,1,2)] by blast
  then show ?thesis
    by (intro exI [of _ d'] exI [of _ "new_heap_scan\<lparr>curr_pid := 0 + 1, curr_slot := 0\<rparr>"])
      (simp del: scan_times.simps)
qed

text \<open>A deleted slot costs a pin: scanning past a deleted last slot reaches the end of the page
  and gives back one pin fewer than it took, so a frame stays pinned.\<close>

theorem scan_deleted_leaks_pin:
  assumes "page_open tid p m d" "curr_pid c = p" "curr_slot c = int k"
    and "int (Suc k) = hp_slot_count m" "k < MAX_SLOTS" "deleted (hp_slot m k)"
    and "\<And>i. \<not> exhausted ((pins (buffers d))(i := pins (buffers d) i + 1))"
  shows "\<exists>c' d' i. scan szs tys tid c d = (Inr (end_of_page, c'), d') \<and> i < buffer_size \<and>
    pins (buffers d') = (pins (buffers d))(i := pins (buffers d) i + 1)"
proof -
  have o: "healthy (buffers d)" "\<not> exhausted (pins (buffers d))" "valid_page HEAP_PAGE (curr_pid c)"
    "heap_view (buffers d) (curr_pid c) = m"
    using assms(1,2) by (simp_all add: page_open_def)
  have kc: "int k < hp_slot_count m" using assms(4) by simp
  obtain i q where q: "scan szs tys tid c d = scan szs tys tid (c\<lparr>curr_slot := curr_slot c + 1\<rparr>) (with_buffers q d)"
    "healthy q" "pins q = (pins (buffers d))(i := pins (buffers d) i + 1)" "same_heap_pages (buffers d) q"
    "i < buffer_size"
    by (rule scan_deleted_slot [OF o assms(3) kc assms(5,6)])
  have "page_open tid p m (with_buffers q d)"
    using assms(1,7) q(2-4) by (auto simp: page_open_def same_heap_pages_def)
  then obtain d' where "scan szs tys tid (c\<lparr>curr_slot := curr_slot c + 1\<rparr>) (with_buffers q d) =
      (Inr (end_of_page, (c\<lparr>curr_slot := curr_slot c + 1\<rparr>)\<lparr>curr_pid := p + 1, curr_slot := 0\<rparr>), d')"
    "pins (buffers d') = pins q"
    using scan_end [of tid p m "with_buffers q d" "c\<lparr>curr_slot := curr_slot c + 1\<rparr>" szs tys] assms(2-4) by auto
  then show ?thesis using q(1,3,5) by auto
qed

definition deleted_page :: mem where
  "deleted_page = set_slot_deleted 0 True sample_page"

theorem scan_deleted_leaks_pin_witness:
  "\<exists>c' d' i. scan [4, 500, 4] [INTEGER, STRING, FLOATING] 0 new_heap_scan (one_page_db deleted_page) =
     (Inr (end_of_page, c'), d') \<and> pins (buffers d') i = 1"
proof -
  have m: "int (Suc 0) = hp_slot_count deleted_page" "deleted (hp_slot deleted_page 0)"
    using holds_rowsD(2) [OF sample_page_rows] by (simp_all add: deleted_page_def mem_simps)
  have p: "pins (buffers (one_page_db deleted_page)) = (\<lambda>_. 0)" by (simp add: one_page_db_def)
  have ne: "\<not> exhausted ((pins (buffers (one_page_db deleted_page)))(i := pins (buffers (one_page_db deleted_page)) i + 1))" for i
    unfolding p exhausted_def by (auto intro!: exI [of _ "if i = 0 then 1 else 0 :: nat"] split: if_splits)
  have c: "curr_pid new_heap_scan = 0" "curr_slot new_heap_scan = int 0" by (simp_all add: new_heap_scan_def)
  have "0 < MAX_SLOTS" by simp
  from scan_deleted_leaks_pin [OF one_page_open c m(1) this m(2) ne] p show ?thesis by fastforce
qed

end
