(* ===== verification/Wal_Recovery.thy ===== *)
theory Wal_Recovery
  imports Wal
begin

text \<open>
  What the write-ahead log promises: a commit appends exactly one record and then stamps the page,
  a failed append leaves the pages alone, and replaying the log redoes, in order, exactly the
  records the pages have not seen.
\<close>

section \<open>Commit\<close>

text \<open>A changed page is on disk when the call returns.\<close>

lemma change_page_durable:
  assumes h: "healthy s" and v: "valid_page HEAP_PAGE pid" and m: "\<And>p. m p = (Inr (), f p)"
    and r: "change_page pid m s = (Inr (), t)"
  shows "disk_page (disk_operator t) HEAP_PAGE pid = f (heap_view s pid)"
proof -
  obtain i u where a: "heap_access pid s = (Inr i, u)"
    and k: "bindS (write_through HEAP_PAGE i (f (page_of i u))) (\<lambda>_. heap_release pid) u = (Inr (), t)"
    using r [unfolded change_page_shape [OF h v m]] by (auto simp: bindS_Inr_iff)
  have acc: "accessed s pid HEAP_PAGE i u" by (rule page_access_Inr [OF h v a])
  then have u: "healthy u" "holds_page u HEAP_PAGE pid i" "page_of i u = heap_view s pid"
    using accessed_holds [OF acc] by (simp_all add: accessed_def)
  define w where "w = rewritten i (f (page_of i u)) False u"
  have occ: "i < 50" "occupied (frames u ! i)" using holds_page_occupied [OF u(1) v u(2)] by auto
  have w: "healthy w" "holds_page w HEAP_PAGE pid i" "un_pin pid HEAP_PAGE w = (Inr (), t)"
    using k write_through_ok [OF u(1) v u(2), of "f (page_of i u)"]
      rewritten_healthy [OF u(1) occ] holds_page_rewritten [OF u(1,2) occ]
    by (simp_all add: w_def bindS_step)
  have "disk_operator t = disk_operator w"
    using w(3) un_pin_ok(1) [OF w(1) v w(2)] by (auto simp: upd_frame_def)
  then show ?thesis
    using rewritten_disk [OF u(1) occ v, of "f (page_of i u)" False] u(2,3)
    by (simp add: w_def holds_page_def)
qed

text \<open>The other pages, of the index too, are as before.\<close>

lemma change_page_others:
  assumes h: "healthy s" and v: "valid_page HEAP_PAGE pid" and m: "\<And>p. m p = (Inr (), f p)"
    and r: "change_page pid m s = (Inr (), t)" and q: "valid_page ty q" "ty \<noteq> HEAP_PAGE \<or> q \<noteq> pid"
  shows "page_view t ty q = page_view s ty q"
proof -
  obtain i u where a: "heap_access pid s = (Inr i, u)"
    and k: "bindS (write_through HEAP_PAGE i (f (page_of i u))) (\<lambda>_. heap_release pid) u = (Inr (), t)"
    using r [unfolded change_page_shape [OF h v m]] by (auto simp: bindS_Inr_iff)
  have acc: "accessed s pid HEAP_PAGE i u" by (rule page_access_Inr [OF h v a])
  then have u: "healthy u" "holds_page u HEAP_PAGE pid i" "same_pages s u"
    using accessed_holds [OF acc] by (simp_all add: accessed_def)
  define w where "w = rewritten i (f (page_of i u)) False u"
  have occ: "i < 50" "occupied (frames u ! i)" using holds_page_occupied [OF u(1) v u(2)] by auto
  have w: "healthy w" "holds_page w HEAP_PAGE pid i" "un_pin pid HEAP_PAGE w = (Inr (), t)"
    using k write_through_ok [OF u(1) v u(2), of "f (page_of i u)"]
      rewritten_healthy [OF u(1) occ] holds_page_rewritten [OF u(1,2) occ]
    by (simp_all add: w_def bindS_step)
  have "same_pages w t" using un_pin_ok(3) [OF w(1) v w(2)] w(3) by simp
  moreover have "page_view w ty q = page_view u ty q"
    using rewritten_view [OF u(1) occ q(1), of "f (page_of i u)" False] u(2) q(2) by (auto simp: w_def holds_page_def)
  ultimately show ?thesis using u(3) q(1) by (simp add: same_pages_def)
qed

text \<open>
  The state after a commit whose record was appended: \<open>ok\<close> tells whether the page could be
  brought into the pool.
\<close>

definition committed :: "wal_db \<Rightarrow> log_record list \<Rightarrow> RID \<Rightarrow> row_t \<Rightarrow> bool \<Rightarrow> wal_db \<Rightarrow> bool" where
  "committed s rs rid row ok t \<longleftrightarrow>
     healthy (pool t) \<and> pins (pool t) = pins (pool s) \<and> LSN t = LSN s + 1 \<and>
     wal_of (pool t) = log_file (rs @ [commit_record (LSN s + 1) rid row]) \<and>
     (\<forall>q. valid_page HEAP_PAGE q \<longrightarrow> heap_view (pool t) q =
        (if ok \<and> q = rid_pid rid then set_lsn (LSN s + 1) (heap_view (pool s) q)
         else heap_view (pool s) q)) \<and>
     (ok \<longrightarrow> disk_page (disk_operator (pool t)) HEAP_PAGE (rid_pid rid) = heap_view (pool t) (rid_pid rid))"

lemma commit_committed:
  assumes c: "commit_ok rid row" "LSN s < 65535"
    and h: "healthy (pool s)" "wal_of (pool s) = log_file rs" "valid_page HEAP_PAGE (rid_pid rid)"
    and r: "CommitTransaction rid row s = (x, t)"
  shows "committed s rs rid row (x = Inr ()) t"
    and "\<not> exhausted (pins (pool s)) \<Longrightarrow> x = Inr ()"
proof -
  define p where "p = logged (commit_record (LSN s + 1) rid row) (pool s)"
  have l: "8 \<le> length (wal_of (pool s))" using h(2) log_file_length by simp
  have p: "healthy p" "heap_view p q = heap_view (pool s) q"
    "wal_of p = log_file (rs @ [commit_record (LSN s + 1) rid row])" "pins p = pins (pool s)" for q
    using logged_ok [OF h(1)] h(2) by (simp_all add: p_def)
  obtain u where u: "change_page (rid_pid rid) (putS (set_lsn (LSN s + 1))) p = (x, u)"
    and t: "t = \<lparr>pool = u, LSN = LSN s + 1\<rparr>"
    using r commit_result [OF c h(1) l] by (auto simp: p_def split: prod.splits)
  have m: "putS (set_lsn (LSN s + 1)) q = (Inr (), set_lsn (LSN s + 1) q)" for q by simp
  note ok = change_page_ok [OF p(1) h(3) m u]
  have x: "x = Inr () \<or> (\<exists>e. x = Inl e)" by (cases x) auto
  then show "\<not> exhausted (pins (pool s)) \<Longrightarrow> x = Inr ()" using ok(5) p(4) by auto
  have dur: "disk_page (disk_operator u) HEAP_PAGE (rid_pid rid) =
      set_lsn (LSN s + 1) (heap_view (pool s) (rid_pid rid))" if "x = Inr ()"
    using change_page_durable [OF p(1) h(3) m u [unfolded that]] p(2) by simp
  show "committed s rs rid row (x = Inr ()) t"
    unfolding committed_def
    using x ok(1-4) t p wal_of_change_page [OF u] dur h(3) by auto
qed

text \<open>No page byte is written, in memory or on disk, unless the record is in the log.\<close>

lemma commit_write_ahead:
  assumes "CommitTransaction rid row s = (r, t)" and "wal_of (pool s) = log_file rs" and "LSN s < 2 ^ 64 - 1"
  shows "wal_of (pool t) = log_file (rs @ [commit_record (LSN s + 1) rid row]) \<or>
    frames (pool t) = frames (pool s) \<and> (\<forall>ty. page_file ty (disk_operator (pool t)) = page_file ty (disk_operator (pool s)))"
proof (cases "commit_ok rid row \<and> LSN s < 65535")
  case False
  then have "t = s" using commit_rejected [of rid row s] assms by auto
  then show ?thesis by simp
next
  case True
  let ?r = "commit_record (LSN s + 1) rid row"
  obtain a d where w: "write_to_wal (fst ?r) (serialize_row row) (disk_operator (pool s)) = (a, d)"
    by (cases "write_to_wal (fst ?r) (serialize_row row) (disk_operator (pool s))")
  have lw: "on_pool (dp_write_to_wal (fst ?r) (serialize_row row)) s = (a, s\<lparr>pool := (pool s)\<lparr>disk_operator := d\<rparr>\<rparr>)"
    using w by (simp add: on_pool_def dp_write_to_wal_def on_disk_def)
  show ?thesis
  proof (cases a)
    case (Inl e)
    then have t: "t = s\<lparr>pool := (pool s)\<lparr>disk_operator := d\<rparr>\<rparr>"
      using assms(1) True lw commit_shape [of rid row s] by (simp add: bindS_step)
    have "page_file ty d = page_file ty (disk_operator (pool s))" for ty
      using write_to_wal_pages [OF w] by (cases ty) simp_all
    then show ?thesis using t by simp
  next
    case (Inr x)
    have "length (serialize_row row) = row_size (fst ?r)" by (simp add: commit_record_def length_serialize_row)
    from write_to_wal_done [OF _ this] w Inr
    have d: "wal_file d = log_file (rs @ [?r])"
      using assms(2) log_file_append [of rs ?r] by (simp add: wal_of_def record_bytes_def commit_record_def)
    obtain p where p: "change_page (rid_pid rid) (putS (set_lsn (LSN s + 1))) ((pool s)\<lparr>disk_operator := d\<rparr>) = (r, p)" "pool t = p"
      using assms(1) True lw Inr commit_shape [of rid row s] by (auto simp: bindS_step on_pool_def split: prod.splits)
    show ?thesis using wal_of_change_page [OF p(1)] p(2) d by (simp add: wal_of_simp)
  qed
qed

section \<open>Replay\<close>

text \<open>What replaying one record does to the pages: nothing to a page that has seen it.\<close>

definition redo :: "log_record \<Rightarrow> (int \<Rightarrow> mem) \<Rightarrow> int \<Rightarrow> mem" where
  "redo r v =
     (let pid = rid_pid (entry_rid (fst r)) in
      if hp_lsn (v pid) < entry_lsn (fst r)
      then v(pid := set_lsn (entry_lsn (fst r))
        (put_bytes (heap_data + slot_offset (rid_slot (entry_rid (fst r)))) (snd r) (v pid)))
      else v)"

definition redo_all :: "log_record list \<Rightarrow> (int \<Rightarrow> mem) \<Rightarrow> int \<Rightarrow> mem" where
  "redo_all = fold redo"

lemma redo_all_simps [simp]:
  "redo_all [] v = v" "redo_all (r # rs) v = redo_all rs (redo r v)"
  "redo_all (rs @ rs') v = redo_all rs' (redo_all rs v)"
  by (simp_all add: redo_all_def)

text \<open>Only the pages of valid numbers matter.\<close>

definition same_heap :: "(int \<Rightarrow> mem) \<Rightarrow> (int \<Rightarrow> mem) \<Rightarrow> bool" where
  "same_heap v w \<longleftrightarrow> (\<forall>q. valid_page HEAP_PAGE q \<longrightarrow> v q = w q)"

lemma same_heap_refl [simp]: "same_heap v v"
  by (simp add: same_heap_def)

lemma same_heap_trans: "same_heap u v \<Longrightarrow> same_heap v w \<Longrightarrow> same_heap u w"
  by (simp add: same_heap_def)

lemma redo_same_heap: "record_ok r \<Longrightarrow> same_heap v w \<Longrightarrow> same_heap (redo r v) (redo r w)"
  by (simp add: same_heap_def redo_def record_ok_def Let_def)

lemma redo_all_same_heap: "list_all record_ok rs \<Longrightarrow> same_heap v w \<Longrightarrow> same_heap (redo_all rs v) (redo_all rs w)"
  by (induction rs arbitrary: v w) (auto simp: redo_same_heap)

lemma apply_redo_bytes:
  assumes "record_ok r"
  shows "(bindS
      (if 0 < slot_size (rid_slot (entry_rid (fst r)))
       then write_at (heap_data + slot_offset (rid_slot (entry_rid (fst r))))
         (take (nat (slot_size (rid_slot (entry_rid (fst r))))) (snd r))
       else returnS ()) (\<lambda>_. putS (set_lsn (entry_lsn (fst r))))) m =
    (Inr (), set_lsn (entry_lsn (fst r))
      (put_bytes (heap_data + slot_offset (rid_slot (entry_rid (fst r)))) (snd r) m))"
  using assms by (auto simp: record_ok_def bindS_def write_at_def)

text \<open>One round of the loop, on a record that is whole.\<close>

definition redo_step :: "log_record \<Rightarrow> (buffer_pool, unit) action" where
  "redo_step r =
     bindS (needs_redo (fst r)) (\<lambda>b.
       if b then apply_redo (entry_rid (fst r)) (snd r) (entry_lsn (fst r)) else returnS ())"

lemma redo_step_ok:
  assumes h: "healthy s" and r: "record_ok r" and st: "redo_step r s = (x, t)"
  shows "healthy t" and "x = Inr () \<Longrightarrow> same_heap (heap_view t) (redo r (heap_view s))"
    and "pins t = pins s" and "\<not> exhausted (pins s) \<Longrightarrow> x = Inr ()" and "wal_of t = wal_of s"
proof -
  have v: "valid_page HEAP_PAGE (rid_pid (entry_rid (fst r)))" using r by (simp add: record_ok_def)
  have look: "keeps (\<lambda>u. wal_of u = wal_of s) (needs_redo (fst r))"
    unfolding needs_redo_def
    by (intro keeps_bindS keeps_wal_page_access keeps_wal_un_pin keeps_basic)
  have change: "keeps (\<lambda>u. wal_of u = wal_of s) (apply_redo rid b n)" for rid b n
    unfolding keeps_def apply_redo_def by (metis wal_of_change_page prod.collapse)
  have "keeps (\<lambda>u. wal_of u = wal_of s) (redo_step r)"
    unfolding redo_step_def by (intro keeps_bindS keeps_if look change keeps_basic)
  from keepsD [OF this _ st] show "wal_of t = wal_of s" by simp
  obtain a u where n: "needs_redo (fst r) s = (a, u)" by (cases "needs_redo (fst r) s")
  note no = needs_redo_ok [OF h v n]
  have "healthy t \<and> (x = Inr () \<longrightarrow> same_heap (heap_view t) (redo r (heap_view s))) \<and>
      pins t = pins s \<and> (x = Inr () \<or> exhausted (pins s))"
  proof (cases a)
    case (Inl e)
    then show ?thesis using st n no(1,3,5) by (auto simp: redo_step_def bindS_step)
  next
    case (Inr b)
    show ?thesis
    proof (cases b)
      case True
      then have ap: "change_page (rid_pid (entry_rid (fst r))) (bindS
          (if 0 < slot_size (rid_slot (entry_rid (fst r)))
           then write_at (heap_data + slot_offset (rid_slot (entry_rid (fst r))))
             (take (nat (slot_size (rid_slot (entry_rid (fst r))))) (snd r))
           else returnS ()) (\<lambda>_. putS (set_lsn (entry_lsn (fst r))))) u = (x, t)"
        using st n Inr by (simp add: redo_step_def bindS_step apply_redo_def)
      note ok = change_page_ok [OF no(1) v apply_redo_bytes [OF r] ap]
      have "x = Inr () \<or> exhausted (pins s)" using ok(5) no(3) by (cases x) auto
      then show ?thesis
        using ok(1-3) no(2,3) no(4) [OF Inr] True v by (auto simp: same_heap_def redo_def Let_def)
    next
      case False
      then show ?thesis
        using st n Inr no(1-3) no(4) [OF Inr]
        by (auto simp: redo_step_def bindS_step same_heap_def redo_def Let_def)
    qed
  qed
  then show "healthy t" "x = Inr () \<Longrightarrow> same_heap (heap_view t) (redo r (heap_view s))"
    "pins t = pins s" "\<not> exhausted (pins s) \<Longrightarrow> x = Inr ()" by auto
qed

lemma replay_step:
  assumes r: "record_ok r" and f: "drop off f = record_bytes r @ rest"
    and o: "off \<le> lst" "off \<le> length f"
  shows "replay_loop f lst off s =
    bindS (redo_step r) (\<lambda>_. replay_loop f lst (off + 24 + row_size (fst r))) s"
proof -
  have len: "length f - off = 24 + row_size (fst r) + length rest"
    using arg_cong [OF f, of length] length_record_bytes [OF r] by simp
  have d: "decode_entry (take 24 (drop off f)) = fst r"
    using decode_entry_image [of "fst r"] r f by (simp add: record_bytes_def record_ok_def)
  have p: "take (row_size (fst r)) (drop (off + 24) f) = snd r"
  proof -
    have "drop (off + 24) f = drop 24 (record_bytes r @ rest)"
      by (metis f drop_drop add.commute)
    then show ?thesis using r by (simp add: record_bytes_def record_ok_def)
  qed
  have nb: "\<not> bad_record (length f) (off + 24) (fst r)"
    using r len by (auto simp: bad_record_def record_ok_def)
  show ?thesis
    using o len nb
    by (simp add: replay_loop.simps [of f lst off s] Let_def d p redo_step_def)
      (auto simp: bindS_def add.assoc split: prod.split sum.split)
qed

lemma last_offset_bound:
  assumes "rs = pre @ r # suf" "list_all record_ok rs"
  shows "8 + length (log_body pre) \<le> last_offset rs" and "last_offset rs < 8 + length (log_body rs)"
proof -
  have *: "length (log_body pre) \<le> length (log_body (butlast (pre @ r # suf)))"
    by (cases suf rule: rev_cases) (simp_all add: butlast_append)
  have "rs \<noteq> []" "record_ok (last rs)" using assms by (auto simp: list_all_iff)
  then have "length (log_body rs) = length (log_body (butlast rs)) + length (record_bytes (last rs))"
    "0 < length (record_bytes (last rs))"
    using append_butlast_last_id [of rs] length_record_bytes
    by (metis length_append log_body_append log_body_simps append_Nil2, simp)
  then show "8 + length (log_body pre) \<le> last_offset rs" "last_offset rs < 8 + length (log_body rs)"
    using * assms(1) \<open>rs \<noteq> []\<close> by (auto simp: last_offset_def)
qed

lemma last_offset_lt: "list_all record_ok rs \<Longrightarrow> last_offset rs < 8 + length (log_body rs)"
  by (cases rs rule: rev_cases) (simp_all add: last_offset_def length_record_bytes)

lemma replay_loop_records:
  assumes rs: "rs = pre @ suf" "list_all record_ok rs"
    and h: "healthy s" "\<not> exhausted (pins s)"
  shows "\<exists>t. replay_loop (log_file rs @ junk) (last_offset rs) (8 + length (log_body pre)) s = (Inr (), t) \<and>
    healthy t \<and> pins t = pins s \<and> wal_of t = wal_of s \<and>
    same_heap (heap_view t) (redo_all suf (heap_view s))"
  using rs(1) h
proof (induction suf arbitrary: pre s)
  case Nil
  then show ?case using last_offset_lt [OF rs(2)] by (simp add: replay_loop.simps)
next
  case (Cons r suf)
  have ok: "record_ok r" using rs(2) Cons.prems(1) by simp
  have off: "8 + length (log_body pre) \<le> last_offset rs"
    using last_offset_bound(1) [OF Cons.prems(1) rs(2)] .
  have f: "drop (8 + length (log_body pre)) (log_file rs @ junk) = record_bytes r @ (log_body suf @ junk)"
    using Cons.prems(1) by (simp add: log_file_def)
  have next_off: "8 + length (log_body pre) + 24 + row_size (fst r) = 8 + length (log_body (pre @ [r]))"
    using length_record_bytes [OF ok] by simp
  have "8 + length (log_body pre) \<le> length (log_file rs @ junk)"
    using Cons.prems(1) by (simp add: log_file_def)
  note rs' = replay_step [OF ok f off this, of s, unfolded next_off]
  have step: "replay_loop (log_file rs @ junk) (last_offset rs) (8 + length (log_body pre)) s =
      bindS (redo_step r) (\<lambda>_. replay_loop (log_file rs @ junk) (last_offset rs)
        (8 + length (log_body (pre @ [r])))) s"
    by (rule rs')
  obtain x u where u: "redo_step r s = (x, u)" by (cases "redo_step r s")
  note st = redo_step_ok [OF Cons.prems(2) ok u]
  have x: "x = Inr ()" by (rule st(4) [OF Cons.prems(3)])
  obtain t where t: "replay_loop (log_file rs @ junk) (last_offset rs) (8 + length (log_body (pre @ [r]))) u = (Inr (), t)"
    "healthy t" "pins t = pins u" "wal_of t = wal_of u" "same_heap (heap_view t) (redo_all suf (heap_view u))"
    using Cons.IH [of "pre @ [r]" u] Cons.prems(1,3) st(1,3) by auto
  have "same_heap (redo_all suf (heap_view u)) (redo_all suf (redo r (heap_view s)))"
    using redo_all_same_heap [of suf] st(2) [OF x] rs(2) Cons.prems(1) by simp
  then show ?case
    using step u x t st(3,5) same_heap_trans by (auto simp: bindS_step)
qed

text \<open>
  The whole replay, of a log with anything after its last record: an append that was cut short
  before the header was moved leaves such a tail.
\<close>

lemma replay_whole:
  assumes "healthy (pool s)" "\<not> exhausted (pins (pool s))"
    and "wal_of (pool s) = log_file rs @ junk" "list_all record_ok rs" "length (log_file rs) < 2 ^ 64"
  shows "\<exists>t. ReplayTransaction s = (Inr (), t) \<and> healthy (pool t) \<and> pins (pool t) = pins (pool s) \<and>
    LSN t = LSN s \<and> wal_of (pool t) = wal_of (pool s) \<and>
    same_heap (heap_view (pool t)) (redo_all rs (heap_view (pool s)))"
proof (cases "rs = []")
  case True
  then have "length (wal_of (pool s)) < 8 \<or> le_value (take 8 (wal_of (pool s))) = 0"
    using assms(3) by (simp add: log_file_def last_offset_def)
  then show ?thesis
    using assms True by (auto simp: ReplayTransaction_def wal_of_def Let_def)
next
  case False
  have lt: "last_offset rs < length (log_file rs)"
    using last_offset_lt [OF assms(4)] by (simp add: log_file_def)
  then have v: "le_value (take 8 (wal_of (pool s))) = last_offset rs"
    using assms(3,5) by (simp add: log_file_def)
  have b: "8 \<le> last_offset rs" using False by (simp add: last_offset_def)
  obtain t where t: "replay_loop (log_file rs @ junk) (last_offset rs) 8 (pool s) = (Inr (), t)"
    "healthy t" "pins t = pins (pool s)" "wal_of t = wal_of (pool s)"
    "same_heap (heap_view t) (redo_all rs (heap_view (pool s)))"
    using replay_loop_records [of rs "[]" rs "pool s" junk] assms by auto
  have "ReplayTransaction s = on_pool (replay_loop (log_file rs @ junk) (last_offset rs) 8) s"
    using v b lt assms(3) by (simp add: ReplayTransaction_def wal_of_def Let_def)
  then show ?thesis using t by (simp add: on_pool_def)
qed

section \<open>What the replayed pages are\<close>

lemma redo_lsn: "entry_lsn (fst r) \<le> 65535 \<Longrightarrow> entry_lsn (fst r) \<le> hp_lsn (redo r v (rid_pid (entry_rid (fst r))))"
  by (auto simp: redo_def Let_def mem_simps)

lemma redo_lsn_mono: "entry_lsn (fst r) \<le> 65535 \<Longrightarrow> hp_lsn (v q) \<le> hp_lsn (redo r v q)"
  by (auto simp: redo_def Let_def mem_simps)

lemma redo_all_lsn_mono: "list_all record_ok rs \<Longrightarrow> hp_lsn (v q) \<le> hp_lsn (redo_all rs v q)"
proof (induction rs arbitrary: v)
  case (Cons r rs)
  then have "hp_lsn (v q) \<le> hp_lsn (redo r v q)" "hp_lsn (redo r v q) \<le> hp_lsn (redo_all rs (redo r v) q)"
    using redo_lsn_mono by (auto simp: record_ok_def)
  then show ?case by simp
qed simp

text \<open>After a replay every page has seen every record, so a second replay changes nothing.\<close>

lemma redo_all_seen:
  "list_all record_ok rs \<Longrightarrow> r \<in> set rs \<Longrightarrow>
   entry_lsn (fst r) \<le> hp_lsn (redo_all rs v (rid_pid (entry_rid (fst r))))"
proof (induction rs arbitrary: v)
  case (Cons a rs)
  show ?case
  proof (cases "r = a")
    case True
    then have "entry_lsn (fst r) \<le> hp_lsn (redo a v (rid_pid (entry_rid (fst r))))"
      using Cons.prems redo_lsn by (simp add: record_ok_def)
    also have "\<dots> \<le> hp_lsn (redo_all rs (redo a v) (rid_pid (entry_rid (fst r))))"
      using Cons.prems redo_all_lsn_mono by simp
    finally show ?thesis by simp
  next
    case False
    then show ?thesis using Cons by simp
  qed
qed simp

lemma redo_all_nothing:
  "(\<And>r. r \<in> set rs \<Longrightarrow> entry_lsn (fst r) \<le> hp_lsn (v (rid_pid (entry_rid (fst r))))) \<Longrightarrow> redo_all rs v = v"
proof (induction rs)
  case (Cons r rs)
  have "redo r v = v" using Cons.prems [of r] by (simp add: redo_def Let_def not_less)
  then show ?case using Cons by simp
qed simp

lemma redo_all_idem: "list_all record_ok rs \<Longrightarrow> redo_all rs (redo_all rs v) = redo_all rs v"
  by (rule redo_all_nothing) (rule redo_all_seen)

text \<open>The LSN found when the log is opened is the one of the last record.\<close>

lemma initial_lsn_log:
  assumes "list_all record_ok (rs @ [r])" "length (log_file (rs @ [r])) < 2 ^ 64"
  shows "initial_lsn (log_file (rs @ [r]) @ junk) = entry_lsn (fst r)"
proof -
  let ?f = "log_file (rs @ [r]) @ junk"
  have o: "last_offset (rs @ [r]) = 8 + length (log_body rs)" by (simp add: last_offset_def)
  have len: "length ?f = 8 + length (log_body rs) + length (record_bytes r) + length junk"
    "length (record_bytes r) = 24 + row_size (fst r)"
    using assms(1) length_record_bytes by (auto simp: log_file_def)
  have v: "le_value (take 8 ?f) = 8 + length (log_body rs)"
    using assms(2) o by (simp add: log_file_def)
  have d: "take 24 (drop (8 + length (log_body rs)) ?f) = entry_image (fst r)"
    by (simp add: log_file_def record_bytes_def)
  have "decode_entry (entry_image (fst r)) = fst r"
    using assms(1) by (intro decode_entry_image) (simp add: record_ok_def)
  then show ?thesis
    using len v d by (simp add: initial_lsn_def Let_def)
qed

text \<open>The bytes of the last record of a page are on the page, if the page had not seen it.\<close>

lemma redo_all_bytes:
  assumes "list_all record_ok (rs @ [r])"
    and "\<And>a. a \<in> set rs \<Longrightarrow> entry_lsn (fst a) < entry_lsn (fst r)"
    and "hp_lsn (v (rid_pid (entry_rid (fst r)))) < entry_lsn (fst r)"
  shows "get_bytes (redo_all (rs @ [r]) v (rid_pid (entry_rid (fst r))))
      (heap_data + slot_offset (rid_slot (entry_rid (fst r)))) (length (snd r)) = snd r"
proof -
  have "hp_lsn (redo_all rs v q) < entry_lsn (fst r)"
    if "hp_lsn (v q) < entry_lsn (fst r)" for q
    using assms(1,2) that
  proof (induction rs arbitrary: v)
    case (Cons a rs)
    have "entry_lsn (fst a) \<le> 65535" "entry_lsn (fst a) < entry_lsn (fst r)"
      using Cons.prems(1,2) by (auto simp: record_ok_def)
    then have "hp_lsn (redo a v q) < entry_lsn (fst r)"
      using Cons.prems(3) by (auto simp: redo_def Let_def mem_simps)
    then show ?case using Cons by simp
  qed simp
  then show ?thesis
    using assms(3) by (simp add: redo_def Let_def mem_simps)
qed

text \<open>The row is on the page at the place its slot names.\<close>

definition holds_row :: "mem \<Rightarrow> RID \<Rightarrow> row_t \<Rightarrow> bool" where
  "holds_row m rid row \<longleftrightarrow> get_bytes m (heap_data + slot_offset (rid_slot rid)) (row_width row) = row_bytes row"

text \<open>A record of another page, or of another place on the same page.\<close>

definition elsewhere :: "RID \<Rightarrow> row_t \<Rightarrow> log_record \<Rightarrow> bool" where
  "elsewhere rid row a \<longleftrightarrow>
     rid_pid (entry_rid (fst a)) \<noteq> rid_pid rid \<or>
     slot_offset (rid_slot (entry_rid (fst a))) + length (snd a) \<le> slot_offset (rid_slot rid) \<or>
     slot_offset (rid_slot rid) + row_width row \<le> slot_offset (rid_slot (entry_rid (fst a)))"

lemma redo_elsewhere: "elsewhere rid row a \<Longrightarrow> holds_row (v (rid_pid rid)) rid row \<Longrightarrow> holds_row (redo a v (rid_pid rid)) rid row"
  by (auto simp: elsewhere_def holds_row_def redo_def Let_def mem_simps)

lemma redo_all_elsewhere:
  "\<forall>a \<in> set rs. elsewhere rid row a \<Longrightarrow> holds_row (v (rid_pid rid)) rid row \<Longrightarrow> holds_row (redo_all rs v (rid_pid rid)) rid row"
  by (induction rs arbitrary: v) (simp_all add: redo_elsewhere)

lemma redo_all_old: "\<forall>a \<in> set rs. entry_lsn (fst a) \<le> hp_lsn (v q) \<Longrightarrow> redo_all rs v q = v q"
proof (induction rs arbitrary: v)
  case (Cons a rs)
  have "redo a v q = v q" using Cons.prems by (auto simp: redo_def Let_def)
  then show ?case using Cons by simp
qed simp

lemma record_of_row:
  assumes "row_readable row"
  shows "entry_lsn (fst (commit_record n rid row)) = n" "entry_rid (fst (commit_record n rid row)) = rid"
    "snd (commit_record n rid row) = row_bytes row" "length (row_bytes row) = row_width row"
  using serialize_row_fits [OF row_readable_fits [OF assms]] length_row_bytes [OF row_readable_fits [OF assms]]
  by (simp_all add: commit_record_def)

section \<open>Properties\<close>

text \<open>An empty log on a fresh pool, and a record for it.\<close>

definition sample_disk :: disk where
  "sample_disk = \<lparr>db_file = [], index_file = [], wal_file = log_file [], io_script = []\<rparr>"

definition sample_db :: wal_db where
  "sample_db = \<lparr>pool = new_pool sample_disk, LSN = 0\<rparr>"

definition sample_rid :: RID where
  "sample_rid = \<lparr>rid_pid = 0, rid_slot = \<lparr>slot_size = 4, slot_offset = 4011, deleted = False\<rparr>\<rparr>"

lemma sample_facts:
  "healthy (pool sample_db)" "\<not> exhausted (pins (pool sample_db))" "LSN sample_db = 0"
  "wal_of (pool sample_db) = log_file []" "valid_page HEAP_PAGE (rid_pid sample_rid)"
  "commit_ok sample_rid [VInt 7]" "heap_view (pool sample_db) 0 = zero_page"
  by (simp_all add: sample_db_def sample_disk_def sample_rid_def healthy_new
      wal_of_def valid_page_def int_range_def commit_ok_def disk_page_def)

lemma sample_record: "record_ok (commit_record 1 sample_rid [VInt 7])"
  by (simp add: record_ok_def entry_ok_def commit_record_def length_serialize_row sample_rid_def
      int_range_def valid_page_def)

text \<open>C24: Committing a row on a pool with a free frame succeeds: the log file is extended by exactly
  the record of the row, the LSN advances by one, the row's page carries the new LSN both in the
  pool and on disk, no other page changes and every pin is given back.\<close>

theorem commit_logs_and_stamps:
  assumes "healthy (pool s)" "\<not> exhausted (pins (pool s))" "wal_of (pool s) = log_file rs"
    and "valid_page HEAP_PAGE (rid_pid rid)" "commit_ok rid row" "LSN s < 65535"
  shows "\<exists>t. CommitTransaction rid row s = (Inr (), t) \<and> committed s rs rid row True t"
proof -
  obtain x t where c: "CommitTransaction rid row s = (x, t)" by (cases "CommitTransaction rid row s")
  show ?thesis using commit_committed [OF assms(5,6,1,3,4) c] assms(2) c by auto
qed

theorem commit_logs_and_stamps_witness:
  "\<exists>t. CommitTransaction sample_rid [VInt 7] sample_db = (Inr (), t) \<and>
     wal_of (pool t) = log_file [commit_record 1 sample_rid [VInt 7]] \<and> LSN t = 1"
  using commit_logs_and_stamps [OF sample_facts(1,2,4-6)] sample_facts(3)
  by (auto simp: committed_def)

text \<open>A commit is rejected without touching anything when the row does not have the slot's
  size, does not fit the payload, or the LSN no longer fits the sixteen bits of the page header.\<close>

theorem commit_rejects_unchanged:
  assumes "\<not> commit_ok rid row \<or> 65535 \<le> LSN s" and "LSN s < 2 ^ 64 - 1"
  shows "\<exists>e. CommitTransaction rid row s = (Inl e, s)"
  using assms by (rule commit_rejected)

theorem commit_rejects_unchanged_witness:
  "\<exists>e. CommitTransaction sample_rid [VInt 7, VInt 8] sample_db = (Inl e, sample_db)"
  by (rule commit_rejects_unchanged) (simp_all add: commit_ok_def sample_rid_def sample_facts)

text \<open>C25: Write-ahead: whatever calls into the operating system fail, and wherever they break off, when a commit
  returns or throws its whole record is in the log and the header points to it, or no frame of the pool and no page on
  disk has changed.\<close>

theorem commit_log_before_page:
  assumes "CommitTransaction rid row s = (r, t)" and "wal_of (pool s) = log_file rs" and "LSN s < 2 ^ 64 - 1"
  shows "wal_of (pool t) = log_file (rs @ [commit_record (LSN s + 1) rid row]) \<or>
    frames (pool t) = frames (pool s) \<and> (\<forall>ty. page_file ty (disk_operator (pool t)) = page_file ty (disk_operator (pool s)))"
  using assms by (rule commit_write_ahead)

definition failing_db :: wal_db where
  "failing_db = sample_db\<lparr>pool := new_pool (sample_disk\<lparr>io_script := [IO_fail 0]\<rparr>)\<rparr>"

lemma failing_commit:
  "\<exists>e t. CommitTransaction sample_rid [VInt 7] failing_db = (Inl e, t) \<and> length (wal_of (pool t)) = 8"
proof -
  have l: "LSN failing_db < 65535" by (simp add: failing_db_def sample_db_def)
  have "\<exists>e d. write_to_wal w b (disk_operator (pool failing_db)) = (Inl e, d) \<and> length (wal_file d) = 8" for w b
    by (simp add: failing_db_def new_pool_def write_to_wal_def sys_check_def sys_call_def bindS_def sample_disk_def log_file_def last_offset_def)
  then obtain e d where "write_to_wal (fst (commit_record (LSN failing_db + 1) sample_rid [VInt 7]))
      (serialize_row [VInt 7]) (disk_operator (pool failing_db)) = (Inl e, d)" "length (wal_file d) = 8" by blast
  then show ?thesis
    by (simp add: commit_shape [OF sample_facts(6) l] bindS_def on_pool_def dp_write_to_wal_def on_disk_def wal_of_def)
qed

theorem commit_log_before_page_witness:
  "\<exists>e t. CommitTransaction sample_rid [VInt 7] failing_db = (Inl e, t) \<and>
     frames (pool t) = frames (pool failing_db)"
proof -
  obtain e t where c: "CommitTransaction sample_rid [VInt 7] failing_db = (Inl e, t)"
    "length (wal_of (pool t)) = 8" using failing_commit by blast
  have "LSN failing_db < 2 ^ 64 - 1" by (simp add: failing_db_def sample_db_def)
  moreover have "wal_of (pool failing_db) = log_file []"
    by (simp add: failing_db_def sample_disk_def wal_of_def log_file_def last_offset_def new_pool_def)
  moreover have "wal_of (pool t) \<noteq> log_file ([] @ [commit_record (LSN failing_db + 1) sample_rid [VInt 7]])"
  proof
    assume "wal_of (pool t) = log_file ([] @ [commit_record (LSN failing_db + 1) sample_rid [VInt 7]])"
    from arg_cong [OF this, of length] c(2) show False by (simp add: log_file_def record_bytes_def)
  qed
  ultimately show ?thesis using commit_log_before_page [OF c(1), of "[]"] c(1) by blast
qed

text \<open>C22: Replay refines the abstract redo: on the log of any sequence of well-formed records,
  followed by any tail an interrupted append may have left, it returns, and the pages are then
  exactly those of redoing the records in order, a page that has already seen a record being
  left alone.\<close>

theorem replay_redoes_log:
  assumes "healthy (pool s)" "\<not> exhausted (pins (pool s))"
    and "wal_of (pool s) = log_file rs @ junk" "list_all record_ok rs" "length (log_file rs) < 2 ^ 64"
  shows "\<exists>t. ReplayTransaction s = (Inr (), t) \<and> healthy (pool t) \<and> pins (pool t) = pins (pool s) \<and>
    LSN t = LSN s \<and> (\<forall>q. valid_page HEAP_PAGE q \<longrightarrow> heap_view (pool t) q = redo_all rs (heap_view (pool s)) q)"
  using replay_whole [OF assms] by (auto simp: same_heap_def)

definition logged_db :: "byte list \<Rightarrow> wal_db" where
  "logged_db junk = \<lparr>pool = new_pool (sample_disk\<lparr>wal_file :=
     log_file [commit_record 1 sample_rid [VInt 7]] @ junk\<rparr>), LSN = 0\<rparr>"

lemma logged_facts:
  "healthy (pool (logged_db junk))" "\<not> exhausted (pins (pool (logged_db junk)))"
  "wal_of (pool (logged_db junk)) = log_file [commit_record 1 sample_rid [VInt 7]] @ junk"
  "heap_view (pool (logged_db junk)) q = zero_page"
  "length (log_file [commit_record 1 sample_rid [VInt 7]]) < 2 ^ 64"
  using length_record_bytes [OF sample_record]
  by (simp_all add: logged_db_def sample_disk_def healthy_new wal_of_def disk_page_def log_file_def
      commit_record_def)

theorem replay_redoes_log_witness:
  "\<exists>t. ReplayTransaction (logged_db [1, 2, 3]) = (Inr (), t) \<and>
     heap_view (pool t) 0 = redo_all [commit_record 1 sample_rid [VInt 7]] (heap_view (pool (logged_db [1, 2, 3]))) 0"
proof -
  have "list_all record_ok [commit_record 1 sample_rid [VInt 7]]" using sample_record by simp
  from replay_redoes_log [OF logged_facts(1-3) this logged_facts(5)]
  obtain t where "ReplayTransaction (logged_db [1, 2, 3]) = (Inr (), t)"
    "\<forall>q. valid_page HEAP_PAGE q \<longrightarrow> heap_view (pool t) q =
       redo_all [commit_record 1 sample_rid [VInt 7]] (heap_view (pool (logged_db [1, 2, 3]))) q" by blast
  moreover have "valid_page HEAP_PAGE 0" by (simp add: valid_page_def int_range_def)
  ultimately show ?thesis by blast
qed

text \<open>C31: Replay is idempotent: replaying the same log again after a replay returns and leaves every
  page as the first replay left it.\<close>

theorem replay_idempotent:
  assumes "healthy (pool s)" "\<not> exhausted (pins (pool s))"
    and "wal_of (pool s) = log_file rs @ junk" "list_all record_ok rs" "length (log_file rs) < 2 ^ 64"
    and "ReplayTransaction s = (Inr (), t)"
  shows "\<exists>u. ReplayTransaction t = (Inr (), u) \<and>
    (\<forall>q. valid_page HEAP_PAGE q \<longrightarrow> heap_view (pool u) q = heap_view (pool t) q)"
proof -
  have t: "healthy (pool t)" "\<not> exhausted (pins (pool t))" "wal_of (pool t) = wal_of (pool s)"
    "same_heap (heap_view (pool t)) (redo_all rs (heap_view (pool s)))"
    using replay_whole [OF assms(1-5)] assms(2,6) by auto
  obtain u where u: "ReplayTransaction t = (Inr (), u)"
    "same_heap (heap_view (pool u)) (redo_all rs (heap_view (pool t)))"
    using replay_whole [OF t(1,2) _ assms(4,5), of junk] assms(3) t(3) by auto
  have "same_heap (redo_all rs (heap_view (pool t))) (redo_all rs (heap_view (pool s)))"
    using redo_all_same_heap [OF assms(4) t(4)] redo_all_idem [OF assms(4)] by simp
  then show ?thesis using u t(4) by (auto simp: same_heap_def)
qed

theorem replay_idempotent_witness:
  "\<exists>t u. ReplayTransaction (logged_db []) = (Inr (), t) \<and> ReplayTransaction t = (Inr (), u) \<and>
     heap_view (pool u) 0 = heap_view (pool t) 0"
proof -
  have rs: "list_all record_ok [commit_record 1 sample_rid [VInt 7]]" using sample_record by simp
  obtain t where "ReplayTransaction (logged_db []) = (Inr (), t)"
    using replay_whole [OF logged_facts(1-3) rs logged_facts(5)] by blast
  moreover have "valid_page HEAP_PAGE 0" by (simp add: valid_page_def int_range_def)
  ultimately show ?thesis
    using replay_idempotent [OF logged_facts(1-3) rs logged_facts(5)] by blast
qed

text \<open>C21: A committed row survives a crash that loses its page: wherever its record stands in the log, among records
  of any transactions and pages, replaying the log makes the scan's decoder read the row back at the slot's
  offset.  The page, as it is on disk when the replay begins, is older than the record or has the row already; the
  records before it have smaller LSNs, the later ones of the same page belong to other slots; the row fits its columns
  and its strings are shorter than 500 characters without NUL (\<open>row_readable\<close>).\<close>

theorem committed_row_recovered:
  assumes "healthy (pool s)" "\<not> exhausted (pins (pool s))"
    and "wal_of (pool s) = log_file (rs @ commit_record n rid row # rs') @ junk"
    and "list_all record_ok (rs @ commit_record n rid row # rs')"
    and "length (log_file (rs @ commit_record n rid row # rs')) < 2 ^ 64"
    and "\<forall>a \<in> set rs. entry_lsn (fst a) < n" "\<forall>a \<in> set rs'. elsewhere rid row a"
    and "hp_lsn (heap_view (pool s) (rid_pid rid)) < n \<or> holds_row (heap_view (pool s) (rid_pid rid)) rid row"
    and "row_readable row"
  shows "\<exists>t. ReplayTransaction s = (Inr (), t) \<and>
    read_row (heap_view (pool t) (rid_pid rid)) (heap_data + slot_offset (rid_slot rid)) (row_types row) = Inr row"
proof -
  let ?r = "commit_record n rid row"
  have ok: "record_ok ?r" "valid_page HEAP_PAGE (rid_pid rid)" using assms(4) by (simp_all add: record_ok_def commit_record_def)
  obtain t where t: "ReplayTransaction s = (Inr (), t)"
    "same_heap (heap_view (pool t)) (redo_all (rs @ ?r # rs') (heap_view (pool s)))"
    using replay_whole [OF assms(1-5)] by blast
  have "heap_view (pool t) (rid_pid rid) = redo_all rs' (redo_all (rs @ [?r]) (heap_view (pool s))) (rid_pid rid)"
    using t(2) ok(2) by (simp add: same_heap_def)
  moreover have "holds_row (redo_all (rs @ [?r]) (heap_view (pool s)) (rid_pid rid)) rid row"
    using assms(8)
  proof
    assume "hp_lsn (heap_view (pool s) (rid_pid rid)) < n"
    then show ?thesis
      using redo_all_bytes [of rs ?r "heap_view (pool s)"] assms(4,6) record_of_row [OF assms(9)] by (simp add: holds_row_def)
  next
    assume h: "holds_row (heap_view (pool s) (rid_pid rid)) rid row"
    show ?thesis
    proof (cases "hp_lsn (heap_view (pool s) (rid_pid rid)) < n")
      case True
      then show ?thesis
        using redo_all_bytes [of rs ?r "heap_view (pool s)"] assms(4,6) record_of_row [OF assms(9)] by (simp add: holds_row_def)
    next
      case False
      have "\<forall>a \<in> set (rs @ [?r]). entry_lsn (fst a) \<le> hp_lsn (heap_view (pool s) (rid_pid rid))"
        using False assms(6) record_of_row(1) [OF assms(9)] by (auto simp: not_less intro: less_imp_le less_le_trans)
      then have "redo_all (rs @ [?r]) (heap_view (pool s)) (rid_pid rid) = heap_view (pool s) (rid_pid rid)" by (rule redo_all_old)
      then show ?thesis using h by (simp only:)
    qed
  qed
  ultimately have "holds_row (heap_view (pool t) (rid_pid rid)) rid row"
    using redo_all_elsewhere assms(7) by simp
  moreover have "heap_data + slot_offset (rid_slot rid) + row_width row \<le> page_data_size"
    using ok(1) by (simp add: record_ok_def commit_record_def)
  ultimately show ?thesis
    using t(1) read_row_written [OF assms(9)] by (auto simp: holds_row_def)
qed

theorem committed_row_recovered_witness:
  "\<exists>t. ReplayTransaction (logged_db [9]) = (Inr (), t) \<and>
     read_row (heap_view (pool t) 0) 4092 [INTEGER] = Inr [VInt 7]"
proof -
  have "list_all record_ok ([] @ [commit_record 1 sample_rid [VInt 7]])"
    "length (log_file ([] @ [commit_record 1 sample_rid [VInt 7]])) < 2 ^ 64"
    "wal_of (pool (logged_db [9])) = log_file ([] @ [commit_record 1 sample_rid [VInt 7]]) @ [9]"
    "hp_lsn (heap_view (pool (logged_db [9])) (rid_pid sample_rid)) < 1" "row_readable [VInt 7]"
    using sample_record logged_facts(3,5)
    by (simp_all add: logged_facts(4) zero_page_def hp_lsn_def get_nat_def get_bytes_def
        row_readable_def int_range_def upt_rec)
  from committed_row_recovered [OF logged_facts(1,2) this(3,1,2) _ _ disjI1 [OF this(4)] this(5)]
  show ?thesis by (simp add: sample_rid_def)
qed

text \<open>C32: Opening the log restores the LSN of the last record, also when an interrupted append has
  left bytes behind it.\<close>

theorem open_wal_restores_lsn:
  assumes "list_all record_ok (rs @ [r])" "length (log_file (rs @ [r])) < 2 ^ 64"
    and "wal_of p = log_file (rs @ [r]) @ junk"
  shows "LSN (open_wal p) = entry_lsn (fst r)"
  using initial_lsn_log [OF assms(1,2), of junk] assms(3) by (simp add: open_wal_def wal_of_def)

theorem open_wal_restores_lsn_witness: "LSN (open_wal (pool (logged_db [5]))) = 1"
proof -
  have "list_all record_ok ([] @ [commit_record 1 sample_rid [VInt 7]])"
    "length (log_file ([] @ [commit_record 1 sample_rid [VInt 7]])) < 2 ^ 64"
    "wal_of (pool (logged_db [5])) = log_file ([] @ [commit_record 1 sample_rid [VInt 7]]) @ [5]"
    using sample_record logged_facts(3,5) by simp_all
  from open_wal_restores_lsn [OF this] show ?thesis by (simp add: commit_record_def)
qed

end
