(* ===== verification/Index_Node.thy ===== *)
theory Index_Node
  imports Storage_Types Disk
begin

text \<open>
  Nodes of the B+ tree (\<open>btree_page_types::Node\<close>) on the bytes of an index page, and the four
  operations of \<open>src/storage_manager/access_methods.cpp\<close> that change nodes: insertion into a leaf
  and into an internal node, and the two splits.
\<close>

section \<open>The layout of a node\<close>

text \<open>
  \<open>Node\<close> is packed: the leaf flag at 0, the key count at 1, three keys from offset 5, and the
  union at 17, which is three row identifiers of twelve bytes and the number of the next leaf, or
  four page numbers.
\<close>

definition MAX_KEYS :: nat where "MAX_KEYS = 3"

definition sizeof_RID :: nat where "sizeof_RID = 12"

lemma node_constants [simp]: "MAX_KEYS = 3" "sizeof_RID = 12"
  by (simp_all add: MAX_KEYS_def sizeof_RID_def)

definition nd_is_leaf :: "mem \<Rightarrow> bool" where "nd_is_leaf m = get_bool m 0"
definition nd_key_count :: "mem \<Rightarrow> int" where "nd_key_count m = get_int m 1"
definition nd_key :: "mem \<Rightarrow> nat \<Rightarrow> int" where "nd_key m i = get_int m (5 + 4 * i)"
definition nd_value :: "mem \<Rightarrow> nat \<Rightarrow> byte list" where "nd_value m i = get_bytes m (17 + sizeof_RID * i) sizeof_RID"
definition nd_next_leaf :: "mem \<Rightarrow> int" where "nd_next_leaf m = get_int m 53"
definition nd_child :: "mem \<Rightarrow> nat \<Rightarrow> int" where "nd_child m i = get_int m (17 + 4 * i)"

definition set_is_leaf :: "bool \<Rightarrow> mem \<Rightarrow> mem" where "set_is_leaf b = put_bool 0 b"
definition set_key_count :: "int \<Rightarrow> mem \<Rightarrow> mem" where "set_key_count n = put_int 1 n"
definition set_key :: "nat \<Rightarrow> int \<Rightarrow> mem \<Rightarrow> mem" where "set_key i k = put_int (5 + 4 * i) k"
definition set_value :: "nat \<Rightarrow> byte list \<Rightarrow> mem \<Rightarrow> mem" where "set_value i v = put_bytes (17 + sizeof_RID * i) v"
definition set_next_leaf :: "int \<Rightarrow> mem \<Rightarrow> mem" where "set_next_leaf p = put_int 53 p"
definition set_child :: "nat \<Rightarrow> int \<Rightarrow> mem \<Rightarrow> mem" where "set_child i p = put_int (17 + 4 * i) p"

lemmas nd_defs = nd_is_leaf_def nd_key_count_def nd_key_def nd_value_def nd_next_leaf_def nd_child_def
  set_is_leaf_def set_key_count_def set_key_def set_value_def set_next_leaf_def set_child_def

text \<open>Whole arrays: \<open>memcpy\<close> and \<open>memset\<close> on \<open>keys\<close>, \<open>values\<close> and \<open>child_nodes\<close>.\<close>

definition ints_image :: "int list \<Rightarrow> byte list" where
  "ints_image xs = concat (map (\<lambda>x. le_bytes 4 (int_bits x)) xs)"

definition copy_keys :: "int list \<Rightarrow> mem \<Rightarrow> mem" where "copy_keys ks = put_bytes 5 (ints_image ks)"
definition copy_values :: "byte list list \<Rightarrow> mem \<Rightarrow> mem" where "copy_values vs = put_bytes 17 (concat vs)"
definition copy_children :: "int list \<Rightarrow> mem \<Rightarrow> mem" where "copy_children ps = put_bytes 17 (ints_image ps)"

definition clear_keys :: "mem \<Rightarrow> mem" where "clear_keys = fill_bytes 5 (4 * MAX_KEYS) 0"
definition clear_values :: "mem \<Rightarrow> mem" where "clear_values = fill_bytes 17 (sizeof_RID * MAX_KEYS) 0"
definition clear_children :: "mem \<Rightarrow> mem" where "clear_children = fill_bytes 17 (4 * (MAX_KEYS + 1)) 0"

definition init_node :: "mem \<Rightarrow> mem" where
  "init_node m = set_next_leaf INVALID_PAGE_ID (set_is_leaf True (set_key_count 0 m))"

section \<open>Two pages\<close>

text \<open>The operations get the page to insert into and the page a split fills, which may be \<open>NULL\<close>.\<close>

record two_pages =
  left_page :: mem
  right_page :: "mem option"
  right_page_id :: int

record split_res =
  promoted_key :: int
  child_pid :: int

section \<open>Leaves\<close>

text \<open>The loop that makes room: \<open>i\<close> of the code is one less than the argument.\<close>

fun leaf_shift :: "int \<Rightarrow> nat \<Rightarrow> mem \<Rightarrow> nat \<times> mem" where
  "leaf_shift key 0 m = (0, m)"
| "leaf_shift key (Suc i) m =
     (if nd_key m i > key \<and> nd_key m i \<noteq> key
      then leaf_shift key i (set_value (Suc i) (nd_value m i) (set_key (Suc i) (nd_key m i) m))
      else (Suc i, m))"

fun temp_shift :: "int \<Rightarrow> nat \<Rightarrow> int list \<times> 'v list \<Rightarrow> nat \<times> int list \<times> 'v list" where
  "temp_shift key 0 (ks, vs) = (0, ks, vs)"
| "temp_shift key (Suc i) (ks, vs) =
     (if ks ! i > key then temp_shift key i (ks[Suc i := ks ! i], vs[Suc i := vs ! i]) else (Suc i, ks, vs))"

definition bptree_leaf_split :: "int list \<Rightarrow> byte list list \<Rightarrow> (two_pages, split_res) action" where
  "bptree_leaf_split temp_keys temp_rids s =
     (case right_page s of
        None \<Rightarrow> (Inl (Undefined ''NULL page''), s)
      | Some r0 \<Rightarrow>
          let old = clear_values (clear_keys (left_page s));
              total = nat (nd_key_count (left_page s) + 1);
              left_size = (total + 1) div 2;
              right_size = total - left_size;
              old1 = copy_values (take left_size temp_rids) (copy_keys (take left_size temp_keys) old);
              new1 = copy_values (take right_size (drop left_size temp_rids))
                (copy_keys (take right_size (drop left_size temp_keys)) (set_is_leaf True r0));
              new2 = set_next_leaf (nd_next_leaf old1) new1;
              old2 = set_next_leaf (right_page_id s) old1;
              old3 = set_key_count (int left_size) old2;
              new3 = set_key_count (int right_size) new2 in
          (Inr \<lparr>promoted_key = nd_key new3 0, child_pid = right_page_id s\<rparr>,
           s\<lparr>left_page := old3, right_page := Some new3\<rparr>))"

definition bptree_leaf_insert :: "int \<Rightarrow> byte list \<Rightarrow> (two_pages, split_res option) action" where
  "bptree_leaf_insert key rid s =
     (let m = left_page s; n = nd_key_count m in
      if n < int MAX_KEYS then
        if n = 0 then
          (Inr None, s\<lparr>left_page := set_value 0 rid (set_key 0 key (set_key_count 1 m))\<rparr>)
        else if n < 0 then (Inl (Undefined ''key index''), s)
        else
          (case leaf_shift key (nat n) (set_key_count (n + 1) m) of
             (p, m') \<Rightarrow> (Inr None, s\<lparr>left_page := set_value p rid (set_key p key m')\<rparr>))
      else if int MAX_KEYS < n then (Inl (Undefined ''memcpy past the array''), s)
      else
        (case temp_shift key (nat n) (map (nd_key m) [0..<nat n] @ [0], map (nd_value m) [0..<nat n] @ [[]]) of
           (p, ks, vs) \<Rightarrow>
             if right_page s = None then (Inl (Runtime ''RIGHT RAW PAGE RECIEVED NULL''), s)
             else bindS (bptree_leaf_split (ks[p := key]) (vs[p := rid])) (\<lambda>r. returnS (Some r)) s))"

section \<open>Internal nodes\<close>

fun internal_shift :: "int \<Rightarrow> nat \<Rightarrow> mem \<Rightarrow> nat \<times> mem" where
  "internal_shift key 0 m = (0, m)"
| "internal_shift key (Suc i) m =
     (if nd_key m i > key
      then internal_shift key i (set_child (i + 2) (nd_child m (i + 1)) (set_key (Suc i) (nd_key m i) m))
      else (Suc i, m))"

fun temp_child_shift :: "int \<Rightarrow> nat \<Rightarrow> int list \<times> int list \<Rightarrow> nat \<times> int list \<times> int list" where
  "temp_child_shift key 0 (ks, cs) = (0, ks, cs)"
| "temp_child_shift key (Suc i) (ks, cs) =
     (if ks ! i > key then temp_child_shift key i (ks[Suc i := ks ! i], cs[i + 2 := cs ! (i + 1)]) else (Suc i, ks, cs))"

definition bptree_internal_split :: "int list \<Rightarrow> int list \<Rightarrow> (two_pages, split_res) action" where
  "bptree_internal_split temp_keys temp_child_id s =
     (case right_page s of
        None \<Rightarrow> (Inl (Undefined ''NULL page''), s)
      | Some r0 \<Rightarrow>
          let old = clear_children (clear_keys (left_page s));
              total = nat (nd_key_count (left_page s) + 1);
              split_idx = total div 2;
              left_size = split_idx;
              right_size = total - left_size - 1;
              old1 = copy_keys (take left_size temp_keys) old;
              new1 = copy_keys (take right_size (drop left_size temp_keys)) (set_is_leaf False r0);
              old2 = copy_children (take (left_size + 1) temp_child_id) old1;
              new2 = copy_children (take (right_size + 1) (drop (left_size + 1) temp_child_id)) new1 in
          (Inr \<lparr>promoted_key = temp_keys ! split_idx, child_pid = right_page_id s\<rparr>,
           s\<lparr>left_page := set_key_count (int left_size) old2,
             right_page := Some (set_key_count (int right_size) new2)\<rparr>))"

text \<open>An insertion into an empty internal node stores the key and no child.\<close>

definition bptree_internal_insert :: "int \<Rightarrow> int \<Rightarrow> (two_pages, split_res option) action" where
  "bptree_internal_insert child key s =
     (let m = left_page s; n = nd_key_count m in
      if n < int MAX_KEYS then
        if n = 0 then
          (Inr None, s\<lparr>left_page := set_key 0 key (set_is_leaf False (set_key_count 1 m))\<rparr>)
        else if n < 0 then (Inl (Undefined ''key index''), s)
        else
          (case internal_shift key (nat n) (set_key_count (n + 1) m) of
             (p, m') \<Rightarrow> (Inr None, s\<lparr>left_page := set_child (p + 1) child (set_key p key m')\<rparr>))
      else if int MAX_KEYS < n then (Inl (Undefined ''memcpy past the array''), s)
      else
        (case temp_child_shift key (nat n)
            (map (nd_key m) [0..<nat n] @ [0], map (nd_child m) [0..<nat n + 1] @ [0]) of
           (p, ks, cs) \<Rightarrow>
             bindS (bptree_internal_split (ks[p := key]) (cs[p + 1 := child])) (\<lambda>r. returnS (Some r)) s))"

section \<open>Fields are independent\<close>

lemma get_in_put [mem_simps]:
  assumes "off \<le> k" "k + n \<le> off + length bs"
  shows "get_bytes (put_bytes off bs m) k n = take n (drop (k - off) bs)"
  using assms by (intro nth_equalityI) (auto simp: get_bytes_def put_bytes_def)

lemma node_same [mem_simps]:
  "nd_is_leaf (set_is_leaf b m) = b"
  "int_range n \<Longrightarrow> nd_key_count (set_key_count n m) = n"
  "int_range k \<Longrightarrow> nd_key (set_key i k m) i = k"
  "length v = 12 \<Longrightarrow> nd_value (set_value i v m) i = v"
  "int_range p \<Longrightarrow> nd_next_leaf (set_next_leaf p m) = p"
  "int_range p \<Longrightarrow> nd_child (set_child i p m) i = p"
  by (simp_all add: nd_defs get_put_same get_int_put_int get_bool_put_bool)

lemma node_key_other [mem_simps]:
  "nd_is_leaf (set_key i k m) = nd_is_leaf m"
  "nd_key_count (set_key i k m) = nd_key_count m"
  "i \<noteq> j \<Longrightarrow> nd_key (set_key i k m) j = nd_key m j"
  "i < 3 \<Longrightarrow> nd_value (set_key i k m) j = nd_value m j"
  "i < 3 \<Longrightarrow> nd_next_leaf (set_key i k m) = nd_next_leaf m"
  "i < 3 \<Longrightarrow> nd_child (set_key i k m) j = nd_child m j"
  by (auto simp: nd_defs mem_simps neq_iff)

lemma node_count_other [mem_simps]:
  "nd_is_leaf (set_key_count n m) = nd_is_leaf m"
  "nd_key (set_key_count n m) j = nd_key m j"
  "nd_value (set_key_count n m) j = nd_value m j"
  "nd_next_leaf (set_key_count n m) = nd_next_leaf m"
  "nd_child (set_key_count n m) j = nd_child m j"
  "nd_key_count (set_is_leaf b m) = nd_key_count m"
  "nd_key (set_is_leaf b m) j = nd_key m j"
  "nd_value (set_is_leaf b m) j = nd_value m j"
  "nd_next_leaf (set_is_leaf b m) = nd_next_leaf m"
  "nd_child (set_is_leaf b m) j = nd_child m j"
  by (simp_all add: nd_defs mem_simps)

lemma node_value_other [mem_simps]:
  "nd_is_leaf (set_value i v m) = nd_is_leaf m"
  "nd_key_count (set_value i v m) = nd_key_count m"
  "j < 3 \<Longrightarrow> nd_key (set_value i v m) j = nd_key m j"
  "length v = 12 \<Longrightarrow> i \<noteq> j \<Longrightarrow> nd_value (set_value i v m) j = nd_value m j"
  "length v = 12 \<Longrightarrow> i < 3 \<Longrightarrow> nd_next_leaf (set_value i v m) = nd_next_leaf m"
  by (auto simp: nd_defs mem_simps neq_iff)

lemma node_next_other [mem_simps]:
  "nd_is_leaf (set_next_leaf p m) = nd_is_leaf m"
  "nd_key_count (set_next_leaf p m) = nd_key_count m"
  "j < 3 \<Longrightarrow> nd_key (set_next_leaf p m) j = nd_key m j"
  "j < 3 \<Longrightarrow> nd_value (set_next_leaf p m) j = nd_value m j"
  "j < 4 \<Longrightarrow> nd_child (set_next_leaf p m) j = nd_child m j"
  by (auto simp: nd_defs mem_simps)

lemma node_child_other [mem_simps]:
  "nd_is_leaf (set_child i p m) = nd_is_leaf m"
  "nd_key_count (set_child i p m) = nd_key_count m"
  "j < 3 \<Longrightarrow> nd_key (set_child i p m) j = nd_key m j"
  "i \<noteq> j \<Longrightarrow> nd_child (set_child i p m) j = nd_child m j"
  by (auto simp: nd_defs mem_simps neq_iff)

lemma length_nd_value [simp]: "length (nd_value m i) = 12"
  by (simp add: nd_value_def)

lemma nd_ranges [simp]: "int_range (nd_key m i)" "int_range (nd_child m i)" "int_range (nd_key_count m)"
  "int_range (nd_next_leaf m)"
  by (simp_all add: nd_defs get_int_range)

end
