(* ===== verification/Index_Leaf.thy ===== *)
theory Index_Leaf
  imports Index_Node
begin

text \<open>
  What the node operations do: insertion keeps a leaf sorted, a leaf split cuts the sorted
  entries in two, and what the split of an internal node makes of its keys.
\<close>

section \<open>Arrays\<close>

lemma length_ints_image [simp]: "length (ints_image xs) = 4 * length xs"
  by (induction xs) (simp_all add: ints_image_def)

lemma ints_image_nth:
  "i < length xs \<Longrightarrow> take 4 (drop (4 * i) (ints_image xs)) = le_bytes 4 (int_bits (xs ! i))"
proof (induction xs arbitrary: i)
  case Nil
  then show ?case by simp
next
  case (Cons x xs)
  then show ?case by (cases i) (simp_all add: ints_image_def)
qed

lemma concat_nth:
  "(\<And>v. v \<in> set vs \<Longrightarrow> length v = n) \<Longrightarrow> i < length vs \<Longrightarrow> take n (drop (n * i) (concat vs)) = vs ! i"
proof (induction vs arbitrary: i)
  case Nil
  then show ?case by simp
next
  case (Cons v vs)
  then show ?case by (cases i) simp_all
qed

lemma length_concat_const: "(\<And>v. v \<in> set vs \<Longrightarrow> length v = n) \<Longrightarrow> length (concat vs) = n * length vs"
  by (induction vs) simp_all

lemma get_int_of_bytes:
  "get_bytes m off 4 = le_bytes 4 (int_bits x) \<Longrightarrow> int_range x \<Longrightarrow> get_int m off = x"
  using int_bits_lt [of x] by (simp add: get_int_def get_nat_def)

lemma copy_keys_same [mem_simps]:
  assumes "i < length ks" "int_range (ks ! i)"
  shows "nd_key (copy_keys ks m) i = ks ! i"
proof -
  have "4 * i + 4 \<le> 4 * length ks" using assms(1) by simp
  then have "get_bytes (copy_keys ks m) (5 + 4 * i) 4 = take 4 (drop (4 * i) (ints_image ks))"
    by (simp add: copy_keys_def mem_simps)
  then show ?thesis
    using assms by (simp add: nd_key_def ints_image_nth get_int_of_bytes)
qed

lemma copy_values_same [mem_simps]:
  assumes "i < length vs" "list_all (\<lambda>v. length v = 12) vs"
  shows "nd_value (copy_values vs m) i = vs ! i"
proof -
  have l: "\<And>v. v \<in> set vs \<Longrightarrow> length v = 12" using assms(2) by (simp add: list_all_iff)
  have "12 * i + 12 \<le> 12 * length vs" using assms(1) by simp
  then have "get_bytes (copy_values vs m) (17 + 12 * i) 12 = take 12 (drop (12 * i) (concat vs))"
    by (simp add: copy_values_def mem_simps length_concat_const [of vs 12, OF l])
  then show ?thesis
    using concat_nth [of vs 12 i] l assms(1) by (simp add: nd_value_def)
qed

lemma copy_children_same [mem_simps]:
  assumes "i < length ps" "int_range (ps ! i)"
  shows "nd_child (copy_children ps m) i = ps ! i"
proof -
  have "4 * i + 4 \<le> 4 * length ps" using assms(1) by simp
  then have "get_bytes (copy_children ps m) (17 + 4 * i) 4 = take 4 (drop (4 * i) (ints_image ps))"
    by (simp add: copy_children_def mem_simps)
  then show ?thesis
    using assms by (simp add: nd_child_def ints_image_nth get_int_of_bytes)
qed

lemma copy_keys_other [mem_simps]:
  "nd_is_leaf (copy_keys ks m) = nd_is_leaf m"
  "nd_key_count (copy_keys ks m) = nd_key_count m"
  "length ks \<le> 3 \<Longrightarrow> nd_value (copy_keys ks m) j = nd_value m j"
  "length ks \<le> 3 \<Longrightarrow> nd_next_leaf (copy_keys ks m) = nd_next_leaf m"
  "length ks \<le> 3 \<Longrightarrow> nd_child (copy_keys ks m) j = nd_child m j"
  by (auto simp: nd_defs copy_keys_def mem_simps)

lemma copy_values_other [mem_simps]:
  "nd_is_leaf (copy_values vs m) = nd_is_leaf m"
  "nd_key_count (copy_values vs m) = nd_key_count m"
  "j < 3 \<Longrightarrow> nd_key (copy_values vs m) j = nd_key m j"
  "length (concat vs) \<le> 36 \<Longrightarrow> nd_next_leaf (copy_values vs m) = nd_next_leaf m"
  by (auto simp: nd_defs copy_values_def mem_simps)

lemma copy_children_other [mem_simps]:
  "nd_is_leaf (copy_children ps m) = nd_is_leaf m"
  "nd_key_count (copy_children ps m) = nd_key_count m"
  "j < 3 \<Longrightarrow> nd_key (copy_children ps m) j = nd_key m j"
  "length ps \<le> 4 \<Longrightarrow> nd_next_leaf (copy_children ps m) = nd_next_leaf m"
  by (auto simp: nd_defs copy_children_def mem_simps)

lemma clear_other [mem_simps]:
  "nd_is_leaf (clear_keys m) = nd_is_leaf m" "nd_is_leaf (clear_values m) = nd_is_leaf m"
  "nd_is_leaf (clear_children m) = nd_is_leaf m"
  "nd_key_count (clear_keys m) = nd_key_count m"
  "nd_key_count (clear_values m) = nd_key_count m"
  "nd_key_count (clear_children m) = nd_key_count m"
  "nd_next_leaf (clear_keys m) = nd_next_leaf m"
  "nd_next_leaf (clear_values m) = nd_next_leaf m"
  "nd_next_leaf (clear_children m) = nd_next_leaf m"
  by (auto simp: nd_defs clear_keys_def clear_values_def clear_children_def get_int_def get_nat_def
      get_bool_def mem_simps)

section \<open>Insertion into a leaf\<close>

definition entries :: "mem \<Rightarrow> (int \<times> byte list) list" where
  "entries m = map (\<lambda>i. (nd_key m i, nd_value m i)) [0..<nat (nd_key_count m)]"

text \<open>Where a new entry goes: after the ones with a smaller or the same key.\<close>

definition insert_entry :: "int \<Rightarrow> 'v \<Rightarrow> (int \<times> 'v) list \<Rightarrow> (int \<times> 'v) list" where
  "insert_entry key v es = filter (\<lambda>e. fst e \<le> key) es @ (key, v) # filter (\<lambda>e. key < fst e) es"

lemma insert_entry_sorted: "sorted (map fst es) \<Longrightarrow> sorted (map fst (insert_entry key v es))"
  by (auto simp: insert_entry_def sorted_append intro!: sorted_filter)

lemma small_count:
  assumes "0 \<le> n" "n < (3 :: int)"
  shows "n = 0 \<or> n = 1 \<or> n = 2"
  using assms by auto

lemmas upt_small = upt_rec [of 0] upt_rec [of 1] upt_rec [of 2] upt_rec [of 3] upt_rec [of "Suc 0"]
  upt_rec [of "Suc (Suc 0)"]

text \<open>The page after an insertion that finds room.\<close>

definition leaf_with :: "int \<Rightarrow> byte list \<Rightarrow> mem \<Rightarrow> mem" where
  "leaf_with key rid m =
     (let n = nd_key_count m in
      if n = 0 then set_value 0 rid (set_key 0 key (set_key_count 1 m))
      else case leaf_shift key (nat n) (set_key_count (n + 1) m) of
        (p, m') \<Rightarrow> set_value p rid (set_key p key m'))"

lemma leaf_insert_eq:
  assumes "0 \<le> nd_key_count (left_page s)" "nd_key_count (left_page s) < int MAX_KEYS"
  shows "bptree_leaf_insert key rid s = (Inr None, s\<lparr>left_page := leaf_with key rid (left_page s)\<rparr>)"
  using assms by (simp add: bptree_leaf_insert_def leaf_with_def Let_def split: prod.split)

lemma entries_small:
  "nd_key_count m = 0 \<Longrightarrow> entries m = []"
  "nd_key_count m = 1 \<Longrightarrow> entries m = [(nd_key m 0, nd_value m 0)]"
  "nd_key_count m = 2 \<Longrightarrow> entries m = [(nd_key m 0, nd_value m 0), (nd_key m 1, nd_value m 1)]"
  "nd_key_count m = 3 \<Longrightarrow> entries m =
     [(nd_key m 0, nd_value m 0), (nd_key m 1, nd_value m 1), (nd_key m 2, nd_value m 2)]"
  by (simp_all add: entries_def upt_small flip: numeral_2_eq_2)

lemma leaf_with_ok:
  assumes n: "0 \<le> nd_key_count m" "nd_key_count m < int MAX_KEYS"
    and k: "int_range key" "length rid = sizeof_RID" and srt: "sorted (map fst (entries m))"
  shows "entries (leaf_with key rid m) = insert_entry key rid (entries m)"
    and "nd_key_count (leaf_with key rid m) = nd_key_count m + 1"
    and "nd_is_leaf (leaf_with key rid m) = nd_is_leaf m"
    and "nd_next_leaf (leaf_with key rid m) = nd_next_leaf m"
proof -
  have r: "int_range 1" "int_range 2" "int_range 3" by (simp_all add: int_range_def)
  have "nd_key_count m = 0 \<or> nd_key_count m = 1 \<or> nd_key_count m = 2"
    using small_count n by simp
  then have "entries (leaf_with key rid m) = insert_entry key rid (entries m) \<and>
      nd_key_count (leaf_with key rid m) = nd_key_count m + 1 \<and>
      nd_is_leaf (leaf_with key rid m) = nd_is_leaf m \<and> nd_next_leaf (leaf_with key rid m) = nd_next_leaf m"
  proof (elim disjE)
    assume c: "nd_key_count m = 0"
    then have "nd_key_count (leaf_with key rid m) = 1"
      using r by (simp add: leaf_with_def mem_simps)
    then show ?thesis
      using k c by (simp add: entries_small insert_entry_def) (simp add: leaf_with_def mem_simps)
  next
    assume c: "nd_key_count m = 1"
    then have "nd_key_count (leaf_with key rid m) = 2"
      using r by (simp add: leaf_with_def mem_simps)
    then show ?thesis
      using k c by (simp add: entries_small insert_entry_def) (simp add: leaf_with_def mem_simps)
  next
    assume c: "nd_key_count m = 2"
    then have "nd_key_count (leaf_with key rid m) = 3"
      using r by (simp add: leaf_with_def mem_simps numeral_2_eq_2)
    moreover have "nd_key m 0 \<le> nd_key m 1" using srt c by (simp add: entries_small)
    ultimately show ?thesis
      using k c by (simp add: entries_small insert_entry_def) (simp add: leaf_with_def mem_simps numeral_2_eq_2)
  qed
  then show "entries (leaf_with key rid m) = insert_entry key rid (entries m)"
    "nd_key_count (leaf_with key rid m) = nd_key_count m + 1"
    "nd_is_leaf (leaf_with key rid m) = nd_is_leaf m"
    "nd_next_leaf (leaf_with key rid m) = nd_next_leaf m" by auto
qed

section \<open>The split of a leaf\<close>

text \<open>The temporary arrays hold the sorted entries with the new one in its place.\<close>

lemma temp_insert:
  assumes "sorted [k0, k1, k2 :: int]"
  shows "case temp_shift key 3 ([k0, k1, k2, 0], [v0, v1, v2, d]) of (p, ks, vs) \<Rightarrow>
      zip (ks[p := key]) (vs[p := v]) = insert_entry key v [(k0, v0), (k1, v1), (k2, v2)] \<and>
      length ks = 4 \<and> length vs = 4"
  using assms by (auto simp: numeral_3_eq_3 numeral_2_eq_2 insert_entry_def)

lemma list_of_4:
  assumes "length xs = 4"
  obtains a b c d where "xs = [a, b, c, d]"
  using assms by (auto simp: length_Suc_conv numeral_eq_Suc)

lemma leaf_split_ok:
  assumes ks: "length ks = 4" "list_all int_range ks" and vs: "length vs = 4" "list_all (\<lambda>v. length v = 12) vs"
    and s: "nd_key_count (left_page s) = 3" "right_page s = Some r" "int_range (right_page_id s)"
  shows "\<exists>l' r'. bptree_leaf_split ks vs s =
      (Inr \<lparr>promoted_key = ks ! 2, child_pid = right_page_id s\<rparr>, s\<lparr>left_page := l', right_page := Some r'\<rparr>) \<and>
    entries l' = zip (take 2 ks) (take 2 vs) \<and> entries r' = zip (drop 2 ks) (drop 2 vs) \<and>
    nd_is_leaf l' = nd_is_leaf (left_page s) \<and> nd_is_leaf r' \<and>
    nd_next_leaf l' = right_page_id s \<and> nd_next_leaf r' = nd_next_leaf (left_page s)"
proof -
  obtain k0 k1 k2 k3 where k: "ks = [k0, k1, k2, k3]" using list_of_4 [OF ks(1)] .
  obtain v0 v1 v2 v3 where v: "vs = [v0, v1, v2, v3]" using list_of_4 [OF vs(1)] .
  have r2: "int_range 2" by (simp add: int_range_def)
  define l' where "l' = set_key_count 2 (set_next_leaf (right_page_id s)
    (copy_values [v0, v1] (copy_keys [k0, k1] (clear_values (clear_keys (left_page s))))))"
  define r' where "r' = set_key_count 2 (set_next_leaf (nd_next_leaf (left_page s))
    (copy_values [v2, v3] (copy_keys [k2, k3] (set_is_leaf True r))))"
  have "bptree_leaf_split ks vs s =
      (Inr \<lparr>promoted_key = ks ! 2, child_pid = right_page_id s\<rparr>, s\<lparr>left_page := l', right_page := Some r'\<rparr>)"
    using s ks(2) vs(2) by (simp add: bptree_leaf_split_def Let_def k v l'_def r'_def mem_simps)
  moreover have "nd_key_count l' = 2" "nd_key_count r' = 2"
    using r2 by (simp_all add: l'_def r'_def mem_simps)
  then have "entries l' = zip (take 2 ks) (take 2 vs)" "entries r' = zip (drop 2 ks) (drop 2 vs)"
    using ks(2) vs(2) by (simp_all add: entries_small k v) (simp_all add: l'_def r'_def mem_simps)
  moreover have "nd_is_leaf l' = nd_is_leaf (left_page s)" "nd_is_leaf r'"
    "nd_next_leaf l' = right_page_id s" "nd_next_leaf r' = nd_next_leaf (left_page s)"
    using s(3) by (simp_all add: l'_def r'_def mem_simps)
  ultimately show ?thesis by blast
qed

lemma leaf_insert_full:
  assumes n: "nd_key_count (left_page s) = int MAX_KEYS" and r: "right_page s = Some r" "int_range (right_page_id s)"
    and k: "int_range key" "length rid = sizeof_RID" and srt: "sorted (map fst (entries (left_page s)))"
  shows "\<exists>res l' r'. bptree_leaf_insert key rid s = (Inr (Some res), s\<lparr>left_page := l', right_page := Some r'\<rparr>) \<and>
    entries l' @ entries r' = insert_entry key rid (entries (left_page s)) \<and>
    length (entries l') = 2 \<and> length (entries r') = 2 \<and>
    promoted_key res = fst (hd (entries r')) \<and> child_pid res = right_page_id s \<and>
    nd_is_leaf l' = nd_is_leaf (left_page s) \<and> nd_is_leaf r' \<and>
    nd_next_leaf l' = right_page_id s \<and> nd_next_leaf r' = nd_next_leaf (left_page s)"
proof -
  let ?m = "left_page s"
  have c: "nd_key_count ?m = 3" using n by simp
  have e: "entries ?m = [(nd_key ?m 0, nd_value ?m 0), (nd_key ?m 1, nd_value ?m 1), (nd_key ?m 2, nd_value ?m 2)]"
    using entries_small(4) [OF c] .
  have st: "sorted [nd_key ?m 0, nd_key ?m 1, nd_key ?m 2]" using srt by (simp add: e)
  obtain p ks vs where t: "temp_shift key 3 ([nd_key ?m 0, nd_key ?m 1, nd_key ?m 2, 0],
      [nd_value ?m 0, nd_value ?m 1, nd_value ?m 2, []]) = (p, ks, vs)"
    by (cases "temp_shift key 3 ([nd_key ?m 0, nd_key ?m 1, nd_key ?m 2, 0],
      [nd_value ?m 0, nd_value ?m 1, nd_value ?m 2, []])")
  define ks' where "ks' = ks[p := key]"
  define vs' where "vs' = vs[p := rid]"
  have z: "zip ks' vs' = insert_entry key rid (entries ?m)" and l: "length ks' = 4" "length vs' = 4"
    using temp_insert [OF st, where key = key and v = rid and ?v0.0 = "nd_value ?m 0" and
        ?v1.0 = "nd_value ?m 1" and ?v2.0 = "nd_value ?m 2" and d = "[]", unfolded t]
    by (auto simp: ks'_def vs'_def e)
  have set: "set (zip ks' vs') \<subseteq> insert (key, rid) (set (entries ?m))"
    unfolding z by (auto simp: insert_entry_def)
  have "list_all (\<lambda>x. int_range (fst x) \<and> length (snd x) = 12) (zip ks' vs')"
    using set k by (auto simp: list_all_iff e)
  moreover obtain k0 k1 k2 k3 v0 v1 v2 v3 where kv: "ks' = [k0, k1, k2, k3]" "vs' = [v0, v1, v2, v3]"
    using list_of_4 [OF l(1)] list_of_4 [OF l(2)] by metis
  ultimately have rng: "list_all int_range ks'" "list_all (\<lambda>v. length v = 12) vs'" by auto
  obtain l' r' where sp: "bptree_leaf_split ks' vs' s =
      (Inr \<lparr>promoted_key = ks' ! 2, child_pid = right_page_id s\<rparr>, s\<lparr>left_page := l', right_page := Some r'\<rparr>)"
    "entries l' = zip (take 2 ks') (take 2 vs')" "entries r' = zip (drop 2 ks') (drop 2 vs')"
    "nd_is_leaf l' = nd_is_leaf ?m" "nd_is_leaf r'"
    "nd_next_leaf l' = right_page_id s" "nd_next_leaf r' = nd_next_leaf ?m"
    using leaf_split_ok [OF l(1) rng(1) l(2) rng(2) c r] by blast
  have "bptree_leaf_insert key rid s =
      (Inr (Some \<lparr>promoted_key = ks' ! 2, child_pid = right_page_id s\<rparr>), s\<lparr>left_page := l', right_page := Some r'\<rparr>)"
    using c r(1) t sp(1) by (simp add: bptree_leaf_insert_def Let_def upt_small bindS_def ks'_def vs'_def flip: numeral_2_eq_2)
  moreover have "entries l' @ entries r' = insert_entry key rid (entries ?m)"
    using z by (simp add: sp(2,3) kv)
  ultimately show ?thesis
    using sp by (intro exI [of _ l'] exI [of _ r'] exI conjI) (auto simp: kv)
qed

section \<open>Internal nodes\<close>

definition node_keys :: "mem \<Rightarrow> int list" where
  "node_keys m = map (nd_key m) [0..<nat (nd_key_count m)]"

definition node_children :: "mem \<Rightarrow> int list" where
  "node_children m = map (nd_child m) [0..<nat (nd_key_count m) + 1]"

text \<open>The new child goes to the right of its key.\<close>

definition insert_key :: "int \<Rightarrow> int list \<Rightarrow> int list" where
  "insert_key k ks = filter (\<lambda>x. x \<le> k) ks @ k # filter (\<lambda>x. k < x) ks"

definition insert_child :: "int \<Rightarrow> int \<Rightarrow> int list \<Rightarrow> int list \<Rightarrow> int list" where
  "insert_child k c ks cs =
     (let p = length (filter (\<lambda>x. x \<le> k) ks) in take (Suc p) cs @ c # drop (Suc p) cs)"

lemma node_small:
  "nd_key_count m = 1 \<Longrightarrow> node_keys m = [nd_key m 0] \<and> node_children m = [nd_child m 0, nd_child m 1]"
  "nd_key_count m = 2 \<Longrightarrow> node_keys m = [nd_key m 0, nd_key m 1] \<and>
     node_children m = [nd_child m 0, nd_child m 1, nd_child m 2]"
  "nd_key_count m = 3 \<Longrightarrow> node_keys m = [nd_key m 0, nd_key m 1, nd_key m 2] \<and>
     node_children m = [nd_child m 0, nd_child m 1, nd_child m 2, nd_child m 3]"
  by (simp_all add: node_keys_def node_children_def upt_small numeral_2_eq_2 numeral_3_eq_3)

definition node_with :: "int \<Rightarrow> int \<Rightarrow> mem \<Rightarrow> mem" where
  "node_with child key m =
     (case internal_shift key (nat (nd_key_count m)) (set_key_count (nd_key_count m + 1) m) of
       (p, m') \<Rightarrow> set_child (p + 1) child (set_key p key m'))"

lemma internal_insert_eq:
  assumes "1 \<le> nd_key_count (left_page s)" "nd_key_count (left_page s) < int MAX_KEYS"
  shows "bptree_internal_insert child key s = (Inr None, s\<lparr>left_page := node_with child key (left_page s)\<rparr>)"
  using assms by (simp add: bptree_internal_insert_def node_with_def Let_def split: prod.split)

lemma node_with_ok:
  assumes n: "1 \<le> nd_key_count m" "nd_key_count m < int MAX_KEYS"
    and k: "int_range key" "int_range child" and srt: "sorted (node_keys m)"
  shows "node_keys (node_with child key m) = insert_key key (node_keys m)"
    and "node_children (node_with child key m) = insert_child key child (node_keys m) (node_children m)"
    and "nd_is_leaf (node_with child key m) = nd_is_leaf m"
proof -
  have r: "int_range 2" "int_range 3" by (simp_all add: int_range_def)
  have "nd_key_count m = 1 \<or> nd_key_count m = 2" using n by auto
  then have "node_keys (node_with child key m) = insert_key key (node_keys m) \<and>
      node_children (node_with child key m) = insert_child key child (node_keys m) (node_children m) \<and>
      nd_is_leaf (node_with child key m) = nd_is_leaf m"
  proof
    assume c: "nd_key_count m = 1"
    then have "nd_key_count (node_with child key m) = 2"
      using r by (simp add: node_with_def mem_simps)
    then show ?thesis
      using k c by (simp add: node_small insert_key_def insert_child_def Let_def)
        (simp add: node_with_def mem_simps numeral_2_eq_2)
  next
    assume c: "nd_key_count m = 2"
    then have "nd_key_count (node_with child key m) = 3"
      using r by (simp add: node_with_def mem_simps numeral_2_eq_2)
    moreover have "nd_key m 0 \<le> nd_key m 1" using srt c by (simp add: node_small)
    ultimately show ?thesis
      using k c by (simp add: node_small insert_key_def insert_child_def Let_def)
        (simp add: node_with_def mem_simps numeral_2_eq_2 numeral_3_eq_3)
  qed
  then show "node_keys (node_with child key m) = insert_key key (node_keys m)"
    "node_children (node_with child key m) = insert_child key child (node_keys m) (node_children m)"
    "nd_is_leaf (node_with child key m) = nd_is_leaf m" by auto
qed

text \<open>
  The split of a full internal node.  The right node gets the key that is promoted, not the
  largest one: the largest key is lost, while its two children are kept.
\<close>

lemma internal_split_ok:
  assumes ks: "length ks = 4" "list_all int_range ks" and cs: "length cs = 5" "list_all int_range cs"
    and s: "nd_key_count (left_page s) = 3" "right_page s = Some r"
  shows "\<exists>l' r'. bptree_internal_split ks cs s =
      (Inr \<lparr>promoted_key = ks ! 2, child_pid = right_page_id s\<rparr>, s\<lparr>left_page := l', right_page := Some r'\<rparr>) \<and>
    node_keys l' = take 2 ks \<and> node_children l' = take 3 cs \<and>
    node_keys r' = [ks ! 2] \<and> node_children r' = drop 3 cs \<and>
    nd_is_leaf l' = nd_is_leaf (left_page s) \<and> \<not> nd_is_leaf r'"
proof -
  obtain k0 k1 k2 k3 where k: "ks = [k0, k1, k2, k3]" using list_of_4 [OF ks(1)] .
  obtain c0 c1 c2 c3 c4 where c: "cs = [c0, c1, c2, c3, c4]"
    using cs(1) by (auto simp: length_Suc_conv numeral_eq_Suc)
  have rg: "int_range 2" "int_range 1" by (simp_all add: int_range_def)
  define l' where "l' = set_key_count 2 (copy_children [c0, c1, c2] (copy_keys [k0, k1]
    (clear_children (clear_keys (left_page s)))))"
  define r' where "r' = set_key_count 1 (copy_children [c3, c4] (copy_keys [k2] (set_is_leaf False r)))"
  have "bptree_internal_split ks cs s =
      (Inr \<lparr>promoted_key = ks ! 2, child_pid = right_page_id s\<rparr>, s\<lparr>left_page := l', right_page := Some r'\<rparr>)"
    using s by (simp add: bptree_internal_split_def Let_def k c l'_def r'_def numeral_3_eq_3)
  moreover have "nd_key_count l' = 2" "nd_key_count r' = 1"
    using rg by (simp_all add: l'_def r'_def mem_simps)
  then have "node_keys l' = take 2 ks \<and> node_children l' = take 3 cs \<and>
      node_keys r' = [ks ! 2] \<and> node_children r' = drop 3 cs"
    using ks(2) cs(2) by (simp add: node_small k c numeral_3_eq_3)
      (simp add: l'_def r'_def mem_simps numeral_2_eq_2)
  moreover have "nd_is_leaf l' = nd_is_leaf (left_page s)" "\<not> nd_is_leaf r'"
    by (simp_all add: l'_def r'_def mem_simps)
  ultimately show ?thesis by blast
qed

section \<open>Properties\<close>

text \<open>Inserting into a sorted leaf that has room puts the entry after those with smaller or equal
  keys and before those with larger ones, so the leaf stays sorted; the leaf flag and the link to
  the next leaf are kept.\<close>

theorem leaf_insert_sorted:
  assumes "0 \<le> nd_key_count (left_page s)" "nd_key_count (left_page s) < int MAX_KEYS"
    and "int_range key" "length rid = sizeof_RID" "sorted (map fst (entries (left_page s)))"
  shows "\<exists>m'. bptree_leaf_insert key rid s = (Inr None, s\<lparr>left_page := m'\<rparr>) \<and>
    entries m' = insert_entry key rid (entries (left_page s)) \<and> sorted (map fst (entries m')) \<and>
    nd_is_leaf m' = nd_is_leaf (left_page s) \<and> nd_next_leaf m' = nd_next_leaf (left_page s)"
  using leaf_insert_eq [OF assms(1,2), of key rid] leaf_with_ok [OF assms]
    insert_entry_sorted [OF assms(5), of key rid] by auto

definition sample_rid_bytes :: "nat \<Rightarrow> byte list" where
  "sample_rid_bytes n = replicate 12 (word_of_nat n)"

definition empty_leaves :: two_pages where
  "empty_leaves = \<lparr>left_page = init_node zero_page, right_page = Some (init_node zero_page), right_page_id = 1\<rparr>"

lemma init_node_simps [mem_simps]:
  "nd_is_leaf (init_node m)" "nd_key_count (init_node m) = 0" "nd_next_leaf (init_node m) = -1"
  by (simp_all add: init_node_def mem_simps int_range_def)

theorem leaf_insert_sorted_witness:
  "\<exists>m'. bptree_leaf_insert 5 (sample_rid_bytes 1) empty_leaves = (Inr None, empty_leaves\<lparr>left_page := m'\<rparr>) \<and>
     entries m' = [(5, sample_rid_bytes 1)]"
proof -
  have e: "entries (left_page empty_leaves) = []" "nd_key_count (left_page empty_leaves) = 0"
    by (simp_all add: empty_leaves_def entries_def mem_simps)
  have "int_range 5" "length (sample_rid_bytes 1) = sizeof_RID" "sorted (map fst (entries (left_page empty_leaves)))"
    by (simp_all add: int_range_def sample_rid_bytes_def e)
  from leaf_insert_sorted [OF _ _ this] show ?thesis by (auto simp: e insert_entry_def)
qed

text \<open>Inserting into a full leaf splits it: the two leaves together hold exactly the old entries
  and the new one, in order, two each; the promoted key is the first of the right leaf, and the
  chain of leaves is kept.\<close>

theorem leaf_split_keeps_entries:
  assumes "nd_key_count (left_page s) = int MAX_KEYS" "right_page s = Some r" "int_range (right_page_id s)"
    and "int_range key" "length rid = sizeof_RID" "sorted (map fst (entries (left_page s)))"
  shows "\<exists>res l' r'. bptree_leaf_insert key rid s = (Inr (Some res), s\<lparr>left_page := l', right_page := Some r'\<rparr>) \<and>
    entries l' @ entries r' = insert_entry key rid (entries (left_page s)) \<and>
    length (entries l') = 2 \<and> length (entries r') = 2 \<and>
    promoted_key res = fst (hd (entries r')) \<and> child_pid res = right_page_id s \<and>
    nd_next_leaf l' = right_page_id s \<and> nd_next_leaf r' = nd_next_leaf (left_page s)"
  using leaf_insert_full [OF assms] by blast

definition full_leaf :: mem where
  "full_leaf = leaf_with 30 (sample_rid_bytes 3) (leaf_with 10 (sample_rid_bytes 1)
     (leaf_with 20 (sample_rid_bytes 2) (init_node zero_page)))"

lemma full_leaf_entries:
  "entries full_leaf = [(10, sample_rid_bytes 1), (20, sample_rid_bytes 2), (30, sample_rid_bytes 3)]"
  "nd_key_count full_leaf = 3" "nd_is_leaf full_leaf"
proof -
  have k: "int_range 10" "int_range 20" "int_range 30" "\<And>n. length (sample_rid_bytes n) = sizeof_RID"
    by (simp_all add: int_range_def sample_rid_bytes_def)
  define a where "a = leaf_with 20 (sample_rid_bytes 2) (init_node zero_page)"
  define b where "b = leaf_with 10 (sample_rid_bytes 1) a"
  have a: "entries a = [(20, sample_rid_bytes 2)]" "nd_key_count a = 1" "nd_is_leaf a"
    using leaf_with_ok(1,2,3) [OF _ _ k(2,4), of "init_node zero_page"]
    by (simp_all add: a_def mem_simps entries_def insert_entry_def)
  have b: "entries b = [(10, sample_rid_bytes 1), (20, sample_rid_bytes 2)]" "nd_key_count b = 2" "nd_is_leaf b"
    using leaf_with_ok(1,2,3) [OF _ _ k(1,4), of a] a by (simp_all add: b_def insert_entry_def)
  show "entries full_leaf = [(10, sample_rid_bytes 1), (20, sample_rid_bytes 2), (30, sample_rid_bytes 3)]"
    "nd_key_count full_leaf = 3" "nd_is_leaf full_leaf"
    unfolding full_leaf_def a_def [symmetric] b_def [symmetric]
    using leaf_with_ok(1,2,3) [OF _ _ k(3,4), of b 3] b by (simp_all add: insert_entry_def)
qed

theorem leaf_split_keeps_entries_witness:
  "\<exists>res l' r'. bptree_leaf_insert 15 (sample_rid_bytes 4) (empty_leaves\<lparr>left_page := full_leaf\<rparr>) =
     (Inr (Some res), (empty_leaves\<lparr>left_page := full_leaf\<rparr>)\<lparr>left_page := l', right_page := Some r'\<rparr>) \<and>
     map fst (entries l' @ entries r') = [10, 15, 20, 30]"
proof -
  let ?s = "empty_leaves\<lparr>left_page := full_leaf\<rparr>"
  have h: "nd_key_count (left_page ?s) = int MAX_KEYS" "right_page ?s = Some (init_node zero_page)"
    "int_range (right_page_id ?s)" "int_range 15" "length (sample_rid_bytes 4) = sizeof_RID"
    "sorted (map fst (entries (left_page ?s)))"
    by (simp_all add: full_leaf_entries empty_leaves_def int_range_def sample_rid_bytes_def)
  obtain res l' r' where sp: "bptree_leaf_insert 15 (sample_rid_bytes 4) ?s = (Inr (Some res), ?s\<lparr>left_page := l', right_page := Some r'\<rparr>)"
    "entries l' @ entries r' = insert_entry 15 (sample_rid_bytes 4) (entries (left_page ?s))"
    using leaf_split_keeps_entries [OF h] by blast
  have "map fst (entries l' @ entries r') = [10, 15, 20, 30]"
    unfolding sp(2) by (simp add: full_leaf_entries insert_entry_def)
  with sp(1) show ?thesis by (intro exI conjI)
qed

text \<open>Inserting a separator into an internal node that has room keeps the separators sorted and
  puts the new child directly to the right of its separator, the other children keeping their
  order.\<close>

theorem internal_insert_ordered:
  assumes "1 \<le> nd_key_count (left_page s)" "nd_key_count (left_page s) < int MAX_KEYS"
    and "int_range key" "int_range child" "sorted (node_keys (left_page s))"
  shows "\<exists>m'. bptree_internal_insert child key s = (Inr None, s\<lparr>left_page := m'\<rparr>) \<and>
    node_keys m' = insert_key key (node_keys (left_page s)) \<and> sorted (node_keys m') \<and>
    node_children m' = insert_child key child (node_keys (left_page s)) (node_children (left_page s))"
proof -
  have "sorted (insert_key key (node_keys (left_page s)))"
    using assms(5) sorted_filter [of id] by (auto simp: insert_key_def sorted_append)
  then show ?thesis
    using internal_insert_eq [OF assms(1,2), of child key] node_with_ok [OF assms] by auto
qed

definition small_node :: mem where
  "small_node = set_child 1 8 (set_child 0 7 (set_key 0 50 (set_is_leaf False (set_key_count 1 zero_page))))"

lemma small_node_facts: "nd_key_count small_node = 1" "node_keys small_node = [50]" "node_children small_node = [7, 8]"
proof -
  show c: "nd_key_count small_node = 1" by (simp add: small_node_def mem_simps int_range_def)
  show "node_keys small_node = [50]" "node_children small_node = [7, 8]"
    unfolding node_small(1) [OF c, THEN conjunct1] node_small(1) [OF c, THEN conjunct2]
    by (simp_all add: small_node_def mem_simps int_range_def)
qed

theorem internal_insert_ordered_witness:
  "\<exists>m'. bptree_internal_insert 9 30 (empty_leaves\<lparr>left_page := small_node\<rparr>) =
     (Inr None, (empty_leaves\<lparr>left_page := small_node\<rparr>)\<lparr>left_page := m'\<rparr>) \<and>
     node_keys m' = [30, 50] \<and> node_children m' = [7, 9, 8]"
proof -
  have "int_range 30" "int_range 9" by (simp_all add: int_range_def)
  from internal_insert_ordered [OF _ _ this, of "empty_leaves\<lparr>left_page := small_node\<rparr>"]
  show ?thesis by (auto simp: small_node_facts insert_key_def insert_child_def)
qed

text \<open>C35: The split of a full internal node loses the largest separator: of four distinct sorted keys
  the third is promoted and is also the only key of the right node, and the fourth is in neither
  node, although all five children are kept.\<close>

theorem internal_split_drops_largest:
  assumes "sorted_wrt (<) ks" "length ks = 4" "list_all int_range ks" "length cs = 5" "list_all int_range cs"
    and "nd_key_count (left_page s) = int MAX_KEYS" "right_page s = Some r"
  shows "\<exists>res l' r'. bptree_internal_split ks cs s = (Inr res, s\<lparr>left_page := l', right_page := Some r'\<rparr>) \<and>
    promoted_key res = ks ! 2 \<and> node_keys r' = [ks ! 2] \<and>
    ks ! 3 \<notin> set (node_keys l') \<union> {promoted_key res} \<union> set (node_keys r') \<and>
    node_children l' @ node_children r' = cs"
proof -
  obtain l' r' where b: "bptree_internal_split ks cs s =
      (Inr \<lparr>promoted_key = ks ! 2, child_pid = right_page_id s\<rparr>, s\<lparr>left_page := l', right_page := Some r'\<rparr>)"
    "node_keys l' = take 2 ks" "node_children l' = take 3 cs" "node_keys r' = [ks ! 2]" "node_children r' = drop 3 cs"
    using internal_split_ok [OF assms(2-5) _ assms(7)] assms(6) by auto
  obtain a b' c d where k: "ks = [a, b', c, d]" using list_of_4 [OF assms(2)] .
  have "ks ! 3 \<notin> set (take 2 ks) \<union> {ks ! 2}" using assms(1) by (simp add: k numeral_3_eq_3)
  then show ?thesis using b by (intro exI conjI) auto
qed

theorem internal_split_drops_largest_witness:
  "\<exists>res l' r'. bptree_internal_split [10, 20, 30, 40] [1, 2, 3, 4, 5]
       \<lparr>left_page = set_key_count 3 zero_page, right_page = Some zero_page, right_page_id = 6\<rparr> =
     (Inr res, \<lparr>left_page = l', right_page = Some r', right_page_id = 6\<rparr>) \<and> node_keys r' = [30]"
proof -
  let ?s = "\<lparr>left_page = set_key_count 3 zero_page, right_page = Some zero_page, right_page_id = 6\<rparr>"
  have "sorted_wrt (<) [10, 20, 30, 40 :: int]" "length [10, 20, 30, 40 :: int] = 4"
    "list_all int_range [10, 20, 30, 40]" "length [1, 2, 3, 4, 5 :: int] = 5" "list_all int_range [1, 2, 3, 4, 5]"
    "nd_key_count (left_page ?s) = int MAX_KEYS" "right_page ?s = Some zero_page"
    by (simp_all add: int_range_def mem_simps)
  from internal_split_drops_largest [OF this] show ?thesis by auto
qed

end
