(* ===== verification/Index_Tree.thy ===== *)
theory Index_Tree
  imports Index_Leaf Buffer_Store
begin

text \<open>
  The B+ tree on the pool: \<open>src/storage_manager/index_writer.cpp\<close> and \<open>bptree_scan\<close> of
  \<open>src/storage_manager/access_methods.cpp\<close>.  A descent follows page numbers found on pages, so
  nothing bounds it but the tree: it runs on fuel, and with fuel for the height it never runs out.
\<close>

section \<open>State\<close>

record index_state =
  ix_pool :: buffer_pool
  root_pid :: int

definition on_ix :: "(buffer_pool, 'a) action \<Rightarrow> (index_state, 'a) action" where
  "on_ix m s = (case m (ix_pool s) of (r, p) \<Rightarrow> (r, s\<lparr>ix_pool := p\<rparr>))"

section \<open>Operations\<close>

definition index_start :: "int \<Rightarrow> (buffer_pool, nat) action" where
  "index_start root = page_access root INDEX_PAGE"

text \<open>A page number is an \<open>int\<close>: \<open>get_last_pid\<close> is cut to 32 bits when it is passed on.\<close>

definition fetch_page :: "(buffer_pool, nat) action" where
  "fetch_page =
     bindS (get_last_pid INDEX_PAGE) (\<lambda>last_pid.
     bindS (page_access (bits_int (last_pid mod 2 ^ 32)) INDEX_PAGE) (\<lambda>i.
     bindS (through_page i (putS init_node)) (\<lambda>_.
     bindS (dp_write_page i INDEX_PAGE) (\<lambda>_.
     returnS i))))"

text \<open>Running a node operation on frames.\<close>

definition on_frames :: "nat \<Rightarrow> nat option \<Rightarrow> (two_pages, 'a) action \<Rightarrow> (buffer_pool, 'a) action" where
  "on_frames i j m s =
     (case m \<lparr>left_page = page_of i s, right_page = map_option (\<lambda>j. page_of j s) j,
        right_page_id = (case j of None \<Rightarrow> INVALID_PAGE_ID | Some j \<Rightarrow> page_id (frames s ! j))\<rparr> of
      (r, t) \<Rightarrow>
        (r, let s1 = upd_frame i (\<lambda>f. f\<lparr>page_data := left_page t\<rparr>) s in
            (case (j, right_page t) of
               (Some j, Some p) \<Rightarrow> upd_frame j (\<lambda>f. f\<lparr>page_data := p\<rparr>) s1
             | _ \<Rightarrow> s1)))"

definition unpin_frame :: "nat \<Rightarrow> (buffer_pool, unit) action" where
  "unpin_frame i = bindS (getS (\<lambda>s. page_id (frames s ! i))) (\<lambda>p. un_pin p INDEX_PAGE)"

text \<open>A page for the right half of a split.\<close>

definition new_node :: "(buffer_pool, nat) action" where
  "new_node = bindS fetch_page (\<lambda>j. bindS (through_page j (putS init_node)) (\<lambda>_. returnS j))"

text \<open>\<open>while (i < key_count && key > keys[i]) i++\<close>; keys past the array are undefined.\<close>

definition child_index :: "(int \<Rightarrow> bool) \<Rightarrow> mem \<Rightarrow> nat result" where
  "child_index P m =
     (if int MAX_KEYS < nd_key_count m then Inl (Undefined ''key index'')
      else Inr (length (takeWhile P (node_keys m))))"

fun index_insert :: "nat \<Rightarrow> int \<Rightarrow> int \<Rightarrow> byte list \<Rightarrow> (index_state, split_res option) action" where
  "index_insert 0 curr_pid key rid = throwS (Undefined ''recursion depth'')"
| "index_insert (Suc n) curr_pid key rid =
     bindS (on_ix (page_access curr_pid INDEX_PAGE)) (\<lambda>i.
     bindS (getS (\<lambda>s. page_of i (ix_pool s))) (\<lambda>node.
     bindS
       (if nd_is_leaf node then
          bindS
            (if nd_key_count node = int MAX_KEYS
             then bindS (on_ix new_node) (\<lambda>j. bindS (on_ix (set_dirty j True)) (\<lambda>_. returnS (Some j)))
             else returnS None) (\<lambda>new_page.
          bindS (on_ix (on_frames i new_page (bptree_leaf_insert key rid))) (\<lambda>res.
          bindS (on_ix (set_dirty i True)) (\<lambda>_.
          bindS (case new_page of None \<Rightarrow> returnS () | Some j \<Rightarrow> on_ix (unpin_frame j)) (\<lambda>_.
          returnS res))))
        else
          bindS (liftE (child_index (\<lambda>k. key > k) node)) (\<lambda>k.
          bindS (index_insert n (nd_child node k) key rid) (\<lambda>child_node_ans.
          case child_node_ans of
            None \<Rightarrow> returnS None
          | Some ans \<Rightarrow>
              bindS (on_ix new_node) (\<lambda>j.
              bindS (on_ix (on_frames i (Some j) (bptree_internal_insert (child_pid ans) (promoted_key ans)))) (\<lambda>res.
              bindS (on_ix (set_dirty j True)) (\<lambda>_.
              bindS (on_ix (unpin_frame j)) (\<lambda>_.
              returnS res))))))) (\<lambda>res.
     bindS (on_ix (set_dirty i True)) (\<lambda>_.
     bindS (getS root_pid) (\<lambda>root.
     case res of
       Some r \<Rightarrow>
         if curr_pid = root then
           bindS (on_ix new_node) (\<lambda>j.
           bindS (getS (\<lambda>s. (page_id (frames (ix_pool s) ! i), page_id (frames (ix_pool s) ! j)))) (\<lambda>(curr, new).
           bindS (on_ix (through_page j (putS (\<lambda>m.
             set_child 1 (child_pid r) (set_child 0 curr
               (set_key 0 (promoted_key r) (set_key_count 1 (set_is_leaf False m)))))))) (\<lambda>_.
           bindS (putS (\<lambda>s. s\<lparr>root_pid := new\<rparr>)) (\<lambda>_.
           bindS (on_ix (set_dirty j True)) (\<lambda>_.
           bindS (on_ix (unpin_frame j)) (\<lambda>_.
           bindS (on_ix (un_pin curr_pid INDEX_PAGE)) (\<lambda>_.
           returnS None)))))))
         else bindS (on_ix (un_pin curr_pid INDEX_PAGE)) (\<lambda>_. returnS res)
     | None \<Rightarrow> bindS (on_ix (un_pin curr_pid INDEX_PAGE)) (\<lambda>_. returnS None))))))"

text \<open>
  \<open>bptree_scan\<close>: every child is given back as soon as it has been fetched, the root never; a page
  is read through a pointer to a frame that is no longer pinned.
\<close>

definition leaf_find :: "int \<Rightarrow> mem \<Rightarrow> byte list result" where
  "leaf_find key m =
     (if int MAX_KEYS < nd_key_count m then Inl (Undefined ''key index'')
      else case find (\<lambda>e. fst e = key) (entries m) of
        Some e \<Rightarrow> Inr (snd e)
      | None \<Rightarrow> Inl (Runtime ''NO SUCH ENTRY FOUND''))"

fun scan_node :: "nat \<Rightarrow> nat \<Rightarrow> int \<Rightarrow> (buffer_pool, byte list) action" where
  "scan_node 0 i key = throwS (Undefined ''recursion depth'')"
| "scan_node (Suc n) i key =
     bindS (getS (page_of i)) (\<lambda>m.
     if nd_is_leaf m then liftE (leaf_find key m)
     else
       bindS (liftE (child_index (\<lambda>k. key \<ge> k) m)) (\<lambda>k.
       bindS (page_access (nd_child m k) INDEX_PAGE) (\<lambda>j.
       bindS (unpin_frame j) (\<lambda>_.
       scan_node n j key))))"

definition bptree_scan :: "nat \<Rightarrow> int \<Rightarrow> int \<Rightarrow> (buffer_pool, byte list) action" where
  "bptree_scan n curr_root_pid key =
     bindS (page_access curr_root_pid INDEX_PAGE) (\<lambda>i. scan_node n i key)"

section \<open>The abstract tree\<close>

datatype btree = Leaf "(int \<times> byte list) list" | Node "int list" "btree list"

fun height :: "btree \<Rightarrow> nat" where
  "height (Leaf es) = 1"
| "height (Node ks ts) = Suc (Max (set (map height ts)))"

function lookup :: "btree \<Rightarrow> int \<Rightarrow> byte list option" where
  "lookup (Leaf es) key = map_option snd (find (\<lambda>e. fst e = key) es)"
| "lookup (Node ks ts) key =
     (let k = length (takeWhile (\<lambda>x. x \<le> key) ks) in
      if k < length ts then lookup (ts ! k) key else None)"
  by pat_completeness auto
termination
  by (relation "measure (\<lambda>(t, _). size t)")
    (auto intro!: le_imp_less_Suc size_list_estimation' [OF nth_mem])

text \<open>The pages of an index file represent a tree.\<close>

inductive tree_at :: "(int \<Rightarrow> mem) \<Rightarrow> int \<Rightarrow> btree \<Rightarrow> bool" for v where
  leaf: "valid_page INDEX_PAGE p \<Longrightarrow> nd_is_leaf (v p) \<Longrightarrow> nd_key_count (v p) \<le> int MAX_KEYS \<Longrightarrow>
     tree_at v p (Leaf (entries (v p)))"
| node: "valid_page INDEX_PAGE p \<Longrightarrow> \<not> nd_is_leaf (v p) \<Longrightarrow> nd_key_count (v p) \<le> int MAX_KEYS \<Longrightarrow>
     length ts = Suc (length (node_keys (v p))) \<Longrightarrow>
     (\<And>k. k < length ts \<Longrightarrow> tree_at v (nd_child (v p) k) (ts ! k)) \<Longrightarrow>
     tree_at v p (Node (node_keys (v p)) ts)"

inductive_cases tree_at_LeafE: "tree_at v p (Leaf es)"
inductive_cases tree_at_NodeE: "tree_at v p (Node ks ts)"

lemma tree_at_valid: "tree_at v p t \<Longrightarrow> valid_page INDEX_PAGE p"
  by (cases rule: tree_at.cases) auto

lemma tree_at_cong: "tree_at v p t \<Longrightarrow> (\<And>q. valid_page INDEX_PAGE q \<Longrightarrow> w q = v q) \<Longrightarrow> tree_at w p t"
proof (induction rule: tree_at.induct)
  case (leaf p)
  then have "w p = v p" by simp
  then show ?case using leaf tree_at.leaf [of p w] by simp
next
  case (node p ts)
  then have "w p = v p" by simp
  then show ?case using node tree_at.node [of p w ts] by simp
qed

section \<open>Searching\<close>

definition found :: "byte list option \<Rightarrow> byte list result" where
  "found r = (case r of None \<Rightarrow> Inl (Runtime ''NO SUCH ENTRY FOUND'') | Some x \<Rightarrow> Inr x)"

lemma scan_node_lookup:
  assumes "tree_at v p t" "height t \<le> n" "healthy s" "\<not> exhausted (pins s)"
    and "page_of i s = v p" "\<forall>q. valid_page INDEX_PAGE q \<longrightarrow> page_view s INDEX_PAGE q = v q"
  shows "\<exists>s'. scan_node n i key s = (found (lookup t key), s') \<and>
    healthy s' \<and> pins s' = pins s \<and> same_pages s s'"
  using assms
proof (induction arbitrary: n i s rule: tree_at.induct)
  case (leaf p)
  then obtain n' where n: "n = Suc n'" by (cases n) auto
  have "leaf_find key (v p) = found (lookup (Leaf (entries (v p))) key)"
    using leaf(3) by (simp add: leaf_find_def found_def split: option.split)
  then show ?case using leaf by (simp add: n same_pages_def)
next
  case (node p ts)
  then obtain n' where n: "n = Suc n'" by (cases n) auto
  define k where "k = length (takeWhile (\<lambda>x. x \<le> key) (node_keys (v p)))"
  have k: "k < length ts"
    using node(4) length_takeWhile_le [of "\<lambda>x. x \<le> key" "node_keys (v p)"] by (simp add: k_def)
  have ci: "child_index (\<lambda>x. key \<ge> x) (v p) = Inr k"
    using node(3) by (simp add: child_index_def k_def)
  have sub: "tree_at v (nd_child (v p) k) (ts ! k)" using node(5) k by blast
  have valid: "valid_page INDEX_PAGE (nd_child (v p) k)" using tree_at_valid [OF sub] .
  have "height (ts ! k) \<le> Max (set (map height ts))"
    using k by (intro Max_ge) auto
  then have h: "height (ts ! k) \<le> n'" using node.prems(1) n by simp
  obtain j u where a: "page_access (nd_child (v p) k) INDEX_PAGE s = (Inr j, u)" "healthy u"
    "holds_page u INDEX_PAGE (nd_child (v p) k) j" "page_of j u = page_view s INDEX_PAGE (nd_child (v p) k)"
    "pins u = (pins s)(j := pins s j + 1)" "same_pages s u"
    by (rule access_page [OF node.prems(2) valid node.prems(3)])
  obtain w where w: "un_pin (nd_child (v p) k) INDEX_PAGE u = (Inr (), w)" "healthy w"
    "pins w = (pins u)(j := pins u j - 1)" "same_pages u w" "\<And>j. page_of j w = page_of j u"
    by (rule release_page [OF a(2) valid a(3)]) blast
  have up: "unpin_frame j u = (Inr (), w)"
    using a(3) w(1) by (simp add: unpin_frame_def holds_page_def)
  have pw: "pins w = pins s" using a(5) w(3) by (simp add: fun_eq_iff)
  have sw: "same_pages s w" by (rule same_pages_trans [OF a(6) w(4)])
  have "page_of j w = v (nd_child (v p) k)"
    using w(5) a(4) node.prems(5) valid by simp
  moreover have "\<forall>q. valid_page INDEX_PAGE q \<longrightarrow> page_view w INDEX_PAGE q = v q"
    using sw node.prems(5) by (simp add: same_pages_def)
  ultimately obtain s' where s': "scan_node n' j key w = (found (lookup (ts ! k) key), s')"
    "healthy s'" "pins s' = pins w" "same_pages w s'"
    using node.IH [OF k h w(2)] pw node.prems(3) by auto
  have "scan_node n i key s = (found (lookup (Node (node_keys (v p)) ts) key), s')"
    using node(2) node.prems(4) s'(1) k
    by (simp add: n ci bindS_step a(1) up Let_def flip: k_def)
  then show ?case
    using s'(2,3) pw same_pages_trans [OF sw s'(4)] by auto
qed

section \<open>Properties\<close>

text \<open>C34: Searching an index whose pages represent a tree, with fuel for its height, returns what the
  abstract search tree has for the key, or the exception for a missing entry; no page changes, and
  the frame of the root keeps the pin the search took.\<close>

theorem bptree_scan_lookup:
  assumes "healthy s" "tree_at (page_view s INDEX_PAGE) root t" "height t \<le> n"
    and "\<And>i. \<not> exhausted ((pins s)(i := pins s i + 1))"
  shows "\<exists>s' i. bptree_scan n root key s = (found (lookup t key), s') \<and> same_pages s s' \<and>
    i < buffer_size \<and> pins s' = (pins s)(i := pins s i + 1)"
proof -
  have ne: "\<not> exhausted (pins s)" using assms(4) [of buffer_size] by (simp add: exhausted_def)
  have v: "valid_page INDEX_PAGE root" using tree_at_valid [OF assms(2)] .
  obtain i u where a: "page_access root INDEX_PAGE s = (Inr i, u)" "healthy u"
    "holds_page u INDEX_PAGE root i" "page_of i u = page_view s INDEX_PAGE root"
    "pins u = (pins s)(i := pins s i + 1)" "same_pages s u"
    by (rule access_page [OF assms(1) v ne])
  have "\<forall>q. valid_page INDEX_PAGE q \<longrightarrow> page_view u INDEX_PAGE q = page_view s INDEX_PAGE q"
    using a(6) by (simp add: same_pages_def)
  then obtain s' where s': "scan_node n i key u = (found (lookup t key), s')" "pins s' = pins u" "same_pages u s'"
    using scan_node_lookup [OF assms(2,3) a(2) _ a(4)] assms(4) a(5) by metis
  then show ?thesis
    using a(1,3,5) same_pages_trans [OF a(6) s'(3)]
    by (auto simp: bptree_scan_def bindS_step holds_page_def)
qed

definition index_db :: buffer_pool where
  "index_db = new_pool \<lparr>db_file = [], index_file = [full_leaf], wal_file = [], io_script = []\<rparr>"

theorem bptree_scan_lookup_witness:
  "\<exists>s'. bptree_scan 1 0 20 index_db = (Inr (sample_rid_bytes 2), s') \<and>
     (\<exists>s''. bptree_scan 1 0 25 index_db = (Inl (Runtime ''NO SUCH ENTRY FOUND''), s''))"
proof -
  have h: "healthy index_db" by (simp add: index_db_def healthy_new)
  have v: "page_view index_db INDEX_PAGE 0 = full_leaf" by (simp add: index_db_def disk_page_def)
  have "tree_at (page_view index_db INDEX_PAGE) 0 (Leaf (entries (page_view index_db INDEX_PAGE 0)))"
    by (rule tree_at.leaf) (simp_all add: v full_leaf_entries valid_page_def int_range_def)
  then have t: "tree_at (page_view index_db INDEX_PAGE) 0 (Leaf (entries full_leaf))" by (simp add: v)
  have ne: "\<not> exhausted ((pins index_db)(i := pins index_db i + 1))" for i
    unfolding exhausted_def
    by (auto simp: index_db_def intro!: exI [of _ "if i = 0 then 1 else 0 :: nat"] split: if_splits)
  show ?thesis
    using bptree_scan_lookup [OF h t _ ne, of 1 20] bptree_scan_lookup [OF h t _ ne, of 1 25]
    by (auto simp: full_leaf_entries found_def)
qed

end
