(* ===== verification/Insert_Row.thy ===== *)
theory Insert_Row
  imports Wal_Recovery Heap_Rows Index_Tree
begin

text \<open>
  Inserting one row and deleting one: \<open>create_entry\<close> of \<open>src/storage_manager/insert.cpp\<close> and
  \<open>delete_slot\<close> of \<open>src/storage_manager/heap_writer.cpp\<close>.
\<close>

section \<open>Operations\<close>

record transaction_result =
  root_id :: "int option"
  transaction_complete :: bool
  rid :: RID

text \<open>The index part of \<open>create_entry\<close>: a root is fetched when there is none yet.\<close>

definition index_entry :: "nat \<Rightarrow> int \<Rightarrow> RID \<Rightarrow> (index_state, int) action" where
  "index_entry n key res_rid =
     bindS (getS root_pid) (\<lambda>root.
     bindS
       (if root = INVALID_PAGE_ID then
          bindS (on_ix fetch_page) (\<lambda>i.
          bindS (getS (\<lambda>s. page_id (frames (ix_pool s) ! i))) (\<lambda>p.
          bindS (putS (\<lambda>s. s\<lparr>root_pid := p\<rparr>)) (\<lambda>_.
          on_ix (un_pin p INDEX_PAGE))))
        else returnS ()) (\<lambda>_.
     bindS (getS root_pid) (\<lambda>root.
     bindS (index_insert n root key (rid_image res_rid)) (\<lambda>_.
     getS root_pid))))"

definition on_index :: "int \<Rightarrow> (index_state, 'a) action \<Rightarrow> (buffer_pool, 'a) action" where
  "on_index root m s = (case m \<lparr>ix_pool = s, root_pid = root\<rparr> of (r, t) \<Rightarrow> (r, ix_pool t))"

text \<open>\<open>curr_root\<close> is \<open>None\<close> for a null pointer; \<open>n\<close> is the fuel of the descent.\<close>

definition create_entry :: "nat \<Rightarrow> row_t \<Rightarrow> nat list \<Rightarrow> int option \<Rightarrow> bool \<Rightarrow>
    (wal_db, transaction_result) action" where
  "create_entry n row row_data_sizes curr_root use_index =
     bindS (on_pool (get_last_pid HEAP_PAGE)) (\<lambda>lpid.
     let last_heap_pid = bits_int (lpid mod 2 ^ 32) in
     bindS (on_pool (page_access last_heap_pid HEAP_PAGE)) (\<lambda>i.
     bindS (on_pool (through_page i (heap_write row row_data_sizes))) (\<lambda>res_slot.
     bindS (on_pool (set_dirty i True)) (\<lambda>_.
     bindS (getS (\<lambda>s. \<lparr>rid_pid = page_id (frames (pool s) ! i), rid_slot = res_slot\<rparr>)) (\<lambda>res_rid.
     bindS (CommitTransaction res_rid row) (\<lambda>_.
     bindS (on_pool (un_pin last_heap_pid HEAP_PAGE)) (\<lambda>_.
     case curr_root of
       Some root \<Rightarrow>
         if use_index
         then bindS (on_pool (on_index root (index_entry n 0 res_rid))) (\<lambda>new_root.
           returnS \<lparr>root_id = Some new_root, transaction_complete = True, rid = res_rid\<rparr>)
         else returnS \<lparr>root_id = None, transaction_complete = True, rid = res_rid\<rparr>
     | None \<Rightarrow> returnS \<lparr>root_id = None, transaction_complete = True, rid = res_rid\<rparr>)))))))"

text \<open>
  \<open>delete_slot\<close> takes the bytes of the row at the slot's offset for a slot and sets the flag in
  their seventh byte.
\<close>

definition delete_slot :: "RID \<Rightarrow> (buffer_pool, unit) action" where
  "delete_slot r =
     bindS (page_access (rid_pid r) HEAP_PAGE) (\<lambda>i.
     bindS (getS (page_of i)) (\<lambda>m.
     let flag = heap_data + slot_offset (rid_slot r) + 6 in
     if page_data_size \<le> flag then throwS (Undefined ''slot past the page'')
     else if \<not> get_bool m flag then
       bindS (through_page i (putS (put_bool flag True))) (\<lambda>_.
       bindS (set_dirty i True) (\<lambda>_.
       un_pin (rid_pid r) HEAP_PAGE))
     else
       bindS (un_pin (rid_pid r) HEAP_PAGE) (\<lambda>_.
       throwS (Runtime ''Already Deleted(double delete)''))))"

section \<open>The page an insertion goes to\<close>

definition target_pid :: "buffer_pool \<Rightarrow> nat" where
  "target_pid s =
     (let n = length (db_file (disk_operator s)) in
      if n = 0 then 0
      else if 0 < hp_free_size (heap_view s (int n - 1)) then n - 1 else n)"

lemma get_last_pid_ok:
  assumes h: "healthy s" "\<not> exhausted (pins s)"
    and v: "0 < length (db_file (disk_operator s)) \<Longrightarrow> valid_page HEAP_PAGE (int (length (db_file (disk_operator s))) - 1)"
  shows "\<exists>t. get_last_pid HEAP_PAGE s = (Inr (target_pid s), t) \<and>
    healthy t \<and> pins t = pins s \<and> same_pages s t \<and> wal_of t = wal_of s"
proof -
  define n where "n = length (db_file (disk_operator s))"
  have l: "on_disk (last_pid HEAP_PAGE) s = (Inr n, s)"
    by (simp add: on_disk_def last_pid_def n_def)
  show ?thesis
  proof (cases "n = 0")
    case True
    then show ?thesis
      using l h by (simp add: get_last_pid_def bindS_step target_pid_def n_def)
  next
    case False
    then have v': "valid_page HEAP_PAGE (int n - 1)" using v by (simp add: n_def)
    obtain i t where a: "page_access (int n - 1) HEAP_PAGE s = (Inr i, t)" "healthy t"
      "holds_page t HEAP_PAGE (int n - 1) i" "page_of i t = heap_view s (int n - 1)"
      "pins t = (pins s)(i := pins s i + 1)" "same_pages s t"
      by (rule access_page [OF h(1) v' h(2)])
    obtain w where w: "un_pin (int n - 1) HEAP_PAGE t = (Inr (), w)" "healthy w"
      "pins w = (pins t)(i := pins t i - 1)" "same_pages t w" "\<And>j. page_of j w = page_of j t"
      by (rule release_page [OF a(2) v' a(3)]) blast
    have "get_last_pid HEAP_PAGE s = (Inr (target_pid s), w)"
      using False l a(1,4) w(1) w(5) [of i]
      by (simp add: get_last_pid_def bindS_step target_pid_def Let_def n_def [symmetric] page_of_def)
    moreover have "pins w = pins s" using a(5) w(3) by (simp add: fun_eq_iff)
    moreover have "wal_of w = wal_of s"
      using keepsD [OF keeps_wal_page_access _ a(1), of "wal_of s"]
        keepsD [OF keeps_wal_un_pin _ w(1), of "wal_of t"] by simp
    ultimately show ?thesis
      using w(2) same_pages_trans [OF a(6) w(4)] by blast
  qed
qed

section \<open>A page that stays pinned\<close>

lemma holds_page_keeps:
  assumes "healthy t" "valid_page ty p" "holds_page s ty p i" "keeps_pinned s t"
  shows "holds_page t ty p i"
proof -
  have i: "i < 50" "0 < pin_count (frames s ! i)" "page_id (frames s ! i) = p" "ptype (frames s ! i) = ty"
    using assms(3) by (simp_all add: holds_page_def)
  have t: "page_id (frames t ! i) = p" "ptype (frames t ! i) = ty" "0 < pin_count (frames t ! i)"
    using assms(4) i by (auto simp: keeps_pinned_def)
  then have "occupied (frames t ! i)" using assms(2) by (simp add: occupied_def valid_page_def)
  moreover have "pool_inv t" using assms(1) by (simp add: healthy_def)
  ultimately have "table t (frame_key (frames t ! i)) = Some i"
    using pool_invD(4) i(1) by blast
  then show ?thesis using i(1) t by (simp add: holds_page_def frame_key_def)
qed

lemma change_page_holds:
  assumes h: "healthy s" and v: "valid_page HEAP_PAGE pid" and m: "\<And>p. m p = (Inr (), f p)"
    and r: "change_page pid m s = (Inr (), t)" and hp: "holds_page s ty q j" "valid_page ty q"
  shows "holds_page t ty q j"
proof -
  obtain i u where a: "heap_access pid s = (Inr i, u)"
    and k: "bindS (write_through HEAP_PAGE i (f (page_of i u))) (\<lambda>_. heap_release pid) u = (Inr (), t)"
    using r [unfolded change_page_shape [OF h v m]] by (auto simp: bindS_Inr_iff)
  have acc: "accessed s pid HEAP_PAGE i u" by (rule page_access_Inr [OF h v a])
  have u: "healthy u" "holds_page u HEAP_PAGE pid i"
    using accessed_holds [OF acc] acc by (simp_all add: accessed_def)
  have uj: "holds_page u ty q j"
    using holds_page_keeps [OF u(1) hp(2,1)] acc by (simp add: accessed_def)
  define w where "w = rewritten i (f (page_of i u)) False u"
  have occ: "i < 50" "occupied (frames u ! i)" using holds_page_occupied [OF u(1) v u(2)] by auto
  have w: "healthy w" "holds_page w HEAP_PAGE pid i" "holds_page w ty q j" "un_pin pid HEAP_PAGE w = (Inr (), t)"
    using k write_through_ok [OF u(1) v u(2), of "f (page_of i u)"]
      rewritten_healthy [OF u(1) occ] holds_page_rewritten [OF u(1) _ occ] u(2) uj
    by (simp_all add: w_def bindS_step)
  note up = un_pin_ok(1) [OF w(1) v w(2)]
  have pins: "pins t = pins s" by (rule change_page_ok(2) [OF h v m r])
  have "0 < pins s j" "j < 50" using hp(1) by (simp_all add: holds_page_def pins_def)
  then have "0 < pin_count (frames t ! j)" using pins by (simp add: pins_def fun_eq_iff) (metis)
  moreover have "page_id (frames t ! j) = page_id (frames w ! j)" "ptype (frames t ! j) = ptype (frames w ! j)"
    "table t = table w"
    using up w(4) pool_invD(1) [of w] w(1) occ(1) by (auto simp: upd_frame_def nth_list_update healthy_def)
  ultimately show ?thesis using w(3) by (simp add: holds_page_def)
qed

section \<open>A successful insertion\<close>

text \<open>The hypotheses: a page that can be brought in and one more, and room for the row.\<close>

definition insertable :: "wal_db \<Rightarrow> log_record list \<Rightarrow> row_t list \<Rightarrow> row_t \<Rightarrow> bool" where
  "insertable s rs rows row \<longleftrightarrow>
     healthy (pool s) \<and> \<not> exhausted (pins (pool s)) \<and>
     (\<forall>i. \<not> exhausted ((pins (pool s))(i := pins (pool s) i + 1))) \<and>
     length (db_file (disk_operator (pool s))) < 2147483648 \<and>
     wal_of (pool s) = log_file rs \<and> LSN s < 65535 \<and> row_readable row \<and>
     holds_rows (prepared (heap_view (pool s) (int (target_pid (pool s))))) rows \<and>
     room_for row (prepared (heap_view (pool s) (int (target_pid (pool s)))))"

lemma insertableD:
  assumes "insertable s rs rows row"
  shows "healthy (pool s)" "\<not> exhausted (pins (pool s))"
    "\<not> exhausted ((pins (pool s))(i := pins (pool s) i + 1))"
    "valid_page HEAP_PAGE (int (target_pid (pool s)))"
    "wal_of (pool s) = log_file rs" "LSN s < 65535" "row_readable row"
    "holds_rows (prepared (heap_view (pool s) (int (target_pid (pool s))))) rows"
    "room_for row (prepared (heap_view (pool s) (int (target_pid (pool s)))))"
    "0 < length (db_file (disk_operator (pool s))) \<Longrightarrow>
      valid_page HEAP_PAGE (int (length (db_file (disk_operator (pool s)))) - 1)"
proof -
  note a = assms [unfolded insertable_def]
  show "healthy (pool s)" "\<not> exhausted (pins (pool s))"
    "wal_of (pool s) = log_file rs" "LSN s < 65535" "row_readable row"
    "holds_rows (prepared (heap_view (pool s) (int (target_pid (pool s))))) rows"
    "room_for row (prepared (heap_view (pool s) (int (target_pid (pool s)))))"
    "\<not> exhausted ((pins (pool s))(i := pins (pool s) i + 1))" using a by blast+
  have l: "length (db_file (disk_operator (pool s))) < 2147483648" using a by blast
  show "valid_page HEAP_PAGE (int (target_pid (pool s)))"
    using l by (auto simp: target_pid_def Let_def valid_page_def int_range_def)
  show "0 < length (db_file (disk_operator (pool s))) \<Longrightarrow>
      valid_page HEAP_PAGE (int (length (db_file (disk_operator (pool s)))) - 1)"
    using l by (cases "length (db_file (disk_operator (pool s)))") (auto simp: valid_page_def int_range_def)
qed

text \<open>The state in which the row has been written through the pointer.\<close>

lemma write_through_pointer:
  assumes "healthy s" "i < 50" "occupied (frames s ! i)" "w (page_of i s) = (Inr x, m)"
  shows "bindS (through_page i w) (\<lambda>r. bindS (set_dirty i True) (\<lambda>_. returnS r)) s =
    (Inr x, rewritten i m True s)"
proof -
  have "length (frames s) = 50" using assms(1) pool_invD(1) by (simp add: healthy_def)
  then show ?thesis
    using assms(2,4)
    by (simp add: bindS_def through_page_def set_dirty_def upd_frame_def rewritten_def Let_def)
qed

lemma create_entry_unindexed:
  assumes "get_last_pid HEAP_PAGE (pool s) = (Inr k, t)" and p: "bits_int (k mod 2 ^ 32) = p"
    and "page_access p HEAP_PAGE t = (Inr i, u)" "page_id (frames u ! i) = p"
    and "heap_write row sizes (page_of i u) = (Inr slot, m)"
    and "length (frames u) = 50" "i < 50"
    and "CommitTransaction \<lparr>rid_pid = p, rid_slot = slot\<rparr> row \<lparr>pool = rewritten i m True u, LSN = LSN s\<rparr> = (Inr (), v)"
    and "un_pin p HEAP_PAGE (pool v) = (Inr (), w)"
    and ix: "root = None \<or> \<not> use_index"
  shows "create_entry n row sizes root use_index s =
    (Inr \<lparr>root_id = None, transaction_complete = True, rid = \<lparr>rid_pid = p, rid_slot = slot\<rparr>\<rparr>, v\<lparr>pool := w\<rparr>)"
proof -
  have e: "upd_frame i (dirty_bit_update (\<lambda>_. True)) (upd_frame i (page_data_update (\<lambda>_. m)) u) = rewritten i m True u"
    using assms(6,7) by (simp add: upd_frame_def rewritten_def Let_def)
  have f: "page_id (frames (rewritten i m True u) ! i) = p"
    using assms(4,6,7) by (simp add: rewritten_def Let_def)
  have g: "on_pool (through_page i (heap_write row sizes)) x = (Inr slot, x\<lparr>pool := upd_frame i (\<lambda>f. f\<lparr>page_data := m\<rparr>) u\<rparr>)"
    if "pool x = u" for x
    using that assms(5) by (simp add: on_pool_def through_page_def)
  have r: "s\<lparr>pool := z\<rparr> = \<lparr>pool = z, LSN = LSN s\<rparr>" for z by simp
  show ?thesis
    using assms(1,3,8,9) e f ix
    by (cases root) (simp_all add: create_entry_def bindS_step on_pool_def Let_def p [simplified] through_page_def assms(5)
        set_dirty_def r)
qed

lemma commit_holds:
  assumes c: "commit_ok x row" "LSN s < 65535"
    and h: "healthy (pool s)" "wal_of (pool s) = log_file rs" "valid_page HEAP_PAGE (rid_pid x)"
    and r: "CommitTransaction x row s = (Inr (), t)"
    and hp: "holds_page (pool s) ty q j" "valid_page ty q"
  shows "holds_page (pool t) ty q j"
proof -
  define u where "u = logged (commit_record (LSN s + 1) x row) (pool s)"
  have l: "8 \<le> length (wal_of (pool s))" using h(2) log_file_length by simp
  have u: "healthy u" "holds_page u ty q j"
    using logged_ok [OF h(1)] hp(1) by (simp_all add: u_def holds_page_def logged_def)
  have m: "putS (set_lsn (LSN s + 1)) m = (Inr (), set_lsn (LSN s + 1) m)" for m by simp
  have ch: "change_page (rid_pid x) (putS (set_lsn (LSN s + 1))) u = (Inr (), pool t)"
    using r commit_result [OF c h(1) l] by (auto simp: u_def split: prod.splits)
  show ?thesis
    by (rule change_page_holds [OF u(1) h(3) m ch u(2) hp(2)])
qed

lemma commit_others:
  assumes c: "commit_ok x row" "LSN s < 65535"
    and h: "healthy (pool s)" "wal_of (pool s) = log_file rs" "valid_page HEAP_PAGE (rid_pid x)"
    and r: "CommitTransaction x row s = (Inr (), t)" and q: "valid_page ty q" "ty \<noteq> HEAP_PAGE \<or> q \<noteq> rid_pid x"
  shows "page_view (pool t) ty q = page_view (pool s) ty q"
proof -
  define u where "u = logged (commit_record (LSN s + 1) x row) (pool s)"
  have l: "8 \<le> length (wal_of (pool s))" using h(2) log_file_length by simp
  have u: "healthy u" "page_view u ty q = page_view (pool s) ty q"
    using logged_ok [OF h(1)] by (simp_all add: u_def)
  have m: "putS (set_lsn (LSN s + 1)) m = (Inr (), set_lsn (LSN s + 1) m)" for m by simp
  have ch: "change_page (rid_pid x) (putS (set_lsn (LSN s + 1))) u = (Inr (), pool t)"
    using r commit_result [OF c h(1) l] by (auto simp: u_def split: prod.splits)
  show ?thesis using change_page_others [OF u(1) h(3) m ch q] u(2) by simp
qed

text \<open>The state an insertion of \<open>row\<close> into the page \<open>p\<close> ends in.\<close>

definition inserted :: "wal_db \<Rightarrow> log_record list \<Rightarrow> row_t list \<Rightarrow> row_t \<Rightarrow> RID \<Rightarrow> wal_db \<Rightarrow> bool" where
  "inserted s rs rows row r t \<longleftrightarrow>
     rid_pid r = int (target_pid (pool s)) \<and>
     healthy (pool t) \<and> pins (pool t) = pins (pool s) \<and> LSN t = LSN s + 1 \<and>
     wal_of (pool t) = log_file (rs @ [commit_record (LSN s + 1) r row]) \<and>
     holds_rows (heap_view (pool t) (rid_pid r)) (rows @ [row]) \<and>
     hp_lsn (heap_view (pool t) (rid_pid r)) = LSN s + 1 \<and>
     disk_page (disk_operator (pool t)) HEAP_PAGE (rid_pid r) = heap_view (pool t) (rid_pid r) \<and>
     (\<forall>ty q. valid_page ty q \<longrightarrow> ty \<noteq> HEAP_PAGE \<or> q \<noteq> rid_pid r \<longrightarrow> page_view (pool t) ty q = page_view (pool s) ty q)"

lemma create_entry_inserted:
  assumes ins: "insertable s rs rows row" and ix: "root = None \<or> \<not> use_index"
  shows "\<exists>r t. create_entry n row (row_sizes row) root use_index s =
      (Inr \<lparr>root_id = None, transaction_complete = True, rid = r\<rparr>, t) \<and> inserted s rs rows row r t"
proof -
  note d = insertableD [OF ins]
  define p where "p = int (target_pid (pool s))"
  have v: "valid_page HEAP_PAGE p" using d(4) by (simp add: p_def)
  then have pb: "bits_int (target_pid (pool s) mod 2 ^ 32) = p"
    by (auto simp: valid_page_def int_range_def p_def bits_int_def)
  obtain t where t: "get_last_pid HEAP_PAGE (pool s) = (Inr (target_pid (pool s)), t)" "healthy t"
    "pins t = pins (pool s)" "same_pages (pool s) t" "wal_of t = wal_of (pool s)"
    using get_last_pid_ok [OF d(1,2,10)] by blast
  have "\<not> exhausted (pins t)" using t(3) d(2) by simp
  from access_page [OF t(2) v this] obtain i u where u: "page_access p HEAP_PAGE t = (Inr i, u)"
    "healthy u" "holds_page u HEAP_PAGE p i" "page_of i u = heap_view t p"
    "pins u = (pins t)(i := pins t i + 1)" "same_pages t u" .
  have occ: "i < 50" "occupied (frames u ! i)" using holds_page_occupied [OF u(2) v u(3)] by auto
  have len: "length (frames u) = 50" using u(2) pool_invD(1) by (simp add: healthy_def)
  have hv: "heap_view u q = heap_view (pool s) q" if "valid_page HEAP_PAGE q" for q
    using same_pages_trans [OF t(4) u(6)] that by (simp add: same_pages_def)
  define m where "m = page_after_write row (prepared (heap_view (pool s) p))"
  define slot where "slot = slot_of_write row (prepared (heap_view (pool s) p))"
  have pg: "page_of i u = heap_view (pool s) p" using u(4) t(4) v by (simp add: same_pages_def)
  have w: "heap_write row (row_sizes row) (page_of i u) = (Inr slot, m)"
    unfolding pg m_def slot_def
    by (rule heap_write_ok) (use d(7-9) holds_rowsD(1) row_readable_fits sum_list_row_sizes in \<open>simp_all add: p_def\<close>)
  have rows: "holds_rows m (rows @ [row])"
    unfolding m_def by (rule holds_rows_write) (use d(7-9) in \<open>simp_all add: p_def\<close>)
  define z where "z = rewritten i m True u"
  have "wal_of u = log_file rs"
    using keepsD [OF keeps_wal_page_access _ u(1), of "wal_of t"] t(5) d(5) by simp
  moreover have "wal_of z = wal_of u" by (simp add: z_def wal_of_def rewritten_def Let_def)
  ultimately have z: "healthy z" "holds_page z HEAP_PAGE p i" "pins z = pins u" "wal_of z = log_file rs"
    using rewritten_healthy [OF u(2) occ] holds_page_rewritten [OF u(2,3) occ] pins_rewritten [OF occ(1) len]
    by (simp_all add: z_def)
  have zv: "heap_view z q = (if q = p then m else heap_view (pool s) q)" if "valid_page HEAP_PAGE q" for q
    using rewritten_view [OF u(2) occ that, of m True] hv [OF that] u(3)
    by (simp add: z_def holds_page_def)
  define r where "r = \<lparr>rid_pid = p, rid_slot = slot\<rparr>"
  have c: "commit_ok r row"
    using d(9) holds_rowsD(1) [OF d(8)]
    by (auto simp: commit_ok_def r_def slot_def slot_of_write_def room_for_def heap_page_inv_def p_def)
  obtain x y where y: "CommitTransaction r row \<lparr>pool = z, LSN = LSN s\<rparr> = (x, y)"
    by (cases "CommitTransaction r row \<lparr>pool = z, LSN = LSN s\<rparr>")
  have nx: "\<not> exhausted (pins (pool \<lparr>pool = z, LSN = LSN s\<rparr>))" using z(3) u(5) t(3) d(3) by simp
  have a: "LSN \<lparr>pool = z, LSN = LSN s\<rparr> < 65535" "healthy (pool \<lparr>pool = z, LSN = LSN s\<rparr>)"
    "wal_of (pool \<lparr>pool = z, LSN = LSN s\<rparr>) = log_file rs" "valid_page HEAP_PAGE (rid_pid r)"
    using z d(6) v by (simp_all add: r_def)
  have x: "x = Inr ()" by (rule commit_committed(2) [OF c a y nx])
  have cm: "committed \<lparr>pool = z, LSN = LSN s\<rparr> rs r row True y"
    using commit_committed(1) [OF c a y] x by simp
  have zy: "healthy (pool y)" "pins (pool y) = pins u" "LSN y = LSN s + 1"
    "wal_of (pool y) = log_file (rs @ [commit_record (LSN s + 1) r row])"
    "disk_page (disk_operator (pool y)) HEAP_PAGE p = heap_view (pool y) p"
    using cm z(3) by (simp_all add: committed_def r_def)
  have yv: "heap_view (pool y) q = (if q = p then set_lsn (LSN s + 1) m else heap_view (pool s) q)"
    if "valid_page HEAP_PAGE q" for q
  proof -
    have "heap_view (pool y) q = (if q = p then set_lsn (LSN s + 1) (heap_view z q) else heap_view z q)"
      using cm that unfolding committed_def r_def by simp
    then show ?thesis using zv [OF that] by (cases "q = p") simp_all
  qed
  have yh: "holds_page (pool y) HEAP_PAGE p i"
    by (rule commit_holds [OF c a y [unfolded x]]) (use z(2) v in simp_all)
  obtain e where e: "un_pin p HEAP_PAGE (pool y) = (Inr (), e)" "healthy e"
    "pins e = (pins (pool y))(i := pins (pool y) i - 1)" "same_pages (pool y) e"
    "\<And>j. page_of j e = page_of j (pool y)" by (rule release_page [OF zy(1) v yh]) blast
  have er: "create_entry n row (row_sizes row) root use_index s =
      (Inr \<lparr>root_id = None, transaction_complete = True, rid = r\<rparr>, y\<lparr>pool := e\<rparr>)"
    unfolding r_def
    by (rule create_entry_unindexed [OF t(1) pb u(1) _ w len occ(1) _ e(1) ix])
      (use u(3) y x in \<open>simp_all add: holds_page_def r_def z_def\<close>)
  have ev: "heap_view e q = (if q = p then set_lsn (LSN s + 1) m else heap_view (pool s) q)"
    if "valid_page HEAP_PAGE q" for q
    using e(4) yv [OF that] that by (simp add: same_pages_def)
  have ed: "disk_operator e = disk_operator (pool y)"
    using un_pin_ok(1) [OF zy(1) v yh] e(1) by (auto simp: upd_frame_def)
  have ep: "pins e = pins (pool s)"
    using e(3) zy(2) u(5) t(3) by (simp add: fun_eq_iff)
  have "inserted s rs rows row r (y\<lparr>pool := e\<rparr>)"
    unfolding inserted_def
  proof (intro conjI allI impI)
    show "rid_pid r = int (target_pid (pool s))" by (simp add: r_def p_def)
    show "healthy (pool (y\<lparr>pool := e\<rparr>))" "pins (pool (y\<lparr>pool := e\<rparr>)) = pins (pool s)"
      "LSN (y\<lparr>pool := e\<rparr>) = LSN s + 1" using e(2) ep zy(3) by simp_all
    show "wal_of (pool (y\<lparr>pool := e\<rparr>)) = log_file (rs @ [commit_record (LSN s + 1) r row])"
      using zy(4) ed by (simp add: wal_of_def)
    show "holds_rows (heap_view (pool (y\<lparr>pool := e\<rparr>)) (rid_pid r)) (rows @ [row])"
      using ev [OF v] rows by (simp add: r_def)
    show "hp_lsn (heap_view (pool (y\<lparr>pool := e\<rparr>)) (rid_pid r)) = LSN s + 1"
      using ev [OF v] d(6) by (simp add: r_def mem_simps)
    show "disk_page (disk_operator (pool (y\<lparr>pool := e\<rparr>))) HEAP_PAGE (rid_pid r) =
        heap_view (pool (y\<lparr>pool := e\<rparr>)) (rid_pid r)"
      using ev [OF v] yv [OF v] zy(5) ed by (simp add: r_def)
    show "page_view (pool (y\<lparr>pool := e\<rparr>)) ty q = page_view (pool s) ty q"
      if "valid_page ty q" "ty \<noteq> HEAP_PAGE \<or> q \<noteq> rid_pid r" for ty q
    proof -
      have "page_view (pool y) ty q = page_view z ty q"
        using commit_others [OF c a y [unfolded x] that] by simp
      moreover have "page_view z ty q = page_view u ty q"
        using rewritten_view [OF u(2) occ that(1), of m True] that(2) u(3) by (auto simp: z_def holds_page_def r_def)
      ultimately show ?thesis using same_pages_trans [OF t(4) u(6)] e(4) that(1) by (simp add: same_pages_def)
    qed
  qed
  then show ?thesis using er by blast
qed

lemma insertable_sample: "insertable sample_db [] [] sample_row"
proof -
  have n: "\<not> exhausted ((pins (pool sample_db))(i := pins (pool sample_db) i + 1))" for i
    unfolding sample_db_def exhausted_def
    by (auto simp: sample_disk_def intro!: exI [of _ "if i = 0 then 1 else 0 :: nat"] split: if_splits)
  have "db_file (disk_operator (pool sample_db)) = []"
    by (simp add: sample_db_def sample_disk_def)
  moreover have "target_pid (pool sample_db) = 0"
    by (simp add: target_pid_def sample_db_def sample_disk_def)
  moreover have "zero_page = (\<lambda>_. 0)" by (simp add: fun_eq_iff zero_page_def)
  ultimately show ?thesis
    using n sample_facts sample_page_facts sample_row_facts
    by (simp add: insertable_def)
qed

section \<open>Insertions and deletions that go wrong\<close>

lemma create_entry_fails:
  assumes h: "healthy (pool s)" "\<not> exhausted (pins (pool s))" "length (db_file (disk_operator (pool s))) < 2147483648"
    and w: "heap_write row sizes (heap_view (pool s) (int (target_pid (pool s)))) =
      (Inl e, heap_view (pool s) (int (target_pid (pool s))))"
  shows "\<exists>i t. create_entry n row sizes root use_index s = (Inl e, t) \<and>
      pins (pool t) = (pins (pool s))(i := pins (pool s) i + 1) \<and> same_pages (pool s) (pool t) \<and> LSN t = LSN s"
proof -
  define p where "p = int (target_pid (pool s))"
  have "target_pid (pool s) \<le> length (db_file (disk_operator (pool s)))"
    by (auto simp: target_pid_def Let_def)
  then have v: "valid_page HEAP_PAGE p" and pb: "bits_int (target_pid (pool s) mod 2 ^ 32) = p"
    using h(3) by (auto simp: valid_page_def int_range_def p_def bits_int_def)
  have lv: "0 < length (db_file (disk_operator (pool s))) \<Longrightarrow>
      valid_page HEAP_PAGE (int (length (db_file (disk_operator (pool s)))) - 1)"
    using h(3) by (cases "length (db_file (disk_operator (pool s)))") (auto simp: valid_page_def int_range_def)
  obtain t where t: "get_last_pid HEAP_PAGE (pool s) = (Inr (target_pid (pool s)), t)" "healthy t"
    "pins t = pins (pool s)" "same_pages (pool s) t"
    using get_last_pid_ok [OF h(1,2) lv] by blast
  have "\<not> exhausted (pins t)" using t(3) h(2) by simp
  from access_page [OF t(2) v this] obtain i u where u: "page_access p HEAP_PAGE t = (Inr i, u)"
    "page_of i u = heap_view t p" "pins u = (pins t)(i := pins t i + 1)" "same_pages t u" by metis
  have pg: "page_of i u = heap_view (pool s) p" using u(2) t(4) v by (simp add: same_pages_def)
  have "upd_frame i (page_data_update (\<lambda>_. page_of i u)) u = u"
    by (simp add: upd_frame_def page_of_def)
  then have "create_entry n row sizes root use_index s = (Inl e, s\<lparr>pool := u\<rparr>)"
    using t(1) u(1) w pg pb
    by (simp add: create_entry_def bindS_step on_pool_def Let_def through_page_def p_def [symmetric])
  then show ?thesis using u(3) t(3) same_pages_trans [OF t(4) u(4)] by fastforce
qed

text \<open>The byte of the row that \<open>delete_slot\<close> takes for the flag of a slot.\<close>

abbreviation flag_byte :: "RID \<Rightarrow> nat" where
  "flag_byte r \<equiv> heap_data + slot_offset (rid_slot r) + 6"

lemma delete_slot_page:
  assumes h: "healthy s" "\<not> exhausted (pins s)" "valid_page HEAP_PAGE (rid_pid r)"
    and f: "flag_byte r < page_data_size" "\<not> get_bool (heap_view s (rid_pid r)) (flag_byte r)"
  shows "\<exists>t. delete_slot r s = (Inr (), t) \<and> healthy t \<and> pins t = pins s \<and>
     (\<forall>q. valid_page HEAP_PAGE q \<longrightarrow> heap_view t q =
        (if q = rid_pid r then put_bool (flag_byte r) True (heap_view s q) else heap_view s q))"
proof -
  define p where "p = rid_pid r"
  have v: "valid_page HEAP_PAGE p" using h(3) by (simp add: p_def)
  from access_page [OF h(1) v h(2)] obtain i u where u: "page_access p HEAP_PAGE s = (Inr i, u)"
    "healthy u" "holds_page u HEAP_PAGE p i" "page_of i u = heap_view s p"
    "pins u = (pins s)(i := pins s i + 1)" "same_pages s u" .
  have occ: "i < 50" "occupied (frames u ! i)" using holds_page_occupied [OF u(2) v u(3)] by auto
  have len: "length (frames u) = 50" using u(2) pool_invD(1) by (simp add: healthy_def)
  define m where "m = put_bool (flag_byte r) True (page_of i u)"
  define z where "z = rewritten i m True u"
  have z: "healthy z" "holds_page z HEAP_PAGE p i" "pins z = pins u"
    using rewritten_healthy [OF u(2) occ] holds_page_rewritten [OF u(2,3) occ] pins_rewritten [OF occ(1) len]
    by (simp_all add: z_def)
  have zu: "upd_frame i (dirty_bit_update (\<lambda>_. True)) (upd_frame i (page_data_update (\<lambda>_. m)) u) = z"
    using occ(1) len by (simp add: z_def upd_frame_def rewritten_def Let_def)
  obtain t where t: "un_pin p HEAP_PAGE z = (Inr (), t)" "healthy t" "pins t = (pins z)(i := pins z i - 1)"
    "same_pages z t" by (rule release_page [OF z(1) v z(2)]) blast
  have "delete_slot r s = (Inr (), t)"
    using u(1,4) f zu t(1)
    by (simp add: delete_slot_def bindS_step p_def [symmetric] Let_def through_page_def set_dirty_def m_def)
  moreover have "heap_view t q = (if q = p then put_bool (flag_byte r) True (heap_view s q) else heap_view s q)"
    if "valid_page HEAP_PAGE q" for q
    using t(4) rewritten_view [OF u(2) occ that, of m True] u(3,4,6) that
    by (simp add: z_def m_def holds_page_def same_pages_def)
  moreover have "pins t = pins s" using t(3) z(3) u(5) by (simp add: fun_eq_iff)
  ultimately show ?thesis using t(2) by (auto simp: p_def)
qed

section \<open>Properties\<close>

text \<open>C23: Inserting without the index, as the only caller does (with a root and \<open>use_index\<close> false, or without a root): on a
  healthy database with a frame to spare, whose target page has room for a row that fits its columns and has
  strings shorter than 500 characters without NUL, the call succeeds.  The row is on the target page after the rows it
  held, in the pool and on disk, the page carries the new LSN, the log has one more record for the row, no other page of the heap
  or of the index changed, every frame is pinned as before, and no root is returned.\<close>

theorem create_entry_ok:
  assumes "insertable s rs rows row" "root = None \<or> \<not> use_index"
  shows "\<exists>r t. create_entry n row (row_sizes row) root use_index s =
      (Inr \<lparr>root_id = None, transaction_complete = True, rid = r\<rparr>, t) \<and> inserted s rs rows row r t"
  by (rule create_entry_inserted [OF assms])

theorem create_entry_ok_witness:
  "\<exists>r t. create_entry 0 sample_row (row_sizes sample_row) (Some 3) False sample_db =
      (Inr \<lparr>root_id = None, transaction_complete = True, rid = r\<rparr>, t) \<and>
     holds_rows (heap_view (pool t) 0) [sample_row]"
proof -
  obtain r t where "create_entry 0 sample_row (row_sizes sample_row) (Some 3) False sample_db =
      (Inr \<lparr>root_id = None, transaction_complete = True, rid = r\<rparr>, t)"
    and "inserted sample_db [] [] sample_row r t"
    using create_entry_ok [OF insertable_sample, of "Some 3" False] by blast
  then show ?thesis
    by (auto simp: inserted_def target_pid_def sample_db_def sample_disk_def)
qed

text \<open>C36: The last page with ten rows and any free payload left stops every further insertion: it throws
  "Slots Full", changes no page and leaves the frame of the page pinned once more.\<close>

theorem create_entry_slots_full:
  assumes "healthy (pool s)" "\<not> exhausted (pins (pool s))"
    and "length (db_file (disk_operator (pool s))) < 2147483648" "p + 1 = length (db_file (disk_operator (pool s)))"
    and "hp_is_initialized (heap_view (pool s) (int p))" "0 < hp_free_size (heap_view (pool s) (int p))"
    and "int MAX_SLOTS \<le> hp_slot_count (heap_view (pool s) (int p))"
  shows "\<exists>i t. create_entry n row sizes root use_index s = (Inl (Runtime ''Slots Full''), t) \<and>
      pins (pool t) = (pins (pool s))(i := pins (pool s) i + 1) \<and> same_pages (pool s) (pool t) \<and> LSN t = LSN s"
proof -
  have n: "int (length (db_file (disk_operator (pool s)))) = int p + 1"
    "length (db_file (disk_operator (pool s))) = Suc p" using assms(4) by simp_all
  have "target_pid (pool s) = p"
    using assms(6) by (simp add: target_pid_def Let_def n)
  moreover have "prepared (heap_view (pool s) (int p)) = heap_view (pool s) (int p)"
    using assms(5) by (simp add: prepared_def)
  ultimately show ?thesis
    using create_entry_fails [OF assms(1-3)] heap_write_slots_full assms(7) by simp
qed

definition page_db :: "mem \<Rightarrow> wal_db" where
  "page_db m = \<lparr>pool = new_pool (sample_disk\<lparr>db_file := [m]\<rparr>), LSN = 0\<rparr>"

lemma page_db_facts:
  "healthy (pool (page_db m))" "\<not> exhausted (pins (pool (page_db m)))"
  "heap_view (pool (page_db m)) 0 = m" "length (db_file (disk_operator (pool (page_db m)))) = 1"
  by (simp_all add: page_db_def sample_disk_def healthy_new disk_page_def)

theorem create_entry_slots_full_witness:
  "\<exists>t. create_entry 0 [VInt 1] [4] None False (page_db (set_slot_count 10 (initialize zero_page))) =
     (Inl (Runtime ''Slots Full''), t)"
proof -
  let ?m = "set_slot_count 10 (initialize zero_page)"
  have "hp_is_initialized ?m" "0 < hp_free_size ?m" "int MAX_SLOTS \<le> hp_slot_count ?m"
    by (simp_all add: mem_simps int_range_def)
  then show ?thesis
    using create_entry_slots_full [of "page_db ?m" 0 0 "[VInt 1]" "[4]" None False] page_db_facts [of ?m]
    by simp blast
qed

text \<open>Deleting a row of at least seven bytes whose seventh byte is zero succeeds, but marks the row
  itself: the slot directory of the page is as it was, with the slot not deleted, and the bytes of
  the row have changed.\<close>

theorem delete_slot_marks_row:
  assumes "healthy s" "\<not> exhausted (pins s)" "valid_page HEAP_PAGE (rid_pid r)"
    and "holds_rows (heap_view s (rid_pid r)) rows" "k < length rows"
    and "rid_slot r = hp_slot (heap_view s (rid_pid r)) k"
    and "6 < row_width (rows ! k)" "row_bytes (rows ! k) ! 6 = 0"
  shows "\<exists>t. delete_slot r s = (Inr (), t) \<and>
     (\<forall>j < MAX_SLOTS. hp_slot (heap_view t (rid_pid r)) j = hp_slot (heap_view s (rid_pid r)) j) \<and>
     \<not> deleted (hp_slot (heap_view t (rid_pid r)) k) \<and>
     \<not> row_at (heap_view t (rid_pid r)) k (rows ! k)"
proof -
  let ?m = "heap_view s (rid_pid r)"
  have ra: "row_at ?m k (rows ! k)" by (rule holds_rowsD(4) [OF assms(4,5)])
  have inv: "heap_page_inv ?m" "int k < hp_slot_count ?m" "k < MAX_SLOTS"
    using holds_rowsD(1,2,3) [OF assms(4)] assms(5) by simp_all
  have sz: "slot_size (rid_slot r) = int (row_width (rows ! k))"
    and gb: "get_bytes ?m (heap_data + slot_offset (rid_slot r)) (row_width (rows ! k)) = row_bytes (rows ! k)"
    using ra assms(6) by (simp_all add: row_at_def)
  have f: "flag_byte r < page_data_size"
    using slot_bounds(2) [OF inv(1,2)] assms(6,7) sz by simp
  have b: "get_bytes m (heap_data + slot_offset (rid_slot r)) (row_width (rows ! k)) ! 6 = m (flag_byte r)" for m
    using assms(7) by (simp add: get_bytes_def)
  have z: "\<not> get_bool ?m (flag_byte r)"
    using b [of ?m] assms(8) unfolding gb get_bool_def by simp
  obtain t where t: "delete_slot r s = (Inr (), t)" "heap_view t (rid_pid r) = put_bool (flag_byte r) True ?m"
    using delete_slot_page [OF assms(1-3) f z] assms(3) by auto
  have slots: "hp_slot (heap_view t (rid_pid r)) j = hp_slot ?m j" if "j < MAX_SLOTS" for j
    unfolding t(2) put_bool_def using that by (intro hp_put_payload(5)) simp_all
  have "heap_view t (rid_pid r) (flag_byte r) \<noteq> 0"
    using get_bool_put_bool [of "flag_byte r" True ?m] by (simp add: t(2) get_bool_def)
  then have "get_bytes (heap_view t (rid_pid r)) (heap_data + slot_offset (rid_slot r)) (row_width (rows ! k)) \<noteq> row_bytes (rows ! k)"
    using b [of "heap_view t (rid_pid r)"] assms(8) by auto
  then have "\<not> row_at (heap_view t (rid_pid r)) k (rows ! k)"
    using slots [OF inv(3)] assms(6) by (simp add: row_at_def)
  moreover have "\<not> deleted (hp_slot (heap_view t (rid_pid r)) k)"
    using slots [OF inv(3)] ra by (simp add: row_at_def)
  ultimately show ?thesis using t(1) slots by blast
qed

theorem delete_slot_marks_row_witness:
  "\<exists>m. holds_rows m [sample_row] \<and>
     (\<exists>t. delete_slot \<lparr>rid_pid = 0, rid_slot = hp_slot m 0\<rparr> (pool (page_db m)) = (Inr (), t) \<and>
       \<not> deleted (hp_slot (heap_view t 0) 0) \<and> \<not> row_at (heap_view t 0) 0 sample_row)"
proof -
  define m where "m = page_after_write sample_row (prepared (\<lambda>_. 0))"
  have h: "holds_rows m [sample_row]"
    using holds_rows_write [OF sample_page_facts sample_row_facts(1)] by (simp add: m_def)
  define r where "r = \<lparr>rid_pid = 0, rid_slot = hp_slot m 0\<rparr>"
  have b: "row_bytes sample_row ! 6 = 0" "6 < row_width sample_row"
    using sample_row_facts by (simp_all add: sample_row_def row_bytes_def nth_append)
  have "valid_page HEAP_PAGE (rid_pid r)" by (simp add: r_def valid_page_def int_range_def)
  from delete_slot_marks_row [OF page_db_facts(1,2) this, of m "[sample_row]" 0] h b
  show ?thesis by (auto simp: r_def page_db_facts(3))
qed

end
