(* ===== verification/Catalog.thy ===== *)
theory Catalog
  imports Storage_Types
begin

text \<open>
  The catalog: \<open>src/catalog_manager/schema_manager.cpp\<close> and \<open>headers/schmea_manager.hpp\<close>.  Schemas,
  tables and columns with the searches the parser and the planner make in them, and the catalog file,
  which is read when the manager is constructed and appended to when it is destroyed.
\<close>

section \<open>Data\<close>

record col_attrs =
  column_name :: string
  column_type :: SUPORTED_COLUMN_TYPE

record tables_attrs =
  heap_page_offset :: nat
  tab_page_id :: int
  tab_name :: string
  columns :: "col_attrs list"

record schema_attr =
  schema_name :: string
  tables :: "tables_attrs list"

datatype FIND_TYPE = SCHEMA | TABLE | COLUMN

datatype ENTITY_TYPE = ESchema schema_attr | ETable tables_attrs | EColumn col_attrs

type_synonym catalog = "schema_attr list"

text \<open>The parse results that change the catalog.\<close>

record SCHEMA_AST =
  schmea_name :: string

record CREATE_TABLE_AST =
  ct_name :: string
  ct_columns :: "(string \<times> SUPORTED_COLUMN_TYPE) list"

section \<open>Searches\<close>

text \<open>The three searches of \<open>entity_find\<close>; an absent context finds nothing.\<close>

definition find_schema :: "catalog \<Rightarrow> string \<Rightarrow> schema_attr option" where
  "find_schema cat name = find (\<lambda>s. name = schema_name s) cat"

definition find_table :: "catalog \<Rightarrow> string \<Rightarrow> string \<Rightarrow> tables_attrs option" where
  "find_table cat parent name =
     (case find_schema cat parent of
        None \<Rightarrow> None
      | Some s \<Rightarrow> find (\<lambda>t. name = tab_name t) (tables s))"

definition find_columns :: "catalog \<Rightarrow> string \<Rightarrow> string \<Rightarrow> string \<Rightarrow> col_attrs list option" where
  "find_columns cat grand parent name =
     (case find_table cat grand parent of
        None \<Rightarrow> None
      | Some t \<Rightarrow>
          if name = ''*'' then Some (columns t)
          else map_option (\<lambda>c. [c]) (find (\<lambda>c. name = column_name c) (columns t)))"

fun entity_find :: "catalog \<Rightarrow> FIND_TYPE \<Rightarrow> string \<Rightarrow> string option \<Rightarrow> string option \<Rightarrow>
    ENTITY_TYPE list option" where
  "entity_find cat SCHEMA child parent grand = map_option (\<lambda>s. [ESchema s]) (find_schema cat child)"
| "entity_find cat TABLE child (Some p) grand = map_option (\<lambda>t. [ETable t]) (find_table cat p child)"
| "entity_find cat TABLE child None grand = None"
| "entity_find cat COLUMN child (Some p) (Some g) = map_option (map EColumn) (find_columns cat g p child)"
| "entity_find cat COLUMN child p g = None"

definition get_schema :: "catalog \<Rightarrow> catalog \<Rightarrow> catalog" where
  "get_schema cat schemas = schemas @ map (\<lambda>s. \<lparr>schema_name = schema_name s, tables = tables s\<rparr>) cat"

section \<open>Changes\<close>

definition create_schema :: "SCHEMA_AST \<Rightarrow> catalog \<Rightarrow> catalog" where
  "create_schema ast cat = cat @ [\<lparr>schema_name = schmea_name ast, tables = []\<rparr>]"

definition table_of :: "CREATE_TABLE_AST \<Rightarrow> tables_attrs" where
  "table_of ast =
     \<lparr>heap_page_offset = 0, tab_page_id = 0, tab_name = ct_name ast,
      columns = map (\<lambda>(n, ty). \<lparr>column_name = n, column_type = ty\<rparr>) (ct_columns ast)\<rparr>"

text \<open>The table goes into every schema of that name; without one nothing happens.\<close>

definition schema_create_table :: "string \<Rightarrow> CREATE_TABLE_AST \<Rightarrow> catalog \<Rightarrow> catalog" where
  "schema_create_table name ast cat =
     map (\<lambda>s. if schema_name s = name then s\<lparr>tables := tables s @ [table_of ast]\<rparr> else s) cat"

section \<open>The catalog file\<close>

text \<open>
  \<open>fread\<close> of an object that the file does not hold in full leaves it indeterminate; a file that
  ends early is undefined behaviour from there on.  The state is the rest of the file.
\<close>

definition read_bytes :: "nat \<Rightarrow> (byte list, byte list) action" where
  "read_bytes n s =
     (if n \<le> length s then (Inr (take n s), drop n s) else (Inl (Undefined ''short read''), []))"

definition read_size :: "(byte list, nat) action" where
  "read_size = bindS (read_bytes 8) (\<lambda>b. returnS (le_value b))"

definition read_text :: "(byte list, string) action" where
  "read_text = bindS read_size (\<lambda>n. bindS (read_bytes n) (\<lambda>b. returnS (map byte_char b)))"

definition type_code :: "SUPORTED_COLUMN_TYPE \<Rightarrow> nat" where
  "type_code ty = (case ty of STRING \<Rightarrow> 0 | INTEGER \<Rightarrow> 1 | FLOATING \<Rightarrow> 2)"

definition code_type :: "nat \<Rightarrow> SUPORTED_COLUMN_TYPE result" where
  "code_type n =
     (if n = 0 then Inr STRING else if n = 1 then Inr INTEGER else if n = 2 then Inr FLOATING
      else Inl (Undefined ''column type''))"

primrec read_many :: "nat \<Rightarrow> (byte list, 'a) action \<Rightarrow> (byte list, 'a list) action" where
  "read_many 0 r = returnS []"
| "read_many (Suc n) r = bindS r (\<lambda>x. bindS (read_many n r) (\<lambda>xs. returnS (x # xs)))"

definition read_column :: "(byte list, col_attrs) action" where
  "read_column =
     bindS read_text (\<lambda>name.
     bindS (read_bytes 4) (\<lambda>b.
     bindS (liftE (code_type (le_value b))) (\<lambda>ty.
     returnS \<lparr>column_name = name, column_type = ty\<rparr>)))"

definition read_table :: "(byte list, tables_attrs) action" where
  "read_table =
     bindS read_size (\<lambda>off.
     bindS (read_bytes 4) (\<lambda>pid.
     bindS read_text (\<lambda>name.
     bindS read_size (\<lambda>n.
     bindS (read_many n read_column) (\<lambda>cols.
     returnS \<lparr>heap_page_offset = off, tab_page_id = bits_int (le_value pid), tab_name = name, columns = cols\<rparr>)))))"

definition read_schema :: "(byte list, schema_attr) action" where
  "read_schema =
     bindS read_text (\<lambda>name.
     bindS read_size (\<lambda>n.
     bindS (read_many n read_table) (\<lambda>ts.
     returnS \<lparr>schema_name = name, tables = ts\<rparr>)))"

text \<open>Every read takes bytes off the file, so the loop of \<open>deserialize\<close> ends.\<close>

definition shrinks :: "(byte list, 'a) action \<Rightarrow> bool" where
  "shrinks m \<longleftrightarrow> (\<forall>s x t. m s = (Inr x, t) \<longrightarrow> length t \<le> length s)"

lemma shrinksD: "shrinks m \<Longrightarrow> m s = (Inr x, t) \<Longrightarrow> length t \<le> length s"
  by (auto simp: shrinks_def)

lemma shrinks_bindS: "shrinks m \<Longrightarrow> (\<And>x. shrinks (f x)) \<Longrightarrow> shrinks (bindS m f)"
  unfolding shrinks_def by (auto simp: bindS_Inr_iff) (meson order_trans)

lemma shrinks_basic: "shrinks (returnS x)" "shrinks (liftE r)" "shrinks (read_bytes n)"
  by (auto simp: shrinks_def read_bytes_def split: if_splits)

lemma shrinks_read_many: "shrinks r \<Longrightarrow> shrinks (read_many n r)"
  by (induction n) (auto intro!: shrinks_bindS shrinks_basic)

lemma shrinks_reads: "shrinks read_size" "shrinks read_text" "shrinks read_column" "shrinks read_table"
proof -
  show size: "shrinks read_size" unfolding read_size_def by (intro shrinks_bindS shrinks_basic)
  show str: "shrinks read_text" unfolding read_text_def by (intro shrinks_bindS shrinks_basic size)
  show column: "shrinks read_column" unfolding read_column_def by (intro shrinks_bindS shrinks_basic str)
  show "shrinks read_table"
    unfolding read_table_def by (intro shrinks_bindS shrinks_basic str size shrinks_read_many column)
qed

lemma read_schema_shorter:
  assumes "read_schema s = (Inr x, t)"
  shows "length t < length s"
proof -
  obtain name u where r: "read_text s = (Inr name, u)" and
    k: "bindS read_size (\<lambda>n. bindS (read_many n read_table) (\<lambda>ts. returnS \<lparr>schema_name = name, tables = ts\<rparr>)) u = (Inr x, t)"
    using assms unfolding read_schema_def by (auto simp: bindS_Inr_iff)
  have "shrinks (bindS read_size (\<lambda>n. bindS (read_many n read_table)
      (\<lambda>ts. returnS \<lparr>schema_name = name, tables = ts\<rparr>)))"
    by (intro shrinks_bindS shrinks_basic shrinks_reads shrinks_read_many)
  then have "length t \<le> length u"
    using k unfolding shrinks_def by blast
  moreover have "length u < length s"
    using r by (auto simp: read_text_def read_size_def read_bytes_def bindS_Inr_iff split: if_splits)
  ultimately show ?thesis by simp
qed

function deserialize :: "byte list \<Rightarrow> catalog result \<times> byte list" where
  "deserialize s =
     (if s = [] then returnS [] s
      else bindS read_schema (\<lambda>x. bindS deserialize (\<lambda>xs. returnS (x # xs))) s)"
  by pat_completeness auto
termination
  by (relation "measure length") (auto dest: read_schema_shorter)

declare deserialize.simps [simp del]

definition size_image :: "nat \<Rightarrow> byte list" where
  "size_image n = le_bytes 8 n"

definition text_image :: "string \<Rightarrow> byte list" where
  "text_image s = size_image (length s) @ map char_byte s"

definition column_image :: "col_attrs \<Rightarrow> byte list" where
  "column_image c = text_image (column_name c) @ le_bytes 4 (type_code (column_type c))"

definition table_image :: "tables_attrs \<Rightarrow> byte list" where
  "table_image t =
     size_image (heap_page_offset t) @ le_bytes 4 (int_bits (tab_page_id t)) @ text_image (tab_name t) @
     size_image (length (columns t)) @ concat (map column_image (columns t))"

definition schema_image :: "schema_attr \<Rightarrow> byte list" where
  "schema_image s =
     text_image (schema_name s) @ size_image (length (tables s)) @ concat (map table_image (tables s))"

definition serialize :: "catalog \<Rightarrow> byte list" where
  "serialize cat = concat (map schema_image cat)"

text \<open>
  The constructor and the destructor of the manager over the contents of the file; the mode
  \<open>"ab+"\<close> puts every write at the end.
\<close>

definition open_catalog :: "byte list \<Rightarrow> catalog result" where
  "open_catalog file = (if file = [] then Inr [] else fst (deserialize file))"

definition close_catalog :: "catalog \<Rightarrow> byte list \<Rightarrow> byte list" where
  "close_catalog cat file = file @ serialize cat"

section \<open>Encodings that are read back\<close>

locale codec =
  fixes enc :: "'a \<Rightarrow> byte list"
    and dec :: "(byte list, 'a) action"
    and storable :: "'a \<Rightarrow> bool"
  assumes dec_enc: "storable x \<Longrightarrow> dec (enc x @ rest) = (Inr x, rest)"
begin

lemma dec_many: "list_all storable xs \<Longrightarrow> read_many (length xs) dec (concat (map enc xs) @ rest) = (Inr xs, rest)"
  by (induction xs) (simp_all add: bindS_step dec_enc)

end

lemma read_bytes_append [simp]: "length b = n \<Longrightarrow> read_bytes n (b @ rest) = (Inr b, rest)"
  by (simp add: read_bytes_def)

lemma read_size_image [simp]: "n < 2 ^ 64 \<Longrightarrow> read_size (size_image n @ rest) = (Inr n, rest)"
  by (simp add: read_size_def size_image_def bindS_step)

definition text_ok :: "string \<Rightarrow> bool" where
  "text_ok s \<longleftrightarrow> length s < 2 ^ 64"

lemma read_text_image: "text_ok s \<Longrightarrow> read_text (text_image s @ rest) = (Inr s, rest)"
  by (simp add: read_text_def text_image_def text_ok_def bindS_step comp_def del: power_numeral)

definition column_ok :: "col_attrs \<Rightarrow> bool" where
  "column_ok c \<longleftrightarrow> text_ok (column_name c)"

definition table_ok :: "tables_attrs \<Rightarrow> bool" where
  "table_ok t \<longleftrightarrow>
     heap_page_offset t < 2 ^ 64 \<and> int_range (tab_page_id t) \<and> text_ok (tab_name t) \<and>
     length (columns t) < 2 ^ 64 \<and> list_all column_ok (columns t)"

definition schema_ok :: "schema_attr \<Rightarrow> bool" where
  "schema_ok s \<longleftrightarrow> text_ok (schema_name s) \<and> length (tables s) < 2 ^ 64 \<and> list_all table_ok (tables s)"

lemma code_type_code [simp]: "code_type (type_code ty mod 4294967296) = Inr ty"
  by (cases ty) (simp_all add: type_code_def code_type_def)

lemma int_bits_mod [simp]: "int_bits v mod 4294967296 = int_bits v"
  using int_bits_lt [of v] by simp

interpretation texts: codec text_image read_text text_ok
  by unfold_locales (rule read_text_image)

interpretation columns_codec: codec column_image read_column column_ok
  by unfold_locales
    (simp add: column_image_def read_column_def column_ok_def bindS_step texts.dec_enc)

interpretation tables_codec: codec table_image read_table table_ok
  by unfold_locales
    (simp add: table_image_def read_table_def table_ok_def bindS_step texts.dec_enc columns_codec.dec_many)

interpretation schemas: codec schema_image read_schema schema_ok
  by unfold_locales
    (simp add: schema_image_def read_schema_def schema_ok_def bindS_step texts.dec_enc tables_codec.dec_many)

lemma schema_image_nonempty [simp]: "schema_image s \<noteq> []"
proof -
  have "0 < length (schema_image s)" by (simp add: schema_image_def size_image_def)
  then show ?thesis by fastforce
qed

lemma deserialize_serialize: "list_all schema_ok cat \<Longrightarrow> deserialize (serialize cat) = (Inr cat, [])"
proof (induction cat)
  case Nil
  then show ?case by (simp add: serialize_def deserialize.simps [of "[]"])
next
  case (Cons s cat)
  then show ?case
    by (simp add: serialize_def deserialize.simps [of "schema_image s @ concat (map schema_image cat)"]
        bindS_step schemas.dec_enc)
qed

lemma open_serialize: "list_all schema_ok cat \<Longrightarrow> open_catalog (serialize cat) = Inr cat"
  using deserialize_serialize [of cat]
  by (auto simp: open_catalog_def) (cases cat; simp add: serialize_def)

text \<open>One run of the program that changes nothing: the catalog is opened and closed.\<close>

definition idle_session :: "byte list \<Rightarrow> byte list" where
  "idle_session file = (case open_catalog file of Inl e \<Rightarrow> file | Inr cat \<Rightarrow> close_catalog cat file)"

lemma serialize_append: "serialize (c @ d) = serialize c @ serialize d"
  by (simp add: serialize_def)

lemma idle_sessions:
  "list_all schema_ok cat \<Longrightarrow>
   (idle_session ^^ k) (serialize cat) = serialize (concat (replicate (2 ^ k) cat))"
proof (induction k)
  case 0
  then show ?case by simp
next
  case (Suc k)
  define c where "c = concat (replicate (2 ^ k) cat)"
  have "list_all schema_ok c" using Suc.prems by (induction "(2::nat) ^ k") (auto simp: c_def list_all_iff)
  then have "idle_session (serialize c) = serialize (c @ c)"
    by (simp add: idle_session_def open_serialize close_catalog_def serialize_append)
  moreover have "c @ c = concat (replicate (2 ^ Suc k) cat)"
    by (simp add: c_def mult_2 replicate_add)
  ultimately show ?case using Suc by (simp add: c_def)
qed

section \<open>Tables that are found again\<close>

locale table_store =
  fixes add :: "'a \<Rightarrow> 'c \<Rightarrow> 'c"
    and look :: "'c \<Rightarrow> string \<Rightarrow> 't option"
    and key :: "'a \<Rightarrow> string"
    and made :: "'a \<Rightarrow> 't"
    and ok :: "'c \<Rightarrow> bool"
  assumes ok_add: "ok c \<Longrightarrow> ok (add a c)"
    and look_add: "ok c \<Longrightarrow> look (add a c) k =
      (case look c k of Some t \<Rightarrow> Some t | None \<Rightarrow> if key a = k then Some (made a) else None)"
begin

lemma look_adds: "ok c \<Longrightarrow> look (fold add as c) k =
    (case look c k of Some t \<Rightarrow> Some t | None \<Rightarrow> map_option made (find (\<lambda>a. key a = k) as))"
proof (induction as arbitrary: c)
  case Nil
  then show ?case by (simp split: option.split)
next
  case (Cons a as)
  then show ?case using ok_add [of c a] look_add [of c a k] by (simp split: option.split)
qed

end

lemma find_append: "find P (xs @ ys) = (case find P xs of Some x \<Rightarrow> Some x | None \<Rightarrow> find P ys)"
  by (induction xs) simp_all

lemma find_schema_create_table:
  "find_schema (schema_create_table sn ast cat) name =
     map_option (\<lambda>s. if schema_name s = sn then s\<lparr>tables := tables s @ [table_of ast]\<rparr> else s) (find_schema cat name)"
  by (induction cat) (simp_all add: find_schema_def schema_create_table_def)

lemma find_schema_name: "find_schema cat name = Some s \<Longrightarrow> schema_name s = name"
  by (auto simp: find_schema_def find_Some_iff)

interpretation schema_tables: table_store "schema_create_table sn" "\<lambda>cat. find_table cat sn" ct_name table_of
  "\<lambda>cat. find_schema cat sn \<noteq> None" for sn
  by unfold_locales
    (auto simp: find_schema_create_table find_table_def find_append find_schema_name table_of_def
      split: option.split)

lemma find_table_other_schema:
  "sn \<noteq> sn' \<Longrightarrow> find_table (schema_create_table sn ast cat) sn' name = find_table cat sn' name"
  using find_schema_name [of cat sn']
  by (auto simp: find_table_def find_schema_create_table split: option.split)

section \<open>Properties\<close>

definition people :: CREATE_TABLE_AST where
  "people = \<lparr>ct_name = ''people'', ct_columns = [(''id'', INTEGER), (''name'', STRING)]\<rparr>"

definition sample_catalog :: catalog where
  "sample_catalog = schema_create_table ''main'' people (create_schema \<lparr>schmea_name = ''main''\<rparr> [])"

lemma sample_catalog_ok: "list_all schema_ok sample_catalog"
  by (simp add: sample_catalog_def create_schema_def schema_create_table_def table_of_def people_def
      schema_ok_def table_ok_def column_ok_def text_ok_def int_range_def)

text \<open>C37: Round trip of the catalog file: what a run that started on an empty file leaves is read back
  unchanged, and a run that started on a file with tables leaves a file that gives the old catalog
  followed by the whole catalog of the run, because the destructor appends.\<close>

theorem catalog_read_back:
  assumes "list_all schema_ok old" "list_all schema_ok new"
  shows "open_catalog (close_catalog new []) = Inr new \<and>
    open_catalog (close_catalog new (serialize old)) = Inr (old @ new)"
  using assms open_serialize [of new] open_serialize [of "old @ new"]
  by (simp add: close_catalog_def serialize_append)

theorem catalog_read_back_witness:
  "open_catalog (close_catalog sample_catalog (serialize sample_catalog)) = Inr (sample_catalog @ sample_catalog)"
  using catalog_read_back [OF sample_catalog_ok sample_catalog_ok] by simp

text \<open>Every run that only opens and closes the catalog doubles it: after \<open>k\<close> runs each schema is
  there \<open>2 ^ k\<close> times.\<close>

theorem catalog_doubles:
  assumes "list_all schema_ok cat"
  shows "open_catalog ((idle_session ^^ k) (serialize cat)) = Inr (concat (replicate (2 ^ k) cat))"
proof -
  have "list_all schema_ok (concat (replicate n cat))" for n
    using assms by (induction n) simp_all
  then show ?thesis by (simp add: idle_sessions [OF assms] open_serialize)
qed

theorem catalog_doubles_witness:
  "open_catalog ((idle_session ^^ 2) (serialize sample_catalog)) = Inr (concat (replicate 4 sample_catalog))"
  using catalog_doubles [OF sample_catalog_ok, of 2] by simp

text \<open>In a new schema, after any tables have been created, the column search for \<open>*\<close> gives the columns
  of the first table created under that name, in their order, and nothing for other names; tables of
  other schemas are found as before.\<close>

theorem created_tables_found:
  assumes "find_schema cat sn = None" "sn \<noteq> sn'"
  shows "entity_find (fold (schema_create_table sn) asts (create_schema \<lparr>schmea_name = sn\<rparr> cat)) COLUMN ''*'' (Some tn) (Some sn) =
      map_option (\<lambda>a. map (\<lambda>(n, ty). EColumn \<lparr>column_name = n, column_type = ty\<rparr>) (ct_columns a))
        (find (\<lambda>a. ct_name a = tn) asts) \<and>
    find_table (fold (schema_create_table sn) asts (create_schema \<lparr>schmea_name = sn\<rparr> cat)) sn' tn = find_table cat sn' tn"
proof
  define c where "c = create_schema \<lparr>schmea_name = sn\<rparr> cat"
  have c: "find_schema c sn = Some \<lparr>schema_name = sn, tables = []\<rparr>"
    using assms(1) by (simp add: c_def create_schema_def find_schema_def find_append)
  then have "find_table (fold (schema_create_table sn) asts c) sn tn =
      map_option table_of (find (\<lambda>a. ct_name a = tn) asts)"
    using schema_tables.look_adds [of c sn asts tn] by (simp add: find_table_def)
  then show "entity_find (fold (schema_create_table sn) asts c) COLUMN ''*'' (Some tn) (Some sn) =
      map_option (\<lambda>a. map (\<lambda>(n, ty). EColumn \<lparr>column_name = n, column_type = ty\<rparr>) (ct_columns a))
        (find (\<lambda>a. ct_name a = tn) asts)"
    by (auto simp: find_columns_def table_of_def split: option.split)
  have "find_table (fold (schema_create_table sn) asts c) sn' tn = find_table c sn' tn"
    by (induction asts arbitrary: c) (simp_all add: find_table_other_schema [OF assms(2)])
  also have "find_table c sn' tn = find_table cat sn' tn"
    using assms(2) by (simp add: c_def create_schema_def find_table_def find_schema_def find_append split: option.split)
  finally show "find_table (fold (schema_create_table sn) asts c) sn' tn = find_table cat sn' tn" .
qed

theorem created_tables_found_witness:
  "entity_find sample_catalog COLUMN ''*'' (Some ''people'') (Some ''main'') =
     Some [EColumn \<lparr>column_name = ''id'', column_type = INTEGER\<rparr>, EColumn \<lparr>column_name = ''name'', column_type = STRING\<rparr>]"
  using created_tables_found [of "[]" "''main''" "''test''" "[people]" "''people''"]
  by (simp add: sample_catalog_def find_schema_def people_def)

end
