(* ===== verification/Spec2Isabelle.thy ===== *)
theory Spec2Isabelle
  imports Drawing_Worker Package_Manager Packed_Text Script_Returns Versions Random_Ids Heap_Scan Insert_Row Lock_Manager Catalog Numbers
begin

text \<open>
  \<^bold>\<open>db_scratch: a verification library\<close>

  The repository holds two programs.  One is a relational database in C++ (\<open>src/\<close>): a heap file and a B+ tree
  behind a buffer pool, a write-ahead log, a lock table, a catalog, and a small SQL front end.  The other is the
  diagram plugin of the notes of that project, one JavaScript file,
  \<open>docs/DB Scratch/.obsidian/plugins/obsidian-excalidraw-plugin/main.js\<close>: 32 lines, most of them very long.  Line
  6 is the decompressor \<open>pako\<close>, lines 12 to 27 unpack and evaluate the packed parts, line 30 is the plugin.

  \<^bold>\<open>Conventions\<close>

  Errors are values of \<open>error\<close> (\<open>Prelude\<close>); a call without a state gives a \<open>result\<close>, a call that changes objects is an
  \<open>action\<close>, which keeps the changes made before a throw, as both languages do.  Undefined behaviour of C++
  and waiting threads are errors of their own.  A C++ integer is an \<open>int\<close> with its wrap-around written out, a byte a
  number below 256, a struct in a page the bytes at its offsets (\<open>Bytes\<close>, \<open>Storage_Types\<close>).  A JavaScript string is
  the list of its UTF-16 units (\<open>Js_Text\<close>), a typed array a list, an object with changing keys a map.

  \<^bold>\<open>The plugin\<close>

  \<^item> \<open>Pako_Table\<close>, \<open>Pako_Inflate\<close>: line 6.  The checksums, the construction of the decoding tables, the state machine of
    \<open>inflate\<close> with one definition for each mode, the fast loop, and the wrapper with its chunks of 65536 bytes.
    The stream object and its state are one record \<open>zstream\<close>; inside a run the loop over the modes is a \<open>function\<close>
    with fuel.  \<open>Pako_Checks\<close> proves the checksums equal to their definitions.  \<open>Pako_Stored\<close> proves what \<open>inflate\<close> does
    with every header, and its result on every stream of stored blocks and on every prefix of one; these lemmas
    give the fuel such a stream needs, which is what the wrapper gives it.
  \<^item> \<open>Huffman_Code\<close>, \<open>Bit_Lists\<close>, \<open>Deflate_Code\<close>: the format of RFC 1950 and RFC 1951 as a reference that has nothing of the
    program: canonical codes, lists of bits, tokens, blocks, and the bits and the bytes they stand for.
    \<open>Pako_Codes\<close> proves that a table built by \<open>inflate_table\<close> decodes the canonical code of its lengths, second tables
    included.  \<open>Pako_Bits\<close> relates the bit buffer to the rest of the stream (\<open>synced\<close>), \<open>Pako_Huffman\<close> follows one
    token through the slow modes, \<open>Pako_Fast\<close> through the fast loop, \<open>Pako_Blocks\<close> a stored block and one in the
    fixed codes, \<open>Pako_Dynamic\<close> one that brings its codes.  \<open>Pako_Deflate\<close> puts them together: \<open>pako.inflate\<close> gives the
    content of every such stream of at most 65536 bytes of content (the first chunk), with a fuel linear in the tokens.
    A code sent with a block must have its tables built (\<open>block_fits\<close>): that 852 and 592 entries are enough
    for every code rests on an enumeration of codes and is asked of \<open>inflate_table\<close>, and proved for complete codes
    within the root.
  \<^item> \<open>Pako_Total\<close>, \<open>Pako_Passes\<close>, \<open>Pako_Returns\<close>: \<open>inflate\<close> ends on every input, whatever its bytes.  A table that
    \<open>inflate_table\<close> returns without an error is full (\<open>good_table\<close>), so that no lookup runs on; a measure of the state
    (\<open>weight\<close>: the bits that are left, then the order of the modes that read none) falls with every pass, one lemma for
    each mode; the calls, the members of a gzip file and the chunks follow by induction on the fuel.  16384 units for every byte are
    enough, because a byte that is left may be charged with everything a mode does before it reads again, and more fuel
    changes nothing.  \<open>Script_Returns\<close> carries this to \<open>unpackBase64Deflate\<close>.
  \<^item> \<open>Js_Text\<close>, \<open>Script\<close>: lines 2 to 23 and 27.  \<open>atob\<close> and \<open>TextDecoder\<close> with the proofs that they invert Base64 and
    UTF-8, the module wrapper, \<open>unpackBase64Deflate\<close> and the global variables the script defines.  The packed
    literals are parameters.  The locale \<open>text_pack\<close> is what the language packs rely on; it is interpreted on
    texts packed in stored blocks and, in \<open>Packed_Text\<close>, on compressed texts.
  \<^item> \<open>Lz_String\<close>, \<open>Lz_Bits\<close>, \<open>Lz_Correct\<close>, \<open>Lz_Total\<close>, \<open>Drawing_Text\<close>: \<open>LZString\<close> of line 30, the coding in which drawings are
    stored, with \<open>compress\<close>, \<open>decompress\<close> and the methods of the script interface.  The proof of the round trip
    follows the two dictionaries: the relation \<open>ready\<close> says that the decompressor is one phrase behind, every
    code sent keeps it, and the bits are carried by \<open>holds_bits\<close> (writer) and \<open>reads\<close> (reader).  The locale \<open>lz_codec\<close>
    is a coding of values as characters; its interpretations are the Base64, URI, 15-bit and 16-bit codings.  The
    loop of the decompressor has fuel for 16 bits of every character; \<open>Lz_Total\<close> shows that it never runs out.
  \<^item> \<open>Drawing_Worker\<close>: the worker program and \<open>runCompressionWorker\<close>, as a machine over events (calls, work of the
    worker, deliveries, errors, termination).
  \<^item> \<open>Error_Handler\<close>, \<open>Package_Manager\<close>, \<open>Language_Packs\<close>, \<open>Versions\<close>, \<open>Random_Ids\<close>: the classes and functions of these
    names on line 30.  The evaluation of unpacked program text is a parameter, the random source is the list of
    the arrays it gives.

  \<^bold>\<open>The database\<close>

  \<^item> \<open>Bytes\<close>, \<open>Storage_Types\<close>, \<open>Heap_Writer\<close>, \<open>Heap_Page\<close>, \<open>Heap_Rows\<close>: \<open>storage_manager/headers/types.hpp\<close> and
    \<open>heap_writer.cpp\<close> on the bytes of a page; the page invariant and the page as a list of rows.
  \<^item> \<open>Disk\<close>, \<open>Buffer_Pool\<close>, \<open>Buffer_Inv\<close>, \<open>Buffer_Access\<close>, \<open>Buffer_Store\<close>: \<open>disk_operator.hpp\<close>, where every system call may
    fail, and \<open>buffer_manager.cpp\<close>.  \<open>page_view\<close> abstracts the pool to the pages behind it; the locale \<open>page_store\<close> is
    the interface its clients use, interpreted on the pool.
  \<^item> \<open>Heap_Scan\<close>, \<open>Insert_Row\<close>: the sequential scan of \<open>access_methods.cpp\<close>, \<open>insert.cpp\<close> and \<open>delete_slot\<close>.
  \<^item> \<open>Wal\<close>, \<open>Wal_Recovery\<close>: \<open>wal/wal.cpp\<close>.  The log is the bytes of its file; the abstract log is a list of records and
    its replay a fold over it.
  \<^item> \<open>Lock_Manager\<close>: \<open>transaction_manager/lock_manager.cpp\<close> and the interleavings of transactions that wait, as an
    inductive step relation.
  \<^item> \<open>Index_Node\<close>, \<open>Index_Leaf\<close>, \<open>Index_Tree\<close>: \<open>index_writer.cpp\<close> and \<open>bptree_scan\<close>.  The descent has fuel; the height of the
    tree is enough.
  \<^item> \<open>Catalog\<close>, \<open>Numbers\<close>: \<open>catalog_manager/\<close> and the conversions of numbers that the parser and the catalog use.

  \<^bold>\<open>Not modelled\<close>

  Of the plugin: the compressor of \<open>pako\<close>, which it never calls; the bundled libraries (line 11 and the packed
  literals); lines 1, 24 to 26, 28 and 29 and the rest of line 30, which call the host application, the
  browser and the drawing library and have no source here.  Of the database: the SQL lexer, parser, planner and
  executor, the worker threads, the server, client and terminal interface, the generated protocol code, the
  tests and the build files.  In the buffer pool the queue of threads that wait for its lock is left out.
\<close>

end
